(* ===== verification/Prelude.thy ===== *)
theory Prelude
  imports Main "HOL-Library.Word" "HOL-Library.AList" "HOL-Library.List_Lexorder"
    "HOL-Library.Char_ord"
begin

unbundle bit_operations_syntax

text \<open>
  Shared vocabulary of the development: the machine types of the Rust sources, their saturating
  and checked arithmetic, hash maps as association lists with distinct keys, and the generic
  lemmas on them that the component theories use.

  A Rust byte is a HOL character (both have exactly 256 values), so that \<open>Bytes\<close>,
  \<open>&[u8]\<close> and the UTF-8 text of a \<open>String\<close> are all \<^typ>\<open>char list\<close>.
  The 64-bit integers are \<^typ>\<open>64 word\<close>; a \<open>usize\<close> that counts or measures is a
  natural number whose saturation at the 64-bit limit is written out.
\<close>

section \<open>Machine types\<close>

type_synonym byte = char
type_synonym bytes = "char list"
type_synonym u16 = "16 word"
type_synonym u32 = "32 word"
type_synonym u64 = "64 word"
type_synonym i64 = "64 word"
type_synonym f64 = "64 word"
type_synonym f32 = "32 word"

named_theorems machine_simps \<open>saturating and checked arithmetic\<close>
named_theorems hmap_simps \<open>hash maps as association lists\<close>

definition usize_max :: nat where
  "usize_max = 2 ^ 64 - 1"

definition sat_add :: "nat \<Rightarrow> nat \<Rightarrow> nat" where
  "sat_add a b = min (a + b) usize_max"

definition sat_mul :: "nat \<Rightarrow> nat \<Rightarrow> nat" where
  "sat_mul a b = min (a * b) usize_max"

definition checked_add :: "nat \<Rightarrow> nat \<Rightarrow> nat option" where
  "checked_add a b = (if a + b \<le> usize_max then Some (a + b) else None)"

definition checked_mul :: "nat \<Rightarrow> nat \<Rightarrow> nat option" where
  "checked_mul a b = (if a * b \<le> usize_max then Some (a * b) else None)"

definition u64_saturating_add :: "u64 \<Rightarrow> u64 \<Rightarrow> u64" where
  "u64_saturating_add a b = (if unat a + unat b < 2 ^ 64 then a + b else - 1)"

definition u64_saturating_sub :: "u64 \<Rightarrow> u64 \<Rightarrow> u64" where
  "u64_saturating_sub a b = (if b \<le> a then a - b else 0)"

definition u64_checked_add :: "u64 \<Rightarrow> u64 \<Rightarrow> u64 option" where
  "u64_checked_add a b = (if unat a + unat b < 2 ^ 64 then Some (a + b) else None)"

definition i64_checked_add :: "i64 \<Rightarrow> i64 \<Rightarrow> i64 option" where
  "i64_checked_add a b =
     (if - (2 ^ 63) \<le> sint a + sint b \<and> sint a + sint b < 2 ^ 63 then Some (a + b) else None)"

definition i64_checked_neg :: "i64 \<Rightarrow> i64 option" where
  "i64_checked_neg a = (if sint a = - (2 ^ 63) then None else Some (- a))"

lemma sat_add_exact [machine_simps]: "a + b \<le> usize_max \<Longrightarrow> sat_add a b = a + b"
  by (simp add: sat_add_def)

lemma sat_add_le [simp]: "sat_add a b \<le> usize_max"
  by (simp add: sat_add_def)

lemma sat_add_upper: "sat_add a b \<le> a + b"
  by (simp add: sat_add_def)

lemma checked_add_SomeD [dest]: "checked_add a b = Some c \<Longrightarrow> c = a + b"
  by (auto simp: checked_add_def split: if_splits)

lemma u64_checked_add_Some:
  "u64_checked_add a b = Some c \<longleftrightarrow> c = a + b \<and> unat a + unat b < 2 ^ 64"
  by (auto simp: u64_checked_add_def)

lemma unat_add_no_overflow: "unat a + unat b < 2 ^ 64 \<Longrightarrow> unat (a + b :: u64) = unat a + unat b"
  by (simp add: unat_word_ariths)

lemma unat_u64_saturating_add [machine_simps]:
  "unat (u64_saturating_add a b) = min (unat a + unat b) (2 ^ 64 - 1)"
proof (cases "unat a + unat b < 2 ^ 64")
  case True
  then show ?thesis by (simp add: u64_saturating_add_def unat_word_ariths)
next
  case False
  have "unat (- 1 :: u64) = 2 ^ 64 - 1"
    by (simp add: unsigned_minus_1_eq_mask mask_eq_exp_minus_1)
  with False show ?thesis by (simp add: u64_saturating_add_def)
qed

lemma i64_checked_add_Some:
  assumes "i64_checked_add a b = Some c"
  shows "sint c = sint a + sint b"
proof -
  from assms have c: "c = a + b"
    and r: "- (2 ^ 63) \<le> sint a + sint b" "sint a + sint b < 2 ^ 63"
    by (auto simp: i64_checked_add_def split: if_splits)
  then show ?thesis
    by (simp add: sint_word_ariths signed_take_bit_int_eq_self)
qed

section \<open>Bytes and words\<close>

definition byte_of :: "'a::len word \<Rightarrow> byte" where
  "byte_of w = char_of (unat w)"

definition word_of_byte :: "byte \<Rightarrow> 'a::len word" where
  "word_of_byte c = word_of_nat (of_char c)"

lemma of_char_less [simp]: "of_char c < (256::nat)"
  by simp

lemma byte_of_word_of_byte [simp]:
  "8 \<le> LENGTH('a) \<Longrightarrow> byte_of (word_of_byte c :: 'a::len word) = c"
proof -
  assume len: "8 \<le> LENGTH('a)"
  have "of_char c < (256::nat)" by simp
  also have "(256::nat) = 2 ^ 8" by simp
  also have "(2::nat) ^ 8 \<le> 2 ^ LENGTH('a)" using len by (rule power_increasing) simp
  finally have "unat (word_of_nat (of_char c) :: 'a word) = of_char c"
    by (simp add: unsigned_of_nat take_bit_nat_eq_self)
  then show ?thesis by (simp add: byte_of_def word_of_byte_def)
qed

section \<open>Hash maps as association lists\<close>

text \<open>
  A \<open>HashMap\<close> is an association list with distinct keys; its iteration order, which Rust
  leaves unspecified, is the order of the list.
\<close>

type_synonym ('k, 'v) hmap = "('k \<times> 'v) list"

abbreviation hm_get :: "('k, 'v) hmap \<Rightarrow> 'k \<Rightarrow> 'v option" where
  "hm_get \<equiv> map_of"

abbreviation hm_insert :: "'k \<Rightarrow> 'v \<Rightarrow> ('k, 'v) hmap \<Rightarrow> ('k, 'v) hmap" where
  "hm_insert \<equiv> AList.update"

abbreviation hm_remove :: "'k \<Rightarrow> ('k, 'v) hmap \<Rightarrow> ('k, 'v) hmap" where
  "hm_remove \<equiv> AList.delete"

abbreviation hm_wf :: "('k, 'v) hmap \<Rightarrow> bool" where
  "hm_wf m \<equiv> distinct (map fst m)"

definition hm_sum :: "('k \<times> 'v \<Rightarrow> nat) \<Rightarrow> ('k, 'v) hmap \<Rightarrow> nat" where
  "hm_sum f m = sum_list (map f m)"

lemma hm_sum_Nil [simp]: "hm_sum f [] = 0"
  by (simp add: hm_sum_def)

lemma hm_sum_Cons [simp]: "hm_sum f (kv # m) = f kv + hm_sum f m"
  by (simp add: hm_sum_def)

lemma hm_sum_append [simp]: "hm_sum f (m @ n) = hm_sum f m + hm_sum f n"
  by (simp add: hm_sum_def)

lemma hm_sum_one [simp]: "hm_sum (\<lambda>_. Suc 0) m = length m"
  by (induction m) auto

lemma hm_get_insert [hmap_simps]: "hm_get (hm_insert k v m) = (hm_get m)(k \<mapsto> v)"
  by (rule update_conv')

lemma hm_get_remove [hmap_simps]: "hm_get (hm_remove k m) = (hm_get m)(k := None)"
  by (rule delete_conv')

lemma hm_wf_insert [simp, intro]: "hm_wf m \<Longrightarrow> hm_wf (hm_insert k v m)"
  by (rule distinct_update)

lemma hm_wf_remove [simp, intro]: "hm_wf m \<Longrightarrow> hm_wf (hm_remove k m)"
  by (simp add: distinct_delete)

lemma hm_remove_fresh: "hm_get m k = None \<Longrightarrow> hm_remove k m = m"
  by (induction m) (auto split: if_splits)

lemma hm_insert_fresh: "hm_get m k = None \<Longrightarrow> hm_insert k v m = m @ [(k, v)]"
  by (induction m) (auto split: if_splits)

lemma hm_sum_insert:
  "hm_wf m \<Longrightarrow>
    hm_sum f (hm_insert k v m) + (case hm_get m k of None \<Rightarrow> 0 | Some old \<Rightarrow> f (k, old)) =
    hm_sum f m + f (k, v)"
proof (induction m)
  case (Cons kv m)
  obtain k' v' where kv: "kv = (k', v')" by (cases kv)
  show ?case
  proof (cases "k = k'")
    case True
    with Cons.prems kv show ?thesis by (simp add: map_of_eq_None_iff)
  next
    case False
    with Cons kv show ?thesis by (auto split: option.splits)
  qed
qed simp

lemma hm_sum_remove:
  "hm_wf m \<Longrightarrow>
    hm_sum f (hm_remove k m) + (case hm_get m k of None \<Rightarrow> 0 | Some old \<Rightarrow> f (k, old)) =
    hm_sum f m"
proof (induction m)
  case (Cons kv m)
  obtain k' v' where kv: "kv = (k', v')" by (cases kv)
  show ?case
  proof (cases "k = k'")
    case True
    with Cons.prems kv have "hm_get m k = None" by (auto simp: map_of_eq_None_iff)
    with True kv show ?thesis by (simp add: hm_remove_fresh)
  next
    case False
    with Cons kv show ?thesis by (auto split: option.splits)
  qed
qed simp

lemma map_of_filter_other: "P k \<Longrightarrow> map_of (filter (\<lambda>p. P (fst p)) m) k = map_of m k"
  by (induction m) auto

lemma map_of_filter_none: "\<not> P k \<Longrightarrow> map_of (filter (\<lambda>p. P (fst p)) m) k = None"
  by (induction m) auto

lemma hm_sum_filter_le: "hm_sum f (filter P m) \<le> hm_sum f m"
  by (induction m) auto

lemma hm_sum_partition: "hm_sum f (filter P m) + hm_sum f (filter (\<lambda>x. \<not> P x) m) = hm_sum f m"
  by (induction m) auto

lemma map_of_eq_sum:
  assumes "hm_wf m" and "hm_wf n" and "hm_get m = hm_get n"
  shows "hm_sum f m = hm_sum f n"
proof -
  have "set m = set n" using assms by (metis map_of_inject_set)
  moreover have "distinct m" "distinct n" using assms by (auto simp: distinct_map)
  ultimately show ?thesis
    by (metis hm_sum_def sum.distinct_set_conv_list)
qed

lemma map_of_eq_length:
  "hm_wf m \<Longrightarrow> hm_wf n \<Longrightarrow> hm_get m = hm_get n \<Longrightarrow> length m = length n"
  using map_of_eq_sum [of m n "\<lambda>_. Suc 0"] by (simp only: hm_sum_one)

lemma map_le_sum:
  assumes "hm_wf m" and "hm_wf n" and "hm_get m \<subseteq>\<^sub>m hm_get n"
  shows "hm_sum f m \<le> hm_sum f n"
proof -
  have "set m \<subseteq> set n"
  proof
    fix kv assume "kv \<in> set m"
    then have "hm_get m (fst kv) = Some (snd kv)" using assms(1) by (simp add: map_of_is_SomeI)
    with assms(3) have "hm_get n (fst kv) = Some (snd kv)" by (metis domI map_le_def)
    then show "kv \<in> set n" using map_of_SomeD by fastforce
  qed
  moreover have "distinct m" "distinct n" using assms by (auto simp: distinct_map)
  ultimately show ?thesis
    by (simp add: hm_sum_def sum.distinct_set_conv_list [symmetric] sum_mono2)
qed

section \<open>Lists\<close>

lemma distinct_concat_nth:
  "(\<And>i. i < length xss \<Longrightarrow> distinct (xss ! i)) \<Longrightarrow>
    (\<And>i j x. i < length xss \<Longrightarrow> j < length xss \<Longrightarrow> x \<in> set (xss ! i) \<Longrightarrow> x \<in> set (xss ! j) \<Longrightarrow> i = j) \<Longrightarrow>
    distinct (concat xss)"
proof (induction xss)
  case (Cons xs xss)
  have "distinct (concat xss)"
  proof (rule Cons.IH)
    show "distinct (xss ! i)" if "i < length xss" for i using Cons.prems(1) [of "Suc i"] that by simp
    show "i = j" if "i < length xss" "j < length xss" "x \<in> set (xss ! i)" "x \<in> set (xss ! j)" for i j x
      using Cons.prems(2) [of "Suc i" "Suc j" x] that by simp
  qed
  moreover have "set xs \<inter> set (concat xss) = {}"
  proof -
    have False if "x \<in> set xs" "ys \<in> set xss" "x \<in> set ys" for x ys
    proof -
      from that(2) obtain j where "j < length xss" "ys = xss ! j" by (auto simp: in_set_conv_nth)
      with that Cons.prems(2) [of 0 "Suc j" x] show False by simp
    qed
    then show ?thesis by auto
  qed
  ultimately show ?case using Cons.prems(1) [of 0] by simp
qed simp

lemma split_short: "s @ t = u @ v \<Longrightarrow> length s < length u \<Longrightarrow> \<exists>t'. s @ t' = u \<and> t' \<noteq> []"
  by (metis append_Nil2 append_eq_append_conv_if append_take_drop_id less_imp_le_nat less_irrefl_nat)

lemma split_long: "s @ t = u @ v \<Longrightarrow> \<not> length s < length u \<Longrightarrow> \<exists>s'. s = u @ s' \<and> s' @ t = v"
  by (metis append_eq_append_conv_if append_eq_conv_conj append_take_drop_id linorder_not_less)

lemma fold_sat_add:
  "a \<le> usize_max \<Longrightarrow> fold (\<lambda>size total. sat_add total size) xs a = min (a + sum_list xs) usize_max"
  by (induction xs arbitrary: a) (auto simp: sat_add_def)

end
