(* ===== verification/Values.thy ===== *)
theory Values
  imports Prelude
begin

text \<open>
  The data model of \<open>src/engine.rs\<close>: \<open>OnyxValue\<close>, \<open>DataEntry\<close>, their
  equality and their logical size, and the environment of the model, a record of everything the
  sources take from outside the repository: the wall clock, the nanosecond clock behind the
  pseudo-random eviction index, and the \<open>serde_json\<close> and \<open>crc32fast\<close> functions they
  call. Nothing is assumed of these functions except where a theorem names the hypothesis.
\<close>

section \<open>JSON documents\<close>

text \<open>
  \<open>serde_json::Value\<close> with its public constructors. A \<open>Number\<close> is identified with
  its serialised text; an object is a \<open>BTreeMap\<close>, kept as an association list sorted by
  key (the crate is built without \<open>preserve_order\<close>).
\<close>

type_synonym number = bytes

datatype json =
    JNull
  | JBool bool
  | JNumber number
  | JString bytes
  | JArray "json list"
  | JObject "(bytes \<times> json) list"

section \<open>The environment\<close>

record env =
  now :: u64
  subsec_nanos :: "nat \<Rightarrow> nat"
  json_text :: "json \<Rightarrow> bytes"
  json_parse :: "bytes \<Rightarrow> bytes + json"
  crc32 :: "bytes \<Rightarrow> u32"
  number_as_f64 :: "number \<Rightarrow> f64 option"
  number_of_i64 :: "i64 \<Rightarrow> number"
  number_of_f64 :: "f64 \<Rightarrow> number option"

section \<open>Values and entries\<close>

datatype onyx_value =
    Blob bytes
  | IntV i64
  | Float f64
  | List "bytes list"
  | Hash "(bytes, bytes) hmap"
  | Set "bytes list"
  | Json json
  | Vector "f32 list"

record data_entry =
  entry_value :: onyx_value
  expires_at :: "u64 option"
  created_at :: u64
  last_accessed :: u64

text \<open>The values the Rust types admit: no key of a hash and no member of a set twice.\<close>

fun value_ok :: "onyx_value \<Rightarrow> bool" where
  "value_ok (Hash h) = hm_wf h"
| "value_ok (Set s) = distinct s"
| "value_ok _ = True"

definition entry_expired :: "u64 \<Rightarrow> data_entry \<Rightarrow> bool" where
  "entry_expired timestamp entry = (case expires_at entry of
      None \<Rightarrow> False
    | Some expiry \<Rightarrow> expiry \<le> timestamp)"

definition is_expired :: "env \<Rightarrow> data_entry \<Rightarrow> bool" where
  "is_expired E entry = (case expires_at entry of
      Some expiry \<Rightarrow> expiry \<le> now E
    | None \<Rightarrow> False)"

lemma is_expired_eq: "is_expired E entry = entry_expired (now E) entry"
  by (simp add: is_expired_def entry_expired_def split: option.splits)

section \<open>Equality of values\<close>

text \<open>
  \<open>PartialEq\<close> as derived for \<open>OnyxValue\<close>: floats compare by IEEE 754 (a NaN differs
  from itself, the two zeros are equal), hash maps and sets by content, everything else
  structurally.
\<close>

definition f64_is_nan :: "f64 \<Rightarrow> bool" where
  "f64_is_nan w = (0x7FF0000000000000 < w AND 0x7FFFFFFFFFFFFFFF)"

definition f64_eq :: "f64 \<Rightarrow> f64 \<Rightarrow> bool" where
  "f64_eq a b = (\<not> f64_is_nan a \<and> \<not> f64_is_nan b \<and>
     (a = b \<or> (a OR b) AND 0x7FFFFFFFFFFFFFFF = 0))"

definition f32_is_nan :: "f32 \<Rightarrow> bool" where
  "f32_is_nan w = (0x7F800000 < w AND 0x7FFFFFFF)"

definition f32_eq :: "f32 \<Rightarrow> f32 \<Rightarrow> bool" where
  "f32_eq a b = (\<not> f32_is_nan a \<and> \<not> f32_is_nan b \<and>
     (a = b \<or> (a OR b) AND 0x7FFFFFFF = 0))"

definition hmap_eq :: "('k, 'v) hmap \<Rightarrow> ('k, 'v) hmap \<Rightarrow> bool" where
  "hmap_eq m n = (length m = length n \<and> list_all (\<lambda>(k, v). hm_get n k = Some v) m)"

definition hset_eq :: "'a list \<Rightarrow> 'a list \<Rightarrow> bool" where
  "hset_eq s t = (length s = length t \<and> list_all (\<lambda>x. x \<in> set t) s)"

fun value_eq :: "onyx_value \<Rightarrow> onyx_value \<Rightarrow> bool" where
  "value_eq (Blob a) (Blob b) = (a = b)"
| "value_eq (IntV a) (IntV b) = (a = b)"
| "value_eq (Float a) (Float b) = f64_eq a b"
| "value_eq (List a) (List b) = (a = b)"
| "value_eq (Hash a) (Hash b) = hmap_eq a b"
| "value_eq (Set a) (Set b) = hset_eq a b"
| "value_eq (Json a) (Json b) = (a = b)"
| "value_eq (Vector a) (Vector b) = list_all2 f32_eq a b"
| "value_eq _ _ = False"

lemma hmap_eq_iff:
  assumes "hm_wf m" and "hm_wf n"
  shows "hmap_eq m n \<longleftrightarrow> hm_get m = hm_get n"
proof
  assume eq: "hmap_eq m n"
  have sub: "set m \<subseteq> set n"
    using eq by (auto simp: hmap_eq_def list_all_iff dest: map_of_SomeD)
  have "distinct m" "distinct n" using assms by (auto simp: distinct_map)
  moreover have "length m = length n" using eq by (simp add: hmap_eq_def)
  ultimately have "card (set m) = card (set n)" by (simp add: distinct_card)
  with sub have "set m = set n" by (simp add: card_subset_eq)
  with assms show "hm_get m = hm_get n" by (metis map_of_inject_set)
next
  assume eq: "hm_get m = hm_get n"
  then have "length m = length n" by (rule map_of_eq_length [OF assms])
  moreover have "hm_get n k = Some v" if "(k, v) \<in> set m" for k v
    using map_of_is_SomeI [OF assms(1) that] eq by simp
  ultimately show "hmap_eq m n" by (auto simp: hmap_eq_def list_all_iff)
qed

lemma hset_eq_iff:
  assumes "distinct s" and "distinct t"
  shows "hset_eq s t \<longleftrightarrow> set s = set t"
proof
  assume eq: "hset_eq s t"
  then have "set s \<subseteq> set t" and "length s = length t"
    by (auto simp: hset_eq_def list_all_iff)
  moreover have "card (set s) = length s" "card (set t) = length t"
    using assms by (simp_all add: distinct_card)
  ultimately show "set s = set t" by (simp add: card_subset_eq)
next
  assume eq: "set s = set t"
  then have "length s = length t" using assms by (metis distinct_card)
  with eq show "hset_eq s t" by (auto simp: hset_eq_def list_all_iff)
qed

section \<open>Logical size\<close>

definition approx_value_size :: "env \<Rightarrow> onyx_value \<Rightarrow> nat" where
  "approx_value_size E v = (case v of
      Blob b \<Rightarrow> length b
    | IntV _ \<Rightarrow> 8
    | Float _ \<Rightarrow> 8
    | List l \<Rightarrow> fold (\<lambda>item size. sat_add size (sat_add (length item) 8)) l 0
    | Hash h \<Rightarrow> fold (\<lambda>(field, val) size.
        sat_add size (sat_add (sat_add (length field) (length val)) 16)) h 0
    | Set s \<Rightarrow> fold (\<lambda>item size. sat_add size (sat_add (length item) 8)) s 0
    | Json j \<Rightarrow> length (json_text E j)
    | Vector v \<Rightarrow> sat_mul (length v) 4)"

definition approx_entry_size :: "env \<Rightarrow> bytes \<Rightarrow> data_entry \<Rightarrow> nat" where
  "approx_entry_size E key entry =
     sat_add (sat_add (length key) (approx_value_size E (entry_value entry))) 64"

lemma approx_entry_size_ge: "64 \<le> approx_entry_size E key entry"
  by (simp add: approx_entry_size_def sat_add_def usize_max_def)

lemma approx_entry_size_le: "approx_entry_size E key entry \<le> usize_max"
  by (simp add: approx_entry_size_def)

lemma approx_entry_size_cong:
  "entry_value e = entry_value e' \<Longrightarrow> approx_entry_size E key e = approx_entry_size E key e'"
  by (simp add: approx_entry_size_def)

section \<open>Eviction policies\<close>

datatype eviction_policy =
  NoEviction | AllKeysLru | VolatileLru | AllKeysRandom | VolatileRandom

definition ascii_lower_char :: "char \<Rightarrow> char" where
  "ascii_lower_char c =
     (if CHR ''A'' \<le> c \<and> c \<le> CHR ''Z'' then char_of (of_char c + 32 :: nat) else c)"

definition ascii_upper_char :: "char \<Rightarrow> char" where
  "ascii_upper_char c =
     (if CHR ''a'' \<le> c \<and> c \<le> CHR ''z'' then char_of (of_char c - 32 :: nat) else c)"

abbreviation to_ascii_lowercase :: "bytes \<Rightarrow> bytes" where
  "to_ascii_lowercase \<equiv> map ascii_lower_char"

abbreviation to_ascii_uppercase :: "bytes \<Rightarrow> bytes" where
  "to_ascii_uppercase \<equiv> map ascii_upper_char"

definition eviction_policy_parse :: "bytes \<Rightarrow> eviction_policy option" where
  "eviction_policy_parse s = (let l = to_ascii_lowercase s in
     if l = ''noeviction'' then Some NoEviction
     else if l = ''allkeys-lru'' then Some AllKeysLru
     else if l = ''volatile-lru'' then Some VolatileLru
     else if l = ''allkeys-random'' then Some AllKeysRandom
     else if l = ''volatile-random'' then Some VolatileRandom
     else None)"

section \<open>A sample environment\<close>

text \<open>A concrete environment, for the theorems that evaluate definitions on concrete inputs.\<close>

definition sample_env :: env where
  "sample_env = \<lparr>now = 100, subsec_nanos = (\<lambda>n. 7 * n), json_text = (\<lambda>_. ''null''),
     json_parse = (\<lambda>_. Inr JNull), crc32 = (\<lambda>_. 0), number_as_f64 = (\<lambda>_. None),
     number_of_i64 = (\<lambda>_. ''0''), number_of_f64 = (\<lambda>_. None)\<rparr>"

end
