(* ===== verification/Shard_Data.thy ===== *)
theory Shard_Data
  imports Values
begin

text \<open>
  \<open>ShardData\<close> of \<open>src/engine.rs\<close>: the map of one shard, either flat or, during a
  snapshot epoch, an immutable base with the changes made since. The interface a shard relies on
  is the locale \<open>entry_map\<close>; its interpretation shows that both representations are the same
  finite map, so that the copy-on-write epoch is invisible to every client.
\<close>

section \<open>The interface of an entry map\<close>

locale entry_map =
  fixes get :: "'d \<Rightarrow> 'k \<Rightarrow> 'e option"
    and insert :: "'k \<Rightarrow> 'e \<Rightarrow> 'd \<Rightarrow> 'd"
    and remove :: "'k \<Rightarrow> 'd \<Rightarrow> 'd"
    and visit :: "'d \<Rightarrow> ('k \<times> 'e) list"
    and ok :: "'d \<Rightarrow> bool"
  assumes ok_insert: "ok d \<Longrightarrow> ok (insert k e d)"
    and ok_remove: "ok d \<Longrightarrow> ok (remove k d)"
    and get_insert: "ok d \<Longrightarrow> get (insert k e d) = (get d)(k \<mapsto> e)"
    and get_remove: "ok d \<Longrightarrow> get (remove k d) = (get d)(k := None)"
    and visit_distinct: "ok d \<Longrightarrow> hm_wf (visit d)"
    and visit_get: "ok d \<Longrightarrow> hm_get (visit d) = get d"
begin

lemma visit_sum_cong:
  "ok d \<Longrightarrow> ok d' \<Longrightarrow> get d = get d' \<Longrightarrow> hm_sum f (visit d) = hm_sum f (visit d')"
  by (rule map_of_eq_sum) (simp_all add: visit_distinct visit_get)

lemma visit_sum_insert:
  assumes "ok d" and "ok d'" and "get d' = (get d)(k \<mapsto> e)"
  shows "hm_sum f (visit d') + (case get d k of None \<Rightarrow> 0 | Some old \<Rightarrow> f (k, old)) =
    hm_sum f (visit d) + f (k, e)"
proof -
  have "hm_sum f (visit d') = hm_sum f (hm_insert k e (visit d))"
    using assms by (intro map_of_eq_sum) (simp_all add: visit_distinct visit_get hm_get_insert)
  then show ?thesis
    using assms hm_sum_insert [OF visit_distinct, of d f k e] by (simp add: visit_get)
qed

lemma visit_sum_remove:
  assumes "ok d" and "ok d'" and "get d' = (get d)(k := None)"
  shows "hm_sum f (visit d') + (case get d k of None \<Rightarrow> 0 | Some old \<Rightarrow> f (k, old)) =
    hm_sum f (visit d)"
proof -
  have "hm_sum f (visit d') = hm_sum f (hm_remove k (visit d))"
    using assms by (intro map_of_eq_sum) (simp_all add: visit_distinct visit_get hm_get_remove)
  then show ?thesis
    using assms hm_sum_remove [OF visit_distinct, of d f k] by (simp add: visit_get)
qed

lemma visit_length_insert:
  "ok d \<Longrightarrow> ok d' \<Longrightarrow> get d' = (get d)(k \<mapsto> e) \<Longrightarrow>
    length (visit d') = length (visit d) + (if get d k = None then 1 else 0)"
  using visit_sum_insert [of d d' k e "\<lambda>_. Suc 0"] by (auto split: option.splits)

lemma visit_length_remove:
  "ok d \<Longrightarrow> ok d' \<Longrightarrow> get d' = (get d)(k := None) \<Longrightarrow>
    length (visit d') + (if get d k = None then 0 else 1) = length (visit d)"
  using visit_sum_remove [of d d' k "\<lambda>_. Suc 0"] by (auto split: option.splits)

lemma visit_mem: "ok d \<Longrightarrow> (k, e) \<in> set (visit d) \<longleftrightarrow> get d k = Some e"
  using visit_distinct [of d] visit_get [of d] by (metis map_of_is_SomeI map_of_SomeD)

lemma get_le_sum: "ok d \<Longrightarrow> get d k = Some e \<Longrightarrow> f (k, e) \<le> hm_sum f (visit d)"
  unfolding hm_sum_def by (rule member_le_sum_list) (force simp: visit_mem [symmetric])+

end

section \<open>Representation and operations\<close>

datatype shard_data =
    Flat "(bytes, data_entry) hmap"
  | Snapshot "(bytes, data_entry) hmap" "(bytes, data_entry option) hmap"

fun sd_get :: "shard_data \<Rightarrow> bytes \<Rightarrow> data_entry option" where
  "sd_get (Flat data) key = hm_get data key"
| "sd_get (Snapshot base changes) key = (case hm_get changes key of
      Some (Some entry) \<Rightarrow> Some entry
    | Some None \<Rightarrow> None
    | None \<Rightarrow> hm_get base key)"

text \<open>
  \<open>get_mut\<close> hands out a reference; what is written through it is stored by
  \<open>sd_write\<close>. During an epoch the reference is into the changes, where the entry has first
  been copied.
\<close>

fun sd_get_mut :: "bytes \<Rightarrow> shard_data \<Rightarrow> data_entry option \<times> shard_data" where
  "sd_get_mut key (Flat data) = (hm_get data key, Flat data)"
| "sd_get_mut key (Snapshot base changes) =
     (let changes' = (if hm_get changes key = None
                      then hm_insert key (hm_get base key) changes else changes)
      in (Option.bind (hm_get changes' key) id, Snapshot base changes'))"

fun sd_write :: "bytes \<Rightarrow> data_entry \<Rightarrow> shard_data \<Rightarrow> shard_data" where
  "sd_write key entry (Flat data) = Flat (hm_insert key entry data)"
| "sd_write key entry (Snapshot base changes) =
     Snapshot base (hm_insert key (Some entry) changes)"

fun sd_insert :: "bytes \<Rightarrow> data_entry \<Rightarrow> shard_data \<Rightarrow> data_entry option \<times> shard_data" where
  "sd_insert key entry (Flat data) = (hm_get data key, Flat (hm_insert key entry data))"
| "sd_insert key entry (Snapshot base changes) =
     (let previous = (case hm_get changes key of
          Some previous \<Rightarrow> previous
        | None \<Rightarrow> hm_get base key)
      in (previous, Snapshot base (hm_insert key (Some entry) changes)))"

fun sd_remove :: "bytes \<Rightarrow> shard_data \<Rightarrow> data_entry option \<times> shard_data" where
  "sd_remove key (Flat data) = (hm_get data key, Flat (hm_remove key data))"
| "sd_remove key (Snapshot base changes) =
     (let previous = (case hm_get changes key of
          Some previous \<Rightarrow> previous
        | None \<Rightarrow> hm_get base key)
      in (previous, Snapshot base
           (if previous \<noteq> None then hm_insert key None changes else changes)))"

fun sd_visit :: "shard_data \<Rightarrow> (bytes \<times> data_entry) list" where
  "sd_visit (Flat data) = data"
| "sd_visit (Snapshot base changes) =
     List.map_filter (\<lambda>(key, change). map_option (Pair key) change) changes @
     filter (\<lambda>kv. hm_get changes (fst kv) = None) base"

text \<open>\<open>None\<close> is the panic "an engine snapshot epoch is already active".\<close>

fun sd_begin_snapshot :: "shard_data \<Rightarrow> ((bytes, data_entry) hmap \<times> shard_data) option" where
  "sd_begin_snapshot (Flat data) = Some (data, Snapshot data [])"
| "sd_begin_snapshot (Snapshot base changes) = None"

fun fold_change :: "bytes \<times> data_entry option \<Rightarrow> (bytes, data_entry) hmap \<Rightarrow> (bytes, data_entry) hmap"
where
  "fold_change (key, Some entry) data = hm_insert key entry data"
| "fold_change (key, None) data = hm_remove key data"

fun sd_finish_snapshot :: "shard_data \<Rightarrow> bool \<times> shard_data" where
  "sd_finish_snapshot (Flat data) = (False, Flat data)"
| "sd_finish_snapshot (Snapshot base changes) = (True, Flat (fold fold_change changes base))"

fun sd_ok :: "shard_data \<Rightarrow> bool" where
  "sd_ok (Flat data) = hm_wf data"
| "sd_ok (Snapshot base changes) = (hm_wf base \<and> hm_wf changes)"

section \<open>Both representations are one finite map\<close>

lemma sd_insert_fst [simp]: "fst (sd_insert key entry d) = sd_get d key"
  by (cases d) (auto split: option.splits)

lemma sd_remove_fst [simp]: "fst (sd_remove key d) = sd_get d key"
  by (cases d) (auto simp: Let_def split: option.splits)

lemma sd_get_mut_fst [simp]: "fst (sd_get_mut key d) = sd_get d key"
  by (cases d) (auto simp: hm_get_insert Let_def split: option.splits)

lemma sd_get_mut_snd [simp]: "sd_get (snd (sd_get_mut key d)) = sd_get d"
  by (cases d) (auto simp: hm_get_insert Let_def fun_eq_iff split: option.splits)

lemma sd_get_write [simp]: "sd_get (sd_write key entry d) = (sd_get d)(key \<mapsto> entry)"
  by (cases d) (auto simp: hm_get_insert fun_eq_iff)

lemma sd_get_insert [simp]: "sd_get (snd (sd_insert key entry d)) = (sd_get d)(key \<mapsto> entry)"
  by (cases d) (auto simp: hm_get_insert fun_eq_iff)

lemma sd_get_remove [simp]: "sd_get (snd (sd_remove key d)) = (sd_get d)(key := None)"
  by (cases d) (auto simp: hm_get_insert hm_get_remove fun_eq_iff Let_def split: option.splits)

lemma sd_ok_get_mut [simp]: "sd_ok d \<Longrightarrow> sd_ok (snd (sd_get_mut key d))"
  by (cases d) (auto simp: Let_def)

lemma sd_ok_write [simp]: "sd_ok d \<Longrightarrow> sd_ok (sd_write key entry d)"
  by (cases d) auto

lemma sd_ok_insert [simp]: "sd_ok d \<Longrightarrow> sd_ok (snd (sd_insert key entry d))"
  by (cases d) (auto simp: Let_def)

lemma sd_ok_remove [simp]: "sd_ok d \<Longrightarrow> sd_ok (snd (sd_remove key d))"
  by (cases d) (auto simp: Let_def)

lemma map_of_present_changes:
  "hm_wf changes \<Longrightarrow>
    map_of (List.map_filter (\<lambda>(key, change). map_option (Pair key) change) changes) k =
    Option.bind (hm_get changes k) id"
  by (induction changes)
    (auto simp: List.map_filter_simps map_of_eq_None_iff bind_eq_None_conv split: option.splits)

lemma fst_present_changes:
  "fst ` set (List.map_filter (\<lambda>(key, change). map_option (Pair key) change) changes) \<subseteq>
    fst ` set changes"
  by (induction changes) (auto simp: List.map_filter_simps split: option.splits)

lemma distinct_present_changes:
  "hm_wf changes \<Longrightarrow>
    hm_wf (List.map_filter (\<lambda>(key, change). map_option (Pair key) change) changes)"
proof (induction changes)
  case (Cons c changes)
  then show ?case
    using fst_present_changes [of changes]
    by (cases c) (auto simp: List.map_filter_simps split: option.splits)
qed (simp add: List.map_filter_simps)

lemma sd_visit_distinct: "sd_ok d \<Longrightarrow> hm_wf (sd_visit d)"
proof (cases d)
  case (Snapshot base changes)
  assume "sd_ok d"
  with Snapshot have wf: "hm_wf base" "hm_wf changes" by auto
  have "hm_wf (filter (\<lambda>kv. hm_get changes (fst kv) = None) base)"
    using wf(1) by (simp add: distinct_map inj_on_def)
  moreover have "fst ` set (filter (\<lambda>kv. hm_get changes (fst kv) = None) base) \<inter>
      fst ` set changes = {}"
    by (auto simp: map_of_eq_None_iff)
  with fst_present_changes [of changes]
  have "fst ` set (List.map_filter (\<lambda>(key, change). map_option (Pair key) change) changes) \<inter>
      fst ` set (filter (\<lambda>kv. hm_get changes (fst kv) = None) base) = {}"
    by blast
  ultimately show ?thesis
    unfolding Snapshot sd_visit.simps map_append distinct_append set_map
    using distinct_present_changes [OF wf(2)] by blast
qed simp

lemma sd_visit_get: "sd_ok d \<Longrightarrow> hm_get (sd_visit d) = sd_get d"
proof (cases d)
  case (Snapshot base changes)
  assume "sd_ok d"
  with Snapshot have wf: "hm_wf base" "hm_wf changes" by auto
  let ?unchanged = "\<lambda>k. hm_get changes k = None"
  show ?thesis
  proof
    fix k
    show "hm_get (sd_visit d) k = sd_get d k"
    proof (cases "hm_get changes k")
      case None
      with Snapshot wf show ?thesis
        by (simp add: map_add_def map_of_present_changes map_of_filter_other [of ?unchanged])
    next
      case (Some change)
      with Snapshot wf show ?thesis
        by (cases change)
          (simp_all add: map_add_def map_of_present_changes map_of_filter_none [of ?unchanged])
    qed
  qed
qed (simp add: fun_eq_iff)

interpretation sd: entry_map sd_get "\<lambda>k e d. snd (sd_insert k e d)" "\<lambda>k d. snd (sd_remove k d)"
  sd_visit sd_ok
  by unfold_locales (simp_all add: sd_visit_distinct sd_visit_get)

section \<open>Snapshot epochs\<close>

fun sd_base :: "shard_data \<Rightarrow> (bytes, data_entry) hmap option" where
  "sd_base (Flat data) = None"
| "sd_base (Snapshot base changes) = Some base"

lemma sd_base_live [simp]:
  "sd_base (snd (sd_get_mut key d)) = sd_base d"
  "sd_base (sd_write key entry d) = sd_base d"
  "sd_base (snd (sd_insert key entry d)) = sd_base d"
  "sd_base (snd (sd_remove key d)) = sd_base d"
  by (cases d; simp add: Let_def)+

lemma fold_change_get:
  "hm_wf changes \<Longrightarrow> hm_get (fold fold_change changes base) k = (case hm_get changes k of
      Some change \<Rightarrow> change
    | None \<Rightarrow> hm_get base k)"
proof (induction changes arbitrary: base)
  case (Cons c changes)
  obtain key change where c: "c = (key, change)" by (cases c)
  with Cons.prems have fresh: "hm_get changes key = None"
    by (simp add: map_of_eq_None_iff)
  show ?case
    using Cons c fresh
    by (cases change) (auto simp: hm_get_insert hm_get_remove split: option.splits)
qed simp

lemma fold_change_wf: "hm_wf base \<Longrightarrow> hm_wf (fold fold_change changes base)"
proof (induction changes arbitrary: base)
  case (Cons c changes)
  obtain key change where "c = (key, change)" by (cases c)
  with Cons show ?case by (cases change) auto
qed simp

lemma sd_finish_get [simp]: "sd_ok d \<Longrightarrow> sd_get (snd (sd_finish_snapshot d)) = sd_get d"
  by (cases d) (auto simp: fun_eq_iff fold_change_get split: option.splits)

lemma sd_finish_ok [simp]: "sd_ok d \<Longrightarrow> sd_ok (snd (sd_finish_snapshot d))"
  by (cases d) (auto simp: fold_change_wf)

lemma sd_finish_base [simp]: "sd_base (snd (sd_finish_snapshot d)) = None"
  by (cases d) auto

lemma sd_begin_spec:
  "sd_begin_snapshot d = Some (base, d') \<longleftrightarrow> d = Flat base \<and> d' = Snapshot base []"
  by (cases d) auto

lemma sd_begin_get: "sd_begin_snapshot d = Some (base, d') \<Longrightarrow>
    sd_get d' = sd_get d \<and> sd_ok d' = sd_ok d \<and> sd_base d' = Some base \<and> base = sd_visit d"
  by (auto simp: sd_begin_spec fun_eq_iff)

end
