(* ===== verification/Shard.thy ===== *)
theory Shard
  imports Shard_Data
begin

text \<open>
  \<open>Shard\<close> of \<open>src/engine.rs\<close>: one mutex-protected partition with its operation
  counter, modification time and logical accounting. A locked shard is a \<open>guard\<close>: the shard
  together with the engine's shared \<open>total_keys\<close> counter, which shard operations update.
  Every operation reads the clock once, as \<open>now E\<close>.
\<close>

section \<open>State\<close>

record shard =
  sdata :: shard_data
  op_count :: u64
  last_modified :: u64
  mem_bytes :: nat
  key_count :: nat

type_synonym guard = "shard \<times> nat"

datatype 'r entry_mutation = Keep 'r | Delete 'r

definition shard_new :: shard where
  "shard_new = \<lparr>sdata = Flat [], op_count = 0, last_modified = 0, mem_bytes = 0, key_count = 0\<rparr>"

definition fetch_add_total :: "nat \<Rightarrow> nat" where
  "fetch_add_total tk = (tk + 1) mod 2 ^ 64"

text \<open>\<open>fetch_update\<close> with \<open>checked_sub(1)\<close>: a zero counter is left unchanged.\<close>

definition record_key_removal :: "nat \<Rightarrow> nat" where
  "record_key_removal tk = (if tk = 0 then tk else tk - 1)"

text \<open>The accounting block that follows every physical removal of an entry.\<close>

definition account_removal :: "env \<Rightarrow> bytes \<Rightarrow> data_entry \<Rightarrow> guard \<Rightarrow> guard" where
  "account_removal E key entry g = (case g of (s, tk) \<Rightarrow>
     (s\<lparr>mem_bytes := mem_bytes s - approx_entry_size E key entry,
        key_count := key_count s - 1\<rparr>,
      record_key_removal tk))"

section \<open>Operations\<close>

definition purge_if_expired :: "env \<Rightarrow> bytes \<Rightarrow> u64 \<Rightarrow> guard \<Rightarrow> bool \<times> guard" where
  "purge_if_expired E key timestamp g = (case g of (s, tk) \<Rightarrow>
     let expired = (case sd_get (sdata s) key of
           None \<Rightarrow> False
         | Some entry \<Rightarrow> entry_expired timestamp entry)
     in if \<not> expired then (False, g)
        else (case sd_remove key (sdata s) of
            (Some entry, d) \<Rightarrow> (True, account_removal E key entry (s\<lparr>sdata := d\<rparr>, tk))
          | (None, d) \<Rightarrow> (True, (s\<lparr>sdata := d\<rparr>, tk))))"

definition shard_get :: "env \<Rightarrow> bytes \<Rightarrow> guard \<Rightarrow> data_entry option \<times> guard" where
  "shard_get E key g = (case snd (purge_if_expired E key (now E) g) of (s, tk) \<Rightarrow>
     (case sd_get_mut key (sdata s) of
        (None, d) \<Rightarrow> (None, (s\<lparr>sdata := d\<rparr>, tk))
      | (Some entry, d) \<Rightarrow>
          (let entry' = entry\<lparr>last_accessed := now E\<rparr>
           in (Some entry', (s\<lparr>sdata := sd_write key entry' d\<rparr>, tk)))))"

definition shard_insert :: "env \<Rightarrow> bytes \<Rightarrow> data_entry \<Rightarrow> guard \<Rightarrow> data_entry option \<times> guard" where
  "shard_insert E key entry g = (case g of (s, tk) \<Rightarrow>
     let new_size = approx_entry_size E key entry;
         (old, d) = sd_insert key entry (sdata s);
         s1 = s\<lparr>sdata := d, op_count := op_count s + 1, last_modified := now E\<rparr>;
         (s2, tk2) = (if old = None
            then (s1\<lparr>key_count := sat_add (key_count s1) 1\<rparr>, fetch_add_total tk)
            else (s1, tk));
         s3 = (case old of
            Some old_entry \<Rightarrow> s2\<lparr>mem_bytes := mem_bytes s2 - approx_entry_size E key old_entry\<rparr>
          | None \<Rightarrow> s2)
     in (old, (s3\<lparr>mem_bytes := sat_add (mem_bytes s3) new_size\<rparr>, tk2)))"

definition shard_remove :: "env \<Rightarrow> bytes \<Rightarrow> guard \<Rightarrow> data_entry option \<times> guard" where
  "shard_remove E key g = (case purge_if_expired E key (now E) g of
      (True, g1) \<Rightarrow> (None, g1)
    | (False, (s, tk)) \<Rightarrow>
        (let (removed, d) = sd_remove key (sdata s);
             s1 = s\<lparr>sdata := d, op_count := op_count s + 1, last_modified := now E\<rparr>
         in (removed, case removed of
              Some entry \<Rightarrow> account_removal E key entry (s1, tk)
            | None \<Rightarrow> (s1, tk))))"

fun expire_listed :: "env \<Rightarrow> bytes list \<Rightarrow> guard \<Rightarrow> guard" where
  "expire_listed E [] g = g"
| "expire_listed E (key # expired) (s, tk) = (case sd_remove key (sdata s) of
      (Some entry, d) \<Rightarrow>
        expire_listed E expired (account_removal E key entry (s\<lparr>sdata := d\<rparr>, tk))
    | (None, d) \<Rightarrow> expire_listed E expired (s\<lparr>sdata := d\<rparr>, tk))"

definition expire_keys :: "env \<Rightarrow> guard \<Rightarrow> nat \<times> guard" where
  "expire_keys E g = (case g of (s, tk) \<Rightarrow>
     let expired = map fst (filter (\<lambda>(key, entry). entry_expired (now E) entry) (sd_visit (sdata s)))
     in (length expired, expire_listed E expired g))"

definition shard_read :: "env \<Rightarrow> bytes \<Rightarrow> (data_entry \<Rightarrow> 'r) \<Rightarrow> guard \<Rightarrow> 'r option \<times> guard" where
  "shard_read E key f g = apfst (map_option f) (shard_get E key g)"

definition shard_update_if_exists_with_action ::
  "env \<Rightarrow> bytes \<Rightarrow> (onyx_value \<Rightarrow> 'r entry_mutation \<times> onyx_value) \<Rightarrow> guard \<Rightarrow> 'r option \<times> guard"
where
  "shard_update_if_exists_with_action E key f g =
     (case snd (purge_if_expired E key (now E) g) of (s, tk) \<Rightarrow>
        (case sd_get_mut key (sdata s) of
           (None, d) \<Rightarrow> (None, (s\<lparr>sdata := d\<rparr>, tk))
         | (Some entry, d) \<Rightarrow>
             (let old_size = approx_entry_size E key entry;
                  (outcome, v) = f (entry_value entry);
                  d1 = sd_write key (entry\<lparr>last_accessed := now E, entry_value := v\<rparr>) d;
                  s1 = s\<lparr>sdata := d1, op_count := op_count s + 1, last_modified := now E\<rparr>
              in (case outcome of
                   Delete r \<Rightarrow> (Some r,
                     (s1\<lparr>sdata := snd (sd_remove key d1), mem_bytes := mem_bytes s1 - old_size,
                         key_count := key_count s1 - 1\<rparr>,
                      record_key_removal tk))
                 | Keep r \<Rightarrow> (let new_size = (case sd_get d1 key of
                            Some entry \<Rightarrow> approx_entry_size E key entry
                          | None \<Rightarrow> 0)
                       in (Some r,
                         (s1\<lparr>mem_bytes := sat_add (mem_bytes s1 - old_size) new_size\<rparr>, tk)))))))"

definition shard_update_if_exists ::
  "env \<Rightarrow> bytes \<Rightarrow> (onyx_value \<Rightarrow> 'r \<times> onyx_value) \<Rightarrow> guard \<Rightarrow> 'r option \<times> guard" where
  "shard_update_if_exists E key f g =
     shard_update_if_exists_with_action E key (\<lambda>v. apfst Keep (f v)) g"

text \<open>
  The \<open>expect\<close> on \<open>get_mut\<close> cannot fail: the entry was found or has just been inserted;
  the second branch of the case is therefore never taken.
\<close>

definition shard_update_entry_or_insert_with_presence ::
  "env \<Rightarrow> bytes \<Rightarrow> onyx_value \<Rightarrow> (data_entry \<Rightarrow> bool \<Rightarrow> 'r \<times> data_entry) \<Rightarrow> guard \<Rightarrow> 'r \<times> guard"
where
  "shard_update_entry_or_insert_with_presence E key default_value f g =
     (case snd (purge_if_expired E key (now E) g) of (s, tk) \<Rightarrow>
        let s1 = s\<lparr>op_count := op_count s + 1, last_modified := now E\<rparr>;
            existed = (sd_get (sdata s1) key \<noteq> None);
            fresh = \<lparr>entry_value = default_value, expires_at = None,
                     created_at = now E, last_accessed = now E\<rparr>;
            (s2, tk2) = (if \<not> existed
               then (s1\<lparr>sdata := snd (sd_insert key fresh (sdata s1)),
                        key_count := sat_add (key_count s1) 1\<rparr>,
                     fetch_add_total tk)
               else (s1, tk));
            (found, d) = sd_get_mut key (sdata s2);
            entry = (case found of Some entry \<Rightarrow> entry | None \<Rightarrow> fresh);
            old_size = (if existed then approx_entry_size E key entry else 0);
            (r, entry') = f (entry\<lparr>last_accessed := now E\<rparr>) existed;
            new_size = approx_entry_size E key entry'
        in (r, (s2\<lparr>sdata := sd_write key entry' d,
                   mem_bytes := sat_add (mem_bytes s2 - old_size) new_size\<rparr>, tk2)))"

definition shard_update_or_insert_with_presence ::
  "env \<Rightarrow> bytes \<Rightarrow> onyx_value \<Rightarrow> (onyx_value \<Rightarrow> bool \<Rightarrow> 'r \<times> onyx_value) \<Rightarrow> guard \<Rightarrow> 'r \<times> guard"
where
  "shard_update_or_insert_with_presence E key default_value f g =
     shard_update_entry_or_insert_with_presence E key default_value
       (\<lambda>entry existed. (case f (entry_value entry) existed of
          (r, v) \<Rightarrow> (r, entry\<lparr>entry_value := v\<rparr>))) g"

definition shard_update_or_insert ::
  "env \<Rightarrow> bytes \<Rightarrow> onyx_value \<Rightarrow> (onyx_value \<Rightarrow> 'r \<times> onyx_value) \<Rightarrow> guard \<Rightarrow> 'r \<times> guard" where
  "shard_update_or_insert E key default_value f g =
     shard_update_or_insert_with_presence E key default_value (\<lambda>v _. f v) g"

definition shard_set_expiry_conditional ::
  "env \<Rightarrow> bytes \<Rightarrow> u64 \<Rightarrow> bool option \<Rightarrow> guard \<Rightarrow> bool \<times> guard" where
  "shard_set_expiry_conditional E key timestamp require_expiry g =
     (case purge_if_expired E key (now E) g of
        (True, g1) \<Rightarrow> (False, g1)
      | (False, (s, tk)) \<Rightarrow>
          (case sd_get (sdata s) key of
             None \<Rightarrow> (False, (s, tk))
           | Some found \<Rightarrow>
               if (case require_expiry of
                     None \<Rightarrow> False
                   | Some required \<Rightarrow> required \<noteq> (expires_at found \<noteq> None))
               then (False, (s, tk))
               else if timestamp \<le> now E
               then (case shard_remove E key (s, tk) of (removed, g2) \<Rightarrow> (removed \<noteq> None, g2))
               else (case sd_get_mut key (sdata s) of
                   (Some entry, d) \<Rightarrow> (True,
                     (s\<lparr>sdata := sd_write key (entry\<lparr>expires_at := Some timestamp\<rparr>) d,
                        op_count := op_count s + 1, last_modified := now E\<rparr>, tk))
                 | (None, d) \<Rightarrow> (False, (s\<lparr>sdata := d\<rparr>, tk)))))"

definition shard_set_expiry :: "env \<Rightarrow> bytes \<Rightarrow> u64 \<Rightarrow> guard \<Rightarrow> bool \<times> guard" where
  "shard_set_expiry E key timestamp g = shard_set_expiry_conditional E key timestamp None g"

definition insert_if_absent :: "env \<Rightarrow> bytes \<Rightarrow> data_entry \<Rightarrow> guard \<Rightarrow> bool \<times> guard" where
  "insert_if_absent E key entry g = (case snd (purge_if_expired E key (now E) g) of (s, tk) \<Rightarrow>
     if sd_get (sdata s) key \<noteq> None then (False, (s, tk))
     else (True,
       (s\<lparr>op_count := op_count s + 1, last_modified := now E,
          sdata := snd (sd_insert key entry (sdata s)),
          mem_bytes := sat_add (mem_bytes s) (approx_entry_size E key entry),
          key_count := sat_add (key_count s) 1\<rparr>,
        fetch_add_total tk)))"

definition cheap_random_index :: "nat \<Rightarrow> nat \<Rightarrow> nat" where
  "cheap_random_index nanos len =
     (if len = 0 then 0 else (nanos * 2654435761 mod 2 ^ 64) mod len)"

definition eviction_eligible :: "eviction_policy \<Rightarrow> bytes set \<Rightarrow> bytes \<times> data_entry \<Rightarrow> bool" where
  "eviction_eligible policy protected_keys kv =
     (let only_volatile = (policy = VolatileLru \<or> policy = VolatileRandom)
      in fst kv \<notin> protected_keys \<and> (\<not> only_volatile \<or> expires_at (snd kv) \<noteq> None))"

fun lru_select :: "(bytes \<times> data_entry) list \<Rightarrow> (bytes \<times> u64) option \<Rightarrow> (bytes \<times> u64) option" where
  "lru_select [] selected = selected"
| "lru_select ((key, entry) # rest) selected =
     lru_select rest
       (if (case selected of None \<Rightarrow> True | Some (_, score) \<Rightarrow> last_accessed entry < score)
        then Some (key, last_accessed entry) else selected)"

definition eviction_candidate ::
  "eviction_policy \<Rightarrow> bytes set \<Rightarrow> nat \<Rightarrow> shard \<Rightarrow> (bytes \<times> u64) option" where
  "eviction_candidate policy protected_keys nanos s =
     (let is_random = (policy = AllKeysRandom \<or> policy = VolatileRandom);
          matching = filter (eviction_eligible policy protected_keys) (sd_visit (sdata s))
      in if is_random
         then (let selected_index = cheap_random_index nanos (length matching)
               in if selected_index < length matching
                  then Some (fst (matching ! selected_index), 0) else None)
         else lru_select matching None)"

section \<open>Accounting invariant\<close>

abbreviation sh_get :: "shard \<Rightarrow> bytes \<Rightarrow> data_entry option" where
  "sh_get s \<equiv> sd_get (sdata s)"

abbreviation sh_entries :: "shard \<Rightarrow> (bytes \<times> data_entry) list" where
  "sh_entries s \<equiv> sd_visit (sdata s)"

definition shard_bytes :: "env \<Rightarrow> shard \<Rightarrow> nat" where
  "shard_bytes E s = hm_sum (\<lambda>(key, entry). approx_entry_size E key entry) (sh_entries s)"

definition shard_ok :: "env \<Rightarrow> shard \<Rightarrow> bool" where
  "shard_ok E s \<longleftrightarrow> sd_ok (sdata s) \<and> key_count s = length (sh_entries s) \<and>
     mem_bytes s = shard_bytes E s \<and> shard_bytes E s \<le> usize_max"

lemma entries_le_bytes: "64 * length (sh_entries s) \<le> shard_bytes E s"
proof -
  have "64 * length m \<le> hm_sum (\<lambda>(key, entry). approx_entry_size E key entry) m" for m
  proof (induction m)
    case (Cons kv m)
    then show ?case using approx_entry_size_ge [of E "fst kv" "snd kv"] by (cases kv) auto
  qed simp
  then show ?thesis by (simp add: shard_bytes_def)
qed

lemma shard_new_ok [simp]: "shard_ok E shard_new"
  by (simp add: shard_ok_def shard_new_def shard_bytes_def)

lemma sh_get_new [simp]: "sh_get shard_new k = None"
  by (simp add: shard_new_def)

text \<open>
  What an operation on one key does to a locked shard: the content changes at that key only, an
  open snapshot epoch keeps its base, and, when the shard was accounted exactly, it still is and
  the shared counter moves with the number of entries. The accounting saturates, so exactness
  needs the resulting data set to fit the address space.
\<close>

definition guard_step :: "env \<Rightarrow> bytes \<Rightarrow> data_entry option \<Rightarrow> guard \<Rightarrow> guard \<Rightarrow> bool" where
  "guard_step E key v g g' \<longleftrightarrow>
     (sd_ok (sdata (fst g)) \<longrightarrow> sd_ok (sdata (fst g'))) \<and>
     sh_get (fst g') = (sh_get (fst g))(key := v) \<and>
     sd_base (sdata (fst g')) = sd_base (sdata (fst g)) \<and>
     (shard_ok E (fst g) \<and> length (sh_entries (fst g)) \<le> snd g \<and> snd g < usize_max \<and>
        shard_bytes E (fst g') \<le> usize_max \<longrightarrow>
      shard_ok E (fst g') \<and>
      snd g' + length (sh_entries (fst g)) = snd g + length (sh_entries (fst g')))"

lemma guard_step_get: "guard_step E key v g g' \<Longrightarrow> sh_get (fst g') = (sh_get (fst g))(key := v)"
  by (simp add: guard_step_def)

lemma bytes_put:
  assumes "sd_ok (sdata s)" "sd_ok (sdata s')" "sh_get s' = (sh_get s)(key \<mapsto> entry)"
  shows "shard_bytes E s' + (case sh_get s key of None \<Rightarrow> 0 | Some old \<Rightarrow> approx_entry_size E key old) =
    shard_bytes E s + approx_entry_size E key entry"
  using sd.visit_sum_insert [OF assms, of "\<lambda>(key, entry). approx_entry_size E key entry"]
  by (auto simp: shard_bytes_def split: option.splits)

lemma bytes_drop:
  assumes "sd_ok (sdata s)" "sd_ok (sdata s')" "sh_get s' = (sh_get s)(key := None)"
  shows "shard_bytes E s' + (case sh_get s key of None \<Rightarrow> 0 | Some old \<Rightarrow> approx_entry_size E key old) =
    shard_bytes E s"
  using sd.visit_sum_remove [OF assms, of "\<lambda>(key, entry). approx_entry_size E key entry"]
  by (auto simp: shard_bytes_def split: option.splits)

lemma bytes_same:
  assumes "sd_ok (sdata s)" "sd_ok (sdata s')" "sh_get s' = sh_get s"
  shows "shard_bytes E s' = shard_bytes E s" "length (sh_entries s') = length (sh_entries s)"
  using sd.visit_sum_cong [OF assms(2,1) assms(3), of "\<lambda>(key, entry). approx_entry_size E key entry"]
    sd.visit_sum_cong [OF assms(2,1) assms(3), of "\<lambda>_. Suc 0"]
  by (simp_all add: shard_bytes_def)

lemma guard_step_put:
  assumes get: "sh_get s' = (sh_get s)(key \<mapsto> entry)"
    and ok: "sd_ok (sdata s) \<Longrightarrow> sd_ok (sdata s')"
    and base: "sd_base (sdata s') = sd_base (sdata s)"
    and kc: "key_count s' = (if sh_get s key = None then sat_add (key_count s) 1 else key_count s)"
    and mem: "mem_bytes s' = sat_add
      (mem_bytes s - (case sh_get s key of None \<Rightarrow> 0 | Some old \<Rightarrow> approx_entry_size E key old))
      (approx_entry_size E key entry)"
    and tk: "tk' = (if sh_get s key = None then fetch_add_total tk else tk)"
  shows "guard_step E key (Some entry) (s, tk) (s', tk')"
proof -
  let ?old = "case sh_get s key of None \<Rightarrow> 0 | Some old \<Rightarrow> approx_entry_size E key old"
  have "shard_ok E s' \<and> tk' + length (sh_entries s) = tk + length (sh_entries s')"
    if sok: "shard_ok E s" and lt: "tk < usize_max" and fits: "shard_bytes E s' \<le> usize_max"
  proof -
    from sok have dok: "sd_ok (sdata s)" "sd_ok (sdata s')" using ok by (auto simp: shard_ok_def)
    note bytes = bytes_put [OF dok get, of E]
    note len = sd.visit_length_insert [OF dok get]
    have "?old \<le> shard_bytes E s"
      using sd.get_le_sum [OF dok(1), of key _ "\<lambda>(key, entry). approx_entry_size E key entry"]
      by (auto simp: shard_bytes_def split: option.splits)
    with bytes sok fits mem have "mem_bytes s' = shard_bytes E s'"
      by (simp add: shard_ok_def sat_add_def)
    moreover have "length (sh_entries s') \<le> usize_max"
      using entries_le_bytes [of s' E] fits by simp
    with kc len sok have "key_count s' = length (sh_entries s')"
      by (auto simp: shard_ok_def sat_add_def)
    moreover have "tk' = tk + (if sh_get s key = None then 1 else 0)"
      using tk lt by (auto simp: fetch_add_total_def usize_max_def)
    ultimately show ?thesis
      using dok(2) fits len by (auto simp: shard_ok_def)
  qed
  with get ok base show ?thesis by (auto simp: guard_step_def)
qed

lemma guard_step_drop:
  assumes get: "sh_get s' = (sh_get s)(key := None)"
    and ok: "sd_ok (sdata s) \<Longrightarrow> sd_ok (sdata s')"
    and base: "sd_base (sdata s') = sd_base (sdata s)"
    and old: "sh_get s key = Some old"
    and kc: "key_count s' = key_count s - 1"
    and mem: "mem_bytes s' = mem_bytes s - approx_entry_size E key old"
    and tk: "tk' = record_key_removal tk"
  shows "guard_step E key None (s, tk) (s', tk')"
proof -
  have "shard_ok E s' \<and> tk' + length (sh_entries s) = tk + length (sh_entries s')"
    if sok: "shard_ok E s" and le: "length (sh_entries s) \<le> tk"
  proof -
    from sok have dok: "sd_ok (sdata s)" "sd_ok (sdata s')" using ok by (auto simp: shard_ok_def)
    note bytes = bytes_drop [OF dok get, of E]
    note len = sd.visit_length_remove [OF dok get]
    from len old le have "0 < tk" by auto
    with bytes len old sok kc mem tk dok(2) show ?thesis
      by (auto simp: shard_ok_def record_key_removal_def)
  qed
  with get ok base show ?thesis by (auto simp: guard_step_def)
qed

lemma guard_step_same:
  assumes get: "sh_get s' = sh_get s" and v: "v = sh_get s key"
    and ok: "sd_ok (sdata s) \<Longrightarrow> sd_ok (sdata s')"
    and base: "sd_base (sdata s') = sd_base (sdata s)"
    and kc: "key_count s' = key_count s" and mem: "mem_bytes s' = mem_bytes s"
  shows "guard_step E key v (s, tk) (s', tk)"
proof -
  have "shard_ok E s' \<and> length (sh_entries s) = length (sh_entries s')" if sok: "shard_ok E s"
    using sok ok kc mem bytes_same [of s s'] get by (auto simp: shard_ok_def)
  with assms show ?thesis by (auto simp: guard_step_def)
qed

lemma guard_step_replace:
  assumes get: "sh_get s' = (sh_get s)(key \<mapsto> entry)"
    and ok: "sd_ok (sdata s) \<Longrightarrow> sd_ok (sdata s')"
    and base: "sd_base (sdata s') = sd_base (sdata s)"
    and old: "sh_get s key = Some old"
    and size: "approx_entry_size E key old = approx_entry_size E key entry"
    and kc: "key_count s' = key_count s" and mem: "mem_bytes s' = mem_bytes s"
  shows "guard_step E key (Some entry) (s, tk) (s', tk)"
proof -
  have "shard_ok E s' \<and> length (sh_entries s) = length (sh_entries s')" if sok: "shard_ok E s"
  proof -
    from sok have dok: "sd_ok (sdata s)" "sd_ok (sdata s')" using ok by (auto simp: shard_ok_def)
    show ?thesis
      using bytes_put [OF dok get, of E] sd.visit_length_insert [OF dok get] old size kc mem sok dok
      by (auto simp: shard_ok_def)
  qed
  with assms show ?thesis by (auto simp: guard_step_def)
qed

text \<open>
  A step that keeps or drops the entry, followed by any step on the same key, is a step: the
  intermediate state fits whenever the first one did.
\<close>

lemma guard_step_trans:
  assumes one: "guard_step E key v1 g g1" and two: "guard_step E key v2 g1 g2"
    and v1: "v1 = None \<or> v1 = sh_get (fst g) key"
  shows "guard_step E key v2 g g2"
proof -
  have "shard_ok E (fst g1) \<and> length (sh_entries (fst g1)) \<le> snd g1 \<and> snd g1 < usize_max \<and>
      snd g1 + length (sh_entries (fst g)) = snd g + length (sh_entries (fst g1))"
    if sok: "shard_ok E (fst g)" and le: "length (sh_entries (fst g)) \<le> snd g" and lt: "snd g < usize_max"
  proof -
    from one sok have dok: "sd_ok (sdata (fst g))" "sd_ok (sdata (fst g1))"
      by (auto simp: guard_step_def shard_ok_def)
    have get: "sh_get (fst g1) = (sh_get (fst g))(key := v1)" using one by (simp add: guard_step_def)
    have fewer: "shard_bytes E (fst g1) \<le> shard_bytes E (fst g) \<and>
        length (sh_entries (fst g1)) \<le> length (sh_entries (fst g))"
    proof (cases "v1 = None")
      case True
      with get have drop: "sh_get (fst g1) = (sh_get (fst g))(key := None)" by simp
      show ?thesis
        using bytes_drop [OF dok drop, of E] sd.visit_length_remove [OF dok drop]
        by (auto split: if_splits)
    next
      case False
      with v1 get have "sh_get (fst g1) = sh_get (fst g)" by (auto simp: fun_upd_idem_iff)
      with bytes_same [OF dok] show ?thesis by simp
    qed
    with one sok le lt have "shard_ok E (fst g1) \<and>
      snd g1 + length (sh_entries (fst g)) = snd g + length (sh_entries (fst g1))"
      by (auto simp: guard_step_def shard_ok_def)
    with fewer le lt show ?thesis by linarith
  qed
  with one two show ?thesis by (auto simp: guard_step_def)
qed

section \<open>Functional behaviour of the operations\<close>

text \<open>The logical content: an expired entry is absent.\<close>

definition live :: "u64 \<Rightarrow> (bytes \<Rightarrow> data_entry option) \<Rightarrow> bytes \<Rightarrow> data_entry option" where
  "live ts m key = (case m key of
      None \<Rightarrow> None
    | Some entry \<Rightarrow> if entry_expired ts entry then None else Some entry)"

abbreviation touch :: "env \<Rightarrow> data_entry \<Rightarrow> data_entry" where
  "touch E entry \<equiv> entry\<lparr>last_accessed := now E\<rparr>"

lemma live_cases: "live ts m key = None \<or> live ts m key = m key"
  by (auto simp: live_def split: option.splits)

lemma live_Some: "live ts m key = Some entry \<longleftrightarrow> m key = Some entry \<and> \<not> entry_expired ts entry"
  by (auto simp: live_def split: option.splits)

lemma purge_fst:
  "fst (purge_if_expired E key ts g) \<longleftrightarrow> live ts (sh_get (fst g)) key \<noteq> sh_get (fst g) key"
  by (cases g)
    (auto simp: purge_if_expired_def live_def case_prod_beta split: option.splits)

lemma purge_step:
  "guard_step E key (live ts (sh_get (fst g)) key) g (snd (purge_if_expired E key ts g))"
proof (cases g)
  case (Pair s tk)
  show ?thesis
  proof (cases "live ts (sh_get s) key = sh_get s key")
    case True
    then have "snd (purge_if_expired E key ts g) = g"
      using Pair by (auto simp: purge_if_expired_def live_def split: option.splits)
    with True Pair show ?thesis by (auto intro: guard_step_same)
  next
    case False
    then obtain entry where entry: "sh_get s key = Some entry" "entry_expired ts entry"
      by (auto simp: live_def split: option.splits if_splits)
    then have "live ts (sh_get s) key = None" by (simp add: live_def)
    moreover have "snd (purge_if_expired E key ts g) =
        account_removal E key entry (s\<lparr>sdata := snd (sd_remove key (sdata s))\<rparr>, tk)"
      using Pair entry by (simp add: purge_if_expired_def case_prod_beta)
    ultimately show ?thesis
      using Pair entry by (auto simp: account_removal_def intro!: guard_step_drop [where old = entry])
  qed
qed

lemma purge_get: "sh_get (fst (snd (purge_if_expired E key ts g))) =
    (sh_get (fst g))(key := live ts (sh_get (fst g)) key)"
  using purge_step [of E key ts g] by (rule guard_step_get)

text \<open>Every operation first purges the key; what remains to show is the step after that.\<close>

lemma after_purge:
  assumes "guard_step E key v (snd (purge_if_expired E key ts g)) g'"
  shows "guard_step E key v g g'"
  using purge_step assms live_cases by (rule guard_step_trans)

lemma purged:
  obtains s tk where "snd (purge_if_expired E key ts g) = (s, tk)"
    and "sh_get s = (sh_get (fst g))(key := live ts (sh_get (fst g)) key)"
    and "sh_get s key = live ts (sh_get (fst g)) key"
proof -
  obtain s tk where p: "snd (purge_if_expired E key ts g) = (s, tk)" by (metis surj_pair)
  with purge_get [of E key ts g] show ?thesis by (intro that [of s tk]) simp_all
qed

lemma shard_get_fst:
  "fst (shard_get E key g) = map_option (touch E) (live (now E) (sh_get (fst g)) key)"
  by (rule purged [of E key "now E" g])
    (simp add: shard_get_def case_prod_beta Let_def split: option.splits)

lemma shard_get_step:
  "guard_step E key (map_option (touch E) (live (now E) (sh_get (fst g)) key)) g
     (snd (shard_get E key g))"
proof (rule purged [of E key "now E" g], rule after_purge [where ts = "now E"])
  fix s tk
  assume p: "snd (purge_if_expired E key (now E) g) = (s, tk)"
    and k: "sh_get s key = live (now E) (sh_get (fst g)) key"
  show "guard_step E key (map_option (touch E) (live (now E) (sh_get (fst g)) key))
    (snd (purge_if_expired E key (now E) g)) (snd (shard_get E key g))"
  proof (cases "sh_get s key")
    case None
    have "guard_step E key None (s, tk) (s\<lparr>sdata := snd (sd_get_mut key (sdata s))\<rparr>, tk)"
      by (rule guard_step_same) (simp_all add: None)
    then show ?thesis using None by (simp add: shard_get_def p case_prod_beta k [symmetric])
  next
    case (Some entry)
    have "guard_step E key (Some (touch E entry)) (s, tk)
        (s\<lparr>sdata := sd_write key (touch E entry) (snd (sd_get_mut key (sdata s)))\<rparr>, tk)"
      by (rule guard_step_replace [OF _ _ _ Some]) (simp_all add: approx_entry_size_def)
    then show ?thesis
      using Some by (simp add: shard_get_def p case_prod_beta Let_def k [symmetric])
  qed
qed

lemma shard_insert_fst: "fst (shard_insert E key entry g) = sh_get (fst g) key"
  by (cases g) (simp add: shard_insert_def case_prod_beta Let_def)

lemma shard_insert_step: "guard_step E key (Some entry) g (snd (shard_insert E key entry g))"
proof (cases g)
  case (Pair s tk)
  show ?thesis unfolding Pair shard_insert_def Let_def case_prod_beta
    by (auto intro!: guard_step_put split: option.splits)
qed

lemma shard_remove_fst: "fst (shard_remove E key g) = live (now E) (sh_get (fst g)) key"
proof (rule purged [of E key "now E" g])
  fix s tk
  assume p: "snd (purge_if_expired E key (now E) g) = (s, tk)"
    and k: "sh_get s key = live (now E) (sh_get (fst g)) key"
  obtain purged g1 where pg: "purge_if_expired E key (now E) g = (purged, g1)" by (metis surj_pair)
  with purge_fst [of E key "now E" g] live_cases [of "now E" "sh_get (fst g)" key]
  show ?thesis using p k by (cases purged) (auto simp: shard_remove_def case_prod_beta Let_def)
qed

lemma shard_remove_step: "guard_step E key None g (snd (shard_remove E key g))"
proof (rule purged [of E key "now E" g], rule after_purge [where ts = "now E"])
  fix s tk
  assume p: "snd (purge_if_expired E key (now E) g) = (s, tk)"
    and k: "sh_get s key = live (now E) (sh_get (fst g)) key"
  show "guard_step E key None (snd (purge_if_expired E key (now E) g)) (snd (shard_remove E key g))"
  proof -
    obtain purged g1 where pg: "purge_if_expired E key (now E) g = (purged, g1)" by (metis surj_pair)
    show ?thesis
    proof (cases purged)
      case True
      with pg purge_fst [of E key "now E" g] live_cases [of "now E" "sh_get (fst g)" key] k
      have none: "sh_get s key = None" by auto
      have "guard_step E key None (s, tk) (s, tk)" by (rule guard_step_same) (simp_all add: none)
      with True pg p show ?thesis by (simp add: shard_remove_def)
    next
      case False
      let ?s1 = "s\<lparr>sdata := snd (sd_remove key (sdata s)), op_count := op_count s + 1,
        last_modified := now E\<rparr>"
      show ?thesis
      proof (cases "sh_get s key")
        case None
        have "guard_step E key None (s, tk) (?s1, tk)"
          by (rule guard_step_same) (simp_all add: None fun_upd_idem_iff)
        with False pg p None show ?thesis by (simp add: shard_remove_def case_prod_beta Let_def)
      next
        case (Some entry)
        have "guard_step E key None (s, tk) (account_removal E key entry (?s1, tk))"
          unfolding account_removal_def prod.case
          by (rule guard_step_drop [OF _ _ _ Some]) simp_all
        with False pg p Some show ?thesis by (simp add: shard_remove_def case_prod_beta Let_def)
      qed
    qed
  qed
qed

text \<open>
  The closure-taking operations, as functions of the live entry: the result they return and the
  entry they leave behind.
\<close>

definition action_result ::
  "env \<Rightarrow> (onyx_value \<Rightarrow> 'r entry_mutation \<times> onyx_value) \<Rightarrow> data_entry option \<Rightarrow>
    'r option \<times> data_entry option" where
  "action_result E f found = (case found of
      None \<Rightarrow> (None, None)
    | Some entry \<Rightarrow> (case f (entry_value entry) of
          (Keep r, v) \<Rightarrow> (Some r, Some (entry\<lparr>last_accessed := now E, entry_value := v\<rparr>))
        | (Delete r, v) \<Rightarrow> (Some r, None)))"

definition fresh_entry :: "env \<Rightarrow> onyx_value \<Rightarrow> data_entry" where
  "fresh_entry E v = \<lparr>entry_value = v, expires_at = None, created_at = now E, last_accessed = now E\<rparr>"

definition upsert_result ::
  "env \<Rightarrow> onyx_value \<Rightarrow> (data_entry \<Rightarrow> bool \<Rightarrow> 'r \<times> data_entry) \<Rightarrow> data_entry option \<Rightarrow>
    'r \<times> data_entry option" where
  "upsert_result E default_value f found = (case found of
      None \<Rightarrow> apsnd Some (f (fresh_entry E default_value) False)
    | Some entry \<Rightarrow> apsnd Some (f (touch E entry) True))"

definition expiry_result ::
  "env \<Rightarrow> u64 \<Rightarrow> bool option \<Rightarrow> data_entry option \<Rightarrow> bool \<times> data_entry option" where
  "expiry_result E timestamp require_expiry found = (case found of
      None \<Rightarrow> (False, None)
    | Some entry \<Rightarrow>
        if (case require_expiry of None \<Rightarrow> False
            | Some required \<Rightarrow> required \<noteq> (expires_at entry \<noteq> None))
        then (False, Some entry)
        else if timestamp \<le> now E then (True, None)
        else (True, Some (entry\<lparr>expires_at := Some timestamp\<rparr>)))"

lemma shard_action_fst:
  "fst (shard_update_if_exists_with_action E key f g) =
     fst (action_result E f (live (now E) (sh_get (fst g)) key))"
  by (rule purged [of E key "now E" g])
    (simp add: shard_update_if_exists_with_action_def action_result_def case_prod_beta Let_def
       split: option.splits entry_mutation.splits)

lemma shard_action_step:
  "guard_step E key (snd (action_result E f (live (now E) (sh_get (fst g)) key))) g
     (snd (shard_update_if_exists_with_action E key f g))"
proof (rule purged [of E key "now E" g], rule after_purge [where ts = "now E"])
  fix s tk
  assume p: "snd (purge_if_expired E key (now E) g) = (s, tk)"
    and k: "sh_get s key = live (now E) (sh_get (fst g)) key"
  show "guard_step E key (snd (action_result E f (live (now E) (sh_get (fst g)) key)))
    (snd (purge_if_expired E key (now E) g)) (snd (shard_update_if_exists_with_action E key f g))"
  proof (cases "sh_get s key")
    case None
    have "guard_step E key None (s, tk) (s\<lparr>sdata := snd (sd_get_mut key (sdata s))\<rparr>, tk)"
      by (rule guard_step_same) (simp_all add: None)
    then show ?thesis
      using None by (simp add: shard_update_if_exists_with_action_def action_result_def p
          case_prod_beta k [symmetric])
  next
    case (Some entry)
    obtain outcome v where f: "f (entry_value entry) = (outcome, v)" by (metis surj_pair)
    let ?d1 = "sd_write key (entry\<lparr>last_accessed := now E, entry_value := v\<rparr>)
      (snd (sd_get_mut key (sdata s)))"
    let ?s1 = "s\<lparr>sdata := ?d1, op_count := op_count s + 1, last_modified := now E\<rparr>"
    note unfold = shard_update_if_exists_with_action_def action_result_def p case_prod_beta Let_def
      k [symmetric] Some f
    show ?thesis
    proof (cases outcome)
      case (Keep r)
      have "guard_step E key (Some (entry\<lparr>last_accessed := now E, entry_value := v\<rparr>)) (s, tk)
        (?s1\<lparr>mem_bytes := sat_add (mem_bytes s - approx_entry_size E key entry)
           (approx_entry_size E key (entry\<lparr>last_accessed := now E, entry_value := v\<rparr>))\<rparr>, tk)"
        by (rule guard_step_put) (simp_all add: Some)
      then show ?thesis by (simp add: unfold Keep)
    next
      case (Delete r)
      have "guard_step E key None (s, tk)
        (?s1\<lparr>sdata := snd (sd_remove key ?d1),
             mem_bytes := mem_bytes s - approx_entry_size E key entry,
             key_count := key_count s - 1\<rparr>, record_key_removal tk)"
        by (rule guard_step_drop [OF _ _ _ Some]) simp_all
      then show ?thesis by (simp add: unfold Delete)
    qed
  qed
qed

lemma shard_upsert_fst:
  "fst (shard_update_entry_or_insert_with_presence E key default_value f g) =
     fst (upsert_result E default_value f (live (now E) (sh_get (fst g)) key))"
  by (rule purged [of E key "now E" g])
    (simp add: shard_update_entry_or_insert_with_presence_def upsert_result_def fresh_entry_def
       case_prod_beta Let_def split: option.splits)

lemma shard_upsert_step:
  "guard_step E key (snd (upsert_result E default_value f (live (now E) (sh_get (fst g)) key))) g
     (snd (shard_update_entry_or_insert_with_presence E key default_value f g))"
proof (rule purged [of E key "now E" g], rule after_purge [where ts = "now E"])
  fix s tk
  assume p: "snd (purge_if_expired E key (now E) g) = (s, tk)"
    and k: "sh_get s key = live (now E) (sh_get (fst g)) key"
  note unfold = shard_update_entry_or_insert_with_presence_def upsert_result_def fresh_entry_def
    p case_prod_beta Let_def k [symmetric]
  show "guard_step E key (snd (upsert_result E default_value f (live (now E) (sh_get (fst g)) key)))
    (snd (purge_if_expired E key (now E) g))
    (snd (shard_update_entry_or_insert_with_presence E key default_value f g))"
  proof (cases "sh_get s key")
    case None
    then show ?thesis
      by (simp add: unfold) (rule guard_step_put; simp add: None)
  next
    case (Some entry)
    then show ?thesis
      by (simp add: unfold) (rule guard_step_put; simp add: Some)
  qed
qed

lemma shard_expiry_fst:
  "fst (shard_set_expiry_conditional E key timestamp req g) =
     fst (expiry_result E timestamp req (live (now E) (sh_get (fst g)) key))"
proof (rule purged [of E key "now E" g])
  fix s tk
  assume p: "snd (purge_if_expired E key (now E) g) = (s, tk)"
    and k: "sh_get s key = live (now E) (sh_get (fst g)) key"
  obtain purged g1 where pg: "purge_if_expired E key (now E) g = (purged, g1)" by (metis surj_pair)
  have "live (now E) (sh_get s) key = sh_get s key"
    using k by (auto simp: live_def split: option.splits)
  with pg p k purge_fst [of E key "now E" g] live_cases [of "now E" "sh_get (fst g)" key]
  show ?thesis
    by (cases purged)
      (auto simp: shard_set_expiry_conditional_def expiry_result_def case_prod_beta shard_remove_fst
         split: option.splits)
qed

lemma live_idem [simp]: "live ts ((live ts m)) = live ts m"
  by (auto simp: live_def fun_eq_iff split: option.splits)

lemma shard_expiry_step:
  "guard_step E key (snd (expiry_result E timestamp req (live (now E) (sh_get (fst g)) key))) g
     (snd (shard_set_expiry_conditional E key timestamp req g))"
proof (rule purged [of E key "now E" g], rule after_purge [where ts = "now E"])
  fix s tk
  assume p: "snd (purge_if_expired E key (now E) g) = (s, tk)"
    and k: "sh_get s key = live (now E) (sh_get (fst g)) key"
  obtain purged g1 where pg: "purge_if_expired E key (now E) g = (purged, g1)" by (metis surj_pair)
  let ?v = "snd (expiry_result E timestamp req (live (now E) (sh_get (fst g)) key))"
  note unfold = shard_set_expiry_conditional_def expiry_result_def pg case_prod_beta k [symmetric]
  have keep: "guard_step E key (sh_get s key) (s, tk) (s, tk)" by (rule guard_step_same) simp_all
  show "guard_step E key ?v (snd (purge_if_expired E key (now E) g))
    (snd (shard_set_expiry_conditional E key timestamp req g))"
  proof (cases "sh_get s key")
    case None
    with keep show ?thesis using pg p by (cases purged) (simp_all add: unfold)
  next
    case (Some entry)
    with pg k purge_fst [of E key "now E" g] live_cases [of "now E" "sh_get (fst g)" key]
    have "\<not> purged" by auto
    with pg p have g1: "purge_if_expired E key (now E) g = (False, (s, tk))" by simp
    have set_it: "guard_step E key (Some (entry\<lparr>expires_at := Some timestamp\<rparr>)) (s, tk)
        (s\<lparr>sdata := sd_write key (entry\<lparr>expires_at := Some timestamp\<rparr>) (snd (sd_get_mut key (sdata s))),
           op_count := op_count s + 1, last_modified := now E\<rparr>, tk)"
      by (rule guard_step_replace [OF _ _ _ Some]) (simp_all add: approx_entry_size_def)
    show ?thesis
      using keep set_it shard_remove_step [of E key "(s, tk)"] Some g1
      by (simp add: shard_set_expiry_conditional_def expiry_result_def case_prod_beta k [symmetric]
          split: option.splits)
  qed
qed

definition absent_result :: "data_entry \<Rightarrow> data_entry option \<Rightarrow> bool \<times> data_entry option" where
  "absent_result entry found = (case found of
      None \<Rightarrow> (True, Some entry)
    | Some old \<Rightarrow> (False, Some old))"

lemma insert_if_absent_fst:
  "fst (insert_if_absent E key entry g) =
     fst (absent_result entry (live (now E) (sh_get (fst g)) key))"
  by (rule purged [of E key "now E" g])
    (simp add: insert_if_absent_def absent_result_def case_prod_beta split: option.splits)

lemma insert_if_absent_step:
  "guard_step E key (snd (absent_result entry (live (now E) (sh_get (fst g)) key))) g
     (snd (insert_if_absent E key entry g))"
proof (rule purged [of E key "now E" g], rule after_purge [where ts = "now E"])
  fix s tk
  assume p: "snd (purge_if_expired E key (now E) g) = (s, tk)"
    and k: "sh_get s key = live (now E) (sh_get (fst g)) key"
  note unfold = insert_if_absent_def absent_result_def p case_prod_beta k [symmetric]
  show "guard_step E key (snd (absent_result entry (live (now E) (sh_get (fst g)) key)))
    (snd (purge_if_expired E key (now E) g)) (snd (insert_if_absent E key entry g))"
  proof (cases "sh_get s key")
    case None
    then show ?thesis by (simp add: unfold) (rule guard_step_put; simp add: None)
  next
    case (Some old)
    then show ?thesis by (simp add: unfold) (rule guard_step_same; simp add: Some)
  qed
qed

section \<open>Whole-shard expiry\<close>

text \<open>The same contract for an operation that changes any number of keys.\<close>

definition guard_change :: "env \<Rightarrow> (bytes \<Rightarrow> data_entry option) \<Rightarrow> guard \<Rightarrow> guard \<Rightarrow> bool" where
  "guard_change E m g g' \<longleftrightarrow>
     (sd_ok (sdata (fst g)) \<longrightarrow> sd_ok (sdata (fst g'))) \<and>
     sh_get (fst g') = m \<and>
     sd_base (sdata (fst g')) = sd_base (sdata (fst g)) \<and>
     (shard_ok E (fst g) \<and> length (sh_entries (fst g)) \<le> snd g \<and> snd g < usize_max \<and>
        shard_bytes E (fst g') \<le> usize_max \<longrightarrow>
      shard_ok E (fst g') \<and>
      snd g' + length (sh_entries (fst g)) = snd g + length (sh_entries (fst g')))"

lemma guard_step_change:
  "guard_step E key v g g' = guard_change E ((sh_get (fst g))(key := v)) g g'"
  by (simp add: guard_step_def guard_change_def)

lemma guard_change_refl: "guard_change E (sh_get (fst g)) g g"
  by (simp add: guard_change_def)

lemma guard_change_trans:
  assumes one: "guard_step E key None g g1" and two: "guard_change E m g1 g2"
  shows "guard_change E m g g2"
proof -
  have "shard_ok E (fst g1) \<and> length (sh_entries (fst g1)) \<le> snd g1 \<and> snd g1 < usize_max \<and>
      snd g1 + length (sh_entries (fst g)) = snd g + length (sh_entries (fst g1))"
    if sok: "shard_ok E (fst g)" and le: "length (sh_entries (fst g)) \<le> snd g" and lt: "snd g < usize_max"
  proof -
    from one sok have dok: "sd_ok (sdata (fst g))" "sd_ok (sdata (fst g1))"
      by (auto simp: guard_step_def shard_ok_def)
    have drop: "sh_get (fst g1) = (sh_get (fst g))(key := None)"
      using one by (simp add: guard_step_def)
    have fewer: "shard_bytes E (fst g1) \<le> shard_bytes E (fst g)"
        "length (sh_entries (fst g1)) \<le> length (sh_entries (fst g))"
      using bytes_drop [OF dok drop, of E] sd.visit_length_remove [OF dok drop]
      by (auto split: if_splits)
    with one sok le lt have "shard_ok E (fst g1) \<and>
      snd g1 + length (sh_entries (fst g)) = snd g + length (sh_entries (fst g1))"
      by (auto simp: guard_step_def shard_ok_def)
    with fewer le lt show ?thesis by linarith
  qed
  with one two show ?thesis by (auto simp: guard_step_def guard_change_def)
qed

lemma expire_listed_change:
  "guard_change E (\<lambda>k. if k \<in> set keys then None else sh_get (fst g) k) g (expire_listed E keys g)"
proof (induction keys arbitrary: g)
  case Nil
  show ?case using guard_change_refl [of E g] by simp
next
  case (Cons key keys)
  obtain s tk where g: "g = (s, tk)" by (cases g)
  let ?s1 = "s\<lparr>sdata := snd (sd_remove key (sdata s))\<rparr>"
  obtain g1 where step: "guard_step E key None g g1"
    and run: "expire_listed E (key # keys) g = expire_listed E keys g1"
  proof (cases "sh_get s key")
    case None
    have "guard_step E key None (s, tk) (?s1, tk)"
      by (rule guard_step_same) (simp_all add: None fun_upd_idem_iff)
    with None g show thesis by (intro that [of "(?s1, tk)"]) (simp_all add: case_prod_beta)
  next
    case (Some entry)
    have "guard_step E key None (s, tk) (account_removal E key entry (?s1, tk))"
      unfolding account_removal_def prod.case by (rule guard_step_drop [OF _ _ _ Some]) simp_all
    with Some g show thesis
      by (intro that [of "account_removal E key entry (?s1, tk)"]) (simp_all add: case_prod_beta)
  qed
  have "(\<lambda>k. if k \<in> set keys then None else sh_get (fst g1) k) =
      (\<lambda>k. if k \<in> set (key # keys) then None else sh_get (fst g) k)"
    using guard_step_get [OF step] by auto
  with guard_change_trans [OF step Cons.IH [of g1]] run show ?case by simp
qed

lemma expire_keys_change:
  assumes "sd_ok (sdata (fst g))"
  shows "guard_change E (live (now E) (sh_get (fst g))) g (snd (expire_keys E g))"
proof -
  obtain s tk where g: "g = (s, tk)" by (cases g)
  let ?expired = "map fst (filter (\<lambda>(key, entry). entry_expired (now E) entry) (sd_visit (sdata s)))"
  have "k \<in> set ?expired \<longleftrightarrow> (\<exists>entry. sh_get s k = Some entry \<and> entry_expired (now E) entry)" for k
    using assms g by (force simp: sd.visit_mem)
  then have "(\<lambda>k. if k \<in> set ?expired then None else sh_get (fst g) k) = live (now E) (sh_get (fst g))"
    using g by (fastforce simp: live_def split: option.splits)
  with expire_listed_change [of E ?expired g] g show ?thesis by (simp add: expire_keys_def)
qed

lemma expire_keys_fst:
  "fst (expire_keys E g) = length (filter (\<lambda>(key, entry). entry_expired (now E) entry) (sh_entries (fst g)))"
  by (cases g) (simp add: expire_keys_def)

section \<open>Eviction candidates\<close>

lemma lru_select_spec:
  assumes "lru_select kvs selected = Some (key, score)"
  shows "(selected = Some (key, score) \<or> (\<exists>entry. (key, entry) \<in> set kvs \<and> score = last_accessed entry)) \<and>
    (\<forall>(k, entry) \<in> set kvs. score \<le> last_accessed entry) \<and>
    (\<forall>k sc. selected = Some (k, sc) \<longrightarrow> score \<le> sc)"
  using assms
proof (induction kvs arbitrary: selected)
  case (Cons kv kvs)
  obtain k entry where kv: "kv = (k, entry)" by (cases kv)
  let ?better = "case selected of None \<Rightarrow> True | Some (_, sc) \<Rightarrow> last_accessed entry < sc"
  show ?case
  proof (cases ?better)
    case True
    with Cons.prems kv have "lru_select kvs (Some (k, last_accessed entry)) = Some (key, score)" by simp
    note IH = Cons.IH [OF this]
    then have "score \<le> last_accessed entry" by simp
    with IH True kv show ?thesis by (cases selected) (auto split: prod.splits)
  next
    case False
    then obtain k0 sc0 where sel: "selected = Some (k0, sc0)" "sc0 \<le> last_accessed entry"
      by (auto split: option.splits)
    with False Cons.prems kv have "lru_select kvs selected = Some (key, score)" by simp
    note IH = Cons.IH [OF this]
    then have "score \<le> sc0" using sel by simp
    with IH sel kv show ?thesis by auto
  qed
qed simp

lemma lru_select_None: "lru_select kvs selected = None \<longleftrightarrow> kvs = [] \<and> selected = None"
proof (induction kvs arbitrary: selected)
  case (Cons kv kvs)
  then show ?case by (cases kv) (simp split: option.splits)
qed simp

lemma eviction_candidate_Some:
  assumes "eviction_candidate policy protected_keys nanos s = Some (key, score)"
  shows "\<exists>entry. (key, entry) \<in> set (sh_entries s) \<and> eviction_eligible policy protected_keys (key, entry) \<and>
    (policy \<in> {AllKeysLru, VolatileLru} \<longrightarrow> score = last_accessed entry)"
proof (cases "policy = AllKeysRandom \<or> policy = VolatileRandom")
  case True
  let ?m = "filter (eviction_eligible policy protected_keys) (sh_entries s)"
  let ?i = "cheap_random_index nanos (length ?m)"
  from True assms have "?i < length ?m" and key: "key = fst (?m ! ?i)"
    by (auto simp: eviction_candidate_def Let_def split: if_splits)
  then have "?m ! ?i \<in> set ?m" by (intro nth_mem)
  with key True show ?thesis by (cases "?m ! ?i") auto
next
  case False
  with assms have "lru_select (filter (eviction_eligible policy protected_keys) (sh_entries s)) None =
      Some (key, score)"
    by (auto simp: eviction_candidate_def Let_def)
  from lru_select_spec [OF this] show ?thesis by auto
qed

lemma cheap_random_index_less: "0 < len \<Longrightarrow> cheap_random_index nanos len < len"
  by (simp add: cheap_random_index_def)

lemma eviction_candidate_None:
  "eviction_candidate policy protected_keys nanos s = None \<longleftrightarrow>
    filter (eviction_eligible policy protected_keys) (sh_entries s) = []"
  using cheap_random_index_less [of "length (filter (eviction_eligible policy protected_keys) (sh_entries s))" nanos]
  by (auto simp: eviction_candidate_def Let_def lru_select_None cheap_random_index_def)

end
