(* ===== verification/Engine.thy ===== *)
theory Engine
  imports Shard
begin

text \<open>
  \<open>OnyxEngine\<close> of \<open>src/engine.rs\<close>: 64 shards behind FNV-1a routing, the
  operations on one key, the operations that visit every shard, snapshot epochs and eviction.
  \<open>contents\<close> abstracts an engine to one finite map; every operation is shown to act on that
  map, to keep the routing invariant and to keep the accounting exact.
\<close>

section \<open>State and routing\<close>

definition NUM_SHARDS :: nat where
  "NUM_SHARDS = 64"

definition hash_key :: "bytes \<Rightarrow> u64" where
  "hash_key key = fold (\<lambda>byte hash. (hash XOR word_of_byte byte) * 0x100000001b3) key
     0xcbf29ce484222325"

definition shard_for_key :: "bytes \<Rightarrow> nat" where
  "shard_for_key key = unat (hash_key key AND word_of_nat (NUM_SHARDS - 1))"

record engine =
  shards :: "shard list"
  total_keys :: nat
  snapshot_active :: bool

record engine_snapshot =
  snap_shards :: "(bytes, data_entry) hmap option list"
  captured_at :: u64
  entry_capacity :: nat

definition engine_new :: engine where
  "engine_new = \<lparr>shards = replicate NUM_SHARDS shard_new, total_keys = 0, snapshot_active = False\<rparr>"

text \<open>An operation under the lock of shard \<open>i\<close>, and a loop that locks one shard at a time.\<close>

definition with_shard :: "nat \<Rightarrow> (guard \<Rightarrow> 'r \<times> guard) \<Rightarrow> engine \<Rightarrow> 'r \<times> engine" where
  "with_shard i f e = (case f (shards e ! i, total_keys e) of (r, s, tk) \<Rightarrow>
     (r, e\<lparr>shards := (shards e)[i := s], total_keys := tk\<rparr>))"

fun for_shards :: "(guard \<Rightarrow> 'r \<times> guard) \<Rightarrow> nat list \<Rightarrow> engine \<Rightarrow> 'r list \<times> engine" where
  "for_shards f [] e = ([], e)"
| "for_shards f (i # rest) e = (case with_shard i f e of (r, e1) \<Rightarrow>
     apfst (Cons r) (for_shards f rest e1))"

abbreviation all_shards :: "(guard \<Rightarrow> 'r \<times> guard) \<Rightarrow> engine \<Rightarrow> 'r list \<times> engine" where
  "all_shards f e \<equiv> for_shards f [0..<length (shards e)] e"

section \<open>Operations on one key\<close>

definition physical_key_count :: "engine \<Rightarrow> nat" where
  "physical_key_count e = total_keys e"

definition engine_get :: "env \<Rightarrow> bytes \<Rightarrow> engine \<Rightarrow> data_entry option \<times> engine" where
  "engine_get E key = with_shard (shard_for_key key) (shard_get E key)"

definition peek :: "env \<Rightarrow> bytes \<Rightarrow> engine \<Rightarrow> data_entry option \<times> engine" where
  "peek E key = with_shard (shard_for_key key)
     (\<lambda>g. case snd (purge_if_expired E key (now E) g) of (s, tk) \<Rightarrow> (sd_get (sdata s) key, (s, tk)))"

definition apply_entry :: "env \<Rightarrow> bytes \<Rightarrow> data_entry \<Rightarrow> engine \<Rightarrow> data_entry option \<times> engine" where
  "apply_entry E key entry = with_shard (shard_for_key key)
     (\<lambda>g. let g1 = snd (purge_if_expired E key (now E) g)
          in if (case expires_at entry of None \<Rightarrow> False | Some expiry \<Rightarrow> expiry \<le> now E)
             then shard_remove E key g1 else shard_insert E key entry g1)"

definition engine_set ::
  "env \<Rightarrow> bytes \<Rightarrow> onyx_value \<Rightarrow> u64 option \<Rightarrow> engine \<Rightarrow> data_entry option \<times> engine" where
  "engine_set E key v expires = with_shard (shard_for_key key)
     (\<lambda>g. let g1 = snd (purge_if_expired E key (now E) g)
          in if (case expires of None \<Rightarrow> False | Some expiry \<Rightarrow> expiry \<le> now E)
             then shard_remove E key g1
             else shard_insert E key \<lparr>entry_value = v, expires_at = expires,
                    created_at = now E, last_accessed = now E\<rparr> g1)"

definition engine_delete :: "env \<Rightarrow> bytes \<Rightarrow> engine \<Rightarrow> bool \<times> engine" where
  "engine_delete E key = with_shard (shard_for_key key)
     (\<lambda>g. apfst (\<lambda>removed. removed \<noteq> None) (shard_remove E key g))"

definition engine_read :: "env \<Rightarrow> bytes \<Rightarrow> (data_entry \<Rightarrow> 'r) \<Rightarrow> engine \<Rightarrow> 'r option \<times> engine" where
  "engine_read E key f = with_shard (shard_for_key key) (shard_read E key f)"

definition update_if_exists ::
  "env \<Rightarrow> bytes \<Rightarrow> (onyx_value \<Rightarrow> 'r \<times> onyx_value) \<Rightarrow> engine \<Rightarrow> 'r option \<times> engine" where
  "update_if_exists E key f = with_shard (shard_for_key key) (shard_update_if_exists E key f)"

definition update_if_exists_with_action ::
  "env \<Rightarrow> bytes \<Rightarrow> (onyx_value \<Rightarrow> 'r entry_mutation \<times> onyx_value) \<Rightarrow> engine \<Rightarrow> 'r option \<times> engine"
where
  "update_if_exists_with_action E key f =
     with_shard (shard_for_key key) (shard_update_if_exists_with_action E key f)"

definition update_or_insert ::
  "env \<Rightarrow> bytes \<Rightarrow> onyx_value \<Rightarrow> (onyx_value \<Rightarrow> 'r \<times> onyx_value) \<Rightarrow> engine \<Rightarrow> 'r \<times> engine" where
  "update_or_insert E key default_value f =
     with_shard (shard_for_key key) (shard_update_or_insert E key default_value f)"

definition update_or_insert_with_presence ::
  "env \<Rightarrow> bytes \<Rightarrow> onyx_value \<Rightarrow> (onyx_value \<Rightarrow> bool \<Rightarrow> 'r \<times> onyx_value) \<Rightarrow> engine \<Rightarrow> 'r \<times> engine"
where
  "update_or_insert_with_presence E key default_value f =
     with_shard (shard_for_key key) (shard_update_or_insert_with_presence E key default_value f)"

definition update_entry_or_insert_with_presence ::
  "env \<Rightarrow> bytes \<Rightarrow> onyx_value \<Rightarrow> (data_entry \<Rightarrow> bool \<Rightarrow> 'r \<times> data_entry) \<Rightarrow> engine \<Rightarrow> 'r \<times> engine"
where
  "update_entry_or_insert_with_presence E key default_value f = with_shard (shard_for_key key)
     (shard_update_entry_or_insert_with_presence E key default_value f)"

definition set_expiry_conditional ::
  "env \<Rightarrow> bytes \<Rightarrow> u64 \<Rightarrow> bool option \<Rightarrow> engine \<Rightarrow> bool \<times> engine" where
  "set_expiry_conditional E key timestamp require_expiry = with_shard (shard_for_key key)
     (shard_set_expiry_conditional E key timestamp require_expiry)"

definition set_expiry :: "env \<Rightarrow> bytes \<Rightarrow> u64 \<Rightarrow> engine \<Rightarrow> bool \<times> engine" where
  "set_expiry E key timestamp =
     with_shard (shard_for_key key) (shard_set_expiry E key timestamp)"

definition set_conditional ::
  "env \<Rightarrow> bytes \<Rightarrow> onyx_value \<Rightarrow> u64 option \<Rightarrow> bool option \<Rightarrow> engine \<Rightarrow> bool \<times> engine" where
  "set_conditional E key v expires condition = with_shard (shard_for_key key)
     (\<lambda>g. let g1 = snd (purge_if_expired E key (now E) g);
              exists = (sd_get (sdata (fst g1)) key \<noteq> None);
              allowed = (case condition of
                  Some True \<Rightarrow> \<not> exists
                | Some False \<Rightarrow> exists
                | None \<Rightarrow> True)
          in (allowed,
              if allowed
              then snd (shard_insert E key \<lparr>entry_value = v, expires_at = expires,
                          created_at = now E, last_accessed = now E\<rparr> g1)
              else g1))"

definition set_if_absent :: "env \<Rightarrow> bytes \<Rightarrow> onyx_value \<Rightarrow> engine \<Rightarrow> bool \<times> engine" where
  "set_if_absent E key v = with_shard (shard_for_key key)
     (insert_if_absent E key \<lparr>entry_value = v, expires_at = None,
        created_at = now E, last_accessed = now E\<rparr>)"

section \<open>Operations on two shards\<close>

text \<open>
  Both locks are held for the whole operation and the two guards share \<open>total_keys\<close>. The
  lower-indexed shard is locked first; the guards are then selected by index, so that the lock
  order leaves no trace in the result.
\<close>

definition rename :: "env \<Rightarrow> bytes \<Rightarrow> bytes \<Rightarrow> engine \<Rightarrow> bool \<times> engine" where
  "rename E from to e =
     (let from_shard = shard_for_key from; to_shard = shard_for_key to
      in if from_shard = to_shard
         then with_shard from_shard (\<lambda>g. case shard_remove E from g of
             (Some entry, g1) \<Rightarrow> (True, snd (shard_insert E to entry g1))
           | (None, g1) \<Rightarrow> (False, g1)) e
         else (case with_shard from_shard (shard_remove E from) e of
             (Some entry, e1) \<Rightarrow> (True, snd (with_shard to_shard (shard_insert E to entry) e1))
           | (None, e1) \<Rightarrow> (False, e1)))"

definition copied_entry :: "env \<Rightarrow> data_entry \<Rightarrow> data_entry" where
  "copied_entry E source = \<lparr>entry_value = entry_value source, expires_at = expires_at source,
     created_at = now E, last_accessed = now E\<rparr>"

definition copy :: "env \<Rightarrow> bytes \<Rightarrow> bytes \<Rightarrow> engine \<Rightarrow> bool \<times> engine" where
  "copy E from to e =
     (let from_shard = shard_for_key from; to_shard = shard_for_key to
      in if from_shard = to_shard
         then with_shard from_shard (\<lambda>g.
             let g1 = snd (purge_if_expired E from (now E) g)
             in (case sd_get (sdata (fst g1)) from of
                 None \<Rightarrow> (False, g1)
               | Some source \<Rightarrow>
                   if from = to then (True, g1)
                   else (True, snd (shard_insert E to (copied_entry E source) g1)))) e
         else (case with_shard from_shard (\<lambda>g.
                 let g1 = snd (purge_if_expired E from (now E) g)
                 in (sd_get (sdata (fst g1)) from, g1)) e of
             (None, e1) \<Rightarrow> (False, e1)
           | (Some source, e1) \<Rightarrow>
               (True, snd (with_shard to_shard (shard_insert E to (copied_entry E source)) e1))))"

section \<open>Operations on every shard\<close>

fun group_by_shard :: "nat \<Rightarrow> bytes list \<Rightarrow> (nat \<times> bytes) list list \<Rightarrow> (nat \<times> bytes) list list" where
  "group_by_shard idx [] by_shard = by_shard"
| "group_by_shard idx (key # keys) by_shard =
     (let s = shard_for_key key
      in group_by_shard (Suc idx) keys (by_shard[s := by_shard ! s @ [(idx, key)]]))"

fun mget_shard :: "env \<Rightarrow> (nat \<times> bytes) list \<Rightarrow> data_entry option list \<Rightarrow> guard \<Rightarrow>
    data_entry option list \<times> guard" where
  "mget_shard E [] results g = (results, g)"
| "mget_shard E ((orig_idx, key) # shard_keys) results g = (case shard_get E key g of (found, g1) \<Rightarrow>
     mget_shard E shard_keys (results[orig_idx := found]) g1)"

fun mget_loop :: "env \<Rightarrow> nat \<Rightarrow> (nat \<times> bytes) list list \<Rightarrow> data_entry option list \<Rightarrow> engine \<Rightarrow>
    data_entry option list \<times> engine" where
  "mget_loop E shard_idx [] results e = (results, e)"
| "mget_loop E shard_idx (shard_keys # by_shard) results e =
     (if shard_keys = [] then mget_loop E (Suc shard_idx) by_shard results e
      else (case with_shard shard_idx (mget_shard E shard_keys results) e of (results1, e1) \<Rightarrow>
        mget_loop E (Suc shard_idx) by_shard results1 e1))"

definition mget :: "env \<Rightarrow> bytes list \<Rightarrow> engine \<Rightarrow> data_entry option list \<times> engine" where
  "mget E keys e =
     mget_loop E 0 (group_by_shard 0 keys (replicate NUM_SHARDS [])) (replicate (length keys) None) e"

definition all_keys :: "env \<Rightarrow> engine \<Rightarrow> bytes list \<times> engine" where
  "all_keys E e = apfst concat
     (all_shards (\<lambda>g. let g1 = snd (expire_keys E g) in (map fst (sd_visit (sdata (fst g1))), g1)) e)"

definition snapshot_all :: "env \<Rightarrow> engine \<Rightarrow> (bytes \<times> data_entry) list \<times> engine" where
  "snapshot_all E e = apfst concat
     (all_shards (\<lambda>g. let g1 = snd (expire_keys E g) in (sd_visit (sdata (fst g1)), g1)) e)"

record engine_stats =
  stats_total_keys :: nat
  stats_total_ops :: u64
  stats_num_shards :: nat

definition stats :: "env \<Rightarrow> engine \<Rightarrow> engine_stats \<times> engine" where
  "stats E e = (case all_shards (\<lambda>g. let g1 = snd (expire_keys E g)
         in ((key_count (fst g1), op_count (fst g1)), g1)) e of
       (counts, e1) \<Rightarrow> (\<lparr>stats_total_keys = fold (\<lambda>(keys, _) total. (total + keys) mod 2 ^ 64) counts 0,
          stats_total_ops = fold (\<lambda>(_, ops) total. total + ops) counts 0,
          stats_num_shards = NUM_SHARDS\<rparr>, e1))"

definition total_memory_bytes :: "env \<Rightarrow> engine \<Rightarrow> nat \<times> engine" where
  "total_memory_bytes E e = apfst (\<lambda>sizes. fold (\<lambda>size total. sat_add total size) sizes 0)
     (all_shards (\<lambda>g. let g1 = snd (expire_keys E g) in (mem_bytes (fst g1), g1)) e)"

definition gc_expired :: "env \<Rightarrow> engine \<Rightarrow> nat \<times> engine" where
  "gc_expired E e = apfst (\<lambda>counts. fold (\<lambda>n total. (total + n) mod 2 ^ 64) counts 0)
     (all_shards (expire_keys E) e)"

section \<open>Snapshot epochs and replacement\<close>

text \<open>\<open>None\<close> is the failed assertion "an engine snapshot epoch is already active".\<close>

definition begin_snapshot :: "env \<Rightarrow> engine \<Rightarrow> (engine_snapshot \<times> engine) option" where
  "begin_snapshot E e =
     (if snapshot_active e then None
      else (let opened = map (\<lambda>s. sd_begin_snapshot (sdata s)) (shards e)
        in if None \<in> set opened then None
           else Some (\<lparr>snap_shards = map (map_option fst) opened, captured_at = now E,
                       entry_capacity = physical_key_count e\<rparr>,
                 e\<lparr>shards := map2 (\<lambda>s d. s\<lparr>sdata := d\<rparr>) (shards e) (map (snd \<circ> the) opened),
                   snapshot_active := True\<rparr>)))"

definition finish_snapshot_shard :: "nat \<Rightarrow> engine \<Rightarrow> engine option" where
  "finish_snapshot_shard i e = (if i < length (shards e)
     then (let s = shards e ! i in (case sd_finish_snapshot (sdata s) of
         (True, d) \<Rightarrow> Some (e\<lparr>shards := (shards e)[i := s\<lparr>sdata := d\<rparr>]\<rparr>)
       | (False, d) \<Rightarrow> None))
     else None)"

definition finish_snapshot :: "engine \<Rightarrow> engine option" where
  "finish_snapshot e = (if snapshot_active e
     then Some (e\<lparr>shards := map (\<lambda>s. s\<lparr>sdata := snd (sd_finish_snapshot (sdata s))\<rparr>) (shards e),
                  snapshot_active := False\<rparr>)
     else None)"

definition not_expired_at :: "u64 \<Rightarrow> data_entry \<Rightarrow> bool" where
  "not_expired_at captured entry = (case expires_at entry of
      None \<Rightarrow> True
    | Some expiry \<Rightarrow> captured < expiry)"

definition snapshot_entries :: "engine_snapshot \<Rightarrow> (bytes \<times> data_entry) list" where
  "snapshot_entries snap = filter (\<lambda>(_, entry). not_expired_at (captured_at snap) entry)
     (concat (List.map_filter id (snap_shards snap)))"

definition snapshot_len :: "engine_snapshot \<Rightarrow> nat" where
  "snapshot_len snap = length (snapshot_entries snap)"

definition append_shard_entries ::
  "engine_snapshot \<Rightarrow> nat \<Rightarrow> (bytes \<times> data_entry) list \<Rightarrow> (bytes \<times> data_entry) list option" where
  "append_shard_entries snap shard_index entries = (if shard_index < length (snap_shards snap)
     then map_option (\<lambda>shard. entries @ filter (\<lambda>(_, entry). not_expired_at (captured_at snap) entry) shard)
       (snap_shards snap ! shard_index)
     else None)"

definition release_shard :: "nat \<Rightarrow> engine_snapshot \<Rightarrow> engine_snapshot option" where
  "release_shard shard_index snap =
     (if shard_index < length (snap_shards snap) \<and> snap_shards snap ! shard_index \<noteq> None
      then Some (snap\<lparr>snap_shards := (snap_shards snap)[shard_index := None]\<rparr>) else None)"

fun insert_routed :: "env \<Rightarrow> (bytes \<times> data_entry) list \<Rightarrow> engine \<Rightarrow> engine" where
  "insert_routed E [] e = e"
| "insert_routed E ((key, entry) # entries) e =
     insert_routed E entries (snd (with_shard (shard_for_key key) (shard_insert E key entry) e))"

definition replace_all :: "env \<Rightarrow> (bytes \<times> data_entry) list \<Rightarrow> engine \<Rightarrow> engine option" where
  "replace_all E entries e = (if snapshot_active e then None
     else Some (insert_routed E entries
       (e\<lparr>shards := map (\<lambda>s. s\<lparr>sdata := Flat [], mem_bytes := 0, key_count := 0,
                              op_count := op_count s + 1, last_modified := now E\<rparr>) (shards e),
          total_keys := 0\<rparr>)))"

section \<open>Eviction\<close>

fun best_candidate :: "eviction_policy \<Rightarrow> bytes set \<Rightarrow> (nat \<Rightarrow> nat) \<Rightarrow> nat \<Rightarrow> shard list \<Rightarrow>
    (nat \<times> bytes \<times> u64) option \<Rightarrow> (nat \<times> bytes \<times> u64) option" where
  "best_candidate policy protected_keys nanos idx [] best = best"
| "best_candidate policy protected_keys nanos idx (s # rest) best =
     best_candidate policy protected_keys nanos (Suc idx) rest
       (case eviction_candidate policy protected_keys (nanos idx) s of
          Some (key, score) \<Rightarrow>
            if (case best of None \<Rightarrow> True | Some (_, _, best_score) \<Rightarrow> score < best_score)
            then Some (idx, key, score) else best
        | None \<Rightarrow> best)"

text \<open>
  One pass of the loop reads the nanosecond clock once per shard; reading \<open>n\<close> of pass
  \<open>p\<close> is \<open>subsec_nanos E (64 * p + n)\<close>. \<open>None\<close> means that the fuel did not suffice,
  which \<open>evict_to_fit\<close> excludes by starting with one more than the number of entries.
\<close>

fun evict_loop :: "env \<Rightarrow> nat \<Rightarrow> eviction_policy \<Rightarrow> bytes set \<Rightarrow> nat \<Rightarrow> nat \<Rightarrow>
    (bytes \<times> data_entry) list \<Rightarrow> engine \<Rightarrow> ((bytes \<times> data_entry) list \<times> engine) option" where
  "evict_loop E maxmemory policy protected_keys pass 0 evicted e = None"
| "evict_loop E maxmemory policy protected_keys pass (Suc fuel) evicted e =
     (case total_memory_bytes E e of (used, e1) \<Rightarrow>
        if used \<le> maxmemory then Some (evicted, e1)
        else (case best_candidate policy protected_keys (\<lambda>n. subsec_nanos E (NUM_SHARDS * pass + n))
                     0 (shards e1) None of
            Some (idx, key, _) \<Rightarrow> (case with_shard idx (shard_remove E key) e1 of
                (Some entry, e2) \<Rightarrow>
                  evict_loop E maxmemory policy protected_keys (Suc pass) fuel (evicted @ [(key, entry)]) e2
              | (None, e2) \<Rightarrow> evict_loop E maxmemory policy protected_keys (Suc pass) fuel evicted e2)
          | None \<Rightarrow> Some (evicted, e1)))"

definition entry_count :: "engine \<Rightarrow> nat" where
  "entry_count e = sum_list (map (\<lambda>s. length (sh_entries s)) (shards e))"

definition evict_to_fit :: "env \<Rightarrow> nat \<Rightarrow> eviction_policy \<Rightarrow> bytes set \<Rightarrow> engine \<Rightarrow>
    ((bytes \<times> data_entry) list \<times> engine) option" where
  "evict_to_fit E maxmemory policy protected_keys e =
     (if policy = NoEviction \<or> maxmemory = 0 then Some ([], e)
      else evict_loop E maxmemory policy protected_keys 0 (Suc (entry_count e)) [] e)"

section \<open>Abstraction and invariant\<close>

definition contents :: "engine \<Rightarrow> bytes \<Rightarrow> data_entry option" where
  "contents e key = sh_get (shards e ! shard_for_key key) key"

definition engine_wf :: "engine \<Rightarrow> bool" where
  "engine_wf e \<longleftrightarrow> length (shards e) = NUM_SHARDS \<and> (\<forall>i < NUM_SHARDS. sd_ok (sdata (shards e ! i))) \<and>
     (\<forall>i < NUM_SHARDS. \<forall>key. sh_get (shards e ! i) key \<noteq> None \<longrightarrow> shard_for_key key = i)"

definition engine_bytes :: "env \<Rightarrow> engine \<Rightarrow> nat" where
  "engine_bytes E e = sum_list (map (shard_bytes E) (shards e))"

definition engine_ok :: "env \<Rightarrow> engine \<Rightarrow> bool" where
  "engine_ok E e \<longleftrightarrow> engine_wf e \<and> (\<forall>i < NUM_SHARDS. shard_ok E (shards e ! i)) \<and>
     total_keys e = entry_count e \<and> engine_bytes E e \<le> usize_max"

definition engine_bases :: "engine \<Rightarrow> (bytes, data_entry) hmap option list" where
  "engine_bases e = map (\<lambda>s. sd_base (sdata s)) (shards e)"

abbreviation same_epoch :: "engine \<Rightarrow> engine \<Rightarrow> bool" where
  "same_epoch e e' \<equiv> engine_bases e' = engine_bases e \<and> snapshot_active e' = snapshot_active e"

text \<open>
  The contract of an engine operation: it turns the content into \<open>m\<close>, keeps the routing and
  the open snapshot, and keeps the accounting exact as long as the data set fits.
\<close>

definition engine_change :: "env \<Rightarrow> (bytes \<Rightarrow> data_entry option) \<Rightarrow> engine \<Rightarrow> engine \<Rightarrow> bool" where
  "engine_change E m e e' \<longleftrightarrow>
     (engine_wf e \<longrightarrow> engine_wf e' \<and> contents e' = m \<and> same_epoch e e') \<and>
     (engine_ok E e \<and> engine_bytes E e' \<le> usize_max \<longrightarrow> engine_ok E e')"

lemma shard_for_key_less [simp]: "shard_for_key key < NUM_SHARDS"
proof -
  have "hash_key key AND 63 \<le> 63" by (rule word_and_le1)
  then show ?thesis by (simp add: shard_for_key_def NUM_SHARDS_def word_le_nat_alt)
qed

lemma contents_new [simp]: "contents engine_new key = None"
  by (simp add: contents_def engine_new_def)

lemma engine_new_ok: "engine_ok E engine_new"
  by (simp add: engine_ok_def engine_wf_def engine_new_def entry_count_def engine_bytes_def
      shard_bytes_def sum_list_replicate) (simp add: shard_new_def)

lemma engine_ok_wf: "engine_ok E e \<Longrightarrow> engine_wf e"
  by (simp add: engine_ok_def)

lemma sum_list_split:
  fixes f :: "'a \<Rightarrow> nat"
  assumes "i < length xs"
  shows "sum_list (map f (xs[i := y])) + f (xs ! i) = sum_list (map f xs) + f y"
proof -
  have "f (xs ! i) \<le> sum_list (map f xs)"
    using assms by (intro member_le_sum_list) auto
  moreover have "sum_list (map f (xs[i := y])) = sum_list (map f xs) + f y - f (xs ! i)"
    using assms by (simp add: map_update sum_list_update)
  ultimately show ?thesis by simp
qed

lemma entry_count_le_bytes: "64 * entry_count e \<le> engine_bytes E e"
proof -
  have "64 * sum_list (map (\<lambda>s. length (sh_entries s)) ss) \<le> sum_list (map (shard_bytes E) ss)" for ss
  proof (induction ss)
    case (Cons s ss)
    then show ?case using entries_le_bytes [of s E] by simp
  qed simp
  then show ?thesis by (simp add: entry_count_def engine_bytes_def)
qed

lemma with_shard_fst: "fst (with_shard i f e) = fst (f (shards e ! i, total_keys e))"
  by (simp add: with_shard_def case_prod_beta)

lemma with_shard_snd: "snd (with_shard i f e) =
    (let g = snd (f (shards e ! i, total_keys e))
     in e\<lparr>shards := (shards e)[i := fst g], total_keys := snd g\<rparr>)"
  by (simp add: with_shard_def case_prod_beta Let_def)

lemma with_shard_change:
  assumes change: "guard_change E m (shards e ! i, total_keys e) (snd (f (shards e ! i, total_keys e)))"
    and i: "i < NUM_SHARDS"
    and routed: "\<And>key. engine_wf e \<Longrightarrow> m key \<noteq> None \<Longrightarrow> shard_for_key key = i"
  shows "engine_change E (\<lambda>key. if shard_for_key key = i then m key else contents e key) e
    (snd (with_shard i f e))"
proof -
  obtain s' tk' where f: "snd (f (shards e ! i, total_keys e)) = (s', tk')" by (metis surj_pair)
  let ?e' = "e\<lparr>shards := (shards e)[i := s'], total_keys := tk'\<rparr>"
  have e': "snd (with_shard i f e) = ?e'" by (simp add: with_shard_snd f Let_def)
  note c = change [unfolded f guard_change_def fst_conv snd_conv]
  have wf: "engine_wf ?e' \<and> contents ?e' = (\<lambda>key. if shard_for_key key = i then m key else contents e key) \<and>
      engine_bases ?e' = engine_bases e" if "engine_wf e"
    using that c i routed
    by (auto simp: engine_wf_def contents_def engine_bases_def nth_list_update fun_eq_iff map_update
        list_update_same_conv)
  moreover have "engine_ok E ?e'" if ok: "engine_ok E e" and fits: "engine_bytes E ?e' \<le> usize_max"
  proof -
    from ok i have len: "i < length (shards e)" by (simp add: engine_ok_def engine_wf_def)
    note bytes = sum_list_split [OF len, of "shard_bytes E" s']
    note count = sum_list_split [OF len, of "\<lambda>s. length (sh_entries s)" s']
    have "total_keys e < usize_max"
      using entry_count_le_bytes [of e E] ok by (simp add: engine_ok_def usize_max_def)
    moreover have "length (sh_entries (shards e ! i)) \<le> total_keys e"
      using ok len by (auto simp: engine_ok_def entry_count_def intro!: member_le_sum_list)
    moreover have "shard_bytes E s' \<le> engine_bytes E ?e'"
      using len by (auto simp: engine_bytes_def set_update_memI intro!: member_le_sum_list)
    ultimately have "shard_ok E s' \<and>
        tk' + length (sh_entries (shards e ! i)) = total_keys e + length (sh_entries s')"
      using c ok i fits by (simp add: engine_ok_def)
    moreover from this have "\<forall>j < NUM_SHARDS. shard_ok E ((shards e)[i := s'] ! j)"
      using ok len by (simp add: engine_ok_def nth_list_update)
    moreover have "engine_wf ?e'" using wf ok by (simp add: engine_ok_def)
    ultimately show ?thesis
      using ok fits count by (simp add: engine_ok_def entry_count_def)
  qed
  ultimately show ?thesis by (simp add: e' engine_change_def)
qed

lemma with_shard_step:
  assumes "guard_step E key v (shards e ! shard_for_key key, total_keys e)
      (snd (f (shards e ! shard_for_key key, total_keys e)))"
  shows "engine_change E ((contents e)(key := v)) e (snd (with_shard (shard_for_key key) f e))"
proof -
  let ?i = "shard_for_key key"
  let ?m = "(sh_get (shards e ! ?i))(key := v)"
  have "engine_change E (\<lambda>k. if shard_for_key k = ?i then ?m k else contents e k) e
      (snd (with_shard ?i f e))"
  proof (rule with_shard_change)
    show "guard_change E ?m (shards e ! ?i, total_keys e) (snd (f (shards e ! ?i, total_keys e)))"
      using assms by (simp add: guard_step_change)
    show "shard_for_key k = ?i" if "engine_wf e" "?m k \<noteq> None" for k
      using that by (auto simp: engine_wf_def split: if_splits)
  qed simp
  moreover have "(\<lambda>k. if shard_for_key k = ?i then ?m k else contents e k) = (contents e)(key := v)"
    by (auto simp: contents_def fun_eq_iff)
  ultimately show ?thesis by simp
qed

section \<open>Functional behaviour on the abstract map\<close>

named_theorems engine_results \<open>the value an engine operation returns\<close>
named_theorems engine_effects \<open>the change an engine operation makes\<close>

lemma live_contents [simp]:
  "live ts (sh_get (shards e ! shard_for_key key)) key = live ts (contents e) key"
  by (simp add: live_def contents_def)

lemma engine_get_fst [engine_results]:
  "fst (engine_get E key e) = map_option (touch E) (live (now E) (contents e) key)"
  by (simp add: engine_get_def with_shard_fst shard_get_fst)

lemma engine_get_change [engine_effects]:
  "engine_change E ((contents e)(key := map_option (touch E) (live (now E) (contents e) key))) e
     (snd (engine_get E key e))"
  unfolding engine_get_def using shard_get_step [of E key "(shards e ! shard_for_key key, total_keys e)"]
  by (intro with_shard_step) simp

lemma peek_fst [engine_results]: "fst (peek E key e) = live (now E) (contents e) key"
  using purge_get [of E key "now E" "(shards e ! shard_for_key key, total_keys e)"]
  by (simp add: peek_def with_shard_fst case_prod_beta)

lemma peek_change [engine_effects]:
  "engine_change E ((contents e)(key := live (now E) (contents e) key)) e (snd (peek E key e))"
  unfolding peek_def using purge_step [of E key "now E" "(shards e ! shard_for_key key, total_keys e)"]
  by (intro with_shard_step) (simp add: case_prod_beta)

definition expired_at :: "env \<Rightarrow> u64 option \<Rightarrow> bool" where
  "expired_at E expires = (case expires of None \<Rightarrow> False | Some expiry \<Rightarrow> expiry \<le> now E)"

text \<open>Replacing or removing after the purge, the common body of \<open>set\<close> and \<open>apply_entry\<close>.\<close>

lemma purge_then_put:
  fixes g :: guard and E :: env and key :: bytes
  defines "g1 \<equiv> snd (purge_if_expired E key (now E) g)"
  shows "fst (if dead then shard_remove E key g1 else shard_insert E key entry g1) =
      live (now E) (sh_get (fst g)) key"
    and "guard_step E key (if dead then None else Some entry) g
      (snd (if dead then shard_remove E key g1 else shard_insert E key entry g1))"
proof -
  have g1: "sh_get (fst g1) key = live (now E) (sh_get (fst g)) key"
    using purge_get [of E key "now E" g] by (simp add: g1_def)
  then have "live (now E) (sh_get (fst g1)) key = live (now E) (sh_get (fst g)) key"
    by (auto simp: live_def split: option.splits)
  with g1 show "fst (if dead then shard_remove E key g1 else shard_insert E key entry g1) =
      live (now E) (sh_get (fst g)) key"
    by (simp add: shard_remove_fst shard_insert_fst)
  show "guard_step E key (if dead then None else Some entry) g
      (snd (if dead then shard_remove E key g1 else shard_insert E key entry g1))"
    by (rule after_purge [where ts = "now E"])
      (simp add: g1_def [symmetric] shard_remove_step shard_insert_step)
qed

lemma apply_entry_fst [engine_results]: "fst (apply_entry E key entry e) = live (now E) (contents e) key"
  unfolding apply_entry_def with_shard_fst Let_def purge_then_put(1) by simp

lemma apply_entry_change [engine_effects]:
  "engine_change E ((contents e)(key := if expired_at E (expires_at entry) then None else Some entry)) e
     (snd (apply_entry E key entry e))"
  unfolding apply_entry_def Let_def expired_at_def by (rule with_shard_step, rule purge_then_put(2))

lemma engine_set_fst [engine_results]: "fst (engine_set E key v expires e) = live (now E) (contents e) key"
  unfolding engine_set_def with_shard_fst Let_def purge_then_put(1) by simp

lemma engine_set_change [engine_effects]:
  "engine_change E ((contents e)(key := if expired_at E expires then None
       else Some ((fresh_entry E v)\<lparr>expires_at := expires\<rparr>))) e (snd (engine_set E key v expires e))"
proof -
  have "(fresh_entry E v)\<lparr>expires_at := expires\<rparr> =
      \<lparr>entry_value = v, expires_at = expires, created_at = now E, last_accessed = now E\<rparr>"
    by (simp add: fresh_entry_def)
  then show ?thesis
    unfolding engine_set_def Let_def expired_at_def
    by (simp only:) (rule with_shard_step, rule purge_then_put(2))
qed

lemma engine_delete_fst [engine_results]:
  "fst (engine_delete E key e) \<longleftrightarrow> live (now E) (contents e) key \<noteq> None"
  by (simp add: engine_delete_def with_shard_fst shard_remove_fst)

lemma engine_delete_change [engine_effects]:
  "engine_change E ((contents e)(key := None)) e (snd (engine_delete E key e))"
  unfolding engine_delete_def by (rule with_shard_step) (simp add: shard_remove_step)

lemma engine_read_fst [engine_results]:
  "fst (engine_read E key f e) = map_option (f \<circ> touch E) (live (now E) (contents e) key)"
  by (simp add: engine_read_def with_shard_fst shard_read_def shard_get_fst option.map_comp)

lemma engine_read_change [engine_effects]:
  "engine_change E ((contents e)(key := map_option (touch E) (live (now E) (contents e) key))) e
     (snd (engine_read E key f e))"
  unfolding engine_read_def shard_read_def
  using shard_get_step [of E key "(shards e ! shard_for_key key, total_keys e)"]
  by (intro with_shard_step) simp

lemma action_fst [engine_results]:
  "fst (update_if_exists_with_action E key f e) = fst (action_result E f (live (now E) (contents e) key))"
  by (simp add: update_if_exists_with_action_def with_shard_fst shard_action_fst)

lemma action_change [engine_effects]:
  "engine_change E ((contents e)(key := snd (action_result E f (live (now E) (contents e) key)))) e
     (snd (update_if_exists_with_action E key f e))"
  unfolding update_if_exists_with_action_def
  using shard_action_step [of E key f "(shards e ! shard_for_key key, total_keys e)"]
  by (intro with_shard_step) simp

lemma update_if_exists_action: "update_if_exists E key f = update_if_exists_with_action E key (\<lambda>v. apfst Keep (f v))"
  by (simp add: update_if_exists_def update_if_exists_with_action_def shard_update_if_exists_def [abs_def])

lemma upsert_fst [engine_results]:
  "fst (update_entry_or_insert_with_presence E key d f e) = fst (upsert_result E d f (live (now E) (contents e) key))"
  by (simp add: update_entry_or_insert_with_presence_def with_shard_fst shard_upsert_fst)

lemma upsert_change [engine_effects]:
  "engine_change E ((contents e)(key := snd (upsert_result E d f (live (now E) (contents e) key)))) e
     (snd (update_entry_or_insert_with_presence E key d f e))"
  unfolding update_entry_or_insert_with_presence_def
  using shard_upsert_step [of E key d f "(shards e ! shard_for_key key, total_keys e)"]
  by (intro with_shard_step) simp

lemma update_or_insert_with_presence_entry:
  "update_or_insert_with_presence E key d f = update_entry_or_insert_with_presence E key d
     (\<lambda>entry existed. (case f (entry_value entry) existed of (r, v) \<Rightarrow> (r, entry\<lparr>entry_value := v\<rparr>)))"
  by (simp add: update_or_insert_with_presence_def update_entry_or_insert_with_presence_def
      shard_update_or_insert_with_presence_def [abs_def])

lemma update_or_insert_entry:
  "update_or_insert E key d f = update_entry_or_insert_with_presence E key d
     (\<lambda>entry existed. (case f (entry_value entry) of (r, v) \<Rightarrow> (r, entry\<lparr>entry_value := v\<rparr>)))"
  by (simp add: update_or_insert_def update_entry_or_insert_with_presence_def
      shard_update_or_insert_def [abs_def] shard_update_or_insert_with_presence_def [abs_def])

lemma expiry_fst [engine_results]:
  "fst (set_expiry_conditional E key ts req e) = fst (expiry_result E ts req (live (now E) (contents e) key))"
  by (simp add: set_expiry_conditional_def with_shard_fst shard_expiry_fst)

lemma expiry_change [engine_effects]:
  "engine_change E ((contents e)(key := snd (expiry_result E ts req (live (now E) (contents e) key)))) e
     (snd (set_expiry_conditional E key ts req e))"
  unfolding set_expiry_conditional_def
  using shard_expiry_step [of E key ts req "(shards e ! shard_for_key key, total_keys e)"]
  by (intro with_shard_step) simp

lemma set_expiry_unconditional: "set_expiry E key ts = set_expiry_conditional E key ts None"
  by (simp add: set_expiry_def set_expiry_conditional_def shard_set_expiry_def [abs_def])

lemma set_if_absent_fst [engine_results]:
  "fst (set_if_absent E key v e) = fst (absent_result (fresh_entry E v) (live (now E) (contents e) key))"
  by (simp add: set_if_absent_def with_shard_fst insert_if_absent_fst fresh_entry_def)

lemma set_if_absent_change [engine_effects]:
  "engine_change E ((contents e)(key := snd (absent_result (fresh_entry E v) (live (now E) (contents e) key)))) e
     (snd (set_if_absent E key v e))"
  unfolding set_if_absent_def fresh_entry_def [symmetric]
  using insert_if_absent_step [of E key "fresh_entry E v" "(shards e ! shard_for_key key, total_keys e)"]
  by (intro with_shard_step) simp

text \<open>\<open>SET\<close> with a condition: \<open>NX\<close> needs the key absent, \<open>XX\<close> present.\<close>

definition condition_allows :: "bool option \<Rightarrow> data_entry option \<Rightarrow> bool" where
  "condition_allows condition found \<longleftrightarrow> condition = None \<or> condition = Some (found = None)"

lemma set_conditional_fst [engine_results]:
  "fst (set_conditional E key v expires condition e) =
     condition_allows condition (live (now E) (contents e) key)"
  using purge_get [of E key "now E" "(shards e ! shard_for_key key, total_keys e)"]
  by (auto simp: set_conditional_def with_shard_fst condition_allows_def Let_def
      split: option.splits bool.splits)

lemma set_conditional_change [engine_effects]:
  "engine_change E ((contents e)(key :=
      if condition_allows condition (live (now E) (contents e) key)
      then Some ((fresh_entry E v)\<lparr>expires_at := expires\<rparr>) else live (now E) (contents e) key)) e
     (snd (set_conditional E key v expires condition e))"
  unfolding set_conditional_def
proof (rule with_shard_step)
  let ?g = "(shards e ! shard_for_key key, total_keys e)"
  let ?g1 = "snd (purge_if_expired E key (now E) ?g)"
  let ?new = "(fresh_entry E v)\<lparr>expires_at := expires\<rparr>"
  have new: "?new = \<lparr>entry_value = v, expires_at = expires, created_at = now E, last_accessed = now E\<rparr>"
    by (simp add: fresh_entry_def)
  have found: "sh_get (fst ?g1) key = live (now E) (contents e) key"
    using purge_get [of E key "now E" ?g] by simp
  have put: "guard_step E key (Some ?new) ?g (snd (shard_insert E key ?new ?g1))"
    by (rule after_purge [where ts = "now E"]) (rule shard_insert_step)
  have keep: "guard_step E key (live (now E) (contents e) key) ?g ?g1"
    using purge_step [of E key "now E" ?g] by simp
  show "guard_step E key (if condition_allows condition (live (now E) (contents e) key)
      then Some ?new else live (now E) (contents e) key) ?g (snd
      (let g1 = ?g1; exists = sd_get (sdata (fst g1)) key \<noteq> None;
           allowed = (case condition of None \<Rightarrow> True | Some True \<Rightarrow> \<not> exists | Some False \<Rightarrow> exists)
       in (allowed, if allowed then snd (shard_insert E key \<lparr>entry_value = v, expires_at = expires,
            created_at = now E, last_accessed = now E\<rparr> g1) else g1)))"
    using put keep
    by (auto simp: Let_def found new condition_allows_def split: option.splits bool.splits)
qed

section \<open>The engine is one entry map\<close>

definition engine_entries :: "engine \<Rightarrow> (bytes \<times> data_entry) list" where
  "engine_entries e = concat (map sh_entries (shards e))"

lemma engine_change_wf: "engine_change E m e e' \<Longrightarrow> engine_wf e \<Longrightarrow> engine_wf e'"
  by (simp add: engine_change_def)

lemma engine_change_contents: "engine_change E m e e' \<Longrightarrow> engine_wf e \<Longrightarrow> contents e' = m"
  by (simp add: engine_change_def)

lemma engine_changeI: "(engine_wf e \<Longrightarrow> engine_change E m e e') \<Longrightarrow> engine_change E m e e'"
  by (auto simp: engine_change_def engine_ok_def)

lemma engine_change_refl: "engine_change E (contents e) e e"
  by (simp add: engine_change_def)

lemma engine_change_trans:
  assumes "engine_change E m1 e e1" and "engine_change E m2 e1 e2"
    and "engine_ok E e \<Longrightarrow> engine_bytes E e2 \<le> usize_max \<Longrightarrow> engine_bytes E e1 \<le> usize_max"
  shows "engine_change E m2 e e2"
  using assms by (simp add: engine_change_def)

lemma shard_insert_change:
  "engine_change E ((contents e)(key \<mapsto> entry)) e
     (snd (with_shard (shard_for_key key) (shard_insert E key entry) e))"
  by (rule with_shard_step) (rule shard_insert_step)

lemma engine_mem:
  assumes wf: "engine_wf e"
  shows "(key, entry) \<in> set (engine_entries e) \<longleftrightarrow> contents e key = Some entry"
proof -
  have "(key, entry) \<in> set (engine_entries e) \<longleftrightarrow>
      (\<exists>i < length (shards e). (key, entry) \<in> set (sh_entries (shards e ! i)))"
    unfolding engine_entries_def by simp (metis in_set_conv_nth)
  also have "\<dots> \<longleftrightarrow> (\<exists>i < NUM_SHARDS. sh_get (shards e ! i) key = Some entry)"
    using wf by (simp add: engine_wf_def sd.visit_mem cong: conj_cong)
  finally have "(key, entry) \<in> set (engine_entries e) \<longleftrightarrow>
      (\<exists>i < NUM_SHARDS. sh_get (shards e ! i) key = Some entry)" .
  moreover have "i = shard_for_key key" if "i < NUM_SHARDS" "sh_get (shards e ! i) key = Some entry" for i
    using that wf unfolding engine_wf_def by blast
  ultimately show ?thesis unfolding contents_def using shard_for_key_less by blast
qed

lemma engine_distinct:
  assumes wf: "engine_wf e"
  shows "hm_wf (engine_entries e)"
proof -
  have "distinct (concat (map (\<lambda>s. map fst (sh_entries s)) (shards e)))"
  proof (rule distinct_concat_nth)
    fix i assume "i < length (map (\<lambda>s. map fst (sh_entries s)) (shards e))"
    with wf show "distinct (map (\<lambda>s. map fst (sh_entries s)) (shards e) ! i)"
      by (simp add: engine_wf_def sd.visit_distinct)
  next
    fix i j key
    let ?keys = "map (\<lambda>s. map fst (sh_entries s)) (shards e)"
    assume len: "i < length ?keys" "j < length ?keys" and mem: "key \<in> set (?keys ! i)" "key \<in> set (?keys ! j)"
    have "shard_for_key key = n" if "n < length ?keys" "key \<in> set (?keys ! n)" for n
    proof -
      from that wf obtain entry where "n < NUM_SHARDS" "sh_get (shards e ! n) key = Some entry"
        by (auto simp: engine_wf_def sd.visit_mem)
      with wf show ?thesis unfolding engine_wf_def by blast
    qed
    with len mem show "i = j" by blast
  qed
  then show ?thesis by (simp add: engine_entries_def map_concat o_def)
qed

lemma engine_map: "engine_wf e \<Longrightarrow> hm_get (engine_entries e) = contents e"
proof
  fix key assume wf: "engine_wf e"
  note iff = engine_mem [OF wf, of key, symmetric]
  show "hm_get (engine_entries e) key = contents e key"
    using engine_distinct [OF wf] iff
    by (cases "contents e key") (auto simp: map_of_eq_None_iff intro: map_of_is_SomeI)
qed

interpretation en: entry_map contents
  "\<lambda>key entry e. snd (with_shard (shard_for_key key) (shard_insert E key entry) e)"
  "\<lambda>key e. snd (engine_delete E key e)" engine_entries engine_wf for E
  by unfold_locales
    (auto simp: engine_distinct engine_map
       intro: engine_change_wf [OF shard_insert_change] engine_change_wf [OF engine_delete_change]
         engine_change_contents [OF shard_insert_change] engine_change_contents [OF engine_delete_change])

lemma engine_bytes_sum: "engine_bytes E e = hm_sum (\<lambda>(key, entry). approx_entry_size E key entry) (engine_entries e)"
proof -
  have "sum_list (map (shard_bytes E) ss) =
      hm_sum (\<lambda>(key, entry). approx_entry_size E key entry) (concat (map sh_entries ss))" for ss
    by (induction ss) (simp_all add: shard_bytes_def)
  then show ?thesis by (simp add: engine_bytes_def engine_entries_def)
qed

lemma entry_count_length: "entry_count e = length (engine_entries e)"
  by (simp add: entry_count_def engine_entries_def length_concat o_def)

lemma engine_bytes_mono:
  assumes "engine_wf e" "engine_wf e'" "contents e' \<subseteq>\<^sub>m contents e"
  shows "engine_bytes E e' \<le> engine_bytes E e" "entry_count e' \<le> entry_count e"
proof -
  have "hm_sum f (engine_entries e') \<le> hm_sum f (engine_entries e)" for f
    using assms by (intro map_le_sum) (simp_all add: engine_distinct engine_map)
  from this this [of "\<lambda>_. Suc 0"] show "engine_bytes E e' \<le> engine_bytes E e" "entry_count e' \<le> entry_count e"
    by (simp_all add: engine_bytes_sum entry_count_length)
qed

lemma engine_bytes_drop:
  assumes "engine_wf e" "engine_wf e'" "contents e' = (contents e)(key := None)" "contents e key = Some entry"
  shows "engine_bytes E e' + approx_entry_size E key entry = engine_bytes E e"
    "entry_count e = Suc (entry_count e')"
  using en.visit_sum_remove [OF assms(1-3), of "\<lambda>(key, entry). approx_entry_size E key entry"]
    en.visit_length_remove [OF assms(1-3)] assms(4)
  by (simp_all add: engine_bytes_sum entry_count_length)

text \<open>An operation whose result fits wherever its start does keeps the invariant outright.\<close>

lemma engine_change_ok:
  assumes "engine_change E m e e'" "engine_ok E e" "m \<subseteq>\<^sub>m contents e"
  shows "engine_ok E e'"
proof -
  have wf: "engine_wf e" "engine_wf e'" "contents e' = m"
    using assms by (auto simp: engine_change_def engine_ok_def)
  with engine_bytes_mono(1) [of e e' E] assms show ?thesis
    by (simp add: engine_change_def engine_ok_def)
qed

lemma live_le: "live ts m \<subseteq>\<^sub>m m"
  by (auto simp: map_le_def live_def split: option.splits if_splits)

lemma upd_None_le: "m(key := None) \<subseteq>\<^sub>m m"
  by (auto simp: map_le_def)

lemma upd_live_le: "m(key := live ts m key) \<subseteq>\<^sub>m m"
  by (auto simp: map_le_def live_def split: option.splits if_splits)

end
