(* ===== verification/Engine_Laws.thy ===== *)
theory Engine_Laws
  imports Engine
begin

text \<open>
  The laws of the engine operations that visit several keys or shards: expiry sweeps, renaming
  and copying, multi-key reads, eviction, snapshot epochs and whole-data replacement; and the
  engine as a state machine whose reachable states all satisfy the invariant.
\<close>

section \<open>Sweeping every shard\<close>

lemma for_shards_other: "j \<notin> set js \<Longrightarrow> shards (snd (for_shards f js e)) ! j = shards e ! j"
  by (induction js arbitrary: e) (auto simp: case_prod_beta with_shard_snd Let_def)

lemma for_shards_results:
  assumes "\<And>g. fst (f g) = r (fst (snd (f g)))" and "distinct js" and "\<forall>j \<in> set js. j < length (shards e)"
  shows "fst (for_shards f js e) = map (\<lambda>j. r (shards (snd (for_shards f js e)) ! j)) js"
  using assms(2,3)
proof (induction js arbitrary: e)
  case (Cons j js)
  let ?e1 = "snd (with_shard j f e)"
  have "shards (snd (for_shards f js ?e1)) ! j = shards ?e1 ! j"
    using Cons.prems by (intro for_shards_other) simp
  moreover have "fst (with_shard j f e) = r (shards ?e1 ! j)"
    using Cons.prems by (simp add: with_shard_fst with_shard_snd Let_def assms(1))
  moreover have "\<forall>j \<in> set js. j < length (shards ?e1)"
    using Cons.prems by (simp add: with_shard_snd Let_def)
  ultimately show ?case using Cons by (simp add: case_prod_beta)
qed simp

lemma sweep_change:
  assumes f: "\<And>g. snd (f g) = snd (expire_keys E g)" and "distinct js" and "\<forall>j \<in> set js. j < NUM_SHARDS"
  shows "engine_change E (\<lambda>key. if shard_for_key key \<in> set js then live (now E) (contents e) key
      else contents e key) e (snd (for_shards f js e))"
  using assms(2,3)
proof (induction js arbitrary: e)
  case Nil
  show ?case using engine_change_refl [of E e] by simp
next
  case (Cons j js)
  let ?e1 = "snd (with_shard j f e)"
  let ?m = "live (now E) (sh_get (shards e ! j))"
  show ?case
  proof (rule engine_changeI)
    assume wf: "engine_wf e"
    have one: "engine_change E (\<lambda>key. if shard_for_key key = j then ?m key else contents e key) e ?e1"
    proof (rule with_shard_change)
      show "guard_change E ?m (shards e ! j, total_keys e) (snd (f (shards e ! j, total_keys e)))"
        using expire_keys_change [of "(shards e ! j, total_keys e)" E] wf Cons.prems
        by (simp add: f engine_wf_def)
      show "shard_for_key key = j" if "engine_wf e" "?m key \<noteq> None" for key
      proof -
        from that(2) have "sh_get (shards e ! j) key \<noteq> None" by (auto simp: live_def split: option.splits)
        with that(1) Cons.prems show ?thesis unfolding engine_wf_def by simp
      qed
    qed (use Cons.prems in simp)
    note c1 = engine_change_contents [OF one wf]
    have two: "engine_change E (\<lambda>key. if shard_for_key key \<in> set js then live (now E) (contents ?e1) key
        else contents ?e1 key) ?e1 (snd (for_shards f js ?e1))"
      using Cons by simp
    have le: "contents ?e1 \<subseteq>\<^sub>m contents e"
      unfolding c1 by (auto simp: map_le_def live_def contents_def split: option.splits if_splits)
    have "engine_change E (\<lambda>key. if shard_for_key key \<in> set js then live (now E) (contents ?e1) key
        else contents ?e1 key) e (snd (for_shards f js ?e1))"
      by (rule engine_change_trans [OF one two])
        (use engine_bytes_mono(1) [OF wf engine_change_wf [OF one wf] le, of E] in \<open>simp add: engine_ok_def\<close>)
    moreover have "(\<lambda>key. if shard_for_key key \<in> set js then live (now E) (contents ?e1) key
        else contents ?e1 key) = (\<lambda>key. if shard_for_key key \<in> set (j # js)
        then live (now E) (contents e) key else contents e key)"
      using Cons.prems(1) unfolding c1 by (auto simp: fun_eq_iff live_def contents_def split: option.splits)
    ultimately show "engine_change E (\<lambda>key. if shard_for_key key \<in> set (j # js)
        then live (now E) (contents e) key else contents e key) e (snd (for_shards f (j # js) e))"
      by (simp add: case_prod_beta)
  qed
qed

lemma sweep_all:
  assumes "\<And>g. snd (f g) = snd (expire_keys E g)"
  shows "engine_change E (live (now E) (contents e)) e (snd (all_shards f e))"
proof (rule engine_changeI)
  assume "engine_wf e"
  then have "length (shards e) = NUM_SHARDS" by (simp add: engine_wf_def)
  with sweep_change [OF assms, of "[0..<NUM_SHARDS]" e]
  show "engine_change E (live (now E) (contents e)) e (snd (all_shards f e))" by simp
qed

lemma all_shards_results:
  assumes "\<And>g. fst (f g) = r (fst (snd (f g)))" and "engine_wf e" and "engine_wf (snd (all_shards f e))"
  shows "fst (all_shards f e) = map r (shards (snd (all_shards f e)))"
proof -
  have "length (shards (snd (all_shards f e))) = length (shards e)"
    using assms(2,3) by (simp add: engine_wf_def)
  moreover have "map r ss = map (\<lambda>j. r (ss ! j)) [0..<length ss]" for ss
    by (rule nth_equalityI) simp_all
  ultimately show ?thesis
    using for_shards_results [where f = f and r = r, OF assms(1), of "[0..<length (shards e)]" e]
    by simp
qed

lemma gc_expired_change [engine_effects]:
  "engine_change E (live (now E) (contents e)) e (snd (gc_expired E e))"
  by (simp add: gc_expired_def sweep_all)

lemma total_memory_change [engine_effects]:
  "engine_change E (live (now E) (contents e)) e (snd (total_memory_bytes E e))"
  by (simp add: total_memory_bytes_def sweep_all Let_def)

lemma all_keys_change [engine_effects]:
  "engine_change E (live (now E) (contents e)) e (snd (all_keys E e))"
  by (simp add: all_keys_def sweep_all Let_def)

lemma snapshot_all_change [engine_effects]:
  "engine_change E (live (now E) (contents e)) e (snd (snapshot_all E e))"
  by (simp add: snapshot_all_def sweep_all Let_def)

lemma stats_change [engine_effects]:
  "engine_change E (live (now E) (contents e)) e (snd (stats E e))"
  by (simp add: stats_def case_prod_beta sweep_all Let_def)

lemma all_keys_fst:
  assumes "engine_wf e"
  shows "fst (all_keys E e) = map fst (engine_entries (snd (all_keys E e)))"
proof -
  let ?f = "\<lambda>g. let g1 = snd (expire_keys E g) in (map fst (sd_visit (sdata (fst g1))), g1)"
  have wf: "engine_wf (snd (all_shards ?f e))"
    using engine_change_wf [OF all_keys_change assms] by (simp add: all_keys_def)
  then show ?thesis
    using all_shards_results [of ?f "\<lambda>s. map fst (sh_entries s)", OF _ assms wf]
    by (simp add: all_keys_def engine_entries_def map_concat o_def Let_def)
qed

lemma total_memory_fst:
  assumes ok: "engine_ok E e"
  shows "fst (total_memory_bytes E e) = engine_bytes E (snd (total_memory_bytes E e))"
proof -
  let ?f = "\<lambda>g. let g1 = snd (expire_keys E g) in (mem_bytes (fst g1), g1)"
  let ?e1 = "snd (all_shards ?f e)"
  have e1: "snd (total_memory_bytes E e) = ?e1" by (simp add: total_memory_bytes_def)
  have ok1: "engine_ok E ?e1"
    using engine_change_ok [OF total_memory_change ok live_le] by (simp add: e1)
  have "fst (all_shards ?f e) = map mem_bytes (shards ?e1)"
    using ok ok1 by (intro all_shards_results) (simp_all add: Let_def engine_ok_def)
  also have "\<dots> = map (shard_bytes E) (shards ?e1)"
    using ok1 by (auto simp: engine_ok_def engine_wf_def shard_ok_def in_set_conv_nth)
  finally show ?thesis
    using ok1 unfolding e1
    by (simp add: total_memory_bytes_def fold_sat_add engine_ok_def engine_bytes_def)
qed

section \<open>Renaming and copying\<close>

text \<open>
  In both branches \<open>rename\<close> is a removal followed by an insertion: the same-shard branch
  under one lock, the other under two.
\<close>

lemma rename_seq:
  assumes "length (shards e) = NUM_SHARDS"
  shows "rename E from to e = (case with_shard (shard_for_key from) (shard_remove E from) e of
      (Some entry, e1) \<Rightarrow> (True, snd (with_shard (shard_for_key to) (shard_insert E to entry) e1))
    | (None, e1) \<Rightarrow> (False, e1))"
  using assms
  by (auto simp: rename_def Let_def with_shard_def case_prod_beta split: option.splits)

lemma copy_seq:
  assumes "length (shards e) = NUM_SHARDS"
  shows "copy E from to e = (case peek E from e of
      (None, e1) \<Rightarrow> (False, e1)
    | (Some source, e1) \<Rightarrow> (True, if from = to then e1
        else snd (with_shard (shard_for_key to) (shard_insert E to (copied_entry E source)) e1)))"
  using assms
  by (auto simp: copy_def peek_def Let_def with_shard_def case_prod_beta split: option.splits)

lemma rename_fst [engine_results]:
  "engine_wf e \<Longrightarrow> fst (rename E from to e) \<longleftrightarrow> live (now E) (contents e) from \<noteq> None"
  by (auto simp: rename_seq engine_wf_def case_prod_beta with_shard_fst shard_remove_fst split: option.splits)

lemma rename_change [engine_effects]:
  "engine_change E (case live (now E) (contents e) from of
      None \<Rightarrow> (contents e)(from := None)
    | Some entry \<Rightarrow> (contents e)(from := None, to \<mapsto> entry)) e (snd (rename E from to e))"
proof (rule engine_changeI)
  assume wf: "engine_wf e"
  let ?e1 = "snd (with_shard (shard_for_key from) (shard_remove E from) e)"
  have one: "engine_change E ((contents e)(from := None)) e ?e1"
    by (rule with_shard_step) (rule shard_remove_step)
  note c1 = engine_change_contents [OF one wf]
  have le: "engine_ok E e \<Longrightarrow> engine_bytes E ?e1 \<le> usize_max"
    using engine_change_ok [OF one _ upd_None_le] by (simp add: engine_ok_def)
  have two: "engine_change E ((contents e)(from := None, to \<mapsto> entry)) e
      (snd (with_shard (shard_for_key to) (shard_insert E to entry) ?e1))" for entry
    using engine_change_trans [OF one shard_insert_change le] by (simp add: c1)
  from wf have len: "length (shards e) = NUM_SHARDS" by (simp add: engine_wf_def)
  show "engine_change E (case live (now E) (contents e) from of
      None \<Rightarrow> (contents e)(from := None)
    | Some entry \<Rightarrow> (contents e)(from := None, to \<mapsto> entry)) e (snd (rename E from to e))"
    using one two
    by (simp add: rename_seq [OF len] case_prod_beta with_shard_fst shard_remove_fst split: option.splits)
qed

lemma copy_fst [engine_results]:
  "engine_wf e \<Longrightarrow> fst (copy E from to e) \<longleftrightarrow> live (now E) (contents e) from \<noteq> None"
  by (auto simp: copy_seq engine_wf_def case_prod_beta peek_fst split: option.splits)

lemma copy_change [engine_effects]:
  "engine_change E (let m = (contents e)(from := live (now E) (contents e) from)
     in (case m from of
        None \<Rightarrow> m
      | Some source \<Rightarrow> if from = to then m else m(to \<mapsto> copied_entry E source))) e (snd (copy E from to e))"
proof (rule engine_changeI)
  assume wf: "engine_wf e"
  let ?e1 = "snd (peek E from e)"
  let ?m = "(contents e)(from := live (now E) (contents e) from)"
  note one = peek_change [of E e "from"]
  note c1 = engine_change_contents [OF one wf]
  have le: "engine_ok E e \<Longrightarrow> engine_bytes E ?e1 \<le> usize_max"
    using engine_change_ok [OF one _ upd_live_le] by (simp add: engine_ok_def)
  have two: "engine_change E (?m(to \<mapsto> entry)) e
      (snd (with_shard (shard_for_key to) (shard_insert E to entry) ?e1))" for entry
    using engine_change_trans [OF one shard_insert_change le] by (simp add: c1)
  from wf have len: "length (shards e) = NUM_SHARDS" by (simp add: engine_wf_def)
  show "engine_change E (let m = ?m in (case m from of
        None \<Rightarrow> m
      | Some source \<Rightarrow> if from = to then m else m(to \<mapsto> copied_entry E source))) e (snd (copy E from to e))"
    using one two
    by (auto simp: copy_seq [OF len] case_prod_beta peek_fst Let_def split: option.splits)
qed

section \<open>Reading many keys\<close>

text \<open>Reading a set of keys touches the live ones and drops the expired ones.\<close>

definition touched :: "env \<Rightarrow> bytes set \<Rightarrow> (bytes \<Rightarrow> data_entry option) \<Rightarrow> bytes \<Rightarrow> data_entry option" where
  "touched E K m key = (if key \<in> K then map_option (touch E) (live (now E) m key) else m key)"

lemma live_touched [simp]:
  "map_option (touch E) (live (now E) (touched E K m) key) = map_option (touch E) (live (now E) m key)"
  by (auto simp: touched_def live_def entry_expired_def split: option.splits)

lemma touched_step: "(touched E K m)(key := map_option (touch E) (live (now E) (touched E K m) key)) =
    touched E (insert key K) m"
  unfolding live_touched by (auto simp: touched_def fun_eq_iff)

lemma touched_empty [simp]: "touched E {} m = m"
  by (simp add: touched_def fun_eq_iff)

lemma touched_bytes:
  assumes "engine_wf e" "engine_wf e'" "contents e' = (contents e)(key := map_option (touch E) (live (now E) (contents e) key))"
  shows "engine_bytes E e' \<le> engine_bytes E e"
proof (cases "live (now E) (contents e) key")
  case None
  with assms show ?thesis by (intro engine_bytes_mono) (auto simp: upd_None_le)
next
  case (Some entry)
  then have "contents e key = Some entry" by (simp add: live_Some)
  with en.visit_sum_insert [OF assms(1,2), of key "touch E entry" "\<lambda>(key, entry). approx_entry_size E key entry"]
    Some assms(3)
  show ?thesis by (simp add: engine_bytes_sum approx_entry_size_def)
qed

lemma engine_get_ok: "engine_ok E e \<Longrightarrow> engine_ok E (snd (engine_get E key e))"
  using engine_get_change [of E e key] touched_bytes [of e "snd (engine_get E key e)" key E]
  by (simp add: engine_change_def engine_ok_def)

lemma group_by_shard_nth:
  assumes "length by_shard = NUM_SHARDS" and "i < NUM_SHARDS"
  shows "group_by_shard idx keys by_shard ! i =
      by_shard ! i @ filter (\<lambda>(n, key). shard_for_key key = i) (enumerate idx keys)"
    and "length (group_by_shard idx keys by_shard) = NUM_SHARDS"
  using assms
  by (induction idx keys by_shard rule: group_by_shard.induct) (auto simp: Let_def nth_list_update)

lemma mget_shard_spec:
  assumes "\<And>n key. (n, key) \<in> set ks \<Longrightarrow> shard_for_key key = i" and "i < NUM_SHARDS" and "engine_wf e"
    and "contents e = touched E K m"
  shows "fst (with_shard i (mget_shard E ks results) e) =
      fold (\<lambda>(n, key) rs. rs[n := map_option (touch E) (live (now E) m key)]) ks results"
    and "engine_wf (snd (with_shard i (mget_shard E ks results) e))"
    and "contents (snd (with_shard i (mget_shard E ks results) e)) = touched E (K \<union> snd ` set ks) m"
    and "engine_ok E e \<Longrightarrow> engine_ok E (snd (with_shard i (mget_shard E ks results) e))"
    and "same_epoch e (snd (with_shard i (mget_shard E ks results) e))"
proof -
  have "fst (with_shard i (mget_shard E ks results) e) =
      fold (\<lambda>(n, key) rs. rs[n := map_option (touch E) (live (now E) m key)]) ks results \<and>
    engine_wf (snd (with_shard i (mget_shard E ks results) e)) \<and>
    contents (snd (with_shard i (mget_shard E ks results) e)) = touched E (K \<union> snd ` set ks) m \<and>
    (engine_ok E e \<longrightarrow> engine_ok E (snd (with_shard i (mget_shard E ks results) e))) \<and>
    same_epoch e (snd (with_shard i (mget_shard E ks results) e))"
    using assms
  proof (induction ks arbitrary: e results K)
    case Nil
    then show ?case by (simp add: with_shard_def engine_wf_def)
  next
    case (Cons nk ks)
    obtain n key where nk: "nk = (n, key)" by (cases nk)
    have i: "i = shard_for_key key" using Cons.prems(1) [of n key] nk by simp
    let ?e1 = "snd (engine_get E key e)"
    let ?r = "map_option (touch E) (live (now E) m key)"
    have len: "i < length (shards e)" using Cons.prems by (simp add: engine_wf_def)
    have run: "with_shard i (mget_shard E (nk # ks) results) e =
        with_shard i (mget_shard E ks (results[n := ?r])) ?e1"
      using engine_get_fst [of E key e] len Cons.prems(4)
      by (simp add: engine_get_def with_shard_def case_prod_beta nk i)
    have wf1: "engine_wf ?e1" using engine_change_wf [OF engine_get_change Cons.prems(3)] .
    have c1: "contents ?e1 = touched E (insert key K) m"
      unfolding engine_change_contents [OF engine_get_change Cons.prems(3)] Cons.prems(4) touched_step ..
    have "fst (with_shard i (mget_shard E ks (results[n := ?r])) ?e1) =
        fold (\<lambda>(n, key) rs. rs[n := map_option (touch E) (live (now E) m key)]) ks (results[n := ?r]) \<and>
      engine_wf (snd (with_shard i (mget_shard E ks (results[n := ?r])) ?e1)) \<and>
      contents (snd (with_shard i (mget_shard E ks (results[n := ?r])) ?e1)) =
        touched E (insert key K \<union> snd ` set ks) m \<and>
      (engine_ok E ?e1 \<longrightarrow> engine_ok E (snd (with_shard i (mget_shard E ks (results[n := ?r])) ?e1))) \<and>
      same_epoch ?e1 (snd (with_shard i (mget_shard E ks (results[n := ?r])) ?e1))"
      using Cons.prems by (intro Cons.IH wf1 c1) auto
    moreover have "same_epoch e ?e1" using engine_get_change [of E e key] Cons.prems(3) by (simp add: engine_change_def)
    ultimately show ?case unfolding run using engine_get_ok [of E e key] nk by simp
  qed
  then show "fst (with_shard i (mget_shard E ks results) e) =
      fold (\<lambda>(n, key) rs. rs[n := map_option (touch E) (live (now E) m key)]) ks results"
    and "engine_wf (snd (with_shard i (mget_shard E ks results) e))"
    and "contents (snd (with_shard i (mget_shard E ks results) e)) = touched E (K \<union> snd ` set ks) m"
    and "engine_ok E e \<Longrightarrow> engine_ok E (snd (with_shard i (mget_shard E ks results) e))"
    and "same_epoch e (snd (with_shard i (mget_shard E ks results) e))"
    by simp_all
qed

lemma mget_loop_spec:
  assumes "\<And>j n key. j < length by_shard \<Longrightarrow> (n, key) \<in> set (by_shard ! j) \<Longrightarrow> shard_for_key key = idx + j"
    and "idx + length by_shard = NUM_SHARDS" and "engine_wf e" and "contents e = touched E K m"
  shows "fst (mget_loop E idx by_shard results e) =
      fold (\<lambda>(n, key) rs. rs[n := map_option (touch E) (live (now E) m key)]) (concat by_shard) results \<and>
    engine_wf (snd (mget_loop E idx by_shard results e)) \<and>
    contents (snd (mget_loop E idx by_shard results e)) = touched E (K \<union> snd ` set (concat by_shard)) m \<and>
    (engine_ok E e \<longrightarrow> engine_ok E (snd (mget_loop E idx by_shard results e))) \<and>
    same_epoch e (snd (mget_loop E idx by_shard results e))"
  using assms
proof (induction by_shard arbitrary: idx e results K)
  case (Cons ks by_shard)
  let ?e1 = "snd (with_shard idx (mget_shard E ks results) e)"
  let ?r1 = "fst (with_shard idx (mget_shard E ks results) e)"
  have ks: "shard_for_key key = idx" if "(n, key) \<in> set ks" for n key
    using Cons.prems(1) [of 0 n key] that by simp
  have rest: "shard_for_key key = Suc idx + j" if "j < length by_shard" "(n, key) \<in> set (by_shard ! j)" for j n key
    using Cons.prems(1) [of "Suc j" n key] that by simp
  have idx: "idx < NUM_SHARDS" "Suc idx + length by_shard = NUM_SHARDS" using Cons.prems(2) by auto
  note one = mget_shard_spec [of ks idx e E K m results, OF ks idx(1) Cons.prems(3,4)]
  have run: "mget_loop E idx (ks # by_shard) results e = mget_loop E (Suc idx) by_shard ?r1 ?e1"
    using idx Cons.prems(3) by (auto simp: case_prod_beta with_shard_def engine_wf_def)
  show ?case
    using Cons.IH [where results = ?r1, OF rest idx(2) one(2,3)] one(1,4,5)
    unfolding run by (simp add: image_Un Un_assoc)
qed simp

lemma fold_update_nth:
  assumes "distinct (map fst ks)" and "\<And>n x. (n, x) \<in> set ks \<Longrightarrow> n < length rs" and "j < length rs"
  shows "fold (\<lambda>(n, x) rs. rs[n := f x]) ks rs ! j =
    (case map_of ks j of None \<Rightarrow> rs ! j | Some x \<Rightarrow> f x)"
  using assms
proof (induction ks arbitrary: rs)
  case (Cons nx ks)
  obtain n x where nx: "nx = (n, x)" by (cases nx)
  with Cons.prems have "n \<notin> fst ` set ks" by simp
  then have fresh: "map_of ks n = None" by (simp add: map_of_eq_None_iff)
  have "fold (\<lambda>(n, x) rs. rs[n := f x]) ks (rs[n := f x]) ! j =
      (case map_of ks j of None \<Rightarrow> rs[n := f x] ! j | Some x \<Rightarrow> f x)"
    using Cons.prems nx by (intro Cons.IH) auto
  with nx fresh Cons.prems show ?case by (auto split: option.splits)
qed simp

lemma fold_update_length: "length (fold (\<lambda>(n, x) rs. rs[n := f x]) ks rs) = length rs"
  by (induction ks arbitrary: rs) (auto simp: case_prod_beta)

lemma grouped_keys:
  fixes keys :: "bytes list"
  defines "bs \<equiv> group_by_shard 0 keys (replicate NUM_SHARDS [])"
  shows "length bs = NUM_SHARDS"
    and "i < NUM_SHARDS \<Longrightarrow> bs ! i = filter (\<lambda>(n, key). shard_for_key key = i) (enumerate 0 keys)"
    and "set (concat bs) = set (enumerate 0 keys)"
    and "distinct (map fst (concat bs))"
proof -
  show len: "length bs = NUM_SHARDS"
    unfolding bs_def by (rule group_by_shard_nth(2) [where i = 0]) (simp_all add: NUM_SHARDS_def)
  show nth: "bs ! i = filter (\<lambda>(n, key). shard_for_key key = i) (enumerate 0 keys)" if "i < NUM_SHARDS" for i
    using that by (simp add: bs_def group_by_shard_nth)
  have "x \<in> set (concat bs) \<longleftrightarrow> (\<exists>i < NUM_SHARDS. x \<in> set (bs ! i))" for x
    using len by simp (metis in_set_conv_nth)
  then show "set (concat bs) = set (enumerate 0 keys)"
    by (auto simp: nth cong: conj_cong)
  have "distinct (concat (map (map fst) bs))"
  proof (rule distinct_concat_nth)
    fix i assume "i < length (map (map fst) bs)"
    then have i: "i < NUM_SHARDS" using len by simp
    have "inj_on fst (set (enumerate 0 keys))"
      by (auto simp: inj_on_def in_set_enumerate_eq)
    then show "distinct (map (map fst) bs ! i)"
      using i len by (auto simp: nth distinct_map distinct_filter inj_on_def)
  next
    fix i j n
    assume "i < length (map (map fst) bs)" "j < length (map (map fst) bs)"
      and "n \<in> set (map (map fst) bs ! i)" "n \<in> set (map (map fst) bs ! j)"
    then show "i = j" using len by (auto simp: nth in_set_enumerate_eq)
  qed
  then show "distinct (map fst (concat bs))" by (simp add: map_concat)
qed

lemma mget_spec:
  assumes wf: "engine_wf e"
  shows "fst (mget E keys e) = map (\<lambda>key. map_option (touch E) (live (now E) (contents e) key)) keys"
    and "engine_wf (snd (mget E keys e))"
    and "contents (snd (mget E keys e)) = touched E (set keys) (contents e)"
    and "engine_ok E e \<Longrightarrow> engine_ok E (snd (mget E keys e))"
    and "same_epoch e (snd (mget E keys e))"
proof -
  let ?bs = "group_by_shard 0 keys (replicate NUM_SHARDS [])"
  let ?f = "\<lambda>key. map_option (touch E) (live (now E) (contents e) key)"
  let ?rs = "replicate (length keys) None :: data_entry option list"
  note bs = grouped_keys [where keys = keys]
  have "fst (mget_loop E 0 ?bs ?rs e) = fold (\<lambda>(n, key) rs. rs[n := ?f key]) (concat ?bs) ?rs \<and>
    engine_wf (snd (mget_loop E 0 ?bs ?rs e)) \<and>
    contents (snd (mget_loop E 0 ?bs ?rs e)) = touched E ({} \<union> snd ` set (concat ?bs)) (contents e) \<and>
    (engine_ok E e \<longrightarrow> engine_ok E (snd (mget_loop E 0 ?bs ?rs e))) \<and>
    same_epoch e (snd (mget_loop E 0 ?bs ?rs e))"
  proof (rule mget_loop_spec)
    show "shard_for_key key = 0 + j" if "j < length ?bs" "(n, key) \<in> set (?bs ! j)" for j n key
      using that bs(1) bs(2) [of j] by auto
  qed (simp_all add: bs(1) wf)
  moreover have "snd ` set (concat ?bs) = set keys"
    unfolding bs(3) by (metis map_snd_enumerate set_map)
  moreover have "fold (\<lambda>(n, key) rs. rs[n := ?f key]) (concat ?bs) ?rs = map ?f keys"
  proof (rule nth_equalityI)
    fix j assume j: "j < length (fold (\<lambda>(n, key) rs. rs[n := ?f key]) (concat ?bs) ?rs)"
    then have jk: "j < length keys" by (simp add: fold_update_length)
    then have "(j, keys ! j) \<in> set (concat ?bs)" unfolding bs(3) by (simp add: in_set_enumerate_eq)
    then have "map_of (concat ?bs) j = Some (keys ! j)" using bs(4) by (rule map_of_is_SomeI [rotated])
    moreover have "n < length ?rs" if "(n, key) \<in> set (concat ?bs)" for n key
      using that unfolding bs(3) by (simp add: in_set_enumerate_eq)
    ultimately show "fold (\<lambda>(n, key) rs. rs[n := ?f key]) (concat ?bs) ?rs ! j = map ?f keys ! j"
      using fold_update_nth [OF bs(4), of ?rs j ?f] jk by simp
  qed (simp add: fold_update_length)
  ultimately show "fst (mget E keys e) = map ?f keys" "engine_wf (snd (mget E keys e))"
    "contents (snd (mget E keys e)) = touched E (set keys) (contents e)"
    "engine_ok E e \<Longrightarrow> engine_ok E (snd (mget E keys e))" "same_epoch e (snd (mget E keys e))"
    by (simp_all add: mget_def)
qed

section \<open>Eviction\<close>

lemma best_candidate_Some:
  assumes "best_candidate policy prot nanos idx ss best = Some (i, key, score)"
  shows "(best = Some (i, key, score) \<or> (\<exists>j < length ss. i = idx + j \<and>
        eviction_candidate policy prot (nanos i) (ss ! j) = Some (key, score))) \<and>
    (\<forall>b. best = Some b \<longrightarrow> score \<le> snd (snd b)) \<and>
    (\<forall>j < length ss. \<forall>k sc. eviction_candidate policy prot (nanos (idx + j)) (ss ! j) = Some (k, sc) \<longrightarrow>
      score \<le> sc)"
  using assms
proof (induction ss arbitrary: idx best)
  case (Cons s ss)
  let ?c = "eviction_candidate policy prot (nanos idx) s"
  define best' where "best' = (case ?c of
      Some (key, score) \<Rightarrow>
        if (case best of None \<Rightarrow> True | Some (_, _, best_score) \<Rightarrow> score < best_score)
        then Some (idx, key, score) else best
    | None \<Rightarrow> best)"
  from Cons.prems have "best_candidate policy prot nanos (Suc idx) ss best' = Some (i, key, score)"
    by (simp add: best'_def)
  note IH = Cons.IH [OF this]
  have upper: "(\<forall>b. best = Some b \<longrightarrow> (\<exists>b'. best' = Some b' \<and> snd (snd b') \<le> snd (snd b))) \<and>
      (\<forall>k sc. ?c = Some (k, sc) \<longrightarrow> (\<exists>b'. best' = Some b' \<and> snd (snd b') \<le> sc))"
    by (auto simp: best'_def split: option.splits prod.splits)
  have "best' = best \<or> (\<exists>k sc. ?c = Some (k, sc) \<and> best' = Some (idx, k, sc))"
    by (auto simp: best'_def split: option.splits prod.splits)
  with IH have "best = Some (i, key, score) \<or> (\<exists>j < length (s # ss). i = idx + j \<and>
        eviction_candidate policy prot (nanos i) ((s # ss) ! j) = Some (key, score))"
    by (elim conjE disjE exE) (auto intro: exI [of _ 0] exI [of _ "Suc _"])
  moreover have "score \<le> snd (snd b)" if "best = Some b" for b
  proof -
    from that upper obtain b' where "best' = Some b'" "snd (snd b') \<le> snd (snd b)" by blast
    with IH show ?thesis by (blast intro: order_trans)
  qed
  moreover have "score \<le> sc" if "j < length (s # ss)"
      "eviction_candidate policy prot (nanos (idx + j)) ((s # ss) ! j) = Some (k, sc)" for j k sc
  proof (cases j)
    case 0
    with that have "?c = Some (k, sc)" by simp
    with upper obtain b' where "best' = Some b'" "snd (snd b') \<le> sc" by blast
    with IH show ?thesis by (blast intro: order_trans)
  next
    case (Suc j')
    with that IH show ?thesis by simp
  qed
  ultimately show ?case by blast
qed simp

lemma best_candidate_None:
  "best_candidate policy prot nanos idx ss best = None \<longleftrightarrow>
    best = None \<and> (\<forall>s \<in> set ss. filter (eviction_eligible policy prot) (sh_entries s) = [])"
proof (induction ss arbitrary: idx best)
  case (Cons s ss)
  show ?case
    using eviction_candidate_None [of policy prot "nanos idx" s]
    by (cases "eviction_candidate policy prot (nanos idx) s")
      (auto simp: Cons.IH split: option.splits)
qed simp

lemma lru_candidate_least:
  assumes "eviction_candidate policy prot nanos s = Some (key, score)" "policy \<in> {AllKeysLru, VolatileLru}"
    and "(k, x) \<in> set (sh_entries s)" "eviction_eligible policy prot (k, x)"
  shows "score \<le> last_accessed x"
proof -
  have "lru_select (filter (eviction_eligible policy prot) (sh_entries s)) None = Some (key, score)"
    using assms(1,2) by (auto simp: eviction_candidate_def Let_def)
  from lru_select_spec [OF this] assms(3,4) show ?thesis by auto
qed

lemma best_candidate_entry:
  assumes wf: "engine_wf e" and best: "best_candidate policy prot nanos 0 (shards e) None = Some (i, key, score)"
  obtains entry where "contents e key = Some entry" and "i = shard_for_key key"
    and "eviction_eligible policy prot (key, entry)"
    and "\<And>k x. policy \<in> {AllKeysLru, VolatileLru} \<Longrightarrow> contents e k = Some x \<Longrightarrow>
      eviction_eligible policy prot (k, x) \<Longrightarrow> last_accessed entry \<le> last_accessed x"
proof -
  note spec = best_candidate_Some [OF best]
  then have i: "i < length (shards e)" "eviction_candidate policy prot (nanos i) (shards e ! i) = Some (key, score)"
    by auto
  from eviction_candidate_Some [OF i(2)] obtain entry where
    entry: "(key, entry) \<in> set (sh_entries (shards e ! i))" "eviction_eligible policy prot (key, entry)"
      "policy \<in> {AllKeysLru, VolatileLru} \<longrightarrow> score = last_accessed entry" by blast
  have len: "i < NUM_SHARDS" using i wf by (simp add: engine_wf_def)
  then have get: "sh_get (shards e ! i) key = Some entry"
    using entry(1) wf by (simp add: engine_wf_def sd.visit_mem)
  with wf len have route: "i = shard_for_key key" unfolding engine_wf_def by (metis option.distinct(1))
  show thesis
  proof (rule that [of entry])
    show "contents e key = Some entry" using get route by (simp add: contents_def)
    fix k x
    assume lru: "policy \<in> {AllKeysLru, VolatileLru}" and x: "contents e k = Some x"
      and el: "eviction_eligible policy prot (k, x)"
    let ?s = "shards e ! shard_for_key k"
    have mem: "(k, x) \<in> set (sh_entries ?s)" using x wf by (simp add: contents_def sd.visit_mem engine_wf_def)
    then have "filter (eviction_eligible policy prot) (sh_entries ?s) \<noteq> []"
      using el by (auto simp: filter_empty_conv)
    then obtain k' sc where c: "eviction_candidate policy prot (nanos (shard_for_key k)) ?s = Some (k', sc)"
      using eviction_candidate_None by (metis option.exhaust surj_pair)
    have "shard_for_key k < length (shards e)" using wf by (simp add: engine_wf_def)
    with spec c have "score \<le> sc" by (metis add_0)
    also have "sc \<le> last_accessed x" by (rule lru_candidate_least [OF c lru mem el])
    finally show "last_accessed entry \<le> last_accessed x" using entry(3) lru by auto
  qed (use entry route in simp_all)
qed

text \<open>
  What eviction promises. The evicted entries were live, eligible and are gone, everything else
  is kept; either the data set fits now or nothing eligible is left; the last eviction was
  needed; and under an LRU policy nothing eligible that remains was used earlier than an entry
  that was evicted.
\<close>

definition evict_post :: "env \<Rightarrow> nat \<Rightarrow> eviction_policy \<Rightarrow> bytes set \<Rightarrow> engine \<Rightarrow>
    (bytes \<times> data_entry) list \<Rightarrow> engine \<Rightarrow> bool" where
  "evict_post E mx policy prot e ev e' \<longleftrightarrow> engine_ok E e' \<and>
     engine_bases e' = engine_bases e \<and> snapshot_active e' = snapshot_active e \<and>
     contents e' = (\<lambda>k. if k \<in> fst ` set ev then None else live (now E) (contents e) k) \<and>
     hm_wf ev \<and>
     (\<forall>(k, x) \<in> set ev. live (now E) (contents e) k = Some x \<and> eviction_eligible policy prot (k, x)) \<and>
     (mx < engine_bytes E e' \<longrightarrow> (\<forall>k x. contents e' k = Some x \<longrightarrow> \<not> eviction_eligible policy prot (k, x))) \<and>
     (ev \<noteq> [] \<longrightarrow> mx < engine_bytes E e' + (case last ev of (k, x) \<Rightarrow> approx_entry_size E k x)) \<and>
     (policy \<in> {AllKeysLru, VolatileLru} \<longrightarrow> (\<forall>(k, x) \<in> set ev. \<forall>k' x'.
        contents e' k' = Some x' \<and> eviction_eligible policy prot (k', x') \<longrightarrow>
        last_accessed x \<le> last_accessed x'))"

lemma evict_post_stop:
  assumes ok: "engine_ok E e" and change: "engine_change E (live (now E) (contents e)) e e1"
    and stop: "\<And>k x. mx < engine_bytes E e1 \<Longrightarrow> contents e1 k = Some x \<Longrightarrow> \<not> eviction_eligible policy prot (k, x)"
  shows "evict_post E mx policy prot e [] e1"
proof -
  have "engine_ok E e1" by (rule engine_change_ok [OF change ok live_le])
  with assms show ?thesis by (auto simp: evict_post_def engine_change_def engine_ok_def)
qed

lemma evict_post_more:
  assumes c1: "contents e1 = live (now E) (contents e)" and wf1: "engine_wf e1" and over: "mx < engine_bytes E e1"
    and key: "contents e1 key = Some entry" and el: "eviction_eligible policy prot (key, entry)"
    and least: "\<And>k x. policy \<in> {AllKeysLru, VolatileLru} \<Longrightarrow> contents e1 k = Some x \<Longrightarrow>
      eviction_eligible policy prot (k, x) \<Longrightarrow> last_accessed entry \<le> last_accessed x"
    and wf2: "engine_wf e2" and c2: "contents e2 = (contents e1)(key := None)"
    and same: "engine_bases e2 = engine_bases e" "snapshot_active e2 = snapshot_active e"
    and post: "evict_post E mx policy prot e2 ev e'"
  shows "evict_post E mx policy prot e ((key, entry) # ev) e'"
proof -
  have live2: "live (now E) (contents e2) = (contents e1)(key := None)"
    unfolding c2 c1 by (auto simp: fun_eq_iff live_def split: option.splits)
  note post = post [unfolded evict_post_def live2]
  have keys: "k \<noteq> key" if "(k, x) \<in> set ev" for k x
    using post that by auto
  have c': "contents e' = (\<lambda>k. if k \<in> fst ` set ((key, entry) # ev) then None else live (now E) (contents e) k)"
    using post c1 by (auto simp: fun_eq_iff)
  have "mx < engine_bytes E e' + (case last ((key, entry) # ev) of (k, x) \<Rightarrow> approx_entry_size E k x)"
  proof (cases "ev = []")
    case True
    with post have "contents e' = contents e2" "engine_wf e'" by (auto simp: c2 engine_ok_def)
    then have "engine_bytes E e' = engine_bytes E e2"
      using wf2 by (intro antisym engine_bytes_mono) simp_all
    with True over engine_bytes_drop(1) [OF wf1 wf2 c2 key, of E] show ?thesis by simp
  next
    case False
    with post show ?thesis by simp
  qed
  moreover have "hm_wf ((key, entry) # ev)" using post keys by auto
  moreover have "\<forall>(k, x) \<in> set ((key, entry) # ev).
      live (now E) (contents e) k = Some x \<and> eviction_eligible policy prot (k, x)"
    using post keys key el c1 by (auto split: if_splits)
  moreover have "last_accessed x \<le> last_accessed x'"
    if "policy \<in> {AllKeysLru, VolatileLru}" "(k, x) \<in> set ((key, entry) # ev)"
      "contents e' k' = Some x'" "eviction_eligible policy prot (k', x')" for k x k' x'
  proof (cases "(k, x) \<in> set ev")
    case True
    with post that show ?thesis by blast
  next
    case False
    then have "x = entry" using that(2) by simp
    moreover have "contents e1 k' = Some x'" using that(3) c' c1 by (simp split: if_splits)
    ultimately show ?thesis using least that(1,4) by simp
  qed
  moreover have "engine_bases e' = engine_bases e" "snapshot_active e' = snapshot_active e"
    using post same by simp_all
  moreover have "engine_ok E e'" "mx < engine_bytes E e' \<longrightarrow>
      (\<forall>k x. contents e' k = Some x \<longrightarrow> \<not> eviction_eligible policy prot (k, x))"
    using post by blast+
  ultimately show ?thesis
    unfolding evict_post_def using c' by blast
qed

lemma evict_loop_spec:
  assumes "engine_ok E e" and "entry_count e < fuel"
  shows "\<exists>ev e'. evict_loop E mx policy prot pass fuel acc e = Some (acc @ ev, e') \<and>
    evict_post E mx policy prot e ev e'"
  using assms
proof (induction fuel arbitrary: pass acc e)
  case (Suc fuel)
  let ?e1 = "snd (total_memory_bytes E e)"
  let ?best = "best_candidate policy prot (\<lambda>n. subsec_nanos E (NUM_SHARDS * pass + n)) 0 (shards ?e1) None"
  have ok1: "engine_ok E ?e1" using engine_change_ok [OF total_memory_change Suc.prems(1) live_le] .
  then have wf: "engine_wf e" "engine_wf ?e1" using Suc.prems by (simp_all add: engine_ok_def)
  have c1: "contents ?e1 = live (now E) (contents e)"
    by (rule engine_change_contents [OF total_memory_change wf(1)])
  have fewer: "entry_count ?e1 \<le> entry_count e"
    using wf c1 by (intro engine_bytes_mono) (simp_all add: live_le)
  have used: "fst (total_memory_bytes E e) = engine_bytes E ?e1" by (rule total_memory_fst [OF Suc.prems(1)])
  show ?case
  proof (cases "engine_bytes E ?e1 \<le> mx")
    case True
    then show ?thesis
      using evict_post_stop [OF Suc.prems(1) total_memory_change, of mx policy prot] used by (auto simp: case_prod_beta)
  next
    case over: False
    show ?thesis
    proof (cases ?best)
      case None
      then have "\<not> eviction_eligible policy prot (k, x)" if "contents ?e1 k = Some x" for k x
        using that wf(2) engine_mem [OF wf(2), of k x]
        by (auto simp: best_candidate_None engine_entries_def filter_empty_conv)
      then show ?thesis
        using evict_post_stop [OF Suc.prems(1) total_memory_change, of mx policy prot] over None used by (auto simp: case_prod_beta)
    next
      case (Some b)
      obtain i key score where b: "b = (i, key, score)" by (cases b)
      from best_candidate_entry [OF wf(2) Some [unfolded b]] obtain entry where
        entry: "contents ?e1 key = Some entry" "i = shard_for_key key" "eviction_eligible policy prot (key, entry)"
          and least: "\<And>k x. policy \<in> {AllKeysLru, VolatileLru} \<Longrightarrow> contents ?e1 k = Some x \<Longrightarrow>
            eviction_eligible policy prot (k, x) \<Longrightarrow> last_accessed entry \<le> last_accessed x" by blast
      let ?e2 = "snd (with_shard i (shard_remove E key) ?e1)"
      have removal: "engine_change E ((contents ?e1)(key := None)) ?e1 ?e2"
        unfolding entry(2) by (rule with_shard_step) (rule shard_remove_step)
      have ok2: "engine_ok E ?e2" by (rule engine_change_ok [OF removal ok1 upd_None_le])
      have c2: "contents ?e2 = (contents ?e1)(key := None)" by (rule engine_change_contents [OF removal wf(2)])
      have same: "engine_bases ?e2 = engine_bases e" "snapshot_active ?e2 = snapshot_active e"
        using removal total_memory_change [of E e] wf by (simp_all add: engine_change_def)
      have "live (now E) (contents ?e1) key = Some entry"
        using entry(1) unfolding c1 by simp
      then have got: "fst (with_shard i (shard_remove E key) ?e1) = Some entry"
        unfolding entry(2) by (simp add: with_shard_fst shard_remove_fst)
      have "entry_count ?e2 < fuel"
        using engine_bytes_drop(2) [OF wf(2) engine_ok_wf [OF ok2] c2 entry(1)] fewer Suc.prems(2) by simp
      from Suc.IH [OF ok2 this, of "Suc pass" "acc @ [(key, entry)]"] obtain ev e' where
        run: "evict_loop E mx policy prot (Suc pass) fuel (acc @ [(key, entry)]) ?e2 =
            Some ((acc @ [(key, entry)]) @ ev, e')"
          and post: "evict_post E mx policy prot ?e2 ev e'" by blast
      have "evict_post E mx policy prot e ((key, entry) # ev) e'"
        by (rule evict_post_more [OF c1 wf(2) _ entry(1,3) least engine_ok_wf [OF ok2] c2 same post])
          (use over in simp_all)
      moreover have "evict_loop E mx policy prot pass (Suc fuel) acc e = Some (acc @ (key, entry) # ev, e')"
        using over used Some b got run by (simp add: case_prod_beta)
      ultimately show ?thesis by blast
    qed
  qed
qed simp

lemma evict_to_fit_spec:
  assumes "engine_ok E e" "policy \<noteq> NoEviction" "mx \<noteq> 0"
  obtains ev e' where "evict_to_fit E mx policy prot e = Some (ev, e')" "evict_post E mx policy prot e ev e'"
  using evict_loop_spec [OF assms(1) lessI, of mx policy prot 0 "[]"] assms(2,3)
  by (auto simp: evict_to_fit_def)

section \<open>Snapshot epochs\<close>

lemma begin_snapshot_Some:
  assumes "begin_snapshot E e = Some (snap, e')"
  shows "\<not> snapshot_active e"
    and "engine_bases e = replicate (length (shards e)) None"
    and "shards e' = map (\<lambda>s. s\<lparr>sdata := Snapshot (sh_entries s) []\<rparr>) (shards e)"
    and "total_keys e' = total_keys e" and "snapshot_active e'"
    and "snap_shards snap = map (\<lambda>s. Some (sh_entries s)) (shards e)" and "captured_at snap = now E"
proof -
  let ?opened = "map (\<lambda>s. sd_begin_snapshot (sdata s)) (shards e)"
  from assms show "\<not> snapshot_active e" by (auto simp: begin_snapshot_def split: if_splits)
  from assms have some: "None \<notin> set ?opened"
    by (auto simp: begin_snapshot_def Let_def split: if_splits)
  have flat: "sd_begin_snapshot (sdata s) = Some (sh_entries s, Snapshot (sh_entries s) []) \<and> sd_base (sdata s) = None"
    if "s \<in> set (shards e)" for s
    using some that by (cases "sdata s") force+
  then have opened: "?opened = map (\<lambda>s. Some (sh_entries s, Snapshot (sh_entries s) [])) (shards e)"
    by (intro map_cong) simp_all
  show "engine_bases e = replicate (length (shards e)) None"
    using flat by (auto simp: engine_bases_def intro!: replicate_eqI)
  from assms some \<open>\<not> snapshot_active e\<close> have e': "snap_shards snap = map (map_option fst) ?opened"
      "shards e' = map2 (\<lambda>s d. s\<lparr>sdata := d\<rparr>) (shards e) (map (snd \<circ> the) ?opened)"
      "total_keys e' = total_keys e" "snapshot_active e'" "captured_at snap = now E"
    unfolding begin_snapshot_def Let_def by auto
  show "shards e' = map (\<lambda>s. s\<lparr>sdata := Snapshot (sh_entries s) []\<rparr>) (shards e)"
    unfolding e' opened by (rule nth_equalityI) simp_all
  show "total_keys e' = total_keys e" "snapshot_active e'" "captured_at snap = now E" by (fact e')+
  show "snap_shards snap = map (\<lambda>s. Some (sh_entries s)) (shards e)" unfolding e' opened by simp
qed

lemma begin_snapshot_defined:
  assumes "\<not> snapshot_active e" and "engine_bases e = replicate (length (shards e)) None"
  obtains snap e' where "begin_snapshot E e = Some (snap, e')"
proof -
  have "None \<noteq> sd_begin_snapshot (sdata s)" if "s \<in> set (shards e)" for s
  proof -
    have "sd_base (sdata s) \<in> set (engine_bases e)" using that by (auto simp: engine_bases_def)
    with assms(2) have "sd_base (sdata s) = None" by simp
    then show ?thesis by (cases "sdata s") auto
  qed
  then have "None \<notin> set (map (\<lambda>s. sd_begin_snapshot (sdata s)) (shards e))" by auto
  with assms(1) that show thesis unfolding begin_snapshot_def Let_def by auto
qed

text \<open>Replacing every shard by one with the same content and counters keeps everything.\<close>

lemma reshape_ok:
  assumes len: "length (shards e') = length (shards e)" and tk: "total_keys e' = total_keys e"
    and same: "\<And>i. i < length (shards e) \<Longrightarrow> sh_get (shards e' ! i) = sh_get (shards e ! i) \<and>
      (sd_ok (sdata (shards e ! i)) \<longrightarrow> sd_ok (sdata (shards e' ! i))) \<and>
      key_count (shards e' ! i) = key_count (shards e ! i) \<and> mem_bytes (shards e' ! i) = mem_bytes (shards e ! i)"
  shows "engine_wf e \<Longrightarrow> engine_wf e' \<and> contents e' = contents e" "engine_ok E e \<Longrightarrow> engine_ok E e'"
proof -
  show wf: "engine_wf e' \<and> contents e' = contents e" if "engine_wf e"
    using that len same by (auto simp: engine_wf_def contents_def fun_eq_iff)
  show "engine_ok E e'" if ok: "engine_ok E e"
  proof -
    note dok = bytes_same [of "shards e ! i" "shards e' ! i" for i]
    have eq: "shard_bytes E (shards e' ! i) = shard_bytes E (shards e ! i)"
        "length (sh_entries (shards e' ! i)) = length (sh_entries (shards e ! i))" if "i < length (shards e)" for i
      using that ok same [OF that] dok [of i] by (auto simp: engine_ok_def engine_wf_def)
    then have "map (shard_bytes E) (shards e') = map (shard_bytes E) (shards e)"
      "map (\<lambda>s. length (sh_entries s)) (shards e') = map (\<lambda>s. length (sh_entries s)) (shards e)"
      using len by (auto intro!: nth_equalityI)
    moreover have "shard_ok E (shards e' ! i)" if "i < NUM_SHARDS" for i
      using that ok same [of i] eq [of i] by (simp add: engine_ok_def engine_wf_def shard_ok_def)
    ultimately show ?thesis
      using ok wf tk by (simp add: engine_ok_def engine_bytes_def entry_count_def)
  qed
qed

lemma begin_snapshot_ok:
  assumes "begin_snapshot E0 e = Some (snap, e')"
  shows "engine_wf e \<Longrightarrow> engine_wf e' \<and> contents e' = contents e" "engine_ok E e \<Longrightarrow> engine_ok E e'"
    "engine_bases e' = snap_shards snap"
proof -
  note b = begin_snapshot_Some [OF assms]
  have flat: "sh_get s = sd_get (Snapshot (sh_entries s) []) \<and> (sd_ok (sdata s) \<longrightarrow> sd_ok (Snapshot (sh_entries s) []))"
    if "s \<in> set (shards e)" for s
  proof -
    have "sd_base (sdata s) \<in> set (engine_bases e)" using that by (auto simp: engine_bases_def)
    with b(2) have "sd_base (sdata s) = None" by simp
    then show ?thesis by (cases "sdata s") (auto simp: fun_eq_iff)
  qed
  show "engine_wf e \<Longrightarrow> engine_wf e' \<and> contents e' = contents e" "engine_ok E e \<Longrightarrow> engine_ok E e'"
    by (rule reshape_ok; use flat in \<open>simp add: b(3,4)\<close>)+
  show "engine_bases e' = snap_shards snap" by (simp add: engine_bases_def b(3,6))
qed

lemma finish_snapshot_ok:
  assumes "finish_snapshot e = Some e'" and wf: "engine_wf e"
  shows "engine_wf e' \<and> contents e' = contents e" "engine_ok E e \<Longrightarrow> engine_ok E e'"
    "engine_bases e' = replicate (length (shards e')) None" "\<not> snapshot_active e'"
proof -
  from assms have e': "e' = e\<lparr>shards := map (\<lambda>s. s\<lparr>sdata := snd (sd_finish_snapshot (sdata s))\<rparr>) (shards e),
      snapshot_active := False\<rparr>"
    by (simp add: finish_snapshot_def split: if_splits)
  have dok: "sd_ok (sdata (shards e ! i))" if "i < length (shards e)" for i
    using that wf by (simp add: engine_wf_def)
  show "engine_wf e' \<and> contents e' = contents e"
    by (rule reshape_ok(1) [OF _ _ _ wf]) (simp_all add: e' dok)
  show "engine_ok E e \<Longrightarrow> engine_ok E e'"
    by (rule reshape_ok(2)) (simp_all add: e' dok)
  show "engine_bases e' = replicate (length (shards e')) None" "\<not> snapshot_active e'"
    by (simp_all add: e' engine_bases_def o_def map_replicate_const)
qed

lemma finish_snapshot_shard_ok:
  assumes "finish_snapshot_shard i e = Some e'" and wf: "engine_wf e"
  shows "engine_wf e' \<and> contents e' = contents e" "engine_ok E e \<Longrightarrow> engine_ok E e'"
    "snapshot_active e' = snapshot_active e"
proof -
  let ?s = "shards e ! i"
  from assms have e': "i < length (shards e)"
      "e' = e\<lparr>shards := (shards e)[i := ?s\<lparr>sdata := snd (sd_finish_snapshot (sdata ?s))\<rparr>]\<rparr>"
    by (auto simp: finish_snapshot_shard_def Let_def split: if_splits prod.splits bool.splits)
  have dok: "sd_ok (sdata (shards e ! i))" if "i < length (shards e)" for i
    using that wf by (simp add: engine_wf_def)
  show "engine_wf e' \<and> contents e' = contents e"
    by (rule reshape_ok(1) [OF _ _ _ wf]) (simp_all add: e' dok nth_list_update)
  show "engine_ok E e \<Longrightarrow> engine_ok E e'"
    by (rule reshape_ok(2)) (simp_all add: e' dok nth_list_update)
  show "snapshot_active e' = snapshot_active e" by (simp add: e')
qed

lemma snapshot_entries_spec:
  assumes begun: "begin_snapshot E e = Some (snap, e')" and wf: "engine_wf e"
  shows "hm_wf (snapshot_entries snap)" "hm_get (snapshot_entries snap) = live (now E) (contents e)"
proof -
  note b = begin_snapshot_Some [OF begun]
  have entries: "snapshot_entries snap = filter (\<lambda>(_, entry). not_expired_at (now E) entry) (engine_entries e)"
    by (simp add: snapshot_entries_def b engine_entries_def List.map_filter_def o_def)
  show distinct: "hm_wf (snapshot_entries snap)"
    unfolding entries using engine_distinct [OF wf] by (simp add: distinct_map_filter)
  show "hm_get (snapshot_entries snap) = live (now E) (contents e)"
  proof
    fix key
    have iff: "(key, entry) \<in> set (snapshot_entries snap) \<longleftrightarrow> live (now E) (contents e) key = Some entry" for entry
      unfolding entries using engine_mem [OF wf, of key entry]
      by (auto simp: live_Some not_expired_at_def entry_expired_def split: option.splits)
    show "hm_get (snapshot_entries snap) key = live (now E) (contents e) key"
      using distinct iff
      by (cases "live (now E) (contents e) key") (auto simp: map_of_eq_None_iff intro: map_of_is_SomeI)
  qed
qed

section \<open>Replacing the data set\<close>

lemma insert_routed_change:
  assumes "hm_wf entries" and "\<And>key. key \<in> fst ` set entries \<Longrightarrow> contents e key = None"
  shows "engine_change E (contents e ++ hm_get entries) e (insert_routed E entries e)"
  using assms
proof (induction entries arbitrary: e)
  case Nil
  show ?case using engine_change_refl [of E e] by simp
next
  case (Cons kv entries)
  obtain key entry where kv: "kv = (key, entry)" by (cases kv)
  let ?e1 = "snd (with_shard (shard_for_key key) (shard_insert E key entry) e)"
  show ?case
  proof (rule engine_changeI)
    assume wf: "engine_wf e"
    note one = shard_insert_change [of E e key entry]
    note c1 = engine_change_contents [OF one wf]
    have two: "engine_change E (contents ?e1 ++ hm_get entries) ?e1 (insert_routed E entries ?e1)"
      using Cons.prems kv by (intro Cons.IH) (auto simp: c1)
    note c2 = engine_change_contents [OF two engine_change_wf [OF one wf]]
    have fresh: "hm_get entries key = None" using Cons.prems(1) kv by (simp add: map_of_eq_None_iff)
    have "hm_get entries k = None" if "contents ?e1 k \<noteq> None" "k \<noteq> key" for k
      using that Cons.prems(2) [of k] by (force simp: c1 map_of_eq_None_iff)
    with fresh have "hm_get entries k = None" if "contents ?e1 k \<noteq> None" for k
      using that by (cases "k = key") simp_all
    then have "contents ?e1 \<subseteq>\<^sub>m contents (insert_routed E entries ?e1)"
      unfolding c2 map_le_def by (simp add: map_add_def dom_def)
    from engine_bytes_mono(1) [OF engine_change_wf [OF two engine_change_wf [OF one wf]]
      engine_change_wf [OF one wf] this, of E]
    have "engine_change E (contents ?e1 ++ hm_get entries) e (insert_routed E entries ?e1)"
      by (intro engine_change_trans [OF one two]) simp
    moreover have "contents ?e1 ++ hm_get entries = contents e ++ hm_get (kv # entries)"
      using fresh by (auto simp: c1 kv map_add_def fun_eq_iff split: option.splits)
    ultimately show "engine_change E (contents e ++ hm_get (kv # entries)) e (insert_routed E (kv # entries) e)"
      by (simp add: kv)
  qed
qed

lemma replace_all_spec:
  assumes "\<not> snapshot_active e" and len: "length (shards e) = NUM_SHARDS" and distinct: "hm_wf entries"
  obtains e' where "replace_all E entries e = Some e'" "engine_wf e'" "contents e' = hm_get entries"
    "engine_bytes E e' \<le> usize_max \<Longrightarrow> engine_ok E e'" "\<not> snapshot_active e'"
proof -
  let ?clear = "\<lambda>s. s\<lparr>sdata := Flat [], mem_bytes := 0, key_count := 0,
    op_count := op_count s + 1, last_modified := now E\<rparr>"
  let ?e0 = "e\<lparr>shards := map ?clear (shards e), total_keys := 0\<rparr>"
  have wf0: "engine_wf ?e0" and c0: "contents ?e0 = Map.empty"
    using len by (simp_all add: engine_wf_def contents_def fun_eq_iff)
  have ok0: "engine_ok E ?e0"
    using wf0 len by (simp add: engine_ok_def shard_ok_def shard_bytes_def entry_count_def engine_bytes_def
        o_def map_replicate_const sum_list_replicate)
  have change: "engine_change E (contents ?e0 ++ hm_get entries) ?e0 (insert_routed E entries ?e0)"
    by (rule insert_routed_change [OF distinct]) (simp add: c0)
  show thesis
  proof (rule that [of "insert_routed E entries ?e0"])
    show "replace_all E entries e = Some (insert_routed E entries ?e0)"
      using assms(1) by (simp add: replace_all_def)
    show "contents (insert_routed E entries ?e0) = hm_get entries"
      using engine_change_contents [OF change wf0] by (simp add: c0)
  qed (use change wf0 ok0 assms(1) in \<open>auto simp: engine_change_def\<close>)
qed

section \<open>The engine as a state machine\<close>

text \<open>
  The public operations on a live engine, at any time \<open>t\<close>. The result of a closure does not
  influence the state, so the closures are taken at result type \<open>unit\<close>.
\<close>

inductive engine_op :: "env \<Rightarrow> engine \<Rightarrow> engine \<Rightarrow> bool" for E where
  op_get: "engine_op E e (snd (engine_get (E\<lparr>now := t\<rparr>) key e))"
| op_peek: "engine_op E e (snd (peek (E\<lparr>now := t\<rparr>) key e))"
| op_apply: "engine_op E e (snd (apply_entry (E\<lparr>now := t\<rparr>) key entry e))"
| op_set: "engine_op E e (snd (engine_set (E\<lparr>now := t\<rparr>) key v expires e))"
| op_delete: "engine_op E e (snd (engine_delete (E\<lparr>now := t\<rparr>) key e))"
| op_read: "engine_op E e (snd (engine_read (E\<lparr>now := t\<rparr>) key (\<lambda>_. ()) e))"
| op_action: "engine_op E e (snd (update_if_exists_with_action (E\<lparr>now := t\<rparr>) key
    (f :: onyx_value \<Rightarrow> unit entry_mutation \<times> onyx_value) e))"
| op_upsert: "engine_op E e (snd (update_entry_or_insert_with_presence (E\<lparr>now := t\<rparr>) key d
    (h :: data_entry \<Rightarrow> bool \<Rightarrow> unit \<times> data_entry) e))"
| op_expiry: "engine_op E e (snd (set_expiry_conditional (E\<lparr>now := t\<rparr>) key ts req e))"
| op_conditional: "engine_op E e (snd (set_conditional (E\<lparr>now := t\<rparr>) key v expires condition e))"
| op_absent: "engine_op E e (snd (set_if_absent (E\<lparr>now := t\<rparr>) key v e))"
| op_rename: "engine_op E e (snd (rename (E\<lparr>now := t\<rparr>) from to e))"
| op_copy: "engine_op E e (snd (copy (E\<lparr>now := t\<rparr>) from to e))"
| op_mget: "engine_op E e (snd (mget (E\<lparr>now := t\<rparr>) keys e))"
| op_all_keys: "engine_op E e (snd (all_keys (E\<lparr>now := t\<rparr>) e))"
| op_snapshot_all: "engine_op E e (snd (snapshot_all (E\<lparr>now := t\<rparr>) e))"
| op_stats: "engine_op E e (snd (stats (E\<lparr>now := t\<rparr>) e))"
| op_memory: "engine_op E e (snd (total_memory_bytes (E\<lparr>now := t\<rparr>) e))"
| op_gc: "engine_op E e (snd (gc_expired (E\<lparr>now := t\<rparr>) e))"
| op_evict: "evict_to_fit (E\<lparr>now := t\<rparr>) mx policy prot e = Some (ev, e') \<Longrightarrow> engine_op E e e'"

inductive engine_step :: "env \<Rightarrow> engine \<Rightarrow> engine \<Rightarrow> bool" for E where
  step_op: "engine_op E e e' \<Longrightarrow> engine_step E e e'"
| step_begin: "begin_snapshot (E\<lparr>now := t\<rparr>) e = Some (snap, e') \<Longrightarrow> engine_step E e e'"
| step_finish_shard: "finish_snapshot_shard i e = Some e' \<Longrightarrow> engine_step E e e'"
| step_finish: "finish_snapshot e = Some e' \<Longrightarrow> engine_step E e e'"
| step_replace: "hm_wf entries \<Longrightarrow> replace_all (E\<lparr>now := t\<rparr>) entries e = Some e' \<Longrightarrow> engine_step E e e'"

inductive engine_reachable :: "env \<Rightarrow> engine \<Rightarrow> bool" for E where
  reach_new: "engine_reachable E engine_new"
| reach_step: "engine_reachable E e \<Longrightarrow> engine_step E e e' \<Longrightarrow> engine_bytes E e' \<le> usize_max \<Longrightarrow>
    engine_reachable E e'"

lemma approx_size_now [simp]: "approx_entry_size (E\<lparr>now := t\<rparr>) = approx_entry_size E"
  by (auto simp: fun_eq_iff approx_entry_size_def approx_value_size_def split: onyx_value.splits)

lemma shard_now [simp]: "shard_bytes (E\<lparr>now := t\<rparr>) = shard_bytes E" "shard_ok (E\<lparr>now := t\<rparr>) = shard_ok E"
  by (auto simp: fun_eq_iff shard_bytes_def shard_ok_def)

lemma engine_now [simp]: "engine_bytes (E\<lparr>now := t\<rparr>) = engine_bytes E" "engine_ok (E\<lparr>now := t\<rparr>) = engine_ok E"
    "engine_change (E\<lparr>now := t\<rparr>) = engine_change E"
  by (auto simp: fun_eq_iff engine_bytes_def engine_ok_def engine_change_def)

lemma mget_change: "engine_change E (touched E (set keys) (contents e)) e (snd (mget E keys e))"
  by (rule engine_changeI) (use mget_spec [of e E keys] in \<open>simp add: engine_change_def\<close>)

lemma engine_change_safe:
  "engine_change E m e e' \<Longrightarrow> engine_ok E e \<Longrightarrow>
    engine_wf e' \<and> same_epoch e e' \<and> (engine_bytes E e' \<le> usize_max \<longrightarrow> engine_ok E e')"
  by (simp add: engine_change_def engine_ok_def)

lemmas op_changes = engine_effects mget_change

lemma engine_op_safe:
  assumes "engine_op E e e'" and ok: "engine_ok E e"
  shows "engine_wf e' \<and> same_epoch e e' \<and> (engine_bytes E e' \<le> usize_max \<longrightarrow> engine_ok E e')"
  using assms(1)
proof cases
  case (op_evict t mx policy prot ev)
  show ?thesis
  proof (cases "policy = NoEviction \<or> mx = 0")
    case True
    with op_evict ok show ?thesis by (auto simp: evict_to_fit_def engine_ok_def)
  next
    case False
    with evict_to_fit_spec [of "E\<lparr>now := t\<rparr>" e policy mx prot] ok op_evict
    have "evict_post (E\<lparr>now := t\<rparr>) mx policy prot e ev e'" by auto
    then show ?thesis by (simp add: evict_post_def engine_ok_def)
  qed
qed (simp_all only:, (rule engine_change_safe [OF _ ok], rule op_changes [of "E\<lparr>now := _\<rparr>", unfolded engine_now])+)

lemma engine_step_safe:
  assumes "engine_step E e e'" and ok: "engine_ok E e"
  shows "engine_wf e' \<and> (engine_bytes E e' \<le> usize_max \<longrightarrow> engine_ok E e')"
  using assms(1)
proof cases
  case step_op
  with engine_op_safe ok show ?thesis by blast
next
  case (step_replace entries t)
  then have "\<not> snapshot_active e" by (simp add: replace_all_def split: if_splits)
  with step_replace ok replace_all_spec [of e entries "E\<lparr>now := t\<rparr>"] show ?thesis
    by (auto simp: engine_ok_def engine_wf_def)
qed (use ok engine_ok_wf in \<open>auto dest: begin_snapshot_ok finish_snapshot_ok finish_snapshot_shard_ok\<close>)

section \<open>Properties\<close>

text \<open>
  C9. Every engine reachable from the empty one by public operations, snapshot epochs and
  replacements satisfies the invariant: keys live in the shard their hash selects, every
  shard's key and byte counters equal its actual content, and the shared key counter equals
  the number of stored entries. Each step may happen at any time and with any argument, as
  long as the data set fits the address space.
\<close>

theorem engine_reachable_ok: "engine_reachable E e \<Longrightarrow> engine_ok E e"
proof (induction rule: engine_reachable.induct)
  case reach_new
  show ?case by (rule engine_new_ok)
next
  case (reach_step e e')
  then show ?case using engine_step_safe by blast
qed

text \<open>An engine with a persistent and a volatile key, built by two sets on the empty one.\<close>

definition sample_engine1 :: engine where
  "sample_engine1 = snd (engine_set sample_env ''x'' (IntV 5) None engine_new)"

definition sample_engine :: engine where
  "sample_engine = snd (engine_set sample_env ''k'' (Blob ''v'') (Some 200) sample_engine1)"

lemma sample_routes: "shard_for_key ''x'' = 7" "shard_for_key ''k'' = 10"
  by code_simp+

lemmas sample_simps = engine_set_def with_shard_def sample_routes purge_if_expired_def
  case_prod_beta Let_def sample_env_def shard_insert_def approx_entry_size_def
  approx_value_size_def sat_add_def usize_max_def fetch_add_total_def

lemma sample_engine1_eq: "sample_engine1 = engine_new\<lparr>shards := (replicate NUM_SHARDS shard_new)[7 :=
    \<lparr>sdata = Flat [(''x'', \<lparr>entry_value = IntV 5, expires_at = None, created_at = 100, last_accessed = 100\<rparr>)],
      op_count = 1, last_modified = 100, mem_bytes = 73, key_count = 1\<rparr>], total_keys := 1\<rparr>"
  by (simp add: sample_engine1_def engine_new_def NUM_SHARDS_def shard_new_def sample_simps)

lemma sample_engine_eq: "sample_engine = sample_engine1\<lparr>shards := (shards sample_engine1)[10 :=
    \<lparr>sdata = Flat [(''k'', \<lparr>entry_value = Blob ''v'', expires_at = Some 200, created_at = 100, last_accessed = 100\<rparr>)],
      op_count = 1, last_modified = 100, mem_bytes = 66, key_count = 1\<rparr>], total_keys := 2\<rparr>"
  by (simp add: sample_engine_def sample_engine1_eq engine_new_def NUM_SHARDS_def shard_new_def sample_simps)

lemma sample_bytes: "engine_bytes sample_env sample_engine1 = 73" "engine_bytes sample_env sample_engine = 139"
  by (simp_all add: engine_bytes_def sample_engine_eq sample_engine1_eq NUM_SHARDS_def shard_bytes_def
      map_update sum_list_update sum_list_replicate sample_env_def approx_entry_size_def
      approx_value_size_def sat_add_def usize_max_def engine_new_def shard_new_def)

lemma sample_reachable: "engine_reachable sample_env sample_engine"
proof -
  have step: "engine_step sample_env e (snd (engine_set sample_env key v expires e))" for key v expires e
    using engine_op.op_set [of sample_env e "now sample_env" key v expires]
    by (auto intro: engine_step.step_op)
  have "engine_reachable sample_env sample_engine1"
    using engine_reachable.reach_step [OF engine_reachable.reach_new step] sample_bytes(1)
    by (auto simp: sample_engine1_def usize_max_def)
  then show ?thesis
    using engine_reachable.reach_step [OF _ step] sample_bytes(2)
    by (auto simp: sample_engine_def usize_max_def)
qed

theorem engine_reachable_ok_witness:
  "engine_ok sample_env sample_engine \<and> total_keys sample_engine = 2"
proof
  show "engine_ok sample_env sample_engine" by (rule engine_reachable_ok [OF sample_reachable])
  show "total_keys sample_engine = 2" by (simp add: sample_engine_eq)
qed

text \<open>
  C10. A snapshot is isolated. What was captured is exactly the live content at the capture
  time; however many operations run during the epoch, at whatever times, every shard's base
  is still the captured view; and finishing the epoch succeeds, keeps the live content and
  leaves every shard flat.
\<close>

theorem snapshot_isolation:
  assumes "engine_ok E e" and begun: "begin_snapshot E e = Some (snap, e1)"
    and run: "(\<lambda>x y. engine_op E x y \<and> engine_bytes E y \<le> usize_max)\<^sup>*\<^sup>* e1 e2"
  shows "hm_wf (snapshot_entries snap) \<and>
    hm_get (snapshot_entries snap) = live (now E) (contents e) \<and>
    engine_bases e2 = snap_shards snap \<and>
    (\<exists>e3. finish_snapshot e2 = Some e3 \<and> contents e3 = contents e2 \<and> engine_ok E e3 \<and>
      engine_bases e3 = replicate NUM_SHARDS None)"
proof -
  have wf: "engine_wf e" using assms(1) by (rule engine_ok_wf)
  have "engine_ok E e2 \<and> engine_bases e2 = snap_shards snap \<and> snapshot_active e2"
    using run
  proof (induction rule: rtranclp_induct)
    case base
    show ?case using begin_snapshot_ok(2,3) [OF begun] begin_snapshot_Some(5) [OF begun] assms(1) by simp
  next
    case (step x y)
    then show ?case using engine_op_safe [of E x y] by simp
  qed
  then have ok: "engine_ok E e2" "snapshot_active e2" "engine_bases e2 = snap_shards snap" by simp_all
  then obtain e3 where fin: "finish_snapshot e2 = Some e3" by (simp add: finish_snapshot_def)
  note finished = finish_snapshot_ok [OF fin engine_ok_wf [OF ok(1)]]
  moreover have "length (shards e3) = NUM_SHARDS" using finished(1) by (simp add: engine_wf_def)
  ultimately show ?thesis
    using snapshot_entries_spec [OF begun wf] fin ok by auto
qed

text \<open>
  C11. Eviction terminates and is correct. The evicted entries were live, unprotected and, for
  a volatile policy, had an expiry; nothing else is lost; afterwards the data set fits or
  nothing eligible is left; no entry is evicted after the limit was reached; and under an LRU
  policy every evicted entry was accessed no later than every eligible entry that remains.
\<close>

theorem evict_to_fit_correct:
  assumes "engine_ok E e" and "policy \<noteq> NoEviction" and "mx \<noteq> 0"
  shows "\<exists>ev e'. evict_to_fit E mx policy prot e = Some (ev, e') \<and> engine_ok E e' \<and>
    contents e' = (\<lambda>k. if k \<in> fst ` set ev then None else live (now E) (contents e) k) \<and>
    (\<forall>(k, x) \<in> set ev. live (now E) (contents e) k = Some x \<and> k \<notin> prot \<and>
       (policy \<in> {VolatileLru, VolatileRandom} \<longrightarrow> expires_at x \<noteq> None)) \<and>
    (engine_bytes E e' \<le> mx \<or>
       (\<forall>k x. contents e' k = Some x \<longrightarrow> \<not> eviction_eligible policy prot (k, x))) \<and>
    (ev \<noteq> [] \<longrightarrow> mx < engine_bytes E e' + (case last ev of (k, x) \<Rightarrow> approx_entry_size E k x)) \<and>
    (policy \<in> {AllKeysLru, VolatileLru} \<longrightarrow> (\<forall>(k, x) \<in> set ev. \<forall>k' x'.
       contents e' k' = Some x' \<and> eviction_eligible policy prot (k', x') \<longrightarrow>
       last_accessed x \<le> last_accessed x'))"
proof -
  from evict_to_fit_spec [OF assms, of prot] obtain ev e' where
    run: "evict_to_fit E mx policy prot e = Some (ev, e')" and post: "evict_post E mx policy prot e ev e'" .
  note p = post [unfolded evict_post_def]
  have "\<forall>(k, x) \<in> set ev. live (now E) (contents e) k = Some x \<and> k \<notin> prot \<and>
      (policy \<in> {VolatileLru, VolatileRandom} \<longrightarrow> expires_at x \<noteq> None)"
    using p by (fastforce simp: eviction_eligible_def)
  moreover have "engine_bytes E e' \<le> mx \<or>
      (\<forall>k x. contents e' k = Some x \<longrightarrow> \<not> eviction_eligible policy prot (k, x))"
    using p by (meson not_le)
  ultimately show ?thesis
    using run p by (intro exI [of _ ev] exI [of _ e']) (elim conjE, intro conjI; assumption)
qed

lemma sample_ok: "engine_ok sample_env sample_engine"
  using sample_reachable by (induction rule: engine_reachable.induct) (auto simp: engine_new_ok dest: engine_step_safe)

lemma sample_contents:
  "contents sample_engine = [''x'' \<mapsto> fresh_entry sample_env (IntV 5),
     ''k'' \<mapsto> (fresh_entry sample_env (Blob ''v''))\<lparr>expires_at := Some 200\<rparr>]"
proof -
  have c1: "contents sample_engine1 = [''x'' \<mapsto> fresh_entry sample_env (IntV 5)]" "engine_wf sample_engine1"
    using engine_set_change [where E = sample_env and e = engine_new and key = "''x''" and v = "IntV 5" and expires = None] engine_new_ok [of sample_env]
    by (auto simp: sample_engine1_def engine_change_def engine_ok_def expired_at_def fresh_entry_def fun_eq_iff)
  then show ?thesis
    using engine_change_contents [OF engine_set_change [where E = sample_env and key = "''k''" and v = "Blob ''v''" and expires = "Some 200"] c1(2)]
    by (simp add: sample_engine_def expired_at_def sample_env_def)
qed

theorem snapshot_isolation_witness:
  "\<exists>snap e1. begin_snapshot sample_env sample_engine = Some (snap, e1) \<and>
     engine_bases (snd (engine_delete sample_env ''k'' e1)) = snap_shards snap \<and>
     hm_get (snapshot_entries snap) ''k'' \<noteq> None"
proof -
  have "\<not> snapshot_active sample_engine" "engine_bases sample_engine = replicate (length (shards sample_engine)) None"
    by (simp_all add: sample_engine_eq sample_engine1_eq engine_new_def engine_bases_def NUM_SHARDS_def shard_new_def
        list_eq_iff_nth_eq nth_list_update)
  then obtain snap e1 where begun: "begin_snapshot sample_env sample_engine = Some (snap, e1)"
    by (rule begin_snapshot_defined)
  have ok1: "engine_ok sample_env e1" by (rule begin_snapshot_ok(2) [OF begun sample_ok])
  let ?e2 = "snd (engine_delete sample_env ''k'' e1)"
  have "engine_op sample_env e1 ?e2"
    using engine_op.op_delete [of sample_env e1 "now sample_env" "''k''"] by simp
  moreover have "engine_bytes sample_env ?e2 \<le> usize_max"
    using engine_change_ok [OF engine_delete_change ok1 upd_None_le] by (simp add: engine_ok_def)
  ultimately have "(\<lambda>x y. engine_op sample_env x y \<and> engine_bytes sample_env y \<le> usize_max)\<^sup>*\<^sup>* e1 ?e2" by blast
  from snapshot_isolation [OF sample_ok begun this] begun show ?thesis
    by (auto simp: sample_contents live_def entry_expired_def sample_env_def)
qed

theorem evict_to_fit_correct_witness:
  "\<exists>ev e'. evict_to_fit sample_env 100 VolatileLru {} sample_engine = Some (ev, e') \<and>
     (engine_bytes sample_env e' \<le> 100 \<or>
       (\<forall>k x. contents e' k = Some x \<longrightarrow> \<not> eviction_eligible VolatileLru {} (k, x)))"
proof -
  have "VolatileLru \<noteq> NoEviction" "(100::nat) \<noteq> 0" by simp_all
  from evict_to_fit_correct [OF sample_ok this, of "{}"] show ?thesis by blast
qed

text \<open>
  \<open>mget\<close>, which groups the keys by shard to take each lock once, returns exactly what one
  \<open>get\<close> per key would return, in the order of the keys, and leaves each requested live key
  with a new access time, each requested expired key removed and everything else unchanged.
\<close>

theorem mget_equals_gets:
  assumes "engine_ok E e"
  shows "fst (mget E keys e) = map (\<lambda>key. fst (engine_get E key e)) keys \<and>
    contents (snd (mget E keys e)) = (\<lambda>key. if key \<in> set keys then fst (engine_get E key e) else contents e key) \<and>
    engine_ok E (snd (mget E keys e))"
  using mget_spec [OF engine_ok_wf [OF assms], of E keys] assms
  by (simp add: engine_get_fst touched_def fun_eq_iff)

theorem mget_equals_gets_witness:
  "fst (mget sample_env [''k'', ''absent'', ''x''] sample_engine) =
     map (\<lambda>key. fst (engine_get sample_env key sample_engine)) [''k'', ''absent'', ''x'']"
  using mget_equals_gets [OF sample_ok] by blast

text \<open>
  Reading back. After \<open>set\<close>, at any later or earlier time of reading, the key yields the
  value written, unless its expiry has been reached; every other key yields what it would
  have yielded before.
\<close>

theorem set_then_get:
  assumes "engine_ok E e"
  shows "map_option entry_value (fst (engine_get (E\<lparr>now := t\<rparr>) k (snd (engine_set E key v expires e)))) =
    (if k = key then (if expired_at E expires \<or> expired_at (E\<lparr>now := t\<rparr>) expires then None else Some v)
     else map_option entry_value (fst (engine_get (E\<lparr>now := t\<rparr>) k e)))"
  using engine_change_contents [OF engine_set_change [where E = E and key = key and v = v and expires = expires] engine_ok_wf [OF assms]]
  by (auto simp: engine_get_fst live_def entry_expired_def expired_at_def fresh_entry_def option.map_comp o_def
      split: option.splits)

theorem set_then_get_witness:
  "map_option entry_value (fst (engine_get (sample_env\<lparr>now := 150\<rparr>) ''y''
     (snd (engine_set sample_env ''y'' (Blob ''new'') (Some 151) sample_engine)))) = Some (Blob ''new'')"
  using set_then_get [OF sample_ok, of 150 "''y''" "''y''" "Blob ''new''" "Some 151"]
  by (simp add: expired_at_def sample_env_def)

text \<open>
  Renaming, whether the two keys share a shard or not, succeeds exactly when the source is
  live, moves its entry unchanged over whatever the target held, removes the source and
  changes no other key.
\<close>

theorem rename_moves:
  assumes "engine_ok E e"
  shows "case rename E from to e of (moved, e') \<Rightarrow>
    moved = (live (now E) (contents e) from \<noteq> None) \<and> engine_wf e' \<and>
    (\<forall>key. contents e' key =
      (if key = to \<and> moved then live (now E) (contents e) from
       else if key = from then None else contents e key))"
  using rename_fst [OF engine_ok_wf [OF assms], of E "from" to] rename_change [of E e "from" to] engine_ok_wf [OF assms]
  by (auto simp: engine_change_def case_prod_beta split: option.splits)

theorem rename_moves_witness:
  "case rename sample_env ''k'' ''x'' sample_engine of (moved, e') \<Rightarrow>
     moved \<and> contents e' ''k'' = None \<and> contents e' ''x'' = contents sample_engine ''k''"
  using rename_moves [OF sample_ok, of "''k''" "''x''"]
  by (auto simp: sample_contents live_def entry_expired_def sample_env_def split: prod.splits)

end
