(* ===== verification/Rust_Std.thy ===== *)
theory Rust_Std
  imports Prelude
begin

text \<open>
  The parts of the Rust standard library the sources use on text: UTF-8 validation, the lossy
  conversion and the iterator over characters, decimal parsing and printing of integers,
  white-space trimming and ASCII case mapping. A \<open>char\<close> is represented by its UTF-8 bytes.
\<close>

section \<open>UTF-8\<close>

abbreviation (input) bval :: "byte \<Rightarrow> nat" where
  "bval b \<equiv> of_char b"

definition between :: "nat \<Rightarrow> nat \<Rightarrow> byte \<Rightarrow> bool" where
  "between lo hi b \<longleftrightarrow> lo \<le> bval b \<and> bval b \<le> hi"

definition is_cont :: "byte \<Rightarrow> bool" where
  "is_cont b \<longleftrightarrow> between 0x80 0xBF b"

definition second_ok :: "byte \<Rightarrow> byte \<Rightarrow> bool" where
  "second_ok b c = (if bval b = 0xE0 then between 0xA0 0xBF c
     else if bval b = 0xED then between 0x80 0x9F c
     else if bval b = 0xF0 then between 0x90 0xBF c
     else if bval b = 0xF4 then between 0x80 0x8F c
     else is_cont c)"

definition head_is :: "(byte \<Rightarrow> bool) \<Rightarrow> bytes \<Rightarrow> bool" where
  "head_is P bs = (case bs of [] \<Rightarrow> False | b # _ \<Rightarrow> P b)"

text \<open>
  One step of \<open>run_utf8_validation\<close> and of \<open>Utf8Chunks\<close>: whether the text starts with
  a valid character, and how many bytes the character or the maximal invalid prefix takes.
\<close>

fun utf8_step :: "bytes \<Rightarrow> bool \<times> nat" where
  "utf8_step [] = (False, 1)"
| "utf8_step (b # rest) =
     (if bval b < 0x80 then (True, 1)
      else if between 0xC2 0xDF b then (if head_is is_cont rest then (True, 2) else (False, 1))
      else if between 0xE0 0xEF b then
        (if \<not> head_is (second_ok b) rest then (False, 1)
         else if head_is is_cont (drop 1 rest) then (True, 3) else (False, 2))
      else if between 0xF0 0xF4 b then
        (if \<not> head_is (second_ok b) rest then (False, 1)
         else if \<not> head_is is_cont (drop 1 rest) then (False, 2)
         else if head_is is_cont (drop 2 rest) then (True, 4) else (False, 3))
      else (False, 1))"

lemma utf8_step_pos: "0 < snd (utf8_step bs)"
  by (cases bs) auto

function from_utf8_lossy :: "bytes \<Rightarrow> bytes" where
  "from_utf8_lossy [] = []"
| "from_utf8_lossy (b # bs) =
     (if fst (utf8_step (b # bs)) then take (snd (utf8_step (b # bs))) (b # bs)
      else [char_of (0xEF::nat), char_of (0xBF::nat), char_of (0xBD::nat)]) @
     from_utf8_lossy (drop (snd (utf8_step (b # bs))) (b # bs))"
  by pat_completeness auto
termination
  by (relation "measure length") (use utf8_step_pos in \<open>simp_all del: utf8_step.simps drop.simps\<close>)

function utf8_valid :: "bytes \<Rightarrow> bool" where
  "utf8_valid [] = True"
| "utf8_valid (b # bs) = (fst (utf8_step (b # bs)) \<and> utf8_valid (drop (snd (utf8_step (b # bs))) (b # bs)))"
  by pat_completeness auto
termination
  by (relation "measure length") (use utf8_step_pos in \<open>simp_all del: utf8_step.simps drop.simps\<close>)

text \<open>\<open>str::chars\<close>: on a \<open>str\<close>, which is always valid, the first byte fixes the width.\<close>

type_synonym rchar = bytes

definition char_width :: "byte \<Rightarrow> nat" where
  "char_width b = (if bval b < 0x80 then 1 else if bval b < 0xE0 then 2 else if bval b < 0xF0 then 3 else 4)"

function utf8_chars :: "bytes \<Rightarrow> rchar list" where
  "utf8_chars [] = []"
| "utf8_chars (b # bs) = take (char_width b) (b # bs) # utf8_chars (drop (char_width b) (b # bs))"
  by pat_completeness auto
termination by (relation "measure length") (auto simp: char_width_def)

definition str_of_bytes :: "bytes \<Rightarrow> bytes option" where
  "str_of_bytes bs = (if utf8_valid bs then Some bs else None)"

lemma utf8_chars_concat: "concat (utf8_chars s) = s"
proof (induction s rule: utf8_chars.induct)
  case (2 b bs)
  then show ?case by (simp only: utf8_chars.simps concat.simps append_take_drop_id)
qed simp

lemma utf8_chars_not_Nil: "c \<in> set (utf8_chars s) \<Longrightarrow> c \<noteq> []"
proof (induction s rule: utf8_chars.induct)
  case (2 b bs)
  have "take (char_width b) (b # bs) \<noteq> []" by (simp add: char_width_def)
  with 2 show ?case by (auto simp del: take.simps drop.simps)
qed simp

lemma utf8_lossy_valid: "utf8_valid s \<Longrightarrow> from_utf8_lossy s = s"
proof (induction s rule: utf8_valid.induct)
  case (2 b bs)
  then show ?case by (simp del: utf8_step.simps take.simps drop.simps)
qed simp

definition is_ascii :: "bytes \<Rightarrow> bool" where
  "is_ascii s \<longleftrightarrow> (\<forall>b \<in> set s. bval b < 0x80)"

lemma utf8_valid_ascii: "is_ascii s \<Longrightarrow> utf8_valid s"
  by (induction s) (auto simp: is_ascii_def)

lemma utf8_chars_ascii: "is_ascii s \<Longrightarrow> utf8_chars s = map (\<lambda>b. [b]) s"
  by (induction s) (auto simp: is_ascii_def char_width_def)

section \<open>Decimal integers\<close>

definition digit_char :: "nat \<Rightarrow> char" where
  "digit_char d = char_of (48 + d)"

definition digit_val :: "char \<Rightarrow> nat option" where
  "digit_val c = (if between 48 57 c then Some (bval c - 48) else None)"

fun nat_to_string :: "nat \<Rightarrow> bytes" where
  "nat_to_string n = (if n < 10 then [digit_char n]
     else nat_to_string (n div 10) @ [digit_char (n mod 10)])"

declare nat_to_string.simps [simp del]

definition int_to_string :: "int \<Rightarrow> bytes" where
  "int_to_string i = (if i < 0 then CHR ''-'' # nat_to_string (nat (- i)) else nat_to_string (nat i))"

fun parse_digits :: "bytes \<Rightarrow> nat \<Rightarrow> nat option" where
  "parse_digits [] acc = Some acc"
| "parse_digits (c # cs) acc = (case digit_val c of
      None \<Rightarrow> None
    | Some d \<Rightarrow> parse_digits cs (10 * acc + d))"

text \<open>
  \<open>from_str_radix\<close> with radix 10: an empty string, a lone sign, a character that is no digit
  and a value outside the type are errors; a leading plus sign is accepted.
\<close>

definition parse_unsigned :: "nat \<Rightarrow> bytes \<Rightarrow> nat option" where
  "parse_unsigned max_value s =
     (let digits = (case s of c # cs \<Rightarrow> if c = CHR ''+'' \<and> cs \<noteq> [] then cs else s | [] \<Rightarrow> [])
      in if digits = [] then None
         else (case parse_digits digits 0 of
             Some n \<Rightarrow> if n \<le> max_value then Some n else None
           | None \<Rightarrow> None))"

definition parse_usize :: "bytes \<Rightarrow> nat option" where
  "parse_usize = parse_unsigned usize_max"

definition parse_u64 :: "bytes \<Rightarrow> u64 option" where
  "parse_u64 s = map_option word_of_nat (parse_unsigned (2 ^ 64 - 1) s)"

definition parse_i64_int :: "bytes \<Rightarrow> int option" where
  "parse_i64_int s = (case s of
      [] \<Rightarrow> None
    | c # cs \<Rightarrow>
        if c = CHR ''-'' \<and> cs \<noteq> []
        then (case parse_digits cs 0 of
            Some n \<Rightarrow> if n \<le> 2 ^ 63 then Some (- int n) else None
          | None \<Rightarrow> None)
        else map_option int (parse_unsigned (2 ^ 63 - 1) s))"

definition parse_i64 :: "bytes \<Rightarrow> i64 option" where
  "parse_i64 s = map_option word_of_int (parse_i64_int s)"

definition i64_to_string :: "i64 \<Rightarrow> bytes" where
  "i64_to_string w = int_to_string (sint w)"

definition u64_to_string :: "u64 \<Rightarrow> bytes" where
  "u64_to_string w = nat_to_string (unat w)"

lemma digit_val_char [simp]: "d < 10 \<Longrightarrow> digit_val (digit_char d) = Some d"
  by (simp add: digit_val_def digit_char_def between_def)

lemma digit_char_ascii: "d < 10 \<Longrightarrow> bval (digit_char d) = 48 + d"
  by (simp add: digit_char_def)

lemma parse_digits_append:
  "parse_digits (xs @ ys) acc = (case parse_digits xs acc of None \<Rightarrow> None | Some a \<Rightarrow> parse_digits ys a)"
  by (induction xs arbitrary: acc) (auto split: option.splits)

lemma parse_nat_to_string_acc: "\<exists>k. parse_digits (nat_to_string n) acc = Some (acc * 10 ^ k + n)"
proof (induction n arbitrary: acc rule: nat_to_string.induct)
  case (1 n)
  show ?case
  proof (cases "n < 10")
    case True
    then show ?thesis by (intro exI [of _ 1]) (simp add: nat_to_string.simps [of n])
  next
    case False
    with 1 obtain k where "parse_digits (nat_to_string (n div 10)) acc = Some (acc * 10 ^ k + n div 10)" by blast
    then have "parse_digits (nat_to_string n) acc = Some (10 * (acc * 10 ^ k + n div 10) + n mod 10)"
      using False by (simp add: nat_to_string.simps [of n] parse_digits_append)
    also have "10 * (acc * 10 ^ k + n div 10) + n mod 10 = acc * 10 ^ Suc k + n" by (simp add: algebra_simps)
    finally show ?thesis by blast
  qed
qed

lemma parse_nat_to_string: "parse_digits (nat_to_string n) 0 = Some n"
  using parse_nat_to_string_acc [of n 0] by simp

lemma nat_to_string_head: "\<exists>d cs. d < 10 \<and> nat_to_string n = digit_char d # cs"
proof (induction n rule: nat_to_string.induct)
  case (1 n)
  then show ?case by (cases "n < 10") (auto simp: nat_to_string.simps [of n])
qed

lemma nat_to_string_digits: "c \<in> set (nat_to_string n) \<Longrightarrow> between 48 57 c"
proof (induction n rule: nat_to_string.induct)
  case (1 n)
  then show ?case
    by (cases "n < 10") (auto simp: nat_to_string.simps [of n] between_def digit_char_ascii)
qed

lemma nat_to_string_unsigned:
  "n \<le> max_value \<Longrightarrow> parse_unsigned max_value (nat_to_string n) = Some n"
proof -
  assume n: "n \<le> max_value"
  obtain d cs where d: "d < 10" "nat_to_string n = digit_char d # cs" using nat_to_string_head by blast
  have "digit_char d \<noteq> CHR ''+''"
  proof
    assume "digit_char d = CHR ''+''"
    then have "bval (digit_char d) = 43" by simp
    with d(1) show False by (simp add: digit_char_ascii)
  qed
  with n d parse_nat_to_string [of n] show ?thesis by (simp add: parse_unsigned_def)
qed

lemma parse_usize_print [simp]: "n \<le> usize_max \<Longrightarrow> parse_usize (nat_to_string n) = Some n"
  by (simp add: parse_usize_def nat_to_string_unsigned)

lemma parse_u64_print [simp]: "parse_u64 (u64_to_string w) = Some w"
proof -
  have "unat w < 2 ^ 64" by (rule order_less_le_trans [OF unsigned_less]) simp
  then have "unat w \<le> 2 ^ 64 - 1" by simp
  then show ?thesis by (simp add: parse_u64_def u64_to_string_def nat_to_string_unsigned)
qed

lemma parse_i64_print [simp]: "parse_i64 (i64_to_string w) = Some w"
proof -
  have lo: "- (2 ^ 63) \<le> sint w" and hi: "sint w < 2 ^ 63"
    using sint_greater_eq [of w] sint_less [of w] by simp_all
  have "parse_i64_int (int_to_string (sint w)) = Some (sint w)"
  proof (cases "sint w < 0")
    case True
    obtain d cs where "nat_to_string (nat (- sint w)) = digit_char d # cs" using nat_to_string_head by blast
    moreover have "nat (- sint w) \<le> 2 ^ 63" using lo by (simp add: nat_le_iff)
    ultimately show ?thesis
      using True parse_nat_to_string [of "nat (- sint w)"] by (simp add: parse_i64_int_def int_to_string_def)
  next
    case False
    obtain d cs where d: "d < 10" "nat_to_string (nat (sint w)) = digit_char d # cs" using nat_to_string_head by blast
    have "digit_char d \<noteq> CHR ''-''"
    proof
      assume "digit_char d = CHR ''-''"
      then have "bval (digit_char d) = 45" by simp
      with d(1) show False by (simp add: digit_char_ascii)
    qed
    moreover have "nat (sint w) \<le> 2 ^ 63 - 1" using hi by (simp add: nat_le_iff)
    ultimately show ?thesis
      using False d nat_to_string_unsigned [of "nat (sint w)" "2 ^ 63 - 1"]
      by (simp add: parse_i64_int_def int_to_string_def)
  qed
  then show ?thesis by (simp add: parse_i64_def i64_to_string_def)
qed

lemma int_to_string_ascii: "is_ascii (int_to_string i)"
proof -
  have "bval c < 0x80" if "c \<in> set (nat_to_string n)" for c n
    using nat_to_string_digits [OF that] by (simp add: between_def)
  then show ?thesis by (auto simp: is_ascii_def int_to_string_def)
qed

section \<open>Trimming and case\<close>

text \<open>The code points with the Unicode property \<open>White_Space\<close>, as UTF-8.\<close>

definition is_whitespace :: "rchar \<Rightarrow> bool" where
  "is_whitespace c = (let b = map (of_char :: char \<Rightarrow> nat) c in
     b \<in> {[0x20], [0x09], [0x0A], [0x0B], [0x0C], [0x0D], [0xC2, 0x85], [0xC2, 0xA0], [0xE1, 0x9A, 0x80],
       [0xE2, 0x80, 0xA8], [0xE2, 0x80, 0xA9], [0xE2, 0x80, 0xAF], [0xE2, 0x81, 0x9F], [0xE3, 0x80, 0x80]} \<or>
     take 2 b = [0xE2, 0x80] \<and> 0x80 \<le> b ! 2 \<and> b ! 2 \<le> 0x8A)"

definition trim :: "bytes \<Rightarrow> bytes" where
  "trim s = concat (rev (dropWhile is_whitespace (rev (dropWhile is_whitespace (utf8_chars s)))))"

definition starts_with :: "bytes \<Rightarrow> bytes \<Rightarrow> bool" where
  "starts_with s p \<longleftrightarrow> take (length p) s = p"

end
