(* ===== verification/Json_Path.thy ===== *)
theory Json_Path
  imports Values Rust_Std
begin

text \<open>
  \<open>src/store/json_path.rs\<close>: parsing of paths such as \<open>$.a.b[2]\<close>, navigation and mutation
  of JSON documents. A mutation through a reference into the document is a function that returns
  the new document.
\<close>

section \<open>Ordered maps\<close>

text \<open>
  A \<open>BTreeMap\<close> is the association list of its entries in ascending key order. Keys compare
  bytewise.
\<close>

fun bt_insert :: "bytes \<Rightarrow> 'v \<Rightarrow> (bytes \<times> 'v) list \<Rightarrow> (bytes \<times> 'v) list" where
  "bt_insert k v [] = [(k, v)]"
| "bt_insert k v ((k', v') # m) =
     (if k < k' then (k, v) # (k', v') # m
      else if k = k' then (k, v) # m
      else (k', v') # bt_insert k v m)"

fun bt_remove :: "bytes \<Rightarrow> (bytes \<times> 'v) list \<Rightarrow> (bytes \<times> 'v) list" where
  "bt_remove k [] = []"
| "bt_remove k ((k', v') # m) = (if k = k' then m else (k', v') # bt_remove k m)"

abbreviation bt_sorted :: "(bytes \<times> 'v) list \<Rightarrow> bool" where
  "bt_sorted m \<equiv> sorted_wrt (<) (map fst m)"

lemma bt_insert_keys: "fst ` set (bt_insert k v m) = insert k (fst ` set m)"
proof (induction m)
  case (Cons kv m)
  then show ?case by (cases kv) auto
qed simp

lemma bt_sorted_insert [simp]: "bt_sorted m \<Longrightarrow> bt_sorted (bt_insert k v m)"
proof (induction m)
  case (Cons kv m)
  obtain k' v' where kv: "kv = (k', v')" by (cases kv)
  show ?case
  proof (cases "k < k' \<or> k = k'")
    case True
    with Cons.prems kv show ?thesis by (auto dest: order_less_trans)
  next
    case False
    then have "k' < k" by auto
    with Cons kv bt_insert_keys [of k v m] show ?thesis
      by (auto simp: image_iff)
  qed
qed simp

lemma bt_get_insert: "bt_sorted m \<Longrightarrow> map_of (bt_insert k v m) = (map_of m)(k \<mapsto> v)"
proof (induction m)
  case (Cons kv m)
  obtain k' v' where kv: "kv = (k', v')" by (cases kv)
  with Cons show ?case by (auto simp: fun_eq_iff)
qed simp

lemma bt_insert_same: "bt_sorted m \<Longrightarrow> map_of m k = Some v \<Longrightarrow> bt_insert k v m = m"
proof (induction m)
  case (Cons kv m)
  obtain k' v' where kv: "kv = (k', v')" by (cases kv)
  have "k' < k" if "map_of m k = Some v" using Cons.prems(1) kv map_of_SomeD [OF that] by force
  with Cons kv show ?case by (auto split: if_splits)
qed simp

lemma bt_remove_subset: "set (bt_remove k m) \<subseteq> set m"
proof (induction m)
  case (Cons kv m)
  then show ?case by (cases kv) auto
qed simp

lemma bt_sorted_remove [simp]: "bt_sorted m \<Longrightarrow> bt_sorted (bt_remove k m)"
proof (induction m)
  case (Cons kv m)
  obtain k' v' where kv: "kv = (k', v')" by (cases kv)
  with Cons bt_remove_subset [of k m] show ?case by (auto simp: subset_iff)
qed simp

lemma bt_get_remove: "bt_sorted m \<Longrightarrow> map_of (bt_remove k m) = (map_of m)(k := None)"
proof (induction m)
  case (Cons kv m)
  obtain k' v' where kv: "kv = (k', v')" by (cases kv)
  have "map_of m k' = None" using Cons.prems kv by (force simp: map_of_eq_None_iff)
  with Cons kv show ?case by (auto simp: fun_eq_iff)
qed simp

section \<open>Paths\<close>

datatype json_path_segment = Field bytes | Index nat

abbreviation dot :: rchar where "dot \<equiv> ''.''"
abbreviation lbracket :: rchar where "lbracket \<equiv> ''[''"
abbreviation rbracket :: rchar where "rbracket \<equiv> '']''"

definition field_char :: "rchar \<Rightarrow> bool" where
  "field_char c \<longleftrightarrow> c \<noteq> dot \<and> c \<noteq> lbracket"

text \<open>The scanning loop over the characters after the leading \<open>$\<close>.\<close>

function parse_segments :: "rchar list \<Rightarrow> json_path_segment list option" where
  "parse_segments [] = Some []"
| "parse_segments (c # cs) =
     (if c = dot then
        (let field = takeWhile field_char cs
         in if field = [] then None
            else map_option (Cons (Field (concat field))) (parse_segments (dropWhile field_char cs)))
      else if c = lbracket then
        (if rbracket \<notin> set cs then None
         else (case parse_usize (concat (takeWhile (\<lambda>c. c \<noteq> rbracket) cs)) of
             None \<Rightarrow> None
           | Some idx \<Rightarrow> map_option (Cons (Index idx))
               (parse_segments (drop 1 (dropWhile (\<lambda>c. c \<noteq> rbracket) cs)))))
      else None)"
  by pat_completeness auto
termination
proof (relation "measure length")
  have "length (dropWhile P cs) < Suc (length cs)" for P and cs :: "rchar list"
    by (simp add: length_dropWhile_le le_imp_less_Suc)
  then show "(dropWhile field_char cs, c # cs) \<in> measure length"
    "(drop 1 (dropWhile (\<lambda>c. c \<noteq> rbracket) cs), c # cs) \<in> measure length" for c cs
    by (simp_all add: less_imp_diff_less)
qed simp

definition parse_json_path :: "bytes \<Rightarrow> json_path_segment list option" where
  "parse_json_path p =
     (let path = trim p
      in if path \<noteq> ''$'' \<and> \<not> starts_with path ''$'' then None
         else (let rest = drop 1 path
           in if rest = [] then Some []
              else if \<not> starts_with rest ''.'' \<and> \<not> starts_with rest ''['' then None
              else parse_segments (utf8_chars rest)))"

section \<open>Navigation and mutation\<close>

fun get_json_path :: "json \<Rightarrow> json_path_segment list \<Rightarrow> json option" where
  "get_json_path root [] = Some root"
| "get_json_path (JObject m) (Field f # segs) = (case map_of m f of
      None \<Rightarrow> None
    | Some v \<Rightarrow> get_json_path v segs)"
| "get_json_path (JArray a) (Index i # segs) =
     (if i < length a then get_json_path (a ! i) segs else None)"
| "get_json_path _ (_ # _) = None"

text \<open>
  \<open>get_json_path_mut\<close> with what the caller does through the reference: \<open>f\<close> receives the
  addressed node and returns a result and the node to leave in its place.
\<close>

fun update_json_path :: "(json \<Rightarrow> 'r \<times> json) \<Rightarrow> json \<Rightarrow> json_path_segment list \<Rightarrow> ('r \<times> json) option" where
  "update_json_path f root [] = Some (f root)"
| "update_json_path f (JObject m) (Field k # segs) = (case map_of m k of
      None \<Rightarrow> None
    | Some v \<Rightarrow> map_option (\<lambda>(r, v'). (r, JObject (AList.update k v' m))) (update_json_path f v segs))"
| "update_json_path f (JArray a) (Index i # segs) =
     (if i < length a
      then map_option (\<lambda>(r, v'). (r, JArray (a[i := v']))) (update_json_path f (a ! i) segs) else None)"
| "update_json_path f _ (_ # _) = None"

text \<open>The last step of \<open>set_json_path\<close> and \<open>delete_json_path\<close> at the parent node.\<close>

fun set_last :: "json_path_segment \<Rightarrow> json \<Rightarrow> json \<Rightarrow> bool \<times> json" where
  "set_last (Field f) new_value (JObject m) = (True, JObject (bt_insert f new_value m))"
| "set_last (Index i) new_value (JArray a) =
     (if i < length a then (True, JArray (a[i := new_value]))
      else if i = length a then (True, JArray (a @ [new_value]))
      else (False, JArray a))"
| "set_last _ new_value node = (False, node)"

definition set_json_path :: "json \<Rightarrow> json_path_segment list \<Rightarrow> json \<Rightarrow> bool \<times> json" where
  "set_json_path root segments new_value =
     (if segments = [] then (True, new_value)
      else (case update_json_path (set_last (last segments) new_value) root (butlast segments) of
          Some (ok, root') \<Rightarrow> (ok, root')
        | None \<Rightarrow> (False, root)))"

fun delete_last :: "json_path_segment \<Rightarrow> json \<Rightarrow> bool \<times> json" where
  "delete_last (Field f) (JObject m) = (map_of m f \<noteq> None, JObject (bt_remove f m))"
| "delete_last (Index i) (JArray a) =
     (if i < length a then (True, JArray (take i a @ drop (Suc i) a)) else (False, JArray a))"
| "delete_last _ node = (False, node)"

definition delete_json_path :: "json \<Rightarrow> json_path_segment list \<Rightarrow> bool \<times> json" where
  "delete_json_path root segments =
     (if segments = [] then (False, root)
      else (case update_json_path (delete_last (last segments)) root (butlast segments) of
          Some (ok, root') \<Rightarrow> (ok, root')
        | None \<Rightarrow> (False, root)))"

definition arrappend_json_path ::
  "json \<Rightarrow> json_path_segment list \<Rightarrow> json \<Rightarrow> (bytes + nat) \<times> json" where
  "arrappend_json_path root segments new_value =
     (case update_json_path (\<lambda>node. case node of
            JArray a \<Rightarrow> (Inr (length (a @ [new_value])), JArray (a @ [new_value]))
          | _ \<Rightarrow> (Inl ''WRONGTYPE the value at the path is not an array'', node)) root segments of
        None \<Rightarrow> (Inl ''ERR path JSON not found'', root)
      | Some (r, root') \<Rightarrow> (r, root'))"

section \<open>Well-formed documents\<close>

function json_ok :: "json \<Rightarrow> bool" where
  "json_ok (JArray a) = (\<forall>j \<in> set a. json_ok j)"
| "json_ok (JObject m) = (bt_sorted m \<and> (\<forall>kv \<in> set m. json_ok (snd kv)))"
| "json_ok JNull = True" | "json_ok (JBool b) = True" | "json_ok (JNumber n) = True" | "json_ok (JString s) = True"
  by pat_completeness auto
termination
proof (relation "measure size")
  show "(kv, JArray a) \<in> measure size" if "kv \<in> set a" for kv a
    using that by (induction a) auto
  show "(snd kv, JObject m) \<in> measure size" if "kv \<in> set m" for kv m
    using that by (induction m) (auto split: prod.splits)
qed simp

lemma json_ok_nth: "json_ok (JArray a) \<Longrightarrow> i < length a \<Longrightarrow> json_ok (a ! i)"
  by simp

lemma json_ok_get: "json_ok (JObject m) \<Longrightarrow> map_of m k = Some v \<Longrightarrow> json_ok v"
  by (auto dest!: map_of_SomeD)

lemma bt_insert_set: "set (bt_insert k v m) \<subseteq> insert (k, v) (set m)"
proof (induction m)
  case (Cons kv m)
  then show ?case by (cases kv) auto
qed simp

lemma json_ok_insert: "json_ok (JObject m) \<Longrightarrow> json_ok v \<Longrightarrow> json_ok (JObject (bt_insert k v m))"
  using bt_insert_set [of k v m] by auto

lemma json_ok_update: "json_ok (JArray a) \<Longrightarrow> json_ok v \<Longrightarrow> json_ok (JArray (a[i := v]))"
  by (auto dest!: set_update_subset_insert [THEN subsetD])

section \<open>Laws of the mutations\<close>

lemma update_keys: "map_of m k \<noteq> None \<Longrightarrow> map fst (AList.update k v m) = map fst m"
  by (induction m) (auto split: if_splits)

lemma json_ok_replace:
  assumes "json_ok (JObject m)" and "json_ok v" and "map_of m k \<noteq> None"
  shows "json_ok (JObject (AList.update k v m))"
proof -
  have "set (AList.update k v m) \<subseteq> insert (k, v) (set m)" by (induction m) (auto split: if_splits)
  with assms update_keys [OF assms(3)] show ?thesis by auto
qed

text \<open>A node that is modified to itself leaves the document as it was.\<close>

lemma update_same:
  assumes "\<And>node node'. f node = (r, node') \<Longrightarrow> node' = node" and "update_json_path f root p = Some (r, root')"
  shows "root' = root"
  using assms
proof (induction f root p arbitrary: root' rule: update_json_path.induct)
  case (2 f m k segs)
  from 2(3) obtain v v' where v: "map_of m k = Some v" "update_json_path f v segs = Some (r, v')"
    and root': "root' = JObject (AList.update k v' m)"
    by (auto split: option.splits)
  from 2(1) [OF v(1) 2(2) v(2)] v(1) show ?case by (simp add: root' update_triv)
next
  case (3 f a i segs)
  from 3(3) obtain v' where v: "i < length a" "update_json_path f (a ! i) segs = Some (r, v')"
    and root': "root' = JArray (a[i := v'])"
    by (auto split: if_splits)
  from 3(1) [OF v(1) 3(2) v(2)] show ?case by (simp add: root')
qed auto

lemma get_append: "get_json_path root (p @ q) = Option.bind (get_json_path root p) (\<lambda>n. get_json_path n q)"
  by (induction root p rule: get_json_path.induct) (auto split: option.splits)

lemma update_get:
  assumes "json_ok root" and "update_json_path f root p = Some (r, root')"
  obtains node node' where "get_json_path root p = Some node" and "f node = (r, node')"
    and "\<And>q. get_json_path root' (p @ q) = get_json_path node' q" and "json_ok node"
    and "json_ok node' \<Longrightarrow> json_ok root'" and "node' = node \<Longrightarrow> root' = root"
  using assms
proof (induction f root p arbitrary: r root' thesis rule: update_json_path.induct)
  case (2 f m k segs)
  from 2(4) obtain v v' where v: "map_of m k = Some v" "update_json_path f v segs = Some (r, v')"
    and root': "root' = JObject (AList.update k v' m)"
    by (auto split: option.splits)
  have "json_ok v" using 2(3) v(1) by (rule json_ok_get)
  from 2(1) [OF v(1) _ this v(2)] obtain node node' where
    node: "get_json_path v segs = Some node" "f node = (r, node')"
      "\<And>q. get_json_path v' (segs @ q) = get_json_path node' q" "json_ok node"
      "json_ok node' \<Longrightarrow> json_ok v'" "node' = node \<Longrightarrow> v' = v" by blast
  show ?case
  proof (rule 2(2))
    show "get_json_path root' ((Field k # segs) @ q) = get_json_path node' q" for q
      using 2(3) node(3) by (simp add: root' update_conv')
    show "json_ok root'" if "json_ok node'"
      unfolding root' using 2(3) node(5) [OF that] v(1) by (intro json_ok_replace) auto
    show "root' = JObject m" if "node' = node"
      using node(6) [OF that] v(1) by (simp add: root' update_triv)
  qed (use v node in simp_all)
next
  case (3 f a i segs)
  from 3(4) obtain v' where v: "i < length a" "update_json_path f (a ! i) segs = Some (r, v')"
    and root': "root' = JArray (a[i := v'])"
    by (auto split: if_splits)
  have "json_ok (a ! i)" using 3(3) v(1) by (rule json_ok_nth)
  from 3(1) [OF v(1) _ this v(2)] obtain node node' where
    node: "get_json_path (a ! i) segs = Some node" "f node = (r, node')"
      "\<And>q. get_json_path v' (segs @ q) = get_json_path node' q" "json_ok node"
      "json_ok node' \<Longrightarrow> json_ok v'" "node' = node \<Longrightarrow> v' = a ! i" by blast
  show ?case
  proof (rule 3(2))
    show "json_ok root'" if "json_ok node'"
      unfolding root' using 3(3) node(5) [OF that] by (rule json_ok_update)
    show "root' = JArray a" if "node' = node" using node(6) [OF that] by (simp add: root')
  qed (use v node in \<open>simp_all add: root'\<close>)
qed auto

text \<open>Two paths diverge when they differ at some position both have.\<close>

fun diverge :: "json_path_segment list \<Rightarrow> json_path_segment list \<Rightarrow> bool" where
  "diverge (a # p) (b # q) = (a \<noteq> b \<or> diverge p q)"
| "diverge _ _ = False"

lemma diverge_snoc: "diverge (p @ [l]) q \<Longrightarrow> diverge p q \<or> (\<exists>s q'. q = p @ s # q' \<and> s \<noteq> l)"
proof (induction p arbitrary: q)
  case Nil
  then show ?case by (cases q) auto
next
  case (Cons a p)
  then show ?case by (cases q) auto
qed

lemma update_other:
  "json_ok root \<Longrightarrow> update_json_path f root p = Some (r, root') \<Longrightarrow> diverge p q \<Longrightarrow>
    get_json_path root' q = get_json_path root q"
proof (induction f root p arbitrary: r root' q rule: update_json_path.induct)
  case (2 f m k segs)
  from 2(3) obtain v v' where v: "map_of m k = Some v" "update_json_path f v segs = Some (r, v')"
    and root': "root' = JObject (AList.update k v' m)"
    by (auto split: option.splits)
  obtain s q' where q: "q = s # q'" using 2(4) by (cases q) auto
  show ?case
  proof (cases s)
    case (Field k')
    with 2 v q json_ok_get [OF 2(2) v(1)] show ?thesis by (auto simp: root' update_conv')
  qed (simp add: q root')
next
  case (3 f a i segs)
  from 3(3) obtain v' where v: "i < length a" "update_json_path f (a ! i) segs = Some (r, v')"
    and root': "root' = JArray (a[i := v'])"
    by (auto split: if_splits)
  obtain s q' where q: "q = s # q'" using 3(4) by (cases q) auto
  show ?case
  proof (cases s)
    case (Index j)
    with 3 v q json_ok_nth [OF 3(2) v(1)] show ?thesis by (auto simp: root' nth_list_update)
  qed (simp add: q root')
qed auto

lemma set_last_get: "json_ok node \<Longrightarrow> set_last s v node = (True, node') \<Longrightarrow> get_json_path node' [s] = Some v"
  by (induction s v node rule: set_last.induct) (auto simp: bt_get_insert nth_append split: if_splits)

lemma set_last_other:
  "json_ok node \<Longrightarrow> set_last s v node = (ok, node') \<Longrightarrow> s' \<noteq> s \<Longrightarrow>
    get_json_path node' (s' # q) = get_json_path node (s' # q)"
proof (induction s v node rule: set_last.induct)
  case (1 f v m)
  then show ?case by (cases s') (auto simp: bt_get_insert)
next
  case (2 i v a)
  then show ?case by (cases s') (auto simp: nth_append split: if_splits)
qed auto

lemma set_last_ok: "json_ok node \<Longrightarrow> json_ok v \<Longrightarrow> set_last s v node = (ok, node') \<Longrightarrow> json_ok node'"
  by (induction s v node rule: set_last.induct)
    (auto split: if_splits dest!: set_update_subset_insert [THEN subsetD] bt_insert_set [THEN subsetD])

lemma set_last_fail: "set_last s v node = (False, node') \<Longrightarrow> node' = node"
  by (induction s v node rule: set_last.induct) (auto split: if_splits)

lemma delete_last_fail: "delete_last s node = (False, node') \<Longrightarrow> json_ok node \<Longrightarrow> node' = node"
proof (induction s node rule: delete_last.induct)
  case (1 f m)
  have "bt_remove k m = m" if "map_of m k = None" for k and m :: "(bytes \<times> json) list"
    using that by (induction m) (auto split: if_splits)
  with 1 show ?case by auto
qed (auto split: if_splits)

lemma delete_last_ok: "json_ok node \<Longrightarrow> delete_last s node = (ok, node') \<Longrightarrow> json_ok node'"
  by (induction s node rule: delete_last.induct)
    (auto split: if_splits dest!: in_set_takeD in_set_dropD bt_remove_subset [THEN subsetD])

lemma delete_last_field:
  "json_ok node \<Longrightarrow> delete_last (Field f) node = (True, node') \<Longrightarrow>
    get_json_path node' [Field f] = None \<and>
    (\<forall>g q. g \<noteq> f \<longrightarrow> get_json_path node' (Field g # q) = get_json_path node (Field g # q))"
  by (cases node) (auto simp: bt_get_remove)

lemma delete_last_index:
  "delete_last (Index i) node = (True, node') \<Longrightarrow>
    get_json_path node' (Index j # q) = get_json_path node (Index (if j < i then j else Suc j) # q)"
  by (cases node) (auto split: if_splits simp: nth_append min_def)

lemma set_json_path_cases:
  assumes "json_ok root" and "segments \<noteq> []" and "set_json_path root segments v = (ok, root')"
  obtains (unreachable) "\<not> ok" "root' = root" "update_json_path (set_last (last segments) v) root (butlast segments) = None"
  | (parent) node node' where "update_json_path (set_last (last segments) v) root (butlast segments) = Some (ok, root')"
    "get_json_path root (butlast segments) = Some node" "json_ok node" "set_last (last segments) v node = (ok, node')"
    "\<And>q. get_json_path root' (butlast segments @ q) = get_json_path node' q"
    "json_ok node' \<Longrightarrow> json_ok root'" "node' = node \<Longrightarrow> root' = root"
proof (cases "update_json_path (set_last (last segments) v) root (butlast segments)")
  case None
  with assms unreachable show thesis by (simp add: set_json_path_def)
next
  case (Some x)
  with assms have up: "update_json_path (set_last (last segments) v) root (butlast segments) = Some (ok, root')"
    by (cases x) (simp add: set_json_path_def)
  from update_get [OF assms(1) up] obtain node node' where
    "get_json_path root (butlast segments) = Some node" "set_last (last segments) v node = (ok, node')"
    "\<And>q. get_json_path root' (butlast segments @ q) = get_json_path node' q" "json_ok node"
    "json_ok node' \<Longrightarrow> json_ok root'" "node' = node \<Longrightarrow> root' = root" by blast
  with parent [OF up] show thesis by blast
qed

lemma set_json_path_ok: "json_ok root \<Longrightarrow> json_ok v \<Longrightarrow> json_ok (snd (set_json_path root segments v))"
proof (cases "segments = []")
  case False
  assume ok: "json_ok root" "json_ok v"
  obtain b root' where s: "set_json_path root segments v = (b, root')" by fastforce
  from ok(1) False s have "json_ok root'"
  proof (cases rule: set_json_path_cases)
    case (parent node node')
    with ok set_last_ok show ?thesis by blast
  qed (use ok in simp)
  with s show ?thesis by simp
qed (simp add: set_json_path_def)

section \<open>Properties\<close>

text \<open>
  C12. \<open>JSON.SET\<close> on a path is a lens update. When it succeeds the path reads back the new
  value and every diverging path reads what it read before; when it fails the document is
  unchanged; either way the document stays well formed.
\<close>

theorem json_set_get:
  assumes "json_ok root" and "json_ok v"
  shows "case set_json_path root segments v of (ok, root') \<Rightarrow>
    json_ok root' \<and>
    (if ok then get_json_path root' segments = Some v \<and>
        (\<forall>q. diverge segments q \<longrightarrow> get_json_path root' q = get_json_path root q)
     else root' = root)"
proof (cases "segments = []")
  case True
  with assms show ?thesis by (simp add: set_json_path_def)
next
  case False
  obtain ok root' where s: "set_json_path root segments v = (ok, root')" by fastforce
  have split: "butlast segments @ [last segments] = segments" using False by simp
  have "get_json_path root' segments = Some v \<and>
      (\<forall>q. diverge segments q \<longrightarrow> get_json_path root' q = get_json_path root q)" if ok
    using assms(1) False s
  proof (cases rule: set_json_path_cases)
    case unreachable
    with that show ?thesis by simp
  next
    case (parent node node')
    have "get_json_path root' segments = Some v"
      using parent(5) [of "[last segments]"] set_last_get [OF parent(3)] parent(4) that by (simp add: split)
    moreover have "get_json_path root' q = get_json_path root q" if "diverge segments q" for q
    proof -
      from diverge_snoc [of "butlast segments" "last segments" q] that split
      consider "diverge (butlast segments) q" | t q' where "q = butlast segments @ t # q'" "t \<noteq> last segments"
        by auto
      then show ?thesis
      proof cases
        case 1
        with update_other [OF assms(1) parent(1)] show ?thesis by simp
      next
        case 2
        have "get_json_path root' q = get_json_path node' (t # q')" using parent(5) [of "t # q'"] 2 by simp
        also have "\<dots> = get_json_path node (t # q')" using set_last_other [OF parent(3,4)] 2 by simp
        also have "\<dots> = get_json_path root q" using 2 parent(2) by (simp add: get_append)
        finally show ?thesis .
      qed
    qed
    ultimately show ?thesis by blast
  qed
  moreover have "root' = root" if "\<not> ok"
    using assms(1) False s
  proof (cases rule: set_json_path_cases)
    case (parent node node')
    with that set_last_fail [of "last segments" v node node'] show ?thesis by simp
  qed simp
  ultimately show ?thesis using set_json_path_ok [OF assms, of segments] s by simp
qed

definition sample_json :: json where
  "sample_json = JObject [(''a'', JArray [JBool True, JNull]), (''b'', JString ''s'')]"

theorem json_set_get_witness:
  "get_json_path (snd (set_json_path sample_json [Field ''a'', Index 2] (JBool False))) [Field ''a'', Index 2] =
     Some (JBool False)"
proof -
  have "json_ok sample_json" by (simp add: sample_json_def)
  from json_set_get [OF this, of "JBool False" "[Field ''a'', Index 2]"] show ?thesis
    by (simp add: sample_json_def set_json_path_def split: prod.splits)
qed

lemma delete_json_path_parent:
  assumes "json_ok root" and "segments \<noteq> []" and "delete_json_path root segments = (ok, root')"
  shows "json_ok root' \<and> (if ok then \<exists>node node'. get_json_path root (butlast segments) = Some node \<and> json_ok node \<and>
      delete_last (last segments) node = (True, node') \<and>
      (\<forall>q. get_json_path root' (butlast segments @ q) = get_json_path node' q) \<and>
      (\<forall>q. diverge (butlast segments) q \<longrightarrow> get_json_path root' q = get_json_path root q)
    else root' = root)"
proof (cases "update_json_path (delete_last (last segments)) root (butlast segments)")
  case None
  with assms show ?thesis by (simp add: delete_json_path_def split: if_splits)
next
  case (Some x)
  with assms have up: "update_json_path (delete_last (last segments)) root (butlast segments) = Some (ok, root')"
    by (cases x) (simp add: delete_json_path_def)
  from update_get [OF assms(1) up] obtain node node' where
    n: "get_json_path root (butlast segments) = Some node" "delete_last (last segments) node = (ok, node')"
    "\<And>q. get_json_path root' (butlast segments @ q) = get_json_path node' q" "json_ok node"
    "json_ok node' \<Longrightarrow> json_ok root'" "node' = node \<Longrightarrow> root' = root" by blast
  have "json_ok root'" using n delete_last_ok by blast
  moreover have "root' = root" if "\<not> ok" using that n delete_last_fail by simp
  ultimately show ?thesis using n update_other [OF assms(1) up] by auto
qed

text \<open>
  \<open>JSON.DEL\<close> on a path below the root removes exactly that node. After deleting a
  field, the path is absent and all other fields of the parent read as before; after deleting
  an array element, the later elements move down by one; paths that leave the parent's path
  earlier are untouched; and when nothing is deleted the document is unchanged.
\<close>

theorem json_delete_get:
  assumes "json_ok root"
  shows "case delete_json_path root (p @ [l]) of (deleted, root') \<Rightarrow>
    json_ok root' \<and>
    (if deleted then
       (case l of
          Field f \<Rightarrow> get_json_path root' (p @ [Field f]) = None \<and>
            (\<forall>g q. g \<noteq> f \<longrightarrow> get_json_path root' (p @ Field g # q) = get_json_path root (p @ Field g # q))
        | Index i \<Rightarrow> (\<forall>j q. get_json_path root' (p @ Index j # q) =
            get_json_path root (p @ Index (if j < i then j else Suc j) # q))) \<and>
       (\<forall>q. diverge p q \<longrightarrow> get_json_path root' q = get_json_path root q)
     else root' = root)"
proof -
  obtain ok root' where d: "delete_json_path root (p @ [l]) = (ok, root')" by fastforce
  note parent = delete_json_path_parent [OF assms _ d, simplified]
  show ?thesis
  proof (cases ok)
    case True
    with parent obtain node node' where n: "get_json_path root p = Some node" "json_ok node"
      "delete_last l node = (True, node')" "\<And>q. get_json_path root' (p @ q) = get_json_path node' q" by auto
    then have root: "get_json_path root (p @ q) = get_json_path node q" for q by (simp add: get_append)
    show ?thesis
    proof (cases l)
      case (Field f)
      with n True d parent delete_last_field [of node f node'] show ?thesis by (simp add: root n(4))
    next
      case (Index i)
      with n True d parent delete_last_index [of i node node'] show ?thesis by (simp add: root n(4))
    qed
  next
    case False
    with parent d assms show ?thesis by simp
  qed
qed

theorem json_delete_get_witness:
  "delete_json_path sample_json ([Field ''a''] @ [Index 0]) =
     (True, JObject [(''a'', JArray [JNull]), (''b'', JString ''s'')]) \<and>
   get_json_path (snd (delete_json_path sample_json ([Field ''a''] @ [Index 0]))) ([Field ''a''] @ Index 0 # []) = Some JNull"
proof -
  have "json_ok sample_json" by (simp add: sample_json_def)
  from json_delete_get [OF this, of "[Field ''a'']" "Index 0"] show ?thesis
    by (auto simp: sample_json_def delete_json_path_def split: prod.splits)
qed

section \<open>Paths print and parse\<close>

fun print_segment :: "json_path_segment \<Rightarrow> bytes" where
  "print_segment (Field f) = ''.'' @ f"
| "print_segment (Index i) = ''['' @ nat_to_string i @ '']''"

definition print_path :: "json_path_segment list \<Rightarrow> bytes" where
  "print_path segs = ''$'' @ concat (map print_segment segs)"

fun segment_ok :: "json_path_segment \<Rightarrow> bool" where
  "segment_ok (Field f) = (utf8_valid f \<and> f \<noteq> [] \<and> list_all field_char (utf8_chars f))"
| "segment_ok (Index i) = (i \<le> usize_max)"

fun untrimmed :: "json_path_segment \<Rightarrow> bool" where
  "untrimmed (Field f) = (\<not> is_whitespace (last (utf8_chars f)))"
| "untrimmed (Index i) = True"

lemma utf8_step_width: "fst (utf8_step (b # bs)) \<Longrightarrow> snd (utf8_step (b # bs)) = char_width b \<and> char_width b \<le> length (b # bs)"
  by (auto simp: head_is_def char_width_def between_def drop_Cons' split: if_splits list.splits nat.splits)

lemma utf8_chars_append: "utf8_valid a \<Longrightarrow> utf8_chars (a @ b) = utf8_chars a @ utf8_chars b"
proof (induction a rule: utf8_valid.induct)
  case (2 c cs)
  from 2(2) have w: "snd (utf8_step (c # cs)) = char_width c" "char_width c \<le> length (c # cs)"
    using utf8_step_width [of c cs] by simp_all
  have "utf8_chars (drop (char_width c) (c # cs) @ b) = utf8_chars (drop (char_width c) (c # cs)) @ utf8_chars b"
    using 2 unfolding w(1) utf8_valid.simps(2) by blast
  with w(2) show ?case
    by (simp only: utf8_chars.simps append_Cons) (simp del: take.simps drop.simps flip: append_Cons)
qed simp

lemma print_segment_chars:
  assumes "segment_ok s"
  shows "utf8_chars (print_segment s @ b) = utf8_chars (print_segment s) @ utf8_chars b"
proof -
  have "utf8_valid (CHR ''.'' # f)" if "utf8_valid f" for f using that by simp
  moreover have "is_ascii (''['' @ nat_to_string i @ '']'')" for i
    using nat_to_string_digits [of _ i] by (fastforce simp: is_ascii_def between_def)
  ultimately have "utf8_valid (print_segment s)"
    using assms utf8_valid_ascii by (cases s) (auto simp del: utf8_valid.simps)
  then show ?thesis by (rule utf8_chars_append)
qed

lemma concat_segment_chars:
  "list_all segment_ok segs \<Longrightarrow>
    utf8_chars (concat (map print_segment segs)) = concat (map (\<lambda>s. utf8_chars (print_segment s)) segs)"
  by (induction segs) (simp_all add: print_segment_chars del: print_segment.simps)

lemma field_chars: "utf8_chars (print_segment (Field f)) = dot # utf8_chars f"
  by (simp add: char_width_def)

lemma index_chars:
  "utf8_chars (print_segment (Index i)) = lbracket # map (\<lambda>c. [c]) (nat_to_string i) @ [rbracket]"
proof -
  have "is_ascii (print_segment (Index i))"
    using nat_to_string_digits [of _ i] by (fastforce simp: is_ascii_def between_def)
  then show ?thesis by (simp only: utf8_chars_ascii) simp
qed

lemma segments_head:
  "list_all segment_ok segs \<Longrightarrow> R = concat (map (\<lambda>s. utf8_chars (print_segment s)) segs) \<Longrightarrow>
    R = [] \<or> \<not> field_char (hd R)"
  by (cases segs) (auto simp: field_chars index_chars field_char_def neq_Nil_conv simp del: print_segment.simps
      elim!: segment_ok.elims)

lemma parse_segments_print:
  "list_all segment_ok segs \<Longrightarrow>
    parse_segments (concat (map (\<lambda>s. utf8_chars (print_segment s)) segs)) = Some segs"
proof (induction segs)
  case (Cons s segs)
  define R where "R = concat (map (\<lambda>s. utf8_chars (print_segment s)) segs)"
  have IH: "parse_segments R = Some segs" using Cons by (simp add: R_def)
  have head: "R = [] \<or> \<not> field_char (hd R)" using segments_head [of segs R] Cons.prems by (simp add: R_def)
  show ?case
  proof (cases s)
    case (Field f)
    with Cons.prems have f: "utf8_valid f" "f \<noteq> []" "\<forall>c \<in> set (utf8_chars f). field_char c"
      by (auto simp: list_all_iff)
    have "takeWhile field_char (utf8_chars f @ R) = utf8_chars f" "dropWhile field_char (utf8_chars f @ R) = R"
      using f(3) head by (cases R; simp add: takeWhile_append dropWhile_append)+
    moreover have "utf8_chars f \<noteq> []" using f(2) by (cases f) auto
    ultimately show ?thesis
      using IH by (simp add: Field field_chars R_def [symmetric] utf8_chars_concat del: print_segment.simps)
  next
    case (Index i)
    let ?ds = "map (\<lambda>c. [c]) (nat_to_string i)"
    have ds: "\<forall>c \<in> set ?ds. c \<noteq> rbracket"
      using nat_to_string_digits [of _ i] by (fastforce simp: between_def)
    have "takeWhile (\<lambda>c. c \<noteq> rbracket) (?ds @ rbracket # R) = ?ds"
      "dropWhile (\<lambda>c. c \<noteq> rbracket) (?ds @ rbracket # R) = rbracket # R"
      using ds by (simp_all add: takeWhile_append dropWhile_append)
    moreover have "concat ?ds = nat_to_string i" by (induction "nat_to_string i") auto
    moreover have "i \<le> usize_max" using Cons.prems Index by simp
    ultimately show ?thesis
      using IH by (simp add: Index index_chars R_def [symmetric] del: print_segment.simps)
  qed
qed simp

lemma dropWhile_hd: "xs \<noteq> [] \<Longrightarrow> \<not> P (hd xs) \<Longrightarrow> dropWhile P xs = xs"
  by (cases xs) auto

lemma trim_id:
  assumes "utf8_chars s = c # cs" and "\<not> is_whitespace c" and "\<not> is_whitespace (last (c # cs))"
  shows "trim s = s"
proof -
  have "dropWhile is_whitespace (rev (c # cs)) = rev (c # cs)"
    using assms(3) by (intro dropWhile_hd) (simp, simp only: hd_rev not_False_eq_True)
  then have "trim s = concat (c # cs)" using assms(1,2) by (simp only: trim_def dropWhile.simps if_False rev_rev_ident)
  also have "\<dots> = s" using utf8_chars_concat [of s] assms(1) by simp
  finally show ?thesis .
qed

lemma last_path_char:
  assumes "list_all segment_ok segs" and "segs \<noteq> []" and "untrimmed (last segs)"
  shows "concat (map (\<lambda>s. utf8_chars (print_segment s)) segs) \<noteq> [] \<and>
    \<not> is_whitespace (last (concat (map (\<lambda>s. utf8_chars (print_segment s)) segs)))"
proof -
  let ?c = "\<lambda>s. utf8_chars (print_segment s)"
  have segs: "segs = butlast segs @ [last segs]" using assms(2) by simp
  then have "segment_ok (last segs)" using assms(1,2) by (simp add: list_all_iff)
  then have "?c (last segs) \<noteq> [] \<and> \<not> is_whitespace (last (?c (last segs)))"
    using assms(3)
    by (cases "last segs") (auto simp: field_chars index_chars is_whitespace_def simp del: print_segment.simps
        dest: utf8_chars.elims)
  moreover have "concat (map ?c segs) = concat (map ?c (butlast segs)) @ ?c (last segs)"
    by (subst segs) simp
  ultimately show ?thesis by simp
qed

text \<open>
  Every list of segments that a path can express is the result of parsing its canonical
  text: fields are non-empty UTF-8 without a dot or an opening bracket, indices fit a
  \<open>usize\<close>, and the text does not end in white space, which parsing trims.
\<close>

theorem parse_print_path:
  assumes "list_all segment_ok segs" and "segs = [] \<or> untrimmed (last segs)"
  shows "parse_json_path (print_path segs) = Some segs"
proof -
  define R where "R = concat (map print_segment segs)"
  have chars: "utf8_chars R = concat (map (\<lambda>s. utf8_chars (print_segment s)) segs)"
    using concat_segment_chars [OF assms(1)] by (simp add: R_def)
  have all: "utf8_chars (print_path segs) = ''$'' # utf8_chars R"
    by (simp add: print_path_def R_def char_width_def)
  have "\<not> is_whitespace (last (''$'' # utf8_chars R))"
  proof (cases "segs = []")
    case True
    then show ?thesis by (simp add: R_def is_whitespace_def)
  next
    case False
    with last_path_char [OF assms(1)] assms(2) show ?thesis unfolding chars by (metis last_ConsR)
  qed
  then have trim: "trim (print_path segs) = print_path segs"
    using all by (intro trim_id) (auto simp: is_whitespace_def)
  have path: "print_path segs = CHR ''$'' # R" by (simp add: print_path_def R_def)
  note trim = trim [unfolded path]
  show ?thesis
  proof (cases segs)
    case Nil
    then have "R = []" by (simp add: R_def)
    with Nil trim path show ?thesis by (simp add: parse_json_path_def Let_def)
  next
    case (Cons s rest)
    have "starts_with R ''.'' \<or> starts_with R ''[''" "R \<noteq> []"
      unfolding R_def Cons by (cases s; simp add: starts_with_def)+
    then show ?thesis
      using parse_segments_print [OF assms(1)]
      by (auto simp: parse_json_path_def trim path Let_def starts_with_def chars)
  qed
qed

theorem parse_print_path_witness:
  "print_path [Field ''a'', Index 12, Field ''b''] = ''$.a[12].b'' \<and>
   parse_json_path ''$.a[12].b'' = Some [Field ''a'', Index 12, Field ''b'']"
proof -
  let ?p = "[Field ''a'', Index 12, Field ''b'']"
  have print: "print_path ?p = ''$.a[12].b''"
    by code_simp
  have "list_all segment_ok ?p" "?p = [] \<or> untrimmed (last ?p)"
    by (simp_all add: char_width_def field_char_def usize_max_def is_whitespace_def)
  from parse_print_path [OF this] print show ?thesis by simp
qed

end
