(* ===== verification/Store.thy ===== *)
theory Store
  imports Engine_Laws Json_Path
begin

text \<open>
  \<open>ShardedStore\<close> of \<open>src/store.rs\<close>: the typed operations on strings, lists, hashes, sets
  and JSON documents, glob matching of keys, and mutation attempts with admission control and
  rollback. Keys, fields and text arguments are Rust strings, that is valid UTF-8, represented
  by their bytes; a \<open>Result\<close> is a sum with the error on the left.
\<close>

section \<open>State and errors\<close>

definition MAX_KEYS :: nat where
  "MAX_KEYS = 1000000"

record store =
  store_engine :: engine
  maxmemory_bytes :: nat
  maxmemory_policy :: eviction_policy

datatype store_error = WrongType

datatype admission_error = KeyLimit | Maxmemory

definition wrong_type_message :: bytes where
  "wrong_type_message = ''WRONGTYPE Operation against a key holding the wrong kind of value''"

fun store_error_message :: "store_error \<Rightarrow> bytes" where
  "store_error_message WrongType = wrong_type_message"

fun admission_error_message :: "admission_error \<Rightarrow> bytes" where
  "admission_error_message KeyLimit = ''ERR database key limit reached''"
| "admission_error_message Maxmemory =
     ''OOM command not allowed because the projected memory usage exceeds maxmemory''"

definition on_engine :: "(engine \<Rightarrow> 'r \<times> engine) \<Rightarrow> store \<Rightarrow> 'r \<times> store" where
  "on_engine f st = (case f (store_engine st) of (r, e) \<Rightarrow> (r, st\<lparr>store_engine := e\<rparr>))"

definition with_maxmemory :: "nat \<Rightarrow> eviction_policy \<Rightarrow> store" where
  "with_maxmemory limit policy =
     \<lparr>store_engine = engine_new, maxmemory_bytes = limit, maxmemory_policy = policy\<rparr>"

definition store_new :: store where
  "store_new = with_maxmemory 0 NoEviction"

definition used_memory_bytes :: "env \<Rightarrow> store \<Rightarrow> nat \<times> store" where
  "used_memory_bytes E = on_engine (total_memory_bytes E)"

definition store_stats :: "env \<Rightarrow> store \<Rightarrow> engine_stats \<times> store" where
  "store_stats E = on_engine (stats E)"

section \<open>Mutation attempts\<close>

definition key_limit_requires_exact_count :: "nat \<Rightarrow> nat \<Rightarrow> bool" where
  "key_limit_requires_exact_count physical_keys possible_new_keys \<longleftrightarrow>
     0 < possible_new_keys \<and> MAX_KEYS < sat_add physical_keys possible_new_keys"

record mutation_attempt =
  before_entries :: "(bytes, data_entry option) hmap"
  memory_before :: "nat option"
  key_count_before :: "nat option"
  evicted_entries :: "(bytes \<times> data_entry) list"

record mutation_rollback =
  rb_before_entries :: "(bytes, data_entry option) hmap"
  rb_evicted_entries :: "(bytes \<times> data_entry) list"

fun peek_all :: "env \<Rightarrow> bytes list \<Rightarrow> (bytes, data_entry option) hmap \<Rightarrow> store \<Rightarrow>
    (bytes, data_entry option) hmap \<times> store" where
  "peek_all E [] acc st = (acc, st)"
| "peek_all E (key # keys) acc st = (case on_engine (peek E key) st of (found, st1) \<Rightarrow>
     peek_all E keys (hm_insert key found acc) st1)"

definition begin_mutation :: "env \<Rightarrow> bytes list \<Rightarrow> store \<Rightarrow> mutation_attempt \<times> store" where
  "begin_mutation E keys st =
     (let (before, st1) = peek_all E keys [] st;
          possible_new_keys = length (filter (\<lambda>(_, entry). entry = None) before);
          (count, st2) =
            (if key_limit_requires_exact_count (physical_key_count (store_engine st1)) possible_new_keys
             then apfst (Some \<circ> stats_total_keys) (store_stats E st1) else (None, st1));
          (memory, st3) =
            (if 0 < maxmemory_bytes st2 then apfst Some (used_memory_bytes E st2) else (None, st2))
      in (\<lparr>before_entries = before, memory_before = memory, key_count_before = count,
           evicted_entries = []\<rparr>, st3))"

fun restore_before :: "env \<Rightarrow> (bytes, data_entry option) hmap \<Rightarrow> store \<Rightarrow> store" where
  "restore_before E [] st = st"
| "restore_before E ((key, previous) # before) st = restore_before E before
     (case previous of
        Some entry \<Rightarrow> snd (on_engine (apply_entry E key entry) st)
      | None \<Rightarrow> snd (on_engine (engine_delete E key) st))"

fun apply_all :: "env \<Rightarrow> (bytes \<times> data_entry) list \<Rightarrow> store \<Rightarrow> store" where
  "apply_all E [] st = st"
| "apply_all E ((key, entry) # entries) st =
     apply_all E entries (snd (on_engine (apply_entry E key entry) st))"

definition restore_entries ::
  "env \<Rightarrow> (bytes, data_entry option) hmap \<Rightarrow> (bytes \<times> data_entry) list \<Rightarrow> store \<Rightarrow> store" where
  "restore_entries E before evicted st =
     apply_all E (filter (\<lambda>(key, _). hm_get before key = None) evicted) (restore_before E before st)"

text \<open>
  The outer \<open>option\<close> is \<open>None\<close> for the panic of \<open>expect\<close> on a missing memory baseline, and
  for an eviction loop that does not end.
\<close>

definition admit :: "env \<Rightarrow> bytes list \<Rightarrow> mutation_attempt \<Rightarrow> store \<Rightarrow>
    ((admission_error + unit) \<times> mutation_attempt \<times> store) option" where
  "admit E protected_keys att st =
     (let (over, st1) = (case key_count_before att of
          Some count_before \<Rightarrow> (case store_stats E st of (counted, st1) \<Rightarrow>
            (MAX_KEYS < stats_total_keys counted \<and> count_before < stats_total_keys counted, st1))
        | None \<Rightarrow> (False, st))
      in if over then Some (Inl KeyLimit, att, st1)
         else if maxmemory_bytes st1 = 0 then Some (Inr (), att, st1)
         else (case used_memory_bytes E st1 of (memory_after, st2) \<Rightarrow>
           (case memory_before att of
              None \<Rightarrow> None
            | Some before \<Rightarrow>
                if memory_after \<le> maxmemory_bytes st2 \<or> memory_after \<le> before then Some (Inr (), att, st2)
                else if maxmemory_policy st2 = NoEviction then Some (Inl Maxmemory, att, st2)
                else (case evict_to_fit E (maxmemory_bytes st2) (maxmemory_policy st2)
                             (set protected_keys) (store_engine st2) of
                    None \<Rightarrow> None
                  | Some (evicted, e3) \<Rightarrow>
                      (case used_memory_bytes E (st2\<lparr>store_engine := e3\<rparr>) of (memory, st3) \<Rightarrow>
                         if memory \<le> maxmemory_bytes st3
                         then Some (Inr (), att\<lparr>evicted_entries := evicted_entries att @ evicted\<rparr>, st3)
                         else Some (Inl Maxmemory, att, apply_all E evicted st3))))))"

definition rollback :: "env \<Rightarrow> mutation_attempt \<Rightarrow> store \<Rightarrow> store" where
  "rollback E att = restore_entries E (before_entries att) (evicted_entries att)"

definition into_rollback :: "mutation_attempt \<Rightarrow> mutation_rollback" where
  "into_rollback att =
     \<lparr>rb_before_entries = before_entries att, rb_evicted_entries = evicted_entries att\<rparr>"

definition from_baseline :: "(bytes, data_entry option) hmap \<Rightarrow> mutation_rollback" where
  "from_baseline before = \<lparr>rb_before_entries = before, rb_evicted_entries = []\<rparr>"

definition rollback_restore :: "env \<Rightarrow> mutation_rollback \<Rightarrow> store \<Rightarrow> store" where
  "rollback_restore E rb = restore_entries E (rb_before_entries rb) (rb_evicted_entries rb)"

section \<open>Snapshots of the store\<close>

text \<open>
  \<open>into_entries\<close> materialises one shard at a time and closes its epoch before the next one;
  \<open>None\<close> is a failed assertion.
\<close>

fun drain_snapshot :: "nat list \<Rightarrow> engine_snapshot \<Rightarrow> (bytes \<times> data_entry) list \<Rightarrow> engine \<Rightarrow>
    ((bytes \<times> data_entry) list \<times> engine) option" where
  "drain_snapshot [] view entries e = Some (entries, e)"
| "drain_snapshot (i # rest) view entries e =
     (case append_shard_entries view i entries of
        None \<Rightarrow> None
      | Some entries1 \<Rightarrow> (case release_shard i view of
          None \<Rightarrow> None
        | Some view1 \<Rightarrow> (case finish_snapshot_shard i e of
            None \<Rightarrow> None
          | Some e1 \<Rightarrow> drain_snapshot rest view1 entries1 e1)))"

definition into_entries :: "engine_snapshot \<Rightarrow> engine \<Rightarrow> ((bytes \<times> data_entry) list \<times> engine) option" where
  "into_entries view e = (case drain_snapshot [0..<length (snap_shards view)] view [] e of
      None \<Rightarrow> None
    | Some (entries, e1) \<Rightarrow> map_option (Pair entries) (finish_snapshot e1))"

section \<open>String operations\<close>

definition store_set :: "env \<Rightarrow> bytes \<Rightarrow> bytes \<Rightarrow> store \<Rightarrow> store" where
  "store_set E key v st = snd (on_engine (engine_set E key (Blob v) None) st)"

definition store_set_raw :: "env \<Rightarrow> bytes \<Rightarrow> data_entry \<Rightarrow> store \<Rightarrow> store" where
  "store_set_raw E key entry st = snd (on_engine (engine_set E key (entry_value entry) (expires_at entry)) st)"

text \<open>\<open>transpose\<close> of an optional result.\<close>

definition transpose_result :: "('e + 'a) option \<Rightarrow> 'e + 'a option" where
  "transpose_result r = (case r of
      None \<Rightarrow> Inr None
    | Some (Inr a) \<Rightarrow> Inr (Some a)
    | Some (Inl e) \<Rightarrow> Inl e)"

fun string_of_value :: "onyx_value \<Rightarrow> store_error + bytes" where
  "string_of_value (Blob b) = Inr (from_utf8_lossy b)"
| "string_of_value (IntV n) = Inr (i64_to_string n)"
| "string_of_value _ = Inl WrongType"

definition store_get :: "env \<Rightarrow> bytes \<Rightarrow> store \<Rightarrow> (store_error + bytes option) \<times> store" where
  "store_get E key st = apfst transpose_result
     (on_engine (engine_read E key (\<lambda>entry. string_of_value (entry_value entry))) st)"

definition store_delete :: "env \<Rightarrow> bytes \<Rightarrow> store \<Rightarrow> bool \<times> store" where
  "store_delete E key = on_engine (engine_delete E key)"

definition exists :: "env \<Rightarrow> bytes \<Rightarrow> store \<Rightarrow> bool \<times> store" where
  "exists E key st = apfst (\<lambda>found. found \<noteq> None) (on_engine (peek E key) st)"

definition expire_at :: "env \<Rightarrow> bytes \<Rightarrow> u64 \<Rightarrow> store \<Rightarrow> bool \<times> store" where
  "expire_at E key timestamp = on_engine (set_expiry E key timestamp)"

definition expire :: "env \<Rightarrow> bytes \<Rightarrow> u64 \<Rightarrow> store \<Rightarrow> bool \<times> store" where
  "expire E key seconds = expire_at E key (u64_saturating_add (now E) seconds)"

definition ttl_of_entry :: "env \<Rightarrow> data_entry \<Rightarrow> i64" where
  "ttl_of_entry E entry = (case expires_at entry of
      Some exp \<Rightarrow>
        (let remaining = u64_saturating_sub exp (now E)
         in if remaining = 0 then - 2
            else if unat remaining < 2 ^ 63 then remaining else 2 ^ 63 - 1)
    | None \<Rightarrow> - 1)"

definition ttl :: "env \<Rightarrow> bytes \<Rightarrow> store \<Rightarrow> i64 \<times> store" where
  "ttl E key st = apfst (\<lambda>r. case r of Some n \<Rightarrow> n | None \<Rightarrow> - 2)
     (on_engine (engine_read E key (ttl_of_entry E)) st)"

definition incrby_value :: "i64 \<Rightarrow> onyx_value \<Rightarrow> (bytes + i64) \<times> onyx_value" where
  "incrby_value delta v =
     (let current = (case v of
          IntV n \<Rightarrow> Inr n
        | Blob b \<Rightarrow> (case Option.bind (str_of_bytes b) parse_i64 of
              Some n \<Rightarrow> Inr n
            | None \<Rightarrow> Inl ''ERR value is not an integer'')
        | _ \<Rightarrow> Inl ''ERR value is not an integer'')
      in (case current of
          Inl err \<Rightarrow> (Inl err, v)
        | Inr n \<Rightarrow> (case i64_checked_add n delta of
              None \<Rightarrow> (Inl ''ERR increment or decrement would overflow'', v)
            | Some new_val \<Rightarrow> (Inr new_val, IntV new_val))))"

definition incrby :: "env \<Rightarrow> bytes \<Rightarrow> i64 \<Rightarrow> store \<Rightarrow> (bytes + i64) \<times> store" where
  "incrby E key delta = on_engine (update_or_insert E key (IntV 0) (incrby_value delta))"

definition incr :: "env \<Rightarrow> bytes \<Rightarrow> store \<Rightarrow> (bytes + i64) \<times> store" where
  "incr E key = incrby E key 1"

definition append_value :: "bytes \<Rightarrow> onyx_value \<Rightarrow> (store_error + nat) \<times> onyx_value" where
  "append_value suffix v = (case string_of_value v of
      Inl err \<Rightarrow> (Inl err, v)
    | Inr s \<Rightarrow> (Inr (length (s @ suffix)), Blob (s @ suffix)))"

definition store_append :: "env \<Rightarrow> bytes \<Rightarrow> bytes \<Rightarrow> store \<Rightarrow> (store_error + nat) \<times> store" where
  "store_append E key suffix = on_engine (update_or_insert E key (Blob []) (append_value suffix))"

definition strlen :: "env \<Rightarrow> bytes \<Rightarrow> store \<Rightarrow> (store_error + nat) \<times> store" where
  "strlen E key st = apfst (map_sum id (\<lambda>v. case v of None \<Rightarrow> 0 | Some s \<Rightarrow> length s)) (store_get E key st)"

definition getset_entry :: "bytes \<Rightarrow> data_entry \<Rightarrow> bool \<Rightarrow> (store_error + bytes option) \<times> data_entry" where
  "getset_entry new_value entry existed = (case string_of_value (entry_value entry) of
      Inl err \<Rightarrow> (Inl err, entry)
    | Inr old \<Rightarrow> (Inr (if existed then Some old else None),
        entry\<lparr>entry_value := Blob new_value, expires_at := None\<rparr>))"

definition getset :: "env \<Rightarrow> bytes \<Rightarrow> bytes \<Rightarrow> store \<Rightarrow> (store_error + bytes option) \<times> store" where
  "getset E key new_value =
     on_engine (update_entry_or_insert_with_presence E key (Blob []) (getset_entry new_value))"

definition setnx :: "env \<Rightarrow> bytes \<Rightarrow> bytes \<Rightarrow> store \<Rightarrow> bool \<times> store" where
  "setnx E key v = on_engine (set_if_absent E key (Blob v))"

section \<open>List operations\<close>

text \<open>\<open>unwrap_or(Ok(d))\<close> of an optional result.\<close>

definition or_ok :: "'a \<Rightarrow> ('e + 'a) option \<Rightarrow> 'e + 'a" where
  "or_ok d r = (case r of None \<Rightarrow> Inr d | Some x \<Rightarrow> x)"

fun lpush_value :: "bytes \<Rightarrow> onyx_value \<Rightarrow> (store_error + nat) \<times> onyx_value" where
  "lpush_value item (List l) = (Inr (length (item # l)), List (item # l))"
| "lpush_value item v = (Inl WrongType, v)"

fun rpush_value :: "bytes \<Rightarrow> onyx_value \<Rightarrow> (store_error + nat) \<times> onyx_value" where
  "rpush_value item (List l) = (Inr (length (l @ [item])), List (l @ [item]))"
| "rpush_value item v = (Inl WrongType, v)"

definition lpush :: "env \<Rightarrow> bytes \<Rightarrow> bytes \<Rightarrow> store \<Rightarrow> (store_error + nat) \<times> store" where
  "lpush E key item = on_engine (update_or_insert E key (List []) (lpush_value item))"

definition rpush :: "env \<Rightarrow> bytes \<Rightarrow> bytes \<Rightarrow> store \<Rightarrow> (store_error + nat) \<times> store" where
  "rpush E key item = on_engine (update_or_insert E key (List []) (rpush_value item))"

definition keep_unless_empty :: "'a list \<Rightarrow> 'r \<Rightarrow> 'r entry_mutation" where
  "keep_unless_empty l r = (if l = [] then Delete r else Keep r)"

fun lpop_value :: "onyx_value \<Rightarrow> (store_error + bytes option) entry_mutation \<times> onyx_value" where
  "lpop_value (List (item # l)) = (keep_unless_empty l (Inr (Some (from_utf8_lossy item))), List l)"
| "lpop_value (List []) = (Keep (Inr None), List [])"
| "lpop_value v = (Keep (Inl WrongType), v)"

fun rpop_value :: "onyx_value \<Rightarrow> (store_error + bytes option) entry_mutation \<times> onyx_value" where
  "rpop_value (List l) = (if l \<noteq> []
     then (keep_unless_empty (butlast l) (Inr (Some (from_utf8_lossy (last l)))), List (butlast l))
     else (Keep (Inr None), List l))"
| "rpop_value v = (Keep (Inl WrongType), v)"

definition lpop :: "env \<Rightarrow> bytes \<Rightarrow> store \<Rightarrow> (store_error + bytes option) \<times> store" where
  "lpop E key st = apfst (or_ok None) (on_engine (update_if_exists_with_action E key lpop_value) st)"

definition rpop :: "env \<Rightarrow> bytes \<Rightarrow> store \<Rightarrow> (store_error + bytes option) \<times> store" where
  "rpop E key st = apfst (or_ok None) (on_engine (update_if_exists_with_action E key rpop_value) st)"

definition lrange_list :: "int \<Rightarrow> int \<Rightarrow> bytes list \<Rightarrow> bytes list" where
  "lrange_list start stop l =
     (let len = int (length l)
      in if len = 0 then []
         else (let norm = (\<lambda>idx. if idx < 0 then max (len + idx) 0 else idx);
                   s = norm start;
                   e = norm stop
           in if len - 1 < s \<or> e < s then []
              else (let e' = (if len - 1 < e then len - 1 else e)
                in take (nat e' + 1 - nat s) (drop (nat s) l))))"

definition lrange_value :: "i64 \<Rightarrow> i64 \<Rightarrow> onyx_value \<Rightarrow> store_error + bytes list" where
  "lrange_value start stop v = (case v of
      List l \<Rightarrow> Inr (map from_utf8_lossy (lrange_list (sint start) (sint stop) l))
    | _ \<Rightarrow> Inl WrongType)"

definition lrange :: "env \<Rightarrow> bytes \<Rightarrow> i64 \<Rightarrow> i64 \<Rightarrow> store \<Rightarrow> (store_error + bytes list) \<times> store" where
  "lrange E key start stop st = apfst (or_ok [])
     (on_engine (engine_read E key (\<lambda>entry. lrange_value start stop (entry_value entry))) st)"

fun llen_value :: "onyx_value \<Rightarrow> store_error + nat" where
  "llen_value (List l) = Inr (length l)"
| "llen_value v = Inl WrongType"

definition llen :: "env \<Rightarrow> bytes \<Rightarrow> store \<Rightarrow> (store_error + nat) \<times> store" where
  "llen E key st = apfst (or_ok 0) (on_engine (engine_read E key (\<lambda>entry. llen_value (entry_value entry))) st)"

section \<open>Hash operations\<close>

fun hset_value :: "bytes \<Rightarrow> bytes \<Rightarrow> onyx_value \<Rightarrow> (store_error + bool) \<times> onyx_value" where
  "hset_value field val (Hash h) = (Inr (hm_get h field = None), Hash (hm_insert field val h))"
| "hset_value field val v = (Inl WrongType, v)"

definition hset :: "env \<Rightarrow> bytes \<Rightarrow> bytes \<Rightarrow> bytes \<Rightarrow> store \<Rightarrow> (store_error + bool) \<times> store" where
  "hset E key field val = on_engine (update_or_insert E key (Hash []) (hset_value field val))"

fun hget_value :: "bytes \<Rightarrow> onyx_value \<Rightarrow> store_error + bytes option" where
  "hget_value field (Hash h) = Inr (map_option from_utf8_lossy (hm_get h field))"
| "hget_value field v = Inl WrongType"

definition hget :: "env \<Rightarrow> bytes \<Rightarrow> bytes \<Rightarrow> store \<Rightarrow> (store_error + bytes option) \<times> store" where
  "hget E key field st = apfst (or_ok None)
     (on_engine (engine_read E key (\<lambda>entry. hget_value field (entry_value entry))) st)"

fun hgetall_value :: "onyx_value \<Rightarrow> store_error + (bytes \<times> bytes) list" where
  "hgetall_value (Hash h) = Inr (map (\<lambda>(k, v). (from_utf8_lossy k, from_utf8_lossy v)) h)"
| "hgetall_value v = Inl WrongType"

definition hgetall :: "env \<Rightarrow> bytes \<Rightarrow> store \<Rightarrow> (store_error + (bytes \<times> bytes) list) \<times> store" where
  "hgetall E key st = apfst (or_ok [])
     (on_engine (engine_read E key (\<lambda>entry. hgetall_value (entry_value entry))) st)"

fun hdel_value :: "bytes \<Rightarrow> onyx_value \<Rightarrow> (store_error + bool) entry_mutation \<times> onyx_value" where
  "hdel_value field (Hash h) =
     (let removed = (hm_get h field \<noteq> None); h' = hm_remove field h
      in (if removed \<and> h' = [] then Delete (Inr removed) else Keep (Inr removed), Hash h'))"
| "hdel_value field v = (Keep (Inl WrongType), v)"

definition hdel :: "env \<Rightarrow> bytes \<Rightarrow> bytes \<Rightarrow> store \<Rightarrow> (store_error + bool) \<times> store" where
  "hdel E key field st = apfst (or_ok False)
     (on_engine (update_if_exists_with_action E key (hdel_value field)) st)"

definition hkeys :: "env \<Rightarrow> bytes \<Rightarrow> store \<Rightarrow> (store_error + bytes list) \<times> store" where
  "hkeys E key st = apfst (map_sum id (map fst)) (hgetall E key st)"

definition hvals :: "env \<Rightarrow> bytes \<Rightarrow> store \<Rightarrow> (store_error + bytes list) \<times> store" where
  "hvals E key st = apfst (map_sum id (map snd)) (hgetall E key st)"

section \<open>Set operations\<close>

fun sadd_value :: "bytes \<Rightarrow> onyx_value \<Rightarrow> (store_error + bool) \<times> onyx_value" where
  "sadd_value member (Set s) = (Inr (member \<notin> set s), Set (if member \<in> set s then s else s @ [member]))"
| "sadd_value member v = (Inl WrongType, v)"

definition sadd :: "env \<Rightarrow> bytes \<Rightarrow> bytes \<Rightarrow> store \<Rightarrow> (store_error + bool) \<times> store" where
  "sadd E key member = on_engine (update_or_insert E key (Set []) (sadd_value member))"

fun smembers_value :: "onyx_value \<Rightarrow> store_error + bytes list" where
  "smembers_value (Set s) = Inr (map from_utf8_lossy s)"
| "smembers_value v = Inl WrongType"

definition smembers :: "env \<Rightarrow> bytes \<Rightarrow> store \<Rightarrow> (store_error + bytes list) \<times> store" where
  "smembers E key st = apfst (or_ok [])
     (on_engine (engine_read E key (\<lambda>entry. smembers_value (entry_value entry))) st)"

fun srem_value :: "bytes \<Rightarrow> onyx_value \<Rightarrow> (store_error + bool) entry_mutation \<times> onyx_value" where
  "srem_value member (Set s) =
     (let removed = (member \<in> set s); s' = filter (\<lambda>x. x \<noteq> member) s
      in (if removed \<and> s' = [] then Delete (Inr removed) else Keep (Inr removed), Set s'))"
| "srem_value member v = (Keep (Inl WrongType), v)"

definition srem :: "env \<Rightarrow> bytes \<Rightarrow> bytes \<Rightarrow> store \<Rightarrow> (store_error + bool) \<times> store" where
  "srem E key member st = apfst (or_ok False)
     (on_engine (update_if_exists_with_action E key (srem_value member)) st)"

fun sismember_value :: "bytes \<Rightarrow> onyx_value \<Rightarrow> store_error + bool" where
  "sismember_value member (Set s) = Inr (member \<in> set s)"
| "sismember_value member v = Inl WrongType"

definition sismember :: "env \<Rightarrow> bytes \<Rightarrow> bytes \<Rightarrow> store \<Rightarrow> (store_error + bool) \<times> store" where
  "sismember E key member st = apfst (or_ok False)
     (on_engine (engine_read E key (\<lambda>entry. sismember_value member (entry_value entry))) st)"

section \<open>JSON operations\<close>

definition invalid_path :: bytes where
  "invalid_path = ''ERR invalid JSON path''"

definition missing_document :: bytes where
  "missing_document = ''ERR key does not exist: use JSON.SET key $ {...} to create it''"

definition unreachable_path :: bytes where
  "unreachable_path = ''ERR path not reachable (intermediate element missing or index out of bounds)''"

fun json_set_root :: "json \<Rightarrow> onyx_value \<Rightarrow> bool \<Rightarrow> (bytes + unit) \<times> onyx_value" where
  "json_set_root new_value (Json root) existed = (Inr (), Json new_value)"
| "json_set_root new_value v existed = (Inl wrong_type_message, v)"

text \<open>A closure that answers \<open>None\<close> on a value that is not a document.\<close>

fun on_document :: "(json \<Rightarrow> 'r \<times> json) \<Rightarrow> onyx_value \<Rightarrow> 'r option \<times> onyx_value" where
  "on_document f (Json root) = (case f root of (r, root') \<Rightarrow> (Some r, Json root'))"
| "on_document f v = (None, v)"

definition json_set :: "env \<Rightarrow> bytes \<Rightarrow> bytes \<Rightarrow> json \<Rightarrow> store \<Rightarrow> (bytes + unit) \<times> store" where
  "json_set E key path new_value st = (case parse_json_path path of
      None \<Rightarrow> (Inl invalid_path, st)
    | Some segments \<Rightarrow>
        if segments = []
        then on_engine (update_or_insert_with_presence E key (Json JNull) (json_set_root new_value)) st
        else apfst (\<lambda>result. case result of
              Some (Some True) \<Rightarrow> Inr ()
            | Some (Some False) \<Rightarrow> Inl unreachable_path
            | Some None \<Rightarrow> Inl wrong_type_message
            | None \<Rightarrow> Inl missing_document)
          (on_engine (update_if_exists E key (on_document (\<lambda>root. set_json_path root segments new_value))) st))"

text \<open>A closure that reads a node of a document.\<close>

fun read_document :: "(json \<Rightarrow> 'r) \<Rightarrow> onyx_value \<Rightarrow> bytes + 'r" where
  "read_document f (Json root) = Inr (f root)"
| "read_document f v = Inl wrong_type_message"

definition json_read :: "env \<Rightarrow> bytes \<Rightarrow> bytes \<Rightarrow> (json option \<Rightarrow> 'r option) \<Rightarrow> store \<Rightarrow> (bytes + 'r option) \<times> store"
where
  "json_read E key path f st = (case parse_json_path path of
      None \<Rightarrow> (Inl invalid_path, st)
    | Some segments \<Rightarrow> apfst (or_ok None)
        (on_engine (engine_read E key (\<lambda>entry. read_document (\<lambda>root.
           f (if segments = [] then Some root else get_json_path root segments)) (entry_value entry))) st))"

definition json_get :: "env \<Rightarrow> bytes \<Rightarrow> bytes \<Rightarrow> store \<Rightarrow> (bytes + bytes option) \<times> store" where
  "json_get E key path = json_read E key path (map_option (json_text E))"

fun json_del_root :: "onyx_value \<Rightarrow> (bytes + bool) entry_mutation \<times> onyx_value" where
  "json_del_root (Json root) = (Delete (Inr True), Json root)"
| "json_del_root v = (Keep (Inl wrong_type_message), v)"

definition json_del :: "env \<Rightarrow> bytes \<Rightarrow> bytes \<Rightarrow> store \<Rightarrow> (bytes + bool) \<times> store" where
  "json_del E key path st = (case parse_json_path path of
      None \<Rightarrow> (Inl invalid_path, st)
    | Some segments \<Rightarrow>
        if segments = []
        then apfst (or_ok False) (on_engine (update_if_exists_with_action E key json_del_root) st)
        else apfst (\<lambda>result. case result of
              Some (Some deleted) \<Rightarrow> Inr deleted
            | Some None \<Rightarrow> Inl wrong_type_message
            | None \<Rightarrow> Inr False)
          (on_engine (update_if_exists E key (on_document (\<lambda>root. delete_json_path root segments))) st))"

fun json_type_name :: "json \<Rightarrow> bytes" where
  "json_type_name JNull = ''null''"
| "json_type_name (JBool _) = ''boolean''"
| "json_type_name (JNumber _) = ''number''"
| "json_type_name (JString _) = ''string''"
| "json_type_name (JArray _) = ''array''"
| "json_type_name (JObject _) = ''object''"

definition json_type :: "env \<Rightarrow> bytes \<Rightarrow> bytes \<Rightarrow> store \<Rightarrow> (bytes + bytes option) \<times> store" where
  "json_type E key path = json_read E key path (map_option json_type_name)"

definition json_arrappend :: "env \<Rightarrow> bytes \<Rightarrow> bytes \<Rightarrow> json \<Rightarrow> store \<Rightarrow> (bytes + nat) \<times> store" where
  "json_arrappend E key path new_value st = (case parse_json_path path of
      None \<Rightarrow> (Inl invalid_path, st)
    | Some segments \<Rightarrow> apfst (\<lambda>result. case result of
              Some (Some r) \<Rightarrow> r
            | Some None \<Rightarrow> Inl wrong_type_message
            | None \<Rightarrow> Inl missing_document)
          (on_engine (update_if_exists E key
             (on_document (\<lambda>root. arrappend_json_path root segments new_value))) st))"

fun as_array_len :: "json \<Rightarrow> nat option" where
  "as_array_len (JArray a) = Some (length a)"
| "as_array_len _ = None"

fun as_object_keys :: "json \<Rightarrow> bytes list option" where
  "as_object_keys (JObject m) = Some (map fst m)"
| "as_object_keys _ = None"

definition json_arrlen :: "env \<Rightarrow> bytes \<Rightarrow> bytes \<Rightarrow> store \<Rightarrow> (bytes + nat option) \<times> store" where
  "json_arrlen E key path = json_read E key path (\<lambda>node. Option.bind node as_array_len)"

definition json_objkeys :: "env \<Rightarrow> bytes \<Rightarrow> bytes \<Rightarrow> store \<Rightarrow> (bytes + bytes list option) \<times> store" where
  "json_objkeys E key path = json_read E key path (\<lambda>node. Option.bind node as_object_keys)"

section \<open>Key operations\<close>

definition store_rename :: "env \<Rightarrow> bytes \<Rightarrow> bytes \<Rightarrow> store \<Rightarrow> bool \<times> store" where
  "store_rename E old_key new_key = on_engine (rename E old_key new_key)"

definition store_copy :: "env \<Rightarrow> bytes \<Rightarrow> bytes \<Rightarrow> store \<Rightarrow> bool \<times> store" where
  "store_copy E src dst = on_engine (copy E src dst)"

fun value_type_name :: "onyx_value \<Rightarrow> bytes" where
  "value_type_name (Blob _) = ''string''"
| "value_type_name (IntV _) = ''int''"
| "value_type_name (Float _) = ''float''"
| "value_type_name (List _) = ''list''"
| "value_type_name (Hash _) = ''hash''"
| "value_type_name (Set _) = ''set''"
| "value_type_name (Json _) = ''json''"
| "value_type_name (Vector _) = ''vector''"

definition value_type :: "env \<Rightarrow> bytes \<Rightarrow> store \<Rightarrow> bytes option \<times> store" where
  "value_type E key = on_engine (engine_read E key (\<lambda>entry. value_type_name (entry_value entry)))"

definition store_all_keys :: "env \<Rightarrow> store \<Rightarrow> bytes list \<times> store" where
  "store_all_keys E st = apfst (map from_utf8_lossy) (on_engine (all_keys E) st)"

text \<open>
  The matching loop of \<open>glob_match\<close>: the remaining pattern and text stand for \<open>p_idx\<close> and
  \<open>t_idx\<close>; the backtracking point holds the pattern after the last star and the text from
  \<open>match_idx\<close>. \<open>None\<close> means that the fuel ran out, which \<open>glob_fuel\<close> excludes.
\<close>

definition star :: rchar where
  "star = ''*''"

fun glob_loop :: "nat \<Rightarrow> rchar list \<Rightarrow> rchar list \<Rightarrow> (rchar list \<times> rchar list) option \<Rightarrow> bool option" where
  "glob_loop 0 p t back = None"
| "glob_loop (Suc fuel) p t back = (case t of
      [] \<Rightarrow> Some (dropWhile (\<lambda>c. c = star) p = [])
    | c # t' \<Rightarrow>
        if p \<noteq> [] \<and> hd p = c then glob_loop fuel (tl p) t' back
        else if p \<noteq> [] \<and> hd p = star then glob_loop fuel (tl p) t (Some (tl p, t))
        else (case back of
            Some (ps, ts) \<Rightarrow> glob_loop fuel ps (tl ts) (Some (ps, tl ts))
          | None \<Rightarrow> Some False))"

definition glob_fuel :: "nat \<Rightarrow> nat \<Rightarrow> nat" where
  "glob_fuel p t = (p + 2) * (t + 1) * (t + 1) + t + 1"

definition glob_match :: "bytes \<Rightarrow> bytes \<Rightarrow> bool" where
  "glob_match pattern text =
     (let p = utf8_chars pattern; t = utf8_chars text
      in glob_loop (glob_fuel (length p) (length t)) p t None = Some True)"

definition keys_matching :: "env \<Rightarrow> bytes \<Rightarrow> store \<Rightarrow> bytes list \<times> store" where
  "keys_matching E pattern st =
     (if pattern = ''*'' \<or> pattern = [] then store_all_keys E st
      else apfst (filter (glob_match pattern)) (store_all_keys E st))"

definition expire_conditional :: "env \<Rightarrow> bytes \<Rightarrow> u64 \<Rightarrow> bytes \<Rightarrow> store \<Rightarrow> bool \<times> store" where
  "expire_conditional E key seconds condition st =
     (if condition = ''NX''
      then on_engine (set_expiry_conditional E key (u64_saturating_add (now E) seconds) (Some False)) st
      else if condition = ''XX''
      then on_engine (set_expiry_conditional E key (u64_saturating_add (now E) seconds) (Some True)) st
      else (False, st))"

definition get_expiry :: "env \<Rightarrow> bytes \<Rightarrow> store \<Rightarrow> u64 option \<times> store" where
  "get_expiry E key st = apfst (\<lambda>r. Option.bind r id) (on_engine (engine_read E key expires_at) st)"

definition store_gc_expired :: "env \<Rightarrow> store \<Rightarrow> nat \<times> store" where
  "store_gc_expired E = on_engine (gc_expired E)"

end
