(* ===== verification/Glob.thy ===== *)
theory Glob
  imports Store
begin

text \<open>
  Correctness of the glob matcher of \<open>src/store.rs\<close> against a declarative specification: it
  terminates, everything it accepts matches, and on text without a star it accepts everything
  that matches.
\<close>

fun glob_spec :: "rchar list \<Rightarrow> rchar list \<Rightarrow> bool" where
  "glob_spec [] t = (t = [])"
| "glob_spec (c # p) [] = (c = star \<and> glob_spec p [])"
| "glob_spec (c # p) (x # t) =
     (if c = star then glob_spec p (x # t) \<or> glob_spec (c # p) t else c = x \<and> glob_spec p t)"

lemma glob_spec_star: "glob_spec (star # p) t \<longleftrightarrow> (\<exists>k. glob_spec p (drop k t))"
proof (induction t)
  case (Cons x t)
  have "(\<exists>k. glob_spec p (drop k (x # t))) \<longleftrightarrow> glob_spec p (x # t) \<or> (\<exists>k. glob_spec p (drop k t))"
    by (metis drop0 drop_Suc_Cons not0_implies_Suc)
  with Cons show ?case by simp
qed simp

lemma glob_spec_literals:
  "star \<notin> set lits \<Longrightarrow> glob_spec (lits @ p) s \<longleftrightarrow> (\<exists>s'. s = lits @ s' \<and> glob_spec p s')"
proof (induction lits arbitrary: s)
  case (Cons c lits)
  then show ?case by (cases s) auto
qed simp

lemma glob_spec_empty: "glob_spec p [] \<longleftrightarrow> dropWhile (\<lambda>c. c = star) p = []"
  by (induction p) auto

lemma glob_spec_step: "glob_spec p t \<Longrightarrow> glob_spec (c # p) (c # t)"
  by (cases "c = star") (use glob_spec_star [of p "c # t"] in \<open>auto intro: exI [of _ 1]\<close>)

subsection \<open>Termination\<close>

definition glob_potential :: "nat \<Rightarrow> rchar list \<Rightarrow> rchar list \<Rightarrow> (rchar list \<times> rchar list) option \<Rightarrow> nat" where
  "glob_potential T p t bk = (case bk of
      None \<Rightarrow> (length p + 1) * ((T + 1) * (T + 1)) + length t
    | Some (ps, ts) \<Rightarrow> length ps * ((T + 1) * (T + 1)) + length ts * (T + 1) + length t)"

definition glob_bounded :: "nat \<Rightarrow> rchar list \<Rightarrow> rchar list \<Rightarrow> (rchar list \<times> rchar list) option \<Rightarrow> bool" where
  "glob_bounded T p t bk \<longleftrightarrow> length t \<le> T \<and>
     (\<forall>ps ts. bk = Some (ps, ts) \<longrightarrow> length p \<le> length ps \<and> length t \<le> length ts \<and> length ts \<le> T)"

lemma star_potential:
  fixes n m t T :: nat
  assumes "n < m" and "t \<le> T"
  shows "n * ((T + 1) * (T + 1)) + t * (T + 1) < m * ((T + 1) * (T + 1))"
proof -
  have "t * (T + 1) < (T + 1) * (T + 1)" using assms(2) by (intro mult_strict_right_mono) simp_all
  moreover have "Suc n * ((T + 1) * (T + 1)) \<le> m * ((T + 1) * (T + 1))"
    using assms(1) by (intro mult_right_mono) simp_all
  ultimately show ?thesis by simp
qed

lemma glob_loop_terminates:
  "glob_bounded T p t bk \<Longrightarrow> glob_potential T p t bk < fuel \<Longrightarrow> glob_loop fuel p t bk \<noteq> None"
proof (induction fuel arbitrary: p t bk)
  case (Suc fuel)
  show ?case
  proof (cases t)
    case (Cons c t')
    have len: "length t \<le> T" using Suc.prems(1) by (simp add: glob_bounded_def)
    consider (literal) "p \<noteq> [] \<and> hd p = c"
      | (wild) "\<not> (p \<noteq> [] \<and> hd p = c)" "p \<noteq> [] \<and> hd p = star"
      | (mismatch) "\<not> (p \<noteq> [] \<and> hd p = c)" "\<not> (p \<noteq> [] \<and> hd p = star)" by blast
    then show ?thesis
    proof cases
      case literal
      have "glob_bounded T (tl p) t' bk" "glob_potential T (tl p) t' bk < glob_potential T p t bk"
        using Suc.prems(1) Cons literal
        by (auto simp: glob_bounded_def glob_potential_def split: option.splits)
      with Suc literal Cons show ?thesis by simp
    next
      case wild
      have "glob_bounded T (tl p) t (Some (tl p, t))" using len by (simp add: glob_bounded_def)
      moreover have "glob_potential T (tl p) t (Some (tl p, t)) < glob_potential T p t bk"
      proof (cases bk)
        case None
        have "length (tl p) < length p + 1" by simp
        from star_potential [OF this len] None show ?thesis by (simp add: glob_potential_def)
      next
        case (Some b)
        obtain ps ts where b: "b = (ps, ts)" by (cases b)
        have "length (tl p) < length ps"
          using Suc.prems(1) wild(2) Some b by (cases p) (auto simp: glob_bounded_def)
        from star_potential [OF this len] Some b show ?thesis by (simp add: glob_potential_def)
      qed
      ultimately have "glob_loop fuel (tl p) t (Some (tl p, t)) \<noteq> None" using Suc by simp
      with wild Cons show ?thesis by auto
    next
      case mismatch
      show ?thesis
      proof (cases bk)
        case (Some b)
        obtain ps ts where b: "b = (ps, ts)" by (cases b)
        with Suc.prems(1) Some Cons obtain x ts' where ts: "ts = x # ts'" "length ts \<le> T"
          by (cases ts) (auto simp: glob_bounded_def)
        have "glob_bounded T ps ts' (Some (ps, ts'))" using ts by (simp add: glob_bounded_def)
        moreover have "glob_potential T ps ts' (Some (ps, ts')) < glob_potential T p t bk"
          using ts Some b by (simp add: glob_potential_def)
        ultimately have "glob_loop fuel ps ts' (Some (ps, ts')) \<noteq> None" using Suc by simp
        with mismatch Cons Some b ts show ?thesis by auto
      qed (use mismatch Cons in auto)
    qed
  qed simp
qed simp

lemma glob_match_defined:
  "glob_loop (glob_fuel (length p) (length t)) p t None \<noteq> None"
  by (rule glob_loop_terminates [of "length t"])
    (simp_all add: glob_bounded_def glob_potential_def glob_fuel_def algebra_simps)

subsection \<open>Soundness and completeness\<close>

lemma glob_loop_sound:
  assumes "glob_loop fuel p t bk = Some True" and "glob_spec p t \<Longrightarrow> R"
    and "\<And>ps ts k. bk = Some (ps, ts) \<Longrightarrow> glob_spec ps (drop k ts) \<Longrightarrow> R"
  shows R
  using assms
proof (induction fuel arbitrary: p t bk)
  case (Suc fuel)
  show ?case
  proof (cases t)
    case Nil
    with Suc.prems show ?thesis by (simp add: glob_spec_empty)
  next
    case (Cons c t')
    consider (literal) "p \<noteq> [] \<and> hd p = c"
      | (wild) "\<not> (p \<noteq> [] \<and> hd p = c)" "p \<noteq> [] \<and> hd p = star"
      | (mismatch) "\<not> (p \<noteq> [] \<and> hd p = c)" "\<not> (p \<noteq> [] \<and> hd p = star)" by blast
    then show ?thesis
    proof cases
      case literal
      with Suc.prems(1) Cons have run: "glob_loop fuel (tl p) t' bk = Some True" by simp
      have "glob_spec (tl p) t' \<Longrightarrow> R" using Suc.prems(2) literal Cons glob_spec_step [of "tl p" t' c] by (cases p) auto
      from Suc.IH [OF run this Suc.prems(3)] show ?thesis .
    next
      case wild
      with Suc.prems(1) Cons have run: "glob_loop fuel (tl p) t (Some (tl p, t)) = Some True" by auto
      have spec: "glob_spec (tl p) (drop k t) \<Longrightarrow> R" for k
        using Suc.prems(2) wild(2) glob_spec_star [of "tl p" t] by (cases p) auto
      show ?thesis by (rule Suc.IH [OF run]) (use spec [of 0] spec in auto)
    next
      case mismatch
      with Suc.prems(1) Cons obtain ps ts where bk: "bk = Some (ps, ts)"
        and run: "glob_loop fuel ps (tl ts) (Some (ps, tl ts)) = Some True"
        by (auto split: option.splits)
      have spec: "glob_spec ps (drop k (tl ts)) \<Longrightarrow> R" for k
        using Suc.prems(3) [OF bk, of "Suc k"] by (cases ts) auto
      show ?thesis by (rule Suc.IH [OF run]) (use spec [of 0] spec in auto)
    qed
  qed
qed simp

definition reached_by_literals ::
  "rchar list \<Rightarrow> rchar list \<Rightarrow> (rchar list \<times> rchar list) option \<Rightarrow> bool" where
  "reached_by_literals p t bk \<longleftrightarrow>
     (\<forall>ps ts. bk = Some (ps, ts) \<longrightarrow> (\<exists>lits. star \<notin> set lits \<and> ps = lits @ p \<and> ts = lits @ t))"

definition still_matches :: "rchar list \<Rightarrow> rchar list \<Rightarrow> (rchar list \<times> rchar list) option \<Rightarrow> bool" where
  "still_matches p t bk \<longleftrightarrow>
     glob_spec p t \<or> (\<exists>ps ts k. bk = Some (ps, ts) \<and> glob_spec ps (drop (Suc k) ts))"

lemma glob_loop_complete:
  "star \<notin> set t \<Longrightarrow> reached_by_literals p t bk \<Longrightarrow> still_matches p t bk \<Longrightarrow>
    glob_loop fuel p t bk \<noteq> Some False"
proof (induction fuel arbitrary: p t bk)
  case (Suc fuel)
  note lits = Suc.prems(2) [unfolded reached_by_literals_def, rule_format]
  have later: "\<exists>k. glob_spec p (drop (Suc k) t)" if "\<not> glob_spec p t"
  proof -
    from that Suc.prems(3) obtain ps ts k where b: "bk = Some (ps, ts)" "glob_spec ps (drop (Suc k) ts)"
      by (auto simp: still_matches_def)
    from lits [OF b(1)] obtain l where l: "star \<notin> set l" "ps = l @ p" "ts = l @ t" by blast
    from b(2) l glob_spec_literals [OF l(1)] obtain s' where s': "drop (Suc k) (l @ t) = l @ s'" "glob_spec p s'" by blast
    have "s' = drop (length l) (drop (Suc k) (l @ t))" using s'(1) by simp
    also have "\<dots> = drop (Suc k) (drop (length l) (l @ t))" by (simp only: drop_drop add.commute)
    also have "\<dots> = drop (Suc k) t" by simp
    finally show ?thesis using s'(2) by blast
  qed
  show ?case
  proof (cases t)
    case Nil
    with later have "glob_spec p t" by auto
    with Nil show ?thesis by (simp add: glob_spec_empty)
  next
    case (Cons c t')
    with Suc.prems(1) have c: "c \<noteq> star" "star \<notin> set t'" by auto
    consider (literal) "p \<noteq> [] \<and> hd p = c"
      | (wild) "\<not> (p \<noteq> [] \<and> hd p = c)" "p \<noteq> [] \<and> hd p = star"
      | (mismatch) "\<not> (p \<noteq> [] \<and> hd p = c)" "\<not> (p \<noteq> [] \<and> hd p = star)" by blast
    then show ?thesis
    proof cases
      case literal
      then obtain p' where p: "p = c # p'" by (cases p) auto
      have "reached_by_literals p' t' bk"
        unfolding reached_by_literals_def
      proof (intro allI impI)
        fix ps ts assume "bk = Some (ps, ts)"
        from lits [OF this] obtain l where "star \<notin> set l" "ps = l @ p" "ts = l @ t" by blast
        then show "\<exists>lits. star \<notin> set lits \<and> ps = lits @ p' \<and> ts = lits @ t'"
          using c p Cons by (intro exI [of _ "l @ [c]"]) auto
      qed
      moreover have "still_matches p' t' bk"
        using Suc.prems(3) c p Cons by (auto simp: still_matches_def)
      ultimately have "glob_loop fuel p' t' bk \<noteq> Some False" using Suc.IH c by blast
      with p Cons show ?thesis by simp
    next
      case wild
      then obtain p' where p: "p = star # p'" by (cases p) auto
      have "\<exists>k. glob_spec p' (drop k t)"
      proof (cases "glob_spec p t")
        case True
        with p glob_spec_star show ?thesis by blast
      next
        case False
        with later p obtain k where "glob_spec (star # p') (drop (Suc k) t)" by blast
        then show ?thesis unfolding glob_spec_star by (auto simp: drop_drop)
      qed
      then obtain k where k: "glob_spec p' (drop k t)" by blast
      then have "still_matches p' t (Some (p', t))"
        by (cases k) (auto simp: still_matches_def simp del: drop.simps)
      moreover have "reached_by_literals p' t (Some (p', t))" by (simp add: reached_by_literals_def)
      ultimately have "glob_loop fuel p' t (Some (p', t)) \<noteq> Some False" using Suc.IH Suc.prems(1) by blast
      with wild p Cons show ?thesis by auto
    next
      case mismatch
      have "\<not> glob_spec p t" using mismatch Cons by (cases p) auto
      with Suc.prems(3) obtain ps ts k where b: "bk = Some (ps, ts)" "glob_spec ps (drop (Suc k) ts)"
        by (auto simp: still_matches_def)
      have "star \<notin> set (tl ts)"
      proof -
        from lits [OF b(1)] Suc.prems(1) have "star \<notin> set ts" by auto
        then show ?thesis by (cases ts) auto
      qed
      moreover have "drop (Suc k) ts = drop k (tl ts)" by (simp add: drop_Suc)
      with b have "still_matches ps (tl ts) (Some (ps, tl ts))"
        by (cases k) (auto simp: still_matches_def simp del: drop.simps)
      moreover have "reached_by_literals ps (tl ts) (Some (ps, tl ts))" by (simp add: reached_by_literals_def)
      ultimately have "glob_loop fuel ps (tl ts) (Some (ps, tl ts)) \<noteq> Some False" using Suc.IH by blast
      with mismatch b Cons show ?thesis by auto
    qed
  qed
qed simp

section \<open>Properties\<close>




end
