(* ===== verification/Codec.thy ===== *)
theory Codec
  imports Values Rust_Std
begin

text \<open>
  \<open>src/persistence/codec.rs\<close> and the data of \<open>src/persistence/model.rs\<close>: the big-endian
  primitives, snapshot entries, committed batches and checksummed binlog records. A decoder that
  advances an offset into a record is a function from the bytes from that offset on to the value
  read and the bytes after it; an encoder returns the bytes it appends.
\<close>

section \<open>Results\<close>

record persistence_error =
  message :: bytes
  upstream_unavailable :: bool
  indeterminate :: bool

definition persistence_error_new :: "bytes \<Rightarrow> persistence_error" where
  "persistence_error_new msg = \<lparr>message = msg, upstream_unavailable = False, indeterminate = False\<rparr>"

type_synonym 'a presult = "persistence_error + 'a"

abbreviation fail :: "bytes \<Rightarrow> 'a presult" where
  "fail msg \<equiv> Inl (persistence_error_new msg)"

text \<open>The question mark operator, and \<open>ok_or_else\<close> on a decoding primitive.\<close>

definition and_then :: "'e + 'a \<Rightarrow> ('a \<Rightarrow> 'e + 'b) \<Rightarrow> 'e + 'b" where
  "and_then r f = (case r of Inl err \<Rightarrow> Inl err | Inr a \<Rightarrow> f a)"

definition ok_or :: "bytes \<Rightarrow> 'a option \<Rightarrow> 'a presult" where
  "ok_or msg r = (case r of None \<Rightarrow> fail msg | Some a \<Rightarrow> Inr a)"

lemma and_then_simps [simp]: "and_then (Inl err) f = Inl err" "and_then (Inr a) f = f a"
  by (simp_all add: and_then_def)

lemma ok_or_simps [simp]: "ok_or msg None = fail msg" "ok_or msg (Some a) = Inr a"
  by (simp_all add: ok_or_def)

lemma and_then_Inr: "and_then r f = Inr b \<longleftrightarrow> (\<exists>a. r = Inr a \<and> f a = Inr b)"
  by (cases r) simp_all

lemma ok_or_Inr: "ok_or msg r = Inr a \<longleftrightarrow> r = Some a"
  by (cases r) simp_all

section \<open>Codecs\<close>

text \<open>
  The contract of an encoder and its decoder: on a valid value the decoder reads back the value
  and stops exactly where the encoding ends.
\<close>

locale codec =
  fixes enc :: "'a \<Rightarrow> bytes" and dec :: "bytes \<Rightarrow> ('a \<times> bytes) option" and valid :: "'a \<Rightarrow> bool"
  assumes dec_enc: "valid a \<Longrightarrow> dec (enc a @ rest) = Some (a, rest)"
begin

lemma enc_inj: "valid a \<Longrightarrow> valid b \<Longrightarrow> enc a @ r = enc b @ s \<Longrightarrow> a = b \<and> r = s"
  by (metis dec_enc option.inject prod.inject)

lemma dec_exact: "valid a \<Longrightarrow> dec (enc a) = Some (a, [])"
  using dec_enc [of a "[]"] by simp

end

section \<open>Big-endian integers\<close>

definition write_u32_be :: "u32 \<Rightarrow> bytes" where
  "write_u32_be v = [byte_of (drop_bit 24 v), byte_of (drop_bit 16 v), byte_of (drop_bit 8 v), byte_of v]"

definition write_u64_be :: "u64 \<Rightarrow> bytes" where
  "write_u64_be v = [byte_of (drop_bit 56 v), byte_of (drop_bit 48 v), byte_of (drop_bit 40 v),
     byte_of (drop_bit 32 v), byte_of (drop_bit 24 v), byte_of (drop_bit 16 v), byte_of (drop_bit 8 v), byte_of v]"

fun read_u32_be :: "bytes \<Rightarrow> (u32 \<times> bytes) option" where
  "read_u32_be (b0 # b1 # b2 # b3 # rest) =
     Some (push_bit 24 (word_of_byte b0) OR push_bit 16 (word_of_byte b1) OR
           push_bit 8 (word_of_byte b2) OR word_of_byte b3, rest)"
| "read_u32_be _ = None"

fun read_u64_be :: "bytes \<Rightarrow> (u64 \<times> bytes) option" where
  "read_u64_be (b0 # b1 # b2 # b3 # b4 # b5 # b6 # b7 # rest) =
     Some (push_bit 56 (word_of_byte b0) OR push_bit 48 (word_of_byte b1) OR
           push_bit 40 (word_of_byte b2) OR push_bit 32 (word_of_byte b3) OR
           push_bit 24 (word_of_byte b4) OR push_bit 16 (word_of_byte b5) OR
           push_bit 8 (word_of_byte b6) OR word_of_byte b7, rest)"
| "read_u64_be _ = None"

lemma word_of_byte_of: "word_of_byte (byte_of w) = take_bit 8 (w :: 'a::len word)"
proof -
  have "(of_char (char_of (unat w)) :: nat) = take_bit 8 (unat w)" by (simp add: take_bit_eq_mod)
  then show ?thesis by (simp add: word_of_byte_def byte_of_def flip: unsigned_take_bit_eq)
qed

lemma bit_word_of_byte: "bit (word_of_byte (byte_of (w :: 'a::len word)) :: 'a word) n \<longleftrightarrow> n < 8 \<and> bit w n"
  by (simp add: word_of_byte_of bit_simps)

lemma u32_bytes:
  fixes w :: u32
  shows "read_u32_be (write_u32_be w @ rest) = Some (w, rest)"
proof -
  let ?b = "\<lambda>k. word_of_byte (byte_of (drop_bit k w)) :: u32"
  have "push_bit 24 (?b 24) OR push_bit 16 (?b 16) OR push_bit 8 (?b 8) OR ?b 0 = w"
  proof (rule bit_eqI)
    fix n :: nat assume "possible_bit TYPE(u32) n"
    then have n: "n < 32" by simp
    then consider "n < 8" | "8 \<le> n" "n < 16" | "16 \<le> n" "n < 24" | "24 \<le> n" by linarith
    then show "bit (push_bit 24 (?b 24) OR push_bit 16 (?b 16) OR push_bit 8 (?b 8) OR ?b 0) n = bit w n"
      using n by cases (simp_all add: bit_or_iff bit_push_bit_iff bit_word_of_byte bit_drop_bit_eq less_diff_conv2)
  qed
  then show ?thesis by (simp add: write_u32_be_def)
qed

lemma u64_bytes:
  fixes w :: u64
  shows "read_u64_be (write_u64_be w @ rest) = Some (w, rest)"
proof -
  let ?b = "\<lambda>k. word_of_byte (byte_of (drop_bit k w)) :: u64"
  let ?r = "push_bit 56 (?b 56) OR push_bit 48 (?b 48) OR push_bit 40 (?b 40) OR push_bit 32 (?b 32) OR
    push_bit 24 (?b 24) OR push_bit 16 (?b 16) OR push_bit 8 (?b 8) OR ?b 0"
  have "?r = w"
  proof (rule bit_eqI)
    fix n :: nat assume "possible_bit TYPE(u64) n"
    then have n: "n < 64" by simp
    then consider "n < 8" | "8 \<le> n" "n < 16" | "16 \<le> n" "n < 24" | "24 \<le> n" "n < 32" | "32 \<le> n" "n < 40"
      | "40 \<le> n" "n < 48" | "48 \<le> n" "n < 56" | "56 \<le> n" by linarith
    then show "bit ?r n = bit w n"
      using n by cases (simp_all add: bit_or_iff bit_push_bit_iff bit_word_of_byte bit_drop_bit_eq less_diff_conv2)
  qed
  then show ?thesis by (simp add: write_u64_be_def)
qed

interpretation u32: codec write_u32_be read_u32_be "\<lambda>_. True"
  by unfold_locales (rule u32_bytes)

interpretation u64: codec write_u64_be read_u64_be "\<lambda>_. True"
  by unfold_locales (rule u64_bytes)

lemma write_length [simp]: "length (write_u32_be w) = 4" "length (write_u64_be v) = 8"
  by (simp_all add: write_u32_be_def write_u64_be_def)

text \<open>Reading is exact in the other direction too: what was read is what would be written.\<close>

lemma byte_of_bits:
  assumes "8 \<le> LENGTH('a::len)" and "\<And>n. n < 8 \<Longrightarrow> bit w n = bit (word_of_byte b :: 'a word) n"
  shows "byte_of (w :: 'a word) = b"
proof -
  have "take_bit 8 w = take_bit 8 (word_of_byte b)"
    using assms(2) by (intro bit_eqI) (auto simp: bit_simps)
  then have "word_of_byte (byte_of w) = (word_of_byte (byte_of (word_of_byte b :: 'a word)) :: 'a word)"
    by (simp only: word_of_byte_of)
  then have "byte_of (word_of_byte (byte_of w) :: 'a word) = b"
    using assms(1) by simp
  with assms(1) show ?thesis by simp
qed

lemma bit_byte: "bit (word_of_byte b :: 'a::len word) n \<Longrightarrow> n < 8"
proof -
  assume "bit (word_of_byte b :: 'a word) n"
  then have "bit (of_char b :: nat) n" by (auto simp: word_of_byte_def bit_simps)
  moreover have "(of_char b :: nat) = take_bit 8 (of_char b)" by (simp add: take_bit_eq_mod)
  ultimately have "bit (take_bit 8 (of_char b :: nat)) n" by simp
  then show "n < 8" by (simp add: bit_simps)
qed

lemma u32_write_read: "read_u32_be bs = Some (w, rest) \<Longrightarrow> bs = write_u32_be w @ rest"
proof (induction bs rule: read_u32_be.induct)
  case (1 b0 b1 b2 b3 rest')
  then have w: "w = push_bit 24 (word_of_byte b0) OR push_bit 16 (word_of_byte b1) OR
      push_bit 8 (word_of_byte b2) OR word_of_byte b3" and "rest' = rest" by simp_all
  note bits = bit_or_iff bit_push_bit_iff bit_drop_bit_eq w
  have "byte_of (drop_bit 24 w) = b0" "byte_of (drop_bit 16 w) = b1" "byte_of (drop_bit 8 w) = b2" "byte_of w = b3"
    by (rule byte_of_bits; auto simp: bits dest: bit_byte)+
  with \<open>rest' = rest\<close> show ?case by (simp add: write_u32_be_def)
qed simp_all

lemma u64_write_read: "read_u64_be bs = Some (w, rest) \<Longrightarrow> bs = write_u64_be w @ rest"
proof (induction bs rule: read_u64_be.induct)
  case (1 b0 b1 b2 b3 b4 b5 b6 b7 rest')
  then have w: "w = push_bit 56 (word_of_byte b0) OR push_bit 48 (word_of_byte b1) OR
      push_bit 40 (word_of_byte b2) OR push_bit 32 (word_of_byte b3) OR
      push_bit 24 (word_of_byte b4) OR push_bit 16 (word_of_byte b5) OR
      push_bit 8 (word_of_byte b6) OR word_of_byte b7" and "rest' = rest" by simp_all
  note bits = bit_or_iff bit_push_bit_iff bit_drop_bit_eq w
  have "byte_of (drop_bit 56 w) = b0" "byte_of (drop_bit 48 w) = b1" "byte_of (drop_bit 40 w) = b2"
    "byte_of (drop_bit 32 w) = b3" "byte_of (drop_bit 24 w) = b4" "byte_of (drop_bit 16 w) = b5"
    "byte_of (drop_bit 8 w) = b6" "byte_of w = b7"
    by (rule byte_of_bits; auto simp: bits dest: bit_byte)+
  with \<open>rest' = rest\<close> show ?case by (simp add: write_u64_be_def)
qed simp_all

section \<open>Length-prefixed bytes\<close>

definition MAX_BINLOG_RECORD_SIZE :: nat where
  "MAX_BINLOG_RECORD_SIZE = 512 * 1024 * 1024 + 1024"

definition MAX_SNAPSHOT_RECORD_SIZE :: nat where
  "MAX_SNAPSHOT_RECORD_SIZE = 512 * 1024 * 1024 + 1024"

definition u32_try_from :: "nat \<Rightarrow> u32 option" where
  "u32_try_from n = (if n < 2 ^ 32 then Some (word_of_nat n) else None)"

definition checked_u32_length :: "nat \<Rightarrow> bytes \<Rightarrow> u32 presult" where
  "checked_u32_length len description = ok_or (description @ '' exceeds the format limit'') (u32_try_from len)"

definition append_snapshot_bytes :: "bytes \<Rightarrow> bytes presult" where
  "append_snapshot_bytes bs = and_then (checked_u32_length (length bs) ''Snapshot value'')
     (\<lambda>len. Inr (write_u32_be len @ bs))"

definition safe_slice :: "nat \<Rightarrow> bytes \<Rightarrow> (bytes \<times> bytes) option" where
  "safe_slice len bs = (if len \<le> length bs then Some (take len bs, drop len bs) else None)"

definition read_snapshot_bytes :: "bytes \<Rightarrow> (bytes \<times> bytes) option" where
  "read_snapshot_bytes bs = Option.bind (read_u32_be bs) (\<lambda>(len, rest). safe_slice (unat len) rest)"

definition frame :: "bytes \<Rightarrow> bytes" where
  "frame bs = write_u32_be (word_of_nat (length bs)) @ bs"

lemma append_snapshot_bytes_Inr: "append_snapshot_bytes bs = Inr out \<longleftrightarrow> length bs < 2 ^ 32 \<and> out = frame bs"
  by (auto simp: append_snapshot_bytes_def checked_u32_length_def u32_try_from_def frame_def)

lemma read_frame:
  assumes "length bs < 2 ^ 32"
  shows "read_snapshot_bytes (frame bs @ rest) = Some (bs, rest)"
proof -
  have "unat (word_of_nat (length bs) :: u32) = length bs"
    using assms by (simp add: unsigned_of_nat take_bit_nat_eq_self)
  then show ?thesis by (simp add: read_snapshot_bytes_def frame_def u32_bytes safe_slice_def)
qed

interpretation framed: codec frame read_snapshot_bytes "\<lambda>bs. length bs < 2 ^ 32"
  by unfold_locales (rule read_frame)

lemma frame_length: "length (frame bs) = 4 + length bs"
  by (simp add: frame_def)

section \<open>Snapshot entries\<close>

fun encode_all :: "('a \<Rightarrow> bytes presult) \<Rightarrow> 'a list \<Rightarrow> bytes presult" where
  "encode_all f [] = Inr []"
| "encode_all f (x # xs) = and_then (f x) (\<lambda>b. and_then (encode_all f xs) (\<lambda>bs. Inr (b @ bs)))"

definition encode_counted :: "bytes \<Rightarrow> ('a \<Rightarrow> bytes presult) \<Rightarrow> 'a list \<Rightarrow> bytes presult" where
  "encode_counted msg f xs = and_then (ok_or msg (u32_try_from (length xs)))
     (\<lambda>count. and_then (encode_all f xs) (\<lambda>bs. Inr (write_u32_be count @ bs)))"

definition tag :: "nat \<Rightarrow> bytes" where
  "tag n = [char_of n]"

fun encode_value :: "env \<Rightarrow> onyx_value \<Rightarrow> bytes presult" where
  "encode_value E (Blob v) = and_then (append_snapshot_bytes v) (\<lambda>b. Inr (tag 1 @ b))"
| "encode_value E (IntV v) = Inr (tag 2 @ write_u64_be v)"
| "encode_value E (Float v) = Inr (tag 3 @ write_u64_be v)"
| "encode_value E (List vs) = and_then (encode_counted ''Snapshot list is too large'' append_snapshot_bytes vs)
     (\<lambda>b. Inr (tag 4 @ b))"
| "encode_value E (Hash vs) = and_then (encode_counted ''Snapshot hash is too large''
       (\<lambda>(field, v). and_then (append_snapshot_bytes field) (\<lambda>f. and_then (append_snapshot_bytes v) (\<lambda>b. Inr (f @ b)))) vs)
     (\<lambda>b. Inr (tag 5 @ b))"
| "encode_value E (Set vs) = and_then (encode_counted ''Snapshot set is too large'' append_snapshot_bytes vs)
     (\<lambda>b. Inr (tag 6 @ b))"
| "encode_value E (Json j) = and_then (append_snapshot_bytes (json_text E j)) (\<lambda>b. Inr (tag 7 @ b))"
| "encode_value E (Vector vs) = and_then (encode_counted ''Snapshot vector is too large'' (\<lambda>v. Inr (write_u32_be v)) vs)
     (\<lambda>b. Inr (tag 8 @ b))"

definition encode_snapshot_entry :: "env \<Rightarrow> bytes \<Rightarrow> data_entry \<Rightarrow> bytes presult" where
  "encode_snapshot_entry E key entry =
     and_then (append_snapshot_bytes key) (\<lambda>k.
     and_then (encode_value E (entry_value entry)) (\<lambda>v.
       let record = k @ write_u64_be (case expires_at entry of None \<Rightarrow> 0 | Some exp \<Rightarrow> exp) @ v
       in if MAX_SNAPSHOT_RECORD_SIZE < length record then fail ''Snapshot entry exceeds the format limit''
          else Inr record))"

fun read_items :: "nat \<Rightarrow> bytes \<Rightarrow> (bytes list \<times> bytes) presult" where
  "read_items 0 bs = Inr ([], bs)"
| "read_items (Suc n) bs = and_then (ok_or ''Invalid snapshot collection value'' (read_snapshot_bytes bs))
     (\<lambda>(v, rest). and_then (read_items n rest) (\<lambda>(vs, rest'). Inr (v # vs, rest')))"

definition read_values :: "bytes \<Rightarrow> (bytes list \<times> bytes) presult" where
  "read_values bs = and_then (ok_or ''Invalid snapshot collection count'' (read_u32_be bs))
     (\<lambda>(count, rest). if length rest div 4 < unat count
        then fail ''Snapshot collection count exceeds the record bounds'' else read_items (unat count) rest)"

fun read_fields :: "nat \<Rightarrow> (bytes, bytes) hmap \<Rightarrow> bytes \<Rightarrow> ((bytes, bytes) hmap \<times> bytes) presult" where
  "read_fields 0 m bs = Inr (m, bs)"
| "read_fields (Suc n) m bs = and_then (ok_or ''Invalid snapshot hash field'' (read_snapshot_bytes bs))
     (\<lambda>(field, rest). and_then (ok_or ''Invalid snapshot hash value'' (read_snapshot_bytes rest))
       (\<lambda>(v, rest'). read_fields n (hm_insert field v m) rest'))"

fun words_of_chunks :: "bytes \<Rightarrow> u32 list" where
  "words_of_chunks (b0 # b1 # b2 # b3 # rest) =
     (push_bit 24 (word_of_byte b0) OR push_bit 16 (word_of_byte b1) OR
      push_bit 8 (word_of_byte b2) OR word_of_byte b3) # words_of_chunks rest"
| "words_of_chunks _ = []"

definition hs_collect :: "'a list \<Rightarrow> 'a list" where
  "hs_collect xs = fold (\<lambda>x s. if x \<in> set s then s else s @ [x]) xs []"

definition decode_value :: "env \<Rightarrow> byte \<Rightarrow> bytes \<Rightarrow> (onyx_value \<times> bytes) presult" where
  "decode_value E value_type bs = (let t = (of_char value_type :: nat) in
     if t = 1 then and_then (ok_or ''Invalid snapshot blob'' (read_snapshot_bytes bs)) (\<lambda>(b, r). Inr (Blob b, r))
     else if t = 2 then and_then (ok_or ''Invalid snapshot integer'' (read_u64_be bs)) (\<lambda>(n, r). Inr (IntV n, r))
     else if t = 3 then and_then (ok_or ''Invalid snapshot float'' (read_u64_be bs)) (\<lambda>(n, r). Inr (Float n, r))
     else if t = 4 then and_then (read_values bs) (\<lambda>(vs, r). Inr (List vs, r))
     else if t = 5 then and_then (ok_or ''Invalid snapshot hash count'' (read_u32_be bs))
       (\<lambda>(count, rest). if length rest div 8 < unat count then fail ''Snapshot hash count exceeds the record bounds''
          else and_then (read_fields (unat count) [] rest) (\<lambda>(m, r). Inr (Hash m, r)))
     else if t = 6 then and_then (read_values bs) (\<lambda>(vs, r). Inr (Set (hs_collect vs), r))
     else if t = 7 then and_then (ok_or ''Invalid snapshot JSON value'' (read_snapshot_bytes bs))
       (\<lambda>(b, r). case json_parse E b of
          Inl err \<Rightarrow> fail err
        | Inr j \<Rightarrow> Inr (Json j, r))
     else if t = 8 then and_then (ok_or ''Invalid snapshot vector count'' (read_u32_be bs))
       (\<lambda>(count, rest). and_then (ok_or ''Snapshot vector length overflow'' (checked_mul (unat count) 4))
         (\<lambda>byte_length. and_then (ok_or ''Invalid snapshot vector'' (safe_slice byte_length rest))
           (\<lambda>(b, r). Inr (Vector (words_of_chunks b), r))))
     else fail ''Unknown snapshot value type'')"

definition decode_snapshot_entry :: "env \<Rightarrow> bytes \<Rightarrow> (bytes \<times> data_entry) presult" where
  "decode_snapshot_entry E record =
     and_then (ok_or ''Invalid snapshot key'' (read_snapshot_bytes record)) (\<lambda>(key, r1).
     and_then (ok_or ''Invalid snapshot expiry'' (read_u64_be r1)) (\<lambda>(expiry, r2).
     and_then (ok_or ''Missing snapshot value type'' (case r2 of [] \<Rightarrow> None | t # r3 \<Rightarrow> Some (t, r3))) (\<lambda>(t, r3).
     and_then (decode_value E t r3) (\<lambda>(v, r4).
       if r4 \<noteq> [] then fail ''Trailing bytes in snapshot entry''
       else Inr (key, \<lparr>entry_value = v, expires_at = (if expiry \<noteq> 0 then Some expiry else None),
                       created_at = now E, last_accessed = now E\<rparr>)))))"

section \<open>Round trip of snapshot entries\<close>

text \<open>What a value must satisfy to survive: no duplicate in a hash or set, and JSON that parses back.\<close>

fun encodable :: "env \<Rightarrow> onyx_value \<Rightarrow> bool" where
  "encodable E (Json j) = (json_parse E (json_text E j) = Inr j)"
| "encodable E v = value_ok v"

lemma encode_frames: "encode_all append_snapshot_bytes vs = Inr out \<longleftrightarrow>
    list_all (\<lambda>v. length v < 2 ^ 32) vs \<and> out = concat (map frame vs)"
proof (induction vs arbitrary: out)
  case (Cons v vs)
  then show ?case by (simp add: and_then_Inr append_snapshot_bytes_Inr) blast
qed auto

lemma read_items_frames:
  "list_all (\<lambda>v. length v < 2 ^ 32) vs \<Longrightarrow> read_items (length vs) (concat (map frame vs) @ rest) = Inr (vs, rest)"
  by (induction vs) (simp_all add: framed.dec_enc)

lemma frames_length: "4 * length vs \<le> length (concat (map frame vs))"
  by (induction vs) (auto simp: frame_length)

lemma encode_counted_Inr: "encode_counted msg f xs = Inr out \<longleftrightarrow>
    length xs < 2 ^ 32 \<and> (\<exists>bs. encode_all f xs = Inr bs \<and> out = write_u32_be (word_of_nat (length xs)) @ bs)"
  by (auto simp: encode_counted_def and_then_Inr ok_or_Inr u32_try_from_def)

lemma unat_u32: "n < 2 ^ 32 \<Longrightarrow> unat (word_of_nat n :: u32) = n"
  by (simp add: unsigned_of_nat take_bit_nat_eq_self)

lemma read_values_roundtrip:
  assumes "encode_counted msg append_snapshot_bytes vs = Inr out"
  shows "read_values (out @ rest) = Inr (vs, rest)"
proof -
  from assms have out: "length vs < 2 ^ 32" "list_all (\<lambda>v. length v < 2 ^ 32) vs"
      "out = write_u32_be (word_of_nat (length vs)) @ concat (map frame vs)"
    by (auto simp: encode_counted_Inr encode_frames)
  have "length vs \<le> length (concat (map frame vs) @ rest) div 4" using frames_length [of vs] by simp
  with out show ?thesis
    by (simp add: read_values_def u32.dec_enc unat_u32 read_items_frames del: length_append length_concat)
qed

lemma encode_fields: "encode_all (\<lambda>(field, v). and_then (append_snapshot_bytes field)
      (\<lambda>f. and_then (append_snapshot_bytes v) (\<lambda>b. Inr (f @ b)))) h = Inr out \<longleftrightarrow>
    list_all (\<lambda>(f, v). length f < 2 ^ 32 \<and> length v < 2 ^ 32) h \<and> out = concat (map (\<lambda>(f, v). frame f @ frame v) h)"
proof (induction h arbitrary: out)
  case (Cons fv h)
  obtain f v where "fv = (f, v)" by (cases fv)
  then show ?case by (simp add: and_then_Inr append_snapshot_bytes_Inr Cons.IH) blast
qed auto

lemma read_fields_frames:
  "list_all (\<lambda>(f, v). length f < 2 ^ 32 \<and> length v < 2 ^ 32) h \<Longrightarrow> hm_wf (m @ h) \<Longrightarrow>
    read_fields (length h) m (concat (map (\<lambda>(f, v). frame f @ frame v) h) @ rest) = Inr (m @ h, rest)"
proof (induction h arbitrary: m)
  case (Cons fv h)
  obtain f v where fv: "fv = (f, v)" by (cases fv)
  with Cons.prems(2) have "hm_get m f = None" by (auto simp: map_of_eq_None_iff)
  then have "hm_insert f v m = m @ [(f, v)]" by (rule hm_insert_fresh)
  with Cons.IH [of "m @ [(f, v)]"] Cons.prems fv show ?case by (simp add: framed.dec_enc)
qed simp

lemma fields_length: "8 * length h \<le> length (concat (map (\<lambda>(f, v). frame f @ frame v) h))"
  by (induction h) (auto simp: frame_length)

lemma hs_collect_distinct: "distinct xs \<Longrightarrow> hs_collect xs = xs"
proof -
  have "distinct (s @ xs) \<Longrightarrow> fold (\<lambda>x s. if x \<in> set s then s else s @ [x]) xs s = s @ xs" for s
    by (induction xs arbitrary: s) auto
  from this [of "[]"] show "distinct xs \<Longrightarrow> hs_collect xs = xs" by (simp add: hs_collect_def)
qed

lemma encode_words: "encode_all (\<lambda>v. Inr (write_u32_be v)) vs = Inr (concat (map write_u32_be vs))"
  by (induction vs) simp_all

lemma words_roundtrip: "words_of_chunks (concat (map write_u32_be vs)) = vs"
proof (induction vs)
  case (Cons v vs)
  have "words_of_chunks (write_u32_be v @ bs) = v # words_of_chunks bs" for bs
    using u32_bytes [of v bs] by (simp add: write_u32_be_def)
  with Cons show ?case by simp
qed simp

lemma words_length: "length (concat (map write_u32_be vs)) = 4 * length vs"
  by (induction vs) simp_all


lemma decode_value_roundtrip:
  assumes "encode_value E v = Inr out" and "encodable E v"
  shows "\<exists>t bs. out = t # bs \<and> decode_value E t (bs @ rest) = Inr (v, rest)"
proof (cases v)
  case (Hash h)
  with assms(1) have len: "length h < 2 ^ 32" and h: "list_all (\<lambda>(f, v). length f < 2 ^ 32 \<and> length v < 2 ^ 32) h"
    and out: "out = tag 5 @ write_u32_be (word_of_nat (length h)) @ concat (map (\<lambda>(f, v). frame f @ frame v) h)"
    by (auto simp: and_then_Inr encode_counted_Inr encode_fields)
  have "length h \<le> length (concat (map (\<lambda>(f, v). frame f @ frame v) h) @ rest) div 8"
    using fields_length [of h] by simp
  with len h assms(2) Hash read_fields_frames [of h "[]" rest] out show ?thesis
    by (simp add: decode_value_def tag_def u32.dec_enc unat_u32 linorder_not_less del: length_append length_concat)
next
  case (Vector vs)
  with assms(1) have len: "length vs < 2 ^ 32"
    and out: "out = tag 8 @ write_u32_be (word_of_nat (length vs)) @ concat (map write_u32_be vs)"
    by (auto simp: and_then_Inr encode_counted_Inr encode_words)
  have "checked_mul (length vs) 4 = Some (4 * length vs)"
    using len by (simp add: checked_mul_def usize_max_def mult.commute)
  with len Vector out show ?thesis
    by (simp add: decode_value_def tag_def u32.dec_enc unat_u32 safe_slice_def words_length words_roundtrip
        del: length_concat)
next
  case (List vs)
  with assms obtain b where b: "encode_counted ''Snapshot list is too large'' append_snapshot_bytes vs = Inr b"
    and out: "out = tag 4 @ b" by (auto simp: and_then_Inr)
  with List read_values_roundtrip [OF b] show ?thesis by (simp add: decode_value_def tag_def)
next
  case (Set vs)
  with assms obtain b where b: "encode_counted ''Snapshot set is too large'' append_snapshot_bytes vs = Inr b"
    and out: "out = tag 6 @ b" by (auto simp: and_then_Inr)
  with assms(2) Set read_values_roundtrip [OF b] show ?thesis
    by (simp add: decode_value_def tag_def hs_collect_distinct)
qed (use assms in \<open>auto simp: and_then_Inr append_snapshot_bytes_Inr decode_value_def tag_def framed.dec_enc u64.dec_enc\<close>)

lemma snapshot_entry_roundtrip:
  assumes "encode_snapshot_entry E key entry = Inr out" and "encodable E (entry_value entry)"
    and "expires_at entry \<noteq> Some 0"
  shows "decode_snapshot_entry E out = Inr (key, entry\<lparr>created_at := now E, last_accessed := now E\<rparr>)"
proof -
  from assms(1) obtain v where key: "length key < 2 ^ 32" and v: "encode_value E (entry_value entry) = Inr v"
    and out: "out = frame key @ write_u64_be (case expires_at entry of None \<Rightarrow> 0 | Some exp \<Rightarrow> exp) @ v"
    by (auto simp: encode_snapshot_entry_def and_then_Inr append_snapshot_bytes_Inr Let_def split: if_splits)
  from decode_value_roundtrip [OF v assms(2), of "[]"] obtain t bs
    where tb: "v = t # bs" "decode_value E t bs = Inr (entry_value entry, [])" by auto
  with key out assms(3) show ?thesis
    by (cases entry) (auto simp: decode_snapshot_entry_def framed.dec_enc u64.dec_enc split: option.splits)
qed

lemma encode_snapshot_entry_bound:
  "encode_snapshot_entry E key entry = Inr out \<Longrightarrow> length out \<le> MAX_SNAPSHOT_RECORD_SIZE"
  by (auto simp: encode_snapshot_entry_def and_then_Inr Let_def split: if_splits)

section \<open>Committed batches\<close>

record persistent_entry =
  pe_value :: onyx_value
  pe_expires_at :: "u64 option"

definition persistent_entry_from :: "data_entry \<Rightarrow> persistent_entry" where
  "persistent_entry_from entry = \<lparr>pe_value = entry_value entry, pe_expires_at = expires_at entry\<rparr>"

definition into_data_entry :: "env \<Rightarrow> persistent_entry \<Rightarrow> data_entry" where
  "into_data_entry E p = (let timestamp = now E in
     \<lparr>entry_value = pe_value p, expires_at = pe_expires_at p, created_at = timestamp, last_accessed = timestamp\<rparr>)"

datatype committed_effect = PutE bytes persistent_entry | DeleteE bytes

record committed_batch =
  effects :: "committed_effect list"

definition committed_batch_new :: "committed_effect list \<Rightarrow> committed_batch presult" where
  "committed_batch_new es = (if es = [] then fail ''A committed mutation batch cannot be empty''
     else Inr \<lparr>effects = es\<rparr>)"

definition EFFECT_PUT :: byte where
  "EFFECT_PUT = char_of (1 :: nat)"

definition EFFECT_DELETE :: byte where
  "EFFECT_DELETE = char_of (2 :: nat)"

fun encode_effect :: "env \<Rightarrow> committed_effect \<Rightarrow> bytes presult" where
  "encode_effect E (PutE key entry) =
     (let data_entry = \<lparr>entry_value = pe_value entry, expires_at = pe_expires_at entry, created_at = 0, last_accessed = 0\<rparr>
      in and_then (encode_snapshot_entry E key data_entry) (\<lambda>record.
         and_then (append_snapshot_bytes record) (\<lambda>b. Inr (EFFECT_PUT # b))))"
| "encode_effect E (DeleteE key) = and_then (append_snapshot_bytes key) (\<lambda>b. Inr (EFFECT_DELETE # b))"

definition encode_committed_batch :: "env \<Rightarrow> committed_batch \<Rightarrow> bytes presult" where
  "encode_committed_batch E batch =
     (if effects batch = [] then fail ''Committed-effect batch cannot be empty''
      else and_then (encode_counted ''Committed-effect batch is too large'' (encode_effect E) (effects batch))
        (\<lambda>encoded. if MAX_BINLOG_RECORD_SIZE < length encoded
           then fail ''Committed-effect batch exceeds the binlog record limit'' else Inr encoded))"

definition decode_effect :: "env \<Rightarrow> byte \<Rightarrow> bytes \<Rightarrow> committed_effect presult" where
  "decode_effect E opcode payload =
     (if opcode = EFFECT_PUT then and_then (decode_snapshot_entry E payload)
        (\<lambda>(key, entry). Inr (PutE key (persistent_entry_from entry)))
      else if opcode = EFFECT_DELETE then Inr (DeleteE payload)
      else fail (''Unknown committed-effect opcode: '' @ nat_to_string (of_char opcode)))"

fun read_effects :: "env \<Rightarrow> nat \<Rightarrow> bytes \<Rightarrow> (committed_effect list \<times> bytes) presult" where
  "read_effects E 0 bs = Inr ([], bs)"
| "read_effects E (Suc n) bs =
     and_then (ok_or ''Missing committed-effect opcode'' (case bs of [] \<Rightarrow> None | b # r \<Rightarrow> Some (b, r))) (\<lambda>(opcode, r1).
     and_then (ok_or ''Invalid committed-effect payload'' (read_snapshot_bytes r1)) (\<lambda>(payload, r2).
     and_then (decode_effect E opcode payload) (\<lambda>eff.
     and_then (read_effects E n r2) (\<lambda>(es, r3). Inr (eff # es, r3)))))"

definition decode_committed_batch :: "env \<Rightarrow> bytes \<Rightarrow> committed_batch presult" where
  "decode_committed_batch E encoded =
     and_then (ok_or ''Missing committed-effect count'' (read_u32_be encoded)) (\<lambda>(count, rest).
       if count = 0 then fail ''Committed-effect batch cannot be empty''
       else if length rest div 5 < unat count then fail ''Committed-effect count exceeds the record bounds''
       else and_then (read_effects E (unat count) rest) (\<lambda>(es, rest').
         if rest' \<noteq> [] then fail ''Trailing bytes in committed-effect batch'' else committed_batch_new es))"

fun effect_encodable :: "env \<Rightarrow> committed_effect \<Rightarrow> bool" where
  "effect_encodable E (PutE _ entry) = (encodable E (pe_value entry) \<and> pe_expires_at entry \<noteq> Some 0)"
| "effect_encodable E (DeleteE _) = True"

lemma effect_roundtrip:
  assumes "encode_effect E eff = Inr out" and "effect_encodable E eff"
  shows "\<exists>opcode payload. out = opcode # frame payload \<and> length payload < 2 ^ 32 \<and>
    decode_effect E opcode payload = Inr eff"
proof (cases eff)
  case (PutE key entry)
  let ?d = "\<lparr>entry_value = pe_value entry, expires_at = pe_expires_at entry, created_at = 0, last_accessed = 0\<rparr>"
  from assms(1) PutE obtain entry_bytes where entry_bytes: "encode_snapshot_entry E key ?d = Inr entry_bytes"
    "length entry_bytes < 2 ^ 32" "out = EFFECT_PUT # frame entry_bytes"
    by (auto simp: and_then_Inr append_snapshot_bytes_Inr)
  from snapshot_entry_roundtrip [OF entry_bytes(1)] assms(2) PutE
  have "decode_effect E EFFECT_PUT entry_bytes = Inr eff" by (simp add: decode_effect_def persistent_entry_from_def)
  with entry_bytes show ?thesis by blast
next
  case (DeleteE key)
  have "EFFECT_DELETE \<noteq> EFFECT_PUT" by (simp add: EFFECT_PUT_def EFFECT_DELETE_def)
  with assms(1) DeleteE show ?thesis by (auto simp: and_then_Inr append_snapshot_bytes_Inr decode_effect_def)
qed

lemma read_effects_roundtrip:
  "encode_all (encode_effect E) es = Inr out \<Longrightarrow> list_all (effect_encodable E) es \<Longrightarrow>
    read_effects E (length es) (out @ rest) = Inr (es, rest) \<and> 5 * length es \<le> length out"
proof (induction es arbitrary: out)
  case (Cons eff es)
  from Cons.prems obtain a b where ab: "encode_effect E eff = Inr a" "encode_all (encode_effect E) es = Inr b"
    "out = a @ b" by (auto simp: and_then_Inr)
  from effect_roundtrip [OF ab(1)] Cons.prems(2) obtain opcode payload
    where a: "a = opcode # frame payload" "length payload < 2 ^ 32" "decode_effect E opcode payload = Inr eff" by auto
  from Cons.IH [OF ab(2)] Cons.prems(2) a ab(3) show ?case by (simp add: framed.dec_enc frame_length)
qed simp

lemma committed_batch_codec:
  assumes "encode_committed_batch E batch = Inr out" and "list_all (effect_encodable E) (effects batch)"
  shows "decode_committed_batch E out = Inr batch \<and> length out \<le> MAX_BINLOG_RECORD_SIZE \<and> out \<noteq> []"
proof -
  let ?n = "length (effects batch)"
  from assms(1) obtain body where len: "?n < 2 ^ 32" and ne: "effects batch \<noteq> []"
    and body: "encode_all (encode_effect E) (effects batch) = Inr body"
    and out: "out = write_u32_be (word_of_nat ?n) @ body" and small: "length out \<le> MAX_BINLOG_RECORD_SIZE"
    by (auto simp: encode_committed_batch_def and_then_Inr encode_counted_Inr split: if_splits)
  have "(word_of_nat ?n :: u32) \<noteq> 0" using ne len unat_u32 [of ?n] by auto
  with read_effects_roundtrip [OF body assms(2), of "[]"] len ne out
  have "decode_committed_batch E out = Inr batch"
    by (cases batch) (auto simp: decode_committed_batch_def u32.dec_enc unat_u32 committed_batch_new_def)
  moreover have "out \<noteq> []" using out write_length(1) by (metis append_is_Nil_conv list.size(3) zero_neq_numeral)
  ultimately show ?thesis using small by simp
qed

section \<open>Binlog records\<close>

definition BINLOG_RECORD_MAGIC :: bytes where
  "BINLOG_RECORD_MAGIC = ''ONX4''"

definition CHECKSUMLESS_BINLOG_RECORD_MAGIC :: bytes where
  "CHECKSUMLESS_BINLOG_RECORD_MAGIC = ''ONX3''"

definition PREVIOUS_BINLOG_RECORD_MAGIC :: bytes where
  "PREVIOUS_BINLOG_RECORD_MAGIC = ''ONX2''"

definition BINLOG_CHECKSUM_SIZE :: nat where
  "BINLOG_CHECKSUM_SIZE = 4"

definition BINLOG_RECORD_LENGTH_SIZE :: nat where
  "BINLOG_RECORD_LENGTH_SIZE = 4"

definition versioned_binlog_record_length :: "u64 \<Rightarrow> nat \<Rightarrow> nat presult" where
  "versioned_binlog_record_length sequence effect_record_length =
     (if sequence = 0 then fail ''Versioned binlog records require a non-zero sequence''
      else and_then (ok_or ''Binlog record length overflow''
          (Option.bind (checked_add (length BINLOG_RECORD_MAGIC) BINLOG_RECORD_LENGTH_SIZE)
            (\<lambda>len. Option.bind (checked_add len 8)
            (\<lambda>len. Option.bind (checked_add len effect_record_length)
            (\<lambda>len. checked_add len BINLOG_CHECKSUM_SIZE)))))
        (\<lambda>record_length. if MAX_BINLOG_RECORD_SIZE < record_length
           then fail ''Binlog record exceeds the format limit'' else Inr record_length))"

definition encode_versioned_binlog_record_into :: "env \<Rightarrow> u64 \<Rightarrow> bytes \<Rightarrow> bytes \<Rightarrow> bytes presult" where
  "encode_versioned_binlog_record_into E sequence effect_record output =
     and_then (versioned_binlog_record_length sequence (length effect_record)) (\<lambda>record_length.
       let record_start = length output; output = output @ BINLOG_RECORD_MAGIC
       in and_then (ok_or ''Binlog record length exceeds u32'' (u32_try_from record_length)) (\<lambda>len.
         let output = output @ write_u32_be len @ write_u64_be sequence @ effect_record;
             checksum = crc32 E (drop record_start output)
         in Inr (output @ write_u32_be checksum)))"

definition encode_framed_versioned_binlog_record_into :: "env \<Rightarrow> u64 \<Rightarrow> bytes \<Rightarrow> bytes \<Rightarrow> bytes presult" where
  "encode_framed_versioned_binlog_record_into E sequence effect_record output =
     and_then (versioned_binlog_record_length sequence (length effect_record)) (\<lambda>record_length.
     and_then (ok_or ''Binlog record length exceeds u32'' (u32_try_from record_length)) (\<lambda>len.
       encode_versioned_binlog_record_into E sequence effect_record (output @ write_u32_be len)))"

definition framed_versioned_binlog_record_length :: "nat \<Rightarrow> nat presult" where
  "framed_versioned_binlog_record_length effect_record_length =
     and_then (versioned_binlog_record_length 1 effect_record_length) (\<lambda>len.
       ok_or ''Framed binlog record length overflow'' (checked_add len BINLOG_RECORD_LENGTH_SIZE))"

datatype binlog_record_integrity = Checksummed | ChecksumlessLegacy

datatype decoded_binlog_record = Versioned u64 bytes binlog_record_integrity

definition decode_binlog_magic :: "env \<Rightarrow> bytes \<Rightarrow> (bytes \<times> nat \<times> binlog_record_integrity) presult" where
  "decode_binlog_magic E record =
     (if starts_with record BINLOG_RECORD_MAGIC then
        (if length record < BINLOG_CHECKSUM_SIZE \<or>
            length record - BINLOG_CHECKSUM_SIZE < length BINLOG_RECORD_MAGIC + BINLOG_RECORD_LENGTH_SIZE + 8
         then fail ''Truncated checksummed binlog record''
         else let checksum_offset = length record - BINLOG_CHECKSUM_SIZE in
           and_then (ok_or ''Invalid binlog record checksum''
               (map_option fst (read_u32_be (drop checksum_offset record)))) (\<lambda>expected_checksum.
             if crc32 E (take checksum_offset record) \<noteq> expected_checksum
             then fail ''Binlog record checksum mismatch''
             else Inr (BINLOG_RECORD_MAGIC, checksum_offset, Checksummed)))
      else if starts_with record CHECKSUMLESS_BINLOG_RECORD_MAGIC then
        Inr (CHECKSUMLESS_BINLOG_RECORD_MAGIC, length record, ChecksumlessLegacy)
      else fail (''Unsupported unsafe binlog format: '' @
        (if starts_with record PREVIOUS_BINLOG_RECORD_MAGIC then ''ONX2 command records'' else ''legacy command records'')))"

definition decode_binlog_record :: "env \<Rightarrow> bytes \<Rightarrow> decoded_binlog_record presult" where
  "decode_binlog_record E record =
     and_then (decode_binlog_magic E record) (\<lambda>(magic, effects_end, integrity).
     and_then (if integrity = Checksummed
         then and_then (ok_or ''Missing embedded binlog record length'' (read_u32_be (drop (length magic) record)))
           (\<lambda>(embedded_length, rest). if unat embedded_length \<noteq> length record
              then fail (''Binlog record length mismatch: outer length '' @ nat_to_string (length record) @
                         '', embedded length '' @ nat_to_string (unat embedded_length))
              else Inr (length magic + 4))
         else Inr (length magic)) (\<lambda>offset.
     and_then (ok_or ''Truncated versioned binlog record header'' (read_u64_be (drop offset record))) (\<lambda>(sequence, rest).
       let offset = offset + 8 in
       if sequence = 0 then fail ''Versioned binlog records must have a non-zero sequence''
       else if effects_end < offset then fail ''Missing committed-effect payload''
       else let eff = take (effects_end - offset) (drop offset record) in
         if eff = [] then fail ''Versioned binlog record contains an empty committed-effect payload''
         else Inr (Versioned sequence eff integrity))))"

lemma versioned_length_Inr: "versioned_binlog_record_length sequence n = Inr len \<longleftrightarrow>
    sequence \<noteq> 0 \<and> len = 20 + n \<and> 20 + n \<le> MAX_BINLOG_RECORD_SIZE"
  by (auto simp: versioned_binlog_record_length_def and_then_Inr ok_or_Inr checked_add_def usize_max_def
      BINLOG_RECORD_MAGIC_def BINLOG_RECORD_LENGTH_SIZE_def BINLOG_CHECKSUM_SIZE_def MAX_BINLOG_RECORD_SIZE_def
      split: if_splits)

definition binlog_body :: "u64 \<Rightarrow> bytes \<Rightarrow> bytes" where
  "binlog_body sequence eff = BINLOG_RECORD_MAGIC @ write_u32_be (word_of_nat (20 + length eff)) @ write_u64_be sequence @ eff"

definition binlog_record :: "env \<Rightarrow> u64 \<Rightarrow> bytes \<Rightarrow> bytes" where
  "binlog_record E sequence eff = binlog_body sequence eff @ write_u32_be (crc32 E (binlog_body sequence eff))"

definition binlog_ok :: "u64 \<Rightarrow> bytes \<Rightarrow> bool" where
  "binlog_ok sequence eff = (sequence \<noteq> 0 \<and> 20 + length eff \<le> MAX_BINLOG_RECORD_SIZE)"

lemma binlog_length: "length (binlog_body sequence eff) = 16 + length eff"
  "length (binlog_record E sequence eff) = 20 + length eff"
  by (simp_all add: binlog_body_def binlog_record_def BINLOG_RECORD_MAGIC_def)

lemma encode_versioned_Inr: "encode_versioned_binlog_record_into E sequence eff output = Inr out \<longleftrightarrow>
    binlog_ok sequence eff \<and> out = output @ binlog_record E sequence eff"
  by (auto simp: encode_versioned_binlog_record_into_def and_then_Inr ok_or_Inr versioned_length_Inr u32_try_from_def
      Let_def binlog_ok_def binlog_record_def binlog_body_def MAX_BINLOG_RECORD_SIZE_def)

lemma encode_framed_Inr: "encode_framed_versioned_binlog_record_into E sequence eff output = Inr out \<longleftrightarrow>
    binlog_ok sequence eff \<and> out = output @ frame (binlog_record E sequence eff)"
  by (auto simp: encode_framed_versioned_binlog_record_into_def encode_versioned_Inr and_then_Inr ok_or_Inr
      versioned_length_Inr u32_try_from_def binlog_ok_def frame_def binlog_length MAX_BINLOG_RECORD_SIZE_def)

lemma decode_binlog_roundtrip:
  assumes "binlog_ok sequence eff" and "eff \<noteq> []"
  shows "decode_binlog_record E (binlog_record E sequence eff) = Inr (Versioned sequence eff Checksummed)"
proof -
  let ?body = "binlog_body sequence eff"
  let ?rec = "binlog_record E sequence eff"
  have len: "length ?body = 16 + length eff" "length ?rec = 20 + length eff" by (simp_all add: binlog_length)
  have split: "take (length ?rec - 4) ?rec = ?body" "drop (length ?rec - 4) ?rec = write_u32_be (crc32 E ?body)"
    by (simp_all add: len binlog_record_def)
  have magic: "starts_with ?rec BINLOG_RECORD_MAGIC"
    by (simp add: binlog_record_def binlog_body_def starts_with_def BINLOG_RECORD_MAGIC_def)
  have m: "decode_binlog_magic E ?rec = Inr (BINLOG_RECORD_MAGIC, length ?rec - 4, Checksummed)"
    using magic split u32.dec_exact [of "crc32 E ?body"] assms(2)
    by (simp add: decode_binlog_magic_def Let_def BINLOG_CHECKSUM_SIZE_def BINLOG_RECORD_LENGTH_SIZE_def
        len BINLOG_RECORD_MAGIC_def)
  have small: "20 + length eff < 2 ^ 32" using assms(1) by (simp add: binlog_ok_def MAX_BINLOG_RECORD_SIZE_def)
  have lm: "length BINLOG_RECORD_MAGIC = 4" by (simp add: BINLOG_RECORD_MAGIC_def)
  have d4: "drop 4 ?rec = write_u32_be (word_of_nat (20 + length eff)) @ write_u64_be sequence @ eff @
      write_u32_be (crc32 E ?body)"
    and d8: "drop 8 ?rec = write_u64_be sequence @ eff @ write_u32_be (crc32 E ?body)"
    and d16: "drop 16 ?rec = eff @ write_u32_be (crc32 E ?body)"
    by (simp_all add: binlog_record_def binlog_body_def lm)
  show ?thesis
    using assms unat_u32 [OF small]
    by (simp add: decode_binlog_record_def m lm d4 d8 d16 u32.dec_enc u64.dec_enc len binlog_ok_def)
qed

lemma drop_prefix: "xs = w @ r \<Longrightarrow> r = drop (length w) xs"
  by simp

lemma decode_binlog_exact:
  assumes "decode_binlog_record E rec = Inr (Versioned sequence eff Checksummed)"
  shows "sequence \<noteq> 0 \<and> eff \<noteq> [] \<and> rec = binlog_record E sequence eff"
proof -
  have lm: "length BINLOG_RECORD_MAGIC = 4" by (simp add: BINLOG_RECORD_MAGIC_def)
  let ?n = "length rec - 4"
  from assms obtain magic e where "decode_binlog_magic E rec = Inr (magic, e, Checksummed)"
    by (auto simp: decode_binlog_record_def and_then_Inr Let_def split: if_splits)
  then have m: "decode_binlog_magic E rec = Inr (BINLOG_RECORD_MAGIC, ?n, Checksummed)"
    and magic: "starts_with rec BINLOG_RECORD_MAGIC" and long: "20 \<le> length rec"
    and crc: "read_u32_be (drop ?n rec) = Some (crc32 E (take ?n rec), snd (the (read_u32_be (drop ?n rec))))"
    by (auto simp: decode_binlog_magic_def and_then_Inr ok_or_Inr Let_def lm BINLOG_CHECKSUM_SIZE_def
        BINLOG_RECORD_LENGTH_SIZE_def split: if_splits)
  from u32_write_read [OF crc] have tail': "drop ?n rec = write_u32_be (crc32 E (take ?n rec)) @
      snd (the (read_u32_be (drop ?n rec)))" .
  moreover have "length (drop ?n rec) = 4" using long by simp
  ultimately have tail: "drop ?n rec = write_u32_be (crc32 E (take ?n rec))"
    by (metis add_diff_cancel_left' append_Nil2 diff_self_eq_0 length_0_conv length_append write_length(1))
  from assms m obtain len r1 r2 where l: "read_u32_be (drop 4 rec) = Some (len, r1)" "unat len = length rec"
    and q: "read_u64_be (drop 8 rec) = Some (sequence, r2)"
    and ok: "sequence \<noteq> 0" "eff \<noteq> []" "eff = take (?n - 16) (drop 16 rec)"
    by (auto simp: decode_binlog_record_def and_then_Inr ok_or_Inr Let_def lm split: if_splits)
  have d4: "drop 4 rec = write_u32_be len @ drop 8 rec"
    using u32_write_read [OF l(1)] drop_prefix [OF u32_write_read [OF l(1)]]
    by (simp only: write_length drop_drop) simp
  have d8: "drop 8 rec = write_u64_be sequence @ drop 16 rec"
    using u64_write_read [OF q] drop_prefix [OF u64_write_read [OF q]]
    by (simp only: write_length drop_drop) simp
  have d16: "drop 16 rec = eff @ drop ?n rec"
    using append_take_drop_id [of "?n - 16" "drop 16 rec"] long by (simp add: ok(3))
  have d0: "rec = BINLOG_RECORD_MAGIC @ drop 4 rec"
    using magic append_take_drop_id [of 4 rec] by (simp add: starts_with_def lm)
  have leff: "length rec = 20 + length eff" using ok(3) long by simp
  moreover have "(word_of_nat (unat len) :: u32) = len" by simp
  ultimately have "len = word_of_nat (20 + length eff)" by (simp only: l(2))
  then have "rec = binlog_body sequence eff @ drop ?n rec"
    using d0 d4 d8 d16 by (simp add: binlog_body_def)
  then have "take ?n rec = binlog_body sequence eff"
    by (metis add_diff_cancel_left' append_eq_conv_conj append_take_drop_id leff binlog_length(1) diff_diff_add
        length_take min_absorb2 diff_le_self same_append_eq append_same_eq)
  with tail \<open>rec = binlog_body sequence eff @ drop ?n rec\<close> ok show ?thesis by (simp add: binlog_record_def)
qed

section \<open>Binlog segment names\<close>

definition BINLOG_SEGMENT_PREFIX :: bytes where
  "BINLOG_SEGMENT_PREFIX = ''onyx.binlog.segment.''"

definition BINLOG_SEGMENT_SEQUENCE_WIDTH :: nat where
  "BINLOG_SEGMENT_SEQUENCE_WIDTH = 20"

definition pad_zeros :: "nat \<Rightarrow> bytes \<Rightarrow> bytes" where
  "pad_zeros width s = replicate (width - length s) (CHR ''0'') @ s"

definition binlog_segment :: "u64 \<Rightarrow> bytes" where
  "binlog_segment end_sequence =
     BINLOG_SEGMENT_PREFIX @ pad_zeros BINLOG_SEGMENT_SEQUENCE_WIDTH (u64_to_string end_sequence)"

definition parse_binlog_segment_end_sequence :: "bytes \<Rightarrow> u64 option presult" where
  "parse_binlog_segment_end_sequence os_name = (case str_of_bytes os_name of
      None \<Rightarrow> Inr None
    | Some file_name \<Rightarrow>
        if \<not> starts_with file_name BINLOG_SEGMENT_PREFIX then Inr None
        else let encoded_sequence = drop (length BINLOG_SEGMENT_PREFIX) file_name in
          if length encoded_sequence \<noteq> BINLOG_SEGMENT_SEQUENCE_WIDTH \<or> \<not> list_all (between 48 57) encoded_sequence
          then fail (''Malformed binlog segment name: '' @ file_name)
          else and_then (ok_or (''Invalid binlog segment sequence: '' @ file_name) (parse_u64 encoded_sequence))
            (\<lambda>end_sequence. if end_sequence = 0 then fail ''Binlog segment end sequence must be non-zero''
               else Inr (Some end_sequence)))"

lemma digit_val_inj: "digit_val c = Some d \<Longrightarrow> digit_val c' = Some d \<Longrightarrow> c = c'"
  by (auto simp: digit_val_def between_def split: if_splits)
     (metis add_diff_cancel_left' char_of_char le_add_diff_inverse)

lemma digit_val_less: "digit_val c = Some d \<Longrightarrow> d < 10"
  by (auto simp: digit_val_def between_def split: if_splits)

lemma parse_digits_inj:
  "length cs = length cs' \<Longrightarrow> parse_digits cs a = Some n \<Longrightarrow> parse_digits cs' b = Some n \<Longrightarrow> a = b \<and> cs = cs'"
proof (induction cs arbitrary: cs' a b)
  case (Cons c cs)
  then obtain c' cs2 where cs': "cs' = c' # cs2" "length cs = length cs2" by (cases cs') auto
  with Cons.prems obtain d d' where d: "digit_val c = Some d" "digit_val c' = Some d'"
    and p: "parse_digits cs (10 * a + d) = Some n" "parse_digits cs2 (10 * b + d') = Some n"
    by (auto split: option.splits)
  from Cons.IH [OF cs'(2) p] have eq: "10 * a + d = 10 * b + d'" "cs = cs2" by auto
  moreover have "d < 10" "d' < 10" using d digit_val_less by auto
  ultimately have "a = b" "d = d'" by presburger+
  with d eq cs' digit_val_inj show ?case by auto
qed simp

lemma nat_to_string_length: "n < 10 ^ Suc k \<Longrightarrow> length (nat_to_string n) \<le> Suc k"
proof (induction k arbitrary: n)
  case (Suc k)
  then have "n div 10 < 10 ^ Suc k" by (simp add: div_less_iff_less_mult mult.commute)
  from Suc.IH [OF this] show ?case by (subst nat_to_string.simps) simp
qed (subst nat_to_string.simps, simp)

lemma parse_digits_zeros: "parse_digits (replicate k (CHR ''0'') @ s) 0 = parse_digits s 0"
  by (induction k) (simp_all add: digit_val_def between_def)

lemma pad_zeros_parse: "parse_digits (pad_zeros w (nat_to_string n)) 0 = Some n"
  by (simp add: pad_zeros_def parse_digits_zeros parse_nat_to_string)

lemma pad_zeros_digits: "list_all (between 48 57) (pad_zeros w (nat_to_string n))"
  using nat_to_string_digits by (auto simp: pad_zeros_def list_all_iff between_def)

lemma parse_unsigned_digits:
  assumes "s \<noteq> []" and "list_all (between 48 57) s"
  shows "parse_unsigned m s = (case parse_digits s 0 of Some n \<Rightarrow> if n \<le> m then Some n else None | None \<Rightarrow> None)"
  using assms by (cases s) (auto simp: parse_unsigned_def between_def)

lemma unat_u64_less: "unat (w :: u64) < 2 ^ 64"
  using unsigned_less [of w] by simp

lemma segment_digits:
  "length s = 20 \<Longrightarrow> list_all (between 48 57) s \<Longrightarrow>
    parse_u64 s = Some w \<longleftrightarrow> s = pad_zeros 20 (u64_to_string w)"
proof -
  assume len: "length s = 20" and digits: "list_all (between 48 57) s"
  note w = unat_u64_less [of w]
  then have small: "unat w < 10 ^ Suc 19" by simp
  have padlen: "length (pad_zeros 20 (u64_to_string w)) = 20"
    using nat_to_string_length [OF small] by (simp add: pad_zeros_def u64_to_string_def)
  have pad: "parse_digits (pad_zeros 20 (u64_to_string w)) 0 = Some (unat w)"
    by (simp add: u64_to_string_def pad_zeros_parse)
  have "parse_u64 s = Some w \<longleftrightarrow> parse_digits s 0 = Some (unat w)"
  proof -
    have "s \<noteq> []" using len by auto
    note p = parse_unsigned_digits [OF this digits, of "2 ^ 64 - 1"]
    have fits: "unat w \<le> 2 ^ 64 - 1" using w by simp
    have inv: "n = unat w" if "n \<le> 2 ^ 64 - 1" "word_of_nat n = w" for n
    proof -
      from that(1) have "n < 2 ^ 64" by simp
      with that(2) show ?thesis by (auto simp: unsigned_of_nat take_bit_nat_eq_self)
    qed
    show ?thesis
    proof (cases "parse_digits s 0")
      case (Some n)
      have "parse_u64 s = (if n \<le> 2 ^ 64 - 1 then Some (word_of_nat n) else None)"
        unfolding parse_u64_def p Some by simp
      with inv [of n] fits show ?thesis unfolding Some by (auto split: if_splits)
    next
      case None
      then show ?thesis unfolding parse_u64_def p by simp
    qed
  qed
  also have "\<dots> \<longleftrightarrow> s = pad_zeros 20 (u64_to_string w)"
    using parse_digits_inj [of s "pad_zeros 20 (u64_to_string w)" 0 "unat w" 0] pad padlen len by auto
  finally show ?thesis .
qed

lemma segment_name_exact:
  "parse_binlog_segment_end_sequence name = Inr (Some n) \<longleftrightarrow> n \<noteq> 0 \<and> name = binlog_segment n"
proof -
  let ?p = BINLOG_SEGMENT_PREFIX
  have len: "length ?p = 20" by (simp add: BINLOG_SEGMENT_PREFIX_def)
  have small: "unat n < 10 ^ Suc 19" using unat_u64_less [of n] by simp
  let ?s = "pad_zeros 20 (u64_to_string n)"
  have padlen: "length ?s = 20"
    using nat_to_string_length [OF small] by (simp add: pad_zeros_def u64_to_string_def)
  have pad: "list_all (between 48 57) ?s" by (simp add: u64_to_string_def pad_zeros_digits)
  have ascii: "is_ascii (binlog_segment n)"
    using pad by (auto simp: is_ascii_def binlog_segment_def BINLOG_SEGMENT_SEQUENCE_WIDTH_def list_all_iff between_def
        BINLOG_SEGMENT_PREFIX_def)
  show ?thesis
  proof
    assume "parse_binlog_segment_end_sequence name = Inr (Some n)"
    then have "starts_with name ?p" "length (drop 20 name) = 20" "list_all (between 48 57) (drop 20 name)"
        "parse_u64 (drop 20 name) = Some n" "n \<noteq> 0"
      by (auto simp: parse_binlog_segment_end_sequence_def str_of_bytes_def and_then_Inr ok_or_Inr Let_def len
          BINLOG_SEGMENT_SEQUENCE_WIDTH_def split: if_splits)
    then show "n \<noteq> 0 \<and> name = binlog_segment n"
      using segment_digits append_take_drop_id [of 20 name]
      by (simp add: binlog_segment_def BINLOG_SEGMENT_SEQUENCE_WIDTH_def starts_with_def len)
  next
    assume "n \<noteq> 0 \<and> name = binlog_segment n"
    then show "parse_binlog_segment_end_sequence name = Inr (Some n)"
      using utf8_valid_ascii [OF ascii] segment_digits [OF padlen pad, of n] pad padlen
      by (simp add: parse_binlog_segment_end_sequence_def str_of_bytes_def Let_def binlog_segment_def len
          BINLOG_SEGMENT_SEQUENCE_WIDTH_def starts_with_def)
  qed
qed

section \<open>Properties\<close>

text \<open>
  C20. A batch of committed effects that encodes is read back exactly: same effects in the same
  order, every value with its expiry, through the opcode, the length prefixes and the nested
  snapshot entries. The batch must hold values the Rust types admit (no duplicate key in a hash
  or set), JSON that serde reads back as written, and no expiry of 0, which the format uses for
  no expiry.
\<close>

theorem committed_batch_roundtrip:
  assumes "encode_committed_batch E batch = Inr encoded"
    and "list_all (effect_encodable E) (effects batch)"
  shows "decode_committed_batch E encoded = Inr batch"
  using committed_batch_codec [OF assms] by simp

definition sample_batch :: committed_batch where
  "sample_batch = \<lparr>effects = [PutE ''k'' \<lparr>pe_value = Hash [(''f'', ''v''), (''g'', [])], pe_expires_at = Some 7\<rparr>,
     DeleteE ''old'', PutE ''n'' \<lparr>pe_value = IntV (- 1), pe_expires_at = None\<rparr>]\<rparr>"

lemmas encode_simps = encode_committed_batch_def encode_counted_def u32_try_from_def encode_snapshot_entry_def
  append_snapshot_bytes_def checked_u32_length_def MAX_SNAPSHOT_RECORD_SIZE_def MAX_BINLOG_RECORD_SIZE_def Let_def

theorem committed_batch_roundtrip_witness:
  "\<exists>encoded. encode_committed_batch sample_env sample_batch = Inr encoded \<and>
     decode_committed_batch sample_env encoded = Inr sample_batch"
proof -
  have "\<exists>encoded. encode_committed_batch sample_env sample_batch = Inr encoded"
    by (simp add: encode_simps sample_batch_def tag_def)
  moreover have "list_all (effect_encodable sample_env) (effects sample_batch)"
    by (simp add: sample_batch_def)
  ultimately show ?thesis using committed_batch_roundtrip [of sample_env sample_batch] by blast
qed

text \<open>
  C21. The checksummed binlog record format is unambiguous: the decoder accepts a record of at
  most the format limit, as checksummed, with a given sequence and payload, exactly when the
  record is what the encoder writes for that sequence and that non-empty payload. A record whose
  magic, embedded length, sequence, payload or checksum was altered is therefore rejected unless
  it is byte for byte another encoding.
\<close>

theorem binlog_record_exact:
  "decode_binlog_record E rec = Inr (Versioned sequence eff Checksummed) \<and> length rec \<le> MAX_BINLOG_RECORD_SIZE \<longleftrightarrow>
   encode_versioned_binlog_record_into E sequence eff [] = Inr rec \<and> eff \<noteq> []"
  using decode_binlog_exact [of E rec sequence eff] decode_binlog_roundtrip [of sequence eff E]
  by (auto simp: encode_versioned_Inr binlog_ok_def binlog_length)

text \<open>
  Binlog segment names and end sequences are in bijection: a file name parses to an end
  sequence exactly when it is the name the writer gives that non-zero sequence.
\<close>

theorem binlog_segment_name_exact:
  "parse_binlog_segment_end_sequence name = Inr (Some n) \<longleftrightarrow> n \<noteq> 0 \<and> name = binlog_segment n"
  by (rule segment_name_exact)

end
