(* ===== verification/Resp.thy ===== *)
theory Resp
  imports Codec
begin

text \<open>
  \<open>src/resp.rs\<close>: the RESP command codec. Commands are decoded in two ways, from a buffer that
  may hold an incomplete frame (\<open>decode_buffered_command\<close>) and from a stream that delivers
  its bytes in arbitrary chunks (\<open>read_command_with_limits\<close>). A stream is the list of the
  chunks it still delivers before it ends.
\<close>

section \<open>Types and limits\<close>

datatype io_error = InvalidData bytes | UnexpectedEof bytes | TimedOut bytes

datatype resp_value =
    SimpleString bytes
  | Error bytes
  | Integer i64
  | BulkString "bytes option"
  | Array "resp_value list"

record resp_limits =
  max_array_len :: nat
  max_bulk_len :: nat
  max_inline_len :: nat
  max_frame_len :: nat

definition CLIENT_RESP_LIMITS :: resp_limits where
  "CLIENT_RESP_LIMITS = \<lparr>max_array_len = 1024, max_bulk_len = 8 * 1024 * 1024, max_inline_len = 64 * 1024,
     max_frame_len = 16 * 1024 * 1024\<rparr>"

definition MAX_RESP_HEADER_LINE_SIZE :: nat where
  "MAX_RESP_HEADER_LINE_SIZE = 64"

definition LF :: byte where
  "LF = CHR 0x0A"

definition CR :: byte where
  "CR = CHR 0x0D"

definition CRLF :: bytes where
  "CRLF = [CR, LF]"

abbreviation invalid_data :: "bytes \<Rightarrow> io_error + 'a" where
  "invalid_data msg \<equiv> Inl (InvalidData msg)"

definition valid_or :: "bytes \<Rightarrow> 'a option \<Rightarrow> io_error + 'a" where
  "valid_or msg r = (case r of None \<Rightarrow> invalid_data msg | Some a \<Rightarrow> Inr a)"

lemma valid_or_simps [simp]: "valid_or msg None = invalid_data msg" "valid_or msg (Some a) = Inr a"
  by (simp_all add: valid_or_def)

lemma valid_or_Inr: "valid_or msg r = Inr a \<longleftrightarrow> r = Some a"
  by (cases r) simp_all

section \<open>Lines and numbers\<close>

definition position_newline :: "bytes \<Rightarrow> nat option" where
  "position_newline bs = (let i = length (takeWhile (\<lambda>b. b \<noteq> LF) bs) in if i < length bs then Some i else None)"

definition strip_suffix :: "bytes \<Rightarrow> bytes \<Rightarrow> bytes option" where
  "strip_suffix suf bs = (let n = length bs - length suf in
     if length suf \<le> length bs \<and> drop n bs = suf then Some (take n bs) else None)"

definition strip_prefix :: "bytes \<Rightarrow> bytes \<Rightarrow> bytes option" where
  "strip_prefix p bs = (if starts_with bs p then Some (drop (length p) bs) else None)"

definition line_content :: "bytes \<Rightarrow> io_error + bytes" where
  "line_content line = valid_or ''RESP line is missing its CRLF terminator'' (strip_suffix CRLF line)"

fun decimal_fold :: "bytes \<Rightarrow> nat \<Rightarrow> nat option" where
  "decimal_fold [] v = Some v"
| "decimal_fold (b # bs) v = Option.bind (Option.bind (checked_mul v 10) (\<lambda>v. checked_add v (of_char b - 48))) (decimal_fold bs)"

definition parse_decimal :: "bytes \<Rightarrow> bytes \<Rightarrow> io_error + nat" where
  "parse_decimal bs field =
     (if bs = [] \<or> \<not> list_all (between 48 57) bs then invalid_data field else valid_or field (decimal_fold bs 0))"

definition is_ascii_space :: "byte \<Rightarrow> bool" where
  "is_ascii_space b \<longleftrightarrow> (of_char b :: nat) \<in> {9, 10, 12, 13, 32}"

fun split_ascii_whitespace :: "bytes \<Rightarrow> bytes \<Rightarrow> bytes list" where
  "split_ascii_whitespace [] acc = (if acc = [] then [] else [acc])"
| "split_ascii_whitespace (b # bs) acc =
     (if is_ascii_space b then (if acc = [] then [] else [acc]) @ split_ascii_whitespace bs []
      else split_ascii_whitespace bs (acc @ [b]))"

section \<open>Decoding from a buffer\<close>

definition parse_inline :: "resp_limits \<Rightarrow> bytes \<Rightarrow> io_error + bytes list" where
  "parse_inline limits first_line = (case str_of_bytes first_line of
      None \<Rightarrow> invalid_data ''RESP inline command is not valid UTF-8''
    | Some inline \<Rightarrow> let parts = split_ascii_whitespace inline [] in
        if parts = [] then invalid_data ''RESP inline command is empty''
        else if max_array_len limits < length parts then invalid_data ''RESP command has too many arguments''
        else Inr parts)"

definition parse_array_header :: "resp_limits \<Rightarrow> bytes \<Rightarrow> io_error + nat" where
  "parse_array_header limits first_line =
     and_then (valid_or ''RESP array header is malformed'' (strip_prefix ''*'' first_line)) (\<lambda>digits.
     and_then (parse_decimal digits ''RESP array length is invalid'') (\<lambda>argument_count.
       if argument_count = 0 then invalid_data ''RESP command array must not be empty''
       else if max_array_len limits < argument_count then invalid_data ''RESP command has too many arguments''
       else Inr argument_count))"

definition parse_bulk_header :: "resp_limits \<Rightarrow> bytes \<Rightarrow> io_error + nat" where
  "parse_bulk_header limits bulk_header =
     and_then (valid_or ''RESP command arguments must be bulk strings'' (strip_prefix ''$'' bulk_header)) (\<lambda>digits.
     and_then (parse_decimal digits ''RESP bulk string length is invalid'') (\<lambda>bulk_length.
       if max_bulk_len limits < bulk_length then invalid_data ''RESP bulk string exceeds the protocol limit''
       else Inr bulk_length))"

definition maximum_first_line_size :: "resp_limits \<Rightarrow> byte \<Rightarrow> nat" where
  "maximum_first_line_size limits first_byte =
     (if first_byte = CHR ''*'' then min MAX_RESP_HEADER_LINE_SIZE (max_frame_len limits)
      else min (max_inline_len limits) (max_frame_len limits))"

fun decode_args :: "resp_limits \<Rightarrow> bytes \<Rightarrow> nat \<Rightarrow> nat \<Rightarrow> io_error + (bytes list \<times> nat) option" where
  "decode_args limits input 0 cursor = Inr (Some ([], cursor))"
| "decode_args limits input (Suc n) cursor = (let remaining = drop cursor input in
     case position_newline remaining of
       None \<Rightarrow> if MAX_RESP_HEADER_LINE_SIZE < length remaining then invalid_data ''RESP line exceeds the protocol limit''
               else Inr None
     | Some relative_newline \<Rightarrow> let header_length = relative_newline + 1 in
         if MAX_RESP_HEADER_LINE_SIZE < header_length then invalid_data ''RESP line exceeds the protocol limit''
         else and_then (line_content (take header_length remaining)) (\<lambda>bulk_header.
           and_then (parse_bulk_header limits bulk_header) (\<lambda>bulk_length.
           and_then (valid_or ''RESP frame length overflow'' (checked_add cursor header_length)) (\<lambda>payload_start.
           and_then (valid_or ''RESP bulk string length overflow'' (checked_add payload_start bulk_length)) (\<lambda>payload_end.
           and_then (valid_or ''RESP bulk string length overflow'' (checked_add payload_end 2)) (\<lambda>frame_end.
             if max_frame_len limits < frame_end then invalid_data ''RESP frame exceeds the aggregate protocol limit''
             else if length input < frame_end then Inr None
             else if take 2 (drop payload_end input) \<noteq> CRLF
               then invalid_data ''RESP bulk string is missing its CRLF terminator''
             else let payload = take bulk_length (drop payload_start input) in
               if \<not> utf8_valid payload then invalid_data ''RESP command argument is not valid UTF-8''
               else and_then (decode_args limits input n frame_end) (\<lambda>r.
                 Inr (map_option (\<lambda>(args, c). (payload # args, c)) r))))))))"

definition decode_buffered_command :: "bytes \<Rightarrow> resp_limits \<Rightarrow> io_error + (bytes list \<times> nat) option" where
  "decode_buffered_command input limits = (case input of
      [] \<Rightarrow> Inr None
    | first_byte # _ \<Rightarrow> (case position_newline input of
        None \<Rightarrow> if maximum_first_line_size limits first_byte < length input
                then invalid_data ''RESP line exceeds the protocol limit'' else Inr None
      | Some first_newline \<Rightarrow> let first_line_end = first_newline + 1 in
          if maximum_first_line_size limits first_byte < first_line_end
          then invalid_data ''RESP line exceeds the protocol limit''
          else and_then (line_content (take first_line_end input)) (\<lambda>first_line.
            if first_byte \<noteq> CHR ''*'' then and_then (parse_inline limits first_line) (\<lambda>parts. Inr (Some (parts, first_line_end)))
            else and_then (parse_array_header limits first_line) (\<lambda>argument_count.
              decode_args limits input argument_count first_line_end))))"

section \<open>Encoding\<close>

fun args_length :: "resp_limits \<Rightarrow> bytes list \<Rightarrow> nat \<Rightarrow> io_error + nat" where
  "args_length limits [] frame_length = Inr frame_length"
| "args_length limits (argument # arguments) frame_length =
     (if max_bulk_len limits < length argument then invalid_data ''RESP bulk string exceeds the protocol limit''
      else and_then (valid_or ''RESP frame length overflow'' (Option.bind (checked_add frame_length 1)
          (\<lambda>l. Option.bind (checked_add l (length (nat_to_string (length argument))))
          (\<lambda>l. Option.bind (checked_add l 2)
          (\<lambda>l. Option.bind (checked_add l (length argument))
          (\<lambda>l. checked_add l 2))))))
        (args_length limits arguments))"

definition bulk :: "bytes \<Rightarrow> bytes" where
  "bulk argument = ''$'' @ nat_to_string (length argument) @ CRLF @ argument @ CRLF"

definition encode_command :: "bytes list \<Rightarrow> bytes \<Rightarrow> resp_limits \<Rightarrow> io_error + bytes" where
  "encode_command arguments output limits =
     (if arguments = [] then invalid_data ''RESP command must not be empty''
      else if max_array_len limits < length arguments then invalid_data ''RESP command has too many arguments''
      else and_then (valid_or ''RESP frame length overflow'' (Option.bind
            (checked_add 1 (length (nat_to_string (length arguments)))) (\<lambda>l. checked_add l 2))) (\<lambda>header_length.
        and_then (args_length limits arguments header_length) (\<lambda>frame_length.
          if max_frame_len limits < frame_length then invalid_data ''RESP frame exceeds the aggregate protocol limit''
          else Inr (output @ ''*'' @ nat_to_string (length arguments) @ CRLF @ concat (map bulk arguments)))))"

fun encode_into :: "resp_value \<Rightarrow> bytes \<Rightarrow> bytes" and encode_items :: "resp_value list \<Rightarrow> bytes \<Rightarrow> bytes" where
  "encode_into (SimpleString s) buf = buf @ ''+'' @ s @ CRLF"
| "encode_into (Error s) buf = buf @ ''-'' @ s @ CRLF"
| "encode_into (Integer n) buf = buf @ '':'' @ i64_to_string n @ CRLF"
| "encode_into (BulkString None) buf = buf @ ''$-1'' @ CRLF"
| "encode_into (BulkString (Some s)) buf = buf @ ''$'' @ nat_to_string (length s) @ CRLF @ s @ CRLF"
| "encode_into (Array arr) buf = encode_items arr (buf @ ''*'' @ nat_to_string (length arr) @ CRLF)"
| "encode_items [] buf = buf"
| "encode_items (item # items) buf = encode_items items (encode_into item buf)"

section \<open>Reading from a stream\<close>

fun fill_buf :: "bytes list \<Rightarrow> bytes list" where
  "fill_buf [] = []"
| "fill_buf (c # cs) = (if c = [] then fill_buf cs else c # cs)"

lemma fill_buf_concat [simp]: "concat (fill_buf cs) = concat cs"
  by (induction cs) auto

lemma fill_buf_hd: "fill_buf cs = c # cs' \<Longrightarrow> c \<noteq> []"
  by (induction cs) (auto split: if_splits)

lemma fill_buf_Nil: "fill_buf cs = [] \<longleftrightarrow> concat cs = []"
  by (induction cs) auto

definition line_limit :: "nat \<Rightarrow> nat \<Rightarrow> nat option" where
  "line_limit maximum_size used = Option.bind (checked_add maximum_size 1)
     (\<lambda>limit. if used \<le> limit then Some (limit - used) else None)"

lemma line_limit_Some: "line_limit m u = Some r \<Longrightarrow> u + r = m + 1"
  by (auto simp: line_limit_def checked_add_def bind_eq_Some_conv split: if_splits)

function read_bounded_line_loop :: "nat \<Rightarrow> bytes \<Rightarrow> bytes list \<Rightarrow> (io_error + bytes) \<times> bytes list" where
  "read_bounded_line_loop maximum_size scratch chunks = (case fill_buf chunks of
      [] \<Rightarrow> (Inr scratch, [])
    | available # later \<Rightarrow>
        let available_length = (case position_newline available of None \<Rightarrow> length available | Some p \<Rightarrow> p + 1)
        in case line_limit maximum_size (length scratch) of
             None \<Rightarrow> (invalid_data ''RESP line exceeds the protocol limit'', available # later)
           | Some remaining \<Rightarrow>
               let copied = min available_length remaining;
                   scratch' = scratch @ take copied available;
                   chunks' = drop copied available # later
               in if maximum_size < length scratch' then (invalid_data ''RESP line exceeds the protocol limit'', chunks')
                  else if copied = available_length \<and> scratch' \<noteq> [] \<and> last scratch' = LF then (Inr scratch', chunks')
                  else read_bounded_line_loop maximum_size scratch' chunks')"
  by pat_completeness auto

termination
proof (relation "measure (\<lambda>(_, _, chunks). length (concat chunks))", goal_cases)
  case 1 show ?case by simp
next
  case (2 m scratch chunks available later alen r copied scratch' chunks')
  have "available \<noteq> []" using 2(1) by (rule fill_buf_hd)
  moreover have "0 < alen" using \<open>available \<noteq> []\<close> 2(2) by (auto split: option.splits)
  moreover have "0 < r" using line_limit_Some [OF 2(3)] 2(4-7) by auto
  moreover have "length (concat chunks) = length available + length (concat later)"
    using 2(1) fill_buf_concat [of chunks] by (metis concat.simps(2) length_append)
  ultimately show ?case using 2(4,6) by (simp add: min_def)
qed

declare read_bounded_line_loop.simps [simp del]

definition read_bounded_line :: "nat \<Rightarrow> bytes list \<Rightarrow> (io_error + bytes) \<times> bytes list" where
  "read_bounded_line maximum_size chunks = read_bounded_line_loop maximum_size [] chunks"

fun read_exact :: "nat \<Rightarrow> bytes list \<Rightarrow> (io_error + bytes) \<times> bytes list" where
  "read_exact 0 chunks = (Inr [], chunks)"
| "read_exact (Suc n) [] = (Inl (UnexpectedEof ''early eof''), [])"
| "read_exact (Suc n) (c # cs) =
     (if Suc n \<le> length c then (Inr (take (Suc n) c), drop (Suc n) c # cs)
      else (case read_exact (Suc n - length c) cs of (r, cs') \<Rightarrow> (map_sum id (\<lambda>bs. c @ bs) r, cs')))"

fun read_args :: "resp_limits \<Rightarrow> nat \<Rightarrow> nat \<Rightarrow> bytes list \<Rightarrow> (io_error + bytes list) \<times> bytes list" where
  "read_args limits 0 frame_length chunks = (Inr [], chunks)"
| "read_args limits (Suc n) frame_length chunks =
     (case read_bounded_line MAX_RESP_HEADER_LINE_SIZE chunks of
       (Inl err, chunks1) \<Rightarrow> (Inl err, chunks1)
     | (Inr line, chunks1) \<Rightarrow> let header_length = length line in
         if header_length = 0 then (Inl (UnexpectedEof ''RESP command ended before a bulk string header''), chunks1)
         else (case and_then (line_content line) (\<lambda>bulk_header.
             and_then (parse_bulk_header limits bulk_header) (\<lambda>bulk_length.
             and_then (valid_or ''RESP bulk string length overflow'' (checked_add bulk_length 2)) (\<lambda>encoded_bulk_length.
             and_then (valid_or ''RESP frame length overflow'' (Option.bind (checked_add frame_length header_length)
               (\<lambda>l. checked_add l encoded_bulk_length))) (\<lambda>projected.
               if max_frame_len limits < projected then invalid_data ''RESP frame exceeds the aggregate protocol limit''
               else Inr (bulk_length, projected))))) of
           Inl err \<Rightarrow> (Inl err, chunks1)
         | Inr (bulk_length, projected_frame_length) \<Rightarrow> (case read_exact bulk_length chunks1 of
             (Inl err, chunks2) \<Rightarrow> (Inl err, chunks2)
           | (Inr payload, chunks2) \<Rightarrow> (case read_exact 2 chunks2 of
               (Inl err, chunks3) \<Rightarrow> (Inl err, chunks3)
             | (Inr terminator, chunks3) \<Rightarrow>
                 if terminator \<noteq> CRLF then (invalid_data ''RESP bulk string is missing its CRLF terminator'', chunks3)
                 else if \<not> utf8_valid payload then (invalid_data ''RESP command argument is not valid UTF-8'', chunks3)
                 else (case read_args limits n projected_frame_length chunks3 of
                   (r, chunks4) \<Rightarrow> (map_sum id (\<lambda>args. payload # args) r, chunks4))))))"

definition read_command_with_limits :: "resp_limits \<Rightarrow> bytes list \<Rightarrow> (io_error + bytes list option) \<times> bytes list" where
  "read_command_with_limits limits chunks = (case fill_buf chunks of
      [] \<Rightarrow> (Inr None, [])
    | available # later \<Rightarrow> let first_byte = hd available in
        (case read_bounded_line (maximum_first_line_size limits first_byte) (available # later) of
          (Inl err, chunks1) \<Rightarrow> (Inl err, chunks1)
        | (Inr line, chunks1) \<Rightarrow>
            if length line = 0 then (Inr None, chunks1)
            else (case line_content line of
                Inl err \<Rightarrow> (Inl err, chunks1)
              | Inr first_line \<Rightarrow>
                  if first_byte \<noteq> CHR ''*'' then (map_sum id Some (parse_inline limits first_line), chunks1)
                  else (case parse_array_header limits first_line of
                      Inl err \<Rightarrow> (Inl err, chunks1)
                    | Inr argument_count \<Rightarrow> (case read_args limits argument_count (length line) chunks1 of
                        (r, chunks2) \<Rightarrow> (map_sum id Some r, chunks2))))))"

section \<open>Lines and numbers of an encoded command\<close>

lemma parse_digits_mono: "parse_digits bs v = Some n \<Longrightarrow> v \<le> n"
proof (induction bs arbitrary: v)
  case (Cons b bs)
  then obtain d where "parse_digits bs (10 * v + d) = Some n" by (auto split: option.splits)
  from Cons.IH [OF this] show ?case by simp
qed simp

lemma decimal_fold_parse: "parse_digits bs v = Some n \<Longrightarrow> n \<le> usize_max \<Longrightarrow> decimal_fold bs v = Some n"
proof (induction bs arbitrary: v)
  case (Cons b bs)
  then obtain d where d: "digit_val b = Some d" and p: "parse_digits bs (10 * v + d) = Some n"
    by (auto split: option.splits)
  have "10 * v + d \<le> usize_max" using parse_digits_mono [OF p] Cons.prems(2) by simp
  moreover have "of_char b - 48 = d" using d by (simp add: digit_val_def split: if_splits)
  ultimately show ?case
    using Cons.IH [OF p Cons.prems(2)] by (simp add: checked_mul_def checked_add_def mult.commute)
qed simp

lemma parse_decimal_print: "n \<le> usize_max \<Longrightarrow> parse_decimal (nat_to_string n) field = Inr n"
  using nat_to_string_head [of n] nat_to_string_digits [of _ n] decimal_fold_parse [OF parse_nat_to_string, of n]
  by (auto simp: parse_decimal_def list_all_iff)

lemma digits_no_LF: "LF \<notin> set (nat_to_string n)"
  using nat_to_string_digits [of LF n] by (auto simp: LF_def between_def)

lemma position_newline_None: "LF \<notin> set xs \<Longrightarrow> position_newline xs = None"
proof -
  assume "LF \<notin> set xs"
  then have "takeWhile (\<lambda>b. b \<noteq> LF) xs = xs" by (auto intro: takeWhile_eq_all_conv [THEN iffD2])
  then show ?thesis unfolding position_newline_def Let_def by (simp only: less_irrefl if_False)
qed

lemma position_newline_append: "LF \<notin> set xs \<Longrightarrow> position_newline (xs @ LF # ys) = Some (length xs)"
proof -
  assume "LF \<notin> set xs"
  then have "takeWhile (\<lambda>b. b \<noteq> LF) (xs @ LF # ys) = xs" by (auto simp: takeWhile_append)
  then show ?thesis by (simp add: position_newline_def)
qed

lemma position_newline_Some:
  assumes "position_newline xs = Some p"
  shows "p < length xs" "xs ! p = LF" "LF \<notin> set (take p xs)"
proof -
  let ?t = "takeWhile (\<lambda>b. b \<noteq> LF) xs"
  from assms have p: "p = length ?t" "length ?t < length xs" by (auto simp: position_newline_def Let_def split: if_splits)
  show "p < length xs" using p by simp
  show "xs ! p = LF" using p nth_length_takeWhile [of "\<lambda>b. b \<noteq> LF" xs] by simp
  have "take p xs = ?t" using p(1) by (metis append_eq_conv_conj takeWhile_dropWhile_id)
  then show "LF \<notin> set (take p xs)" by (metis set_takeWhileD)
qed

lemma position_newline_None_iff: "position_newline xs = None \<longleftrightarrow> LF \<notin> set xs"
proof
  assume "position_newline xs = None"
  then have "\<not> length (takeWhile (\<lambda>b. b \<noteq> LF) xs) < length xs"
    by (simp add: position_newline_def Let_def split: if_splits)
  then have "takeWhile (\<lambda>b. b \<noteq> LF) xs = xs"
    by (metis append_eq_conv_conj linorder_not_less takeWhile_dropWhile_id take_all)
  then show "LF \<notin> set xs" by (metis set_takeWhileD)
qed (rule position_newline_None)

lemma line_content_CRLF: "line_content (xs @ CRLF) = Inr xs"
  by (simp add: line_content_def strip_suffix_def CRLF_def)

lemma CR_not_LF [simp]: "CR \<noteq> LF" "LF \<noteq> CR"
  by (simp_all add: CR_def LF_def)

definition header :: "char \<Rightarrow> nat \<Rightarrow> bytes" where
  "header c n = c # nat_to_string n @ CRLF"

lemma header_line:
  assumes "c \<noteq> LF"
  shows "position_newline (header c n @ s) = Some (length (header c n) - 1)"
proof -
  have "header c n @ s = (c # nat_to_string n @ [CR]) @ LF # s" by (simp add: header_def CRLF_def)
  moreover have "LF \<notin> set (c # nat_to_string n @ [CR])" using assms digits_no_LF by simp
  ultimately show ?thesis using position_newline_append by (metis header_def CRLF_def append.assoc append_Cons
      append_Nil diff_Suc_1 length_append_singleton)
qed

lemma header_content: "line_content (header c n) = Inr (c # nat_to_string n)"
  using line_content_CRLF [of "c # nat_to_string n"] by (simp add: header_def)

lemma header_length: "n \<le> usize_max \<Longrightarrow> length (header c n) \<le> 23" "0 < length (header c n)"
  using nat_to_string_length [of n 19] by (simp_all add: header_def CRLF_def usize_max_def)

lemma header_prefix: "xs @ t = header c n \<Longrightarrow> t \<noteq> [] \<Longrightarrow> c \<noteq> LF \<Longrightarrow> LF \<notin> set xs"
proof -
  assume eq: "xs @ t = header c n" and t: "t \<noteq> []" and c: "c \<noteq> LF"
  have "xs @ butlast t = c # nat_to_string n @ [CR]"
    using arg_cong [OF eq, of butlast] t by (simp add: butlast_append header_def CRLF_def)
  then have "set xs \<subseteq> set (c # nat_to_string n @ [CR])" by (metis set_append sup_ge1)
  with c digits_no_LF show "LF \<notin> set xs" by auto
qed

lemma bulk_header: "bulk a = header CHR ''$'' (length a) @ a @ CRLF"
  by (simp add: bulk_def header_def)

lemma parse_bulk_header_print:
  "length a \<le> max_bulk_len limits \<Longrightarrow> length a \<le> usize_max \<Longrightarrow>
    parse_bulk_header limits (CHR ''$'' # nat_to_string (length a)) = Inr (length a)"
  by (simp add: parse_bulk_header_def strip_prefix_def starts_with_def parse_decimal_print)

section \<open>Decoding what was encoded\<close>

lemmas decode_args_Suc = decode_args.simps(2)

declare decode_args.simps(2) [simp del]

lemma decode_args_header:
  fixes len :: nat
  defines "h \<equiv> header CHR ''$'' len"
  assumes "drop cursor input = h @ tail" and "len \<le> max_bulk_len limits" and "cursor + length h + len + 2 \<le> usize_max"
  shows "decode_args limits input (Suc n) cursor = (let payload_start = cursor + length h; payload_end = payload_start + len in
    if max_frame_len limits < payload_end + 2 then invalid_data ''RESP frame exceeds the aggregate protocol limit''
    else if length input < payload_end + 2 then Inr None
    else if take 2 (drop payload_end input) \<noteq> CRLF then invalid_data ''RESP bulk string is missing its CRLF terminator''
    else let payload = take len (drop payload_start input) in
      if \<not> utf8_valid payload then invalid_data ''RESP command argument is not valid UTF-8''
      else and_then (decode_args limits input n (payload_end + 2)) (\<lambda>r.
        Inr (map_option (\<lambda>(args, c). (payload # args, c)) r)))"
proof -
  have nl: "position_newline (h @ tail) = Some (length h - 1)" unfolding h_def by (rule header_line) (simp add: LF_def)
  have hl: "length h - 1 + 1 = length h" using header_length(2) [of "CHR ''$''" len] by (simp add: h_def)
  have "length h \<le> MAX_RESP_HEADER_LINE_SIZE"
    using header_length(1) [of len "CHR ''$''"] assms(4) by (simp add: MAX_RESP_HEADER_LINE_SIZE_def h_def)
  then have h64: "\<not> MAX_RESP_HEADER_LINE_SIZE < length h" by simp
  have content: "line_content h = Inr (CHR ''$'' # nat_to_string len)" by (simp add: h_def header_content)
  have "parse_bulk_header limits (CHR ''$'' # nat_to_string len) = Inr len"
    using parse_bulk_header_print [of "replicate len CHR ''a''" limits] assms(3,4) by simp
  moreover have "checked_add cursor (length h) = Some (cursor + length h)"
    "checked_add (cursor + length h) len = Some (cursor + length h + len)"
    "checked_add (cursor + length h + len) 2 = Some (cursor + length h + len + 2)"
    using assms(4) by (simp_all add: checked_add_def)
  ultimately show ?thesis
    unfolding decode_args_Suc Let_def assms(2) nl option.case hl by (simp add: h64 content del: One_nat_def)
qed

lemma decode_args_step:
  assumes "utf8_valid a" and "length a \<le> max_bulk_len limits"
    and "length (pre @ bulk a) \<le> max_frame_len limits" and "max_frame_len limits \<le> usize_max"
  shows "decode_args limits (pre @ bulk a @ s) (Suc n) (length pre) =
    and_then (decode_args limits (pre @ bulk a @ s) n (length (pre @ bulk a)))
      (\<lambda>r. Inr (map_option (\<lambda>(args, c). (a # args, c)) r))"
proof -
  let ?h = "header CHR ''$'' (length a)"
  let ?input = "pre @ bulk a @ s"
  have total: "length (pre @ bulk a) = length pre + length ?h + length a + 2" by (simp add: bulk_header CRLF_def)
  have d: "drop (length pre + length ?h) ?input = a @ CRLF @ s" "drop (length pre + length ?h + length a) ?input = CRLF @ s"
    "drop (length pre) ?input = ?h @ a @ CRLF @ s" by (simp_all add: bulk_header)
  have "take 2 (CRLF @ s) = CRLF" by (simp add: CRLF_def)
  with decode_args_header [OF d(3) assms(2), of n] assms d(1,2) show ?thesis
    unfolding total by (simp add: Let_def bulk_header CRLF_def del: drop_append)
qed

lemma decode_args_short:
  assumes "length a \<le> max_bulk_len limits"
    and "length (pre @ bulk a) \<le> max_frame_len limits" and "max_frame_len limits \<le> usize_max"
    and "s @ t = bulk a" and "t \<noteq> []"
  shows "decode_args limits (pre @ s) (Suc n) (length pre) = Inr None"
proof -
  let ?h = "header CHR ''$'' (length a)"
  have total: "length (pre @ bulk a) = length pre + length ?h + length a + 2" by (simp add: bulk_header CRLF_def)
  have st: "s @ t = ?h @ a @ CRLF" using assms(4) by (simp add: bulk_header)
  show ?thesis
  proof (cases "length s < length ?h")
    case True
    then obtain t' where t': "s @ t' = ?h" using st by (auto simp: append_eq_append_conv2)
    with True have "t' \<noteq> []" by auto
    with t' have "LF \<notin> set s" by (rule header_prefix) (simp add: LF_def)
    moreover have "length ?h \<le> 23" using header_length(1) total assms(2,3) by simp
    ultimately show ?thesis using True by (simp add: decode_args_Suc position_newline_None MAX_RESP_HEADER_LINE_SIZE_def)
  next
    case False
    then have "take (length ?h) s = ?h" using st by (metis append_eq_conv_conj linorder_not_less take_append
      append_Nil2 diff_is_0_eq take0)
    then have "drop (length pre) (pre @ s) = ?h @ drop (length ?h) s"
      by (metis append_eq_conv_conj append_take_drop_id)
    note step = decode_args_header [OF this assms(1), of n]
    have "length s < length (bulk a)" using assms(4,5) by (metis length_append length_greater_0_conv less_add_same_cancel1)
    with total assms(2,3) step show ?thesis by (simp add: Let_def)
  qed
qed

lemma decode_args_all:
  "list_all (\<lambda>a. utf8_valid a \<and> length a \<le> max_bulk_len limits) args \<Longrightarrow>
    length (pre @ concat (map bulk args)) \<le> max_frame_len limits \<Longrightarrow> max_frame_len limits \<le> usize_max \<Longrightarrow>
    decode_args limits (pre @ concat (map bulk args) @ s) (length args) (length pre) =
      Inr (Some (args, length (pre @ concat (map bulk args))))"
proof (induction args arbitrary: pre)
  case (Cons a args)
  have "decode_args limits (pre @ bulk a @ concat (map bulk args) @ s) (Suc (length args)) (length pre) =
      and_then (decode_args limits (pre @ bulk a @ concat (map bulk args) @ s) (length args) (length (pre @ bulk a)))
        (\<lambda>r. Inr (map_option (\<lambda>(args, c). (a # args, c)) r))"
    using Cons.prems by (intro decode_args_step) auto
  with Cons.IH [of "pre @ bulk a"] Cons.prems show ?case by simp
qed simp

lemma decode_args_cut:
  "list_all (\<lambda>a. utf8_valid a \<and> length a \<le> max_bulk_len limits) args \<Longrightarrow>
    length (pre @ concat (map bulk args)) \<le> max_frame_len limits \<Longrightarrow> max_frame_len limits \<le> usize_max \<Longrightarrow>
    s @ t = concat (map bulk args) \<Longrightarrow> t \<noteq> [] \<Longrightarrow> decode_args limits (pre @ s) (length args) (length pre) = Inr None"
proof (induction args arbitrary: pre s)
  case (Cons a args)
  show ?case
  proof (cases "length s < length (bulk a)")
    case True
    with Cons.prems(4) obtain t' where t': "s @ t' = bulk a" "t' \<noteq> []"
      using split_short [of s t "bulk a" "concat (map bulk args)"] by auto
    from decode_args_short [OF _ _ Cons.prems(3) t', of pre "length args"] Cons.prems show ?thesis by simp
  next
    case False
    with Cons.prems(4) obtain s' where s': "s = bulk a @ s'" "s' @ t = concat (map bulk args)"
      using split_long [of s t "bulk a" "concat (map bulk args)"] by auto
    have "decode_args limits (pre @ bulk a @ s') (Suc (length args)) (length pre) =
        and_then (decode_args limits (pre @ bulk a @ s') (length args) (length (pre @ bulk a)))
          (\<lambda>r. Inr (map_option (\<lambda>(args, c). (a # args, c)) r))"
      using Cons.prems by (intro decode_args_step) auto
    with Cons.IH [of "pre @ bulk a" s'] Cons.prems s' show ?thesis by simp
  qed
qed simp

definition resp_frame :: "bytes list \<Rightarrow> bytes" where
  "resp_frame args = header CHR ''*'' (length args) @ concat (map bulk args)"

lemma bulk_length: "length (bulk a) = length (nat_to_string (length a)) + length a + 5"
  by (simp add: bulk_def CRLF_def)

lemma args_length_Inr: "args_length limits args l = Inr f \<Longrightarrow>
    list_all (\<lambda>a. length a \<le> max_bulk_len limits) args \<and> f = l + length (concat (map bulk args)) \<and> (l \<le> usize_max \<longrightarrow> f \<le> usize_max)"
proof (induction args arbitrary: l)
  case (Cons a args)
  let ?n = "l + 1 + length (nat_to_string (length a)) + 2 + length a + 2"
  have n: "?n = l + length (bulk a)" by (simp add: bulk_length)
  from Cons.prems have "length a \<le> max_bulk_len limits" "?n \<le> usize_max" "args_length limits args ?n = Inr f"
    by (auto simp: and_then_Inr valid_or_Inr bind_eq_Some_conv checked_add_def split: if_splits)
  then have a: "length a \<le> max_bulk_len limits" "l + length (bulk a) \<le> usize_max"
    "args_length limits args (l + length (bulk a)) = Inr f" unfolding n by simp_all
  from Cons.IH [OF a(3)] a show ?case by simp
qed simp

lemma encode_command_Inr:
  assumes "encode_command args output limits = Inr out"
  shows "out = output @ resp_frame args" "args \<noteq> []" "length args \<le> max_array_len limits"
    "list_all (\<lambda>a. length a \<le> max_bulk_len limits) args" "length (resp_frame args) \<le> max_frame_len limits"
    "length (resp_frame args) \<le> usize_max"
proof -
  from assms obtain f where f: "args_length limits args (length (header CHR ''*'' (length args))) = Inr f"
    and len: "length (header CHR ''*'' (length args)) \<le> usize_max" "f \<le> max_frame_len limits" and ne: "args \<noteq> []"
    "length args \<le> max_array_len limits" and out: "out = output @ resp_frame args"
    by (auto simp: encode_command_def and_then_Inr valid_or_Inr bind_eq_Some_conv checked_add_def header_def
        CRLF_def resp_frame_def split: if_splits)
  note a = args_length_Inr [OF f]
  show "out = output @ resp_frame args" "args \<noteq> []" "length args \<le> max_array_len limits" using out ne by simp_all
  show "list_all (\<lambda>a. length a \<le> max_bulk_len limits) args" "length (resp_frame args) \<le> max_frame_len limits"
    "length (resp_frame args) \<le> usize_max" using a len by (simp_all add: resp_frame_def)
qed

definition limits_ok :: "resp_limits \<Rightarrow> bool" where
  "limits_ok limits \<longleftrightarrow> max_array_len limits \<le> usize_max \<and> max_inline_len limits < usize_max \<and>
     max_frame_len limits + max_bulk_len limits + 66 \<le> usize_max"

lemma decode_frame_head:
  assumes "args \<noteq> []" and "length args \<le> max_array_len limits" and "length args \<le> usize_max"
    and "length (header CHR ''*'' (length args)) \<le> max_frame_len limits"
  shows "decode_buffered_command (header CHR ''*'' (length args) @ s) limits =
    decode_args limits (header CHR ''*'' (length args) @ s) (length args) (length (header CHR ''*'' (length args)))"
proof -
  let ?h = "header CHR ''*'' (length args)"
  have nl: "position_newline (?h @ s) = Some (length ?h - 1)" by (rule header_line) (simp add: LF_def)
  have hl: "length ?h - 1 + 1 = length ?h" using header_length(2) [of "CHR ''*''" "length args"] by simp
  have "\<not> maximum_first_line_size limits CHR ''*'' < length ?h"
    using header_length(1) [OF assms(3), of "CHR ''*''"] assms(4)
    by (simp add: maximum_first_line_size_def MAX_RESP_HEADER_LINE_SIZE_def)
  moreover have "parse_array_header limits (CHR ''*'' # nat_to_string (length args)) = Inr (length args)"
    using assms by (simp add: parse_array_header_def strip_prefix_def starts_with_def parse_decimal_print)
  moreover obtain tl where "?h @ s = CHR ''*'' # tl" by (simp add: header_def)
  ultimately show ?thesis
    using nl hl header_content [of "CHR ''*''" "length args"] append_eq_conv_conj [THEN iffD1, OF refl, of ?h s]
    by (simp add: decode_buffered_command_def Let_def del: One_nat_def append_eq_conv_conj)
qed

lemma decode_resp_frame:
  assumes "args \<noteq> []" and "length args \<le> max_array_len limits"
    and "list_all (\<lambda>a. utf8_valid a \<and> length a \<le> max_bulk_len limits) args"
    and "length (resp_frame args) \<le> max_frame_len limits" and "limits_ok limits"
  shows "decode_buffered_command (resp_frame args @ rest) limits = Inr (Some (args, length (resp_frame args)))"
proof -
  let ?h = "header CHR ''*'' (length args)"
  have max: "max_frame_len limits \<le> usize_max" "length args \<le> usize_max" using assms(2,5) by (simp_all add: limits_ok_def)
  have total: "length (?h @ concat (map bulk args)) \<le> max_frame_len limits" using assms(4) by (simp add: resp_frame_def)
  then have h: "length ?h \<le> max_frame_len limits" by simp
  show ?thesis
    using decode_frame_head [OF assms(1,2) max(2) h, of "concat (map bulk args) @ rest"]
      decode_args_all [OF assms(3) total max(1), of rest]
    by (simp add: resp_frame_def)
qed

text \<open>
  C23. RESP commands survive the wire in any segmentation. What \<open>encode_command\<close> appends for a
  command of UTF-8 arguments is decoded to that command from any buffer that starts with it,
  consuming exactly those bytes; and from a buffer that holds only a proper prefix of it the
  decoder reports an incomplete frame, never an error and never another command.
\<close>

theorem resp_command_roundtrip:
  assumes "encode_command args output limits = Inr out" and "list_all utf8_valid args" and "limits_ok limits"
  shows "\<exists>frame. out = output @ frame \<and>
    (\<forall>rest. decode_buffered_command (frame @ rest) limits = Inr (Some (args, length frame))) \<and>
    (\<forall>s t. frame = s @ t \<and> t \<noteq> [] \<longrightarrow> decode_buffered_command s limits = Inr None)"
proof (intro exI [of _ "resp_frame args"] conjI allI impI)
  note enc = encode_command_Inr [OF assms(1)]
  let ?h = "header CHR ''*'' (length args)"
  have ok: "list_all (\<lambda>a. utf8_valid a \<and> length a \<le> max_bulk_len limits) args"
    using enc(4) assms(2) by (simp add: list_all_iff)
  have max: "max_frame_len limits \<le> usize_max" using assms(3) by (simp add: limits_ok_def)
  have total: "length (?h @ concat (map bulk args)) \<le> max_frame_len limits" using enc(5) by (simp add: resp_frame_def)
  have n: "length args \<le> usize_max" using enc(3) assms(3) by (simp add: limits_ok_def)
  have h: "length ?h \<le> max_frame_len limits" using total by simp
  note head = decode_frame_head [OF enc(2,3) n h]
  show "out = output @ resp_frame args" by (rule enc(1))
  show "decode_buffered_command (resp_frame args @ rest) limits = Inr (Some (args, length (resp_frame args)))" for rest
    by (rule decode_resp_frame [OF enc(2,3) ok enc(5) assms(3)])
  show "decode_buffered_command s limits = Inr None" if "resp_frame args = s @ t \<and> t \<noteq> []" for s t
  proof (cases "length s < length ?h")
    case True
    with that obtain t' where t': "s @ t' = ?h" "t' \<noteq> []"
      using split_short [of s t ?h "concat (map bulk args)"] by (auto simp: resp_frame_def)
    then have nl: "LF \<notin> set s" by (rule header_prefix) (simp add: LF_def)
    show ?thesis
    proof (cases s)
      case (Cons c s')
      with t' have "c = CHR ''*''" by (simp add: header_def)
      with Cons True nl h header_length(1) [OF n, of "CHR ''*''"] show ?thesis
        by (simp add: decode_buffered_command_def position_newline_None maximum_first_line_size_def
            MAX_RESP_HEADER_LINE_SIZE_def)
    qed (simp add: decode_buffered_command_def)
  next
    case False
    with that obtain s' where s': "s = ?h @ s'" "s' @ t = concat (map bulk args)"
      using split_long [of s t ?h "concat (map bulk args)"] by (auto simp: resp_frame_def)
    from decode_args_cut [OF ok total max s'(2)] head [of s'] that s'(1) show ?thesis by simp
  qed
qed

theorem resp_command_roundtrip_witness:
  "decode_buffered_command (''*1'' @ CRLF @ ''$4'' @ CRLF @ ''PING'' @ CRLF @ ''*'') CLIENT_RESP_LIMITS =
     Inr (Some ([''PING''], 14))"
proof -
  have digits: "nat_to_string (Suc 0) = ''1''" "nat_to_string (Suc (Suc (Suc (Suc 0)))) = ''4''" by code_simp+
  have "encode_command [''PING''] [] CLIENT_RESP_LIMITS = Inr (''*1'' @ CRLF @ ''$4'' @ CRLF @ ''PING'' @ CRLF)"
    by (simp add: encode_command_def CLIENT_RESP_LIMITS_def checked_add_def usize_max_def digits bulk_def)
  moreover have "limits_ok CLIENT_RESP_LIMITS" by (simp add: limits_ok_def CLIENT_RESP_LIMITS_def usize_max_def)
  moreover have "list_all utf8_valid [''PING'']" by simp
  ultimately obtain frame where "frame = ''*1'' @ CRLF @ ''$4'' @ CRLF @ ''PING'' @ CRLF"
    "\<forall>rest. decode_buffered_command (frame @ rest) CLIENT_RESP_LIMITS = Inr (Some ([''PING''], length frame))"
    using resp_command_roundtrip [of "[''PING'']" "[]" CLIENT_RESP_LIMITS] by auto
  from this(1) spec [OF this(2), of "''*''"] show ?thesis by (simp add: CRLF_def)
qed

section \<open>Streams\<close>

definition line_len :: "bytes \<Rightarrow> nat" where
  "line_len s = (case position_newline s of None \<Rightarrow> length s | Some p \<Rightarrow> p + 1)"

text \<open>
  The line reader depends on the bytes only, not on how they are cut into chunks: it returns the
  line up to its newline, or everything when the stream ends first, or fails when the limit is
  passed.
\<close>

definition line_result :: "nat \<Rightarrow> bytes \<Rightarrow> (io_error + bytes) \<times> bytes list \<Rightarrow> bool" where
  "line_result m s r \<longleftrightarrow> (if m < line_len s then fst r = invalid_data ''RESP line exceeds the protocol limit''
     else fst r = Inr (take (line_len s) s) \<and> concat (snd r) = drop (line_len s) s)"

lemma line_len_no: "LF \<notin> set a \<Longrightarrow> line_len (a @ b) = length a + line_len b"
proof (cases "position_newline b")
  case None
  assume "LF \<notin> set a"
  with None show ?thesis
    using position_newline_None_iff [of b] position_newline_None_iff [of "a @ b"] by (simp add: line_len_def)
next
  case (Some p)
  assume no: "LF \<notin> set a"
  note p = position_newline_Some [OF Some]
  have "a @ b = (a @ take p b) @ LF # drop (Suc p) b" using p by (metis append.assoc id_take_nth_drop)
  moreover have "LF \<notin> set (a @ take p b)" using no p(3) by simp
  ultimately have "position_newline (a @ b) = Some (length (a @ take p b))" using position_newline_append by metis
  with p(1) Some show ?thesis by (simp add: line_len_def)
qed

lemma line_len_all: "LF \<notin> set a \<Longrightarrow> line_len a = length a"
  by (simp add: line_len_def position_newline_None)

lemma line_len_le: "line_len s \<le> length s"
  using position_newline_Some(1) [of s] by (auto simp: line_len_def Suc_le_eq split: option.splits)

lemma line_len_yes: "LF \<in> set a \<Longrightarrow> line_len (a @ b) = line_len a \<and> last (take (line_len a) a) = LF \<and> 0 < line_len a"
proof -
  assume "LF \<in> set a"
  then obtain p where Some: "position_newline a = Some p" using position_newline_None_iff [of a] by auto
  note p = position_newline_Some [OF this]
  have "a @ b = take p a @ LF # (drop (Suc p) a @ b)" using p by (metis append.assoc append_Cons id_take_nth_drop)
  moreover have "position_newline (take p a @ LF # (drop (Suc p) a @ b)) = Some p"
    using position_newline_append [OF p(3)] p(1) by simp
  ultimately have "position_newline (a @ b) = Some p" by (simp only:)
  with Some p(1,2) show ?thesis by (simp add: line_len_def take_Suc_conv_app_nth)
qed

lemma line_len_mono: "line_len a \<le> line_len (a @ b)"
  using line_len_yes [of a b] line_len_no [of a b] line_len_le [of a] by (cases "LF \<in> set a") auto

lemma line_len_pos: "a \<noteq> [] \<Longrightarrow> 0 < line_len a"
  by (auto simp: line_len_def split: option.splits)

lemma read_line_loop_spec:
  "LF \<notin> set scratch \<Longrightarrow> length scratch \<le> m \<Longrightarrow> m < usize_max \<Longrightarrow>
    line_result m (scratch @ concat chunks) (read_bounded_line_loop m scratch chunks)"
proof (induction m scratch chunks rule: read_bounded_line_loop.induct)
  case (1 m scratch chunks)
  show ?case
  proof (cases "fill_buf chunks")
    case Nil
    then have "concat chunks = []" by (simp add: fill_buf_Nil)
    then have "scratch @ concat chunks = scratch" by (simp only: append_Nil2)
    moreover have "read_bounded_line_loop m scratch chunks = (Inr scratch, [])"
      by (subst read_bounded_line_loop.simps) (simp add: Nil)
    ultimately show ?thesis using 1(2,3) by (simp only: line_result_def) (simp add: line_len_all)
  next
    case (Cons available later)
    have ne: "available \<noteq> []" using Cons by (rule fill_buf_hd)
    have s: "concat chunks = available @ concat later" using fill_buf_concat [of chunks] Cons by simp
    have len: "line_len (scratch @ concat chunks) = length scratch + line_len (available @ concat later)"
      using line_len_no [OF 1(2)] s by simp
    define r where "r = m + 1 - length scratch"
    let ?copied = "min (line_len available) r"
    let ?scratch = "scratch @ take ?copied available"
    let ?chunks = "drop ?copied available # later"
    have limit: "line_limit m (length scratch) = Some r"
      using 1(3,4) by (simp add: line_limit_def checked_add_def r_def)
    have unfolded: "read_bounded_line_loop m scratch chunks =
      (if m < length ?scratch then (invalid_data ''RESP line exceeds the protocol limit'', ?chunks)
       else if ?copied = line_len available \<and> ?scratch \<noteq> [] \<and> last ?scratch = LF then (Inr ?scratch, ?chunks)
       else read_bounded_line_loop m ?scratch ?chunks)"
      by (subst read_bounded_line_loop.simps) (simp only: Cons list.case limit option.case Let_def line_len_def)
    show ?thesis
    proof (cases "m < length ?scratch")
      case True
      then have "m < length scratch + line_len available" by simp
      also have "\<dots> \<le> line_len (scratch @ concat chunks)" using line_len_mono [of available "concat later"] len by simp
      finally show ?thesis using True unfolding unfolded by (simp add: line_result_def)
    next
      case False
      then have copied: "?copied = line_len available" using line_len_le [of available] 1(3)
        by (auto simp: min_def r_def split: if_splits)
      show ?thesis
      proof (cases "LF \<in> set available")
        case True
        note yes = line_len_yes [OF True, of "concat later"]
        have "last ?scratch = LF" unfolding copied using yes ne by (simp add: last_append)
        with False copied yes ne len line_len_le [of available] show ?thesis
          unfolding unfolded by (simp add: line_result_def s min_def)
      next
        case no: False
        have all: "line_len available = length available" using no by (rule line_len_all)
        have next_scratch: "?scratch = scratch @ available" "?chunks = [] # later" unfolding copied by (simp_all add: all)
        have lf: "LF \<notin> set (scratch @ available)" using no 1(2) by simp
        have last: "last (scratch @ available) \<noteq> LF" using no ne by (metis last_appendR last_in_set)
        have small: "\<not> m < length (scratch @ available)" using False unfolding next_scratch .
        have loop: "read_bounded_line_loop m scratch chunks = read_bounded_line_loop m (scratch @ available) ([] # later)"
          unfolding unfolded next_scratch using small last by simp
        have "line_result m ((scratch @ available) @ concat ([] # later)) (read_bounded_line_loop m (scratch @ available) ([] # later))"
          by (rule 1(1) [OF Cons refl limit refl refl refl, folded line_len_def, unfolded next_scratch])
             (use small last lf 1(4) in auto)
        then show ?thesis unfolding loop s by simp
      qed
    qed
  qed
qed

lemma read_bounded_line_spec: "m < usize_max \<Longrightarrow> line_result m (concat chunks) (read_bounded_line m chunks)"
  using read_line_loop_spec [of "[]" m chunks] by (simp add: read_bounded_line_def)

lemma read_exact_spec:
  "n \<le> length (concat cs) \<Longrightarrow> fst (read_exact n cs) = Inr (take n (concat cs)) \<and>
    concat (snd (read_exact n cs)) = drop n (concat cs)"
proof (induction n cs rule: read_exact.induct)
  case (3 n c cs)
  show ?case
  proof (cases "Suc n \<le> length c")
    case False
    with 3 show ?thesis by (simp add: case_prod_beta not_le)
  qed simp
qed simp_all

definition stream_agrees :: "bytes \<Rightarrow> io_error + ('a \<times> nat) option \<Rightarrow> (io_error + 'a) \<times> bytes list \<Rightarrow> bool" where
  "stream_agrees input r q \<longleftrightarrow> (case r of
      Inl err \<Rightarrow> fst q = Inl err
    | Inr None \<Rightarrow> True
    | Inr (Some (x, c)) \<Rightarrow> fst q = Inr x \<and> concat (snd q) = drop c input)"

text \<open>The part of a bulk string after its header line, in the two readers.\<close>

definition decode_body :: "resp_limits \<Rightarrow> bytes \<Rightarrow> nat \<Rightarrow> nat \<Rightarrow> nat \<Rightarrow> io_error + (bytes list \<times> nat) option" where
  "decode_body limits input n start len =
     (if max_frame_len limits < start + len + 2 then invalid_data ''RESP frame exceeds the aggregate protocol limit''
      else if length input < start + len + 2 then Inr None
      else if take 2 (drop (start + len) input) \<noteq> CRLF then invalid_data ''RESP bulk string is missing its CRLF terminator''
      else let payload = take len (drop start input) in
        if \<not> utf8_valid payload then invalid_data ''RESP command argument is not valid UTF-8''
        else and_then (decode_args limits input n (start + len + 2)) (\<lambda>r.
          Inr (map_option (\<lambda>(args, c). (payload # args, c)) r)))"

definition read_body :: "resp_limits \<Rightarrow> nat \<Rightarrow> nat \<Rightarrow> nat \<Rightarrow> bytes list \<Rightarrow> (io_error + bytes list) \<times> bytes list" where
  "read_body limits n start len chunks1 =
     (if max_frame_len limits < start + len + 2
      then (invalid_data ''RESP frame exceeds the aggregate protocol limit'', chunks1)
      else (case read_exact len chunks1 of
          (Inl err, chunks2) \<Rightarrow> (Inl err, chunks2)
        | (Inr payload, chunks2) \<Rightarrow> (case read_exact 2 chunks2 of
            (Inl err, chunks3) \<Rightarrow> (Inl err, chunks3)
          | (Inr terminator, chunks3) \<Rightarrow>
              if terminator \<noteq> CRLF then (invalid_data ''RESP bulk string is missing its CRLF terminator'', chunks3)
              else if \<not> utf8_valid payload then (invalid_data ''RESP command argument is not valid UTF-8'', chunks3)
              else (case read_args limits n (start + len + 2) chunks3 of
                (r, chunks4) \<Rightarrow> (map_sum id (\<lambda>args. payload # args) r, chunks4)))))"

lemma parse_bulk_header_bound: "parse_bulk_header limits h = Inr len \<Longrightarrow> len \<le> max_bulk_len limits"
  by (auto simp: parse_bulk_header_def and_then_Inr split: if_splits)

lemma decode_args_body:
  assumes "limits_ok limits" and "cursor \<le> max_frame_len limits"
    and "position_newline (drop cursor input) = Some p" and "p + 1 \<le> MAX_RESP_HEADER_LINE_SIZE"
  shows "decode_args limits input (Suc n) cursor =
    and_then (line_content (take (p + 1) (drop cursor input))) (\<lambda>h. and_then (parse_bulk_header limits h)
      (decode_body limits input n (cursor + (p + 1))))"
proof -
  have p: "checked_add cursor (p + 1) = Some (cursor + (p + 1))"
    using assms by (simp add: checked_add_def limits_ok_def MAX_RESP_HEADER_LINE_SIZE_def)
  have h64: "\<not> MAX_RESP_HEADER_LINE_SIZE < p + 1" using assms(4) by simp
  note step = decode_args_Suc [of limits input n cursor, unfolded Let_def assms(3) option.case p if_not_P [OF h64] valid_or_simps and_then_simps]
  show ?thesis
  proof (cases "and_then (line_content (take (p + 1) (drop cursor input))) (parse_bulk_header limits)")
    case (Inl err)
    then show ?thesis unfolding step by (auto simp: and_then_def split: sum.splits)
  next
    case (Inr len)
    then obtain h where h: "line_content (take (p + 1) (drop cursor input)) = Inr h" "parse_bulk_header limits h = Inr len"
      by (auto simp: and_then_Inr)
    from parse_bulk_header_bound [OF h(2)] assms
    have "checked_add (cursor + (p + 1)) len = Some (cursor + (p + 1) + len)"
      "checked_add (cursor + (p + 1) + len) 2 = Some (cursor + (p + 1) + len + 2)"
      by (simp_all add: checked_add_def limits_ok_def MAX_RESP_HEADER_LINE_SIZE_def)
    then show ?thesis unfolding step h and_then_simps decode_body_def Let_def by (simp only: valid_or_simps and_then_simps)
  qed
qed

lemma read_args_body:
  assumes "limits_ok limits" and "cursor \<le> max_frame_len limits" and "length line \<le> MAX_RESP_HEADER_LINE_SIZE"
    and "read_bounded_line MAX_RESP_HEADER_LINE_SIZE chunks = (Inr line, chunks1)" and "line \<noteq> []"
  shows "read_args limits (Suc n) cursor chunks =
    (case and_then (line_content line) (parse_bulk_header limits) of
      Inl err \<Rightarrow> (Inl err, chunks1)
    | Inr len \<Rightarrow> read_body limits n (cursor + length line) len chunks1)"
proof (cases "and_then (line_content line) (parse_bulk_header limits)")
  case (Inl err)
  then show ?thesis using assms(4,5) by (auto simp: and_then_def Let_def split: sum.splits)
next
  case (Inr len)
  then obtain h where h: "line_content line = Inr h" "parse_bulk_header limits h = Inr len"
    by (auto simp: and_then_Inr)
  from parse_bulk_header_bound [OF h(2)] assms(1-3)
  have c: "checked_add len 2 = Some (len + 2)" "checked_add cursor (length line) = Some (cursor + length line)"
    "checked_add (cursor + length line) (len + 2) = Some (cursor + length line + len + 2)"
    by (simp_all add: checked_add_def limits_ok_def MAX_RESP_HEADER_LINE_SIZE_def)
  have ne: "length line \<noteq> 0" using assms(5) by simp
  show ?thesis
    unfolding read_args.simps assms(4) prod.case sum.case Let_def if_not_P [OF ne] h c and_then_simps valid_or_simps
      Option.bind.simps read_body_def
    by (cases "max_frame_len limits < cursor + length line + len + 2") (simp_all only: if_True if_False sum.case prod.case)
qed

lemma body_agrees:
  assumes "concat chunks1 = drop start input" and "start \<le> length input"
    and "\<And>cursor chunks. cursor \<le> max_frame_len limits \<Longrightarrow> concat chunks = drop cursor input \<Longrightarrow>
      cursor \<le> length input \<Longrightarrow> stream_agrees input (decode_args limits input n cursor) (read_args limits n cursor chunks)"
  shows "stream_agrees input (decode_body limits input n start len) (read_body limits n start len chunks1)"
proof (cases "start + len + 2 \<le> max_frame_len limits \<and> start + len + 2 \<le> length input")
  case True
  have "len \<le> length (concat chunks1)" unfolding assms(1) using True by simp linarith
  from read_exact_spec [OF this] obtain later2
    where x: "read_exact len chunks1 = (Inr (take len (drop start input)), later2)" "concat later2 = drop (start + len) input"
    unfolding assms(1) by (cases "read_exact len chunks1") (simp add: add.commute)
  have "2 \<le> length (concat later2)" unfolding x(2) using True by simp linarith
  from read_exact_spec [OF this] obtain z
    where y: "read_exact 2 later2 = (Inr (take 2 (drop (start + len) input)), z)" "concat z = drop (start + len + 2) input"
    unfolding x(2) by (cases "read_exact 2 later2") (simp add: add.commute)
  have rest: "stream_agrees input (decode_args limits input n (start + len + 2)) (read_args limits n (start + len + 2) z)"
    using assms(3) [of "start + len + 2" z] y(2) True by simp
  have body: "read_body limits n start len chunks1 =
    (if take 2 (drop (start + len) input) \<noteq> CRLF then (invalid_data ''RESP bulk string is missing its CRLF terminator'', z)
     else if \<not> utf8_valid (take len (drop start input)) then (invalid_data ''RESP command argument is not valid UTF-8'', z)
     else (case read_args limits n (start + len + 2) z of
       (r, chunks4) \<Rightarrow> (map_sum id (\<lambda>args. take len (drop start input) # args) r, chunks4)))"
    unfolding read_body_def x(1) prod.case sum.case y(1) using True by (simp only: if_not_P not_less)
  show ?thesis
    using True rest unfolding body decode_body_def
    by (auto simp: stream_agrees_def Let_def case_prod_beta and_then_def split: sum.splits option.splits prod.splits)
next
  case False
  then show ?thesis by (auto simp: stream_agrees_def decode_body_def read_body_def)
qed

lemma args_agree:
  assumes "limits_ok limits"
  shows "cursor \<le> max_frame_len limits \<Longrightarrow> concat chunks = drop cursor input \<Longrightarrow> cursor \<le> length input \<Longrightarrow>
    stream_agrees input (decode_args limits input n cursor) (read_args limits n cursor chunks)"
proof (induction n arbitrary: cursor chunks)
  case (Suc n)
  let ?rem = "drop cursor input"
  let ?q = "read_bounded_line MAX_RESP_HEADER_LINE_SIZE chunks"
  have line: "line_result MAX_RESP_HEADER_LINE_SIZE ?rem ?q"
    using read_bounded_line_spec [of MAX_RESP_HEADER_LINE_SIZE chunks] Suc.prems(2)
    by (simp add: MAX_RESP_HEADER_LINE_SIZE_def usize_max_def)
  show ?case
  proof (cases "MAX_RESP_HEADER_LINE_SIZE < line_len ?rem")
    case True
    with line have "fst ?q = invalid_data ''RESP line exceeds the protocol limit''" by (simp add: line_result_def)
    then have "fst (read_args limits (Suc n) cursor chunks) = invalid_data ''RESP line exceeds the protocol limit''"
      by (simp add: case_prod_beta split: sum.splits)
    moreover have "decode_args limits input (Suc n) cursor = invalid_data ''RESP line exceeds the protocol limit''"
      using True by (simp add: decode_args_Suc line_len_def split: option.splits)
    ultimately show ?thesis by (simp add: stream_agrees_def)
  next
    case False
    show ?thesis
    proof (cases "position_newline ?rem")
      case None
      with False show ?thesis by (simp add: decode_args_Suc stream_agrees_def line_len_def)
    next
      case (Some p)
      note p = position_newline_Some [OF Some]
      have len: "line_len ?rem = p + 1" using Some by (simp add: line_len_def)
      let ?line = "take (p + 1) ?rem"
      have q: "?q = (Inr ?line, snd ?q)" "concat (snd ?q) = drop (cursor + (p + 1)) input"
        using line False len by (simp_all add: line_result_def prod_eq_iff add.commute)
      have l: "length ?line = p + 1" "?line \<noteq> []" using p(1) by auto
      have "length ?line \<le> MAX_RESP_HEADER_LINE_SIZE" using False len l by simp
      note stream = read_args_body [OF assms Suc.prems(1) this q(1) l(2), of n, unfolded l(1)]
      have small: "p + 1 \<le> MAX_RESP_HEADER_LINE_SIZE" using False len by simp
      note buf = decode_args_body [OF assms Suc.prems(1) Some small, of n]
      have "cursor + (p + 1) \<le> length input" using p(1) Suc.prems(3) by simp
      note body = body_agrees [OF q(2) this Suc.IH]
      show ?thesis
      proof (cases "and_then (line_content ?line) (parse_bulk_header limits)")
        case (Inl err)
        then show ?thesis unfolding stream buf by (auto simp: stream_agrees_def and_then_def split: sum.splits)
      next
        case (Inr len)
        then obtain h where "line_content ?line = Inr h" "parse_bulk_header limits h = Inr len" by (auto simp: and_then_Inr)
        with body [of len] Inr show ?thesis unfolding stream buf by (simp only: sum.case and_then_simps)
      qed
    qed
  qed
qed (simp add: stream_agrees_def)

lemma readers_agree:
  assumes "limits_ok limits"
  shows "case decode_buffered_command (concat chunks) limits of
      Inl err \<Rightarrow> fst (read_command_with_limits limits chunks) = Inl err
    | Inr None \<Rightarrow> True
    | Inr (Some (command, consumed)) \<Rightarrow> fst (read_command_with_limits limits chunks) = Inr (Some command) \<and>
        concat (snd (read_command_with_limits limits chunks)) = drop consumed (concat chunks)"
proof (cases "fill_buf chunks")
  case Nil
  then have "concat chunks = []" by (simp add: fill_buf_Nil)
  then show ?thesis by (simp only: decode_buffered_command_def list.case sum.case option.case)
next
  case (Cons available later)
  define input where "input = concat chunks"
  obtain b bs where b: "available = b # bs" using fill_buf_hd [OF Cons] by (cases available) auto
  have input: "concat (available # later) = input" using Cons fill_buf_concat [of chunks] by (simp add: input_def)
  then obtain rest where first: "input = b # rest" using b by auto
  define m where "m = maximum_first_line_size limits b"
  have m: "m \<le> max_frame_len limits" "m < usize_max"
    using assms by (auto simp: m_def maximum_first_line_size_def limits_ok_def)
  let ?q = "read_bounded_line m (available # later)"
  have line: "line_result m input ?q" using read_bounded_line_spec [OF m(2), of "available # later"] input by simp
  note read = read_command_with_limits_def [of limits chunks, unfolded Cons list.case Let_def b list.sel,
      folded m_def b]
  note buf = decode_buffered_command_def [of input limits, unfolded first list.case Let_def, folded first m_def]
  show ?thesis
  proof (cases "m < line_len input")
    case True
    with line have "fst ?q = invalid_data ''RESP line exceeds the protocol limit''" by (simp add: line_result_def)
    then have "fst (read_command_with_limits limits chunks) = invalid_data ''RESP line exceeds the protocol limit''"
      unfolding read by (simp add: case_prod_beta split: sum.splits)
    moreover have "decode_buffered_command input limits = invalid_data ''RESP line exceeds the protocol limit''"
      unfolding buf using True by (simp add: line_len_def split: option.splits)
    ultimately show ?thesis by (simp add: input_def)
  next
    case False
    show ?thesis
    proof (cases "position_newline input")
      case None
      with False show ?thesis unfolding input_def [symmetric] buf by (simp add: line_len_def)
    next
      case (Some p)
      note p = position_newline_Some [OF Some]
      have len: "line_len input = p + 1" using Some by (simp add: line_len_def)
      let ?line = "take (p + 1) input"
      define later1 where "later1 = snd ?q"
      have q: "?q = (Inr ?line, later1)" "concat later1 = drop (p + 1) input"
        using line False len by (simp_all add: line_result_def prod_eq_iff later1_def)
      have l: "length ?line = p + 1" "length ?line \<noteq> 0" using p(1) by auto
      have pm: "\<not> m < p + 1" "p + 1 \<le> max_frame_len limits" "p + 1 \<le> length input" using False len m(1) p(1) by simp_all
      have agree: "stream_agrees input (decode_args limits input n (p + 1)) (read_args limits n (p + 1) later1)" for n
        by (rule args_agree [OF assms pm(2) q(2) pm(3)])
      have read': "read_command_with_limits limits chunks = (case line_content ?line of
          Inl err \<Rightarrow> (Inl err, later1)
        | Inr first_line \<Rightarrow> if b \<noteq> CHR ''*'' then (map_sum id Some (parse_inline limits first_line), later1)
            else (case parse_array_header limits first_line of
                Inl err \<Rightarrow> (Inl err, later1)
              | Inr n \<Rightarrow> (case read_args limits n (p + 1) later1 of (r, c) \<Rightarrow> (map_sum id Some r, c))))"
        unfolding read q(1) prod.case sum.case if_not_P [OF l(2)] l(1) by simp
      have buf': "decode_buffered_command input limits = and_then (line_content ?line) (\<lambda>first_line.
          if b \<noteq> CHR ''*'' then and_then (parse_inline limits first_line) (\<lambda>parts. Inr (Some (parts, p + 1)))
          else and_then (parse_array_header limits first_line) (\<lambda>n. decode_args limits input n (p + 1)))"
        unfolding buf Some option.case if_not_P [OF pm(1)] ..
      show ?thesis
      proof (cases "and_then (line_content ?line) (parse_array_header limits)")
        case (Inr n)
        then obtain h where "line_content ?line = Inr h" "parse_array_header limits h = Inr n" by (auto simp: and_then_Inr)
        then show ?thesis
          unfolding input_def [symmetric] buf' read' using agree [of n] q(2)
          by (auto simp: stream_agrees_def and_then_def case_prod_beta split: sum.splits option.splits prod.splits)
      next
        case (Inl err)
        then show ?thesis
          unfolding input_def [symmetric] buf' read' using q(2)
          by (auto simp: and_then_def case_prod_beta split: sum.splits)
      qed
    qed
  qed
qed

lemma read_resp_frame:
  assumes "args \<noteq> []" and "length args \<le> max_array_len limits"
    and "list_all (\<lambda>a. utf8_valid a \<and> length a \<le> max_bulk_len limits) args"
    and "length (resp_frame args) \<le> max_frame_len limits" and "limits_ok limits"
    and "concat chunks = resp_frame args @ rest"
  shows "\<exists>chunks'. read_command_with_limits limits chunks = (Inr (Some args), chunks') \<and> concat chunks' = rest"
  using readers_agree [OF assms(5), of chunks] decode_resp_frame [OF assms(1-5), of rest] assms(6)
  by (cases "read_command_with_limits limits chunks") simp

text \<open>
  C24. The two command readers agree. However the stream cuts its bytes into chunks, whenever
  the buffered decoder finds a complete command in those bytes the stream reader returns the
  same command and leaves exactly the bytes after it, and whenever the buffered decoder rejects
  the bytes the stream reader fails with the same error.
\<close>

theorem stream_reader_agrees:
  assumes "limits_ok limits"
  shows "case decode_buffered_command (concat chunks) limits of
      Inl err \<Rightarrow> fst (read_command_with_limits limits chunks) = Inl err
    | Inr None \<Rightarrow> True
    | Inr (Some (command, consumed)) \<Rightarrow> fst (read_command_with_limits limits chunks) = Inr (Some command) \<and>
        concat (snd (read_command_with_limits limits chunks)) = drop consumed (concat chunks)"
  by (rule readers_agree [OF assms])

theorem stream_reader_agrees_witness:
  "limits_ok CLIENT_RESP_LIMITS \<and>
   fst (read_command_with_limits CLIENT_RESP_LIMITS [''GE'', ''T k'', CRLF @ ''P'']) = Inr (Some [''GET'', ''k''])"
proof -
  have ok: "limits_ok CLIENT_RESP_LIMITS" by (simp add: limits_ok_def CLIENT_RESP_LIMITS_def usize_max_def)
  have "decode_buffered_command (concat [''GE'', ''T k'', CRLF @ ''P'']) CLIENT_RESP_LIMITS = Inr (Some ([''GET'', ''k''], 7))"
    by (simp add: decode_buffered_command_def CRLF_def position_newline_def LF_def CR_def CLIENT_RESP_LIMITS_def
        maximum_first_line_size_def line_content_def strip_suffix_def parse_inline_def str_of_bytes_def
        is_ascii_space_def)
  with stream_reader_agrees [OF ok, of "[''GE'', ''T k'', CRLF @ ''P'']"] ok show ?thesis by simp
qed

end
