(* ===== verification/Store_Laws.thy ===== *)
theory Store_Laws
  imports Store
begin

text \<open>
  The store as a finite map from keys to values. Every command is shown to act on that map at
  its own key; lists form a double-ended queue, hashes and sets behave as finite maps and sets,
  counters are exact or fail, and a rejected mutation attempt is undone completely.
\<close>

section \<open>The logical content of a store\<close>

definition view :: "env \<Rightarrow> store \<Rightarrow> bytes \<Rightarrow> data_entry option" where
  "view E st = live (now E) (contents (store_engine st))"

definition vals :: "env \<Rightarrow> store \<Rightarrow> bytes \<Rightarrow> onyx_value option" where
  "vals E st key = map_option entry_value (view E st key)"

definition expiries :: "env \<Rightarrow> store \<Rightarrow> bytes \<Rightarrow> u64 option" where
  "expiries E st key = Option.bind (view E st key) expires_at"

definition store_wf :: "store \<Rightarrow> bool" where
  "store_wf st = engine_wf (store_engine st)"

definition alive :: "env \<Rightarrow> data_entry option \<Rightarrow> data_entry option" where
  "alive E v = (case v of None \<Rightarrow> None | Some x \<Rightarrow> if entry_expired (now E) x then None else Some x)"

named_theorems store_results \<open>the value a store command returns\<close>
named_theorems store_effects \<open>the effect of a store command on the logical content\<close>

lemma on_engine_fst [simp]: "fst (on_engine f st) = fst (f (store_engine st))"
  by (simp add: on_engine_def case_prod_beta)

lemma on_engine_snd [simp]: "store_engine (snd (on_engine f st)) = snd (f (store_engine st))"
  by (simp add: on_engine_def case_prod_beta)

lemma on_engine_limits [simp]:
  "maxmemory_bytes (snd (on_engine f st)) = maxmemory_bytes st"
  "maxmemory_policy (snd (on_engine f st)) = maxmemory_policy st"
  by (simp_all add: on_engine_def case_prod_beta)

lemma view_alive: "view E st key = alive E (contents (store_engine st) key)"
  by (simp add: view_def live_def alive_def split: option.splits)

lemma alive_view [simp]: "alive E (view E st key) = view E st key"
  by (simp add: view_alive) (simp add: alive_def split: option.splits)

lemma alive_same_expiry:
  "view E st key = Some x \<Longrightarrow> expires_at y = expires_at x \<Longrightarrow> alive E (Some y) = Some y"
  by (auto simp: view_alive alive_def entry_expired_def split: option.splits if_splits)

lemma alive_fresh [simp]: "alive E (Some (fresh_entry E v)) = Some (fresh_entry E v)"
  by (simp add: alive_def fresh_entry_def entry_expired_def)

lemma change_view:
  assumes "engine_change E ((contents (store_engine st))(key := v)) (store_engine st) (store_engine st')"
    and "store_wf st"
  shows "view E st' = (view E st)(key := alive E v)" "store_wf st'"
  using engine_change_contents [OF assms(1)] engine_change_wf [OF assms(1)] assms(2)
  by (auto simp: store_wf_def view_alive fun_eq_iff)

lemma change_ok:
  "engine_change E m (store_engine st) (store_engine st') \<Longrightarrow> engine_ok E (store_engine st) \<Longrightarrow>
    engine_bytes E (store_engine st') \<le> usize_max \<Longrightarrow> engine_ok E (store_engine st')"
  by (simp add: engine_change_def)

section \<open>The four shapes of a command\<close>

text \<open>A read returns what its closure computes and changes no value and no expiry.\<close>

lemma read_result: "fst (on_engine (engine_read E key f) st) = map_option (f \<circ> touch E) (view E st key)"
  by (simp add: engine_read_fst view_def)

lemma read_effect:
  assumes "store_wf st"
  shows "vals E (snd (on_engine (engine_read E key f) st)) = vals E st"
    "expiries E (snd (on_engine (engine_read E key f) st)) = expiries E st"
    "store_wf (snd (on_engine (engine_read E key f) st))"
proof -
  let ?st' = "snd (on_engine (engine_read E key f) st)"
  have change: "engine_change E ((contents (store_engine st))(key := map_option (touch E) (view E st key)))
      (store_engine st) (store_engine ?st')"
    using engine_read_change [of E "store_engine st" key f] by (simp add: view_def)
  note v = change_view [OF change assms]
  show "store_wf ?st'" by (rule v(2))
  have "alive E (map_option (touch E) (view E st key)) = map_option (touch E) (view E st key)"
  proof (cases "view E st key")
    case (Some x)
    with alive_same_expiry [OF Some, of "touch E x"] show ?thesis by simp
  qed (simp add: alive_def)
  with v(1) show "vals E ?st' = vals E st" "expiries E ?st' = expiries E st"
    by (cases "view E st key"; auto simp: vals_def expiries_def fun_eq_iff)+
qed

text \<open>An update of the entry, inserting a default when the key is absent.\<close>

lemma upsert_value_result:
  "fst (on_engine (update_or_insert E key d f) st) = fst (f (case vals E st key of None \<Rightarrow> d | Some v \<Rightarrow> v))"
  by (simp add: update_or_insert_entry upsert_fst upsert_result_def vals_def view_def fresh_entry_def
      case_prod_beta split: option.splits)

lemma upsert_value_effect:
  assumes "store_wf st"
  shows "vals E (snd (on_engine (update_or_insert E key d f) st)) =
      (vals E st)(key \<mapsto> snd (f (case vals E st key of None \<Rightarrow> d | Some v \<Rightarrow> v)))"
    "expiries E (snd (on_engine (update_or_insert E key d f) st)) = expiries E st"
    "store_wf (snd (on_engine (update_or_insert E key d f) st))"
proof -
  let ?st' = "snd (on_engine (update_or_insert E key d f) st)"
  let ?new = "\<lambda>x. x\<lparr>entry_value := snd (f (entry_value x))\<rparr>"
  let ?v = "Some (case view E st key of None \<Rightarrow> ?new (fresh_entry E d) | Some x \<Rightarrow> ?new (touch E x))"
  have "engine_change E ((contents (store_engine st))(key := ?v)) (store_engine st) (store_engine ?st')"
    using upsert_change [of E "store_engine st" key d
        "\<lambda>entry existed. case f (entry_value entry) of (r, v) \<Rightarrow> (r, entry\<lparr>entry_value := v\<rparr>)"]
    by (simp add: update_or_insert_entry upsert_result_def view_def case_prod_beta split: option.splits)
  note v = change_view [OF this assms]
  show "store_wf ?st'" by (rule v(2))
  have "alive E ?v = ?v"
  proof (cases "view E st key")
    case None
    then show ?thesis by (simp add: alive_def fresh_entry_def entry_expired_def)
  next
    case (Some x)
    with alive_same_expiry [OF Some, of "?new (touch E x)"] show ?thesis by simp
  qed
  with v(1) show "vals E ?st' = (vals E st)(key \<mapsto> snd (f (case vals E st key of None \<Rightarrow> d | Some v \<Rightarrow> v)))"
    "expiries E ?st' = expiries E st"
    by (auto simp: vals_def expiries_def fun_eq_iff fresh_entry_def split: option.splits)
qed

text \<open>An update that may also delete the key, on an existing key only.\<close>

lemma action_value_result:
  "fst (on_engine (update_if_exists_with_action E key f) st) = map_option (\<lambda>v. case fst (f v) of Keep r \<Rightarrow> r | Delete r \<Rightarrow> r)
     (vals E st key)"
  by (simp add: action_fst action_result_def vals_def view_def case_prod_beta
      split: option.splits entry_mutation.splits)

lemma action_value_effect:
  assumes "store_wf st"
  shows "vals E (snd (on_engine (update_if_exists_with_action E key f) st)) =
      (vals E st)(key := Option.bind (vals E st key) (\<lambda>v. case f v of (Keep _, v') \<Rightarrow> Some v' | (Delete _, _) \<Rightarrow> None))"
    "store_wf (snd (on_engine (update_if_exists_with_action E key f) st))"
proof -
  let ?st' = "snd (on_engine (update_if_exists_with_action E key f) st)"
  let ?v = "snd (action_result E f (view E st key))"
  have "engine_change E ((contents (store_engine st))(key := ?v)) (store_engine st) (store_engine ?st')"
    using action_change [of E "store_engine st" key f] by (simp add: view_def)
  note v = change_view [OF this assms]
  show "store_wf ?st'" by (rule v(2))
  have "map_option entry_value (alive E ?v) =
      Option.bind (vals E st key) (\<lambda>v. case f v of (Keep _, v') \<Rightarrow> Some v' | (Delete _, _) \<Rightarrow> None)"
  proof (cases "view E st key")
    case None
    then show ?thesis by (simp add: action_result_def alive_def vals_def)
  next
    case (Some x)
    obtain outcome w where f: "f (entry_value x) = (outcome, w)" by fastforce
    show ?thesis
    proof (cases outcome)
      case (Keep r)
      have "alive E (Some (x\<lparr>last_accessed := now E, entry_value := w\<rparr>)) = Some (x\<lparr>last_accessed := now E, entry_value := w\<rparr>)"
        by (rule alive_same_expiry [OF Some]) simp
      with Some f Keep show ?thesis by (simp add: action_result_def vals_def)
    next
      case (Delete r)
      with Some f show ?thesis by (simp add: action_result_def vals_def alive_def)
    qed
  qed
  with v(1) show "vals E ?st' = (vals E st)(key := Option.bind (vals E st key)
      (\<lambda>v. case f v of (Keep _, v') \<Rightarrow> Some v' | (Delete _, _) \<Rightarrow> None))"
    by (auto simp: vals_def fun_eq_iff)
qed

lemma update_value_result:
  "fst (on_engine (update_if_exists E key f) st) = map_option (\<lambda>v. fst (f v)) (vals E st key)"
  by (simp add: update_if_exists_action action_value_result [of E key] del: on_engine_fst)

lemma update_value_effect:
  assumes "store_wf st"
  shows "vals E (snd (on_engine (update_if_exists E key f) st)) =
      (vals E st)(key := map_option (\<lambda>v. snd (f v)) (vals E st key))"
    "store_wf (snd (on_engine (update_if_exists E key f) st))"
  using action_value_effect [OF assms, of E key "\<lambda>v. apfst Keep (f v)"]
  by (cases "vals E st key"; simp add: update_if_exists_action apfst_def map_prod_def case_prod_beta)+

section \<open>Lists are double-ended queues\<close>

locale deque =
  fixes items :: "'s \<Rightarrow> 'a list"
    and push_front push_back :: "'a \<Rightarrow> 's \<Rightarrow> 's"
    and pop_front pop_back :: "'s \<Rightarrow> 'a option \<times> 's"
    and ok :: "'s \<Rightarrow> bool" and valid :: "'a \<Rightarrow> bool"
  assumes push_front: "ok s \<Longrightarrow> valid x \<Longrightarrow> ok (push_front x s) \<and> items (push_front x s) = x # items s"
    and push_back: "ok s \<Longrightarrow> valid x \<Longrightarrow> ok (push_back x s) \<and> items (push_back x s) = items s @ [x]"
    and pop_front: "ok s \<Longrightarrow> ok (snd (pop_front s)) \<and> items (snd (pop_front s)) = tl (items s) \<and>
      fst (pop_front s) = (if items s = [] then None else Some (hd (items s)))"
    and pop_back: "ok s \<Longrightarrow> ok (snd (pop_back s)) \<and> items (snd (pop_back s)) = butlast (items s) \<and>
      fst (pop_back s) = (if items s = [] then None else Some (last (items s)))"
begin

lemma pushes_back: "ok s \<Longrightarrow> list_all valid xs \<Longrightarrow> ok (fold push_back xs s) \<and> items (fold push_back xs s) = items s @ xs"
  by (induction xs arbitrary: s) (simp_all add: push_back)

lemma pops_front: "ok s \<Longrightarrow> ok (((\<lambda>s. snd (pop_front s)) ^^ n) s) \<and>
    items (((\<lambda>s. snd (pop_front s)) ^^ n) s) = drop n (items s)"
  by (induction n) (simp_all add: pop_front drop_Suc tl_drop)

lemma fifo:
  assumes "ok s" and "items s = []" and "list_all valid xs"
  shows "n < length xs \<Longrightarrow> fst (pop_front (((\<lambda>s. snd (pop_front s)) ^^ n) (fold push_back xs s))) = Some (xs ! n)"
    and "items (((\<lambda>s. snd (pop_front s)) ^^ length xs) (fold push_back xs s)) = []"
  using pushes_back [OF assms(1,3)] assms(2) pops_front [of "fold push_back xs s"] pop_front
  by (simp_all add: hd_drop_conv_nth)

lemma lifo: "ok s \<Longrightarrow> valid x \<Longrightarrow> fst (pop_front (push_front x s)) = Some x \<and>
    items (snd (pop_front (push_front x s))) = items s"
  using push_front pop_front by simp

end

definition list_at :: "env \<Rightarrow> bytes \<Rightarrow> store \<Rightarrow> bytes list" where
  "list_at E key st = (case vals E st key of Some (List l) \<Rightarrow> l | _ \<Rightarrow> [])"

text \<open>A key that may be used as a list: absent, or a non-empty list of text items.\<close>

definition list_key :: "env \<Rightarrow> bytes \<Rightarrow> store \<Rightarrow> bool" where
  "list_key E key st \<longleftrightarrow> store_wf st \<and> (case vals E st key of
      None \<Rightarrow> True
    | Some (List l) \<Rightarrow> l \<noteq> [] \<and> list_all utf8_valid l
    | _ \<Rightarrow> False)"

definition ok_result :: "('e + 'a option) \<Rightarrow> 'a option" where
  "ok_result r = (case r of Inr v \<Rightarrow> v | Inl _ \<Rightarrow> None)"

lemma list_key_cases:
  assumes "list_key E key st"
  obtains "store_wf st" "vals E st key = None" "list_at E key st = []"
  | l where "store_wf st" "vals E st key = Some (List l)" "list_at E key st = l" "l \<noteq> []" "list_all utf8_valid l"
  using assms that by (auto simp: list_key_def list_at_def split: option.splits onyx_value.splits)

lemma push_list:
  assumes "list_key E key st" and "utf8_valid item"
  shows "list_key E key (snd (lpush E key item st)) \<and> list_at E key (snd (lpush E key item st)) = item # list_at E key st"
    and "list_key E key (snd (rpush E key item st)) \<and> list_at E key (snd (rpush E key item st)) = list_at E key st @ [item]"
  by (rule list_key_cases [OF assms(1)];
      use assms(2) in \<open>simp add: lpush_def rpush_def list_key_def list_at_def upsert_value_effect\<close>)+

lemma pop_list:
  assumes "list_key E key st"
  shows "list_key E key (snd (lpop E key st)) \<and> list_at E key (snd (lpop E key st)) = tl (list_at E key st) \<and>
      ok_result (fst (lpop E key st)) = (if list_at E key st = [] then None else Some (hd (list_at E key st)))"
    and "list_key E key (snd (rpop E key st)) \<and> list_at E key (snd (rpop E key st)) = butlast (list_at E key st) \<and>
      ok_result (fst (rpop E key st)) = (if list_at E key st = [] then None else Some (last (list_at E key st)))"
proof -
  note simps = lpop_def rpop_def list_key_def list_at_def action_value_effect action_value_result ok_result_def or_ok_def
    keep_unless_empty_def
  show "list_key E key (snd (lpop E key st)) \<and> list_at E key (snd (lpop E key st)) = tl (list_at E key st) \<and>
      ok_result (fst (lpop E key st)) = (if list_at E key st = [] then None else Some (hd (list_at E key st)))"
  proof (rule list_key_cases [OF assms])
    fix l
    assume l: "store_wf st" "vals E st key = Some (List l)" "list_at E key st = l" "l \<noteq> []" "list_all utf8_valid l"
    then obtain x xs where "l = x # xs" by (cases l) auto
    with l show ?thesis
      by (cases xs) (simp_all add: simps utf8_lossy_valid del: on_engine_fst)
  qed (simp add: simps del: on_engine_fst)
  show "list_key E key (snd (rpop E key st)) \<and> list_at E key (snd (rpop E key st)) = butlast (list_at E key st) \<and>
      ok_result (fst (rpop E key st)) = (if list_at E key st = [] then None else Some (last (list_at E key st)))"
  proof (rule list_key_cases [OF assms])
    fix l
    assume l: "store_wf st" "vals E st key = Some (List l)" "list_at E key st = l" "l \<noteq> []" "list_all utf8_valid l"
    have "utf8_valid (last l)" "list_all utf8_valid (butlast l)"
      using l(4,5) by (auto simp: list_all_iff dest: in_set_butlastD)
    with l show ?thesis by (simp add: simps utf8_lossy_valid del: on_engine_fst)
  qed (simp add: simps del: on_engine_fst)
qed

interpretation sl: deque "list_at E key" "\<lambda>item st. snd (lpush E key item st)" "\<lambda>item st. snd (rpush E key item st)"
  "\<lambda>st. (ok_result (fst (lpop E key st)), snd (lpop E key st))"
  "\<lambda>st. (ok_result (fst (rpop E key st)), snd (rpop E key st))" "list_key E key" utf8_valid for E key
  by unfold_locales (simp_all add: push_list pop_list)

lemma list_key_empty: "list_key E key st \<Longrightarrow> list_at E key st = [] \<Longrightarrow> vals E st key = None"
  by (auto elim: list_key_cases)

text \<open>
  C15. A list key is a queue. After pushing any items at the back of an absent key, the
  successive pops at the front return the items in the order they were pushed, and once all
  are popped the key is gone again.
\<close>

theorem list_fifo:
  assumes "store_wf st" and "vals E st key = None" and "list_all utf8_valid xs"
  defines "pushed \<equiv> fold (\<lambda>item st. snd (rpush E key item st)) xs st"
    and "popped \<equiv> \<lambda>n. ((\<lambda>st. snd (lpop E key st)) ^^ n)"
  shows "(\<forall>n < length xs. ok_result (fst (lpop E key (popped n pushed))) = Some (xs ! n)) \<and>
    vals E (popped (length xs) pushed) key = None"
proof -
  have key: "list_key E key st" "list_at E key st = []" using assms(1,2) by (simp_all add: list_key_def list_at_def)
  have "list_key E key (popped (length xs) pushed)"
    using sl.pops_front [of E key pushed "length xs"] sl.pushes_back [OF key(1) assms(3)]
    by (simp add: popped_def pushed_def)
  with list_key_empty sl.fifo [OF key assms(3)] show ?thesis
    by (simp add: popped_def pushed_def)
qed

theorem list_fifo_witness:
  "ok_result (fst (lpop sample_env ''q'' (((\<lambda>st. snd (lpop sample_env ''q'' st)) ^^ 1)
      (fold (\<lambda>item st. snd (rpush sample_env ''q'' item st)) [''a'', ''b''] store_new)))) = Some ''b''"
proof -
  have "store_wf store_new" using engine_new_ok [of sample_env]
    by (simp add: store_wf_def store_new_def with_maxmemory_def engine_ok_def)
  moreover have "vals sample_env store_new ''q'' = None"
    by (simp add: vals_def view_def live_def store_new_def with_maxmemory_def)
  moreover have "list_all utf8_valid [''a'', ''b'']" by simp
  ultimately have "\<forall>n < length [''a'', ''b'']. ok_result (fst (lpop sample_env ''q'' (((\<lambda>st. snd (lpop sample_env ''q'' st)) ^^ n)
      (fold (\<lambda>item st. snd (rpush sample_env ''q'' item st)) [''a'', ''b''] store_new)))) = Some ([''a'', ''b''] ! n)"
    using list_fifo by blast
  from spec [OF this, of 1] show ?thesis by (simp del: fold_simps funpow_0 funpow.simps One_nat_def)
qed

lemma filter_upt_between: "filter (\<lambda>i. lo \<le> i \<and> i < hi) [0..<n] = [lo..<min hi n]"
proof (induction n)
  case (Suc n)
  then show ?case by (cases "lo \<le> n \<and> n < hi") (auto simp: min_def not_less le_Suc_eq not_le)
qed simp

lemma map_nth_slice: "b \<le> length l \<Longrightarrow> map (\<lambda>i. l ! i) [a..<b] = take (b - a) (drop a l)"
  by (rule nth_equalityI) simp_all

text \<open>
  \<open>LRANGE\<close> returns exactly the elements whose positions lie between the two bounds, in
  order, where a negative bound counts from the end of the list and is clamped to the first
  position.
\<close>

theorem lrange_positions:
  "lrange_list start stop l =
     (let pos = (\<lambda>idx. if idx < 0 then max (int (length l) + idx) 0 else idx)
      in map (\<lambda>i. l ! i) (filter (\<lambda>i. pos start \<le> int i \<and> int i \<le> pos stop) [0..<length l]))"
proof -
  define pos where "pos = (\<lambda>idx. if idx < 0 then max (int (length l) + idx) 0 else idx)"
  let ?lo = "nat (pos start)" and ?hi = "nat (pos stop + 1)"
  have "filter (\<lambda>i. pos start \<le> int i \<and> int i \<le> pos stop) [0..<length l] =
      filter (\<lambda>i. ?lo \<le> i \<and> i < ?hi) [0..<length l]"
    by (rule filter_cong) auto
  then have spec: "map (\<lambda>i. l ! i) (filter (\<lambda>i. pos start \<le> int i \<and> int i \<le> pos stop) [0..<length l]) =
      take (min ?hi (length l) - ?lo) (drop ?lo l)"
    by (simp add: filter_upt_between map_nth_slice)
  have pos: "0 \<le> pos start" "0 \<le> pos stop" by (simp_all add: pos_def)
  let ?len = "int (length l)"
  have code: "lrange_list start stop l = (if ?len = 0 \<or> ?len - 1 < pos start \<or> pos stop < pos start then []
      else take (nat (if ?len - 1 < pos stop then ?len - 1 else pos stop) + 1 - ?lo) (drop ?lo l))"
    by (simp add: lrange_list_def Let_def pos_def)
  have "lrange_list start stop l = take (min ?hi (length l) - ?lo) (drop ?lo l)"
  proof (cases "?len = 0 \<or> ?len - 1 < pos start \<or> pos stop < pos start")
    case True
    then have "length l \<le> ?lo \<or> ?hi \<le> ?lo" by auto
    with True code show ?thesis by auto
  next
    case False
    have "nat (if ?len - 1 < pos stop then ?len - 1 else pos stop) + 1 = min ?hi (length l)"
      using False pos by (auto simp: min_def)
    with False code show ?thesis by simp
  qed
  with spec show ?thesis by (simp add: pos_def Let_def)
qed

text \<open>
  A stop bound before the first element is clamped to it, so a range that ends there still
  returns the first element.
\<close>

lemma lrange_stop_before_first:
  "stop < - int (length l) \<Longrightarrow> l \<noteq> [] \<Longrightarrow> lrange_list 0 stop l = [hd l]"
  by (cases l) (auto simp: lrange_list_def Let_def max_def)

section \<open>Counters\<close>

text \<open>The integer a value stands for: an absent key counts as zero, text must parse.\<close>

definition integer_of :: "onyx_value option \<Rightarrow> int option" where
  "integer_of v = (case v of
      None \<Rightarrow> Some 0
    | Some (IntV n) \<Rightarrow> Some (sint n)
    | Some (Blob b) \<Rightarrow> if utf8_valid b then map_option sint (parse_i64 b) else None
    | _ \<Rightarrow> None)"

lemma incrby_value_ok:
  assumes "incrby_value delta v = (Inr n, v')"
  shows "\<exists>c. integer_of (Some v) = Some c \<and> sint n = c + sint delta \<and> v' = IntV n"
  using assms
  by (auto simp: incrby_value_def integer_of_def str_of_bytes_def Let_def dest: i64_checked_add_Some
      split: onyx_value.splits option.splits if_splits)

lemma i64_checked_add_None:
  "i64_checked_add a b = None \<longleftrightarrow> \<not> (- (2 ^ 63) \<le> sint a + sint b \<and> sint a + sint b < 2 ^ 63)"
  by (simp add: i64_checked_add_def)

lemma incrby_value_error:
  assumes "incrby_value delta v = (Inl err, v')"
  shows "v' = v \<and> (integer_of (Some v) = None \<and> err = ''ERR value is not an integer'' \<or>
    (\<exists>c. integer_of (Some v) = Some c \<and> \<not> (- (2 ^ 63) \<le> c + sint delta \<and> c + sint delta < 2 ^ 63) \<and>
      err = ''ERR increment or decrement would overflow''))"
  using assms
  by (auto simp: incrby_value_def integer_of_def str_of_bytes_def Let_def i64_checked_add_None
      split: onyx_value.splits option.splits if_splits)

text \<open>
  C16. \<open>INCRBY\<close> is exact or has no effect. On success the new value is the mathematical sum
  and only this key changes; it fails exactly when the value is no integer or the sum does not
  fit 64 bits, and then no value changes. Expiry times are kept in both cases.
\<close>

theorem incrby_exact:
  assumes "store_wf st"
  shows "case incrby E key delta st of (result, st') \<Rightarrow>
    expiries E st' = expiries E st \<and>
    (case result of
       Inr n \<Rightarrow> \<exists>c. integer_of (vals E st key) = Some c \<and> sint n = c + sint delta \<and>
         vals E st' = (vals E st)(key \<mapsto> IntV n)
     | Inl err \<Rightarrow> vals E st' = vals E st \<and>
         (integer_of (vals E st key) = None \<and> err = ''ERR value is not an integer'' \<or>
          (\<exists>c. integer_of (vals E st key) = Some c \<and>
             \<not> (- (2 ^ 63) \<le> c + sint delta \<and> c + sint delta < 2 ^ 63) \<and>
             err = ''ERR increment or decrement would overflow'')))"
proof -
  let ?v = "case vals E st key of None \<Rightarrow> IntV 0 | Some v \<Rightarrow> v"
  let ?st' = "snd (incrby E key delta st)"
  obtain r w where r: "incrby_value delta ?v = (r, w)" by fastforce
  have int: "integer_of (Some ?v) = integer_of (vals E st key)"
    by (simp add: integer_of_def split: option.splits)
  have res: "fst (incrby E key delta st) = r"
    using r by (simp add: incrby_def upsert_value_result del: on_engine_fst)
  have eff: "vals E ?st' = (vals E st)(key \<mapsto> w)" "expiries E ?st' = expiries E st"
    using r upsert_value_effect [OF assms, of E key "IntV 0" "incrby_value delta"] by (simp_all add: incrby_def)
  show ?thesis
  proof (cases r)
    case (Inr n)
    with incrby_value_ok [of delta ?v n w] r int eff res show ?thesis by (auto simp: case_prod_beta)
  next
    case (Inl err)
    have "vals E st key \<noteq> None"
    proof
      assume none: "vals E st key = None"
      have "- (2 ^ 63) \<le> sint delta" "sint delta < 2 ^ 63"
        using sint_greater_eq [of delta] sint_less [of delta] by simp_all
      with none r Inl show False
        by (simp add: incrby_value_def i64_checked_add_def split: if_splits)
    qed
    with incrby_value_error [of delta ?v err w] r Inl int eff res show ?thesis
      by (auto simp: case_prod_beta fun_eq_iff)
  qed
qed

definition sample_store :: store where
  "sample_store = \<lparr>store_engine = sample_engine, maxmemory_bytes = 0, maxmemory_policy = NoEviction\<rparr>"

lemma sample_store_wf: "store_wf sample_store"
  using sample_ok by (simp add: store_wf_def sample_store_def engine_ok_def)

lemma sample_vals: "vals sample_env sample_store ''x'' = Some (IntV 5)"
  "vals sample_env sample_store ''k'' = Some (Blob ''v'')" "vals sample_env sample_store ''h'' = None"
  by (simp_all add: vals_def view_def sample_store_def sample_contents live_def fresh_entry_def entry_expired_def
      sample_env_def)

theorem incrby_exact_witness:
  "fst (incrby sample_env ''x'' 3 sample_store) = Inr 8 \<and>
   vals sample_env (snd (incrby sample_env ''x'' 3 sample_store)) ''x'' = Some (IntV 8)"
proof -
  have r: "fst (incrby sample_env ''x'' 3 sample_store) = Inr 8"
    by (simp add: incrby_def upsert_value_result sample_vals incrby_value_def i64_checked_add_def del: on_engine_fst)
  with incrby_exact [OF sample_store_wf, of sample_env "''x''" 3] show ?thesis
    by (auto simp: case_prod_beta)
qed

section \<open>Hashes and sets\<close>

definition hash_at :: "env \<Rightarrow> bytes \<Rightarrow> store \<Rightarrow> bytes \<Rightarrow> bytes option" where
  "hash_at E key st = (case vals E st key of Some (Hash h) \<Rightarrow> hm_get h | _ \<Rightarrow> Map.empty)"

definition hash_key_ok :: "env \<Rightarrow> bytes \<Rightarrow> store \<Rightarrow> bool" where
  "hash_key_ok E key st \<longleftrightarrow> store_wf st \<and> (case vals E st key of
      None \<Rightarrow> True
    | Some (Hash h) \<Rightarrow> hm_wf h \<and> h \<noteq> []
    | _ \<Rightarrow> False)"

lemma hm_insert_not_Nil [simp]: "hm_insert k v m \<noteq> []"
  by (induction m) auto

lemma hm_remove_Nil: "hm_remove k m = [] \<longleftrightarrow> (\<forall>f. f \<noteq> k \<longrightarrow> hm_get m f = None)"
proof -
  have "hm_remove k m = [] \<longleftrightarrow> hm_get (hm_remove k m) = Map.empty" by (metis map_of_eq_empty_iff)
  then show ?thesis by (auto simp: hm_get_remove fun_eq_iff)
qed

lemma hash_key_cases:
  assumes "hash_key_ok E key st"
  obtains "store_wf st" "vals E st key = None" "hash_at E key st = Map.empty"
  | h where "store_wf st" "vals E st key = Some (Hash h)" "hash_at E key st = hm_get h" "hm_wf h" "h \<noteq> []"
  using assms that by (auto simp: hash_key_ok_def hash_at_def split: option.splits onyx_value.splits)

lemma hset_law:
  assumes "hash_key_ok E key st"
  shows "hash_key_ok E key (snd (hset E key field v st)) \<and>
    hash_at E key (snd (hset E key field v st)) = (hash_at E key st)(field \<mapsto> v) \<and>
    fst (hset E key field v st) = Inr (hash_at E key st field = None)"
  by (rule hash_key_cases [OF assms];
      simp add: hset_def hash_key_ok_def hash_at_def upsert_value_effect upsert_value_result hm_get_insert
        del: on_engine_fst)

lemma hdel_law:
  assumes "hash_key_ok E key st"
  shows "hash_key_ok E key (snd (hdel E key field st)) \<and>
    hash_at E key (snd (hdel E key field st)) = (hash_at E key st)(field := None) \<and>
    fst (hdel E key field st) = Inr (hash_at E key st field \<noteq> None) \<and>
    (vals E (snd (hdel E key field st)) key = None \<longleftrightarrow> (hash_at E key st)(field := None) = Map.empty)"
proof (rule hash_key_cases [OF assms])
  fix h
  assume h: "store_wf st" "vals E st key = Some (Hash h)" "hash_at E key st = hm_get h" "hm_wf h" "h \<noteq> []"
  let ?h' = "hm_remove field h"
  have get: "hm_get ?h' = (hm_get h)(field := None)" by (rule hm_get_remove)
  have nil: "?h' = [] \<longleftrightarrow> (hm_get h)(field := None) = Map.empty" unfolding get [symmetric] by (metis map_of_eq_empty_iff)
  have present: "hm_get h field \<noteq> None" if "?h' = []" using that h(5) by (metis hm_remove_fresh)
  have out: "snd (hdel_value field (Hash h)) = Hash ?h'"
      "fst (hdel_value field (Hash h)) = (if ?h' = [] then Delete (Inr (hm_get h field \<noteq> None)) else Keep (Inr (hm_get h field \<noteq> None)))"
    using present by (auto simp: Let_def)
  have vals': "vals E (snd (hdel E key field st)) = (vals E st)(key := if ?h' = [] then None else Some (Hash ?h'))"
    using h(1,2) out by (simp add: hdel_def action_value_effect case_prod_beta)
  have wf': "store_wf (snd (hdel E key field st))" using h(1) by (simp add: hdel_def action_value_effect)
  have res: "fst (hdel E key field st) = Inr (hm_get h field \<noteq> None)"
    using h(2) out by (simp add: hdel_def action_value_result or_ok_def del: on_engine_fst hdel_value.simps)
  show ?thesis
    using vals' wf' res nil get h(3,4) by (auto simp: hash_key_ok_def hash_at_def distinct_delete)
qed (simp add: hdel_def hash_key_ok_def hash_at_def action_value_effect action_value_result or_ok_def del: on_engine_fst)

lemma hget_law:
  assumes "hash_key_ok E key st"
  shows "fst (hget E key field st) = Inr (map_option from_utf8_lossy (hash_at E key st field))"
  by (rule hash_key_cases [OF assms])
    (auto simp: hget_def read_result or_ok_def vals_def simp del: on_engine_fst)

text \<open>
  C17. A hash key is a finite map. \<open>HSET\<close> updates one field and reports whether it was new,
  \<open>HDEL\<close> removes one field and reports whether it was there, \<open>HGET\<close> looks a field up, and the
  key disappears exactly when its last field does.
\<close>

theorem hash_is_map:
  assumes "hash_key_ok E key st"
  shows "(let st' = snd (hset E key field v st) in hash_key_ok E key st' \<and>
      hash_at E key st' = (hash_at E key st)(field \<mapsto> v) \<and>
      fst (hset E key field v st) = Inr (hash_at E key st field = None)) \<and>
    (let st' = snd (hdel E key field st) in hash_key_ok E key st' \<and>
      hash_at E key st' = (hash_at E key st)(field := None) \<and>
      fst (hdel E key field st) = Inr (hash_at E key st field \<noteq> None) \<and>
      (vals E st' key = None \<longleftrightarrow> hash_at E key st' = Map.empty)) \<and>
    fst (hget E key field st) = Inr (map_option from_utf8_lossy (hash_at E key st field))"
  using hset_law [OF assms, of field v] hdel_law [OF assms, of field] hget_law [OF assms, of field]
  by (simp add: Let_def)

theorem hash_is_map_witness:
  "hash_at sample_env ''h'' (snd (hset sample_env ''h'' ''f'' ''1'' sample_store)) ''f'' = Some ''1''"
proof -
  have "hash_key_ok sample_env ''h'' sample_store" by (simp add: hash_key_ok_def sample_store_wf sample_vals)
  from hash_is_map [OF this, of "''f''" "''1''"] show ?thesis by (simp add: Let_def)
qed

definition set_at :: "env \<Rightarrow> bytes \<Rightarrow> store \<Rightarrow> bytes set" where
  "set_at E key st = (case vals E st key of Some (Set s) \<Rightarrow> set s | _ \<Rightarrow> {})"

definition set_key_ok :: "env \<Rightarrow> bytes \<Rightarrow> store \<Rightarrow> bool" where
  "set_key_ok E key st \<longleftrightarrow> store_wf st \<and> (case vals E st key of
      None \<Rightarrow> True
    | Some (Set s) \<Rightarrow> distinct s \<and> s \<noteq> []
    | _ \<Rightarrow> False)"

lemma set_key_cases:
  assumes "set_key_ok E key st"
  obtains "store_wf st" "vals E st key = None" "set_at E key st = {}"
  | s where "store_wf st" "vals E st key = Some (Set s)" "set_at E key st = set s" "distinct s" "s \<noteq> []"
  using assms that by (auto simp: set_key_ok_def set_at_def split: option.splits onyx_value.splits)

lemma sadd_law:
  assumes "set_key_ok E key st"
  shows "set_key_ok E key (snd (sadd E key x st)) \<and> set_at E key (snd (sadd E key x st)) = insert x (set_at E key st) \<and>
    fst (sadd E key x st) = Inr (x \<notin> set_at E key st)"
  by (rule set_key_cases [OF assms])
    (auto simp: sadd_def set_key_ok_def set_at_def upsert_value_effect upsert_value_result simp del: on_engine_fst)

lemma srem_law:
  assumes "set_key_ok E key st"
  shows "set_key_ok E key (snd (srem E key x st)) \<and> set_at E key (snd (srem E key x st)) = set_at E key st - {x} \<and>
    fst (srem E key x st) = Inr (x \<in> set_at E key st) \<and>
    (vals E (snd (srem E key x st)) key = None \<longleftrightarrow> set_at E key st - {x} = {})"
proof (rule set_key_cases [OF assms])
  fix s
  assume s: "store_wf st" "vals E st key = Some (Set s)" "set_at E key st = set s" "distinct s" "s \<noteq> []"
  let ?s' = "filter (\<lambda>y. y \<noteq> x) s"
  have nil: "?s' = [] \<longleftrightarrow> set s - {x} = {}" by (auto simp: filter_empty_conv)
  have present: "x \<in> set s" if "?s' = []" using that s(5) by (cases s) (auto split: if_splits simp: filter_empty_conv)
  have out: "snd (srem_value x (Set s)) = Set ?s'"
      "fst (srem_value x (Set s)) = (if ?s' = [] then Delete (Inr (x \<in> set s)) else Keep (Inr (x \<in> set s)))"
    using present by (auto simp: Let_def)
  have vals': "vals E (snd (srem E key x st)) = (vals E st)(key := if ?s' = [] then None else Some (Set ?s'))"
    using s(1,2) out by (simp add: srem_def action_value_effect case_prod_beta del: srem_value.simps)
  have wf': "store_wf (snd (srem E key x st))" using s(1) by (simp add: srem_def action_value_effect)
  have res: "fst (srem E key x st) = Inr (x \<in> set s)"
    using s(2) out by (simp add: srem_def action_value_result or_ok_def del: on_engine_fst srem_value.simps)
  show ?thesis
    using vals' wf' res nil s(3,4) by (auto simp: set_key_ok_def set_at_def)
qed (simp add: srem_def set_key_ok_def set_at_def action_value_effect action_value_result or_ok_def del: on_engine_fst)

lemma sismember_law:
  assumes "set_key_ok E key st"
  shows "fst (sismember E key x st) = Inr (x \<in> set_at E key st)"
  by (rule set_key_cases [OF assms])
    (auto simp: sismember_def read_result or_ok_def vals_def simp del: on_engine_fst)

text \<open>
  A set key is a finite set. \<open>SADD\<close> inserts and reports whether the member was new,
  \<open>SREM\<close> removes and reports whether it was there, \<open>SISMEMBER\<close> tests membership, no member is
  stored twice, and the key disappears exactly when its last member does.
\<close>

theorem set_is_set:
  assumes "set_key_ok E key st"
  shows "(let st' = snd (sadd E key x st) in set_key_ok E key st' \<and>
      set_at E key st' = insert x (set_at E key st) \<and>
      fst (sadd E key x st) = Inr (x \<notin> set_at E key st)) \<and>
    (let st' = snd (srem E key x st) in set_key_ok E key st' \<and>
      set_at E key st' = set_at E key st - {x} \<and>
      fst (srem E key x st) = Inr (x \<in> set_at E key st) \<and>
      (vals E st' key = None \<longleftrightarrow> set_at E key st' = {})) \<and>
    fst (sismember E key x st) = Inr (x \<in> set_at E key st)"
  using sadd_law [OF assms, of x] srem_law [OF assms, of x] sismember_law [OF assms, of x]
  by (simp add: Let_def)

theorem set_is_set_witness:
  "set_at sample_env ''h'' (snd (sadd sample_env ''h'' ''m'' sample_store)) = {''m''}"
proof -
  have "set_key_ok sample_env ''h'' sample_store" by (simp add: set_key_ok_def sample_store_wf sample_vals)
  from set_is_set [OF this, of "''m''"] show ?thesis by (simp add: Let_def set_at_def sample_vals)
qed

end
