(* ===== verification/Admission.thy ===== *)
theory Admission
  imports Store_Laws
begin

text \<open>
  Mutation attempts of \<open>src/store.rs\<close>: a command runs tentatively between
  \<open>begin_mutation\<close> and \<open>admit\<close>. Admission keeps the data set within its limits or
  refuses, and a refused or later rejected attempt is rolled back to the exact content before
  the command, evicted entries included. Also the materialisation of a store snapshot.
\<close>

section \<open>Capturing and restoring entries\<close>

lemma sweep_view:
  assumes "engine_change E (live (now E) (contents (store_engine st))) (store_engine st) (store_engine st')"
    and "store_wf st"
  shows "view E st' = view E st" "store_wf st'"
  using engine_change_contents [OF assms(1)] engine_change_wf [OF assms(1)] assms(2)
  by (auto simp: store_wf_def view_def)

lemma peek_view:
  assumes "store_wf st"
  shows "view E (snd (on_engine (peek E key) st)) = view E st" "store_wf (snd (on_engine (peek E key) st))"
proof -
  have "engine_change E ((contents (store_engine st))(key := view E st key)) (store_engine st)
      (store_engine (snd (on_engine (peek E key) st)))"
    using peek_change [of E "store_engine st" key] by (simp add: view_def)
  from change_view [OF this assms]
  show "view E (snd (on_engine (peek E key) st)) = view E st" "store_wf (snd (on_engine (peek E key) st))"
    by auto
qed

lemma peek_ok: "engine_ok E (store_engine st) \<Longrightarrow> engine_ok E (store_engine (snd (on_engine (peek E key) st)))"
  using engine_change_ok [OF peek_change _ upd_live_le] by simp

lemma peek_all_spec:
  assumes "engine_ok E (store_engine st)" and "hm_wf acc"
  shows "hm_get (fst (peek_all E keys acc st)) = (\<lambda>k. if k \<in> set keys then Some (view E st k) else hm_get acc k)"
    and "hm_wf (fst (peek_all E keys acc st))"
    and "view E (snd (peek_all E keys acc st)) = view E st"
    and "engine_ok E (store_engine (snd (peek_all E keys acc st)))"
    and "maxmemory_bytes (snd (peek_all E keys acc st)) = maxmemory_bytes st"
    and "maxmemory_policy (snd (peek_all E keys acc st)) = maxmemory_policy st"
proof -
  have "hm_get (fst (peek_all E keys acc st)) = (\<lambda>k. if k \<in> set keys then Some (view E st k) else hm_get acc k) \<and>
    hm_wf (fst (peek_all E keys acc st)) \<and> view E (snd (peek_all E keys acc st)) = view E st \<and>
    engine_ok E (store_engine (snd (peek_all E keys acc st))) \<and>
    maxmemory_bytes (snd (peek_all E keys acc st)) = maxmemory_bytes st \<and>
    maxmemory_policy (snd (peek_all E keys acc st)) = maxmemory_policy st"
    using assms
  proof (induction keys arbitrary: acc st)
    case (Cons key keys)
    let ?st1 = "snd (on_engine (peek E key) st)"
    have wf: "store_wf st" using Cons.prems by (simp add: store_wf_def engine_ok_def)
    have found: "fst (on_engine (peek E key) st) = view E st key" by (simp add: peek_fst view_def)
    have "hm_wf (hm_insert key (view E st key) acc)" using Cons.prems by simp
    from Cons.IH [OF peek_ok [OF Cons.prems(1)] this, of key] peek_view [OF wf, of E key] found
    show ?case by (auto simp: case_prod_beta hm_get_insert fun_eq_iff simp del: on_engine_fst)
  qed simp
  then show "hm_get (fst (peek_all E keys acc st)) = (\<lambda>k. if k \<in> set keys then Some (view E st k) else hm_get acc k)"
    "hm_wf (fst (peek_all E keys acc st))" "view E (snd (peek_all E keys acc st)) = view E st"
    "engine_ok E (store_engine (snd (peek_all E keys acc st)))"
    "maxmemory_bytes (snd (peek_all E keys acc st)) = maxmemory_bytes st"
    "maxmemory_policy (snd (peek_all E keys acc st)) = maxmemory_policy st" by simp_all
qed

lemma stats_view:
  assumes "engine_ok E (store_engine st)"
  shows "view E (snd (store_stats E st)) = view E st" "engine_ok E (store_engine (snd (store_stats E st)))"
  using sweep_view(1) [of E st "snd (store_stats E st)"] stats_change [of E "store_engine st"]
    engine_change_ok [OF stats_change assms live_le] assms
  by (simp_all add: store_stats_def store_wf_def engine_ok_def)

lemma memory_view:
  assumes "engine_ok E (store_engine st)"
  shows "view E (snd (used_memory_bytes E st)) = view E st" "engine_ok E (store_engine (snd (used_memory_bytes E st)))"
    "fst (used_memory_bytes E st) = engine_bytes E (store_engine (snd (used_memory_bytes E st)))"
  using sweep_view(1) [of E st "snd (used_memory_bytes E st)"] total_memory_change [of E "store_engine st"]
    engine_change_ok [OF total_memory_change assms live_le] total_memory_fst [OF assms] assms
  by (simp_all add: used_memory_bytes_def store_wf_def engine_ok_def)

lemma limits_kept [simp]:
  "maxmemory_bytes (snd (store_stats E st)) = maxmemory_bytes st" "maxmemory_policy (snd (store_stats E st)) = maxmemory_policy st"
  "maxmemory_bytes (snd (used_memory_bytes E st)) = maxmemory_bytes st"
  "maxmemory_policy (snd (used_memory_bytes E st)) = maxmemory_policy st"
  by (simp_all add: store_stats_def used_memory_bytes_def)

lemma begin_mutation_spec:
  assumes ok: "engine_ok E (store_engine st)" and begun: "begin_mutation E keys st = (att, st1)"
  shows "hm_get (before_entries att) = (\<lambda>k. if k \<in> set keys then Some (view E st k) else None)"
    "hm_wf (before_entries att)" "evicted_entries att = []"
    "view E st1 = view E st" "engine_ok E (store_engine st1)"
    "maxmemory_bytes st1 = maxmemory_bytes st" "maxmemory_policy st1 = maxmemory_policy st"
    "memory_before att = None \<longleftrightarrow> maxmemory_bytes st1 = 0"
proof -
  let ?p = "peek_all E keys [] st"
  let ?exact = "key_limit_requires_exact_count (physical_key_count (store_engine (snd ?p)))
    (length (filter (\<lambda>(_, entry). entry = None) (fst ?p)))"
  let ?c = "if ?exact then apfst (Some \<circ> stats_total_keys) (store_stats E (snd ?p)) else (None, snd ?p)"
  let ?m = "if 0 < maxmemory_bytes (snd ?c) then apfst Some (used_memory_bytes E (snd ?c)) else (None, snd ?c)"
  note p = peek_all_spec [OF ok, of "[]" keys, simplified]
  have att: "before_entries att = fst ?p" "evicted_entries att = []" "memory_before att = fst ?m" and st1: "st1 = snd ?m"
    using begun unfolding begin_mutation_def Let_def case_prod_beta by auto
  have c: "view E (snd ?c) = view E st" "engine_ok E (store_engine (snd ?c))"
      "maxmemory_bytes (snd ?c) = maxmemory_bytes st" "maxmemory_policy (snd ?c) = maxmemory_policy st"
    using stats_view [of E "snd ?p"] p by simp_all
  show "hm_get (before_entries att) = (\<lambda>k. if k \<in> set keys then Some (view E st k) else None)"
    "hm_wf (before_entries att)" "evicted_entries att = []" using p att by (simp_all add: fun_eq_iff)
  show "view E st1 = view E st" "engine_ok E (store_engine st1)"
    "maxmemory_bytes st1 = maxmemory_bytes st" "maxmemory_policy st1 = maxmemory_policy st"
    using memory_view [of E "snd ?c"] c unfolding st1 by simp_all
  then show "memory_before att = None \<longleftrightarrow> maxmemory_bytes st1 = 0"
    using c(3) att(3) by simp
qed

lemma apply_entry_view:
  assumes "store_wf st"
  shows "view E (snd (on_engine (apply_entry E key entry) st)) = (view E st)(key := alive E (Some entry))"
    "store_wf (snd (on_engine (apply_entry E key entry) st))"
proof -
  let ?v = "if expired_at E (expires_at entry) then None else Some entry"
  have "engine_change E ((contents (store_engine st))(key := ?v)) (store_engine st)
      (store_engine (snd (on_engine (apply_entry E key entry) st)))"
    using apply_entry_change [of E "store_engine st" key entry] by simp
  from change_view [OF this assms]
  show "view E (snd (on_engine (apply_entry E key entry) st)) = (view E st)(key := alive E (Some entry))"
    "store_wf (snd (on_engine (apply_entry E key entry) st))"
    by (auto simp: alive_def expired_at_def entry_expired_def fun_eq_iff)
qed

lemma delete_view:
  assumes "store_wf st"
  shows "view E (snd (on_engine (engine_delete E key) st)) = (view E st)(key := None)"
    "store_wf (snd (on_engine (engine_delete E key) st))"
  using change_view [OF _ assms, of E key None "snd (on_engine (engine_delete E key) st)"]
    engine_delete_change [of E "store_engine st" key]
  by (simp_all add: alive_def)

lemma restore_before_view:
  assumes "store_wf st" and "hm_wf before"
  shows "view E (restore_before E before st) = (\<lambda>k. case hm_get before k of None \<Rightarrow> view E st k | Some v \<Rightarrow> alive E v) \<and>
    store_wf (restore_before E before st)"
  using assms
proof (induction before arbitrary: st)
  case (Cons kv before)
  obtain key previous where kv: "kv = (key, previous)" by (cases kv)
  have fresh: "hm_get before key = None" using Cons.prems kv by (simp add: map_of_eq_None_iff)
  let ?st1 = "case previous of Some entry \<Rightarrow> snd (on_engine (apply_entry E key entry) st)
    | None \<Rightarrow> snd (on_engine (engine_delete E key) st)"
  have st1: "view E ?st1 = (view E st)(key := alive E previous)" "store_wf ?st1"
    using apply_entry_view [OF Cons.prems(1)] delete_view [OF Cons.prems(1)]
    by (simp_all add: alive_def split: option.splits)
  show ?case
    using Cons.IH [OF st1(2)] Cons.prems(2) kv st1(1) fresh by (auto simp: fun_eq_iff split: option.splits)
qed simp

lemma apply_all_view:
  assumes "store_wf st" and "hm_wf entries"
  shows "view E (apply_all E entries st) = (\<lambda>k. case hm_get entries k of None \<Rightarrow> view E st k | Some x \<Rightarrow> alive E (Some x)) \<and>
    store_wf (apply_all E entries st)"
  using assms
proof (induction entries arbitrary: st)
  case (Cons kv entries)
  obtain key entry where kv: "kv = (key, entry)" by (cases kv)
  have fresh: "hm_get entries key = None" using Cons.prems kv by (simp add: map_of_eq_None_iff)
  note st1 = apply_entry_view [OF Cons.prems(1), of E key entry]
  show ?case
    using Cons.IH [OF st1(2)] Cons.prems(2) kv st1(1) fresh by (auto simp: fun_eq_iff split: option.splits)
qed simp

lemma restore_entries_view:
  assumes "store_wf st" and "hm_wf before" and "hm_wf evicted"
  shows "view E (restore_entries E before evicted st) k = (case hm_get before k of
      Some v \<Rightarrow> alive E v
    | None \<Rightarrow> (case hm_get evicted k of Some x \<Rightarrow> alive E (Some x) | None \<Rightarrow> view E st k))"
    and "store_wf (restore_entries E before evicted st)"
proof -
  let ?ev = "filter (\<lambda>(key, _). hm_get before key = None) evicted"
  have ev: "hm_wf ?ev" using assms(3) by (simp add: distinct_map_filter)
  have "?ev = filter (\<lambda>p. hm_get before (fst p) = None) evicted" by (rule filter_cong) auto
  then have get: "hm_get ?ev k = (if hm_get before k = None then hm_get evicted k else None)" for k
    using map_of_filter_other [of "\<lambda>k. hm_get before k = None" k evicted]
      map_of_filter_none [of "\<lambda>k. hm_get before k = None" k evicted] by simp
  note r = restore_before_view [OF assms(1,2), of E]
  note a = apply_all_view [OF conjunct2 [OF r] ev, of E]
  show "store_wf (restore_entries E before evicted st)" using a by (simp add: restore_entries_def)
  show "view E (restore_entries E before evicted st) k = (case hm_get before k of
      Some v \<Rightarrow> alive E v
    | None \<Rightarrow> (case hm_get evicted k of Some x \<Rightarrow> alive E (Some x) | None \<Rightarrow> view E st k))"
    using a r by (simp add: restore_entries_def get split: option.splits)
qed

section \<open>Admission\<close>

text \<open>
  What admission promises: it never panics; a refusal leaves the logical content as it was;
  an acceptance has evicted only live, unprotected keys, each recorded for rollback, and leaves
  the data set within the limit or no larger than before the command.
\<close>

definition admit_post :: "env \<Rightarrow> bytes list \<Rightarrow> mutation_attempt \<Rightarrow> store \<Rightarrow>
    (admission_error + unit) \<Rightarrow> mutation_attempt \<Rightarrow> store \<Rightarrow> bool" where
  "admit_post E prot att st r att' st' \<longleftrightarrow> store_wf st' \<and> before_entries att' = before_entries att \<and>
     (case r of
        Inl _ \<Rightarrow> view E st' = view E st \<and> att' = att
      | Inr _ \<Rightarrow> (\<exists>ev. evicted_entries att' = evicted_entries att @ ev \<and> hm_wf ev \<and>
          (\<forall>(k, x) \<in> set ev. view E st k = Some x \<and> k \<notin> set prot) \<and>
          view E st' = (\<lambda>k. if k \<in> fst ` set ev then None else view E st k) \<and>
          (maxmemory_bytes st = 0 \<or> engine_bytes E (store_engine st') \<le> maxmemory_bytes st \<or>
             engine_bytes E (store_engine st') \<le> the (memory_before att))))"

lemma admit_keep:
  assumes "engine_ok E (store_engine st')" and "view E st' = view E st"
    and "maxmemory_bytes st = 0 \<or> engine_bytes E (store_engine st') \<le> maxmemory_bytes st \<or>
      engine_bytes E (store_engine st') \<le> the (memory_before att)"
  shows "admit_post E prot att st (Inr ()) att st'"
  using assms by (auto simp: admit_post_def store_wf_def engine_ok_def intro!: exI [of _ "[]"])

lemma admit_refuse:
  "engine_ok E (store_engine st') \<Longrightarrow> view E st' = view E st \<Longrightarrow> admit_post E prot att st (Inl err) att st'"
  by (simp add: admit_post_def store_wf_def engine_ok_def)

lemma admit_evict:
  assumes ok: "engine_ok E (store_engine st)" and limit: "maxmemory_bytes st \<noteq> 0"
    and policy: "maxmemory_policy st \<noteq> NoEviction" and same: "view E st = view E st0" "maxmemory_bytes st = maxmemory_bytes st0"
  shows "\<exists>r att' st'. (case evict_to_fit E (maxmemory_bytes st) (maxmemory_policy st) (set prot) (store_engine st) of
        None \<Rightarrow> None
      | Some (evicted, e3) \<Rightarrow>
          (case used_memory_bytes E (st\<lparr>store_engine := e3\<rparr>) of (memory, st3) \<Rightarrow>
             if memory \<le> maxmemory_bytes st3
             then Some (Inr (), att\<lparr>evicted_entries := evicted_entries att @ evicted\<rparr>, st3)
             else Some (Inl Maxmemory, att, apply_all E evicted st3))) = Some (r, att', st') \<and>
    admit_post E prot att st0 r att' st'"
proof -
  obtain ev e3 where run: "evict_to_fit E (maxmemory_bytes st) (maxmemory_policy st) (set prot) (store_engine st) = Some (ev, e3)"
    and post: "evict_post E (maxmemory_bytes st) (maxmemory_policy st) (set prot) (store_engine st) ev e3"
    using evict_to_fit_spec [OF ok policy limit] .
  let ?st3 = "st\<lparr>store_engine := e3\<rparr>"
  let ?st4 = "snd (used_memory_bytes E ?st3)"
  have ok3: "engine_ok E (store_engine ?st3)" using post by (simp add: evict_post_def)
  note mem = memory_view [OF ok3]
  have c3: "contents e3 = (\<lambda>k. if k \<in> fst ` set ev then None else view E st k)"
    using post unfolding evict_post_def view_def by blast
  have alive3: "view E ?st3 k = (if k \<in> fst ` set ev then None else view E st k)" for k
  proof -
    have "view E ?st3 k = alive E (contents e3 k)" using view_alive [of E ?st3 k] by simp
    moreover have "alive E None = None" by (simp add: alive_def)
    ultimately show ?thesis by (simp add: c3)
  qed
  have ev: "hm_wf ev" "\<forall>(k, x) \<in> set ev. view E st k = Some x \<and> k \<notin> set prot"
    using post by (auto simp: evict_post_def view_def eviction_eligible_def)
  have wf4: "store_wf ?st4" using mem(2) by (simp add: store_wf_def engine_ok_def)
  show ?thesis
  proof (cases "fst (used_memory_bytes E ?st3) \<le> maxmemory_bytes st")
    case True
    have "admit_post E prot att st0 (Inr ()) (att\<lparr>evicted_entries := evicted_entries att @ ev\<rparr>) ?st4"
      unfolding admit_post_def using ev wf4 mem alive3 True same by (auto intro!: exI [of _ ev])
    with True run show ?thesis by (simp add: case_prod_beta)
  next
    case False
    have "view E (apply_all E ev ?st4) k = view E st k" for k
    proof (cases "hm_get ev k")
      case None
      then have "k \<notin> fst ` set ev" by (simp add: map_of_eq_None_iff)
      with None apply_all_view [OF wf4 ev(1), of E] mem(1) alive3 show ?thesis by simp
    next
      case (Some x)
      then have "view E st k = Some x" using ev(2) map_of_SomeD by fastforce
      with Some apply_all_view [OF wf4 ev(1), of E] alive_view [of E st k] show ?thesis by simp
    qed
    then have "view E (apply_all E ev ?st4) = view E st" by auto
    with False run apply_all_view [OF wf4 ev(1), of E] same show ?thesis
      by (simp add: case_prod_beta admit_post_def)
  qed
qed

lemma admit_spec:
  assumes ok: "engine_ok E (store_engine st)" and base: "memory_before att = None \<Longrightarrow> maxmemory_bytes st = 0"
  shows "\<exists>r att' st'. admit E prot att st = Some (r, att', st') \<and> admit_post E prot att st r att' st'"
proof -
  define c where "c = (case key_count_before att of
      Some count_before \<Rightarrow> (case store_stats E st of (counted, st1) \<Rightarrow>
        (MAX_KEYS < stats_total_keys counted \<and> count_before < stats_total_keys counted, st1))
    | None \<Rightarrow> (False, st))"
  let ?st1 = "snd c" and ?st2 = "snd (used_memory_bytes E (snd c))"
  have st1: "engine_ok E (store_engine ?st1)" "view E ?st1 = view E st" "maxmemory_bytes ?st1 = maxmemory_bytes st"
      "maxmemory_policy ?st1 = maxmemory_policy st"
    using stats_view [OF ok] ok by (simp_all add: c_def case_prod_beta split: option.splits)
  note mem = memory_view [OF st1(1)]
  note unfold = admit_def c_def [symmetric] case_prod_beta Let_def
  show ?thesis
  proof (cases "fst c \<or> maxmemory_bytes ?st1 = 0")
    case True
    then show ?thesis
    proof (cases "fst c")
      case True
      then show ?thesis using admit_refuse [OF st1(1,2)] by (simp add: unfold)
    next
      case False
      with True show ?thesis using admit_keep [OF st1(1,2)] st1(3) by (simp add: unfold)
    qed
  next
    case go: False
    then obtain before where before: "memory_before att = Some before" using base st1(3) by auto
    have st2: "engine_ok E (store_engine ?st2)" "view E ?st2 = view E st" using mem(1,2) st1 by simp_all
    show ?thesis
    proof (cases "fst (used_memory_bytes E ?st1) \<le> maxmemory_bytes ?st2 \<or> fst (used_memory_bytes E ?st1) \<le> before")
      case True
      have "admit_post E prot att st (Inr ()) att ?st2"
        by (rule admit_keep [OF st2]) (use True mem(3) before st1(3) in auto)
      with True go before show ?thesis by (simp add: unfold)
    next
      case over: False
      show ?thesis
      proof (cases "maxmemory_policy ?st2 = NoEviction")
        case True
        with over go before admit_refuse [OF st2, of prot att Maxmemory] show ?thesis by (simp add: unfold)
      next
        case False
        have "admit E prot att st = (case evict_to_fit E (maxmemory_bytes ?st2) (maxmemory_policy ?st2) (set prot) (store_engine ?st2) of
            None \<Rightarrow> None
          | Some (evicted, e3) \<Rightarrow>
              (case used_memory_bytes E (?st2\<lparr>store_engine := e3\<rparr>) of (memory, st3) \<Rightarrow>
                 if memory \<le> maxmemory_bytes st3
                 then Some (Inr (), att\<lparr>evicted_entries := evicted_entries att @ evicted\<rparr>, st3)
                 else Some (Inl Maxmemory, att, apply_all E evicted st3)))"
          using over go before False by (simp add: unfold)
        with admit_evict [OF st2(1) _ False st2(2), where prot = prot and att = att] go st1(3) show ?thesis by simp
      qed
    qed
  qed
qed

section \<open>Properties\<close>

text \<open>
  C18. Rollback is exact. Take any attempt, let a command change only the keys it declared, and
  let admission accept or refuse it: admission returns, and restoring from the attempt gives
  back the complete logical content from before the command, evicted entries included.
\<close>

theorem rollback_exact:
  assumes "engine_ok E (store_engine st0)" and "begin_mutation E keys st0 = (att, st1)"
    and "engine_ok E (store_engine st2)" and "maxmemory_bytes st2 = maxmemory_bytes st1"
    and "\<forall>k. k \<notin> set keys \<longrightarrow> view E st2 k = view E st1 k"
  shows "\<exists>r att' st3. admit E prot att st2 = Some (r, att', st3) \<and>
    view E (rollback E att' st3) = view E st0"
proof -
  note b = begin_mutation_spec [OF assms(1,2)]
  from admit_spec [OF assms(3), of att prot] b(8) assms(4) obtain r att' st3 where
    run: "admit E prot att st2 = Some (r, att', st3)" and post: "admit_post E prot att st2 r att' st3" by auto
  have before: "hm_get (before_entries att') = (\<lambda>k. if k \<in> set keys then Some (view E st0 k) else None)" "hm_wf (before_entries att')"
    and wf3: "store_wf st3" using post b by (simp_all add: admit_post_def)
  obtain ev where ev: "evicted_entries att' = ev" "hm_wf ev" "\<forall>(k, x) \<in> set ev. view E st2 k = Some x"
    "view E st3 = (\<lambda>k. if k \<in> fst ` set ev then None else view E st2 k)"
  proof (cases r)
    case (Inl err)
    with post b(3) show thesis by (intro that [of "[]"]) (simp_all add: admit_post_def)
  next
    case (Inr u)
    with post b(3) show thesis by (auto simp: admit_post_def intro: that)
  qed
  have "view E (rollback E att' st3) k = view E st0 k" for k
  proof (cases "k \<in> set keys")
    case True
    then show ?thesis
      using restore_entries_view(1) [OF wf3 before(2) ev(2), of E k] before(1) ev(1) by (simp add: rollback_def)
  next
    case False
    then have same: "view E st2 k = view E st0 k" using assms(5) b(4) by simp
    show ?thesis
    proof (cases "hm_get ev k")
      case None
      then have "k \<notin> fst ` set ev" by (simp add: map_of_eq_None_iff)
      with None False same show ?thesis
        using restore_entries_view(1) [OF wf3 before(2) ev(2), of E k] before(1) ev(1,4) by (simp add: rollback_def)
    next
      case (Some x)
      then have x: "view E st0 k = Some x" using ev(3) map_of_SomeD same by fastforce
      then have "alive E (Some x) = Some x" using alive_view [of E st0 k] by simp
      with Some False x show ?thesis
        using restore_entries_view(1) [OF wf3 before(2) ev(2), of E k] before(1) ev(1) by (simp add: rollback_def)
    qed
  qed
  with run show ?thesis by auto
qed

definition tiny_store :: store where
  "tiny_store = \<lparr>store_engine = sample_engine, maxmemory_bytes = 100, maxmemory_policy = AllKeysLru\<rparr>"

theorem rollback_exact_witness:
  "\<exists>att st1 r att' st3. begin_mutation sample_env [''x''] tiny_store = (att, st1) \<and>
     admit sample_env [''x''] att st1 = Some (r, att', st3) \<and>
     view sample_env (rollback sample_env att' st3) = view sample_env tiny_store"
proof -
  obtain att st1 where begun: "begin_mutation sample_env [''x''] tiny_store = (att, st1)" by fastforce
  have ok: "engine_ok sample_env (store_engine tiny_store)" using sample_ok by (simp add: tiny_store_def)
  from rollback_exact [OF ok begun begin_mutation_spec(5) [OF ok begun], of "[''x'']"] begun show ?thesis
    by auto
qed

text \<open>
  C19. Admission control. After \<open>admit\<close> succeeds, the data set is within the memory limit or
  no larger than before the command, and only live keys outside the protected ones were
  evicted, every one of them recorded; after it refuses, the logical content is unchanged.
\<close>

theorem admit_correct:
  assumes "engine_ok E (store_engine st)" and "memory_before att = None \<longrightarrow> maxmemory_bytes st = 0"
  shows "\<exists>r att' st'. admit E prot att st = Some (r, att', st') \<and>
    (case r of
       Inl _ \<Rightarrow> view E st' = view E st \<and> att' = att
     | Inr _ \<Rightarrow> (\<exists>ev. evicted_entries att' = evicted_entries att @ ev \<and>
         (\<forall>(k, x) \<in> set ev. view E st k = Some x \<and> k \<notin> set prot) \<and>
         view E st' = (\<lambda>k. if k \<in> fst ` set ev then None else view E st k) \<and>
         (maxmemory_bytes st = 0 \<or> engine_bytes E (store_engine st') \<le> maxmemory_bytes st \<or>
            engine_bytes E (store_engine st') \<le> the (memory_before att))))"
proof -
  from admit_spec [OF assms(1), of att prot] assms(2) obtain r att' st' where
    "admit E prot att st = Some (r, att', st')" "admit_post E prot att st r att' st'" by auto
  then show ?thesis
    by (intro exI [of _ r] exI [of _ att'] exI [of _ st']) (cases r; auto simp: admit_post_def)
qed

theorem admit_correct_witness:
  "\<exists>r att' st'. admit sample_env [''x''] \<lparr>before_entries = [], memory_before = Some 70, key_count_before = None,
     evicted_entries = []\<rparr> tiny_store = Some (r, att', st')"
  using admit_correct [of sample_env tiny_store "\<lparr>before_entries = [], memory_before = Some 70,
    key_count_before = None, evicted_entries = []\<rparr>" "[''x'']"] sample_ok
  by (auto simp: tiny_store_def)

end
