(* ===== verification/Batch.thy ===== *)
theory Batch
  imports Admission Codec
begin

text \<open>
  \<open>src/persistence/model.rs\<close>: the committed effects of a mutation, derived by comparing the
  captured entries with the current ones, and their application to a store. The main result is
  that a replica, or a store rebuilt by recovery, that applies the derived effects at the same or
  any later time reaches the content of the store they were derived from.
\<close>

section \<open>Deriving and applying effects\<close>

definition pe_eq :: "persistent_entry \<Rightarrow> persistent_entry \<Rightarrow> bool" where
  "pe_eq a b \<longleftrightarrow> value_eq (pe_value a) (pe_value b) \<and> pe_expires_at a = pe_expires_at b"

fun opt_pe_eq :: "persistent_entry option \<Rightarrow> persistent_entry option \<Rightarrow> bool" where
  "opt_pe_eq None None = True"
| "opt_pe_eq (Some a) (Some b) = pe_eq a b"
| "opt_pe_eq _ _ = False"

definition key_effect :: "bytes \<Rightarrow> persistent_entry option \<Rightarrow> persistent_entry option \<Rightarrow> bool \<Rightarrow> committed_effect list" where
  "key_effect key previous current was_evicted =
     (if opt_pe_eq previous current \<and> \<not> was_evicted then []
      else (case current of
          Some entry \<Rightarrow> [PutE key entry]
        | None \<Rightarrow> if \<not> was_evicted then [DeleteE key] else []))"

fun derive_keys :: "env \<Rightarrow> (bytes, data_entry option) hmap \<Rightarrow> bytes list \<Rightarrow> bytes list \<Rightarrow> store \<Rightarrow>
    committed_effect list \<times> store" where
  "derive_keys E before deleted [] st = ([], st)"
| "derive_keys E before deleted (key # keys) st =
     (let previous = map_option persistent_entry_from (Option.bind (hm_get before key) (\<lambda>entry. entry))
      in case on_engine (peek E key) st of (found, st1) \<Rightarrow>
        (case derive_keys E before deleted keys st1 of (effs, st2) \<Rightarrow>
          (key_effect key previous (map_option persistent_entry_from found) (key \<in> set deleted) @ effs, st2)))"

definition derive_committed_batch :: "env \<Rightarrow> bytes list \<Rightarrow> (bytes, data_entry option) hmap \<Rightarrow>
    (bytes \<times> data_entry) list \<Rightarrow> store \<Rightarrow> committed_batch option \<times> store" where
  "derive_committed_batch E keys before evicted st =
     (let deleted = hs_collect (map fst evicted)
      in case derive_keys E before deleted keys st of (effs, st1) \<Rightarrow>
        (let all = map DeleteE deleted @ effs
         in (if all = [] then None else Some \<lparr>effects = all\<rparr>, st1)))"

fun apply_effect :: "env \<Rightarrow> committed_effect \<Rightarrow> store \<Rightarrow> store" where
  "apply_effect E (PutE key entry) st = snd (on_engine (apply_entry E key (into_data_entry E entry)) st)"
| "apply_effect E (DeleteE key) st = snd (on_engine (engine_delete E key) st)"

definition apply_committed_batch :: "env \<Rightarrow> committed_batch \<Rightarrow> store \<Rightarrow> store" where
  "apply_committed_batch E batch st = fold (apply_effect E) (effects batch) st"

section \<open>The persistent content of a store\<close>

definition pview :: "env \<Rightarrow> store \<Rightarrow> bytes \<Rightarrow> persistent_entry option" where
  "pview E st key = map_option persistent_entry_from (view E st key)"

definition palive :: "env \<Rightarrow> persistent_entry option \<Rightarrow> persistent_entry option" where
  "palive E v = (case v of None \<Rightarrow> None | Some p \<Rightarrow>
     (case pe_expires_at p of Some expiry \<Rightarrow> if expiry \<le> now E then None else Some p | None \<Rightarrow> Some p))"

text \<open>Equal as far as the code compares: the same entry, or entries that \<open>==\<close> identifies.\<close>

definition same_entry :: "persistent_entry option \<Rightarrow> persistent_entry option \<Rightarrow> bool" where
  "same_entry a b \<longleftrightarrow> a = b \<or> opt_pe_eq a b"

fun effect_update :: "env \<Rightarrow> committed_effect \<Rightarrow> (bytes \<Rightarrow> persistent_entry option) \<Rightarrow> bytes \<Rightarrow> persistent_entry option" where
  "effect_update E (PutE key entry) m = m(key := palive E (Some entry))"
| "effect_update E (DeleteE key) m = m(key := None)"

lemma alive_persistent: "map_option persistent_entry_from (alive E v) = palive E (map_option persistent_entry_from v)"
  by (auto simp: alive_def palive_def persistent_entry_from_def entry_expired_def split: option.splits)

lemma from_into [simp]: "persistent_entry_from (into_data_entry E p) = p"
  by (simp add: persistent_entry_from_def into_data_entry_def Let_def)

lemma pview_later: "now E \<le> now E' \<Longrightarrow> pview E' st k = palive E' (pview E st k)"
  by (auto simp: pview_def view_alive alive_def palive_def persistent_entry_from_def entry_expired_def
      split: option.splits)

lemma apply_effect_view:
  assumes "store_wf st"
  shows "pview E (apply_effect E eff st) = effect_update E eff (pview E st) \<and> store_wf (apply_effect E eff st)"
proof (cases eff)
  case (PutE key entry)
  have "map_option persistent_entry_from (alive E (Some (into_data_entry E entry))) = palive E (Some entry)"
    by (simp add: alive_persistent)
  with PutE apply_entry_view [OF assms, of E key "into_data_entry E entry"] show ?thesis
    by (simp add: pview_def fun_eq_iff)
next
  case (DeleteE key)
  with delete_view [OF assms, of E key] show ?thesis by (simp add: pview_def fun_eq_iff)
qed

lemma apply_effects_view:
  "store_wf st \<Longrightarrow> pview E (fold (apply_effect E) effs st) = fold (effect_update E) effs (pview E st) \<and>
    store_wf (fold (apply_effect E) effs st)"
  by (induction effs arbitrary: st) (simp_all add: apply_effect_view)

lemma apply_batch_view:
  "store_wf st \<Longrightarrow> pview E (apply_committed_batch E batch st) = fold (effect_update E) (effects batch) (pview E st)"
  "store_wf st \<Longrightarrow> store_wf (apply_committed_batch E batch st)"
  using apply_effects_view by (simp_all add: apply_committed_batch_def)

lemma derive_keys_spec:
  "store_wf st \<Longrightarrow> fst (derive_keys E before deleted keys st) = concat (map (\<lambda>key.
      key_effect key (map_option persistent_entry_from (Option.bind (hm_get before key) (\<lambda>entry. entry))) (pview E st key) (key \<in> set deleted)) keys) \<and>
    view E (snd (derive_keys E before deleted keys st)) = view E st \<and> store_wf (snd (derive_keys E before deleted keys st))"
proof (induction keys arbitrary: st)
  case (Cons key keys)
  let ?st1 = "snd (on_engine (peek E key) st)"
  have "fst (on_engine (peek E key) st) = view E st key" by (simp add: peek_fst view_def)
  with Cons.IH [OF peek_view(2) [OF Cons.prems, of E key]] peek_view [OF Cons.prems, of E key] show ?case
    by (simp add: case_prod_beta Let_def pview_def del: on_engine_fst)
qed simp

lemma fold_key_effects:
  "fold (effect_update E) (concat (map (\<lambda>key. key_effect key (prev key) (cur key) (ev key)) keys)) m k =
    (if k \<in> set keys \<and> key_effect k (prev k) (cur k) (ev k) \<noteq> [] then palive E (cur k) else m k)"
proof (induction keys arbitrary: m)
  case (Cons key keys)
  have "fold (effect_update E) (key_effect key (prev key) (cur key) (ev key)) m k =
      (if k = key \<and> key_effect k (prev k) (cur k) (ev k) \<noteq> [] then palive E (cur k) else m k)" for m
    by (auto simp: key_effect_def palive_def split: option.splits)
  with Cons show ?case by auto
qed simp

lemma fold_deletes: "fold (effect_update E) (map DeleteE ks) m k = (if k \<in> set ks then None else m k)"
  by (induction ks arbitrary: m) auto

lemma hs_collect_set: "set (hs_collect xs) = set xs"
proof -
  have "set (fold (\<lambda>x s. if x \<in> set s then s else s @ [x]) xs s) = set s \<union> set xs" for s
    by (induction xs arbitrary: s) auto
  then show ?thesis by (simp add: hs_collect_def)
qed

section \<open>Equality is transitive\<close>

lemma zero_or: "((a :: 'a::len word) OR b) AND m = 0 \<longleftrightarrow> a AND m = 0 \<and> b AND m = 0"
  by (simp add: bit_eq_iff bit_simps) blast

lemma f64_eq_trans: "f64_eq a b \<Longrightarrow> f64_eq b c \<Longrightarrow> f64_eq a c"
  by (auto simp: f64_eq_def zero_or)

lemma f32_eq_trans: "f32_eq a b \<Longrightarrow> f32_eq b c \<Longrightarrow> f32_eq a c"
  by (auto simp: f32_eq_def zero_or)

lemma hmap_eq_trans: "hmap_eq a b \<Longrightarrow> hmap_eq b c \<Longrightarrow> hmap_eq a c"
  by (auto simp: hmap_eq_def list_all_iff dest!: map_of_SomeD)

lemma value_eq_trans: "value_eq a b \<Longrightarrow> value_eq b c \<Longrightarrow> value_eq a c"
proof (induction a b rule: value_eq.induct)
  case (3 a b) then show ?case by (cases c) (auto intro: f64_eq_trans)
next
  case (5 a b) then show ?case by (cases c) (auto intro: hmap_eq_trans)
next
  case (6 a b) then show ?case by (cases c) (auto simp: hset_eq_def list_all_iff)
next
  case (8 a b) then show ?case by (cases c) (auto intro: list_all2_trans [OF f32_eq_trans])
qed auto

lemma same_entry_trans: "same_entry a b \<Longrightarrow> same_entry b c \<Longrightarrow> same_entry a c"
  by (cases a; cases b; cases c) (auto simp: same_entry_def pe_eq_def intro: value_eq_trans)

lemma same_entry_alive: "same_entry a b \<Longrightarrow> same_entry (palive E a) (palive E b)"
proof (cases a; cases b)
  fix x y assume eq: "same_entry a b" "a = Some x" "b = Some y"
  then have "pe_expires_at x = pe_expires_at y" by (auto simp: same_entry_def pe_eq_def)
  with eq show ?thesis by (simp add: same_entry_def palive_def pe_eq_def split: option.split)
qed (auto simp: same_entry_def)

section \<open>Replication\<close>

lemma derive_spec:
  assumes "store_wf st" and "derive_committed_batch E keys before evicted st = (b, st')"
  shows "view E st' = view E st"
    and "fold (effect_update E') (case b of None \<Rightarrow> [] | Some batch \<Rightarrow> effects batch) m k =
      (let deleted = k \<in> fst ` set evicted;
           previous = map_option persistent_entry_from (Option.bind (hm_get before k) (\<lambda>entry. entry))
       in if k \<in> set keys \<and> key_effect k previous (pview E st k) deleted \<noteq> [] then palive E' (pview E st k)
          else if deleted then None else m k)"
proof -
  let ?deleted = "hs_collect (map fst evicted)"
  let ?d = "derive_keys E before ?deleted keys st"
  note spec = derive_keys_spec [OF assms(1), of E before ?deleted keys]
  from assms(2) spec have st': "view E st' = view E st"
    and b: "(case b of None \<Rightarrow> [] | Some batch \<Rightarrow> effects batch) = map DeleteE ?deleted @ fst ?d"
    by (auto simp: derive_committed_batch_def Let_def case_prod_beta split: if_splits)
  show "view E st' = view E st" by (rule st')
  show "fold (effect_update E') (case b of None \<Rightarrow> [] | Some batch \<Rightarrow> effects batch) m k =
      (let deleted = k \<in> fst ` set evicted;
           previous = map_option persistent_entry_from (Option.bind (hm_get before k) (\<lambda>entry. entry))
       in if k \<in> set keys \<and> key_effect k previous (pview E st k) deleted \<noteq> [] then palive E' (pview E st k)
          else if deleted then None else m k)"
    unfolding b fold_append comp_def conjunct1 [OF spec] fold_key_effects fold_deletes
    by (simp add: Let_def hs_collect_set)
qed

definition apply_derived :: "env \<Rightarrow> committed_batch option \<Rightarrow> store \<Rightarrow> store" where
  "apply_derived E b st = (case b of None \<Rightarrow> st | Some batch \<Rightarrow> apply_committed_batch E batch st)"

lemma apply_derived_view: "store_wf st \<Longrightarrow>
    pview E (apply_derived E b st) = fold (effect_update E) (case b of None \<Rightarrow> [] | Some batch \<Rightarrow> effects batch) (pview E st)"
  by (auto simp: apply_derived_def apply_batch_view split: option.splits)

text \<open>The persistent part of what was captured for a key.\<close>

abbreviation captured_entry :: "(bytes, data_entry option) hmap \<Rightarrow> bytes \<Rightarrow> persistent_entry option" where
  "captured_entry before k \<equiv> map_option persistent_entry_from (Option.bind (hm_get before k) (\<lambda>entry. entry))"

lemma replicates:
  assumes "store_wf replica" and "store_wf st" and "now E \<le> now E'"
    and captured: "\<And>k. k \<in> set keys \<Longrightarrow> captured_entry before k = pview E st0 k"
    and untouched: "\<forall>k. k \<notin> set keys \<and> k \<notin> fst ` set evicted \<longrightarrow> pview E st k = pview E st0 k"
    and gone: "\<forall>k \<in> fst ` set evicted. k \<notin> set keys \<longrightarrow> view E st k = None"
    and agreed: "\<forall>k. same_entry (pview E' replica k) (pview E' st0 k)"
    and derived: "derive_committed_batch E keys before evicted st = (b, st')"
  shows "\<forall>k. same_entry (pview E' (apply_derived E' b replica) k) (pview E' st' k)"
proof
  fix k
  let ?deleted = "k \<in> fst ` set evicted"
  have after: "pview E' st' k = palive E' (pview E st k)"
    using derive_spec(1) [OF assms(2) derived] pview_later [OF assms(3), of st' k] by (simp add: pview_def)
  have before: "pview E' st0 k = palive E' (pview E st0 k)" by (rule pview_later [OF assms(3)])
  note result = derive_spec(2) [OF assms(2) derived, of E' "pview E' replica" k, folded apply_derived_view [OF assms(1)]]
  show "same_entry (pview E' (apply_derived E' b replica) k) (pview E' st' k)"
  proof (cases "k \<in> set keys")
    case True
    with captured have prev: "map_option persistent_entry_from (Option.bind (hm_get before k) (\<lambda>entry. entry)) = pview E st0 k"
      by simp
    show ?thesis
    proof (cases "opt_pe_eq (pview E st0 k) (pview E st k) \<and> \<not> ?deleted")
      case eq: True
      then have "same_entry (pview E' st0 k) (pview E' st' k)"
        unfolding after before by (intro same_entry_alive) (simp add: same_entry_def)
      with agreed eq True result prev show ?thesis
        by (auto simp: Let_def key_effect_def intro: same_entry_trans)
    next
      case False
      with True result prev show ?thesis
        by (cases "pview E st k") (auto simp: Let_def key_effect_def after same_entry_def palive_def)
    qed
  next
    case False
    with result have r: "pview E' (apply_derived E' b replica) k = (if ?deleted then None else pview E' replica k)"
      by (simp add: Let_def)
    show ?thesis
    proof (cases ?deleted)
      case True
      from bspec [OF gone True] False have "view E st k = None" by simp
      then have "pview E' st' k = None" unfolding after by (simp add: pview_def palive_def)
      moreover have "pview E' (apply_derived E' b replica) k = None" unfolding r using True by (rule if_P)
      ultimately show ?thesis by (simp only: same_entry_def simp_thms)
    next
      case kept: False
      with False untouched before after r spec [OF agreed, of k] show ?thesis by simp
    qed
  qed
qed

text \<open>
  C22. Applying the derived effects reproduces the mutation. Let the captured entries be those of
  the keys before the mutation, let the mutation have changed no other key except by eviction,
  and let the evicted keys be gone unless they are among the captured ones. Then a store that
  agreed with the content before the mutation and applies the effects, at the same or any later
  time, agrees with the content after it, at every key, up to the equality of the code.
\<close>

theorem derived_effects_replicate:
  assumes "store_wf replica" and "store_wf st" and "now E \<le> now E'"
    and captured: "\<forall>k \<in> set keys. hm_get before k = Some (view E st0 k)"
    and untouched: "\<forall>k. k \<notin> set keys \<and> k \<notin> fst ` set evicted \<longrightarrow> pview E st k = pview E st0 k"
    and gone: "\<forall>k \<in> fst ` set evicted. k \<notin> set keys \<longrightarrow> view E st k = None"
    and agreed: "\<forall>k. same_entry (pview E' replica k) (pview E' st0 k)"
    and derived: "derive_committed_batch E keys before evicted st = (b, st')"
  shows "\<forall>k. same_entry (pview E' (apply_derived E' b replica) k) (pview E' st' k)"
  by (rule replicates [OF assms(1-3) _ untouched gone agreed derived]) (simp add: captured pview_def)

definition replica_env :: env where
  "replica_env = sample_env\<lparr>now := 5000\<rparr>"

theorem derived_effects_replicate_witness:
  "\<forall>k. same_entry (pview replica_env (apply_derived replica_env (fst (derive_committed_batch sample_env
       [''x'', ''k''] [(''x'', None), (''k'', None)] [] tiny_store)) store_new) k)
     (pview replica_env (snd (derive_committed_batch sample_env [''x'', ''k'']
       [(''x'', None), (''k'', None)] [] tiny_store)) k)"
proof (rule derived_effects_replicate [of _ _ sample_env _ _ _ store_new])
  show "store_wf store_new"
    using engine_new_ok [of sample_env] by (simp add: store_wf_def store_new_def with_maxmemory_def engine_ok_def)
  show "store_wf tiny_store" using sample_ok by (simp add: store_wf_def tiny_store_def engine_ok_def)
  show "now sample_env \<le> now replica_env" by (simp add: sample_env_def replica_env_def)
  have empty: "view E store_new k = None" for E k
    by (simp add: view_def live_def store_new_def with_maxmemory_def)
  then show "\<forall>k \<in> set [''x'', ''k'']. hm_get [(''x'', None), (''k'', None)] k = Some (view sample_env store_new k)"
    by simp
  show "\<forall>k. k \<notin> set [''x'', ''k''] \<and> k \<notin> fst ` set [] \<longrightarrow> pview sample_env tiny_store k = pview sample_env store_new k"
    by (simp add: pview_def empty) (simp add: view_def tiny_store_def sample_contents live_def)
qed (simp_all add: same_entry_def)

end
