(* ===== verification/Float64.thy ===== *)
theory Float64
  imports Rust_Std
begin

text \<open>
  The part of the \<open>f64\<close> arithmetic of Rust that the JSON commands use: addition with rounding
  to nearest even, the tests \<open>fract() == 0.0\<close> and \<open>abs() < i64::MAX as f64\<close>, the cast
  to \<open>i64\<close>, \<open>str::parse\<close> and \<open>to_string\<close>. A float is its bit pattern; a finite
  one denotes a signed significand times a power of two.
\<close>

section \<open>Bit patterns\<close>

definition f64_negative :: "f64 \<Rightarrow> bool" where
  "f64_negative w = bit w 63"

definition f64_exp :: "f64 \<Rightarrow> nat" where
  "f64_exp w = unat (take_bit 11 (drop_bit 52 w))"

definition f64_frac :: "f64 \<Rightarrow> nat" where
  "f64_frac w = unat (take_bit 52 w)"

definition f64_finite :: "f64 \<Rightarrow> bool" where
  "f64_finite w \<longleftrightarrow> f64_exp w \<noteq> 2047"

definition f64_nan :: f64 where
  "f64_nan = 0x7FF8000000000000"

definition f64_inf :: "bool \<Rightarrow> f64" where
  "f64_inf neg = (if neg then 0xFFF0000000000000 else 0x7FF0000000000000)"

definition f64_isnan :: "f64 \<Rightarrow> bool" where
  "f64_isnan w \<longleftrightarrow> f64_exp w = 2047 \<and> f64_frac w \<noteq> 0"

text \<open>Significand and binary exponent of a finite float.\<close>

definition f64_sig :: "f64 \<Rightarrow> nat" where
  "f64_sig w = (if f64_exp w = 0 then f64_frac w else 2 ^ 52 + f64_frac w)"

definition f64_scale :: "f64 \<Rightarrow> int" where
  "f64_scale w = (if f64_exp w = 0 then - 1074 else int (f64_exp w) - 1075)"

definition f64_pack :: "bool \<Rightarrow> nat \<Rightarrow> nat \<Rightarrow> f64" where
  "f64_pack neg ex frac = word_of_nat ((if neg then 2 ^ 63 else 0) + ex * 2 ^ 52 + frac)"

fun bit_length :: "nat \<Rightarrow> nat" where
  "bit_length n = (if n = 0 then 0 else Suc (bit_length (n div 2)))"

declare bit_length.simps [simp del]

section \<open>Rounding\<close>

text \<open>Division by a power of two, rounded to nearest, ties to even.\<close>

definition round_shift :: "nat \<Rightarrow> nat \<Rightarrow> nat" where
  "round_shift n k = (let q = n div 2 ^ k; r = n mod 2 ^ k in
     if k = 0 then n else if 2 ^ (k - 1) < r \<or> r = 2 ^ (k - 1) \<and> odd q then q + 1 else q)"

text \<open>The float nearest to \<open>n * 2 ^ e\<close>.\<close>

definition f64_round :: "bool \<Rightarrow> nat \<Rightarrow> int \<Rightarrow> f64" where
  "f64_round neg n e =
     (if n = 0 then f64_pack neg 0 0
      else let t = max (e + int (bit_length n) - 53) (- 1074);
               m = (if t \<le> e then n * 2 ^ nat (e - t) else round_shift n (nat (t - e)));
               m' = (if m = 2 ^ 53 then 2 ^ 52 else m); t' = (if m = 2 ^ 53 then t + 1 else t)
           in if m' < 2 ^ 52 then f64_pack neg 0 m'
              else if 2046 < t' + 1075 then f64_inf neg
              else f64_pack neg (nat (t' + 1075)) (m' - 2 ^ 52))"

definition f64_signed :: "f64 \<Rightarrow> int \<Rightarrow> int" where
  "f64_signed w e = (if f64_negative w then - 1 else 1) * int (f64_sig w) * 2 ^ nat (f64_scale w - e)"

definition f64_add :: "f64 \<Rightarrow> f64 \<Rightarrow> f64" where
  "f64_add a b =
     (if f64_isnan a \<or> f64_isnan b then f64_nan
      else if \<not> f64_finite a then
        (if \<not> f64_finite b \<and> f64_negative a \<noteq> f64_negative b then f64_nan else a)
      else if \<not> f64_finite b then b
      else let e = min (f64_scale a) (f64_scale b); s = f64_signed a e + f64_signed b e
           in if s = 0 then f64_pack (f64_negative a \<and> f64_negative b) 0 0
              else f64_round (s < 0) (nat \<bar>s\<bar>) e)"

section \<open>Integers\<close>

definition f64_fract_zero :: "f64 \<Rightarrow> bool" where
  "f64_fract_zero w \<longleftrightarrow> f64_finite w \<and> (0 \<le> f64_scale w \<or> 2 ^ nat (- f64_scale w) dvd f64_sig w)"

definition f64_abs_below_i64_max :: "f64 \<Rightarrow> bool" where
  "f64_abs_below_i64_max w \<longleftrightarrow> f64_finite w \<and>
     (if 0 \<le> f64_scale w then f64_sig w * 2 ^ nat (f64_scale w) < 2 ^ 63
      else f64_sig w < 2 ^ 63 * 2 ^ nat (- f64_scale w))"

definition f64_trunc :: "f64 \<Rightarrow> int" where
  "f64_trunc w = (if f64_negative w then - 1 else 1) *
     int (if 0 \<le> f64_scale w then f64_sig w * 2 ^ nat (f64_scale w) else f64_sig w div 2 ^ nat (- f64_scale w))"

text \<open>The saturating cast \<open>as i64\<close>.\<close>

definition f64_as_i64 :: "f64 \<Rightarrow> i64" where
  "f64_as_i64 w =
     (if f64_isnan w then 0
      else if \<not> f64_finite w then (if f64_negative w then word_of_int (- (2 ^ 63)) else word_of_int (2 ^ 63 - 1))
      else word_of_int (max (- (2 ^ 63)) (min (f64_trunc w) (2 ^ 63 - 1))))"

section \<open>Text\<close>

text \<open>The float nearest to \<open>n / d\<close>, through a quotient of at least 64 bits and a sticky bit.\<close>

definition f64_of_ratio :: "bool \<Rightarrow> nat \<Rightarrow> nat \<Rightarrow> f64" where
  "f64_of_ratio neg n d = (let t = bit_length d + 64; q = n * 2 ^ t div d; r = n * 2 ^ t mod d
     in f64_round neg (2 * q + (if r = 0 then 0 else 1)) (- int t - 1))"

definition f64_of_decimal :: "bool \<Rightarrow> nat \<Rightarrow> int \<Rightarrow> f64" where
  "f64_of_decimal neg n k = (if 0 \<le> k then f64_round neg (n * 10 ^ nat k) 0 else f64_of_ratio neg n (10 ^ nat (- k)))"

definition split_digits :: "bytes \<Rightarrow> bytes \<times> bytes" where
  "split_digits s = (takeWhile (between 48 57) s, dropWhile (between 48 57) s)"

fun parse_exponent :: "bytes \<Rightarrow> int option" where
  "parse_exponent [] = Some 0"
| "parse_exponent (c # cs) =
     (if c \<noteq> CHR ''e'' \<and> c \<noteq> CHR ''E'' then None
      else let (neg, ds) = (case cs of d # rest \<Rightarrow> if d = CHR ''-'' then (True, rest) else if d = CHR ''+'' then (False, rest) else (False, cs)
                             | [] \<Rightarrow> (False, [])) in
        if ds = [] then None else map_option (\<lambda>n. if neg then - int n else int n) (parse_digits ds 0))"

definition parse_f64_number :: "bool \<Rightarrow> bytes \<Rightarrow> f64 option" where
  "parse_f64_number neg s =
     (let (whole, r1) = split_digits s;
          (frac, r2) = (case r1 of c # rest \<Rightarrow> if c = CHR ''.'' then split_digits rest else ([], r1) | [] \<Rightarrow> ([], []))
      in if whole = [] \<and> frac = [] then None
         else Option.bind (parse_exponent r2) (\<lambda>ex. Option.bind (parse_digits (whole @ frac) 0)
           (\<lambda>n. Some (f64_of_decimal neg n (ex - int (length frac))))))"

definition ascii_lower :: "char \<Rightarrow> char" where
  "ascii_lower c = (if between 65 90 c then char_of (of_char c + 32 :: nat) else c)"

definition parse_f64 :: "bytes \<Rightarrow> f64 option" where
  "parse_f64 s =
     (let (neg, body) = (case s of c # rest \<Rightarrow> if c = CHR ''-'' then (True, rest) else if c = CHR ''+'' then (False, rest) else (False, s)
                          | [] \<Rightarrow> (False, []));
          word = map ascii_lower body
      in if word = ''inf'' \<or> word = ''infinity'' then Some (f64_inf neg)
         else if word = ''nan'' then Some (if neg then f64_nan OR 0x8000000000000000 else f64_nan)
         else parse_f64_number neg body)"

text \<open>
  The shortest decimal that reads back as the float, the closest one among those; without an
  exponent. The value is \<open>n / d\<close>; \<open>p\<close> is the power of ten of the last digit.
\<close>

definition ratio :: "f64 \<Rightarrow> nat \<times> nat" where
  "ratio w = (if 0 \<le> f64_scale w then (f64_sig w * 2 ^ nat (f64_scale w), 1) else (f64_sig w, 2 ^ nat (- f64_scale w)))"

text \<open>The power of ten of the first digit.\<close>

definition first_digit :: "nat \<Rightarrow> nat \<Rightarrow> int" where
  "first_digit n d = (if d \<le> n then int (length (nat_to_string (n div d))) - 1
     else - int (length (nat_to_string ((d - 1) div n))))"

definition decimal_candidates :: "nat \<Rightarrow> nat \<Rightarrow> int \<Rightarrow> nat list" where
  "decimal_candidates n d p = (let (a, b) = (if 0 \<le> p then (n, d * 10 ^ nat p) else (n * 10 ^ nat (- p), d));
       q = a div b; r = a mod b
     in if 2 * r \<le> b then [q, q + 1] else [q + 1, q])"

definition shortest :: "f64 \<Rightarrow> nat \<times> int" where
  "shortest w = (let (n, d) = ratio w; top = first_digit n d;
       attempts = concat (map (\<lambda>len. let p = top - int len + 1 in map (\<lambda>c. (c, p)) (decimal_candidates n d p)) [1..<18])
     in case filter (\<lambda>(c, p). f64_of_decimal (f64_negative w) c p = w) attempts of
          [] \<Rightarrow> (0, 0) | x # _ \<Rightarrow> x)"

definition f64_to_string :: "f64 \<Rightarrow> bytes" where
  "f64_to_string w =
     (if f64_isnan w then ''NaN''
      else let sign = (if f64_negative w then ''-'' else [])
           in if \<not> f64_finite w then sign @ ''inf''
              else if f64_sig w = 0 then sign @ ''0''
              else let (c, p) = shortest w; digits = nat_to_string c in
                if 0 \<le> p then sign @ digits @ replicate (nat p) (CHR ''0'')
                else let k = nat (- p) in
                  if k < length digits then sign @ take (length digits - k) digits @ ''.'' @ drop (length digits - k) digits
                  else sign @ ''0.'' @ replicate (k - length digits) (CHR ''0'') @ digits)"

end
