(* ===== verification/Json_Number.thy ===== *)
theory Json_Number
  imports Store Float64
begin

text \<open>
  \<open>JSON.NUMINCRBY\<close>: \<open>numincrby_json_path\<close> of \<open>src/store/json_path.rs\<close> and
  \<open>json_numincrby\<close> of \<open>src/store.rs\<close>. Reading a JSON number as a float and storing a float
  or an integer as a JSON number are functions of the environment, being \<open>serde_json\<close> code.
\<close>

fun node_as_f64 :: "env \<Rightarrow> json \<Rightarrow> f64 option" where
  "node_as_f64 E (JNumber n) = number_as_f64 E n"
| "node_as_f64 E _ = None"

definition numincrby_node :: "env \<Rightarrow> f64 \<Rightarrow> json \<Rightarrow> (bytes + f64) \<times> json" where
  "numincrby_node E delta node = (case node_as_f64 E node of
      None \<Rightarrow> (Inl ''WRONGTYPE the value at the path is not a number'', node)
    | Some current \<Rightarrow> let new_val = f64_add current delta in
        if f64_fract_zero new_val \<and> f64_abs_below_i64_max new_val
        then (Inr new_val, JNumber (number_of_i64 E (f64_as_i64 new_val)))
        else (case number_of_f64 E new_val of
            None \<Rightarrow> (Inl ''ERR invalid numeric result (NaN or infinity)'', node)
          | Some new_number \<Rightarrow> (Inr new_val, JNumber new_number)))"

definition numincrby_json_path :: "env \<Rightarrow> json \<Rightarrow> json_path_segment list \<Rightarrow> f64 \<Rightarrow> (bytes + f64) \<times> json" where
  "numincrby_json_path E root segments delta = (case update_json_path (numincrby_node E delta) root segments of
      None \<Rightarrow> (Inl ''ERR path JSON not found'', root)
    | Some (r, root') \<Rightarrow> (r, root'))"

definition json_numincrby :: "env \<Rightarrow> bytes \<Rightarrow> bytes \<Rightarrow> f64 \<Rightarrow> store \<Rightarrow> (bytes + f64) \<times> store" where
  "json_numincrby E key path delta st = (case parse_json_path path of
      None \<Rightarrow> (Inl invalid_path, st)
    | Some segments \<Rightarrow> apfst (\<lambda>result. case result of
              Some (Some r) \<Rightarrow> r
            | Some None \<Rightarrow> Inl wrong_type_message
            | None \<Rightarrow> Inl missing_document)
          (on_engine (update_if_exists E key
             (on_document (\<lambda>root. numincrby_json_path E root segments delta))) st))"

end
