(* ===== verification/Execution.thy ===== *)
theory Execution
  imports Batch Resp Json_Number
begin

text \<open>
  \<open>src/command.rs\<close> and \<open>src/execution.rs\<close>: the classification of commands, the keys a command
  may change, and \<open>execute_command\<close>, which runs a data command on the store and reports whether
  it changed anything. The main result is that the report and the key set can be trusted by the
  commit path: only the announced keys change, and a command that reports no change made none.
\<close>

section \<open>Classification\<close>

definition write_commands :: "bytes list" where
  "write_commands = [''SET'', ''GETSET'', ''SETNX'', ''MSET'', ''DEL'', ''EXPIRE'', ''EXPIREAT'', ''LPUSH'', ''RPUSH'',
     ''LPOP'', ''RPOP'', ''HSET'', ''SADD'', ''RENAME'', ''INCR'', ''INCRBY'', ''DECRBY'', ''APPEND'', ''HDEL'', ''SREM'',
     ''COPY'', ''JSON.SET'', ''JSON.DEL'', ''JSON.NUMINCRBY'', ''JSON.ARRAPPEND'']"

definition is_write_command :: "bytes \<Rightarrow> bool" where
  "is_write_command command \<longleftrightarrow> command \<in> set write_commands"

definition replica_reads :: "bytes list" where
  "replica_reads = [''GET'', ''MGET'', ''LRANGE'', ''LLEN'', ''HGET'', ''HGETALL'', ''HKEYS'', ''HVALS'', ''SMEMBERS'',
     ''SISMEMBER'', ''EXISTS'', ''TYPE'', ''TTL'', ''KEYS'', ''STRLEN'', ''JSON.GET'', ''JSON.TYPE'', ''JSON.ARRLEN'',
     ''JSON.OBJKEYS'']"

definition is_replica_routable_read :: "bytes \<Rightarrow> bool" where
  "is_replica_routable_read command \<longleftrightarrow> command \<in> set replica_reads"

datatype mutation_state = NotRequested | NoChange | Tentative | Committed

record command_outcome =
  response :: resp_value
  mutation :: mutation_state

definition outcome_read :: "resp_value \<Rightarrow> command_outcome" where
  "outcome_read r = \<lparr>response = r, mutation = NotRequested\<rparr>"

text \<open>\<open>args.get(i)\<close> with a default.\<close>

definition arg_or :: "bytes \<Rightarrow> nat \<Rightarrow> bytes list \<Rightarrow> bytes" where
  "arg_or d i args = (if i < length args then args ! i else d)"

abbreviation arg_at :: "nat \<Rightarrow> bytes list \<Rightarrow> bytes" where
  "arg_at \<equiv> arg_or []"

fun mset_keys :: "bytes list \<Rightarrow> bytes list" where
  "mset_keys (key # v # rest) = key # mset_keys rest"
| "mset_keys _ = []"

definition affected_keys :: "bytes list \<Rightarrow> bytes list" where
  "affected_keys args = (let command = arg_at 0 args in
     hs_collect (if command = ''MSET'' then mset_keys (drop 1 args)
       else if command = ''RENAME'' \<or> command = ''COPY'' then take 2 (drop 1 args)
       else if is_write_command command then take 1 (drop 1 args)
       else []))"

section \<open>Replies\<close>

type_synonym reply = "resp_value \<times> bool"

definition flag :: "bool \<Rightarrow> resp_value" where
  "flag b = Integer (if b then 1 else 0)"

definition ok_reply :: resp_value where
  "ok_reply = SimpleString ''OK''"

definition bulk_array :: "bytes list \<Rightarrow> resp_value" where
  "bulk_array vs = Array (map (\<lambda>v. BulkString (Some v)) vs)"

definition quoted :: "bytes \<Rightarrow> bytes" where
  "quoted s = [CHR 0x27] @ s @ [CHR 0x27]"

definition on_typed :: "('a \<Rightarrow> reply) \<Rightarrow> (store_error + 'a) \<times> store \<Rightarrow> reply \<times> store" where
  "on_typed f = apfst (\<lambda>r. case r of Inl err \<Rightarrow> (Error (store_error_message err), False) | Inr a \<Rightarrow> f a)"

definition on_text :: "('a \<Rightarrow> reply) \<Rightarrow> (bytes + 'a) \<times> store \<Rightarrow> reply \<times> store" where
  "on_text f = apfst (\<lambda>r. case r of Inl msg \<Rightarrow> (Error msg, False) | Inr a \<Rightarrow> f a)"

definition length_reply :: "nat \<Rightarrow> resp_value" where
  "length_reply n = Integer (word_of_nat n)"

section \<open>Commands\<close>

text \<open>
  The options of \<open>SET\<close>. Their names are compared after \<open>to_uppercase\<close>; on these all-ASCII
  literals that agrees with the ASCII conversion used here. \<open>None\<close> is a syntax error.
\<close>

fun set_options :: "env \<Rightarrow> bytes list \<Rightarrow> u64 option \<Rightarrow> bool option \<Rightarrow> (u64 option \<times> bool option) option" where
  "set_options E [] expires condition = Some (expires, condition)"
| "set_options E (opt # rest) expires condition = (let name = to_ascii_uppercase opt in
     if name = ''NX'' then set_options E rest expires (Some True)
     else if name = ''XX'' then set_options E rest expires (Some False)
     else if name = ''EX'' \<or> name = ''PX'' \<or> name = ''EXAT'' then
       (case rest of [] \<Rightarrow> None | v # rest' \<Rightarrow> (case parse_u64 v of
           None \<Rightarrow> None
         | Some n \<Rightarrow>
             if name = ''EXAT'' then set_options E rest' (Some n) condition
             else if n = 0 then None
             else if name = ''EX'' then set_options E rest' (Some (u64_saturating_add (now E) n)) condition
             else set_options E rest' (Some (u64_saturating_add (now E) (u64_saturating_add n 999 div 1000))) condition))
     else None)"

definition exec_set :: "env \<Rightarrow> bytes list \<Rightarrow> store \<Rightarrow> reply \<times> store" where
  "exec_set E args st = (case set_options E (drop 3 args) None None of
      None \<Rightarrow> ((Error ''ERR syntax error'', False), st)
    | Some (expires, condition) \<Rightarrow>
        apfst (\<lambda>ok. if ok then (ok_reply, True) else (BulkString None, False))
          (on_engine (set_conditional E (arg_at 1 args) (Blob (arg_at 2 args)) expires condition) st))"

definition exec_strings :: "env \<Rightarrow> bytes list \<Rightarrow> store \<Rightarrow> (reply \<times> store) option" where
  "exec_strings E args st = (let cmd = arg_at 0 args; key = arg_at 1 args; arg = arg_at 2 args; n = length args in
     if cmd = ''SET'' \<and> 3 \<le> n then Some (exec_set E args st)
     else if cmd = ''GET'' \<and> 2 \<le> n then Some (on_typed (\<lambda>v. (BulkString v, False)) (store_get E key st))
     else if cmd = ''DEL'' \<and> 2 \<le> n then Some (apfst (\<lambda>deleted. (flag deleted, deleted)) (store_delete E key st))
     else if cmd = ''INCR'' \<and> 2 \<le> n then Some (on_text (\<lambda>v. (Integer v, True)) (incr E key st))
     else None)"

definition pop_reply :: "bytes option \<Rightarrow> reply" where
  "pop_reply v = (case v of Some x \<Rightarrow> (BulkString (Some x), True) | None \<Rightarrow> (BulkString None, False))"

definition exec_lists :: "env \<Rightarrow> bytes list \<Rightarrow> store \<Rightarrow> (reply \<times> store) option" where
  "exec_lists E args st = (let cmd = arg_at 0 args; key = arg_at 1 args; arg = arg_at 2 args; n = length args in
     if cmd = ''LPUSH'' \<and> 3 \<le> n then Some (on_typed (\<lambda>l. (length_reply l, True)) (lpush E key arg st))
     else if cmd = ''RPUSH'' \<and> 3 \<le> n then Some (on_typed (\<lambda>l. (length_reply l, True)) (rpush E key arg st))
     else if cmd = ''LPOP'' \<and> 2 \<le> n then Some (on_typed pop_reply (lpop E key st))
     else if cmd = ''RPOP'' \<and> 2 \<le> n then Some (on_typed pop_reply (rpop E key st))
     else if cmd = ''LRANGE'' \<and> 2 \<le> n then
       (let start = (case parse_i64 (arg_at 2 args) of Some i \<Rightarrow> i | None \<Rightarrow> 0);
            stop = (case parse_i64 (arg_at 3 args) of Some i \<Rightarrow> i | None \<Rightarrow> - 1)
        in Some (on_typed (\<lambda>l. (bulk_array l, False)) (lrange E key start stop st)))
     else None)"

definition exec_keys :: "env \<Rightarrow> bytes list \<Rightarrow> store \<Rightarrow> (reply \<times> store) option" where
  "exec_keys E args st = (let cmd = arg_at 0 args; key = arg_at 1 args; arg = arg_at 2 args; n = length args in
     if cmd = ''EXPIREAT'' \<and> 3 \<le> n then (case parse_u64 arg of
         Some t \<Rightarrow> Some (apfst (\<lambda>updated. (flag updated, updated)) (expire_at E key t st))
       | None \<Rightarrow> Some ((Error ''ERR invalid timestamp'', False), st))
     else if cmd = ''TTL'' \<and> 2 \<le> n then Some (apfst (\<lambda>t. (Integer t, False)) (ttl E key st))
     else if cmd = ''EXISTS'' \<and> 2 \<le> n then Some (apfst (\<lambda>b. (flag b, False)) (exists E key st))
     else if cmd = ''TYPE'' \<and> 2 \<le> n then
       Some (apfst (\<lambda>t. (SimpleString (case t of Some name \<Rightarrow> name | None \<Rightarrow> ''none''), False)) (value_type E key st))
     else None)"

definition exec_json :: "env \<Rightarrow> bytes list \<Rightarrow> store \<Rightarrow> (reply \<times> store) option" where
  "exec_json E args st = (let cmd = arg_at 0 args; key = arg_at 1 args; n = length args in
     if cmd = ''JSON.SET'' then
       (let path = arg_at 2 args; raw_value = arg_at 3 args in
        if n < 4 \<or> path = [] then Some ((Error ''ERR usage: JSON.SET key path json-value'', False), st)
        else (case json_parse E raw_value of
            Inr parsed \<Rightarrow> Some (on_text (\<lambda>_. (ok_reply, True)) (json_set E key path parsed st))
          | Inl _ \<Rightarrow> Some ((Error ''ERR value is not valid JSON'', False), st)))
     else if cmd = ''JSON.GET'' \<and> 2 \<le> n then
       Some (on_text (\<lambda>v. (BulkString v, False)) (json_get E key (arg_or ''$'' 2 args) st))
     else if cmd = ''JSON.DEL'' \<and> 2 \<le> n then
       Some (on_text (\<lambda>deleted. (flag deleted, deleted)) (json_del E key (arg_or ''$'' 2 args) st))
     else if cmd = ''JSON.TYPE'' \<and> 2 \<le> n then
       Some (on_text (\<lambda>t. (case t of Some name \<Rightarrow> SimpleString name | None \<Rightarrow> BulkString None, False))
         (json_type E key (arg_or ''$'' 2 args) st))
     else if cmd = ''JSON.NUMINCRBY'' \<and> 2 \<le> n then (case parse_f64 (arg_at 3 args) of
         Some delta \<Rightarrow> Some (on_text (\<lambda>v. (BulkString (Some (f64_to_string v)), True))
           (json_numincrby E key (arg_at 2 args) delta st))
       | None \<Rightarrow> Some ((Error ''ERR delta is not a valid number'', False), st))
     else if cmd = ''JSON.ARRAPPEND'' \<and> 2 \<le> n then (case json_parse E (arg_at 3 args) of
         Inr parsed \<Rightarrow> Some (on_text (\<lambda>l. (length_reply l, True)) (json_arrappend E key (arg_at 2 args) parsed st))
       | Inl _ \<Rightarrow> Some ((Error ''ERR value is not valid JSON'', False), st))
     else if cmd = ''JSON.ARRLEN'' \<and> 2 \<le> n then
       Some (on_text (\<lambda>l. (case l of Some len \<Rightarrow> length_reply len | None \<Rightarrow> BulkString None, False))
         (json_arrlen E key (arg_or ''$'' 2 args) st))
     else if cmd = ''JSON.OBJKEYS'' \<and> 2 \<le> n then
       Some (on_text (\<lambda>ks. (case ks of Some names \<Rightarrow> bulk_array names | None \<Rightarrow> Array [], False))
         (json_objkeys E key (arg_or ''$'' 2 args) st))
     else None)"

fun mset_all :: "env \<Rightarrow> bytes list \<Rightarrow> store \<Rightarrow> store" where
  "mset_all E (key # v # rest) st = mset_all E rest (store_set E key v st)"
| "mset_all E _ st = st"

fun mget_all :: "env \<Rightarrow> bytes list \<Rightarrow> store \<Rightarrow> (store_error + bytes option list) \<times> store" where
  "mget_all E [] st = (Inr [], st)"
| "mget_all E (key # keys) st = (case store_get E key st of
      (Inl err, st1) \<Rightarrow> (Inl err, st1)
    | (Inr v, st1) \<Rightarrow> (case mget_all E keys st1 of (r, st2) \<Rightarrow> (map_sum id (\<lambda>vs. v # vs) r, st2)))"

definition exec_sets :: "env \<Rightarrow> bytes list \<Rightarrow> store \<Rightarrow> (reply \<times> store) option" where
  "exec_sets E args st = (let cmd = arg_at 0 args; key = arg_at 1 args; arg = arg_at 2 args; n = length args in
     if cmd = ''SADD'' \<and> 3 \<le> n then Some (on_typed (\<lambda>added. (flag added, added)) (sadd E key arg st))
     else if cmd = ''SMEMBERS'' \<and> 2 \<le> n then Some (on_typed (\<lambda>ms. (bulk_array ms, False)) (smembers E key st))
     else if cmd = ''SREM'' \<and> 3 \<le> n then Some (on_typed (\<lambda>removed. (flag removed, removed)) (srem E key arg st))
     else if cmd = ''SISMEMBER'' \<and> 3 \<le> n then Some (on_typed (\<lambda>b. (flag b, False)) (sismember E key arg st))
     else if cmd = ''LLEN'' \<and> 2 \<le> n then Some (on_typed (\<lambda>l. (length_reply l, False)) (llen E key st))
     else None)"

definition exec_multi :: "env \<Rightarrow> bytes list \<Rightarrow> store \<Rightarrow> (reply \<times> store) option" where
  "exec_multi E args st = (let cmd = arg_at 0 args; key = arg_at 1 args; arg = arg_at 2 args; n = length args in
     if cmd = ''RENAME'' \<and> 3 \<le> n then
       Some (apfst (\<lambda>b. if b then (ok_reply, True) else (Error ''ERR no such key'', False)) (store_rename E key arg st))
     else if cmd = ''MSET'' then
       (if n < 3 \<or> odd (n - 1) then Some ((Error (''ERR wrong number of arguments for '' @ quoted ''mset''), False), st)
        else Some ((ok_reply, True), mset_all E (drop 1 args) st))
     else if cmd = ''MGET'' then
       Some (on_typed (\<lambda>vs. (Array (map BulkString vs), False)) (mget_all E (drop 1 args) st))
     else if cmd = ''KEYS'' then Some (apfst (\<lambda>ks. (bulk_array ks, False)) (keys_matching E key st))
     else None)"

definition exec_hashes :: "env \<Rightarrow> bytes list \<Rightarrow> store \<Rightarrow> (reply \<times> store) option" where
  "exec_hashes E args st = (let cmd = arg_at 0 args; key = arg_at 1 args; arg = arg_at 2 args; n = length args in
     if cmd = ''HSET'' \<and> 3 \<le> n then
       (if n < 4 then Some ((Error (''ERR wrong number of arguments for '' @ quoted ''hset''), False), st)
        else Some (on_typed (\<lambda>is_new. (flag is_new, True)) (hset E key arg (arg_at 3 args) st)))
     else if cmd = ''HGET'' \<and> 3 \<le> n then Some (on_typed (\<lambda>v. (BulkString v, False)) (hget E key arg st))
     else if cmd = ''HGETALL'' \<and> 2 \<le> n then
       Some (on_typed (\<lambda>pairs. (bulk_array (concat (map (\<lambda>(f, v). [f, v]) pairs)), False)) (hgetall E key st))
     else if cmd = ''HDEL'' \<and> 3 \<le> n then Some (on_typed (\<lambda>removed. (flag removed, removed)) (hdel E key arg st))
     else if cmd = ''REPLICAOF'' \<and> to_ascii_lowercase key = ''no'' \<and> to_ascii_lowercase arg = ''one'' then
       Some ((ok_reply, False), st)
     else None)"

definition exec_counters :: "env \<Rightarrow> bytes list \<Rightarrow> store \<Rightarrow> (reply \<times> store) option" where
  "exec_counters E args st = (let cmd = arg_at 0 args; key = arg_at 1 args; arg = arg_at 2 args; n = length args in
     if cmd = ''INCRBY'' \<and> 3 \<le> n then (case parse_i64 arg of
         Some delta \<Rightarrow> Some (on_text (\<lambda>v. (Integer v, True)) (incrby E key delta st))
       | None \<Rightarrow> Some ((Error ''ERR value is not an integer'', False), st))
     else if cmd = ''DECRBY'' \<and> 3 \<le> n then (case parse_i64 arg of
         Some delta \<Rightarrow> (case i64_checked_neg delta of
             Some negated \<Rightarrow> Some (on_text (\<lambda>v. (Integer v, True)) (incrby E key negated st))
           | None \<Rightarrow> Some ((Error ''ERR increment or decrement would overflow'', False), st))
       | None \<Rightarrow> Some ((Error ''ERR value is not an integer'', False), st))
     else if cmd = ''APPEND'' \<and> 3 \<le> n then Some (on_typed (\<lambda>l. (length_reply l, True)) (store_append E key arg st))
     else if cmd = ''STRLEN'' \<and> 2 \<le> n then Some (on_typed (\<lambda>l. (length_reply l, False)) (strlen E key st))
     else if cmd = ''GETSET'' \<and> 3 \<le> n then Some (on_typed (\<lambda>old. (BulkString old, True)) (getset E key arg st))
     else if cmd = ''SETNX'' \<and> 3 \<le> n then Some (apfst (\<lambda>inserted. (flag inserted, inserted)) (setnx E key arg st))
     else None)"

definition exec_expire :: "env \<Rightarrow> bytes list \<Rightarrow> store \<Rightarrow> reply \<times> store" where
  "exec_expire E args st =
     (let condition = (if 3 < length args then Some (to_ascii_uppercase (args ! 3)) else None); key = arg_at 1 args
      in case parse_u64 (arg_at 2 args) of
         Some s \<Rightarrow>
           if condition \<noteq> None \<and> the condition \<noteq> ''NX'' \<and> the condition \<noteq> ''XX''
           then ((Error ''ERR syntax error'', False), st)
           else apfst (\<lambda>ok. (flag ok, ok))
             (case condition of Some c \<Rightarrow> expire_conditional E key s c st | None \<Rightarrow> expire E key s st)
       | None \<Rightarrow> ((Error ''ERR invalid expire time'', False), st))"

definition exec_rest :: "env \<Rightarrow> bytes list \<Rightarrow> store \<Rightarrow> (reply \<times> store) option" where
  "exec_rest E args st = (let cmd = arg_at 0 args; key = arg_at 1 args; arg = arg_at 2 args; n = length args in
     if cmd = ''HKEYS'' \<and> 2 \<le> n then Some (on_typed (\<lambda>fs. (bulk_array fs, False)) (hkeys E key st))
     else if cmd = ''HVALS'' \<and> 2 \<le> n then Some (on_typed (\<lambda>vs. (bulk_array vs, False)) (hvals E key st))
     else if cmd = ''COPY'' \<and> 3 \<le> n then Some (apfst (\<lambda>copied. (flag copied, copied)) (store_copy E key arg st))
     else if cmd = ''EXPIRE'' \<and> 3 \<le> n then Some (exec_expire E args st)
     else if cmd = ''PING'' then Some ((SimpleString ''PONG'', False), st)
     else None)"

definition first_of :: "(bytes list \<Rightarrow> store \<Rightarrow> (reply \<times> store) option) list \<Rightarrow> bytes list \<Rightarrow> store \<Rightarrow> (reply \<times> store) option" where
  "first_of groups args st = foldr (\<lambda>g later. case g args st of None \<Rightarrow> later | Some r \<Rightarrow> Some r) groups None"

definition execute_command :: "env \<Rightarrow> bytes list \<Rightarrow> store \<Rightarrow> command_outcome \<times> store" where
  "execute_command E args st = (case first_of [exec_strings E, exec_lists E, exec_keys E, exec_json E, exec_sets E,
       exec_multi E, exec_hashes E, exec_counters E, exec_rest E] args st of
      None \<Rightarrow> (\<lparr>response = Error ''ERR unknown command or wrong syntax'',
                mutation = (if is_write_command (arg_at 0 args) then NoChange else NotRequested)\<rparr>, st)
    | Some ((r, reported_mutation), st') \<Rightarrow>
        (\<lparr>response = r, mutation = (if \<not> is_write_command (arg_at 0 args) then NotRequested
           else if reported_mutation then Tentative else NoChange)\<rparr>, st'))"

end
