(* ===== verification/Execution_Laws.thy ===== *)
theory Execution_Laws
  imports Execution
begin

text \<open>
  What \<open>execute_command\<close> may change. An operation on the store is confined to a set of keys when
  no other key changes its persistent content, and its report is honest when an operation that
  reports no change made none. Both hold of every command, with the keys of
  \<open>affected_keys\<close>; so capturing those keys before the command and deriving effects from them
  afterwards loses nothing.
\<close>

section \<open>Confined operations\<close>

text \<open>The configured limits, which no operation changes.\<close>

definition limits :: "store \<Rightarrow> nat \<times> eviction_policy" where
  "limits st = (maxmemory_bytes st, maxmemory_policy st)"

lemma limits_on_engine [simp]: "limits (snd (on_engine op st)) = limits st"
  by (simp add: limits_def)

definition confined :: "env \<Rightarrow> bytes set \<Rightarrow> ('r \<Rightarrow> bool) \<Rightarrow> (store \<Rightarrow> 'r \<times> store) \<Rightarrow> bool" where
  "confined E K changed op \<longleftrightarrow> (\<forall>st. limits (snd (op st)) = limits st \<and> (store_wf st \<longrightarrow> store_wf (snd (op st)) \<and>
     (\<forall>k. k \<notin> K \<longrightarrow> pview E (snd (op st)) k = pview E st k) \<and>
     (\<not> changed (fst (op st)) \<longrightarrow> pview E (snd (op st)) = pview E st)))"

named_theorems confined_intros \<open>store operations confined to their keys\<close>

lemma confinedI:
  assumes "\<And>st. store_wf st \<Longrightarrow> store_wf (snd (op st))"
    and "\<And>st k. store_wf st \<Longrightarrow> k \<notin> K \<Longrightarrow> pview E (snd (op st)) k = pview E st k"
    and "\<And>st. store_wf st \<Longrightarrow> \<not> changed (fst (op st)) \<Longrightarrow> pview E (snd (op st)) = pview E st"
    and "\<And>st. limits (snd (op st)) = limits st"
  shows "confined E K changed op"
  using assms by (simp add: confined_def)

lemma confined_apfst:
  assumes "confined E K changed op" and "\<And>r. changed r \<Longrightarrow> changed' (f r)"
  shows "confined E K changed' (\<lambda>st. apfst f (op st))"
  using assms unfolding confined_def by (metis apfst_conv fst_conv prod.collapse snd_apfst fst_apfst)

lemma confined_const: "confined E K changed (\<lambda>st. (r, st))"
  by (simp add: confined_def)

lemma pview_vals: "vals E st' = vals E st \<Longrightarrow> expiries E st' = expiries E st \<Longrightarrow> pview E st' = pview E st"
proof
  fix k
  assume v: "vals E st' = vals E st" and x: "expiries E st' = expiries E st"
  then have "vals E st' k = vals E st k" "expiries E st' k = expiries E st k" by simp_all
  then show "pview E st' k = pview E st k"
    by (cases "view E st k"; cases "view E st' k")
       (auto simp: vals_def expiries_def pview_def persistent_entry_from_def)
qed

lemma pview_view: "view E st' = view E st \<Longrightarrow> pview E st' = pview E st"
  by (simp add: pview_def fun_eq_iff)

lemma confined_same:
  assumes "\<And>st. store_wf st \<Longrightarrow> store_wf (snd (op st))" and "\<And>st. store_wf st \<Longrightarrow> pview E (snd (op st)) = pview E st"
    and "\<And>st. limits (snd (op st)) = limits st"
  shows "confined E K changed op"
  using assms by (simp add: confined_def)

lemma confined_read: "confined E K changed (on_engine (engine_read E key f))"
  by (rule confined_same) (simp_all only: read_effect pview_vals [OF read_effect(1,2)] limits_on_engine)

lemma confined_peek: "confined E K changed (on_engine (peek E key))"
  by (rule confined_same) (simp_all only: peek_view(2) pview_view [OF peek_view(1)] limits_on_engine)

lemma confined_all_keys: "confined E K changed (on_engine (all_keys E))"
proof (rule confined_same)
  fix st assume wf: "store_wf st"
  note v = sweep_view [of E st "snd (on_engine (all_keys E) st)", unfolded on_engine_snd, OF all_keys_change wf]
  show "store_wf (snd (on_engine (all_keys E) st))" by (rule v(2))
  show "pview E (snd (on_engine (all_keys E) st)) = pview E st" by (rule pview_view [OF v(1)])
qed (rule limits_on_engine)

text \<open>An operation that writes one key.\<close>

lemma pview_change:
  assumes "engine_change E ((contents (store_engine st))(key := v)) (store_engine st) (store_engine st')" and "store_wf st"
  shows "pview E st' = (pview E st)(key := palive E (map_option persistent_entry_from v))" "store_wf st'"
  using change_view [OF assms] by (simp_all add: pview_def fun_eq_iff alive_persistent)

lemma palive_pview [simp]: "palive E (pview E st k) = pview E st k"
  using pview_later [of E E st k] by simp

lemma confined_key:
  assumes "\<And>e. engine_change E ((contents e)(key := g (live (now E) (contents e) key))) e (snd (op e))"
    and "\<And>e. fst (op e) = h (live (now E) (contents e) key)"
    and "\<And>found. \<not> changed (h found) \<Longrightarrow> map_option persistent_entry_from (g found) = map_option persistent_entry_from found"
    and "key \<in> K"
  shows "confined E K changed (on_engine op)"
proof (rule confinedI)
  fix st assume wf: "store_wf st"
  let ?st = "snd (on_engine op st)"
  note v = pview_change [of E st key "g (view E st key)" ?st, unfolded on_engine_snd, OF _ wf]
  have c: "engine_change E ((contents (store_engine st))(key := g (view E st key))) (store_engine st) (snd (op (store_engine st)))"
    using assms(1) [of "store_engine st"] by (simp add: view_def)
  show "store_wf ?st" by (rule v(2) [OF c])
  show "pview E ?st k = pview E st k" if "k \<notin> K" for k using v(1) [OF c] that assms(4) by auto
  show "pview E ?st = pview E st" if "\<not> changed (fst (on_engine op st))"
  proof -
    have "\<not> changed (h (view E st key))" using that assms(2) by (simp add: view_def)
    then have "map_option persistent_entry_from (g (view E st key)) = pview E st key"
      using assms(3) by (simp add: pview_def)
    with v(1) [OF c] show ?thesis by simp
  qed
qed (rule limits_on_engine)

lemma confined_delete [confined_intros]: "key \<in> K \<Longrightarrow> confined E K (\<lambda>deleted. deleted) (store_delete E key)"
  unfolding store_delete_def
  by (rule confined_key [where g = "\<lambda>_. None" and h = "\<lambda>found. found \<noteq> None"])
     (simp_all add: engine_delete_change engine_delete_fst)

lemma confined_set_conditional: "key \<in> K \<Longrightarrow> confined E K (\<lambda>ok. ok) (on_engine (set_conditional E key v expires condition))"
  by (rule confined_key [where h = "condition_allows condition" and
      g = "\<lambda>found. if condition_allows condition found then Some ((fresh_entry E v)\<lparr>expires_at := expires\<rparr>) else found"])
     (simp_all add: set_conditional_change set_conditional_fst)

lemma confined_expiry: "key \<in> K \<Longrightarrow> confined E K (\<lambda>ok. ok) (on_engine (set_expiry_conditional E key ts req))"
  by (rule confined_key [where h = "\<lambda>found. fst (expiry_result E ts req found)" and g = "\<lambda>found. snd (expiry_result E ts req found)",
        OF expiry_change expiry_fst])
     (auto simp: expiry_result_def split: option.splits if_splits)

lemma confined_set_if_absent: "key \<in> K \<Longrightarrow> confined E K (\<lambda>ok. ok) (on_engine (set_if_absent E key v))"
  by (rule confined_key [where h = "\<lambda>found. fst (absent_result (fresh_entry E v) found)" and
        g = "\<lambda>found. snd (absent_result (fresh_entry E v) found)", OF set_if_absent_change set_if_absent_fst])
     (auto simp: absent_result_def split: option.splits)

lemma touch_persistent [simp]: "persistent_entry_from (touch E x) = persistent_entry_from x"
  by (simp add: persistent_entry_from_def)

lemma confined_upsert_entry:
  assumes "key \<in> K" and "changed (fst (f (fresh_entry E d) False))"
    and "\<And>x b. \<not> changed (fst (f x b)) \<Longrightarrow> persistent_entry_from (snd (f x b)) = persistent_entry_from x"
  shows "confined E K changed (on_engine (update_entry_or_insert_with_presence E key d f))"
proof (rule confined_key [where h = "\<lambda>found. fst (upsert_result E d f found)" and g = "\<lambda>found. snd (upsert_result E d f found)"])
  fix found assume n: "\<not> changed (fst (upsert_result E d f found))"
  with assms(2) obtain x where "found = Some x" by (cases found) (auto simp: upsert_result_def)
  with n assms(3) [of "touch E x" True]
  show "map_option persistent_entry_from (snd (upsert_result E d f found)) = map_option persistent_entry_from found"
    by (simp add: upsert_result_def)
qed (use assms(1) in \<open>simp_all add: upsert_change upsert_fst\<close>)

lemma confined_upsert:
  assumes "key \<in> K" and "changed (fst (f d))" and "\<And>v. \<not> changed (fst (f v)) \<Longrightarrow> snd (f v) = v"
  shows "confined E K changed (on_engine (update_or_insert E key d f))"
  unfolding update_or_insert_entry using assms
  by (intro confined_upsert_entry) (auto simp: case_prod_beta fresh_entry_def persistent_entry_from_def)

lemma confined_action:
  assumes "key \<in> K"
    and "\<And>v r v'. f v = (Keep r, v') \<Longrightarrow> \<not> changed (Some r) \<Longrightarrow> v' = v"
    and "\<And>v r v'. f v = (Delete r, v') \<Longrightarrow> changed (Some r)"
  shows "confined E K changed (on_engine (update_if_exists_with_action E key f))"
proof (rule confined_key [where h = "\<lambda>found. fst (action_result E f found)" and g = "\<lambda>found. snd (action_result E f found)"])
  fix found assume n: "\<not> changed (fst (action_result E f found))"
  show "map_option persistent_entry_from (snd (action_result E f found)) = map_option persistent_entry_from found"
  proof (cases found)
    case (Some x)
    obtain outcome w where f: "f (entry_value x) = (outcome, w)" by fastforce
    show ?thesis
      using n Some f assms(2,3) by (cases outcome) (auto simp: action_result_def persistent_entry_from_def)
  qed (simp add: action_result_def)
qed (use assms(1) in \<open>simp_all add: action_change action_fst\<close>)

lemma confined_update:
  assumes "key \<in> K" and "\<And>v. \<not> changed (Some (fst (f v))) \<Longrightarrow> snd (f v) = v"
  shows "confined E K changed (on_engine (update_if_exists E key f))"
  unfolding update_if_exists_action using assms
  by (intro confined_action) (auto simp: apfst_def map_prod_def case_prod_beta)

section \<open>The store commands\<close>

text \<open>A result that reports no change: an error, or a value that is not a change.\<close>

fun changed_ok :: "('a \<Rightarrow> bool) \<Rightarrow> 'e + 'a \<Rightarrow> bool" where
  "changed_ok P (Inl _) = False"
| "changed_ok P (Inr a) = P a"

lemma on_typed_intro:
  fixes f :: "'a \<Rightarrow> reply"
  shows "confined E K (changed_ok P) op \<Longrightarrow> (\<And>a. P a \<Longrightarrow> snd (f a)) \<Longrightarrow> confined E K snd (\<lambda>st. on_typed f (op st))"
proof -
  assume op: "confined E K (changed_ok P) op" and P: "\<And>a. P a \<Longrightarrow> snd (f a)"
  show ?thesis unfolding on_typed_def
  proof (rule confined_apfst [OF op])
    fix r :: "store_error + 'a" assume "changed_ok P r"
    with P show "snd (case r of Inl err \<Rightarrow> (Error (store_error_message err), False) | Inr a \<Rightarrow> f a)" by (cases r) auto
  qed
qed

lemma on_text_intro:
  fixes f :: "'a \<Rightarrow> reply"
  shows "confined E K (changed_ok P) op \<Longrightarrow> (\<And>a. P a \<Longrightarrow> snd (f a)) \<Longrightarrow> confined E K snd (\<lambda>st. on_text f (op st))"
proof -
  assume op: "confined E K (changed_ok P) op" and P: "\<And>a. P a \<Longrightarrow> snd (f a)"
  show ?thesis unfolding on_text_def
  proof (rule confined_apfst [OF op])
    fix r :: "bytes + 'a" assume "changed_ok P r"
    with P show "snd (case r of Inl err \<Rightarrow> (Error (err), False) | Inr a \<Rightarrow> f a)" by (cases r) auto
  qed
qed

lemma confined_weaken: "confined E K (\<lambda>_. False) op \<Longrightarrow> confined E K changed op"
  by (simp add: confined_def)

lemma confined_json_read: "confined E K changed (\<lambda>st. json_read E key path f st)"
proof (cases "parse_json_path path")
  case None
  then show ?thesis by (simp add: json_read_def confined_const)
next
  case (Some segments)
  show ?thesis unfolding json_read_def Some option.case
    by (rule confined_weaken, rule confined_apfst [OF confined_read [where changed = "\<lambda>_. False"]]) simp
qed

lemmas apfst_read = confined_apfst [OF confined_read [where changed = "\<lambda>_. False"]]

abbreviation silent :: "env \<Rightarrow> bytes set \<Rightarrow> (store \<Rightarrow> 'r \<times> store) \<Rightarrow> bool" where
  "silent E K \<equiv> confined E K (\<lambda>_. False)"

lemma silent_reads:
  "silent E K (store_get E key)"
  "silent E K (lrange E key start stop)"
  "silent E K (llen E key)"
  "silent E K (hget E key field)"
  "silent E K (hgetall E key)"
  "silent E K (smembers E key)"
  "silent E K (sismember E key member)"
  "silent E K (ttl E key)"
  unfolding store_get_def [abs_def] lrange_def [abs_def] llen_def [abs_def] hget_def [abs_def] hgetall_def [abs_def]
    smembers_def [abs_def] sismember_def [abs_def] ttl_def [abs_def]
  by (rule apfst_read, simp)+

lemma silent_more_reads:
  "silent E K (strlen E key)"
  "silent E K (hkeys E key)"
  "silent E K (hvals E key)"
  "silent E K (exists E key)"
  "silent E K (value_type E key)"
  "silent E K (keys_matching E pattern)"
  "silent E K (json_get E key path)"
  "silent E K (json_type E key path)"
  "silent E K (json_arrlen E key path)"
  "silent E K (json_objkeys E key path)"
proof -
  show "silent E K (strlen E key)" unfolding strlen_def [abs_def] by (rule confined_apfst [OF silent_reads(1)]) simp
  show "silent E K (hkeys E key)" "silent E K (hvals E key)"
    unfolding hkeys_def [abs_def] hvals_def [abs_def] by (rule confined_apfst [OF silent_reads(5)], simp)+
  show "silent E K (exists E key)"
    unfolding exists_def [abs_def] by (rule confined_apfst [OF confined_peek [where changed = "\<lambda>_. False"]]) simp
  show "silent E K (value_type E key)" unfolding value_type_def by (rule confined_read)
  have keys: "silent E K (store_all_keys E)"
    unfolding store_all_keys_def [abs_def]
    by (rule confined_apfst [OF confined_all_keys [where changed = "\<lambda>_. False"]]) simp
  show "silent E K (keys_matching E pattern)"
    unfolding keys_matching_def [abs_def]
    by (cases "pattern = ''*'' \<or> pattern = []") (use keys confined_apfst [OF keys] in auto)
  show "silent E K (json_get E key path)" "silent E K (json_type E key path)"
    "silent E K (json_arrlen E key path)" "silent E K (json_objkeys E key path)"
    unfolding json_get_def json_type_def json_arrlen_def json_objkeys_def by (rule confined_json_read)+
qed

lemma push_same: "\<not> changed_ok P (fst (lpush_value x v)) \<Longrightarrow> P = (\<lambda>_. True) \<Longrightarrow> snd (lpush_value x v) = v"
  "\<not> changed_ok P (fst (rpush_value x v)) \<Longrightarrow> P = (\<lambda>_. True) \<Longrightarrow> snd (rpush_value x v) = v"
  by (cases v; simp)+

lemma confined_pushes:
  assumes "key \<in> K"
  shows "confined E K (changed_ok (\<lambda>_. True)) (lpush E key x)" "confined E K (changed_ok (\<lambda>_. True)) (rpush E key x)"
  unfolding lpush_def rpush_def using assms push_same by (intro confined_upsert; simp)+

lemma confined_counters:
  assumes "key \<in> K"
  shows "confined E K (changed_ok (\<lambda>_. True)) (incrby E key delta)" "confined E K (changed_ok (\<lambda>_. True)) (store_append E key suffix)"
proof -
  have "i64_checked_add 0 delta = Some delta" using sint_greater_eq [of delta] sint_less [of delta] by (simp add: i64_checked_add_def)
  then have "changed_ok (\<lambda>_. True) (fst (incrby_value delta (IntV 0)))" by (simp add: incrby_value_def)
  moreover have "snd (incrby_value delta v) = v" if "\<not> changed_ok (\<lambda>_. True) (fst (incrby_value delta v))" for v
    using that by (auto simp: incrby_value_def Let_def split: sum.splits option.splits)
  ultimately show "confined E K (changed_ok (\<lambda>_. True)) (incrby E key delta)"
    unfolding incrby_def using assms by (intro confined_upsert)
  show "confined E K (changed_ok (\<lambda>_. True)) (store_append E key suffix)"
    unfolding store_append_def using assms
    by (intro confined_upsert) (auto simp: append_value_def split: sum.splits)
qed

lemma confined_getset: "key \<in> K \<Longrightarrow> confined E K (changed_ok (\<lambda>_. True)) (getset E key x)"
  unfolding getset_def
  by (rule confined_upsert_entry) (auto simp: getset_entry_def fresh_entry_def split: sum.splits)

lemma confined_hset: "key \<in> K \<Longrightarrow> confined E K (changed_ok (\<lambda>_. True)) (hset E key field x)"
  unfolding hset_def
proof (rule confined_upsert)
  show "snd (hset_value field x v) = v" if "\<not> changed_ok (\<lambda>_. True) (fst (hset_value field x v))" for v
    using that by (cases v) auto
qed auto

lemma confined_sadd: "key \<in> K \<Longrightarrow> confined E K (changed_ok (\<lambda>added. added)) (sadd E key member)"
  unfolding sadd_def
proof (rule confined_upsert)
  show "snd (sadd_value member v) = v" if "\<not> changed_ok (\<lambda>added. added) (fst (sadd_value member v))" for v
    using that by (cases v) auto
qed auto

lemma confined_or_ok:
  assumes "confined E K (\<lambda>r. \<exists>a. r = Some a \<and> changed_ok P a) op" and "\<not> P d"
  shows "confined E K (changed_ok P) (\<lambda>st. apfst (or_ok d) (op st))"
proof (rule confined_apfst [OF assms(1)])
  fix r assume "\<exists>a. r = Some a \<and> changed_ok P a"
  then show "changed_ok P (or_ok d r)" by (auto simp: or_ok_def)
qed

lemma confined_pops:
  assumes "key \<in> K"
  shows "confined E K (changed_ok (\<lambda>v. v \<noteq> None)) (lpop E key)" "confined E K (changed_ok (\<lambda>v. v \<noteq> None)) (rpop E key)"
proof -
  show "confined E K (changed_ok (\<lambda>v. v \<noteq> None)) (lpop E key)"
    unfolding lpop_def [abs_def]
  proof (rule confined_or_ok, rule confined_action [OF assms])
    show "v' = v" if "lpop_value v = (Keep r, v')" "\<not> (\<exists>a. Some r = Some a \<and> changed_ok (\<lambda>v. v \<noteq> None) a)" for v r v'
      using that by (induction v rule: lpop_value.induct) (auto simp: keep_unless_empty_def split: if_splits)
    show "\<exists>a. Some r = Some a \<and> changed_ok (\<lambda>v. v \<noteq> None) a" if "lpop_value v = (Delete r, v')" for v r v'
      using that by (induction v rule: lpop_value.induct) (auto simp: keep_unless_empty_def split: if_splits)
  qed simp
  show "confined E K (changed_ok (\<lambda>v. v \<noteq> None)) (rpop E key)"
    unfolding rpop_def [abs_def]
  proof (rule confined_or_ok, rule confined_action [OF assms])
    show "v' = v" if "rpop_value v = (Keep r, v')" "\<not> (\<exists>a. Some r = Some a \<and> changed_ok (\<lambda>v. v \<noteq> None) a)" for v r v'
      using that by (induction v rule: rpop_value.induct) (auto simp: keep_unless_empty_def split: if_splits)
    show "\<exists>a. Some r = Some a \<and> changed_ok (\<lambda>v. v \<noteq> None) a" if "rpop_value v = (Delete r, v')" for v r v'
      using that by (induction v rule: rpop_value.induct) (auto simp: keep_unless_empty_def split: if_splits)
  qed simp
qed

lemma filter_absent: "x \<notin> set s \<Longrightarrow> filter (\<lambda>y. y \<noteq> x) s = s"
  by (induction s) auto

lemma confined_removals:
  assumes "key \<in> K"
  shows "confined E K (changed_ok (\<lambda>removed. removed)) (hdel E key field)"
    "confined E K (changed_ok (\<lambda>removed. removed)) (srem E key member)"
proof -
  show "confined E K (changed_ok (\<lambda>removed. removed)) (hdel E key field)"
    unfolding hdel_def [abs_def]
  proof (rule confined_or_ok, rule confined_action [OF assms])
    show "v' = v" if "hdel_value field v = (Keep r, v')" "\<not> (\<exists>a. Some r = Some a \<and> changed_ok (\<lambda>removed. removed) a)" for v r v'
      using that by (cases v) (auto simp: Let_def hm_remove_fresh split: if_splits)
    show "\<exists>a. Some r = Some a \<and> changed_ok (\<lambda>removed. removed) a" if "hdel_value field v = (Delete r, v')" for v r v'
      using that by (cases v) (auto simp: Let_def split: if_splits)
  qed simp
  show "confined E K (changed_ok (\<lambda>removed. removed)) (srem E key member)"
    unfolding srem_def [abs_def]
  proof (rule confined_or_ok, rule confined_action [OF assms])
    show "v' = v" if "srem_value member v = (Keep r, v')" "\<not> (\<exists>a. Some r = Some a \<and> changed_ok (\<lambda>removed. removed) a)" for v r v'
      using that by (cases v) (auto simp: Let_def filter_absent split: if_splits)
    show "\<exists>a. Some r = Some a \<and> changed_ok (\<lambda>removed. removed) a" if "srem_value member v = (Delete r, v')" for v r v'
      using that by (cases v) (auto simp: Let_def split: if_splits)
  qed simp
qed

lemma confined_expires:
  assumes "key \<in> K"
  shows "confined E K (\<lambda>ok. ok) (expire_at E key t)" "confined E K (\<lambda>ok. ok) (expire E key s)"
    "confined E K (\<lambda>ok. ok) (expire_conditional E key s c)"
proof -
  show at: "confined E K (\<lambda>ok. ok) (expire_at E key t)" for t
    unfolding expire_at_def set_expiry_unconditional by (rule confined_expiry [OF assms])
  show "confined E K (\<lambda>ok. ok) (expire E key s)" unfolding expire_def by (rule at)
  show "confined E K (\<lambda>ok. ok) (expire_conditional E key s c)"
    unfolding expire_conditional_def [abs_def]
    by (cases "c = ''NX''"; cases "c = ''XX''") (use assms confined_expiry confined_const in auto)
qed

section \<open>JSON commands\<close>

lemma json_ops_same:
  "\<not> fst (set_json_path root segments v) \<Longrightarrow> snd (set_json_path root segments v) = root"
  "\<not> fst (delete_json_path root segments) \<Longrightarrow> snd (delete_json_path root segments) = root"
  "fst (arrappend_json_path root segments v) = Inl err \<Longrightarrow> snd (arrappend_json_path root segments v) = root"
  "fst (numincrby_json_path E root segments delta) = Inl err \<Longrightarrow> snd (numincrby_json_path E root segments delta) = root"
proof -
  have "node' = node" if "set_last l v node = (False, node')" for l node node'
    using that by (induction l v node rule: set_last.induct) (auto split: if_splits)
  then show "\<not> fst (set_json_path root segments v) \<Longrightarrow> snd (set_json_path root segments v) = root"
    using update_same [where f = "set_last (last segments) v" and r = False and root = root]
    by (fastforce simp: set_json_path_def split: if_splits option.splits prod.splits)
  have "bt_remove k m = m" if "map_of m k = None" for k and m :: "(bytes \<times> json) list"
    using that by (induction m) (auto split: if_splits)
  then have "node' = node" if "delete_last l node = (False, node')" for l node node'
    using that by (induction l node rule: delete_last.induct) (auto split: if_splits)
  then show "\<not> fst (delete_json_path root segments) \<Longrightarrow> snd (delete_json_path root segments) = root"
    using update_same [where f = "delete_last (last segments)" and r = False and root = root]
    by (fastforce simp: delete_json_path_def split: if_splits option.splits prod.splits)
  let ?app = "\<lambda>node. case node of
            JArray a \<Rightarrow> (Inr (length (a @ [v])), JArray (a @ [v]))
          | _ \<Rightarrow> (Inl ''WRONGTYPE the value at the path is not an array'', node)"
  have "node' = node" if "?app node = (Inl err, node')" for node node'
    using that by (auto split: json.splits)
  then show "fst (arrappend_json_path root segments v) = Inl err \<Longrightarrow> snd (arrappend_json_path root segments v) = root"
    using update_same [where f = ?app and r = "Inl err" and root = root]
    by (fastforce simp: arrappend_json_path_def split: option.splits prod.splits)
  have "node' = node" if "numincrby_node E delta node = (Inl err, node')" for node node'
    using that by (auto simp: numincrby_node_def Let_def split: option.splits if_splits)
  then show "fst (numincrby_json_path E root segments delta) = Inl err \<Longrightarrow> snd (numincrby_json_path E root segments delta) = root"
    using update_same [where f = "numincrby_node E delta" and r = "Inl err" and root = root]
    by (fastforce simp: numincrby_json_path_def split: option.splits prod.splits)
qed

lemma on_document_same:
  assumes "\<And>root. v = Json root \<Longrightarrow> snd (f root) = root"
  shows "snd (on_document f v) = v"
  using assms by (cases v) (auto simp: case_prod_beta)

lemma confined_document:
  assumes "key \<in> K" and "\<And>root. \<not> changed (Some (Some (fst (f root)))) \<Longrightarrow> snd (f root) = root"
  shows "confined E K changed (on_engine (update_if_exists E key (on_document f)))"
proof (rule confined_update [OF assms(1)])
  fix v assume n: "\<not> changed (Some (fst (on_document f v)))"
  show "snd (on_document f v) = v"
    using n assms(2) by (cases v) (auto simp: case_prod_beta)
qed

lemma confined_json:
  assumes "key \<in> K"
  shows "confined E K (changed_ok (\<lambda>_. True)) (json_set E key path v)"
    "confined E K (changed_ok (\<lambda>deleted. deleted)) (json_del E key path)"
    "confined E K (changed_ok (\<lambda>_. True)) (json_arrappend E key path v)"
    "confined E K (changed_ok (\<lambda>_. True)) (json_numincrby E key path delta)"
proof -
  show "confined E K (changed_ok (\<lambda>_. True)) (json_set E key path v)"
  proof (cases "parse_json_path path")
    case (Some segments)
    have root: "confined E K (changed_ok (\<lambda>_. True)) (on_engine (update_or_insert_with_presence E key (Json JNull) (json_set_root v)))"
      unfolding update_or_insert_with_presence_entry
    proof (rule confined_upsert_entry [OF assms], goal_cases)
      case 1 then show ?case by (simp add: fresh_entry_def)
    next
      case (2 x b)
      then show ?case by (cases "entry_value x") (auto simp: persistent_entry_from_def)
    qed
    have node: "confined E K (\<lambda>r. r = Some (Some True))
        (on_engine (update_if_exists E key (on_document (\<lambda>root. set_json_path root segments v))))"
      by (rule confined_document [OF assms]) (simp add: json_ops_same)
    show ?thesis
    proof (cases "segments = []")
      case True
      with root show ?thesis by (simp add: json_set_def [abs_def] Some)
    next
      case False
      have "confined E K (changed_ok (\<lambda>_. True)) (\<lambda>st. apfst (\<lambda>result. case result of
              Some (Some True) \<Rightarrow> Inr ()
            | Some (Some False) \<Rightarrow> Inl unreachable_path
            | Some None \<Rightarrow> Inl wrong_type_message
            | None \<Rightarrow> Inl missing_document)
          (on_engine (update_if_exists E key (on_document (\<lambda>root. set_json_path root segments v))) st))"
        by (rule confined_apfst [OF node]) simp
      with False show ?thesis by (simp add: json_set_def [abs_def] Some)
    qed
  qed (simp add: json_set_def [abs_def] confined_const)
  show "confined E K (changed_ok (\<lambda>deleted. deleted)) (json_del E key path)"
  proof (cases "parse_json_path path")
    case (Some segments)
    have root: "confined E K (changed_ok (\<lambda>deleted. deleted))
        (\<lambda>st. apfst (or_ok False) (on_engine (update_if_exists_with_action E key json_del_root) st))"
    proof (rule confined_or_ok, rule confined_action [OF assms])
      show "v' = v" if "json_del_root v = (Keep r, v')" "\<not> (\<exists>a. Some r = Some a \<and> changed_ok (\<lambda>deleted. deleted) a)" for v r v'
        using that by (cases v) auto
      show "\<exists>a. Some r = Some a \<and> changed_ok (\<lambda>deleted. deleted) a" if "json_del_root v = (Delete r, v')" for v r v'
        using that by (cases v) auto
    qed simp
    have node: "confined E K (\<lambda>r. r = Some (Some True))
        (on_engine (update_if_exists E key (on_document (\<lambda>root. delete_json_path root segments))))"
      by (rule confined_document [OF assms]) (simp add: json_ops_same)
    have "confined E K (changed_ok (\<lambda>deleted. deleted)) (\<lambda>st. apfst (\<lambda>result. case result of
              Some (Some deleted) \<Rightarrow> Inr deleted
            | Some None \<Rightarrow> Inl wrong_type_message
            | None \<Rightarrow> Inr False)
          (on_engine (update_if_exists E key (on_document (\<lambda>root. delete_json_path root segments))) st))"
      by (rule confined_apfst [OF node]) simp
    with root show ?thesis by (cases "segments = []") (simp_all add: json_del_def [abs_def] Some)
  qed (simp add: json_del_def [abs_def] confined_const)
  have update: "confined E K (changed_ok (\<lambda>_. True)) (\<lambda>st. apfst (\<lambda>result. case result of
              Some (Some r) \<Rightarrow> r
            | Some None \<Rightarrow> Inl wrong_type_message
            | None \<Rightarrow> Inl missing_document)
          (on_engine (update_if_exists E key (on_document f)) st))"
    if same: "\<And>root err. fst (f root) = Inl err \<Longrightarrow> snd (f root) = root" for f :: "json \<Rightarrow> (bytes + 'c) \<times> json"
  proof (rule confined_apfst [where changed = "\<lambda>r. \<exists>a. r = Some (Some (Inr a))"])
    show "confined E K (\<lambda>r. \<exists>a. r = Some (Some (Inr a))) (on_engine (update_if_exists E key (on_document f)))"
    proof (rule confined_document [OF assms])
      show "snd (f root) = root" if "\<not> (\<exists>a. Some (Some (fst (f root))) = Some (Some (Inr a)))" for root
        using that same by (cases "fst (f root)") auto
    qed
  qed auto
  show "confined E K (changed_ok (\<lambda>_. True)) (json_arrappend E key path v)"
    using update [of "\<lambda>root. arrappend_json_path root (the (parse_json_path path)) v"] json_ops_same(3)
    by (cases "parse_json_path path") (simp_all add: json_arrappend_def [abs_def] confined_const)
  show "confined E K (changed_ok (\<lambda>_. True)) (json_numincrby E key path delta)"
    using update [of "\<lambda>root. numincrby_json_path E root (the (parse_json_path path)) delta"] json_ops_same(4)
    by (cases "parse_json_path path") (simp_all add: json_numincrby_def [abs_def] confined_const)
qed

section \<open>Commands on several keys\<close>

lemma confined_map:
  assumes "\<And>e. engine_wf e \<Longrightarrow> engine_change E (m e) e (snd (op e))"
    and "\<And>e k. k \<notin> K \<Longrightarrow> m e k = contents e k"
    and "\<And>e k. engine_wf e \<Longrightarrow> \<not> changed (fst (op e)) \<Longrightarrow> live (now E) (m e) k = live (now E) (contents e) k"
  shows "confined E K changed (on_engine op)"
proof (rule confinedI)
  fix st assume wf: "store_wf st"
  let ?e = "store_engine st"
  have ewf: "engine_wf ?e" using wf by (simp add: store_wf_def)
  note c = engine_change_contents [OF assms(1) [OF ewf] ewf]
  show "store_wf (snd (on_engine op st))" using engine_change_wf [OF assms(1) [OF ewf] ewf] by (simp add: store_wf_def)
  show "pview E (snd (on_engine op st)) k = pview E st k" if "k \<notin> K" for k
    using assms(2) [OF that, of ?e] by (simp add: pview_def view_def live_def c)
  show "pview E (snd (on_engine op st)) = pview E st" if "\<not> changed (fst (on_engine op st))"
    using assms(3) [OF ewf] that by (simp add: pview_def view_def c fun_eq_iff)
qed (rule limits_on_engine)

lemma confined_two_keys:
  assumes "a \<in> K" and "b \<in> K"
  shows "confined E K (\<lambda>ok. ok) (store_rename E a b)" "confined E K (\<lambda>ok. ok) (store_copy E a b)"
proof -
  show "confined E K (\<lambda>ok. ok) (store_rename E a b)"
    unfolding store_rename_def
  proof (rule confined_map [OF rename_change])
    show "(case live (now E) (contents e) a of None \<Rightarrow> (contents e)(a := None)
        | Some entry \<Rightarrow> (contents e)(a := None, b \<mapsto> entry)) k = contents e k" if "k \<notin> K" for e k
      using that assms by (auto split: option.splits)
    show "live (now E) (case live (now E) (contents e) a of None \<Rightarrow> (contents e)(a := None)
        | Some entry \<Rightarrow> (contents e)(a := None, b \<mapsto> entry)) k = live (now E) (contents e) k"
      if "engine_wf e" "\<not> fst (rename E a b e)" for e k
      using that rename_fst [OF that(1), of E a b] by (auto simp: live_def split: option.splits if_splits)
  qed
  show "confined E K (\<lambda>ok. ok) (store_copy E a b)"
    unfolding store_copy_def
  proof (rule confined_map [OF copy_change])
    show "(let m = (contents e)(a := live (now E) (contents e) a) in case m a of None \<Rightarrow> m
        | Some source \<Rightarrow> if a = b then m else m(b \<mapsto> copied_entry E source)) k = contents e k" if "k \<notin> K" for e k
      using that assms by (auto simp: Let_def split: option.splits)
    show "live (now E) (let m = (contents e)(a := live (now E) (contents e) a) in case m a of None \<Rightarrow> m
        | Some source \<Rightarrow> if a = b then m else m(b \<mapsto> copied_entry E source)) k = live (now E) (contents e) k"
      if "engine_wf e" "\<not> fst (copy E a b e)" for e k
      using that copy_fst [OF that(1), of E a b] by (auto simp: live_def Let_def split: option.splits if_splits)
  qed
qed

lemma confined_mset: "set (mset_keys kvs) \<subseteq> K \<Longrightarrow> confined E K (\<lambda>_. True) (\<lambda>st. (r, mset_all E kvs st))"
proof (induction kvs rule: mset_keys.induct)
  case (1 key v rest)
  have key: "key \<in> K" using 1(2) by simp
  have set: "confined E K (\<lambda>_. True) (on_engine (engine_set E key (Blob v) None))"
    by (rule confined_key [where h = "\<lambda>found. found" and g = "\<lambda>_. Some ((fresh_entry E (Blob v))\<lparr>expires_at := None\<rparr>)"])
       (use key engine_set_change [where E = E and key = key and v = "Blob v" and expires = None] engine_set_fst in \<open>simp_all add: expired_at_def\<close>)
  from 1 set show ?case by (simp add: confined_def store_set_def)
qed (simp_all add: confined_const)

lemma silent_mget: "silent E K (mget_all E keys)"
proof (induction keys)
  case (Cons key keys)
  show ?case
  proof (rule confined_same)
    fix st assume wf: "store_wf st"
    let ?st = "snd (store_get E key st)"
    from silent_reads(1) [of E K key] wf have one: "store_wf ?st" "pview E ?st = pview E st" by (simp_all add: confined_def)
    from Cons one(1) have two: "store_wf (snd (mget_all E keys ?st))" "pview E (snd (mget_all E keys ?st)) = pview E ?st"
      by (simp_all add: confined_def)
    show "store_wf (snd (mget_all E (key # keys) st))" "pview E (snd (mget_all E (key # keys) st)) = pview E st"
      using one two by (simp_all add: case_prod_beta split: sum.splits prod.splits)
  next
    fix st
    have "limits (snd (store_get E key st)) = limits st" "\<And>st. limits (snd (mget_all E keys st)) = limits st"
      using silent_reads(1) [of E K key] Cons by (simp_all add: confined_def)
    then show "limits (snd (mget_all E (key # keys) st)) = limits st"
      by (cases "store_get E key st"; cases "fst (store_get E key st)") (auto simp: case_prod_beta)
  qed
qed (simp add: confined_const)

section \<open>Every command is confined and honest\<close>

definition honest :: "env \<Rightarrow> bytes list \<Rightarrow> (store \<Rightarrow> (reply \<times> store) option) \<Rightarrow> bool" where
  "honest E args g \<longleftrightarrow> g = (\<lambda>st. None) \<or> (\<exists>op. confined E (set (affected_keys args)) snd op \<and> g = (\<lambda>st. Some (op st)))"

lemma honest_None: "honest E args (\<lambda>st. None)"
  by (simp add: honest_def)

lemma honest_Some: "confined E (set (affected_keys args)) snd op \<Longrightarrow> honest E args (\<lambda>st. Some (op st))"
  by (auto simp: honest_def)

lemma honest_error: "honest E args (\<lambda>st. Some (r, st))"
  by (rule honest_Some) (rule confined_const)

lemma honest_if: "(c \<Longrightarrow> honest E args f) \<Longrightarrow> (\<not> c \<Longrightarrow> honest E args g) \<Longrightarrow> honest E args (\<lambda>st. if c then f st else g st)"
  by (cases c) simp_all

lemma honest_option: "(x = None \<Longrightarrow> honest E args f) \<Longrightarrow> (\<And>a. x = Some a \<Longrightarrow> honest E args (g a)) \<Longrightarrow>
    honest E args (\<lambda>st. case x of None \<Rightarrow> f st | Some a \<Rightarrow> g a st)"
  by (cases x) simp_all

lemma honest_sum: "(\<And>a. x = Inl a \<Longrightarrow> honest E args (f a)) \<Longrightarrow> (\<And>b. x = Inr b \<Longrightarrow> honest E args (g b)) \<Longrightarrow>
    honest E args (\<lambda>st. case x of Inl a \<Rightarrow> f a st | Inr b \<Rightarrow> g b st)"
  by (cases x) simp_all

lemma honest_typed: "confined E (set (affected_keys args)) (changed_ok P) op \<Longrightarrow> (\<And>a. P a \<Longrightarrow> snd (f a)) \<Longrightarrow>
    honest E args (\<lambda>st. Some (on_typed f (op st)))"
  by (intro honest_Some on_typed_intro)

lemma honest_text: "confined E (set (affected_keys args)) (changed_ok P) op \<Longrightarrow> (\<And>a. P a \<Longrightarrow> snd (f a)) \<Longrightarrow>
    honest E args (\<lambda>st. Some (on_text f (op st)))"
  by (intro honest_Some on_text_intro)

lemma honest_flag: "confined E (set (affected_keys args)) changed op \<Longrightarrow> (\<And>a. changed a \<Longrightarrow> snd (f a)) \<Longrightarrow>
    honest E args (\<lambda>st. Some (apfst f (op st)))"
  by (intro honest_Some confined_apfst)

lemma silent_typed: "silent E K op \<Longrightarrow> confined E K (changed_ok (\<lambda>_. False)) op"
  by (rule confined_weaken)

lemmas honest_reads = honest_typed [OF silent_typed] honest_text [OF silent_typed] honest_flag [where changed = "\<lambda>_. False"]

lemma affected_write:
  assumes "is_write_command (arg_at 0 args)" and "2 \<le> length args"
    and "arg_at 0 args \<noteq> ''MSET''"
  shows "arg_at 1 args \<in> set (affected_keys args)"
proof -
  obtain c k rest where args: "args = c # k # rest" using assms(2) by (cases args; cases "tl args") auto
  with assms(1,3) show ?thesis by (auto simp: affected_keys_def hs_collect_set arg_or_def Let_def)
qed

lemma affected_second: "arg_at 0 args = ''RENAME'' \<or> arg_at 0 args = ''COPY'' \<Longrightarrow> 3 \<le> length args \<Longrightarrow>
    arg_at 2 args \<in> set (affected_keys args)"
proof -
  assume c: "arg_at 0 args = ''RENAME'' \<or> arg_at 0 args = ''COPY''" and n: "3 \<le> length args"
  obtain a k l rest where args: "args = a # k # l # rest" using n by (cases args; cases "tl args"; cases "tl (tl args)") auto
  with c show ?thesis by (auto simp: affected_keys_def hs_collect_set arg_or_def Let_def)
qed

lemma affected_mset: "arg_at 0 args = ''MSET'' \<Longrightarrow> set (mset_keys (drop 1 args)) \<subseteq> set (affected_keys args)"
  by (simp add: affected_keys_def hs_collect_set Let_def)

lemma write_names:
  "c \<in> set write_commands \<Longrightarrow> is_write_command c"
  by (simp add: is_write_command_def)

lemmas affected = affected_write [OF write_names]

lemma exec_strings_honest: "honest E args (exec_strings E args)"
proof -
  have set: "honest E args (\<lambda>st. Some (exec_set E args st))" if "arg_at 0 args = ''SET'' \<and> 3 \<le> length args"
  proof -
    have key: "arg_at 1 args \<in> set (affected_keys args)" using that by (intro affected) (simp_all add: write_commands_def)
    show ?thesis
    proof (cases "set_options E (drop 3 args) None None")
      case None
      then show ?thesis by (simp add: exec_set_def honest_error)
    next
      case (Some p)
      obtain x c where "p = (x, c)" by (cases p)
      with Some confined_set_conditional [OF key] show ?thesis
        by (simp add: exec_set_def) (rule honest_flag, auto)
    qed
  qed
  have key: "arg_at 1 args \<in> set (affected_keys args)" if "arg_at 0 args = c \<and> 2 \<le> length args" "c = ''DEL'' \<or> c = ''INCR''" for c
    using that by (intro affected) (auto simp: write_commands_def)
  show ?thesis
    unfolding exec_strings_def [abs_def] Let_def
    apply (intro honest_if honest_None set, assumption)
      apply (rule honest_reads(1), rule silent_reads, simp)
     apply (rule honest_flag, rule confined_delete, erule key, simp, simp)
    apply (rule honest_text, unfold incr_def, rule confined_counters(1), erule key, simp, simp)
    done
qed


lemmas silent = silent_reads silent_more_reads silent_mget

lemma exec_lists_honest: "honest E args (exec_lists E args)"
proof -
  have key: "arg_at 1 args \<in> set (affected_keys args)"
    if "arg_at 0 args = c \<and> m \<le> length args" "c = ''LPUSH'' \<and> m = 3 \<or> c = ''RPUSH'' \<and> m = 3 \<or> c = ''LPOP'' \<and> m = 2 \<or> c = ''RPOP'' \<and> m = 2" for c m
    using that by (intro affected) (auto simp: write_commands_def)
  have pop: "v \<noteq> None \<Longrightarrow> snd (pop_reply v)" for v by (auto simp: pop_reply_def)
  show ?thesis
    unfolding exec_lists_def [abs_def] Let_def
    apply (intro honest_if honest_None)
        apply (rule honest_typed, rule confined_pushes, erule key, simp, simp)
       apply (rule honest_typed, rule confined_pushes, erule key, simp, simp)
      apply (rule honest_typed, rule confined_pops, erule key, simp, erule pop)
     apply (rule honest_typed, rule confined_pops, erule key, simp, erule pop)
    apply (rule honest_reads(1), rule silent, simp)
    done
qed

lemma exec_keys_honest: "honest E args (exec_keys E args)"
proof -
  have key: "arg_at 1 args \<in> set (affected_keys args)" if "arg_at 0 args = ''EXPIREAT'' \<and> 3 \<le> length args"
    using that by (intro affected) (auto simp: write_commands_def)
  show ?thesis
    unfolding exec_keys_def [abs_def] Let_def
    apply (intro honest_if honest_option honest_None honest_error)
       apply (rule honest_flag, rule confined_expires, erule key, simp)
      apply (rule honest_reads(3), rule silent, simp)+
    done
qed

lemma exec_sets_honest: "honest E args (exec_sets E args)"
proof -
  have key: "arg_at 1 args \<in> set (affected_keys args)"
    if "arg_at 0 args = c \<and> 3 \<le> length args" "c = ''SADD'' \<or> c = ''SREM''" for c
    using that by (intro affected) (auto simp: write_commands_def)
  show ?thesis
    unfolding exec_sets_def [abs_def] Let_def
    apply (intro honest_if honest_None)
        apply (rule honest_typed, rule confined_sadd, erule key, simp, simp)
       apply (rule honest_reads(1), rule silent, simp)
      apply (rule honest_typed, rule confined_removals, erule key, simp, simp)
     apply (rule honest_reads(1), rule silent, simp)+
    done
qed

lemma exec_multi_honest: "honest E args (exec_multi E args)"
proof -
  have one: "arg_at 1 args \<in> set (affected_keys args)" if "arg_at 0 args = ''RENAME'' \<and> 3 \<le> length args"
    using that by (intro affected) (simp_all add: write_commands_def)
  have two: "arg_at 2 args \<in> set (affected_keys args)" if "arg_at 0 args = ''RENAME'' \<and> 3 \<le> length args"
    using that by (intro affected_second) simp_all
  have mset: "honest E args (\<lambda>st. Some ((ok_reply, True), mset_all E (drop 1 args) st))" if "arg_at 0 args = ''MSET''"
  proof (rule honest_Some)
    have "confined E (set (affected_keys args)) (\<lambda>_. True) (\<lambda>st. ((), mset_all E (drop 1 args) st))"
      by (rule confined_mset [OF affected_mset [OF that]])
    from confined_apfst [OF this, of snd "\<lambda>_. (ok_reply, True)"]
    show "confined E (set (affected_keys args)) snd (\<lambda>st. ((ok_reply, True), mset_all E (drop 1 args) st))" by simp
  qed
  show ?thesis
    unfolding exec_multi_def [abs_def] Let_def
    apply (intro honest_if honest_None honest_error)
       apply (rule honest_flag, rule confined_two_keys, erule one, erule two, simp)
      apply (erule mset)
     apply (rule honest_reads(1), rule silent_mget, simp)
    apply (rule honest_reads(3), rule silent, simp)
    done
qed

lemma exec_hashes_honest: "honest E args (exec_hashes E args)"
proof -
  have key: "arg_at 1 args \<in> set (affected_keys args)"
    if "arg_at 0 args = c \<and> 3 \<le> length args" "c = ''HSET'' \<or> c = ''HDEL''" for c
    using that by (intro affected) (auto simp: write_commands_def)
  show ?thesis
    unfolding exec_hashes_def [abs_def] Let_def
    apply (intro honest_if honest_None honest_error)
       apply (rule honest_typed, rule confined_hset, erule key, simp, simp)
      apply (rule honest_reads(1), rule silent, simp)
     apply (rule honest_reads(1), rule silent, simp)
    apply (rule honest_typed, rule confined_removals, erule key, simp, simp)
    done
qed

lemma exec_counters_honest: "honest E args (exec_counters E args)"
proof -
  have key: "arg_at 1 args \<in> set (affected_keys args)"
    if "arg_at 0 args = c \<and> 3 \<le> length args" "c \<in> {''INCRBY'', ''DECRBY'', ''APPEND'', ''GETSET'', ''SETNX''}" for c
    using that by (intro affected) (auto simp: write_commands_def)
  have nx: "confined E K (\<lambda>ok. ok) (setnx E k x)" if "k \<in> K" for K k x
    unfolding setnx_def using that by (rule confined_set_if_absent)
  show ?thesis
    unfolding exec_counters_def [abs_def] Let_def
    apply (intro honest_if honest_option honest_None honest_error)
         apply (rule honest_text, rule confined_counters, erule key, simp, simp)
        apply (rule honest_text, rule confined_counters, erule key, simp, simp)
       apply (rule honest_typed, rule confined_counters, erule key, simp, simp)
      apply (rule honest_reads(1), rule silent, simp)
     apply (rule honest_typed, rule confined_getset, erule key, simp, simp)
    apply (rule honest_flag, rule nx, erule key, simp, simp)
    done
qed

lemma confined_if: "confined E K ch f \<Longrightarrow> confined E K ch g \<Longrightarrow> confined E K ch (\<lambda>st. if c then f st else g st)"
  by (cases c) simp_all

lemma confined_exec_expire:
  assumes "arg_at 1 args \<in> K"
  shows "confined E K snd (exec_expire E args)"
proof -
  have run: "confined E K snd (\<lambda>st. apfst (\<lambda>ok. (flag ok, ok))
      (case c of Some c \<Rightarrow> expire_conditional E (arg_at 1 args) s c st | None \<Rightarrow> expire E (arg_at 1 args) s st))" for c s
    by (cases c; simp only: option.case; rule confined_apfst, rule confined_expires, rule assms, simp)
  show ?thesis unfolding exec_expire_def [abs_def] Let_def
    by (cases "parse_u64 (arg_at 2 args)"; simp only: option.case; intro confined_const confined_if run)
qed

lemma exec_rest_honest: "honest E args (exec_rest E args)"
proof -
  have one: "arg_at 1 args \<in> set (affected_keys args)"
    if "arg_at 0 args = c \<and> 3 \<le> length args" "c = ''COPY'' \<or> c = ''EXPIRE''" for c
    using that by (intro affected) (auto simp: write_commands_def)
  have two: "arg_at 2 args \<in> set (affected_keys args)" if "arg_at 0 args = ''COPY'' \<and> 3 \<le> length args"
    using that by (intro affected_second) simp_all
  show ?thesis
    unfolding exec_rest_def [abs_def] Let_def
    apply (intro honest_if honest_None honest_error)
       apply (rule honest_reads(1), rule silent, simp)
      apply (rule honest_reads(1), rule silent, simp)
     apply (rule honest_flag, rule confined_two_keys, erule one, simp, erule two, simp)
    apply (rule honest_Some, rule confined_exec_expire, erule one, simp)
    done
qed

lemma exec_json_honest: "honest E args (exec_json E args)"
proof -
  have json: "arg_at 1 args \<in> set (affected_keys args)"
    if "arg_at 0 args = c \<and> 2 \<le> length args" "c \<in> {''JSON.DEL'', ''JSON.NUMINCRBY'', ''JSON.ARRAPPEND''}" for c
    using that by (intro affected) (auto simp: write_commands_def)
  have set: "arg_at 1 args \<in> set (affected_keys args)" if "arg_at 0 args = ''JSON.SET''" "\<not> (length args < 4 \<or> arg_at 2 args = [])"
    using that by (intro affected) (auto simp: write_commands_def)
  show ?thesis
    unfolding exec_json_def [abs_def] Let_def
    apply (intro honest_if honest_option honest_sum honest_None honest_error)
           apply (rule honest_text, rule confined_json, erule (1) set, simp)
          apply (rule honest_reads(2), rule silent, simp)
         apply (rule honest_text, rule confined_json, erule json, simp, simp)
        apply (rule honest_reads(2), rule silent, simp)
       apply (rule honest_text, rule confined_json, erule json, simp, simp)
      apply (rule honest_text, rule confined_json, erule json, simp, simp)
     apply (rule honest_reads(2), rule silent, simp)+
    done
qed

lemma honest_cases:
  assumes "honest E args g"
  obtains "\<And>st. g st = None" | op where "confined E (set (affected_keys args)) snd op" "\<And>st. g st = Some (op st)"
  using assms by (auto simp: honest_def)

lemma first_of_Cons [simp]: "first_of (g # gs) args st = (case g args st of None \<Rightarrow> first_of gs args st | Some r \<Rightarrow> Some r)"
  unfolding first_of_def by simp

lemma first_of_Nil [simp]: "first_of [] args st = None"
  by (simp add: first_of_def)

lemma first_of_honest: "(\<And>g. g \<in> set gs \<Longrightarrow> honest E args (g args)) \<Longrightarrow> honest E args (first_of gs args)"
proof (induction gs)
  case (Cons g gs)
  have "honest E args (g args)" by (rule Cons.prems) simp
  then show ?case
  proof (cases rule: honest_cases)
    case 1
    with Cons show ?thesis by (simp add: first_of_def fun_eq_iff)
  next
    case (2 op)
    then have "first_of (g # gs) args = (\<lambda>st. Some (op st))" by (simp add: fun_eq_iff)
    with 2(1) show ?thesis by (simp add: honest_Some)
  qed
qed (simp add: first_of_def [abs_def] honest_None)

lemma groups_honest: "honest E args (first_of [exec_strings E, exec_lists E, exec_keys E, exec_json E, exec_sets E,
       exec_multi E, exec_hashes E, exec_counters E, exec_rest E] args)"
  by (rule first_of_honest)
     (use exec_strings_honest exec_lists_honest exec_keys_honest exec_json_honest exec_sets_honest exec_multi_honest
        exec_hashes_honest exec_counters_honest exec_rest_honest in auto)

lemma affected_only_writes: "\<not> is_write_command (arg_at 0 args) \<Longrightarrow> affected_keys args = []"
proof -
  assume n: "\<not> is_write_command (arg_at 0 args)"
  then have "arg_at 0 args \<notin> {''MSET'', ''RENAME'', ''COPY''}" by (auto simp: is_write_command_def write_commands_def)
  with n show ?thesis by (simp add: affected_keys_def Let_def hs_collect_def)
qed

lemma confined_execute: "confined E (set (affected_keys args)) (\<lambda>out. mutation out = Tentative) (execute_command E args)"
  using groups_honest [of E args]
proof (cases rule: honest_cases)
  case 1
  then show ?thesis unfolding execute_command_def [abs_def] by (simp add: confined_const)
next
  case (2 op)
  show ?thesis
  proof (rule confinedI)
    fix st assume wf: "store_wf st"
    obtain r b st' where op: "op st = ((r, b), st')" by (cases "op st") auto
    have run: "snd (execute_command E args st) = st'"
      "mutation (fst (execute_command E args st)) = (if \<not> is_write_command (arg_at 0 args) then NotRequested
           else if b then Tentative else NoChange)"
      unfolding execute_command_def 2(2) op by simp_all
    from 2(1) wf op have c: "store_wf st'" "\<And>k. k \<notin> set (affected_keys args) \<Longrightarrow> pview E st' k = pview E st k"
      "\<not> b \<Longrightarrow> pview E st' = pview E st" by (auto simp: confined_def dest!: spec [of _ st])
    show "store_wf (snd (execute_command E args st))" using c run by simp
    show "pview E (snd (execute_command E args st)) k = pview E st k" if "k \<notin> set (affected_keys args)" for k
      using c(2) [OF that] run by simp
    show "pview E (snd (execute_command E args st)) = pview E st" if "mutation (fst (execute_command E args st)) \<noteq> Tentative"
    proof (cases "is_write_command (arg_at 0 args)")
      case True
      with that run c(3) show ?thesis by (auto split: if_splits)
    next
      case False
      with c(2) run(1) affected_only_writes [OF False] show ?thesis by (simp add: fun_eq_iff)
    qed
  next
    fix st
    have "limits (snd (op st)) = limits st" using 2(1) by (simp add: confined_def)
    then show "limits (snd (execute_command E args st)) = limits st"
      unfolding execute_command_def 2(2) by (cases "op st") (auto simp: case_prod_beta)
  qed
qed


section \<open>Properties\<close>

text \<open>
  The commit path may trust what \<open>execute_command\<close> says. Whatever the arguments, the
  store stays well formed, no key outside \<open>affected_keys\<close> changes its persistent content, and a
  command whose outcome is not tentative has changed nothing at all; reads in particular.
\<close>

theorem command_confined:
  assumes "store_wf st" and "execute_command E args st = (out, st')"
  shows "store_wf st' \<and> (\<forall>k. k \<notin> set (affected_keys args) \<longrightarrow> pview E st' k = pview E st k) \<and>
    (mutation out \<noteq> Tentative \<longrightarrow> pview E st' = pview E st)"
  using confined_execute [of E args] assms by (auto simp: confined_def dest!: spec [of _ st])

theorem command_confined_witness:
  "pview sample_env (snd (execute_command sample_env [''SET'', ''k'', ''v''] store_new)) ''x'' = pview sample_env store_new ''x''"
proof -
  have "store_wf store_new"
    using engine_new_ok [of sample_env] by (simp add: store_wf_def store_new_def with_maxmemory_def engine_ok_def)
  moreover have "''x'' \<notin> set (affected_keys [''SET'', ''k'', ''v''])"
    by (simp add: affected_keys_def hs_collect_set arg_or_def Let_def)
  ultimately show ?thesis
    using command_confined [of store_new sample_env "[''SET'', ''k'', ''v'']"] by (metis prod.collapse)
qed

end
