(* ===== verification/Admission_Content.thy ===== *)
theory Admission_Content
  imports Execution_Laws
begin

text \<open>
  Capture, eviction and admission seen only through the logical content. Exact memory accounting
  needs a data set that fits the address space; that these steps return, and what they do to the
  content, does not. The commit path is verified from the facts of this theory, so its
  properties carry no assumption on sizes.
\<close>

section \<open>Capture\<close>

lemma peek_all_content:
  assumes "store_wf st" and "hm_wf acc"
  shows "hm_get (fst (peek_all E keys acc st)) = (\<lambda>k. if k \<in> set keys then Some (view E st k) else hm_get acc k) \<and>
    hm_wf (fst (peek_all E keys acc st)) \<and> view E (snd (peek_all E keys acc st)) = view E st \<and>
    store_wf (snd (peek_all E keys acc st)) \<and> limits (snd (peek_all E keys acc st)) = limits st"
  using assms
proof (induction keys arbitrary: acc st)
  case (Cons key keys)
  have "fst (on_engine (peek E key) st) = view E st key" by (simp add: peek_fst view_def)
  moreover have "hm_wf (hm_insert key (view E st key) acc)" using Cons.prems by simp
  ultimately show ?case
    using Cons.IH [OF peek_view(2) [OF Cons.prems(1), of E key], of "hm_insert key (view E st key) acc"] peek_view [OF Cons.prems(1), of E key]
    by (auto simp: case_prod_beta hm_get_insert fun_eq_iff simp del: on_engine_fst)
qed simp

lemma stats_content:
  assumes "store_wf st"
  shows "view E (snd (store_stats E st)) = view E st" "store_wf (snd (store_stats E st))" "limits (snd (store_stats E st)) = limits st"
  using sweep_view [of E st "snd (store_stats E st)"] stats_change [of E "store_engine st"] assms
  by (simp_all add: store_stats_def)

lemma memory_content:
  assumes "store_wf st"
  shows "view E (snd (used_memory_bytes E st)) = view E st" "store_wf (snd (used_memory_bytes E st))"
    "limits (snd (used_memory_bytes E st)) = limits st"
  using sweep_view [of E st "snd (used_memory_bytes E st)"] total_memory_change [of E "store_engine st"] assms
  by (simp_all add: used_memory_bytes_def)

lemma begin_content:
  assumes wf: "store_wf st" and begun: "begin_mutation E keys st = (att, st1)"
  shows "hm_get (before_entries att) = (\<lambda>k. if k \<in> set keys then Some (view E st k) else None)"
    "hm_wf (before_entries att)" "evicted_entries att = []"
    "view E st1 = view E st" "store_wf st1" "limits st1 = limits st"
    "memory_before att = None \<longleftrightarrow> maxmemory_bytes st1 = 0"
proof -
  let ?p = "peek_all E keys [] st"
  let ?exact = "key_limit_requires_exact_count (physical_key_count (store_engine (snd ?p)))
    (length (filter (\<lambda>(_, entry). entry = None) (fst ?p)))"
  let ?c = "if ?exact then apfst (Some \<circ> stats_total_keys) (store_stats E (snd ?p)) else (None, snd ?p)"
  let ?m = "if 0 < maxmemory_bytes (snd ?c) then apfst Some (used_memory_bytes E (snd ?c)) else (None, snd ?c)"
  note p = peek_all_content [OF wf, of "[]" E keys, simplified]
  have att: "before_entries att = fst ?p" "evicted_entries att = []" "memory_before att = fst ?m" and st1: "st1 = snd ?m"
    using begun unfolding begin_mutation_def Let_def case_prod_beta by auto
  have c: "view E (snd ?c) = view E st" "store_wf (snd ?c)" "limits (snd ?c) = limits st"
    using stats_content [of "snd ?p" E] p by simp_all
  show "hm_get (before_entries att) = (\<lambda>k. if k \<in> set keys then Some (view E st k) else None)"
    "hm_wf (before_entries att)" "evicted_entries att = []" using p att by (simp_all add: fun_eq_iff)
  show m: "view E st1 = view E st" "store_wf st1" "limits st1 = limits st"
    using memory_content [of "snd ?c" E] c unfolding st1 by simp_all
  then show "memory_before att = None \<longleftrightarrow> maxmemory_bytes st1 = 0"
    using c(3) att(3) by (auto simp: limits_def)
qed

section \<open>Eviction\<close>

definition evict_content :: "env \<Rightarrow> bytes set \<Rightarrow> engine \<Rightarrow> (bytes \<times> data_entry) list \<Rightarrow> engine \<Rightarrow> bool" where
  "evict_content E prot e ev e' \<longleftrightarrow> engine_wf e' \<and> hm_wf ev \<and>
     (\<forall>(k, x) \<in> set ev. live (now E) (contents e) k = Some x \<and> k \<notin> prot) \<and>
     contents e' = (\<lambda>k. if k \<in> fst ` set ev then None else live (now E) (contents e) k)"

lemma evict_content_more:
  assumes c1: "contents e1 = live (now E) (contents e)" and key: "contents e1 key = Some entry" "key \<notin> prot"
    and c2: "contents e2 = (contents e1)(key := None)" and post: "evict_content E prot e2 ev e'"
  shows "evict_content E prot e ((key, entry) # ev) e'"
proof -
  have live2: "live (now E) (contents e2) = (contents e1)(key := None)"
    unfolding c2 c1 by (auto simp: fun_eq_iff live_def split: option.splits)
  note post = post [unfolded evict_content_def live2]
  have "k \<noteq> key" if "(k, x) \<in> set ev" for k x using post that by auto
  with post key c1 show ?thesis unfolding evict_content_def by (auto simp: fun_eq_iff split: if_splits)
qed

lemma evict_loop_content:
  assumes "engine_wf e" and "entry_count e < fuel"
  shows "\<exists>ev e'. evict_loop E mx policy prot pass fuel acc e = Some (acc @ ev, e') \<and> evict_content E prot e ev e'"
  using assms
proof (induction fuel arbitrary: pass acc e)
  case (Suc fuel)
  let ?e1 = "snd (total_memory_bytes E e)"
  let ?best = "best_candidate policy prot (\<lambda>n. subsec_nanos E (NUM_SHARDS * pass + n)) 0 (shards ?e1) None"
  have wf1: "engine_wf ?e1" by (rule engine_change_wf [OF total_memory_change Suc.prems(1)])
  have c1: "contents ?e1 = live (now E) (contents e)" by (rule engine_change_contents [OF total_memory_change Suc.prems(1)])
  have fewer: "entry_count ?e1 \<le> entry_count e"
    using wf1 Suc.prems(1) c1 by (intro engine_bytes_mono) (simp_all add: live_le)
  have stop: "evict_content E prot e [] ?e1" using wf1 c1 by (simp add: evict_content_def)
  show ?case
  proof (cases "fst (total_memory_bytes E e) \<le> mx \<or> ?best = None")
    case True
    with stop show ?thesis by (auto simp: case_prod_beta)
  next
    case False
    then obtain i key score where best: "?best = Some (i, key, score)" and over: "\<not> fst (total_memory_bytes E e) \<le> mx" by auto
    from best_candidate_entry [OF wf1 best] obtain entry where
      entry: "contents ?e1 key = Some entry" "i = shard_for_key key" "eviction_eligible policy prot (key, entry)" by blast
    let ?e2 = "snd (with_shard i (shard_remove E key) ?e1)"
    have removal: "engine_change E ((contents ?e1)(key := None)) ?e1 ?e2"
      unfolding entry(2) by (rule with_shard_step) (rule shard_remove_step)
    have wf2: "engine_wf ?e2" by (rule engine_change_wf [OF removal wf1])
    have c2: "contents ?e2 = (contents ?e1)(key := None)" by (rule engine_change_contents [OF removal wf1])
    have "live (now E) (contents ?e1) key = Some entry" using entry(1) unfolding c1 by simp
    then have got: "fst (with_shard i (shard_remove E key) ?e1) = Some entry"
      unfolding entry(2) by (simp add: with_shard_fst shard_remove_fst)
    have "entry_count ?e2 < fuel"
      using engine_bytes_drop(2) [OF wf1 wf2 c2 entry(1)] fewer Suc.prems(2) by simp
    from Suc.IH [OF wf2 this, of "Suc pass" "acc @ [(key, entry)]"] obtain ev e' where
      run: "evict_loop E mx policy prot (Suc pass) fuel (acc @ [(key, entry)]) ?e2 = Some ((acc @ [(key, entry)]) @ ev, e')"
        and post: "evict_content E prot ?e2 ev e'" by blast
    have "key \<notin> prot" using entry(3) by (auto simp: eviction_eligible_def)
    from evict_content_more [OF c1 entry(1) this c2 post] show ?thesis
      using over best got run by (auto simp: case_prod_beta)
  qed
qed simp

lemma evict_to_fit_content:
  assumes "engine_wf e" and "policy \<noteq> NoEviction" and "mx \<noteq> 0"
  obtains ev e' where "evict_to_fit E mx policy prot e = Some (ev, e')" "evict_content E prot e ev e'"
  using evict_loop_content [OF assms(1) lessI, of E mx policy prot 0 "[]"] assms(2,3)
  by (auto simp: evict_to_fit_def)


section \<open>Admission\<close>

definition admit_content :: "env \<Rightarrow> bytes list \<Rightarrow> mutation_attempt \<Rightarrow> store \<Rightarrow>
    (admission_error + unit) \<Rightarrow> mutation_attempt \<Rightarrow> store \<Rightarrow> bool" where
  "admit_content E prot att st r att' st' \<longleftrightarrow> store_wf st' \<and> limits st' = limits st \<and>
     before_entries att' = before_entries att \<and>
     (case r of
        Inl _ \<Rightarrow> view E st' = view E st \<and> att' = att
      | Inr _ \<Rightarrow> (\<exists>ev. evicted_entries att' = evicted_entries att @ ev \<and> hm_wf ev \<and>
          (\<forall>(k, x) \<in> set ev. view E st k = Some x \<and> k \<notin> set prot) \<and>
          view E st' = (\<lambda>k. if k \<in> fst ` set ev then None else view E st k)))"

lemma admit_content_same:
  "store_wf st' \<Longrightarrow> view E st' = view E st \<Longrightarrow> limits st' = limits st \<Longrightarrow> admit_content E prot att st r att st'"
  by (cases r) (auto simp: admit_content_def intro!: exI [of _ "[]"])

lemma apply_all_limits [simp]: "limits (apply_all E entries st) = limits st"
  by (induction entries arbitrary: st) auto

lemma admit_evict_content:
  assumes wf: "store_wf st" and limit: "maxmemory_bytes st \<noteq> 0" and policy: "maxmemory_policy st \<noteq> NoEviction"
  shows "\<exists>r att' st'. (case evict_to_fit E (maxmemory_bytes st) (maxmemory_policy st) (set prot) (store_engine st) of
        None \<Rightarrow> None
      | Some (evicted, e3) \<Rightarrow>
          (case used_memory_bytes E (st\<lparr>store_engine := e3\<rparr>) of (memory, st3) \<Rightarrow>
             if memory \<le> maxmemory_bytes st3
             then Some (Inr (), att\<lparr>evicted_entries := evicted_entries att @ evicted\<rparr>, st3)
             else Some (Inl Maxmemory, att, apply_all E evicted st3))) = Some (r, att', st') \<and>
    admit_content E prot att st r att' st'"
proof -
  obtain ev e3 where run: "evict_to_fit E (maxmemory_bytes st) (maxmemory_policy st) (set prot) (store_engine st) = Some (ev, e3)"
    and post: "evict_content E (set prot) (store_engine st) ev e3"
    using evict_to_fit_content [OF wf [unfolded store_wf_def] policy limit] .
  let ?st3 = "st\<lparr>store_engine := e3\<rparr>"
  let ?st4 = "snd (used_memory_bytes E ?st3)"
  have wf3: "store_wf ?st3" using post by (simp add: evict_content_def store_wf_def)
  note mem = memory_content [OF wf3, of E]
  have ev: "hm_wf ev" "\<forall>(k, x) \<in> set ev. view E st k = Some x \<and> k \<notin> set prot"
    using post by (auto simp: evict_content_def view_def)
  have v4: "view E ?st4 k = (if k \<in> fst ` set ev then None else view E st k)" for k
  proof -
    have "view E ?st3 k = alive E (contents e3 k)" using view_alive [of E ?st3 k] by simp
    moreover have "alive E None = None" by (simp add: alive_def)
    moreover have "contents e3 k = (if k \<in> fst ` set ev then None else view E st k)"
      using post by (simp add: evict_content_def view_def)
    ultimately show ?thesis using mem(1) by simp
  qed
  have lim: "limits ?st4 = limits st" using mem(3) by (simp add: limits_def)
  show ?thesis
  proof (cases "fst (used_memory_bytes E ?st3) \<le> maxmemory_bytes ?st4")
    case True
    have "admit_content E prot att st (Inr ()) (att\<lparr>evicted_entries := evicted_entries att @ ev\<rparr>) ?st4"
      unfolding admit_content_def using ev mem(2) v4 lim by (auto intro!: exI [of _ ev])
    with True run show ?thesis by (simp add: case_prod_beta)
  next
    case False
    note restored = apply_all_view [OF mem(2) ev(1), of E]
    have "view E (apply_all E ev ?st4) k = view E st k" for k
    proof (cases "hm_get ev k")
      case None
      then have "k \<notin> fst ` set ev" by (simp add: map_of_eq_None_iff)
      with None restored v4 show ?thesis by simp
    next
      case (Some x)
      then have "view E st k = Some x" using ev(2) map_of_SomeD by fastforce
      with Some restored alive_view [of E st k] show ?thesis by simp
    qed
    then have "admit_content E prot att st (Inl Maxmemory) att (apply_all E ev ?st4)"
      by (intro admit_content_same) (use restored lim in \<open>auto simp: fun_eq_iff\<close>)
    with False run show ?thesis by (simp add: case_prod_beta)
  qed
qed

lemma admit_content_trans:
  "admit_content E prot att st1 r att' st' \<Longrightarrow> view E st1 = view E st \<Longrightarrow> limits st1 = limits st \<Longrightarrow>
    admit_content E prot att st r att' st'"
  by (cases r) (simp_all add: admit_content_def cong: if_cong)

lemma admit_content_spec:
  assumes wf: "store_wf st" and base: "memory_before att = None \<Longrightarrow> maxmemory_bytes st = 0"
  shows "\<exists>r att' st'. admit E prot att st = Some (r, att', st') \<and> admit_content E prot att st r att' st'"
proof -
  define c where "c = (case key_count_before att of
      Some count_before \<Rightarrow> (case store_stats E st of (counted, st1) \<Rightarrow>
        (MAX_KEYS < stats_total_keys counted \<and> count_before < stats_total_keys counted, st1))
    | None \<Rightarrow> (False, st))"
  let ?st1 = "snd c" and ?st2 = "snd (used_memory_bytes E (snd c))"
  have st1: "store_wf ?st1" "view E ?st1 = view E st" "limits ?st1 = limits st"
    using stats_content [OF wf] wf by (simp_all add: c_def case_prod_beta split: option.splits)
  have st2: "store_wf ?st2" "view E ?st2 = view E st" "limits ?st2 = limits st"
    using memory_content [OF st1(1)] st1 by simp_all
  have mx: "maxmemory_bytes ?st1 = maxmemory_bytes st" "maxmemory_bytes ?st2 = maxmemory_bytes st"
    using st1(3) st2(3) by (simp_all add: limits_def)
  note unfold = admit_def c_def [symmetric] case_prod_beta Let_def
  note same1 = admit_content_same [OF st1, of prot att] and same2 = admit_content_same [OF st2, of prot att]
  show ?thesis
  proof (cases "fst c \<or> maxmemory_bytes ?st1 = 0")
    case True
    then show ?thesis using same1 by (cases "fst c") (auto simp: unfold)
  next
    case go: False
    then obtain before where before: "memory_before att = Some before" using base mx by auto
    show ?thesis
    proof (cases "fst (used_memory_bytes E ?st1) \<le> maxmemory_bytes ?st2 \<or> fst (used_memory_bytes E ?st1) \<le> before \<or>
        maxmemory_policy ?st2 = NoEviction")
      case True
      with same2 go before show ?thesis by (auto simp: unfold)
    next
      case False
      then have "admit E prot att st = (case evict_to_fit E (maxmemory_bytes ?st2) (maxmemory_policy ?st2) (set prot) (store_engine ?st2) of
            None \<Rightarrow> None
          | Some (evicted, e3) \<Rightarrow>
              (case used_memory_bytes E (?st2\<lparr>store_engine := e3\<rparr>) of (memory, st3) \<Rightarrow>
                 if memory \<le> maxmemory_bytes st3
                 then Some (Inr (), att\<lparr>evicted_entries := evicted_entries att @ evicted\<rparr>, st3)
                 else Some (Inl Maxmemory, att, apply_all E evicted st3)))"
        using go before by (simp add: unfold)
      moreover have "maxmemory_bytes ?st2 \<noteq> 0" "maxmemory_policy ?st2 \<noteq> NoEviction" using False go mx by simp_all
      note admit_evict_content [OF st2(1) this, where E = E and prot = prot and att = att]
      ultimately show ?thesis using admit_content_trans [OF _ st2(2,3)] by (simp only:) blast
    qed
  qed
qed

end
