(* ===== verification/Commit.thy ===== *)
theory Commit
  imports Admission_Content
begin

text \<open>
  The preparation half of \<open>src/commit_coordinator.rs\<close>: how a request of the master becomes a
  tentative change of the store, a batch of committed effects and the state that undoes it. Every
  preparation follows one contract: without a batch the store is as it was, and with one the batch
  reproduces the change on any store that agreed before, while the rollback takes it back.
\<close>

section \<open>The server's command execution\<close>

text \<open>The counters of \<open>src/main.rs\<close> that \<open>INFO\<close> prints.\<close>

record server_status =
  start_time :: u64
  is_replica :: bool
  active_connections :: nat
  total_commands :: nat
  cache_hits :: nat
  cache_misses :: nat

definition round_half_even :: "nat \<Rightarrow> nat \<Rightarrow> nat" where
  "round_half_even n d = (let q = n div d; r = n mod d in
     if d < 2 * r \<or> d = 2 * r \<and> odd q then q + 1 else q)"

text \<open>\<open>{:.1}\<close> of a non-negative finite float.\<close>

definition one_decimal :: "f64 \<Rightarrow> bytes" where
  "one_decimal x = (case ratio x of (n, d) \<Rightarrow> let tenths = round_half_even (10 * n) d in
     nat_to_string (tenths div 10) @ ''.'' @ nat_to_string (tenths mod 10))"

definition f64_of_nat :: "nat \<Rightarrow> f64" where
  "f64_of_nat n = f64_of_ratio False n 1"

definition f64_div_pos :: "f64 \<Rightarrow> f64 \<Rightarrow> f64" where
  "f64_div_pos a b = (case (ratio a, ratio b) of ((n, d), (n', d')) \<Rightarrow> f64_of_ratio False (n * d') (d * n'))"

definition f64_mul_pos :: "f64 \<Rightarrow> f64 \<Rightarrow> f64" where
  "f64_mul_pos a b = (case (ratio a, ratio b) of ((n, d), (n', d')) \<Rightarrow> f64_of_ratio False (n * n') (d * d'))"

definition hit_rate :: "nat \<Rightarrow> nat \<Rightarrow> f64" where
  "hit_rate hits misses = (if 0 < hits + misses
     then f64_mul_pos (f64_div_pos (f64_of_nat hits) (f64_of_nat (hits + misses))) (f64_of_nat 100) else 0)"

fun policy_debug :: "eviction_policy \<Rightarrow> bytes" where
  "policy_debug NoEviction = ''NoEviction''"
| "policy_debug AllKeysLru = ''AllKeysLru''"
| "policy_debug VolatileLru = ''VolatileLru''"
| "policy_debug AllKeysRandom = ''AllKeysRandom''"
| "policy_debug VolatileRandom = ''VolatileRandom''"

text \<open>The fields are separated by a backslash and the letter n, as the source writes them.\<close>

definition info_field :: "bytes \<Rightarrow> bytes \<Rightarrow> bytes" where
  "info_field name text = [CHR 0x5C] @ ''n'' @ name @ '':'' @ text"

definition info_response :: "server_status \<Rightarrow> env \<Rightarrow> store \<Rightarrow> resp_value \<times> store" where
  "info_response S E st =
     (let uptime = u64_saturating_sub (now E) (start_time S);
          role = (if is_replica S then ''replica'' else ''master'');
          (counted, st1) = store_stats E st;
          (used_memory, st2) = used_memory_bytes E st1
      in (BulkString (Some (''role:'' @ role @
            info_field ''uptime_seconds'' (u64_to_string uptime) @
            info_field ''connected_keys'' (nat_to_string (stats_total_keys counted)) @
            info_field ''max_keys'' (nat_to_string MAX_KEYS) @
            info_field ''active_connections'' (nat_to_string (active_connections S)) @
            info_field ''total_commands'' (nat_to_string (total_commands S)) @
            info_field ''cache_hits'' (nat_to_string (cache_hits S)) @
            info_field ''cache_misses'' (nat_to_string (cache_misses S)) @
            info_field ''hit_rate_percent'' (one_decimal (hit_rate (cache_hits S) (cache_misses S))) @
            info_field ''used_memory_bytes'' (nat_to_string used_memory) @
            info_field ''maxmemory_bytes'' (nat_to_string (maxmemory_bytes st2)) @
            info_field ''maxmemory_policy'' (policy_debug (maxmemory_policy st2)))), st2))"

definition server_execute_command :: "server_status \<Rightarrow> env \<Rightarrow> bytes list \<Rightarrow> store \<Rightarrow> command_outcome \<times> store" where
  "server_execute_command S E args st =
     (if args \<noteq> [] \<and> hd args = ''INFO'' then apfst outcome_read (info_response S E st)
      else execute_command E args st)"

section \<open>Preparing a mutation\<close>

text \<open>
  The steps \<open>prepare_command_operation\<close> and \<open>prepare_obp_set\<close> share: capture the keys, run,
  see whether anything changed, admit, and derive the effects again with what was evicted. The
  option is \<open>None\<close> for a panic of \<open>admit\<close>.
\<close>

datatype 'r prepared_mutation =
    Untouched 'r
  | Refused admission_error
  | Vanished
  | Mutated 'r committed_batch mutation_rollback

definition prepare_mutation :: "env \<Rightarrow> bytes list \<Rightarrow> (store \<Rightarrow> 'r \<times> store) \<Rightarrow> store \<Rightarrow> ('r prepared_mutation \<times> store) option" where
  "prepare_mutation E keys run st =
     (let (attempt, st1) = begin_mutation E keys st;
          (r, st2) = run st1;
          (derived, st3) = derive_committed_batch E keys (before_entries attempt) [] st2
      in if derived = None then Some (Untouched r, st3)
         else (case admit E keys attempt st3 of
             None \<Rightarrow> None
           | Some (Inl err, attempt1, st4) \<Rightarrow> Some (Refused err, rollback E attempt1 st4)
           | Some (Inr _, attempt1, st4) \<Rightarrow>
               (case derive_committed_batch E keys (before_entries attempt1) (evicted_entries attempt1) st4 of
                  (None, st5) \<Rightarrow> Some (Vanished, rollback E attempt1 st5)
                | (Some batch, st5) \<Rightarrow> Some (Mutated r batch (into_rollback attempt1), st5))))"

record prepared_command =
  prepared_outcome :: command_outcome
  prepared_batch :: "committed_batch option"
  prepared_rollback :: "mutation_rollback option"

definition prepare_command_operation :: "server_status \<Rightarrow> env \<Rightarrow> bytes list \<Rightarrow> store \<Rightarrow>
    (prepared_command presult \<times> store) option" where
  "prepare_command_operation S E args st =
     (case prepare_mutation E (affected_keys args) (server_execute_command S E args) st of
        None \<Rightarrow> None
      | Some (Untouched outcome, st') \<Rightarrow>
          Some (Inr \<lparr>prepared_outcome = outcome\<lparr>mutation := NoChange\<rparr>, prepared_batch = None, prepared_rollback = None\<rparr>, st')
      | Some (Refused err, st') \<Rightarrow>
          Some (Inr \<lparr>prepared_outcome = \<lparr>response = Error (admission_error_message err), mutation = NoChange\<rparr>,
                   prepared_batch = None, prepared_rollback = None\<rparr>, st')
      | Some (Vanished, st') \<Rightarrow> Some (fail ''Committed effect derivation became empty after admission'', st')
      | Some (Mutated outcome batch rb, st') \<Rightarrow>
          Some (Inr \<lparr>prepared_outcome = outcome, prepared_batch = Some batch, prepared_rollback = Some rb\<rparr>, st'))"

datatype obp_mutation_result = ObpValue onyx_value | ObpError bytes

datatype commit_operation =
    Command "bytes list"
  | CommandGroup "bytes list list"
  | Transaction "bytes list list"
  | ObpSet bytes bytes
  | ObpDelete bytes

datatype commit_response =
    CommandR command_outcome
  | CommandGroupR "command_outcome list"
  | TransactionR resp_value
  | ObpR obp_mutation_result

record prepared_commit =
  pc_response :: commit_response
  pc_batches :: "committed_batch list"
  pc_rollbacks :: "mutation_rollback list"

definition without_mutation :: "commit_response \<Rightarrow> prepared_commit" where
  "without_mutation r = \<lparr>pc_response = r, pc_batches = [], pc_rollbacks = []\<rparr>"

definition with_mutations :: "commit_response \<Rightarrow> committed_batch list \<Rightarrow> mutation_rollback list \<Rightarrow> prepared_commit" where
  "with_mutations r batches rollbacks = \<lparr>pc_response = r, pc_batches = batches, pc_rollbacks = rollbacks\<rparr>"

definition prepare_command :: "server_status \<Rightarrow> env \<Rightarrow> bytes list \<Rightarrow> store \<Rightarrow> (prepared_commit presult \<times> store) option" where
  "prepare_command S E args st = (case prepare_command_operation S E args st of
      None \<Rightarrow> None
    | Some (Inl err, st') \<Rightarrow> Some (Inl err, st')
    | Some (Inr prepared, st') \<Rightarrow> (case prepared_batch prepared of
          None \<Rightarrow> Some (Inr (without_mutation (CommandR (prepared_outcome prepared))), st')
        | Some batch \<Rightarrow> (case prepared_rollback prepared of
              None \<Rightarrow> None
            | Some rb \<Rightarrow> Some (Inr (with_mutations (CommandR (prepared_outcome prepared)) [batch] [rb]), st'))))"

definition restore_all :: "env \<Rightarrow> mutation_rollback list \<Rightarrow> store \<Rightarrow> store" where
  "restore_all E rollbacks st = fold (rollback_restore E) (rev rollbacks) st"

fun prepare_group_loop :: "server_status \<Rightarrow> env \<Rightarrow> bytes list list \<Rightarrow> command_outcome list \<Rightarrow> committed_batch list \<Rightarrow>
    mutation_rollback list \<Rightarrow> store \<Rightarrow> (prepared_commit presult \<times> store) option" where
  "prepare_group_loop S E [] outcomes batches rollbacks st =
     Some (Inr (if batches = [] then without_mutation (CommandGroupR outcomes)
                else with_mutations (CommandGroupR outcomes) batches rollbacks), st)"
| "prepare_group_loop S E (args # commands) outcomes batches rollbacks st =
     (case prepare_command_operation S E args st of
        None \<Rightarrow> None
      | Some (Inl err, st1) \<Rightarrow> Some (Inl err, restore_all E rollbacks st1)
      | Some (Inr prepared, st1) \<Rightarrow> (case prepared_batch prepared of
            None \<Rightarrow> prepare_group_loop S E commands (outcomes @ [prepared_outcome prepared]) batches rollbacks st1
          | Some batch \<Rightarrow> (case prepared_rollback prepared of
                None \<Rightarrow> None
              | Some rb \<Rightarrow> prepare_group_loop S E commands (outcomes @ [prepared_outcome prepared])
                  (batches @ [batch]) (rollbacks @ [rb]) st1)))"

definition prepare_command_group :: "server_status \<Rightarrow> env \<Rightarrow> bytes list list \<Rightarrow> store \<Rightarrow> (prepared_commit presult \<times> store) option" where
  "prepare_command_group S E commands st = prepare_group_loop S E commands [] [] [] st"

definition note_keys :: "(bytes \<times> data_entry option) list \<Rightarrow> (bytes, data_entry option) hmap \<Rightarrow> bytes list \<Rightarrow>
    (bytes, data_entry option) hmap \<times> bytes list" where
  "note_keys captured baseline changed = fold (\<lambda>(key, entry) (baseline, changed).
     if key \<in> set changed then (baseline, changed) else (hm_insert key entry baseline, changed @ [key])) captured (baseline, changed)"

definition flattened :: "'a option option \<Rightarrow> 'a option" where
  "flattened x = (case x of None \<Rightarrow> None | Some y \<Rightarrow> y)"

fun transaction_loop :: "server_status \<Rightarrow> env \<Rightarrow> bytes list list \<Rightarrow> (bytes, data_entry option) hmap \<Rightarrow> bytes list \<Rightarrow>
    resp_value list \<Rightarrow> store \<Rightarrow> (((bytes, data_entry option) hmap \<times> bytes list \<times> resp_value list) \<times> store) option" where
  "transaction_loop S E [] baseline changed results st = Some ((baseline, changed, results), st)"
| "transaction_loop S E (args # commands) baseline changed results st =
     (if \<not> is_write_command (arg_at 0 args) then
        (case server_execute_command S E args st of (outcome, st1) \<Rightarrow>
           transaction_loop S E commands baseline changed (results @ [response outcome]) st1)
      else
        (let keys = affected_keys args;
             (attempt, st1) = begin_mutation E keys st;
             (baseline1, changed1) = note_keys (map (\<lambda>key. (key, flattened (hm_get (before_entries attempt) key))) keys) baseline changed;
             (outcome, st2) = server_execute_command S E args st1;
             (derived, st3) = derive_committed_batch E keys (before_entries attempt) [] st2
         in if derived = None then transaction_loop S E commands baseline1 changed1 (results @ [response outcome]) st3
            else (case admit E keys attempt st3 of
                None \<Rightarrow> None
              | Some (Inr _, attempt1, st4) \<Rightarrow>
                  (case note_keys (map (\<lambda>(key, entry). (key, Some entry)) (evicted_entries attempt1)) baseline1 changed1 of
                     (baseline2, changed2) \<Rightarrow>
                       transaction_loop S E commands baseline2 changed2 (results @ [response outcome]) st4)
              | Some (Inl err, attempt1, st4) \<Rightarrow>
                  transaction_loop S E commands baseline1 changed1 (results @ [Error (admission_error_message err)])
                    (rollback E attempt1 st4))))"

definition prepare_transaction :: "server_status \<Rightarrow> env \<Rightarrow> bytes list list \<Rightarrow> store \<Rightarrow> (prepared_commit \<times> store) option" where
  "prepare_transaction S E commands st = (case transaction_loop S E commands [] [] [] st of
      None \<Rightarrow> None
    | Some ((baseline, changed, results), st1) \<Rightarrow>
        (case derive_committed_batch E (sort changed) baseline [] st1 of
           (None, st2) \<Rightarrow> Some (without_mutation (TransactionR (Array results)), st2)
         | (Some batch, st2) \<Rightarrow> Some (with_mutations (TransactionR (Array results)) [batch] [from_baseline baseline], st2)))"

definition prepare_obp_set :: "env \<Rightarrow> bytes \<Rightarrow> bytes \<Rightarrow> store \<Rightarrow> (prepared_commit presult \<times> store) option" where
  "prepare_obp_set E key v st =
     (let ok = ObpR (ObpValue (Blob ''OK'')) in
      case prepare_mutation E [key] (on_engine (engine_set E key (Blob v) None)) st of
        None \<Rightarrow> None
      | Some (Untouched _, st') \<Rightarrow> Some (Inr (without_mutation ok), st')
      | Some (Refused err, st') \<Rightarrow> Some (Inr (without_mutation (ObpR (ObpError (admission_error_message err)))), st')
      | Some (Vanished, st') \<Rightarrow> Some (fail ''OBP committed effect derivation failed after admission'', st')
      | Some (Mutated _ batch rb, st') \<Rightarrow> Some (Inr (with_mutations ok [batch] [rb]), st'))"

definition prepare_obp_delete :: "env \<Rightarrow> bytes \<Rightarrow> store \<Rightarrow> prepared_commit \<times> store" where
  "prepare_obp_delete E key st =
     (let (attempt, st1) = begin_mutation E [key] st;
          (deleted, st2) = store_delete E key st1;
          reply = ObpR (ObpValue (IntV (if deleted then 1 else 0)))
      in if \<not> deleted then (without_mutation reply, st2)
         else (with_mutations reply [\<lparr>effects = [DeleteE key]\<rparr>] [into_rollback attempt], st2))"

definition prepare_request :: "server_status \<Rightarrow> env \<Rightarrow> commit_operation \<Rightarrow> store \<Rightarrow> (prepared_commit presult \<times> store) option" where
  "prepare_request S E operation st = (case operation of
      Command args \<Rightarrow> prepare_command S E args st
    | CommandGroup commands \<Rightarrow> prepare_command_group S E commands st
    | Transaction commands \<Rightarrow> map_option (apfst Inr) (prepare_transaction S E commands st)
    | ObpSet key v \<Rightarrow> prepare_obp_set E key v st
    | ObpDelete key \<Rightarrow> Some (apfst Inr (prepare_obp_delete E key st)))"

end
