(* ===== verification/Commit_Laws.thy ===== *)
theory Commit_Laws
  imports Commit
begin

text \<open>
  The contract of preparation, proved once for any operation that stays within the keys it
  declares (the locale \<open>tracked_mutation\<close>), and its use for commands, command groups,
  transactions and the binary protocol.
\<close>

section \<open>Agreement, replay and rollback\<close>

text \<open>Two stores agree when the code cannot tell their persistent contents apart.\<close>

definition agrees :: "env \<Rightarrow> store \<Rightarrow> store \<Rightarrow> bool" where
  "agrees E a b \<longleftrightarrow> (\<forall>k. same_entry (pview E a k) (pview E b k))"

definition replay :: "env \<Rightarrow> committed_batch list \<Rightarrow> store \<Rightarrow> store" where
  "replay E batches st = fold (apply_committed_batch E) batches st"

text \<open>
  A prepared step from \<open>st0\<close> to \<open>st1\<close>, seen at any time from the step on: replaying its batches
  takes a store that agrees with \<open>st0\<close> to one that agrees with \<open>st1\<close>, and its rollbacks take a
  store that \<open>st1\<close> agrees with back to one that \<open>st0\<close> agrees with.
\<close>

definition reproduces :: "env \<Rightarrow> committed_batch list \<Rightarrow> store \<Rightarrow> store \<Rightarrow> bool" where
  "reproduces E batches st0 st1 \<longleftrightarrow> (\<forall>E' rep. now E \<le> now E' \<and> store_wf rep \<and> agrees E' rep st0 \<longrightarrow>
     agrees E' (replay E' batches rep) st1)"

definition rolls_back :: "env \<Rightarrow> mutation_rollback list \<Rightarrow> store \<Rightarrow> store \<Rightarrow> bool" where
  "rolls_back E rollbacks st0 st1 \<longleftrightarrow> (\<forall>E' st. now E \<le> now E' \<and> store_wf st \<and> agrees E' st1 st \<longrightarrow>
     store_wf (restore_all E' rollbacks st) \<and> agrees E' st0 (restore_all E' rollbacks st))"

definition prepared_ok :: "env \<Rightarrow> committed_batch list \<Rightarrow> mutation_rollback list \<Rightarrow> store \<Rightarrow> store \<Rightarrow> bool" where
  "prepared_ok E batches rollbacks st0 st1 \<longleftrightarrow> store_wf st1 \<and> limits st1 = limits st0 \<and>
     reproduces E batches st0 st1 \<and> rolls_back E rollbacks st0 st1"

lemma agrees_refl [simp]: "agrees E st st"
  by (simp add: agrees_def same_entry_def)

lemma agrees_trans [trans]: "agrees E a b \<Longrightarrow> agrees E b c \<Longrightarrow> agrees E a c"
  by (auto simp: agrees_def intro: same_entry_trans)

lemma agrees_pview: "pview E a = pview E b \<Longrightarrow> now E \<le> now E' \<Longrightarrow> agrees E' a b"
  by (simp add: agrees_def same_entry_def pview_later [of E E'])

lemma replay_wf: "store_wf st \<Longrightarrow> store_wf (replay E batches st)"
  unfolding replay_def by (induction batches arbitrary: st) (simp_all add: apply_batch_view(2))

lemma replay_append: "replay E (xs @ ys) st = replay E ys (replay E xs st)"
  by (simp add: replay_def)

lemma restore_append: "restore_all E (xs @ ys) st = restore_all E xs (restore_all E ys st)"
  by (simp add: restore_all_def)

lemma prepared_ok_idle:
  assumes "store_wf st1" and "limits st1 = limits st0" and "\<And>E'. now E \<le> now E' \<Longrightarrow> agrees E' st0 st1"
  shows "prepared_ok E [] [] st0 st1"
  using assms unfolding prepared_ok_def reproduces_def rolls_back_def
  by (auto simp: replay_def restore_all_def intro: agrees_trans)

lemma prepared_ok_refl: "store_wf st \<Longrightarrow> prepared_ok E [] [] st st"
  by (rule prepared_ok_idle) simp_all

lemma prepared_ok_trans:
  assumes one: "prepared_ok E bs rs st0 st1" and two: "prepared_ok E1 bs' rs' st1 st2" and le: "now E \<le> now E1"
  shows "prepared_ok E1 (bs @ bs') (rs @ rs') st0 st2"
proof -
  have "agrees E' (replay E' (bs @ bs') rep) st2" if "now E1 \<le> now E'" "store_wf rep" "agrees E' rep st0" for E' rep
    using one two that le replay_wf [of rep E' bs] unfolding prepared_ok_def reproduces_def replay_append by (meson order_trans)
  moreover have "store_wf (restore_all E' (rs @ rs') st) \<and> agrees E' st0 (restore_all E' (rs @ rs') st)"
    if "now E1 \<le> now E'" "store_wf st" "agrees E' st2 st" for E' st
    using one two that le unfolding prepared_ok_def rolls_back_def restore_append by (meson order_trans)
  ultimately show ?thesis
    using one two by (simp add: prepared_ok_def reproduces_def rolls_back_def)
qed

lemma restore_agrees:
  assumes "store_wf st" and "hm_wf before" and "hm_wf evicted" and le: "now E \<le> now E'"
    and captured: "\<And>k v. hm_get before k = Some v \<Longrightarrow> map_option persistent_entry_from v = pview E st0 k"
    and gone: "\<And>k x. hm_get before k = None \<Longrightarrow> hm_get evicted k = Some x \<Longrightarrow> pview E st0 k = Some (persistent_entry_from x)"
    and others: "\<And>k. hm_get before k = None \<Longrightarrow> hm_get evicted k = None \<Longrightarrow> same_entry (pview E' st0 k) (pview E' st k)"
  shows "agrees E' st0 (restore_entries E' before evicted st)"
  unfolding agrees_def
proof
  fix k
  note r = restore_entries_view(1) [OF assms(1-3), of E' k]
  have later: "pview E' st0 k = palive E' (pview E st0 k)" by (rule pview_later [OF le])
  show "same_entry (pview E' st0 k) (pview E' (restore_entries E' before evicted st) k)"
  proof (cases "hm_get before k")
    case (Some v)
    then show ?thesis using r captured [OF Some] later
      by (simp add: same_entry_def pview_def [of E' "restore_entries E' before evicted st"] alive_persistent)
  next
    case None
    show ?thesis
    proof (cases "hm_get evicted k")
      case (Some x)
      with None show ?thesis using r gone [OF None Some] later
        by (simp add: same_entry_def pview_def [of E' "restore_entries E' before evicted st"] alive_persistent)
    next
      case gone: None
      with None others [OF None gone] show ?thesis using r by (simp add: pview_def)
    qed
  qed
qed

section \<open>Derived batches\<close>

lemma derive_wf:
  assumes "store_wf st" and "derive_committed_batch E keys before evicted st = (b, st')"
  shows "store_wf st'" "view E st' = view E st"
  using assms derive_keys_spec [OF assms(1), of E before "hs_collect (map fst evicted)" keys]
  by (auto simp: derive_committed_batch_def Let_def case_prod_beta split: if_splits)

lemma derive_limits: "limits (snd (derive_committed_batch E keys before evicted st)) = limits st"
proof -
  have "limits (snd (derive_keys E before d keys st)) = limits st" for d
  proof (induction keys arbitrary: st)
    case (Cons key keys)
    show ?case using Cons [of "snd (on_engine (peek E key) st)"] by (simp add: case_prod_beta Let_def)
  qed simp
  then show ?thesis by (simp add: derive_committed_batch_def Let_def case_prod_beta)
qed

lemma derive_None_iff:
  assumes "store_wf st"
  shows "fst (derive_committed_batch E keys before evicted st) = None \<longleftrightarrow>
    evicted = [] \<and> (\<forall>k \<in> set keys. opt_pe_eq (captured_entry before k) (pview E st k))"
proof -
  have "hs_collect (map fst evicted) = [] \<longleftrightarrow> evicted = []"
    using hs_collect_set [of "map fst evicted"] by (metis list.map_disc_iff set_empty)
  moreover have "key_effect k p c False = [] \<longleftrightarrow> opt_pe_eq p c" for k p c
    by (auto simp: key_effect_def split: option.splits)
  ultimately show ?thesis
    using derive_keys_spec [OF assms, of E before "hs_collect (map fst evicted)" keys]
    by (auto simp: derive_committed_batch_def Let_def case_prod_beta)
qed


lemma derived_reproduces:
  assumes "store_wf st" and "derive_committed_batch E keys before evicted st = (b, st')"
    and "\<And>k. k \<in> set keys \<Longrightarrow> captured_entry before k = pview E st0 k"
    and "\<And>k. k \<notin> set keys \<Longrightarrow> k \<notin> fst ` set evicted \<Longrightarrow> pview E st k = pview E st0 k"
    and "\<And>k. k \<in> fst ` set evicted \<Longrightarrow> k \<notin> set keys \<Longrightarrow> view E st k = None"
  shows "reproduces E (case b of None \<Rightarrow> [] | Some batch \<Rightarrow> [batch]) st0 st'"
  unfolding reproduces_def
proof (intro allI impI)
  fix E' rep assume a: "now E \<le> now E' \<and> store_wf rep \<and> agrees E' rep st0"
  have "\<forall>k. same_entry (pview E' (apply_derived E' b rep) k) (pview E' st' k)"
    by (rule replicates [OF _ assms(1) _ assms(3) _ _ _ assms(2)]) (use a assms(4,5) in \<open>auto simp: agrees_def\<close>)
  then show "agrees E' (replay E' (case b of None \<Rightarrow> [] | Some batch \<Rightarrow> [batch]) rep) st'"
    by (cases b) (simp_all add: agrees_def replay_def apply_derived_def)
qed

section \<open>Operations confined to their keys\<close>

locale tracked_mutation =
  fixes E :: env and keys :: "bytes list" and run :: "store \<Rightarrow> 'r \<times> store"
  assumes run_wf: "store_wf st \<Longrightarrow> store_wf (snd (run st))"
    and run_limits: "limits (snd (run st)) = limits st"
    and run_elsewhere: "store_wf st \<Longrightarrow> k \<notin> set keys \<Longrightarrow> pview E (snd (run st)) k = pview E st k"
begin

lemma captured_run:
  assumes "store_wf st" and "begin_mutation E keys st = (att, st1)" and "run st1 = (r, st2)"
    and "derive_committed_batch E keys (before_entries att) [] st2 = (d, st3)"
  shows "store_wf st3" "limits st3 = limits st" "view E st3 = view E st2"
    "\<And>k. k \<notin> set keys \<Longrightarrow> pview E st3 k = pview E st k"
    "\<And>k. k \<in> set keys \<Longrightarrow> captured_entry (before_entries att) k = pview E st k"
    "memory_before att = None \<Longrightarrow> maxmemory_bytes st3 = 0"
    "d = None \<longleftrightarrow> (\<forall>k \<in> set keys. opt_pe_eq (pview E st k) (pview E st3 k))"
proof -
  note b = begin_content [OF assms(1,2)]
  have wf2: "store_wf st2" using run_wf [OF b(5)] assms(3) by simp
  have lim2: "limits st2 = limits st1" using run_limits [of st1] assms(3) by simp
  note d = derive_wf [OF wf2 assms(4)]
  show "store_wf st3" "view E st3 = view E st2" by (fact d)+
  show lim: "limits st3 = limits st" using derive_limits [of E keys _ "[]" st2] assms(4) lim2 b(6) by (metis snd_conv)
  show "pview E st3 k = pview E st k" if "k \<notin> set keys" for k
    using run_elsewhere [OF b(5) that] assms(3) d(2) b(4) by (simp add: pview_def)
  show cap: "captured_entry (before_entries att) k = pview E st k" if "k \<in> set keys" for k
    using b(1) that by (simp add: pview_def)
  show "maxmemory_bytes st3 = 0" if "memory_before att = None"
    using b(6,7) that lim by (simp add: limits_def)
  show "d = None \<longleftrightarrow> (\<forall>k \<in> set keys. opt_pe_eq (pview E st k) (pview E st3 k))"
    using derive_None_iff [OF wf2, of E keys "before_entries att" "[]"] assms(4) cap d(2) by (simp add: pview_def)
qed

lemma untouched_ok:
  assumes "store_wf st" and "begin_mutation E keys st = (att, st1)" and "run st1 = (r, st2)"
    and "derive_committed_batch E keys (before_entries att) [] st2 = (None, st3)"
  shows "prepared_ok E [] [] st st3"
proof (rule prepared_ok_idle)
  note c = captured_run [OF assms]
  show "store_wf st3" "limits st3 = limits st" by (fact c)+
  fix E' :: env assume le: "now E \<le> now E'"
  have "same_entry (pview E st k) (pview E st3 k)" for k
    using c(4,7) by (cases "k \<in> set keys") (auto simp: same_entry_def)
  then show "agrees E' st st3" unfolding agrees_def pview_later [OF le] by (blast intro: same_entry_alive)
qed

lemma refused_ok:
  assumes "store_wf st" and "begin_mutation E keys st = (att, st1)" and "run st1 = (r, st2)"
    and "derive_committed_batch E keys (before_entries att) [] st2 = (d, st3)"
    and "admit_content E keys att st3 (Inl err) att' st4"
  shows "pview E (rollback E att' st4) = pview E st" "store_wf (rollback E att' st4)" "limits (rollback E att' st4) = limits st"
proof -
  note b = begin_content [OF assms(1,2)] and c = captured_run [OF assms(1-4)]
  have a: "att' = att" "view E st4 = view E st3" "store_wf st4" "limits st4 = limits st3"
    using assms(5) by (simp_all add: admit_content_def)
  have lim: "limits (restore_before E before s) = limits s" for before s
    by (induction before arbitrary: s rule: list.induct) (auto split: option.splits)
  note r = restore_entries_view [OF a(3) b(2), of "[]" E, simplified]
  show "store_wf (rollback E att' st4)" using r(2) a(1) b(3) by (simp add: rollback_def)
  show "limits (rollback E att' st4) = limits st" using lim a(4) c(2) by (simp add: rollback_def restore_entries_def)
  show "pview E (rollback E att' st4) = pview E st"
  proof
    fix k
    show "pview E (rollback E att' st4) k = pview E st k"
      using r(1) [of k] a(1,2) b(1,3) c(4) [of k] by (simp add: rollback_def pview_def split: if_splits)
  qed
qed

lemma admitted_ok:
  assumes "store_wf st" and "begin_mutation E keys st = (att, st1)" and "run st1 = (r, st2)"
    and "derive_committed_batch E keys (before_entries att) [] st2 = (d, st3)" and "d \<noteq> None"
    and "admit_content E keys att st3 (Inr u) att' st4"
    and "derive_committed_batch E keys (before_entries att') (evicted_entries att') st4 = (b, st5)"
  shows "\<exists>batch. b = Some batch \<and> prepared_ok E [batch] [into_rollback att'] st st5"
proof -
  note g = begin_content [OF assms(1,2)] and c = captured_run [OF assms(1-4)]
  obtain ev where a: "before_entries att' = before_entries att" "evicted_entries att' = ev" "hm_wf ev" "store_wf st4" "limits st4 = limits st3"
    "\<And>k x. (k, x) \<in> set ev \<Longrightarrow> view E st3 k = Some x \<and> k \<notin> set keys"
    "\<And>k. view E st4 k = (if k \<in> fst ` set ev then None else view E st3 k)"
    using assms(6) g(3) by (auto simp: admit_content_def)
  note w = derive_wf [OF a(4) assms(7)]
  have lim: "limits st5 = limits st" using derive_limits [of E keys _ _ st4] assms(7) a(5) c(2) by (metis snd_conv)
  have kept: "pview E st4 k = pview E st3 k" if "k \<in> set keys" for k
    using a(6,7) that by (force simp: pview_def)
  have cap: "captured_entry (before_entries att') k = pview E st k" if "k \<in> set keys" for k
    using c(5) [OF that] a(1) by simp
  have some: "b \<noteq> None"
    using derive_None_iff [OF a(4), of E keys "before_entries att'" "evicted_entries att'"] assms(5,7) c(7) cap kept by auto
  have rep: "reproduces E (case b of None \<Rightarrow> [] | Some batch \<Rightarrow> [batch]) st st5"
    by (rule derived_reproduces [OF a(4) assms(7) cap]) (use a(2,7) c(4) in \<open>auto simp: pview_def\<close>)
  have pv: "pview E st5 k = pview E st k" if "k \<notin> set keys" "hm_get ev k = None" for k
    using c(4) [OF that(1)] a(7) [of k] w(2) that(2) by (simp add: pview_def map_of_eq_None_iff)
  have "rolls_back E [into_rollback att'] st st5"
    unfolding rolls_back_def
  proof (intro allI impI)
    fix E' s assume s: "now E \<le> now E' \<and> store_wf s \<and> agrees E' st5 s"
    have "agrees E' st (restore_entries E' (before_entries att') ev s)"
    proof (rule restore_agrees [where E = E])
      show "map_option persistent_entry_from v = pview E st k" if "hm_get (before_entries att') k = Some v" for k v
        using that g(1) a(1) by (auto simp: pview_def split: if_splits)
      show "pview E st k = Some (persistent_entry_from x)" if "hm_get (before_entries att') k = None" "hm_get ev k = Some x" for k x
        using c(4) [of k] a(6) [OF map_of_SomeD [OF that(2)]] by (simp add: pview_def)
      show "same_entry (pview E' st k) (pview E' s k)" if n: "hm_get (before_entries att') k = None" "hm_get ev k = None" for k
      proof -
        have "k \<notin> set keys" using n(1) g(1) a(1) by (auto split: if_splits)
        then have "pview E' st k = pview E' st5 k" using pv n(2) pview_later [of E E'] s by simp
        then show ?thesis using s by (simp add: agrees_def)
      qed
    qed (use s a g in auto)
    moreover have "store_wf (restore_entries E' (before_entries att') ev s)"
      using restore_entries_view(2) [of s "before_entries att'" ev E'] s a g by simp
    ultimately show "store_wf (restore_all E' [into_rollback att'] s) \<and> agrees E' st (restore_all E' [into_rollback att'] s)"
      using a(2) by (simp add: restore_all_def rollback_restore_def into_rollback_def)
  qed
  with some rep w(1) lim show ?thesis by (auto simp: prepared_ok_def)
qed

text \<open>
  The preparation of a tracked operation: it never panics, the effects never vanish after
  admission, and every outcome keeps the contract.
\<close>

lemma prepare_mutation_ok:
  assumes wf: "store_wf st"
  shows "\<exists>p st'. prepare_mutation E keys run st = Some (p, st') \<and> p \<noteq> Vanished \<and>
    (case p of Mutated r batch rb \<Rightarrow> prepared_ok E [batch] [rb] st st' | _ \<Rightarrow> prepared_ok E [] [] st st')"
proof -
  obtain att st1 where begun: "begin_mutation E keys st = (att, st1)" by (cases "begin_mutation E keys st")
  obtain r st2 where ran: "run st1 = (r, st2)" by (cases "run st1")
  obtain d st3 where der: "derive_committed_batch E keys (before_entries att) [] st2 = (d, st3)"
    by (cases "derive_committed_batch E keys (before_entries att) [] st2")
  note c = captured_run [OF wf begun ran der]
  show ?thesis
  proof (cases "d = None")
    case True
    with untouched_ok [OF wf begun ran] der begun ran show ?thesis by (simp add: prepare_mutation_def)
  next
    case False
    from admit_content_spec [OF c(1), where att = att and E = E and prot = keys] c(6) obtain q att' st4 where
      adm: "admit E keys att st3 = Some (q, att', st4)" and post: "admit_content E keys att st3 q att' st4" by auto
    show ?thesis
    proof (cases q)
      case (Inl err)
      note undo = refused_ok [OF wf begun ran der post [unfolded Inl]]
      have "prepared_ok E [] [] st (rollback E att' st4)"
        by (rule prepared_ok_idle [OF undo(2,3) agrees_pview [OF undo(1) [symmetric]]])
      with Inl adm False begun ran der show ?thesis by (auto simp: prepare_mutation_def)
    next
      case (Inr u)
      obtain b st5 where b: "derive_committed_batch E keys (before_entries att') (evicted_entries att') st4 = (b, st5)"
        by (cases "derive_committed_batch E keys (before_entries att') (evicted_entries att') st4")
      from admitted_ok [OF wf begun ran der False post [unfolded Inr] b] b Inr adm False begun ran der show ?thesis
        by (auto simp: prepare_mutation_def)
    qed
  qed
qed

end

section \<open>Commands, and values of the binary protocol\<close>

lemma confined_server: "confined E (set (affected_keys args)) (\<lambda>out. mutation out = Tentative) (server_execute_command S E args)"
proof (cases "args \<noteq> [] \<and> hd args = ''INFO''")
  case True
  have "silent E K (info_response S E)" for K
  proof (rule confined_same)
    fix st
    let ?st1 = "snd (store_stats E st)"
    have st': "snd (info_response S E st) = snd (used_memory_bytes E ?st1)"
      by (simp add: info_response_def Let_def case_prod_beta)
    show "limits (snd (info_response S E st)) = limits st" unfolding st' by (simp add: store_stats_def used_memory_bytes_def)
    assume wf: "store_wf st"
    note a = stats_content [OF wf, of E]
    note b = memory_content [OF a(2), of E]
    show "store_wf (snd (info_response S E st))" unfolding st' by (rule b)
    show "pview E (snd (info_response S E st)) = pview E st" unfolding st' by (rule pview_view) (simp add: a b)
  qed
  from confined_apfst [OF this] True show ?thesis by (simp add: server_execute_command_def [abs_def])
next
  case False
  then have "server_execute_command S E args = execute_command E args" by (auto simp: server_execute_command_def fun_eq_iff)
  then show ?thesis using confined_execute [of E args] by simp
qed

interpretation command: tracked_mutation E "affected_keys args" "server_execute_command S E args" for E args S
  using confined_server [of E args S] by unfold_locales (auto simp: confined_def)

interpretation obp_set: tracked_mutation E "[key]" "on_engine (engine_set E key (Blob v) None)" for E key v
proof -
  have "confined E (set [key]) (\<lambda>_. True) (on_engine (engine_set E key (Blob v) None))"
    by (rule confined_key [where h = "\<lambda>found. found" and g = "\<lambda>_. Some ((fresh_entry E (Blob v))\<lparr>expires_at := None\<rparr>)"])
       (use engine_set_change [where E = E and key = key and v = "Blob v" and expires = None] engine_set_fst in \<open>simp_all add: expired_at_def\<close>)
  then show "tracked_mutation E [key] (on_engine (engine_set E key (Blob v) None))"
    by unfold_locales (auto simp: confined_def)
qed


lemma prepare_operation_ok:
  assumes "store_wf st"
  obtains p st' where "prepare_command_operation S E args st = Some (Inr p, st')"
    "prepared_batch p = None" "prepared_ok E [] [] st st'" "mutation (prepared_outcome p) = NoChange"
  | p st' batch rb where "prepare_command_operation S E args st = Some (Inr p, st')"
    "prepared_batch p = Some batch" "prepared_rollback p = Some rb" "prepared_ok E [batch] [rb] st st'"
proof -
  from command.prepare_mutation_ok [OF assms, of E args S] obtain q st' where
    run: "prepare_mutation E (affected_keys args) (server_execute_command S E args) st = Some (q, st')" and "q \<noteq> Vanished"
    and post: "case q of Mutated r batch rb \<Rightarrow> prepared_ok E [batch] [rb] st st' | _ \<Rightarrow> prepared_ok E [] [] st st'" by blast
  then show thesis by (cases q) (auto simp: prepare_command_operation_def run intro: that)
qed

definition commit_ok :: "env \<Rightarrow> prepared_commit \<Rightarrow> store \<Rightarrow> store \<Rightarrow> bool" where
  "commit_ok E p st st' \<longleftrightarrow> prepared_ok E (pc_batches p) (pc_rollbacks p) st st'"

lemma commit_ok_simps [simp]:
  "commit_ok E (without_mutation r) st st' \<longleftrightarrow> prepared_ok E [] [] st st'"
  "commit_ok E (with_mutations r bs rs) st st' \<longleftrightarrow> prepared_ok E bs rs st st'"
  by (simp_all add: commit_ok_def without_mutation_def with_mutations_def)

lemma prepare_command_ok: "store_wf st \<Longrightarrow> \<exists>p st'. prepare_command S E args st = Some (Inr p, st') \<and> commit_ok E p st st'"
  by (rule prepare_operation_ok [of st S E args]) (auto simp: prepare_command_def)

lemma prepare_group_ok:
  assumes "prepared_ok E batches rollbacks st0 st" and "batches = [] \<longleftrightarrow> rollbacks = []"
  shows "\<exists>p st'. prepare_group_loop S E commands outcomes batches rollbacks st = Some (Inr p, st') \<and> commit_ok E p st0 st'"
  using assms
proof (induction commands arbitrary: outcomes batches rollbacks st)
  case (Cons args commands)
  have "store_wf st" using Cons.prems(1) by (simp add: prepared_ok_def)
  then show ?case
  proof (cases rule: prepare_operation_ok [of st S E args, case_names idle moved])
    case (idle p st')
    with prepared_ok_trans [OF Cons.prems(1) idle(3)] Cons.IH [of batches rollbacks st'] Cons.prems(2) show ?thesis by simp
  next
    case (moved p st' batch rb)
    with prepared_ok_trans [OF Cons.prems(1) moved(4)] Cons.IH [of "batches @ [batch]" "rollbacks @ [rb]" st'] show ?thesis by simp
  qed
qed auto

section \<open>Transactions\<close>

definition baseline_ok :: "env \<Rightarrow> store \<Rightarrow> (bytes, data_entry option) hmap \<Rightarrow> bytes list \<Rightarrow> bool" where
  "baseline_ok E st0 baseline changed \<longleftrightarrow> hm_wf baseline \<and> (\<forall>k. hm_get baseline k = None \<longleftrightarrow> k \<notin> set changed) \<and>
     (\<forall>k \<in> set changed. captured_entry baseline k = pview E st0 k)"

definition transaction_inv :: "env \<Rightarrow> store \<Rightarrow> (bytes, data_entry option) hmap \<Rightarrow> bytes list \<Rightarrow> store \<Rightarrow> bool" where
  "transaction_inv E st0 baseline changed st \<longleftrightarrow> store_wf st \<and> limits st = limits st0 \<and> baseline_ok E st0 baseline changed \<and>
     (\<forall>k. k \<notin> set changed \<longrightarrow> pview E st k = pview E st0 k)"

lemma note_keys_ok:
  assumes "baseline_ok E st0 baseline changed"
    and "\<forall>(k, x) \<in> set captured. k \<notin> set changed \<longrightarrow> map_option persistent_entry_from x = pview E st0 k"
    and "note_keys captured baseline changed = (baseline', changed')"
  shows "baseline_ok E st0 baseline' changed' \<and> set changed' = set changed \<union> fst ` set captured"
  using assms
proof (induction captured arbitrary: baseline changed)
  case (Cons kx captured)
  obtain k x where kx: "kx = (k, x)" by (cases kx)
  show ?case
  proof (cases "k \<in> set changed")
    case True
    with Cons.IH [OF Cons.prems(1)] Cons.prems kx show ?thesis by (auto simp: note_keys_def)
  next
    case False
    have "baseline_ok E st0 (hm_insert k x baseline) (changed @ [k])"
      using Cons.prems(1,2) False kx by (auto simp: baseline_ok_def hm_get_insert)
    from Cons.IH [OF this] Cons.prems kx False show ?thesis by (auto simp: note_keys_def)
  qed
qed (auto simp: note_keys_def)

lemma transaction_write:
  assumes inv: "transaction_inv E st0 baseline changed st" and begun: "begin_mutation E (affected_keys args) st = (att, st1)"
    and noted: "note_keys (map (\<lambda>key. (key, flattened (hm_get (before_entries att) key))) (affected_keys args)) baseline changed = (baseline1, changed1)"
  shows "baseline_ok E st0 baseline1 changed1" "set changed1 = set changed \<union> set (affected_keys args)"
proof -
  have wf: "store_wf st" using inv by (simp add: transaction_inv_def)
  have "\<forall>(k, x) \<in> set (map (\<lambda>key. (key, flattened (hm_get (before_entries att) key))) (affected_keys args)).
      k \<notin> set changed \<longrightarrow> map_option persistent_entry_from x = pview E st0 k"
    using inv begin_content(1) [OF wf begun] by (auto simp: flattened_def transaction_inv_def pview_def)
  from note_keys_ok [OF _ this noted] inv
  show "baseline_ok E st0 baseline1 changed1" "set changed1 = set changed \<union> set (affected_keys args)"
    by (auto simp: transaction_inv_def image_image)
qed

lemma transaction_evict:
  assumes inv: "transaction_inv E st0 baseline changed st" and keys: "set keys \<subseteq> set changed"
    and post: "admit_content E keys att st (Inr u) att' st'" and "evicted_entries att = []"
    and noted: "note_keys (map (\<lambda>(key, entry). (key, Some entry)) (evicted_entries att')) baseline changed = (baseline', changed')"
  shows "transaction_inv E st0 baseline' changed' st'"
proof -
  obtain ev where ev: "evicted_entries att' = ev" "\<And>k x. (k, x) \<in> set ev \<Longrightarrow> view E st k = Some x"
    "\<And>k. view E st' k = (if k \<in> fst ` set ev then None else view E st k)" "store_wf st'" "limits st' = limits st"
    using post assms(4) by (auto simp: admit_content_def)
  have "\<forall>(k, x) \<in> set (map (\<lambda>(key, entry). (key, Some entry)) ev).
      k \<notin> set changed \<longrightarrow> map_option persistent_entry_from x = pview E st0 k"
  proof clarsimp
    fix k x assume "(k, x) \<in> set ev" "k \<notin> set changed"
    then show "Some (persistent_entry_from x) = pview E st0 k"
      using ev(2) [of k x] inv by (metis pview_def option.simps(9) transaction_inv_def)
  qed
  from note_keys_ok [OF _ this noted [unfolded ev(1)]] inv
  have "baseline_ok E st0 baseline' changed'" "set changed' = set changed \<union> fst ` set ev"
    by (auto simp: transaction_inv_def image_image case_prod_beta)
  with inv ev show ?thesis by (auto simp: transaction_inv_def pview_def)
qed

lemma transaction_step:
  assumes inv: "transaction_inv E st0 baseline changed st" and writes: "is_write_command (arg_at 0 args)"
  shows "\<exists>baseline' changed' results' st'. transaction_inv E st0 baseline' changed' st' \<and>
    transaction_loop S E (args # commands) baseline changed results st =
      transaction_loop S E commands baseline' changed' results' st'"
proof -
  let ?keys = "affected_keys args"
  have wf: "store_wf st" and lim: "limits st = limits st0" using inv by (simp_all add: transaction_inv_def)
  obtain att st1 where begun: "begin_mutation E ?keys st = (att, st1)" by (cases "begin_mutation E ?keys st")
  obtain bl1 ch1 where noted: "note_keys (map (\<lambda>key. (key, flattened (hm_get (before_entries att) key))) ?keys) baseline changed = (bl1, ch1)"
    by (cases "note_keys (map (\<lambda>key. (key, flattened (hm_get (before_entries att) key))) ?keys) baseline changed")
  obtain out st2 where ran: "server_execute_command S E args st1 = (out, st2)" by (cases "server_execute_command S E args st1")
  obtain d st3 where der: "derive_committed_batch E ?keys (before_entries att) [] st2 = (d, st3)"
    by (cases "derive_committed_batch E ?keys (before_entries att) [] st2")
  note c = command.captured_run [OF wf begun ran der] and n = transaction_write [OF inv begun noted]
  have inv3: "transaction_inv E st0 bl1 ch1 st3" using c(1,2,4) n inv lim by (auto simp: transaction_inv_def)
  note step = begun noted ran der writes
  show ?thesis
  proof (cases "d = None")
    case True
    then have "transaction_loop S E (args # commands) baseline changed results st = transaction_loop S E commands bl1 ch1 (results @ [response out]) st3"
      using step by simp
    with inv3 show ?thesis by blast
  next
    case False
    from admit_content_spec [OF c(1), where att = att and E = E and prot = "?keys"] c(6) obtain q att' st4 where
      adm: "admit E ?keys att st3 = Some (q, att', st4)" and post: "admit_content E ?keys att st3 q att' st4" by auto
    show ?thesis
    proof (cases q)
      case (Inl err)
      note undo = command.refused_ok [OF wf begun ran der post [unfolded Inl]]
      have "transaction_inv E st0 bl1 ch1 (rollback E att' st4)" using undo n inv lim by (auto simp: transaction_inv_def)
      moreover have "transaction_loop S E (args # commands) baseline changed results st =
          transaction_loop S E commands bl1 ch1 (results @ [Error (admission_error_message err)]) (rollback E att' st4)"
        using False Inl adm step by auto
      ultimately show ?thesis by blast
    next
      case (Inr u)
      obtain bl2 ch2 where more: "note_keys (map (\<lambda>(key, entry). (key, Some entry)) (evicted_entries att')) bl1 ch1 = (bl2, ch2)"
        by (cases "note_keys (map (\<lambda>(key, entry). (key, Some entry)) (evicted_entries att')) bl1 ch1")
      have "transaction_inv E st0 bl2 ch2 st4"
        by (rule transaction_evict [OF inv3 _ post [unfolded Inr] begin_content(3) [OF wf begun] more]) (simp add: n)
      moreover have "transaction_loop S E (args # commands) baseline changed results st = transaction_loop S E commands bl2 ch2 (results @ [response out]) st4"
        using False Inr adm more step by auto
      ultimately show ?thesis by blast
    qed
  qed
qed

lemma transaction_loop_ok:
  assumes "transaction_inv E st0 baseline changed st"
  shows "\<exists>baseline' changed' results' st'. transaction_loop S E commands baseline changed results st =
      Some ((baseline', changed', results'), st') \<and> transaction_inv E st0 baseline' changed' st'"
  using assms
proof (induction commands arbitrary: baseline changed results st)
  case (Cons args commands)
  show ?case
  proof (cases "is_write_command (arg_at 0 args)")
    case True
    from transaction_step [OF Cons.prems True, of S commands results] obtain bl ch rs st' where
      inv: "transaction_inv E st0 bl ch st'"
      and step: "transaction_loop S E (args # commands) baseline changed results st = transaction_loop S E commands bl ch rs st'"
      by metis
    from Cons.IH [OF inv, of rs] show ?thesis unfolding step .
  next
    case False
    let ?st = "snd (server_execute_command S E args st)"
    have "transaction_inv E st0 baseline changed ?st"
      using Cons.prems command.run_wf [of st S E args] command.run_limits [of S E args st]
        command.run_elsewhere [of st _ args E S] affected_only_writes [OF False]
      by (simp add: transaction_inv_def)
    from Cons.IH [OF this, of "results @ [response (fst (server_execute_command S E args st))]"] False show ?thesis
      by (simp add: case_prod_beta)
  qed
qed auto


lemma baseline_rolls_back:
  assumes wf: "store_wf st" and "baseline_ok E st0 baseline changed" and "\<And>k. k \<notin> set changed \<Longrightarrow> pview E st k = pview E st0 k"
  shows "rolls_back E [from_baseline baseline] st0 st"
  unfolding rolls_back_def
proof (intro allI impI)
  fix E' s assume s: "now E \<le> now E' \<and> store_wf s \<and> agrees E' st s"
  have hw: "hm_wf baseline" using assms(2) by (simp add: baseline_ok_def)
  have "agrees E' st0 (restore_entries E' baseline [] s)"
  proof (rule restore_agrees [where E = E])
    show "map_option persistent_entry_from v = pview E st0 k" if v: "hm_get baseline k = Some v" for k v
    proof -
      have "k \<in> set changed" using v assms(2) by (metis baseline_ok_def option.distinct(1))
      then show ?thesis using v assms(2) by (auto simp: baseline_ok_def)
    qed
    show "same_entry (pview E' st0 k) (pview E' s k)" if "hm_get baseline k = None" for k
    proof -
      have "pview E st k = pview E st0 k" using that assms(2,3) by (simp add: baseline_ok_def)
      then have "pview E' st0 k = pview E' st k" using pview_later [of E E'] s by simp
      then show ?thesis using s by (simp add: agrees_def)
    qed
  qed (use s hw in auto)
  with restore_entries_view(2) [of s baseline "[]" E'] s hw
  show "store_wf (restore_all E' [from_baseline baseline] s) \<and> agrees E' st0 (restore_all E' [from_baseline baseline] s)"
    by (simp add: restore_all_def rollback_restore_def from_baseline_def)
qed

lemma prepare_transaction_ok:
  assumes wf: "store_wf st"
  shows "\<exists>p st'. prepare_transaction S E commands st = Some (p, st') \<and> commit_ok E p st st'"
proof -
  have "transaction_inv E st [] [] st" using wf by (simp add: transaction_inv_def baseline_ok_def)
  from transaction_loop_ok [OF this, of S commands "[]"] obtain baseline changed results st1 where
    loop: "transaction_loop S E commands [] [] [] st = Some ((baseline, changed, results), st1)"
    and inv: "transaction_inv E st baseline changed st1" by blast
  obtain b st2 where der: "derive_committed_batch E (sort changed) baseline [] st1 = (b, st2)"
    by (cases "derive_committed_batch E (sort changed) baseline [] st1")
  have i: "store_wf st1" "limits st1 = limits st" "baseline_ok E st baseline changed"
    "\<And>k. k \<notin> set changed \<Longrightarrow> pview E st1 k = pview E st k" using inv by (auto simp: transaction_inv_def)
  note w = derive_wf [OF i(1) der]
  have lim: "limits st2 = limits st" using derive_limits [of E "sort changed" baseline "[]" st1] der i(2) by simp
  have rep: "reproduces E (case b of None \<Rightarrow> [] | Some batch \<Rightarrow> [batch]) st st2"
    by (rule derived_reproduces [OF i(1) der]) (use i in \<open>auto simp: baseline_ok_def\<close>)
  show ?thesis
  proof (cases b)
    case None
    have "agrees E' st st2" if "now E \<le> now E'" for E'
      using rep that wf None by (simp add: reproduces_def replay_def)
    then have "prepared_ok E [] [] st st2" by (intro prepared_ok_idle w lim) auto
    with None der loop show ?thesis by (simp add: prepare_transaction_def)
  next
    case (Some batch)
    have "rolls_back E [from_baseline baseline] st st2"
      by (rule baseline_rolls_back [OF w(1) i(3)]) (use i(4) w(2) in \<open>simp add: pview_def\<close>)
    with Some rep w lim have "prepared_ok E [batch] [from_baseline baseline] st st2" by (simp add: prepared_ok_def)
    with Some der loop show ?thesis by (simp add: prepare_transaction_def)
  qed
qed

section \<open>The binary protocol\<close>

lemma prepare_obp_set_ok:
  assumes "store_wf st"
  shows "\<exists>p st'. prepare_obp_set E key v st = Some (Inr p, st') \<and> commit_ok E p st st'"
proof -
  from obp_set.prepare_mutation_ok [OF assms, of E key v] obtain q st' where
    run: "prepare_mutation E [key] (on_engine (engine_set E key (Blob v) None)) st = Some (q, st')" and "q \<noteq> Vanished"
    and post: "case q of Mutated r batch rb \<Rightarrow> prepared_ok E [batch] [rb] st st' | _ \<Rightarrow> prepared_ok E [] [] st st'" by blast
  then show ?thesis by (cases q) (auto simp: prepare_obp_set_def run)
qed

lemma prepare_obp_delete_ok:
  assumes wf: "store_wf st" and run: "prepare_obp_delete E key st = (p, st')"
  shows "commit_ok E p st st'"
proof -
  obtain att st1 where begun: "begin_mutation E [key] st = (att, st1)" by (cases "begin_mutation E [key] st")
  note b = begin_content [OF wf begun]
  let ?st2 = "snd (store_delete E key st1)"
  have v2: "view E ?st2 = (view E st)(key := None)" and wf2: "store_wf ?st2" and lim: "limits ?st2 = limits st"
    using delete_view [OF b(5), of E key] b(4,6) by (simp_all add: store_delete_def)
  have del: "fst (store_delete E key st1) \<longleftrightarrow> view E st key \<noteq> None"
    using b(4) by (simp add: store_delete_def engine_delete_fst view_def fun_eq_iff)
  have pv: "pview E ?st2 = (pview E st)(key := None)" by (simp add: v2 pview_def fun_eq_iff)
  show ?thesis
  proof (cases "fst (store_delete E key st1)")
    case False
    then have "pview E ?st2 = pview E st" using pv del by (auto simp: pview_def fun_eq_iff)
    with prepared_ok_idle [OF wf2 lim] agrees_pview [of E st ?st2] run begun False show ?thesis
      by (auto simp: prepare_obp_delete_def case_prod_beta Let_def)
  next
    case True
    have "reproduces E [\<lparr>effects = [DeleteE key]\<rparr>] st ?st2"
      unfolding reproduces_def
    proof (intro allI impI)
      fix E' rep assume a: "now E \<le> now E' \<and> store_wf rep \<and> agrees E' rep st"
      then show "agrees E' (replay E' [\<lparr>effects = [DeleteE key]\<rparr>] rep) ?st2"
        using pv pview_later [of E E' ?st2] pview_later [of E E' st]
        by (auto simp: agrees_def replay_def apply_batch_view palive_def same_entry_def)
    qed
    moreover have "rolls_back E [from_baseline (before_entries att)] st ?st2"
    proof (rule baseline_rolls_back [OF wf2, of _ _ _ "[key]"])
      show "baseline_ok E st (before_entries att) [key]" using b(1,2) by (auto simp: baseline_ok_def pview_def)
    qed (simp add: pv)
    ultimately have "prepared_ok E [\<lparr>effects = [DeleteE key]\<rparr>] [into_rollback att] st ?st2"
      using wf2 lim b(3) by (simp add: prepared_ok_def into_rollback_def from_baseline_def)
    with run begun True show ?thesis by (auto simp: prepare_obp_delete_def case_prod_beta Let_def)
  qed
qed

lemma prepare_request_ok:
  assumes "store_wf st"
  shows "\<exists>p st'. prepare_request S E operation st = Some (Inr p, st') \<and> commit_ok E p st st'"
proof (cases operation)
  case (CommandGroup commands)
  with prepare_group_ok [OF prepared_ok_refl [OF assms], of S E commands "[]"] show ?thesis
    by (simp add: prepare_request_def prepare_command_group_def)
next
  case (Transaction commands)
  with prepare_transaction_ok [OF assms, of S E commands] show ?thesis by (auto simp: prepare_request_def)
next
  case (ObpDelete key)
  obtain p st' where run: "prepare_obp_delete E key st = (p, st')" by (cases "prepare_obp_delete E key st")
  with ObpDelete prepare_obp_delete_ok [OF assms run] show ?thesis by (simp add: prepare_request_def)
qed (use prepare_command_ok [OF assms] prepare_obp_set_ok [OF assms] in \<open>auto simp: prepare_request_def\<close>)


section \<open>Properties\<close>


definition sample_status :: server_status where
  "sample_status = \<lparr>start_time = 0, is_replica = False, active_connections = 1, total_commands = 0, cache_hits = 3, cache_misses = 1\<rparr>"

lemma store_new_wf: "store_wf store_new"
  using engine_new_ok [of sample_env] by (simp add: store_wf_def store_new_def with_maxmemory_def engine_ok_def)


end
