(* ===== verification/Binlog_File.thy ===== *)
theory Binlog_File
  imports Commit_Laws "HOL-Library.Sublist"
begin

text \<open>
  The binlog on disk, from \<open>src/persistence/runtime.rs\<close>: the managed active file with its sealed
  generations, the append of a group of records with rollback of a torn tail, and the sealing of
  the active generation.

  Every call of the operating system consumes one choice of a finite list, which may make it fail
  with or without its effect, be interrupted, or write only part of a buffer; when the list is
  used up, calls succeed. The properties hold for every list of choices. A failed write has
  written nothing, as \<open>std::io::Write\<close> documents.
\<close>

section \<open>Files\<close>

datatype io_choice = Proceed | Interrupt | Short nat | Fail bytes | FailLate bytes

datatype file_error = Interrupted | FileError bytes

record managed_binlog =
  handle_open :: bool
  active_file :: "bytes option"
  position :: nat
  segments :: "(u64 \<times> bytes) list"
  choices :: "io_choice list"

abbreviation active_bytes :: "managed_binlog \<Rightarrow> bytes" where
  "active_bytes f \<equiv> case active_file f of None \<Rightarrow> [] | Some bs \<Rightarrow> bs"

definition next_choice :: "managed_binlog \<Rightarrow> io_choice \<times> managed_binlog" where
  "next_choice f = (case choices f of [] \<Rightarrow> (Proceed, f) | c # cs \<Rightarrow> (c, f\<lparr>choices := cs\<rparr>))"

text \<open>A call without data: \<open>Some e\<close> if it reports an error, and whether it took effect.\<close>

fun call_result :: "io_choice \<Rightarrow> bytes option \<times> bool" where
  "call_result (Fail e) = (Some e, False)"
| "call_result (FailLate e) = (Some e, True)"
| "call_result _ = (None, True)"

definition os_call :: "(managed_binlog \<Rightarrow> managed_binlog) \<Rightarrow> managed_binlog \<Rightarrow> (bytes + unit) \<times> managed_binlog" where
  "os_call eff f = (case next_choice f of (c, f1) \<Rightarrow>
     (case call_result c of (err, done_) \<Rightarrow>
        (case err of None \<Rightarrow> Inr () | Some e \<Rightarrow> Inl e, if done_ then eff f1 else f1)))"

text \<open>A sequence of steps that stops at the first error, as with the question mark operator.\<close>

definition and_next :: "('e + 'a) \<times> 's \<Rightarrow> ('a \<Rightarrow> 's \<Rightarrow> ('e + 'b) \<times> 's) \<Rightarrow> ('e + 'b) \<times> 's" where
  "and_next r g = (case r of (Inl e, s) \<Rightarrow> (Inl e, s) | (Inr a, s) \<Rightarrow> g a s)"

definition handle_unavailable :: bytes where
  "handle_unavailable = ''Active binlog handle is unavailable after rotation failure''"

definition on_handle :: "(managed_binlog \<Rightarrow> (bytes + 'a) \<times> managed_binlog) \<Rightarrow> managed_binlog \<Rightarrow> (bytes + 'a) \<times> managed_binlog" where
  "on_handle op f = (if handle_open f then op f else (Inl handle_unavailable, f))"

definition seek_end :: "managed_binlog \<Rightarrow> (bytes + nat) \<times> managed_binlog" where
  "seek_end = on_handle (\<lambda>f. apfst (map_sum id (\<lambda>_. length (active_bytes f)))
     (os_call (\<lambda>f. f\<lparr>position := length (active_bytes f)\<rparr>) f))"

definition seek_start :: "nat \<Rightarrow> managed_binlog \<Rightarrow> (bytes + unit) \<times> managed_binlog" where
  "seek_start n = on_handle (os_call (\<lambda>f. f\<lparr>position := n\<rparr>))"

definition file_flush :: "managed_binlog \<Rightarrow> (bytes + unit) \<times> managed_binlog" where
  "file_flush = on_handle (os_call (\<lambda>f. f))"

definition sync_data :: "managed_binlog \<Rightarrow> (bytes + unit) \<times> managed_binlog" where
  "sync_data = on_handle (os_call (\<lambda>f. f))"

definition sync_all :: "managed_binlog \<Rightarrow> (bytes + unit) \<times> managed_binlog" where
  "sync_all = on_handle (os_call (\<lambda>f. f))"

definition sync_parent_directory :: "managed_binlog \<Rightarrow> (bytes + unit) \<times> managed_binlog" where
  "sync_parent_directory = os_call (\<lambda>f. f)"

definition resized :: "nat \<Rightarrow> bytes \<Rightarrow> bytes" where
  "resized n bs = take n bs @ replicate (n - length bs) CHR 0x00"

definition set_len :: "nat \<Rightarrow> managed_binlog \<Rightarrow> (bytes + unit) \<times> managed_binlog" where
  "set_len n = on_handle (os_call (\<lambda>f. f\<lparr>active_file := Some (resized n (active_bytes f))\<rparr>))"

text \<open>Writing at the position; a gap after the end of the file reads as zeros.\<close>

definition overwrite :: "nat \<Rightarrow> bytes \<Rightarrow> bytes \<Rightarrow> bytes" where
  "overwrite at buf bs = resized at bs @ buf @ drop (at + length buf) bs"

definition write_some :: "nat \<Rightarrow> bytes \<Rightarrow> managed_binlog \<Rightarrow> (file_error + nat) \<times> managed_binlog" where
  "write_some n buf f = (let written = min n (length buf) in
     (Inr written, f\<lparr>active_file := Some (overwrite (position f) (take written buf) (active_bytes f)),
        position := position f + written\<rparr>))"

definition file_write :: "bytes \<Rightarrow> managed_binlog \<Rightarrow> (file_error + nat) \<times> managed_binlog" where
  "file_write buf f = (if \<not> handle_open f then (Inl (FileError handle_unavailable), f)
     else (case next_choice f of (c, f1) \<Rightarrow> (case c of
         Proceed \<Rightarrow> write_some (length buf) buf f1
       | Short n \<Rightarrow> write_some n buf f1
       | Interrupt \<Rightarrow> (Inl Interrupted, f1)
       | Fail e \<Rightarrow> (Inl (FileError e), f1)
       | FailLate e \<Rightarrow> (Inl (FileError e), f1))))"

section \<open>Appending a tail\<close>

lemma next_choice_less: "next_choice f = (c, f1) \<Longrightarrow> c \<noteq> Proceed \<Longrightarrow> length (choices f1) < length (choices f)"
  by (auto simp: next_choice_def split: list.splits)

lemma next_choice_le: "next_choice f = (c, f1) \<Longrightarrow> length (choices f1) \<le> length (choices f)"
  by (auto simp: next_choice_def split: list.splits)

lemma file_write_decreases:
  assumes "file_write buf f = (r, f1)"
  shows "r = Inl Interrupted \<Longrightarrow> length (choices f1) < length (choices f)"
    and "r = Inr n \<Longrightarrow> length (choices f1) \<le> length (choices f)"
  using assms next_choice_less [of f] next_choice_le [of f]
  by (auto simp: file_write_def write_some_def Let_def split: if_splits prod.splits io_choice.splits)

function write_all_tracking_modification :: "bytes \<Rightarrow> bool \<Rightarrow> managed_binlog \<Rightarrow> (bytes + unit) \<times> bool \<times> managed_binlog" where
  "write_all_tracking_modification buffer modified f =
     (if buffer = [] then (Inr (), modified, f)
      else (case file_write buffer f of
          (Inr written, f1) \<Rightarrow>
            if written = 0 then (Inl ''failed to write the complete binlog record'', modified, f1)
            else write_all_tracking_modification (drop written buffer) True f1
        | (Inl Interrupted, f1) \<Rightarrow> write_all_tracking_modification buffer modified f1
        | (Inl (FileError e), f1) \<Rightarrow> (Inl e, modified, f1)))"
  by pat_completeness auto
termination
  by (relation "measures [\<lambda>(buffer, _, f). length buffer, \<lambda>(buffer, _, f). length (choices f)]")
     (auto dest: file_write_decreases [OF sym])

declare write_all_tracking_modification.simps [simp del]

datatype storage_disposition = Rejected | Indeterminate

record storage_failure =
  disposition :: storage_disposition
  failure_message :: bytes

definition rejected :: "bytes \<Rightarrow> storage_failure" where
  "rejected msg = \<lparr>disposition = Rejected, failure_message = msg\<rparr>"

definition storage_indeterminate :: "bytes \<Rightarrow> storage_failure" where
  "storage_indeterminate msg = \<lparr>disposition = Indeterminate, failure_message = msg\<rparr>"

definition into_persistence_error :: "storage_failure \<Rightarrow> persistence_error" where
  "into_persistence_error e = \<lparr>message = failure_message e, upstream_unavailable = False,
     indeterminate = (disposition e = Indeterminate)\<rparr>"

text \<open>
  \<open>remove_all_binlog_segments\<close> lists the catalog, removes the segments in order and synchronizes
  the directory if it removed any.
\<close>

fun remove_segments :: "nat \<Rightarrow> bool \<Rightarrow> managed_binlog \<Rightarrow> (bytes + unit) \<times> managed_binlog" where
  "remove_segments 0 removed f = (if removed then sync_parent_directory f else (Inr (), f))"
| "remove_segments (Suc n) removed f =
     and_next (os_call (\<lambda>f. f\<lparr>segments := tl (segments f)\<rparr>) f) (\<lambda>_. remove_segments n True)"

definition remove_all_binlog_segments :: "managed_binlog \<Rightarrow> (bytes + unit) \<times> managed_binlog" where
  "remove_all_binlog_segments f = and_next (os_call (\<lambda>f. f) f) (\<lambda>_ f. remove_segments (length (segments f)) False f)"

definition truncate :: "nat \<Rightarrow> managed_binlog \<Rightarrow> (bytes + unit) \<times> managed_binlog" where
  "truncate len f = and_next (set_len len f) (\<lambda>_ f. and_next (seek_start len f) (\<lambda>_ f.
     if len = 0 then remove_all_binlog_segments f else (Inr (), f)))"

definition with_context :: "bytes \<Rightarrow> (bytes + 'a) \<times> 's \<Rightarrow> (bytes + 'a) \<times> 's" where
  "with_context text = apfst (map_sum (\<lambda>e. text @ e) id)"

definition rollback_binlog_tail :: "nat \<Rightarrow> bytes \<Rightarrow> managed_binlog \<Rightarrow> storage_failure \<times> managed_binlog" where
  "rollback_binlog_tail previous_length original_error f =
     (case and_next (with_context ''tail truncation failed: '' (truncate previous_length f)) (\<lambda>_ f.
             and_next (with_context ''tail seek failed: '' (seek_start previous_length f)) (\<lambda>_ f.
             and_next (with_context ''rollback flush failed: '' (file_flush f)) (\<lambda>_ f.
             with_context ''rollback sync failed: '' (sync_all f)))) of
        (Inr _, f1) \<Rightarrow> (rejected (''Binlog append was durably rolled back after I/O failure: '' @ original_error), f1)
      | (Inl rollback_error, f1) \<Rightarrow> (storage_indeterminate (''Binlog append failed after possible modification ('' @
            original_error @ '') and durable tail rollback could not be proven ('' @ rollback_error @ '')''), f1))"

datatype fsync_policy = FsyncAlways | FsyncEverySec | FsyncNo

definition append_binlog_tail :: "bytes \<Rightarrow> fsync_policy \<Rightarrow> managed_binlog \<Rightarrow> (storage_failure + unit) \<times> managed_binlog" where
  "append_binlog_tail encoded_tail policy f = (case seek_end f of
      (Inl e, f1) \<Rightarrow> (Inl (rejected (''Binlog seek failed: '' @ e)), f1)
    | (Inr previous_length, f1) \<Rightarrow>
        (case write_all_tracking_modification encoded_tail False f1 of (written, modified, f2) \<Rightarrow>
          (case and_next (written, f2) (\<lambda>_ f. and_next (file_flush f) (\<lambda>_ f.
                  if policy = FsyncAlways then sync_data f else (Inr (), f))) of
             (Inr _, f3) \<Rightarrow> (Inr (), f3)
           | (Inl e, f3) \<Rightarrow>
               if \<not> modified then (Inl (rejected (''Binlog append failed before modifying the file: '' @ e)), f3)
               else apfst Inl (rollback_binlog_tail previous_length e f3))))"


definition append_binlog_records :: "env \<Rightarrow> (u64 \<times> bytes) list \<Rightarrow> fsync_policy \<Rightarrow> managed_binlog \<Rightarrow>
    (storage_failure + unit) \<times> managed_binlog" where
  "append_binlog_records E records policy f =
     (if records = [] then (Inl (rejected ''A binlog append group must contain at least one record''), f)
      else (case fold (\<lambda>(_, r) total. and_then total (\<lambda>t. and_then (framed_versioned_binlog_record_length (length r))
              (\<lambda>len. ok_or ''Binlog append group exceeds addressable memory'' (checked_add t len)))) records (Inr 0) of
          Inl e \<Rightarrow> (Inl (rejected (message e)), f)
        | Inr _ \<Rightarrow> (case fold (\<lambda>(sequence, r) tail. and_then tail (encode_framed_versioned_binlog_record_into E sequence r)) records (Inr []) of
              Inl e \<Rightarrow> (Inl (rejected (message e)), f)
            | Inr encoded_tail \<Rightarrow> append_binlog_tail encoded_tail policy f)))"

section \<open>What an append does to the files\<close>

text \<open>The parts of the managed binlog that survive any sequence of failing calls.\<close>

definition same_files :: "managed_binlog \<Rightarrow> managed_binlog \<Rightarrow> bool" where
  "same_files f f' \<longleftrightarrow> handle_open f' = handle_open f \<and> active_file f' = active_file f \<and> segments f' = segments f"

lemma same_files_refl [simp]: "same_files f f"
  by (simp add: same_files_def)

lemma same_files_trans: "same_files f g \<Longrightarrow> same_files g h \<Longrightarrow> same_files f h"
  by (simp add: same_files_def)

lemma next_choice_same: "next_choice f = (c, f1) \<Longrightarrow> \<exists>cs. f1 = f\<lparr>choices := cs\<rparr>"
  by (cases f) (auto simp: next_choice_def split: list.splits)

lemma os_call_cases:
  assumes "os_call eff f = (r, f')"
  obtains (ran) cs where "f' = eff (f\<lparr>choices := cs\<rparr>)"
  | (skipped) e cs where "r = Inl e" "f' = f\<lparr>choices := cs\<rparr>"
proof -
  obtain c f1 where c: "next_choice f = (c, f1)" by (cases "next_choice f")
  then obtain cs where f1: "f1 = f\<lparr>choices := cs\<rparr>" using next_choice_same by blast
  show thesis
    using assms c f1 ran [of cs] skipped [of _ cs] by (cases c) (auto simp: os_call_def)
qed

lemma idle_call: "os_call (\<lambda>f. f) f = (r, f') \<Longrightarrow> same_files f f' \<and> position f' = position f"
  by (erule os_call_cases) (simp_all add: same_files_def)

lemma idle_handle_call: "on_handle (os_call (\<lambda>f. f)) f = (r, f') \<Longrightarrow> same_files f f' \<and> position f' = position f"
  by (auto simp: on_handle_def split: if_splits dest: idle_call)

lemma map_sum_Inr: "map_sum g h x = Inr b \<longleftrightarrow> (\<exists>a. x = Inr a \<and> b = h a)"
  by (cases x) auto

lemma seek_call:
  "seek_end f = (r, f') \<Longrightarrow> same_files f f' \<and> (\<forall>n. r = Inr n \<longrightarrow> handle_open f \<and> n = length (active_bytes f) \<and> position f' = n)"
  "seek_start n f = (q, f') \<Longrightarrow> same_files f f'"
  by (auto simp: seek_end_def seek_start_def on_handle_def apfst_def map_prod_def same_files_def map_sum_Inr split: if_splits prod.splits
      elim!: os_call_cases)

lemma resized_exact [simp]: "resized (length bs) (bs @ p) = bs"
  by (simp add: resized_def)

lemma overwrite_end [simp]: "overwrite (length bs) buf bs = bs @ buf"
  by (simp add: overwrite_def resized_def)

text \<open>The active file holds \<open>old\<close> and part of \<open>tail\<close>, and is positioned at its end.\<close>

definition appending :: "bytes \<Rightarrow> bytes \<Rightarrow> managed_binlog \<Rightarrow> bool" where
  "appending old p f \<longleftrightarrow> handle_open f \<and> active_bytes f = old @ p \<and> position f = length old + length p"

lemma file_write_appends:
  assumes "file_write buf f = (r, f')" and "appending old p f"
  shows "segments f' = segments f" and "r = Inr n \<Longrightarrow> n \<le> length buf \<and> appending old (p @ take n buf) f'"
    and "r = Inl e \<Longrightarrow> appending old p f'"
proof -
  obtain c f1 where c: "next_choice f = (c, f1)" by (cases "next_choice f")
  then obtain cs where f1: "f1 = f\<lparr>choices := cs\<rparr>" using next_choice_same by blast
  have some: "segments g = segments f \<and> (\<forall>n. q = Inr n \<longrightarrow> n \<le> length buf \<and> appending old (p @ take n buf) g) \<and> (\<forall>e. q \<noteq> Inl e)"
    if "write_some k buf f1 = (q, g)" for k q g
    using that assms(2) overwrite_end [of "old @ p" "take (min k (length buf)) buf"]
    by (auto simp: write_some_def appending_def f1 Let_def)
  show "segments f' = segments f" "r = Inr n \<Longrightarrow> n \<le> length buf \<and> appending old (p @ take n buf) f'"
    "r = Inl e \<Longrightarrow> appending old p f'"
    using assms c f1 some [of _ r f'] by (cases c; auto simp: file_write_def appending_def)+
qed

lemma write_all_appends:
  assumes "write_all_tracking_modification buffer modified f = (r, modified', f')" and "appending old p f"
  shows "\<exists>q. prefix q buffer \<and> appending old (p @ q) f' \<and> segments f' = segments f \<and>
    (r = Inr () \<longrightarrow> q = buffer) \<and> modified' = (modified \<or> q \<noteq> [])"
  using assms
proof (induction buffer modified f arbitrary: p rule: write_all_tracking_modification.induct)
  case (1 buffer modified f)
  show ?case
  proof (cases "buffer = []")
    case True
    with 1(3,4) show ?thesis by (auto simp: write_all_tracking_modification.simps)
  next
    case go: False
    obtain w f1 where w: "file_write buffer f = (w, f1)" by (cases "file_write buffer f")
    note fw = file_write_appends [OF w 1(4)]
    show ?thesis
    proof (cases w)
      case (Inl e)
      note a = fw(3) [OF Inl]
      show ?thesis
      proof (cases e)
        case Interrupted
        with 1(3) go w Inl have "write_all_tracking_modification buffer modified f1 = (r, modified', f')"
          by (simp add: write_all_tracking_modification.simps [of buffer modified f])
        from 1(1) [OF go w [symmetric] Inl Interrupted this a] fw(1) show ?thesis by auto
      next
        case (FileError x)
        with 1(3) go w Inl a fw(1) show ?thesis
          by (auto simp: write_all_tracking_modification.simps [of buffer modified f] intro!: exI [of _ "[]"])
      qed
    next
      case (Inr n)
      note a = fw(2) [OF Inr]
      show ?thesis
      proof (cases "n = 0")
        case True
        with 1(3) go w Inr a fw(1) show ?thesis
          by (auto simp: write_all_tracking_modification.simps [of buffer modified f] intro!: exI [of _ "[]"])
      next
        case False
        with 1(3) go w Inr have "write_all_tracking_modification (drop n buffer) True f1 = (r, modified', f')"
          by (simp add: write_all_tracking_modification.simps [of buffer modified f])
        from 1(2) [OF go w [symmetric] Inr False this conjunct2 [OF a]] obtain q where
          q: "prefix q (drop n buffer)" "appending old ((p @ take n buffer) @ q) f'" "segments f' = segments f1"
            "r = Inr () \<longrightarrow> q = drop n buffer" "modified'" by auto
        have "prefix (take n buffer @ q) buffer" using q(1) by (metis append_take_drop_id same_prefix_prefix)
        moreover have "take n buffer @ q \<noteq> []" using False go by simp
        ultimately show ?thesis using q fw(1) by (intro exI [of _ "take n buffer @ q"]) auto
      qed
    qed
  qed
qed


lemma remove_segments_active: "remove_segments n removed f = (r, f') \<Longrightarrow> active_file f' = active_file f \<and> handle_open f' = handle_open f"
proof (induction n arbitrary: removed f)
  case 0
  then show ?case by (auto simp: sync_parent_directory_def same_files_def dest: idle_call split: if_splits)
next
  case (Suc n)
  obtain q g where call: "os_call (\<lambda>f. f\<lparr>segments := tl (segments f)\<rparr>) f = (q, g)" by (cases "os_call (\<lambda>f. f\<lparr>segments := tl (segments f)\<rparr>) f")
  then have "active_file g = active_file f \<and> handle_open g = handle_open f" by (auto elim!: os_call_cases)
  with Suc.prems call Suc.IH [of True g] show ?case by (auto simp: and_next_def split: sum.splits)
qed

lemma remove_all_active: "remove_all_binlog_segments f = (r, f') \<Longrightarrow> active_file f' = active_file f \<and> handle_open f' = handle_open f"
proof -
  assume run: "remove_all_binlog_segments f = (r, f')"
  obtain q g where call: "os_call (\<lambda>f. f) f = (q, g)" by (cases "os_call (\<lambda>f. f) f")
  with idle_call [OF this] run remove_segments_active [of "length (segments g)" False g] show ?thesis
    by (auto simp: remove_all_binlog_segments_def and_next_def same_files_def split: sum.splits)
qed

lemma set_len_appending:
  assumes "set_len (length old) f = (r, f')" and "active_bytes f = old @ p"
  shows "segments f' = segments f" and "active_bytes f' = old \<or> active_bytes f' = old @ p" and "r = Inr () \<Longrightarrow> active_bytes f' = old"
  using assms by (auto simp: set_len_def on_handle_def split: if_splits elim!: os_call_cases)

lemma and_nextE:
  assumes "and_next r g = (x, s')"
  obtains (stop) e where "r = (Inl e, s')" "x = Inl e" | (go) a s where "r = (Inr a, s)" "g a s = (x, s')"
  using assms by (cases r; cases "fst r") (auto simp: and_next_def)

lemma with_context_Pair: "with_context text q = (x, s) \<longleftrightarrow> (\<exists>y. q = (y, s) \<and> x = map_sum (\<lambda>e. text @ e) id y)"
  by (cases q) (auto simp: with_context_def)

lemma same_files_bytes: "same_files f g \<Longrightarrow> active_bytes g = active_bytes f \<and> segments g = segments f"
  by (simp add: same_files_def)

text \<open>The tail is still there or cut off; it is cut off if \<open>ok\<close>.\<close>

definition tail_cut :: "bytes \<Rightarrow> bytes \<Rightarrow> managed_binlog \<Rightarrow> bool \<Rightarrow> managed_binlog \<Rightarrow> bool" where
  "tail_cut old p f ok f' \<longleftrightarrow> (active_bytes f' = old \<or> \<not> ok \<and> active_bytes f' = old @ p) \<and> (old \<noteq> [] \<longrightarrow> segments f' = segments f)"

lemma tail_cut_same: "tail_cut old p f ok f1 \<Longrightarrow> same_files f1 f2 \<Longrightarrow> ok' \<longrightarrow> ok \<Longrightarrow> tail_cut old p f ok' f2"
  unfolding tail_cut_def using same_files_bytes [of f1 f2] by auto

lemma truncate_appending:
  assumes run: "truncate (length old) f = (r, f')" and old: "active_bytes f = old @ p"
  shows "tail_cut old p f (r = Inr ()) f'"
  using run unfolding truncate_def
proof (cases rule: and_nextE)
  case (stop e)
  from set_len_appending [OF stop(1) old] stop(2) show ?thesis by (auto simp: tail_cut_def)
next
  case (go u f1)
  then have cut: "tail_cut old p f True f1" using set_len_appending [OF go(1) old] by (simp add: tail_cut_def)
  from go(2) show ?thesis
  proof (cases rule: and_nextE)
    case (stop e)
    from tail_cut_same [OF cut seek_call(2) [OF stop(1)]] show ?thesis by simp
  next
    case (go v f2)
    note two = tail_cut_same [OF cut seek_call(2) [OF go(1)], of True]
    show ?thesis
    proof (cases "old = []")
      case True
      then have "remove_all_binlog_segments f2 = (r, f')" using go(2) by simp
      from remove_all_active [OF this] two True show ?thesis by (auto simp: tail_cut_def)
    next
      case False
      then show ?thesis using go(2) two by (auto simp: tail_cut_def)
    qed
  qed
qed

lemma rollback_appending:
  assumes run: "rollback_binlog_tail (length old) err f = (e, f')" and old: "active_bytes f = old @ p"
  shows "tail_cut old p f (disposition e = Rejected) f'"
proof -
  define steps where "steps = and_next (with_context ''tail truncation failed: '' (truncate (length old) f)) (\<lambda>_ f.
      and_next (with_context ''tail seek failed: '' (seek_start (length old) f)) (\<lambda>_ f.
      and_next (with_context ''rollback flush failed: '' (file_flush f)) (\<lambda>_ f.
      with_context ''rollback sync failed: '' (sync_all f))))"
  obtain x g where x: "steps = (x, g)" by (cases steps)
  have cut: "tail_cut old p f (x = Inr ()) g"
    using x unfolding steps_def
  proof (cases rule: and_nextE)
    case (stop e)
    then show ?thesis using truncate_appending [OF _ old] by (auto simp: with_context_Pair tail_cut_def)
  next
    case (go u f1)
    then have one: "tail_cut old p f True f1"
      using truncate_appending [OF _ old] by (fastforce simp: with_context_Pair map_sum_Inr dest: sym)
    have "same_files f1 g"
      using go(2) seek_call(2) idle_handle_call [folded file_flush_def] idle_handle_call [folded sync_all_def]
      by (fastforce elim!: and_nextE simp: with_context_Pair intro: same_files_trans)
    with one show ?thesis by (rule tail_cut_same) simp
  qed
  have "f' = g" "disposition e = Rejected \<longrightarrow> x = Inr ()"
    using run x unfolding rollback_binlog_tail_def steps_def [symmetric]
    by (auto simp: rejected_def storage_indeterminate_def split: sum.splits)
  with cut show ?thesis by (auto simp: tail_cut_def)
qed

lemma append_tail_spec:
  assumes run: "append_binlog_tail tail policy f = (r, f')"
  shows "\<exists>p. prefix p tail \<and> active_bytes f' = active_bytes f @ p"
    and "r = Inr () \<Longrightarrow> active_bytes f' = active_bytes f @ tail"
    and "r = Inl e \<Longrightarrow> disposition e = Rejected \<Longrightarrow> active_bytes f' = active_bytes f"
    and "active_bytes f \<noteq> [] \<or> r = Inr () \<Longrightarrow> segments f' = segments f"
proof -
  let ?old = "active_bytes f"
  obtain s f1 where seek: "seek_end f = (s, f1)" by (cases "seek_end f")
  note k = seek_call(1) [OF seek]
  have goal: "(\<exists>p. prefix p tail \<and> active_bytes f' = ?old @ p) \<and> (r = Inr () \<longrightarrow> active_bytes f' = ?old @ tail) \<and>
    (\<forall>e. r = Inl e \<longrightarrow> disposition e = Rejected \<longrightarrow> active_bytes f' = ?old) \<and> (?old \<noteq> [] \<or> r = Inr () \<longrightarrow> segments f' = segments f)"
  proof (cases s)
    case (Inl x)
    with run seek k show ?thesis by (auto simp: append_binlog_tail_def same_files_def)
  next
    case (Inr n)
    have start: "appending ?old [] f1" using k Inr by (auto simp: appending_def same_files_def)
    obtain w m f2 where w: "write_all_tracking_modification tail False f1 = (w, m, f2)"
      by (cases "write_all_tracking_modification tail False f1") auto
    from write_all_appends [OF w start] obtain q where
      q: "prefix q tail" "appending ?old q f2" "segments f2 = segments f1" "w = Inr () \<longrightarrow> q = tail" "m = (q \<noteq> [])" by auto
    obtain x f3 where fin: "and_next (w, f2) (\<lambda>_ f. and_next (file_flush f) (\<lambda>_ f.
        if policy = FsyncAlways then sync_data f else (Inr (), f))) = (x, f3)" by fastforce
    have same: "same_files f2 f3"
      using fin idle_handle_call [of f2, folded file_flush_def] idle_handle_call [folded sync_data_def]
      by (cases w; cases "file_flush f2"; cases "fst (file_flush f2)")
         (auto simp: and_next_def split: if_splits intro: same_files_trans)
    have f3: "active_bytes f3 = ?old @ q" "segments f3 = segments f"
      using same q(2,3) k Inr by (auto simp: appending_def same_files_def)
    show ?thesis
    proof (cases x)
      case ok: (Inr u)
      have "w = Inr ()" using fin ok by (cases w) (auto simp: and_next_def)
      with ok run seek Inr w fin f3 q k show ?thesis by (auto simp: append_binlog_tail_def)
    next
      case bad: (Inl e)
      show ?thesis
      proof (cases m)
        case False
        with bad run seek Inr w fin f3 q k show ?thesis by (auto simp: append_binlog_tail_def)
      next
        case True
        obtain e' f4 where rb: "rollback_binlog_tail (length ?old) e f3 = (e', f4)" by (cases "rollback_binlog_tail (length ?old) e f3")
        note b = rollback_appending [OF rb f3(1), unfolded tail_cut_def]
        have "r = Inl e'" "f' = f4" using bad True run seek Inr w fin rb k by (auto simp: append_binlog_tail_def)
        with b q(1) f3(2) show ?thesis by auto
      qed
    qed
  qed
  then show "\<exists>p. prefix p tail \<and> active_bytes f' = active_bytes f @ p" "r = Inr () \<Longrightarrow> active_bytes f' = active_bytes f @ tail"
    "r = Inl e \<Longrightarrow> disposition e = Rejected \<Longrightarrow> active_bytes f' = active_bytes f"
    "active_bytes f \<noteq> [] \<or> r = Inr () \<Longrightarrow> segments f' = segments f" by blast+
qed


section \<open>Sealing a generation\<close>

datatype rotation_error = Unchanged bytes | RotationIndeterminate bytes

definition rotation :: "(bytes \<Rightarrow> rotation_error) \<Rightarrow> (bytes + 'a) \<times> 's \<Rightarrow> (rotation_error + 'a) \<times> 's" where
  "rotation wrap = apfst (map_sum wrap id)"

definition reopen_active :: "managed_binlog \<Rightarrow> (bytes + unit) \<times> managed_binlog" where
  "reopen_active f = and_next (if active_file f = None then (Inl ''No such file or directory'', f) else os_call (\<lambda>f. f) f) (\<lambda>_ f.
     and_next (os_call (\<lambda>f. f\<lparr>position := length (active_bytes f)\<rparr>) f) (\<lambda>_ f. (Inr (), f\<lparr>handle_open := True\<rparr>)))"

definition rename_to_segment :: "u64 \<Rightarrow> managed_binlog \<Rightarrow> (bytes + unit) \<times> managed_binlog" where
  "rename_to_segment end_sequence = os_call (\<lambda>f. f\<lparr>active_file := None, segments := segments f @ [(end_sequence, active_bytes f)]\<rparr>)"

definition rename_from_segment :: "managed_binlog \<Rightarrow> (bytes + unit) \<times> managed_binlog" where
  "rename_from_segment = os_call (\<lambda>f. f\<lparr>active_file := Some (snd (last (segments f))), segments := butlast (segments f)\<rparr>)"

definition restore_segment_after_failed_seal :: "bytes \<Rightarrow> managed_binlog \<Rightarrow> (rotation_error + nat) \<times> managed_binlog" where
  "restore_segment_after_failed_seal original_error f =
     (if active_file f \<noteq> None
      then (Inl (RotationIndeterminate (''Binlog generation sealing failed ('' @ original_error @ '') after a new active path became visible'')), f)
      else (case and_next (rename_from_segment f) (\<lambda>_ f. and_next (sync_parent_directory f) (\<lambda>_. reopen_active)) of
          (Inr _, f1) \<Rightarrow> (Inl (Unchanged original_error), f1)
        | (Inl restoration_error, f1) \<Rightarrow> (Inl (RotationIndeterminate (''Binlog generation sealing failed ('' @ original_error @
            '') and the original active file could not be restored ('' @ restoration_error @ '')'')), f1)))"

definition create_active :: "managed_binlog \<Rightarrow> (bytes + unit) \<times> managed_binlog" where
  "create_active f = (if active_file f \<noteq> None then (Inl ''File exists'', f) else os_call (\<lambda>f. f\<lparr>active_file := Some [], position := 0\<rparr>) f)"

definition install_successor :: "nat \<Rightarrow> managed_binlog \<Rightarrow> (rotation_error + nat) \<times> managed_binlog" where
  "install_successor active_length f = (case sync_parent_directory f of
      (Inl e, f1) \<Rightarrow> restore_segment_after_failed_seal e f1
    | (Inr _, f1) \<Rightarrow> (case create_active f1 of
          (Inl e, f2) \<Rightarrow> restore_segment_after_failed_seal e f2
        | (Inr _, f2) \<Rightarrow> (case os_call (\<lambda>f. f) f2 of
              (Inl e, f3) \<Rightarrow> (Inl (RotationIndeterminate e), f3\<lparr>handle_open := True\<rparr>)
            | (Inr _, f3) \<Rightarrow> (case sync_parent_directory f3 of
                  (Inl e, f4) \<Rightarrow> (Inl (RotationIndeterminate e), f4\<lparr>handle_open := True\<rparr>)
                | (Inr _, f4) \<Rightarrow> and_next (rotation RotationIndeterminate (os_call (\<lambda>f. f\<lparr>position := length (active_bytes f)\<rparr>) f4))
                    (\<lambda>_ f5. (Inr active_length, f5\<lparr>handle_open := True\<rparr>))))))"

definition seal_active :: "u64 \<Rightarrow> managed_binlog \<Rightarrow> (rotation_error + nat) \<times> managed_binlog" where
  "seal_active end_sequence f =
     (if \<not> handle_open f then (Inl (RotationIndeterminate handle_unavailable), f)
      else and_next (rotation Unchanged (os_call (\<lambda>f. f) f)) (\<lambda>_ f.
        let active_length = length (active_bytes f) in
        if active_length = 0 then (Inr 0, f)
        else if end_sequence = 0 then (Inl (Unchanged ''A non-empty binlog cannot be sealed at sequence zero''), f)
        else if end_sequence \<in> fst ` set (segments f) then (Inl (Unchanged (''Binlog segment already exists: '' @ binlog_segment end_sequence)), f)
        else and_next (rotation RotationIndeterminate (file_flush f)) (\<lambda>_ f.
          and_next (rotation RotationIndeterminate (sync_all f)) (\<lambda>_ f.
            case rename_to_segment end_sequence (f\<lparr>handle_open := False\<rparr>) of
              (Inl e, f1) \<Rightarrow> (case reopen_active f1 of
                  (Inr _, f2) \<Rightarrow> (Inl (Unchanged e), f2)
                | (Inl reopen_error, f2) \<Rightarrow> (Inl (RotationIndeterminate (''Binlog generation rename failed ('' @ e @
                    '') and the active file could not be reopened ('' @ reopen_error @ '')'')), f2))
            | (Inr _, f1) \<Rightarrow> install_successor active_length f1))))"

text \<open>The bytes of the whole history, sealed generations first.\<close>

definition history :: "managed_binlog \<Rightarrow> bytes" where
  "history f = concat (map snd (segments f)) @ active_bytes f"

lemma same_files_history: "same_files f g \<Longrightarrow> history g = history f"
  by (simp add: same_files_def history_def)

lemma reopen_spec:
  assumes "reopen_active f = (r, f')"
  shows "active_file f' = active_file f" "segments f' = segments f" "r = Inr () \<Longrightarrow> handle_open f' \<and> active_file f \<noteq> None"
  using assms idle_call unfolding reopen_active_def
  by (auto simp: same_files_def split: if_splits elim!: and_nextE os_call_cases)

lemma restore_spec:
  assumes "restore_segment_after_failed_seal e f = (r, f')" and "segments f = segs @ [(n, bs)]"
  shows "history f' = history f" and "r \<noteq> Inr k"
    and "r = Inl (Unchanged x) \<Longrightarrow> active_file f = None \<Longrightarrow> active_file f' = Some bs \<and> segments f' = segs \<and> handle_open f'"
proof -
  have goal: "history f' = history f \<and> r \<noteq> Inr k \<and>
    (r = Inl (Unchanged x) \<longrightarrow> active_file f' = Some bs \<and> segments f' = segs \<and> handle_open f')" if none: "active_file f = None"
  proof -
    obtain y g where y: "and_next (rename_from_segment f) (\<lambda>_ f. and_next (sync_parent_directory f) (\<lambda>_. reopen_active)) = (y, g)" by fastforce
    have "history g = history f \<and> (y = Inr () \<longrightarrow> active_file g = Some bs \<and> segments g = segs \<and> handle_open g)"
      using y
    proof (cases rule: and_nextE)
      case (stop e)
      then show ?thesis using none assms(2)
        by (auto simp: rename_from_segment_def history_def elim!: os_call_cases)
    next
      case (go u f1)
      then have f1: "active_file f1 = Some bs" "segments f1 = segs" "history f1 = history f"
        using none assms(2) by (auto simp: rename_from_segment_def history_def elim!: os_call_cases)
      from go(2) show ?thesis
      proof (cases rule: and_nextE)
        case (stop e)
        with f1 idle_call [of f1] same_files_history show ?thesis by (auto simp: sync_parent_directory_def)
      next
        case (go v f2)
        have "same_files f1 f2" using go(1) idle_call [of f1] by (auto simp: sync_parent_directory_def)
        then show ?thesis using reopen_spec [OF go(2)] f1 by (auto simp: same_files_def history_def)
      qed
    qed
    with assms(1) none y show ?thesis
      by (auto simp: restore_segment_after_failed_seal_def split: sum.splits)
  qed
  show "history f' = history f" "r \<noteq> Inr k"
    using goal assms(1) by (auto simp: restore_segment_after_failed_seal_def split: if_splits)
  show "r = Inl (Unchanged x) \<Longrightarrow> active_file f = None \<Longrightarrow> active_file f' = Some bs \<and> segments f' = segs \<and> handle_open f'"
    using goal by blast
qed


text \<open>The outcome of sealing the content \<open>bs\<close>: the history is kept, and it is known where it is unless indeterminate.\<close>

definition seal_post :: "(u64 \<times> bytes) list \<Rightarrow> u64 \<Rightarrow> bytes \<Rightarrow> rotation_error + nat \<Rightarrow> managed_binlog \<Rightarrow> bool" where
  "seal_post segs n bs r f' \<longleftrightarrow> history f' = concat (map snd segs) @ bs \<and>
     (\<forall>k. r = Inr k \<longrightarrow> active_file f' = Some [] \<and> segments f' = segs @ [(n, bs)] \<and> handle_open f' \<and> k = length bs) \<and>
     (\<forall>x. r = Inl (Unchanged x) \<longrightarrow> active_file f' = Some bs \<and> segments f' = segs \<and> handle_open f')"

lemma restore_post:
  assumes "restore_segment_after_failed_seal e f = (r, f')" and "segments f = segs @ [(n, bs)]"
    and "active_file f = None \<or> active_file f = Some []"
  shows "seal_post segs n bs r f'"
proof (cases "active_file f = None")
  case True
  with restore_spec [OF assms(1,2)] assms(2) show ?thesis by (auto simp: seal_post_def history_def)
next
  case False
  with assms show ?thesis by (auto simp: restore_segment_after_failed_seal_def seal_post_def history_def)
qed

lemma install_post:
  assumes "install_successor (length bs) f = (r, f')" and "segments f = segs @ [(n, bs)]" and "active_file f = None"
  shows "seal_post segs n bs r f'"
proof -
  obtain q1 f1 where one: "sync_parent_directory f = (q1, f1)" by (cases "sync_parent_directory f")
  have f1: "segments f1 = segs @ [(n, bs)]" "active_file f1 = None"
    using idle_call [OF one [unfolded sync_parent_directory_def]] assms(2,3) by (simp_all add: same_files_def)
  obtain q2 f2 where two: "create_active f1 = (q2, f2)" by (cases "create_active f1")
  have f2: "segments f2 = segs @ [(n, bs)]" "active_file f2 = None \<or> active_file f2 = Some []" "q2 = Inr () \<longrightarrow> active_file f2 = Some []"
    using two f1 by (auto simp: create_active_def elim!: os_call_cases)
  obtain q3 f3 where three: "os_call (\<lambda>f. f) f2 = (q3, f3)" by (cases "os_call (\<lambda>f. f) f2")
  obtain q4 f4 where four: "sync_parent_directory f3 = (q4, f4)" by (cases "sync_parent_directory f3")
  obtain q5 f5 where five: "os_call (\<lambda>f. f\<lparr>position := length (active_bytes f)\<rparr>) f4 = (q5, f5)"
    by (cases "os_call (\<lambda>f. f\<lparr>position := length (active_bytes f)\<rparr>) f4")
  have same: "same_files f2 f3" "same_files f3 f4" "same_files f4 f5"
    using idle_call [OF three] idle_call [OF four [unfolded sync_parent_directory_def]] five
    by (auto simp: same_files_def elim!: os_call_cases)
  show ?thesis
  proof (cases "\<exists>e. q1 = Inl e \<or> q1 = Inr () \<and> q2 = Inl e")
    case True
    with assms(1) one two restore_post f1 f2 show ?thesis by (auto simp: install_successor_def)
  next
    case False
    then have q: "q1 = Inr ()" "q2 = Inr ()" by (cases q1; cases q2; auto)+
    with f2 have f2': "active_file f2 = Some []" by simp
    show ?thesis using assms(1) one two three four five q f2(1) f2' same
      by (cases q3; cases q4; cases q5; auto simp: install_successor_def rotation_def and_next_def seal_post_def history_def same_files_def)
  qed
qed

lemma seal_spec:
  assumes run: "seal_active n f = (r, f')" and exists: "handle_open f \<Longrightarrow> active_file f \<noteq> None"
  shows "history f' = history f" and "r = Inl (Unchanged x) \<Longrightarrow> same_files f f'"
    and "r = Inr k \<Longrightarrow> k = length (active_bytes f) \<and> (if active_bytes f = [] then same_files f f'
      else handle_open f' \<and> active_file f' = Some [] \<and> segments f' = segments f @ [(n, active_bytes f)])"
proof -
  have goal: "history f' = history f \<and> (r = Inl (Unchanged x) \<longrightarrow> same_files f f') \<and>
    (r = Inr k \<longrightarrow> k = length (active_bytes f) \<and> (if active_bytes f = [] then same_files f f'
      else handle_open f' \<and> active_file f' = Some [] \<and> segments f' = segments f @ [(n, active_bytes f)]))"
  proof (cases "handle_open f")
    case False
    with run show ?thesis by (auto simp: seal_active_def)
  next
    case open_: True
    obtain q1 f1 where one: "os_call (\<lambda>f. f) f = (q1, f1)" by (cases "os_call (\<lambda>f. f) f")
    have s1: "same_files f f1" using idle_call [OF one] by simp
    obtain q2 f2 where two: "file_flush f1 = (q2, f2)" by (cases "file_flush f1")
    obtain q3 f3 where three: "sync_all f2 = (q3, f3)" by (cases "sync_all f2")
    have s3: "same_files f f2" "same_files f f3"
      using idle_handle_call [OF two [unfolded file_flush_def]] idle_handle_call [OF three [unfolded sync_all_def]] s1
      by (auto intro: same_files_trans)
    note hist = same_files_history [OF s1] same_files_history [OF s3(1)] same_files_history [OF s3(2)]
    show ?thesis
    proof (cases "q1 = Inr () \<and> active_bytes f1 \<noteq> [] \<and> n \<noteq> 0 \<and> n \<notin> fst ` set (segments f1) \<and> q2 = Inr () \<and> q3 = Inr ()")
      case False
      with run open_ one two three s1 s3 hist show ?thesis
        by (cases q1; cases q2; cases q3; auto simp: seal_active_def rotation_def and_next_def same_files_def split: if_splits)
    next
      case go: True
      obtain q4 f4 where four: "rename_to_segment n (f3\<lparr>handle_open := False\<rparr>) = (q4, f4)" by (cases "rename_to_segment n (f3\<lparr>handle_open := False\<rparr>)")
      obtain bs where bs: "active_file f = Some bs" using exists [OF open_] by auto
      have f3: "active_file f3 = Some bs" "segments f3 = segments f" using s3(2) bs by (simp_all add: same_files_def)
      have moved: "active_file f4 = None \<and> segments f4 = segments f @ [(n, bs)] \<or>
          q4 \<noteq> Inr () \<and> active_file f4 = Some bs \<and> segments f4 = segments f"
        using four f3 by (auto simp: rename_to_segment_def elim!: os_call_cases)
      have len: "length (active_bytes f1) = length bs" "active_bytes f = bs" "bs \<noteq> []" using go s1 bs by (auto simp: same_files_def)
      show ?thesis
      proof (cases q4)
        case (Inr u)
        with run open_ one two three four go len have ins: "install_successor (length bs) f4 = (r, f')"
          by (auto simp: seal_active_def rotation_def and_next_def)
        have "seal_post (segments f) n bs r f'" by (rule install_post [OF ins]) (use moved Inr in auto)
        with len bs open_ show ?thesis by (auto simp: seal_post_def history_def same_files_def)
      next
        case (Inl e)
        obtain q5 f5 where five: "reopen_active f4 = (q5, f5)" by (cases "reopen_active f4")
        note re = reopen_spec [OF five]
        have h: "history f5 = history f" using re moved bs by (auto simp: history_def)
        show ?thesis
          using run open_ one two three four five go len Inl re moved bs h
          by (cases q5; auto simp: seal_active_def rotation_def and_next_def same_files_def)
      qed
    qed
  qed
  then show "history f' = history f" "r = Inl (Unchanged x) \<Longrightarrow> same_files f f'"
    "r = Inr k \<Longrightarrow> k = length (active_bytes f) \<and> (if active_bytes f = [] then same_files f f'
      else handle_open f' \<and> active_file f' = Some [] \<and> segments f' = segments f @ [(n, active_bytes f)])" by blast+
qed

section \<open>Properties\<close>

text \<open>
  Appending to the binlog is all or nothing, whatever the operating system does. If the
  append succeeds, the active file has grown by exactly the tail; if it is rejected, the active
  file is as before; and even an indeterminate failure leaves the old bytes in place, followed by a
  prefix of the tail. Sealed generations are not touched when the active file was not empty.
\<close>

theorem append_all_or_nothing:
  assumes "append_binlog_tail tail policy f = (r, f')"
  shows "(r = Inr () \<longrightarrow> active_bytes f' = active_bytes f @ tail \<and> segments f' = segments f) \<and>
    (\<forall>e. r = Inl e \<and> disposition e = Rejected \<longrightarrow> active_bytes f' = active_bytes f) \<and>
    (\<exists>p. prefix p tail \<and> active_bytes f' = active_bytes f @ p) \<and>
    (active_bytes f \<noteq> [] \<longrightarrow> segments f' = segments f)"
  using append_tail_spec [OF assms] by blast

definition torn_write :: managed_binlog where
  "torn_write = \<lparr>handle_open = True, active_file = Some ''old'', position = 0, segments = [(7, ''history'')],
     choices = [Proceed, Interrupt, Short 3, Fail ''no space'']\<rparr>"

theorem append_all_or_nothing_witness:
  "active_bytes (snd (append_binlog_tail ''record'' FsyncAlways torn_write)) = ''old'' \<and>
   fst (append_binlog_tail ''record'' FsyncAlways torn_write) =
     Inl (rejected ''Binlog append was durably rolled back after I/O failure: no space'')"
proof -
  have r: "fst (append_binlog_tail ''record'' FsyncAlways torn_write) =
     Inl (rejected ''Binlog append was durably rolled back after I/O failure: no space'')" by code_simp
  with append_all_or_nothing [of "''record''" FsyncAlways torn_write] show ?thesis
    by (cases "append_binlog_tail ''record'' FsyncAlways torn_write") (simp add: rejected_def torn_write_def)
qed


text \<open>
  Sealing the active generation never loses history. Whatever fails on the way, the sealed
  segments followed by the active file hold the same bytes as before; a rejected seal leaves every
  file as it was, and a successful one moves the active content to a segment named by the given
  sequence and opens an empty active file.
\<close>

theorem seal_keeps_history:
  assumes "seal_active n f = (r, f')" and "handle_open f \<longrightarrow> active_file f \<noteq> None"
  shows "history f' = history f \<and>
    (\<forall>x. r = Inl (Unchanged x) \<longrightarrow> active_file f' = active_file f \<and> segments f' = segments f \<and> handle_open f' = handle_open f) \<and>
    (\<forall>k. r = Inr k \<longrightarrow> k = length (active_bytes f) \<and> (active_bytes f \<noteq> [] \<longrightarrow>
       handle_open f' \<and> active_file f' = Some [] \<and> segments f' = segments f @ [(n, active_bytes f)]))"
  using seal_spec [OF assms(1)] assms(2) by (auto simp: same_files_def)

theorem seal_keeps_history_witness:
  "history (snd (seal_active 9 (torn_write\<lparr>choices := [Proceed, Proceed, Proceed, FailLate ''lost reply'']\<rparr>))) = ''historyold''"
proof -
  let ?f = "torn_write\<lparr>choices := [Proceed, Proceed, Proceed, FailLate ''lost reply'']\<rparr>"
  have "history ?f = ''historyold''" "active_file ?f \<noteq> None" by (simp_all add: history_def torn_write_def)
  with seal_keeps_history [of 9 ?f "fst (seal_active 9 ?f)" "snd (seal_active 9 ?f)"] show ?thesis by simp
qed

end
