(* ===== verification/Config.thy ===== *)
theory Config
  imports Resp Binlog_File
begin

text \<open>
  \<open>src/config.rs\<close>: the command line and environment of the server as a configuration or an error, with
  the parsers of the standard library that it uses for memory sizes, ports and IP addresses, and the
  credentials check of \<open>src/main.rs\<close>.
\<close>

section \<open>IP addresses\<close>

text \<open>
  The parser of \<open>std::net::IpAddr\<close>. A number has at most \<open>max_digits\<close> digits and, for the parts of an
  IPv4 address, no leading zero.
\<close>

definition hex_digit :: "byte \<Rightarrow> nat option" where
  "hex_digit b = (if between 48 57 b then Some (of_char b - 48)
     else if between 97 102 b then Some (of_char b - 87)
     else if between 65 70 b then Some (of_char b - 55) else None)"

definition to_digit :: "nat \<Rightarrow> byte \<Rightarrow> nat option" where
  "to_digit radix b = (case hex_digit b of Some d \<Rightarrow> if d < radix then Some d else None | None \<Rightarrow> None)"

definition read_number :: "nat \<Rightarrow> nat \<Rightarrow> bool \<Rightarrow> nat \<Rightarrow> bytes \<Rightarrow> (nat \<times> bytes) option" where
  "read_number radix max_digits allow_zero_prefix max_value s =
     (let digits = takeWhile (\<lambda>b. to_digit radix b \<noteq> None) s; n = foldl (\<lambda>acc b. acc * radix + the (to_digit radix b)) 0 digits in
      if digits = [] \<or> max_digits < length digits \<or> \<not> allow_zero_prefix \<and> hd digits = CHR ''0'' \<and> 1 < length digits \<or> max_value < n
      then None else Some (n, drop (length digits) s))"

definition read_given_char :: "char \<Rightarrow> bytes \<Rightarrow> bytes option" where
  "read_given_char c s = (case s of b # rest \<Rightarrow> if b = c then Some rest else None | [] \<Rightarrow> None)"

definition read_separator :: "char \<Rightarrow> nat \<Rightarrow> (bytes \<Rightarrow> ('a \<times> bytes) option) \<Rightarrow> bytes \<Rightarrow> ('a \<times> bytes) option" where
  "read_separator sep index inner s = (if index = 0 then inner s else Option.bind (read_given_char sep s) inner)"

definition read_octet :: "nat \<Rightarrow> bytes \<Rightarrow> (nat \<times> bytes) option" where
  "read_octet index = read_separator CHR ''.'' index (read_number 10 3 False 255)"

definition read_ipv4_addr :: "bytes \<Rightarrow> (nat list \<times> bytes) option" where
  "read_ipv4_addr s = Option.bind (read_octet 0 s) (\<lambda>(a, s). Option.bind (read_octet 1 s) (\<lambda>(b, s).
     Option.bind (read_octet 2 s) (\<lambda>(c, s). Option.bind (read_octet 3 s) (\<lambda>(d, s). Some ([a, b, c, d], s)))))"

text \<open>Up to \<open>n\<close> more groups from the position \<open>i\<close>; the flag says that the last two were an IPv4 address.\<close>

fun read_groups :: "nat \<Rightarrow> nat \<Rightarrow> bytes \<Rightarrow> nat list \<times> bool \<times> bytes" where
  "read_groups i 0 s = ([], False, s)"
| "read_groups i (Suc n) s = (case (if 0 < n then read_separator CHR '':'' i read_ipv4_addr s else None) of
      Some ([a, b, c, d], s1) \<Rightarrow> ([a * 256 + b, c * 256 + d], True, s1)
    | _ \<Rightarrow> (case read_separator CHR '':'' i (read_number 16 4 True 65535) s of
        None \<Rightarrow> ([], False, s)
      | Some (g, s1) \<Rightarrow> apfst ((#) g) (read_groups (i + 1) n s1)))"

definition read_ipv6_addr :: "bytes \<Rightarrow> (nat list \<times> bytes) option" where
  "read_ipv6_addr s = (case read_groups 0 8 s of (head, head_ipv4, s1) \<Rightarrow>
     if length head = 8 then Some (head, s1)
     else if head_ipv4 then None
     else Option.bind (Option.bind (read_given_char CHR '':'' s1) (read_given_char CHR '':'')) (\<lambda>s2.
       (case read_groups 0 (8 - (length head + 1)) s2 of (tail, _, s3) \<Rightarrow>
         Some (head @ replicate (8 - length head - length tail) 0 @ tail, s3))))"

datatype ip_addr = V4 "nat list" | V6 "nat list"

definition parse_ip_addr :: "bytes \<Rightarrow> ip_addr option" where
  "parse_ip_addr s = (case read_ipv4_addr s of
      Some (a, rest) \<Rightarrow> if rest = [] then Some (V4 a) else None
    | None \<Rightarrow> (case read_ipv6_addr s of Some (a, rest) \<Rightarrow> if rest = [] then Some (V6 a) else None | None \<Rightarrow> None))"

section \<open>Values\<close>

definition DEFAULT_PORT :: nat where "DEFAULT_PORT = 6380"
definition DEFAULT_FAILOVER_TIMEOUT_SECS :: u64 where "DEFAULT_FAILOVER_TIMEOUT_SECS = 30"
definition METRICS_PORT_OFFSET :: "16 word" where "METRICS_PORT_OFFSET = 1000"
definition MAX_SERVER_PORT :: "16 word" where "MAX_SERVER_PORT = - 1 - METRICS_PORT_OFFSET"

definition fsync_policy_parse :: "bytes \<Rightarrow> fsync_policy option" where
  "fsync_policy_parse s = (let l = to_ascii_lowercase s in
     if l = ''always'' then Some FsyncAlways else if l = ''everysec'' then Some FsyncEverySec else if l = ''no'' then Some FsyncNo else None)"

definition parse_memory_size :: "bytes \<Rightarrow> nat option" where
  "parse_memory_size text = (let s = to_ascii_lowercase (trim text);
      (number, multiplier) =
        (case strip_suffix ''gb'' s of Some n \<Rightarrow> (n, 1024 * 1024 * 1024)
         | None \<Rightarrow> (case strip_suffix ''mb'' s of Some n \<Rightarrow> (n, 1024 * 1024)
         | None \<Rightarrow> (case strip_suffix ''kb'' s of Some n \<Rightarrow> (n, 1024)
         | None \<Rightarrow> (case strip_suffix ''b'' s of Some n \<Rightarrow> (n, 1) | None \<Rightarrow> (s, 1)))))
     in Option.bind (parse_usize (trim number)) (\<lambda>n. if n * multiplier \<le> usize_max then Some (n * multiplier) else None))"

section \<open>Options\<close>

datatype config_error = MissingOptionValue bytes | UnknownOption bytes | UpstreamUsernameWithoutPassword
  | UpstreamCredentialsWithoutReplica | InvalidBindAddress bytes | EmptyDataDirectory | InvalidPort bytes

text \<open>The variables of the option loop.\<close>

record raw_options =
  raw_master_addr :: "bytes option"
  raw_master_user :: "bytes option"
  raw_master_password :: "bytes option"
  raw_password :: "bytes option"
  raw_appendfsync :: "bytes option"
  raw_maxmemory :: "bytes option"
  raw_policy :: "bytes option"
  raw_users :: "(bytes \<times> bytes) list"
  raw_warnings :: "bytes list"
  raw_auto_failover :: bool
  raw_failover_timeout :: u64
  raw_bind :: "bytes option"
  raw_directory :: "bytes option"
  raw_port :: bytes

definition raw_default :: raw_options where
  "raw_default = \<lparr>raw_master_addr = None, raw_master_user = None, raw_master_password = None, raw_password = None, raw_appendfsync = None,
     raw_maxmemory = None, raw_policy = None, raw_users = [], raw_warnings = [], raw_auto_failover = False,
     raw_failover_timeout = DEFAULT_FAILOVER_TIMEOUT_SECS, raw_bind = None, raw_directory = None, raw_port = nat_to_string DEFAULT_PORT\<rparr>"

definition split_once :: "char \<Rightarrow> bytes \<Rightarrow> (bytes \<times> bytes) option" where
  "split_once c s = (if c \<in> set s then Some (takeWhile ((\<noteq>) c) s, tl (dropWhile ((\<noteq>) c) s)) else None)"

definition add_user :: "bytes \<Rightarrow> raw_options \<Rightarrow> raw_options" where
  "add_user v r = (case split_once CHR '':'' v of
      Some (name, user_password) \<Rightarrow> r\<lparr>raw_users := hm_insert name user_password (raw_users r)\<rparr>
    | None \<Rightarrow> r\<lparr>raw_warnings := raw_warnings r @ [''Invalid format for --user; expected name:password'']\<rparr>)"

text \<open>The options that take a value, with what they do; \<open>None\<close> for every other word.\<close>

definition value_option :: "bytes \<Rightarrow> (bytes \<Rightarrow> raw_options \<Rightarrow> raw_options) option" where
  "value_option name =
     (if name = ''--replica-of'' then Some (\<lambda>v r. r\<lparr>raw_master_addr := Some v\<rparr>)
      else if name = ''--masteruser'' then Some (\<lambda>v r. r\<lparr>raw_master_user := Some v\<rparr>)
      else if name = ''--masterauth'' then Some (\<lambda>v r. r\<lparr>raw_master_password := Some v\<rparr>)
      else if name = ''--requirepass'' then Some (\<lambda>v r. r\<lparr>raw_password := Some v\<rparr>)
      else if name = ''--appendfsync'' then Some (\<lambda>v r. r\<lparr>raw_appendfsync := Some v\<rparr>)
      else if name = ''--maxmemory'' then Some (\<lambda>v r. r\<lparr>raw_maxmemory := Some v\<rparr>)
      else if name = ''--maxmemory-policy'' then Some (\<lambda>v r. r\<lparr>raw_policy := Some v\<rparr>)
      else if name = ''--user'' then Some add_user
      else if name = ''--failover-timeout''
      then Some (\<lambda>v r. r\<lparr>raw_failover_timeout := (case parse_u64 v of Some n \<Rightarrow> n | None \<Rightarrow> DEFAULT_FAILOVER_TIMEOUT_SECS)\<rparr>)
      else if name = ''--bind'' then Some (\<lambda>v r. r\<lparr>raw_bind := Some v\<rparr>)
      else if name = ''--data-dir'' then Some (\<lambda>v r. r\<lparr>raw_directory := Some v\<rparr>)
      else if name = ''--port'' then Some (\<lambda>v r. r\<lparr>raw_port := v\<rparr>)
      else None)"

fun parse_options :: "bytes list \<Rightarrow> raw_options \<Rightarrow> config_error + raw_options" where
  "parse_options [] r = Inr r"
| "parse_options (name # args) r =
     (if name = ''--auto-failover'' then parse_options args (r\<lparr>raw_auto_failover := True\<rparr>)
      else (case value_option name of
          None \<Rightarrow> Inl (UnknownOption name)
        | Some setter \<Rightarrow> (case args of [] \<Rightarrow> Inl (MissingOptionValue name) | v # rest \<Rightarrow> parse_options rest (setter v r))))"

section \<open>The configuration\<close>

record server_config =
  config_master_addr :: "bytes option"
  config_upstream :: "(bytes \<times> bytes) option"
  config_users :: "(bytes \<times> bytes) list"
  config_fsync :: fsync_policy
  config_maxmemory :: nat
  config_policy :: eviction_policy
  config_auto_failover :: bool
  config_failover_timeout :: u64
  config_bind :: ip_addr
  config_directory :: bytes
  config_port :: "16 word"
  config_warnings :: "bytes list"

definition or_else :: "'a option \<Rightarrow> 'a option \<Rightarrow> 'a option" where
  "or_else x y = (case x of None \<Rightarrow> y | Some _ \<Rightarrow> x)"

definition from_environment :: "(bytes \<Rightarrow> bytes option) \<Rightarrow> raw_options \<Rightarrow> raw_options" where
  "from_environment get_env r = r\<lparr>raw_password := or_else (raw_password r) (get_env ''ONYXDB_PASSWORD''),
     raw_master_user := or_else (raw_master_user r) (get_env ''ONYXDB_MASTER_USER''),
     raw_master_password := or_else (raw_master_password r) (get_env ''ONYXDB_MASTER_PASSWORD''),
     raw_bind := or_else (raw_bind r) (get_env ''ONYXDB_BIND''),
     raw_directory := or_else (raw_directory r) (get_env ''ONYXDB_DATA_DIR'')\<rparr>"

text \<open>A value, its default when it is absent, and the default with a warning when it does not parse.\<close>

definition quoted :: "bytes \<Rightarrow> bytes" where
  "quoted s = CHR 0x27 # s @ [CHR 0x27]"

definition or_warn :: "(bytes \<Rightarrow> 'a option) \<Rightarrow> 'a \<Rightarrow> (bytes \<Rightarrow> bytes) \<Rightarrow> bytes option \<Rightarrow> 'a \<times> bytes list" where
  "or_warn parser fallback warning v = (case v of
      None \<Rightarrow> (fallback, [])
    | Some s \<Rightarrow> (case parser s of Some x \<Rightarrow> (x, []) | None \<Rightarrow> (fallback, [warning s])))"

definition parse_port :: "bytes \<Rightarrow> config_error + 16 word" where
  "parse_port s = (case parse_unsigned 65535 s of
      Some n \<Rightarrow> let port = word_of_nat n in if 1 \<le> port \<and> port \<le> MAX_SERVER_PORT then Inr port else Inl (InvalidPort s)
    | None \<Rightarrow> Inl (InvalidPort s))"

definition build_config :: "raw_options \<Rightarrow> config_error + server_config" where
  "build_config r =
     (if raw_master_user r \<noteq> None \<and> raw_master_password r = None then Inl UpstreamUsernameWithoutPassword
      else if raw_master_addr r = None \<and> (raw_master_user r \<noteq> None \<or> raw_master_password r \<noteq> None) then Inl UpstreamCredentialsWithoutReplica
      else let
        (policy, w1) = or_warn fsync_policy_parse FsyncEverySec 
          (\<lambda>v. ''Invalid value for --appendfsync ('' @ quoted v @ ''), using '' @ quoted ''everysec'' @ '' as default'') (raw_appendfsync r);
        (memory, w2) = or_warn parse_memory_size 0 
          (\<lambda>v. ''Invalid value for --maxmemory ('' @ quoted v @ ''); memory limiting is disabled'') (raw_maxmemory r);
        (eviction, w3) = or_warn eviction_policy_parse NoEviction 
          (\<lambda>v. ''Invalid value for --maxmemory-policy ('' @ quoted v @ ''); using '' @ quoted ''noeviction'') (raw_policy r)
      in (case parse_port (raw_port r) of
          Inl e \<Rightarrow> Inl e
        | Inr port \<Rightarrow> (let bind = (case raw_bind r of Some s \<Rightarrow> s | None \<Rightarrow> ''127.0.0.1'') in
            (case parse_ip_addr bind of
              None \<Rightarrow> Inl (InvalidBindAddress bind)
            | Some address \<Rightarrow> (let directory = (case raw_directory r of Some s \<Rightarrow> s | None \<Rightarrow> ''.'') in
                if directory = [] then Inl EmptyDataDirectory
                else Inr \<lparr>config_master_addr = raw_master_addr r,
                  config_upstream = map_option (Pair (case raw_master_user r of Some u \<Rightarrow> u | None \<Rightarrow> ''default'')) (raw_master_password r),
                  config_users = (case raw_password r of Some s \<Rightarrow> hm_insert ''default'' s (raw_users r) | None \<Rightarrow> raw_users r),
                  config_fsync = policy, config_maxmemory = memory, config_policy = eviction,
                  config_auto_failover = raw_auto_failover r, config_failover_timeout = raw_failover_timeout r,
                  config_bind = address, config_directory = directory, config_port = port,
                  config_warnings = raw_warnings r @ w1 @ w2 @ w3\<rparr>)))))"

text \<open>The first argument is the name of the program.\<close>

definition parse_config :: "bytes list \<Rightarrow> (bytes \<Rightarrow> bytes option) \<Rightarrow> config_error + server_config" where
  "parse_config args get_env = (case parse_options (drop 1 args) raw_default of
      Inl e \<Rightarrow> Inl e | Inr r \<Rightarrow> build_config (from_environment get_env r))"

section \<open>Authentication\<close>

definition auth_required :: "server_config \<Rightarrow> bool" where
  "auth_required C \<longleftrightarrow> config_users C \<noteq> []"

definition check_credentials :: "server_config \<Rightarrow> bytes \<Rightarrow> bytes \<Rightarrow> bool" where
  "check_credentials C username password = (case hm_get (config_users C) username of Some p \<Rightarrow> p = password | None \<Rightarrow> False)"

section \<open>Laws\<close>

lemma to_digit_char: "d < 10 \<Longrightarrow> to_digit 10 (digit_char d) = Some d"
  using digit_char_ascii [of d] by (simp add: to_digit_def hex_digit_def between_def)

lemma to_digit_decimal: "to_digit 10 b = digit_val b"
  by (auto simp: to_digit_def hex_digit_def digit_val_def between_def)

lemma foldl_digits: "list_all (\<lambda>b. digit_val b \<noteq> None) ds \<Longrightarrow> parse_digits ds acc = Some (foldl (\<lambda>acc b. acc * 10 + the (digit_val b)) acc ds)"
  by (induction ds arbitrary: acc) (auto simp: mult.commute)

lemma printed_digits: "list_all (\<lambda>b. digit_val b \<noteq> None) (nat_to_string n)"
  using nat_to_string_digits [of _ n] by (auto simp: list_all_iff digit_val_def)

lemma no_leading_zero: "hd (nat_to_string n) = CHR ''0'' \<Longrightarrow> length (nat_to_string n) = 1"
proof (induction n rule: nat_to_string.induct)
  case (1 n)
  show ?case
  proof (cases "n < 10")
    case False
    have ne: "nat_to_string (n div 10) \<noteq> []" using nat_to_string_head by (metis list.distinct(1))
    have split: "nat_to_string n = nat_to_string (n div 10) @ [digit_char (n mod 10)]" using False by (simp add: nat_to_string.simps)
    have "length (nat_to_string (n div 10)) = 1" using 1 False split ne by simp
    moreover have "hd (nat_to_string (n div 10)) = CHR ''0''" using 1(2) split ne by simp
    ultimately have "nat_to_string (n div 10) = [CHR ''0'']" by (cases "nat_to_string (n div 10)") auto
    with parse_nat_to_string [of "n div 10"] have "n div 10 = 0" by (simp add: digit_val_def between_def)
    with False show ?thesis by simp
  qed (simp add: nat_to_string.simps)
qed

lemma takeWhile_stop: "list_all P xs \<Longrightarrow> rest = [] \<or> \<not> P (hd rest) \<Longrightarrow> takeWhile P (xs @ rest) = xs"
  by (induction xs) (cases rest; auto)+

lemma read_printed_octet:
  assumes "n \<le> 255" and "rest = [] \<or> digit_val (hd rest) = None"
  shows "read_number 10 3 False 255 (nat_to_string n @ rest) = Some (n, rest)"
proof -
  have digits: "takeWhile (\<lambda>b. to_digit 10 b \<noteq> None) (nat_to_string n @ rest) = nat_to_string n"
    using takeWhile_stop [OF printed_digits, of rest n] assms(2) by (simp add: to_digit_decimal)
  have "foldl (\<lambda>acc b. acc * 10 + the (to_digit 10 b)) 0 (nat_to_string n) = n"
    using foldl_digits [OF printed_digits, of n 0] parse_nat_to_string [of n] by (simp add: to_digit_decimal)
  moreover have "length (nat_to_string n) \<le> 3" using nat_to_string_length [of n 2] assms(1) by simp
  moreover have "nat_to_string n \<noteq> []" using nat_to_string_head by (metis list.distinct(1))
  ultimately show ?thesis using assms(1) no_leading_zero [of n] unfolding read_number_def Let_def digits by auto
qed

lemma parse_ipv4_printed:
  assumes "a \<le> 255" "b \<le> 255" "c \<le> 255" "d \<le> 255"
  shows "parse_ip_addr (nat_to_string a @ ''.'' @ nat_to_string b @ ''.'' @ nat_to_string c @ ''.'' @ nat_to_string d) = Some (V4 [a, b, c, d])"
proof -
  have dot: "digit_val CHR ''.'' = None" by (simp add: digit_val_def between_def)
  have next_octet: "read_octet (Suc i) (CHR ''.'' # nat_to_string n @ rest) = Some (n, rest)" if "n \<le> 255" "rest = [] \<or> digit_val (hd rest) = None" for i n rest
    using read_printed_octet [OF that] by (simp add: read_octet_def read_separator_def read_given_char_def)
  have first: "read_octet 0 (nat_to_string a @ CHR ''.'' # rest) = Some (a, CHR ''.'' # rest)" for rest
    using read_printed_octet [OF assms(1), of "CHR ''.'' # rest"] dot by (simp add: read_octet_def read_separator_def)
  have last: "read_octet 3 (CHR ''.'' # nat_to_string d) = Some (d, [])" using next_octet [OF assms(4), of "[]" 2] by (simp add: numeral_3_eq_3)
  show ?thesis
    using next_octet [OF assms(2), of "CHR ''.'' # nat_to_string c @ CHR ''.'' # nat_to_string d" 0]
      next_octet [OF assms(3), of "CHR ''.'' # nat_to_string d" 1] dot
    by (simp add: parse_ip_addr_def read_ipv4_addr_def first last numeral_2_eq_2)
qed

lemma port_bounds:
  assumes "1 \<le> port" and "port \<le> MAX_SERVER_PORT"
  shows "unat (port + 1) = unat port + 1" "unat (port + METRICS_PORT_OFFSET) = unat port + 1000"
proof -
  have "unat MAX_SERVER_PORT = 64535" by (simp add: MAX_SERVER_PORT_def METRICS_PORT_OFFSET_def)
  with assms(2) have "unat port \<le> 64535" unfolding word_le_nat_alt by simp
  then show "unat (port + 1) = unat port + 1" "unat (port + METRICS_PORT_OFFSET) = unat port + 1000"
    by (simp_all add: unat_word_ariths METRICS_PORT_OFFSET_def)
qed

lemma printed_ascii: "is_ascii (nat_to_string n)"
  using int_to_string_ascii [of "int n"] by (simp add: int_to_string_def)

lemma trim_plain:
  assumes "is_ascii s" and "s = [] \<or> \<not> is_whitespace [hd s] \<and> \<not> is_whitespace [last s]"
  shows "trim s = s"
proof (cases "s = []")
  case False
  have chars: "utf8_chars s = map (\<lambda>b. [b]) s" by (rule utf8_chars_ascii [OF assms(1)])
  have "concat (map (\<lambda>b. [b]) s) = s" by (induction s) simp_all
  moreover have "dropWhile is_whitespace (map (\<lambda>b. [b]) s) = map (\<lambda>b. [b]) s" using False assms(2) by (cases s) auto
  moreover have "dropWhile is_whitespace (rev (map (\<lambda>b. [b]) s)) = rev (map (\<lambda>b. [b]) s)"
    using False assms(2) by (cases s rule: rev_cases) auto
  ultimately show ?thesis by (simp add: trim_def chars)
qed (simp add: trim_def utf8_chars.simps)

lemma printed_lower: "to_ascii_lowercase (nat_to_string n) = nat_to_string n"
proof -
  have "ascii_lower_char c = c" if "between 48 57 c" for c
    using that by (auto simp: ascii_lower_char_def between_def less_eq_char_def)
  then show ?thesis using nat_to_string_digits [of _ n] by (intro map_idI) blast
qed

lemma digit_no_space: "between 48 57 b \<Longrightarrow> \<not> is_whitespace [b]"
  by (auto simp: is_whitespace_def between_def Let_def)

lemma printed_trim: "trim (nat_to_string n) = nat_to_string n"
  by (rule trim_plain [OF printed_ascii])
    (use nat_to_string_digits [of _ n] nat_to_string_head [of n] digit_no_space in \<open>metis hd_in_set last_in_set list.distinct(1)\<close>)

lemma strip_suffix_append: "strip_suffix suf (s @ suf) = Some s"
  by (simp add: strip_suffix_def)

lemma strip_suffix_digits: "suf \<noteq> [] \<Longrightarrow> \<not> between 48 57 (last suf) \<Longrightarrow> strip_suffix suf (nat_to_string n) = None"
proof -
  assume suf: "suf \<noteq> []" "\<not> between 48 57 (last suf)"
  have ne: "nat_to_string n \<noteq> []" using nat_to_string_head by (metis list.distinct(1))
  have "drop (length (nat_to_string n) - length suf) (nat_to_string n) \<noteq> suf"
  proof
    assume "drop (length (nat_to_string n) - length suf) (nat_to_string n) = suf"
    then have "last suf = last (nat_to_string n)" using suf(1) ne by (metis drop_eq_Nil last_drop not_le_imp_less)
    then show False using suf(2) ne nat_to_string_digits [of "last (nat_to_string n)" n] by simp
  qed
  then show ?thesis by (simp add: strip_suffix_def Let_def)
qed

section \<open>Properties\<close>

definition memory_units :: "(bytes \<times> nat) list" where
  "memory_units = [('''', 1), (''b'', 1), (''kb'', 1024), (''mb'', 1024 * 1024), (''gb'', 1024 * 1024 * 1024)]"

lemma strip_unit:
  assumes "(u, m) \<in> set memory_units" and "s = nat_to_string n @ u"
  shows "(case strip_suffix ''gb'' s of Some n \<Rightarrow> (n, 1024 * 1024 * 1024)
         | None \<Rightarrow> (case strip_suffix ''mb'' s of Some n \<Rightarrow> (n, 1024 * 1024)
         | None \<Rightarrow> (case strip_suffix ''kb'' s of Some n \<Rightarrow> (n, 1024)
         | None \<Rightarrow> (case strip_suffix ''b'' s of Some n \<Rightarrow> (n, 1) | None \<Rightarrow> (s, 1))))) = (nat_to_string n, m)"
proof -
  have ne: "nat_to_string n \<noteq> []" "between 48 57 (last (nat_to_string n))"
    using nat_to_string_head [of n] nat_to_string_digits [of "last (nat_to_string n)" n] by auto
  have digits: "strip_suffix suf (nat_to_string n) = None" if "suf \<in> {''gb'', ''mb'', ''kb'', ''b''}" for suf
    using that by (intro strip_suffix_digits) (auto simp: between_def)
  obtain ds x where d: "nat_to_string n = ds @ [x]" "between 48 57 x" using ne by (metis append_butlast_last_id)
  have one: "strip_suffix [c, CHR ''b''] (nat_to_string n @ ''b'') = None" if "c \<in> {CHR ''g'', CHR ''m'', CHR ''k''}" for c
    using d that by (auto simp: strip_suffix_def Let_def between_def)
  have two: "strip_suffix [c, CHR ''b''] (nat_to_string n @ [c', CHR ''b'']) = None" if "c \<noteq> c'" for c c'
    using that by (simp add: strip_suffix_def)
  have same: "strip_suffix ''b'' (nat_to_string n @ ''b'') = Some (nat_to_string n)" by (rule strip_suffix_append)
  note two' = strip_suffix_append [of _ "nat_to_string n"]
  consider "u = []" "m = 1" | "u = ''b''" "m = 1" | "u = ''kb''" "m = 1024" | "u = ''mb''" "m = 1024 * 1024" | "u = ''gb''" "m = 1024 * 1024 * 1024"
    using assms(1) by (auto simp: memory_units_def)
  then show ?thesis by cases (simp_all only: assms(2) append_Nil2 digits one two two' same insert_iff option.case simp_thms char.inject not_False_eq_True)
qed

lemma unit_chars:
  assumes "(to_ascii_lowercase u, m) \<in> set memory_units"
  shows "is_ascii u" "u \<noteq> [] \<Longrightarrow> \<not> is_whitespace [last u]"
proof -
  have low: "of_char (ascii_lower_char c) < (128 :: nat) \<Longrightarrow> of_char c < (128 :: nat)" for c
    by (auto simp: ascii_lower_char_def less_eq_char_def split: if_splits)
  have "list_all (\<lambda>c. of_char c < (128 :: nat)) (to_ascii_lowercase u)" using assms by (auto simp: memory_units_def)
  then show "is_ascii u" using low by (auto simp: is_ascii_def list_all_iff)
  have space: "is_whitespace [c] \<Longrightarrow> ascii_lower_char c \<noteq> CHR ''b''" for c
    by (auto simp: is_whitespace_def ascii_lower_char_def less_eq_char_def Let_def)
  assume "u \<noteq> []"
  then have "ascii_lower_char (last u) = last (to_ascii_lowercase u)" by (simp add: last_map)
  moreover have "last (to_ascii_lowercase u) = CHR ''b''" using assms \<open>u \<noteq> []\<close> by (auto simp: memory_units_def)
  ultimately show "\<not> is_whitespace [last u]" using space by metis
qed

text \<open>
  Memory sizes are exact. A number with one of the units, in any case, is the product when it fits
  in \<open>usize\<close> and is refused otherwise; no text at all gives a size outside \<open>usize\<close>.
\<close>

theorem memory_size_exact:
  assumes "(to_ascii_lowercase u, m) \<in> set memory_units" and "n \<le> usize_max"
  shows "parse_memory_size (nat_to_string n @ u) = (if n * m \<le> usize_max then Some (n * m) else None) \<and>
    (parse_memory_size text = Some k \<longrightarrow> k \<le> usize_max)"
proof
  let ?s = "nat_to_string n @ u"
  have ne: "nat_to_string n \<noteq> []" "\<not> is_whitespace [hd (nat_to_string n)]" "\<not> is_whitespace [last (nat_to_string n)]"
    using nat_to_string_head [of n] nat_to_string_digits [of _ n] digit_no_space by (metis hd_in_set last_in_set list.distinct(1))+
  have "is_ascii ?s" using printed_ascii [of n] unit_chars(1) [OF assms(1)] by (auto simp: is_ascii_def list_all_iff)
  then have "trim ?s = ?s" using ne unit_chars(2) [OF assms(1)] by (intro trim_plain) (cases "u = []"; simp)+
  then have low: "to_ascii_lowercase (trim ?s) = nat_to_string n @ to_ascii_lowercase u" by (simp add: printed_lower)
  show "parse_memory_size ?s = (if n * m \<le> usize_max then Some (n * m) else None)"
    unfolding parse_memory_size_def low Let_def strip_unit [OF assms(1) refl] using assms(2) by (simp add: printed_trim)
  show "parse_memory_size text = Some k \<longrightarrow> k \<le> usize_max"
    by (auto simp: parse_memory_size_def Let_def case_prod_beta bind_eq_Some_conv split: if_splits)
qed

theorem memory_size_exact_witness: "parse_memory_size ''64MB'' = Some (64 * (1024 * 1024))"
proof -
  have "nat_to_string 64 = ''64''" by code_simp
  moreover have "64 * (1024 * 1024) \<le> usize_max" "(64 :: nat) \<le> usize_max" by (simp_all add: usize_max_def)
  moreover have "to_ascii_lowercase ''MB'' = ''mb''" by code_simp
  then have "(to_ascii_lowercase ''MB'', 1024 * 1024) \<in> set memory_units" unfolding memory_units_def by simp
  ultimately show ?thesis using memory_size_exact [of "''MB''" "1024 * 1024" 64] by simp
qed

text \<open>
  C32. An accepted configuration is usable. The ports derived from the server port, one above it for the
  binary protocol and a thousand above it for metrics, do not wrap around and differ; upstream
  credentials are only given to replicas; the data directory has a name; and a password given by option or
  environment is the one that authenticates the default user, so authentication is required.
\<close>

theorem config_usable:
  assumes "parse_config args get_env = Inr C"
  shows "1 \<le> config_port C \<and> unat (config_port C + 1) = unat (config_port C) + 1 \<and>
    unat (config_port C + METRICS_PORT_OFFSET) = unat (config_port C) + 1000 \<and>
    (config_upstream C \<noteq> None \<longrightarrow> config_master_addr C \<noteq> None) \<and> config_directory C \<noteq> [] \<and>
    (get_env ''ONYXDB_PASSWORD'' \<noteq> None \<longrightarrow> auth_required C \<and> (\<exists>p. \<forall>q. check_credentials C ''default'' q \<longleftrightarrow> q = p))"
proof -
  from assms obtain r0 where r0: "parse_options (drop 1 args) raw_default = Inr r0" "build_config (from_environment get_env r0) = Inr C"
    by (auto simp: parse_config_def split: sum.splits)
  let ?r = "from_environment get_env r0"
  from r0(2) have port: "parse_port (raw_port ?r) = Inr (config_port C)" and dir: "config_directory C \<noteq> []"
    and up: "config_upstream C \<noteq> None \<longrightarrow> config_master_addr C \<noteq> None"
    and users: "config_users C = (case raw_password ?r of Some s \<Rightarrow> hm_insert ''default'' s (raw_users ?r) | None \<Rightarrow> raw_users ?r)"
    by (auto simp: build_config_def Let_def case_prod_beta split: if_splits sum.splits option.splits)
  from port have b: "1 \<le> config_port C" "config_port C \<le> MAX_SERVER_PORT"
    by (auto simp: parse_port_def Let_def split: option.splits if_splits)
  have pw: "get_env ''ONYXDB_PASSWORD'' \<noteq> None \<longrightarrow> auth_required C \<and> (\<exists>p. \<forall>q. check_credentials C ''default'' q \<longleftrightarrow> q = p)"
  proof
    assume "get_env ''ONYXDB_PASSWORD'' \<noteq> None"
    then obtain p where "raw_password ?r = Some p" by (cases "raw_password r0") (auto simp: from_environment_def or_else_def)
    then have u: "config_users C = hm_insert ''default'' p (raw_users ?r)" using users by simp
    then have "hm_get (config_users C) ''default'' = Some p" by (simp add: update_Some_unfold)
    then show "auth_required C \<and> (\<exists>p. \<forall>q. check_credentials C ''default'' q \<longleftrightarrow> q = p)"
      by (auto simp: auth_required_def check_credentials_def)
  qed
  show ?thesis using b port_bounds [OF b] up dir pw by simp
qed

theorem config_usable_witness:
  "\<exists>C. parse_config [''onyxdb'', ''--port'', ''7000''] (\<lambda>name. if name = ''ONYXDB_PASSWORD'' then Some ''secret'' else None) = Inr C \<and>
     unat (config_port C + METRICS_PORT_OFFSET) = 8000 \<and> auth_required C"
proof -
  let ?env = "\<lambda>name. if name = ''ONYXDB_PASSWORD'' then Some ''secret'' else None"
  have "parse_unsigned 65535 ''7000'' = Some 7000" by (simp add: parse_unsigned_def digit_val_def between_def)
  moreover have "parse_ip_addr ''127.0.0.1'' = Some (V4 [127, 0, 0, 1])" by code_simp
  ultimately obtain C where C: "parse_config [''onyxdb'', ''--port'', ''7000''] ?env = Inr C" "config_port C = 7000"
    by (simp add: parse_config_def raw_default_def value_option_def build_config_def from_environment_def or_else_def or_warn_def parse_port_def
        MAX_SERVER_PORT_def METRICS_PORT_OFFSET_def)
  from config_usable [OF C(1)] C show ?thesis by (intro exI [of _ C]) simp
qed

end
