(* ===== verification/Replication_Wire.thy ===== *)
theory Replication_Wire
  imports Batch Resp
begin

text \<open>
  The replication records of \<open>src/main.rs\<close>: committed batches and full synchronization entries are
  sent as a RESP header followed by RESP frames that carry the payload in chunks of hexadecimal
  digits. A stream is the list of the byte chunks the connection still delivers before it ends, as
  in the RESP readers; the timeouts of the transport are not modelled.
\<close>

section \<open>Commands and hexadecimal payloads\<close>

definition REPLICATION_CHUNK_SIZE :: nat where
  "REPLICATION_CHUNK_SIZE = 256 * 1024"

definition MAX_REPLICATION_FRAME_BULK_SIZE :: nat where
  "MAX_REPLICATION_FRAME_BULK_SIZE = REPLICATION_CHUNK_SIZE * 2 + 64"

definition encode_replication_command :: "bytes list \<Rightarrow> bytes" where
  "encode_replication_command args = ''*'' @ nat_to_string (length args) @ CRLF @
     concat (map (\<lambda>arg. ''$'' @ nat_to_string (length arg) @ CRLF @ arg @ CRLF) args)"

definition HEX :: bytes where
  "HEX = ''0123456789abcdef''"

definition hex_encode :: "bytes \<Rightarrow> bytes" where
  "hex_encode bs = concat (map (\<lambda>b. [HEX ! (of_char b div 16), HEX ! (of_char b mod 16)]) bs)"

definition nibble :: "byte \<Rightarrow> nat option" where
  "nibble b = (if between 48 57 b then Some (of_char b - 48)
     else if between 97 102 b then Some (of_char b - 97 + 10)
     else if between 65 70 b then Some (of_char b - 65 + 10) else None)"

fun hex_pairs :: "bytes \<Rightarrow> bytes presult" where
  "hex_pairs (a # b # rest) = and_then (ok_or ''Invalid hexadecimal payload'' (nibble a)) (\<lambda>high.
     and_then (ok_or ''Invalid hexadecimal payload'' (nibble b)) (\<lambda>low.
     and_then (hex_pairs rest) (\<lambda>bs. Inr (char_of (high * 16 + low) # bs))))"
| "hex_pairs _ = Inr []"

definition hex_decode :: "bytes \<Rightarrow> bytes presult" where
  "hex_decode encoded = (if odd (length encoded) then fail ''Hex-encoded payload has an odd length'' else hex_pairs encoded)"

section \<open>Writing records\<close>

record chunked_replication_record =
  record_header :: "bytes list"
  chunk_command :: bytes
  record_payload :: bytes

function chunks_of :: "nat \<Rightarrow> 'a list \<Rightarrow> 'a list list" where
  "chunks_of n xs = (if xs = [] \<or> n = 0 then [] else take n xs # chunks_of n (drop n xs))"
  by pat_completeness auto
termination
  by (relation "measure (length \<circ> snd)") auto

declare chunks_of.simps [simp del]

text \<open>The bytes of the record, when every write succeeds.\<close>

definition write_chunked_replication_record :: "chunked_replication_record \<Rightarrow> bytes" where
  "write_chunked_replication_record r = encode_replication_command (record_header r) @
     concat (map (\<lambda>chunk. encode_replication_command [chunk_command r, hex_encode chunk]) (chunks_of REPLICATION_CHUNK_SIZE (record_payload r)))"

definition encode_replication_effect :: "env \<Rightarrow> u64 \<Rightarrow> committed_batch \<Rightarrow> chunked_replication_record presult" where
  "encode_replication_effect E sequence batch =
     (if sequence = 0 then fail ''Replication effects require a non-zero sequence''
      else and_then (encode_committed_batch E batch) (\<lambda>payload.
        if MAX_BINLOG_RECORD_SIZE < length payload then fail ''Replication effect exceeds the format limit''
        else Inr \<lparr>record_header = [''APPLYEFFECT'', u64_to_string sequence, nat_to_string (length payload)],
               chunk_command = ''EFFECTCHUNK'', record_payload = payload\<rparr>))"

definition decode_replication_effect :: "env \<Rightarrow> bytes \<Rightarrow> bytes \<Rightarrow> (u64 \<times> committed_batch) presult" where
  "decode_replication_effect E sequence encoded =
     and_then (ok_or ''Invalid replication effect sequence'' (parse_u64 sequence)) (\<lambda>sequence.
       if sequence = 0 then fail ''Replication effects require a non-zero sequence''
       else and_then (decode_committed_batch E encoded) (\<lambda>batch. Inr (sequence, batch)))"

definition encode_full_sync_entry :: "env \<Rightarrow> bytes \<Rightarrow> data_entry \<Rightarrow> chunked_replication_record presult" where
  "encode_full_sync_entry E key entry = and_then (encode_snapshot_entry E key entry) (\<lambda>payload.
     Inr \<lparr>record_header = [''FULLSYNCENTRY'', nat_to_string (length payload)], chunk_command = ''FULLSYNCCHUNK'', record_payload = payload\<rparr>)"

section \<open>Reading records\<close>

definition replication_limits :: resp_limits where
  "replication_limits = \<lparr>max_array_len = 4, max_bulk_len = MAX_REPLICATION_FRAME_BULK_SIZE, max_inline_len = 1024,
     max_frame_len = MAX_REPLICATION_FRAME_BULK_SIZE + 4096\<rparr>"

definition read_replication_command :: "bytes list \<Rightarrow> (io_error + bytes list option) \<times> bytes list" where
  "read_replication_command chunks = read_command_with_limits replication_limits chunks"

definition persistence_upstream_unavailable :: "bytes \<Rightarrow> persistence_error" where
  "persistence_upstream_unavailable msg = \<lparr>message = msg, upstream_unavailable = True, indeterminate = False\<rparr>"

fun io_message :: "io_error \<Rightarrow> bytes" where
  "io_message (InvalidData msg) = msg"
| "io_message (UnexpectedEof msg) = msg"
| "io_message (TimedOut msg) = msg"

fun upstream_failure_counts_as_unreachable :: "io_error \<Rightarrow> bool" where
  "upstream_failure_counts_as_unreachable (InvalidData _) = False"
| "upstream_failure_counts_as_unreachable _ = True"

definition upstream_io_persistence_error :: "bytes \<Rightarrow> io_error \<Rightarrow> persistence_error" where
  "upstream_io_persistence_error context_text err =
     (let msg = context_text @ '': '' @ io_message err in
      if upstream_failure_counts_as_unreachable err then persistence_upstream_unavailable msg else persistence_error_new msg)"

text \<open>The checks on one frame of a payload: the bytes of the chunk.\<close>

definition chunk_bytes :: "bytes \<Rightarrow> nat \<Rightarrow> nat \<Rightarrow> bytes list \<Rightarrow> bytes presult" where
  "chunk_bytes command expected_length received arguments =
     (if length arguments \<noteq> 2 \<or> arguments ! 0 \<noteq> command then fail ''Master sent an unexpected replication chunk frame''
      else and_then (hex_decode (arguments ! 1)) (\<lambda>chunk.
        if chunk = [] \<or> REPLICATION_CHUNK_SIZE < length chunk then fail ''Replication chunk length exceeds the protocol limit''
        else and_then (ok_or ''Replication record length overflow'' (checked_add received (length chunk))) (\<lambda>new_length.
          if expected_length < new_length then fail ''Replication chunks exceed the declared record length''
          else Inr chunk)))"

lemma chunk_bytes_grows: "chunk_bytes command expected received arguments = Inr chunk \<Longrightarrow> chunk \<noteq> [] \<and> received + length chunk \<le> expected"
  by (auto simp: chunk_bytes_def and_then_Inr ok_or_Inr split: if_splits)

function read_chunks :: "bytes \<Rightarrow> nat \<Rightarrow> bytes \<Rightarrow> bytes list \<Rightarrow> bytes presult \<times> bytes list" where
  "read_chunks command expected_length received chunks =
     (if length received < expected_length
      then (case read_replication_command chunks of
          (Inl err, chunks1) \<Rightarrow> (Inl (upstream_io_persistence_error ''Unable to read a replication chunk'' err), chunks1)
        | (Inr None, chunks1) \<Rightarrow> (Inl (persistence_upstream_unavailable ''Master disconnected during a chunked replication record''), chunks1)
        | (Inr (Some arguments), chunks1) \<Rightarrow> (case chunk_bytes command expected_length (length received) arguments of
              Inl e \<Rightarrow> (Inl e, chunks1)
            | Inr chunk \<Rightarrow> read_chunks command expected_length (received @ chunk) chunks1))
      else (Inr received, chunks))"
  by pat_completeness auto
termination
  by (relation "measure (\<lambda>(_, expected, received, _). expected - length received)") (use chunk_bytes_grows in \<open>fastforce simp: diff_less_mono2\<close>)+

declare read_chunks.simps [simp del]

definition read_chunked_replication_payload :: "nat \<Rightarrow> nat \<Rightarrow> bytes \<Rightarrow> bytes list \<Rightarrow> bytes presult \<times> bytes list" where
  "read_chunked_replication_payload expected_length maximum_length command chunks =
     (if expected_length = 0 \<or> maximum_length < expected_length
      then (fail ''Replication record length exceeds the format limit'', chunks)
      else read_chunks command expected_length [] chunks)"

definition read_full_sync_entry :: "env \<Rightarrow> bytes list \<Rightarrow> (bytes \<times> data_entry) presult \<times> bytes list" where
  "read_full_sync_entry E chunks = (case read_replication_command chunks of
      (Inl err, chunks1) \<Rightarrow> (Inl (upstream_io_persistence_error ''Unable to read full synchronization entry'' err), chunks1)
    | (Inr None, chunks1) \<Rightarrow> (Inl (persistence_upstream_unavailable ''Master disconnected during full synchronization''), chunks1)
    | (Inr (Some arguments), chunks1) \<Rightarrow>
        if length arguments \<noteq> 2 \<or> arguments ! 0 \<noteq> ''FULLSYNCENTRY''
        then (fail ''Master sent an unexpected full synchronization frame'', chunks1)
        else (case parse_usize (arguments ! 1) of
            None \<Rightarrow> (fail ''Invalid full synchronization entry length'', chunks1)
          | Some expected_length \<Rightarrow>
              (case read_chunked_replication_payload expected_length MAX_SNAPSHOT_RECORD_SIZE ''FULLSYNCCHUNK'' chunks1 of
                (Inl e, chunks2) \<Rightarrow> (Inl e, chunks2)
              | (Inr payload, chunks2) \<Rightarrow> (decode_snapshot_entry E payload, chunks2))))"

definition read_replication_effect :: "env \<Rightarrow> bytes list \<Rightarrow> bytes list \<Rightarrow> (u64 \<times> committed_batch) presult \<times> bytes list" where
  "read_replication_effect E arguments chunks =
     (if length arguments \<noteq> 3 \<or> arguments ! 0 \<noteq> ''APPLYEFFECT''
      then (fail ''Master sent an unexpected replication effect frame'', chunks)
      else (case parse_usize (arguments ! 2) of
          None \<Rightarrow> (fail ''Invalid replication effect length'', chunks)
        | Some expected_length \<Rightarrow>
            (case read_chunked_replication_payload expected_length MAX_BINLOG_RECORD_SIZE ''EFFECTCHUNK'' chunks of
              (Inl e, chunks1) \<Rightarrow> (Inl e, chunks1)
            | (Inr payload, chunks1) \<Rightarrow> (decode_replication_effect E (arguments ! 1) payload, chunks1))))"

section \<open>Hexadecimal round trip\<close>

lemma nibble_HEX: "n < 16 \<Longrightarrow> nibble (HEX ! n) = Some n"
proof -
  assume "n < 16"
  then have "n \<in> {0, 1, 2, 3, 4, 5, 6, 7, 8, 9, 10, 11, 12, 13, 14, 15}" by (simp, presburger)
  then show ?thesis by (auto simp: HEX_def nibble_def between_def)
qed

lemma HEX_ascii: "n < 16 \<Longrightarrow> of_char (HEX ! n) < (128 :: nat)"
proof -
  assume "n < 16"
  then have "n \<in> {0, 1, 2, 3, 4, 5, 6, 7, 8, 9, 10, 11, 12, 13, 14, 15}" by (simp, presburger)
  then show ?thesis by (auto simp: HEX_def)
qed

lemma nibbles_less: "of_char (b :: byte) div 16 < (16 :: nat)" "of_char b mod 16 < (16 :: nat)"
  using of_char_less [of b] by (simp_all add: less_mult_imp_div_less)

lemma hex_encode_length [simp]: "length (hex_encode bs) = 2 * length bs"
  by (induction bs) (simp_all add: hex_encode_def)

lemma hex_encode_ascii: "is_ascii (hex_encode bs)"
  by (induction bs) (simp_all add: hex_encode_def is_ascii_def HEX_ascii nibbles_less)

lemma hex_roundtrip: "hex_decode (hex_encode bs) = Inr bs"
proof -
  have "hex_pairs (hex_encode bs) = Inr bs"
    by (induction bs) (simp_all add: hex_encode_def nibble_HEX nibbles_less)
  then show ?thesis by (simp add: hex_decode_def)
qed

section \<open>Frames\<close>

lemma encode_replication_frame: "encode_replication_command args = resp_frame args"
  by (simp add: encode_replication_command_def resp_frame_def header_def bulk_def [abs_def])

lemma replication_limits_ok: "limits_ok replication_limits"
  by (simp add: limits_ok_def replication_limits_def MAX_REPLICATION_FRAME_BULK_SIZE_def REPLICATION_CHUNK_SIZE_def usize_max_def)

lemma resp_frame_length:
  assumes "length args \<le> usize_max" and "list_all (\<lambda>a. length a \<le> usize_max) args"
  shows "length (resp_frame args) \<le> 23 + sum_list (map length args) + 25 * length args"
proof -
  have "length (concat (map bulk args)) \<le> sum_list (map length args) + 25 * length args"
    using assms(2)
  proof (induction args)
    case (Cons a args)
    from Cons.prems have "length (nat_to_string (length a)) \<le> 20"
      using nat_to_string_length [of "length a" 19] by (simp add: usize_max_def)
    with Cons show ?case by (simp add: bulk_length)
  qed simp
  with header_length(1) [OF assms(1), of "CHR ''*''"] show ?thesis by (simp add: resp_frame_def)
qed

lemma read_replication_frame:
  assumes "args \<noteq> []" and "length args \<le> 4" and "list_all is_ascii args"
    and "sum_list (map length args) \<le> MAX_REPLICATION_FRAME_BULK_SIZE"
    and "concat chunks = encode_replication_command args @ rest"
  shows "\<exists>chunks'. read_replication_command chunks = (Inr (Some args), chunks') \<and> concat chunks' = rest"
proof -
  have each: "length a \<le> MAX_REPLICATION_FRAME_BULK_SIZE" if "a \<in> set args" for a
    using member_le_sum_list [of "length a" "map length args"] that assms(4) by simp
  have big: "MAX_REPLICATION_FRAME_BULK_SIZE \<le> usize_max"
    by (simp add: MAX_REPLICATION_FRAME_BULK_SIZE_def REPLICATION_CHUNK_SIZE_def usize_max_def)
  have "length args \<le> usize_max" using assms(2) by (simp add: usize_max_def)
  moreover have "list_all (\<lambda>a. length a \<le> usize_max) args" using each big by (meson list_all_iff le_trans)
  ultimately have "length (resp_frame args) \<le> max_frame_len replication_limits"
    using resp_frame_length assms(2,4) by (fastforce simp: replication_limits_def)
  moreover have "list_all (\<lambda>a. utf8_valid a \<and> length a \<le> max_bulk_len replication_limits) args"
    using assms(3) each by (simp add: list_all_iff replication_limits_def utf8_valid_ascii)
  ultimately show ?thesis unfolding read_replication_command_def
    using assms(1,2,5) replication_limits_ok
    by (intro read_resp_frame) (simp_all add: encode_replication_frame, simp add: replication_limits_def)
qed

section \<open>Chunked payloads\<close>

lemma chunks_of_Nil [simp]: "chunks_of n [] = []"
  by (simp add: chunks_of.simps)

lemma chunks_of_step: "xs \<noteq> [] \<Longrightarrow> 0 < n \<Longrightarrow> chunks_of n xs = take n xs # chunks_of n (drop n xs)"
  by (subst chunks_of.simps) simp

lemma chunk_bytes_frame:
  assumes "chunk \<noteq> []" and "length chunk \<le> REPLICATION_CHUNK_SIZE" and "received + length chunk \<le> expected" and "expected \<le> usize_max"
  shows "chunk_bytes command expected received [command, hex_encode chunk] = Inr chunk"
  using assms by (simp add: chunk_bytes_def hex_roundtrip checked_add_def)

definition chunk_frames :: "bytes \<Rightarrow> bytes \<Rightarrow> bytes" where
  "chunk_frames command bs = concat (map (\<lambda>chunk. encode_replication_command [command, hex_encode chunk]) (chunks_of REPLICATION_CHUNK_SIZE bs))"

lemma read_chunks_frames:
  assumes "is_ascii command" and "length command \<le> 64" and "expected \<le> usize_max"
  shows "length received + length bs = expected \<Longrightarrow> concat chunks = chunk_frames command bs @ rest \<Longrightarrow>
    \<exists>chunks'. read_chunks command expected received chunks = (Inr (received @ bs), chunks') \<and> concat chunks' = rest"
proof (induction "length bs" arbitrary: received bs chunks rule: less_induct)
  case less
  show ?case
  proof (cases "bs = []")
    case True
    with less.prems show ?thesis by (subst read_chunks.simps) (simp add: chunk_frames_def)
  next
    case False
    define c where "c = take REPLICATION_CHUNK_SIZE bs"
    define bs' where "bs' = drop REPLICATION_CHUNK_SIZE bs"
    have split: "bs = c @ bs'" by (simp add: c_def bs'_def)
    have pos: "0 < REPLICATION_CHUNK_SIZE" by (simp add: REPLICATION_CHUNK_SIZE_def)
    have c: "c \<noteq> []" "length c \<le> REPLICATION_CHUNK_SIZE" using False pos by (simp_all add: c_def)
    have frames: "concat chunks = encode_replication_command [command, hex_encode c] @ (chunk_frames command bs' @ rest)"
      using less.prems(2) chunks_of_step [OF False pos] by (simp add: chunk_frames_def c_def bs'_def)
    have "\<exists>chunks1. read_replication_command chunks = (Inr (Some [command, hex_encode c]), chunks1) \<and> concat chunks1 = chunk_frames command bs' @ rest"
      using assms(1,2) c(2) frames hex_encode_ascii by (intro read_replication_frame) (simp_all add: MAX_REPLICATION_FRAME_BULK_SIZE_def)
    then obtain chunks1 where r: "read_replication_command chunks = (Inr (Some [command, hex_encode c]), chunks1)"
      "concat chunks1 = chunk_frames command bs' @ rest" by blast
    have len: "length received + length c + length bs' = expected" using less.prems(1) split by simp
    then have fit: "length received + length c \<le> expected" and more: "length received < expected"
      using c(1) by (simp, cases c) simp_all
    have "chunk_bytes command expected (length received) [command, hex_encode c] = Inr c"
      by (rule chunk_bytes_frame [OF c fit assms(3)])
    then have step: "read_chunks command expected received chunks = read_chunks command expected (received @ c) chunks1"
      using r(1) more by (subst read_chunks.simps) simp
    have "length bs' < length bs" using split c(1) by simp
    from less.hyps [OF this, of "received @ c" chunks1] len r(2) step split show ?thesis by simp
  qed
qed

lemma read_payload:
  assumes "is_ascii command" and "length command \<le> 64" and "bs \<noteq> []" and "length bs \<le> maximum" and "maximum \<le> usize_max"
    and "concat chunks = chunk_frames command bs @ rest"
  shows "\<exists>chunks'. read_chunked_replication_payload (length bs) maximum command chunks = (Inr bs, chunks') \<and> concat chunks' = rest"
  using read_chunks_frames [OF assms(1,2), of "length bs" "[]" bs chunks rest] assms
  by (simp add: read_chunked_replication_payload_def)


section \<open>Records\<close>

lemma effect_record_read:
  assumes "encode_replication_effect E sequence batch = Inr r" and "list_all (effect_encodable E) (effects batch)"
    and "concat chunks = write_chunked_replication_record r @ rest"
  shows "\<exists>c c'. read_replication_command chunks = (Inr (Some (record_header r)), c) \<and> hd (record_header r) = ''APPLYEFFECT'' \<and>
    read_replication_effect E (record_header r) c = (Inr (sequence, batch), c') \<and> concat c' = rest"
proof -
  from assms(1) obtain bs where s: "sequence \<noteq> 0" and bs: "encode_committed_batch E batch = Inr bs"
    and r: "r = \<lparr>record_header = [''APPLYEFFECT'', u64_to_string sequence, nat_to_string (length bs)], chunk_command = ''EFFECTCHUNK'', record_payload = bs\<rparr>"
    by (auto simp: encode_replication_effect_def and_then_Inr split: if_splits)
  note codec = committed_batch_codec [OF bs assms(2)]
  have max: "MAX_BINLOG_RECORD_SIZE \<le> usize_max" by (simp add: MAX_BINLOG_RECORD_SIZE_def usize_max_def)
  have digits: "length (u64_to_string sequence) \<le> 20" "length (nat_to_string (length bs)) \<le> 20"
    using nat_to_string_length [of "unat sequence" 19] nat_to_string_length [of "length bs" 19] unat_u64_less [of sequence] codec max
    by (simp_all add: u64_to_string_def usize_max_def)
  have ascii: "is_ascii (u64_to_string sequence)" "is_ascii (nat_to_string (length bs))"
    using nat_to_string_digits by (force simp: is_ascii_def u64_to_string_def list_all_iff between_def)+
  have split: "concat chunks = encode_replication_command (record_header r) @ (chunk_frames ''EFFECTCHUNK'' bs @ rest)"
    using assms(3) r by (simp add: write_chunked_replication_record_def chunk_frames_def)
  have "\<exists>c. read_replication_command chunks = (Inr (Some (record_header r)), c) \<and> concat c = chunk_frames ''EFFECTCHUNK'' bs @ rest"
    using split r digits ascii
    by (intro read_replication_frame) (simp_all add: MAX_REPLICATION_FRAME_BULK_SIZE_def REPLICATION_CHUNK_SIZE_def is_ascii_def)
  then obtain c where c: "read_replication_command chunks = (Inr (Some (record_header r)), c)" "concat c = chunk_frames ''EFFECTCHUNK'' bs @ rest"
    by blast
  have "\<exists>c'. read_chunked_replication_payload (length bs) MAX_BINLOG_RECORD_SIZE ''EFFECTCHUNK'' c = (Inr bs, c') \<and> concat c' = rest"
    by (rule read_payload) (use codec max c(2) in \<open>simp_all add: is_ascii_def\<close>)
  then obtain c' where p: "read_chunked_replication_payload (length bs) MAX_BINLOG_RECORD_SIZE ''EFFECTCHUNK'' c = (Inr bs, c')" "concat c' = rest"
    by blast
  have "length bs \<le> usize_max" using codec max by simp
  then have "read_replication_effect E (record_header r) c = (Inr (sequence, batch), c')"
    using p(1) r s codec by (simp add: read_replication_effect_def decode_replication_effect_def numeral_2_eq_2)
  with c(1) p(2) r show ?thesis by simp
qed

lemma entry_record_read:
  assumes "encode_full_sync_entry E key entry = Inr r" and "encodable E (entry_value entry)" and "expires_at entry \<noteq> Some 0"
    and "concat chunks = write_chunked_replication_record r @ rest"
  shows "\<exists>c. read_full_sync_entry E chunks = (Inr (key, entry\<lparr>created_at := now E, last_accessed := now E\<rparr>), c) \<and> concat c = rest"
proof -
  from assms(1) obtain bs where bs: "encode_snapshot_entry E key entry = Inr bs"
    and r: "r = \<lparr>record_header = [''FULLSYNCENTRY'', nat_to_string (length bs)], chunk_command = ''FULLSYNCCHUNK'', record_payload = bs\<rparr>"
    by (auto simp: encode_full_sync_entry_def and_then_Inr)
  have max: "MAX_SNAPSHOT_RECORD_SIZE \<le> usize_max" by (simp add: MAX_SNAPSHOT_RECORD_SIZE_def usize_max_def)
  have len: "length bs \<le> MAX_SNAPSHOT_RECORD_SIZE" using bs by (rule encode_snapshot_entry_bound)
  have ne: "bs \<noteq> []"
    using bs by (auto simp: encode_snapshot_entry_def and_then_Inr append_snapshot_bytes_Inr Let_def frame_def write_u32_be_def split: if_splits)
  have digits: "length (nat_to_string (length bs)) \<le> 20"
    using nat_to_string_length [of "length bs" 19] len max by (simp add: usize_max_def)
  have ascii: "is_ascii (nat_to_string (length bs))"
    using nat_to_string_digits by (force simp: is_ascii_def list_all_iff between_def)
  have split: "concat chunks = encode_replication_command (record_header r) @ (chunk_frames ''FULLSYNCCHUNK'' bs @ rest)"
    using assms(4) r by (simp add: write_chunked_replication_record_def chunk_frames_def)
  have "\<exists>c. read_replication_command chunks = (Inr (Some (record_header r)), c) \<and> concat c = chunk_frames ''FULLSYNCCHUNK'' bs @ rest"
    using split r digits ascii
    by (intro read_replication_frame) (simp_all add: MAX_REPLICATION_FRAME_BULK_SIZE_def REPLICATION_CHUNK_SIZE_def is_ascii_def)
  then obtain c where c: "read_replication_command chunks = (Inr (Some (record_header r)), c)" "concat c = chunk_frames ''FULLSYNCCHUNK'' bs @ rest"
    by blast
  have "\<exists>c'. read_chunked_replication_payload (length bs) MAX_SNAPSHOT_RECORD_SIZE ''FULLSYNCCHUNK'' c = (Inr bs, c') \<and> concat c' = rest"
    by (rule read_payload) (use ne len max c(2) in \<open>simp_all add: is_ascii_def\<close>)
  then obtain c' where p: "read_chunked_replication_payload (length bs) MAX_SNAPSHOT_RECORD_SIZE ''FULLSYNCCHUNK'' c = (Inr bs, c')" "concat c' = rest"
    by blast
  have "length bs \<le> usize_max" using len max by simp
  with c(1) p r snapshot_entry_roundtrip [OF bs assms(2,3)] show ?thesis by (simp add: read_full_sync_entry_def)
qed

section \<open>Properties\<close>

text \<open>
  C30. Replication records survive the connection. The bytes written for a committed batch, a
  header and then its encoding in hexadecimal chunks of at most 256 KiB, are read back as that
  sequence and batch however the connection cuts them into pieces, and exactly the bytes after the
  record are left. The same holds for an entry of a full synchronization, whose access times are
  those of the receiver.
\<close>

theorem replication_records_roundtrip:
  assumes "concat chunks = write_chunked_replication_record r @ rest"
  shows "(encode_replication_effect E sequence batch = Inr r \<and> list_all (effect_encodable E) (effects batch) \<longrightarrow>
      (\<exists>arguments c c'. read_replication_command chunks = (Inr (Some arguments), c) \<and>
        read_replication_effect E arguments c = (Inr (sequence, batch), c') \<and> concat c' = rest)) \<and>
    (encode_full_sync_entry E key entry = Inr r \<and> encodable E (entry_value entry) \<and> expires_at entry \<noteq> Some 0 \<longrightarrow>
      (\<exists>c. read_full_sync_entry E chunks = (Inr (key, entry\<lparr>created_at := now E, last_accessed := now E\<rparr>), c) \<and> concat c = rest))"
  using effect_record_read [OF _ _ assms] entry_record_read [OF _ _ _ assms] by blast

definition cut :: "nat \<Rightarrow> bytes \<Rightarrow> bytes list" where
  "cut n bs = [take n bs, drop n bs]"

theorem replication_records_roundtrip_witness:
  "\<exists>r arguments c c'. encode_replication_effect sample_env 5 sample_batch = Inr r \<and>
     read_replication_command (cut 3 (write_chunked_replication_record r @ ''*'')) = (Inr (Some arguments), c) \<and>
     read_replication_effect sample_env arguments c = (Inr (5, sample_batch), c') \<and> concat c' = ''*''"
proof -
  have "\<exists>encoded. encode_committed_batch sample_env sample_batch = Inr encoded"
    by (simp add: encode_simps sample_batch_def tag_def)
  moreover have enc: "list_all (effect_encodable sample_env) (effects sample_batch)" by (simp add: sample_batch_def)
  ultimately obtain r where r: "encode_replication_effect sample_env 5 sample_batch = Inr r"
    using committed_batch_codec [of sample_env sample_batch] by (auto simp: encode_replication_effect_def)
  have "concat (cut 3 (write_chunked_replication_record r @ ''*'')) = write_chunked_replication_record r @ ''*''"
    by (simp add: cut_def del: take_append drop_append)
  from replication_records_roundtrip [OF this, of sample_env 5 sample_batch] r enc show ?thesis by blast
qed

end
