(* ===== verification/Runtime.thy ===== *)
theory Runtime
  imports Binlog_File
begin

text \<open>
  The commit runtime of \<open>src/persistence/runtime.rs\<close>: its counters and flags, the acceptance of
  committed batches through the binlog worker, the requests for maintenance and the write budget.
  The record extends to the server's \<open>Persistence\<close>, which dereferences to it.
\<close>

section \<open>State\<close>

definition COMPACTION_PREFLUSH_WRITE_BUDGET_BYTES :: u64 where
  "COMPACTION_PREFLUSH_WRITE_BUDGET_BYTES = 8 * 1024 * 1024"

definition BINLOG_GENERATION_TARGET_BYTES :: u64 where
  "BINLOG_GENERATION_TARGET_BYTES = 16 * 1024 * 1024"

definition BINLOG_GENERATION_ADMISSION_LIMIT_BYTES :: u64 where
  "BINLOG_GENERATION_ADMISSION_LIMIT_BYTES = BINLOG_GENERATION_TARGET_BYTES + COMPACTION_PREFLUSH_WRITE_BUDGET_BYTES"

definition MAX_BINLOG_SEGMENTS :: nat where
  "MAX_BINLOG_SEGMENTS = 1024"

definition MAX_UNSNAPSHOTTED_BINLOG_SEGMENTS :: nat where
  "MAX_UNSNAPSHOTTED_BINLOG_SEGMENTS = 256"

definition BINLOG_SEGMENT_SNAPSHOT_PRESSURE :: nat where
  "BINLOG_SEGMENT_SNAPSHOT_PRESSURE = MAX_BINLOG_SEGMENTS - MAX_UNSNAPSHOTTED_BINLOG_SEGMENTS"

definition BINLOG_SEGMENT_ROLLOVER_LIMIT :: nat where
  "BINLOG_SEGMENT_ROLLOVER_LIMIT = MAX_BINLOG_SEGMENTS - 1"

definition WRITE_BUDGET_OPEN :: u64 where
  "WRITE_BUDGET_OPEN = - 1"

text \<open>
  What happens to a message for the binlog worker: it is handled and answered, the worker is gone
  before it is sent, or the answer is lost before or after the message was handled.
\<close>

datatype channel_fate = Answered | WorkerGone | LostBefore | LostAfter

record commit_runtime =
  binlog :: managed_binlog
  channel :: "channel_fate list"
  fsync :: fsync_policy
  write_count :: nat
  accepted_binlog_bytes :: u64
  active_binlog_bytes :: u64
  unsnapshotted_segment_count :: nat
  physical_segment_count :: nat
  snapshot_watermark :: u64
  segment_cleanup_blocked :: bool
  segment_catalog_unavailable :: bool
  compaction_entry_floor :: nat
  compaction_write_budget_limit :: u64
  compaction_pending :: bool
  rollover_pending :: bool
  accepting_writes :: bool
  repl_offset :: u64
  failure :: "bytes option"
  fail_stop_started :: bool
  fail_stop_reason :: "bytes option"

definition runtime_new :: "managed_binlog \<Rightarrow> fsync_policy \<Rightarrow> u64 \<Rightarrow> commit_runtime" where
  "runtime_new file policy initial_sequence = \<lparr>binlog = file, channel = [], fsync = policy, write_count = 0,
     accepted_binlog_bytes = 0, active_binlog_bytes = 0, unsnapshotted_segment_count = 0, physical_segment_count = 0,
     snapshot_watermark = 0, segment_cleanup_blocked = False, segment_catalog_unavailable = False,
     compaction_entry_floor = 0, compaction_write_budget_limit = WRITE_BUDGET_OPEN, compaction_pending = False,
     rollover_pending = False, accepting_writes = True, repl_offset = initial_sequence, failure = None,
     fail_stop_started = False, fail_stop_reason = None\<rparr>"

section \<open>Maintenance\<close>

record maintenance_request =
  want_snapshot :: bool
  want_rollover :: bool

definition compaction_record_threshold :: "nat \<Rightarrow> 'a commit_runtime_scheme \<Rightarrow> nat" where
  "compaction_record_threshold minimum rt = max minimum (compaction_entry_floor rt)"

definition catalog_pressure :: "'a commit_runtime_scheme \<Rightarrow> bool" where
  "catalog_pressure rt \<longleftrightarrow> BINLOG_SEGMENT_SNAPSHOT_PRESSURE \<le> physical_segment_count rt \<and> \<not> segment_cleanup_blocked rt"

definition request_snapshot_if_needed :: "nat \<Rightarrow> 'a commit_runtime_scheme \<Rightarrow> bool \<times> 'a commit_runtime_scheme" where
  "request_snapshot_if_needed compaction_threshold rt =
     (if (compaction_record_threshold compaction_threshold rt \<le> write_count rt \<or>
          MAX_UNSNAPSHOTTED_BINLOG_SEGMENTS \<le> unsnapshotted_segment_count rt \<or> catalog_pressure rt) \<and> \<not> compaction_pending rt
      then (True, rt\<lparr>compaction_pending := True\<rparr>) else (False, rt))"

definition request_rollover_if_needed :: "'a commit_runtime_scheme \<Rightarrow> bool \<times> 'a commit_runtime_scheme" where
  "request_rollover_if_needed rt =
     (if BINLOG_GENERATION_TARGET_BYTES \<le> active_binlog_bytes rt \<and> physical_segment_count rt < BINLOG_SEGMENT_ROLLOVER_LIMIT \<and>
         \<not> catalog_pressure rt \<and> \<not> rollover_pending rt
      then (True, rt\<lparr>rollover_pending := True\<rparr>) else (False, rt))"

definition request_maintenance_if_needed :: "nat \<Rightarrow> 'a commit_runtime_scheme \<Rightarrow> maintenance_request \<times> 'a commit_runtime_scheme" where
  "request_maintenance_if_needed compaction_threshold rt =
     (case request_snapshot_if_needed compaction_threshold rt of (s, rt1) \<Rightarrow>
       (case request_rollover_if_needed rt1 of (r, rt2) \<Rightarrow> (\<lparr>want_snapshot = s, want_rollover = r\<rparr>, rt2)))"

definition record_persisted_writes :: "nat \<Rightarrow> nat \<Rightarrow> 'a commit_runtime_scheme \<Rightarrow> maintenance_request \<times> 'a commit_runtime_scheme" where
  "record_persisted_writes count compaction_threshold rt =
     request_maintenance_if_needed compaction_threshold (rt\<lparr>write_count := (write_count rt + count) mod 2 ^ 64\<rparr>)"

definition finish_compaction_schedule_and_rearm :: "nat \<Rightarrow> bool \<Rightarrow> 'a commit_runtime_scheme \<Rightarrow> maintenance_request \<times> 'a commit_runtime_scheme" where
  "finish_compaction_schedule_and_rearm compaction_threshold retry_immediately rt =
     (let rt = rt\<lparr>compaction_pending := False\<rparr> in
      if retry_immediately then request_maintenance_if_needed compaction_threshold rt
      else (case request_rollover_if_needed rt of (r, rt1) \<Rightarrow> (\<lparr>want_snapshot = False, want_rollover = r\<rparr>, rt1)))"

definition finish_rollover_schedule_and_rearm :: "nat \<Rightarrow> bool \<Rightarrow> 'a commit_runtime_scheme \<Rightarrow> maintenance_request \<times> 'a commit_runtime_scheme" where
  "finish_rollover_schedule_and_rearm compaction_threshold retry_immediately rt =
     (let rt = rt\<lparr>rollover_pending := False\<rparr> in
      if retry_immediately then request_maintenance_if_needed compaction_threshold rt
      else (case request_snapshot_if_needed compaction_threshold rt of (s, rt1) \<Rightarrow> (\<lparr>want_snapshot = s, want_rollover = False\<rparr>, rt1)))"

definition restore_maintenance_state :: "nat \<Rightarrow> u64 \<Rightarrow> nat \<Rightarrow> nat \<Rightarrow> u64 \<Rightarrow> 'a commit_runtime_scheme \<Rightarrow> 'a commit_runtime_scheme" where
  "restore_maintenance_state replayed_records active unsnapshotted physical watermark rt =
     rt\<lparr>write_count := replayed_records, active_binlog_bytes := active, unsnapshotted_segment_count := unsnapshotted,
        physical_segment_count := physical, snapshot_watermark := watermark, segment_cleanup_blocked := False,
        segment_catalog_unavailable := False\<rparr>"

text \<open>The assertion on the catalog limit is the \<open>None\<close> branch.\<close>

definition record_sealed_segment :: "nat \<Rightarrow> 'a commit_runtime_scheme \<Rightarrow> 'a commit_runtime_scheme option" where
  "record_sealed_segment sealed_bytes rt =
     (if sealed_bytes = 0 then Some rt
      else if MAX_BINLOG_SEGMENTS \<le> physical_segment_count rt then None
      else Some (rt\<lparr>physical_segment_count := physical_segment_count rt + 1,
             unsnapshotted_segment_count := (unsnapshotted_segment_count rt + 1) mod 2 ^ 64, segment_cleanup_blocked := False\<rparr>))"

definition install_baseline :: "u64 \<Rightarrow> nat \<Rightarrow> 'a commit_runtime_scheme \<Rightarrow> 'a commit_runtime_scheme" where
  "install_baseline sequence live_entries rt = rt\<lparr>repl_offset := sequence, write_count := 0, accepted_binlog_bytes := 0,
     active_binlog_bytes := 0, unsnapshotted_segment_count := 0, physical_segment_count := 0, snapshot_watermark := sequence,
     segment_cleanup_blocked := False, segment_catalog_unavailable := False, compaction_entry_floor := live_entries\<rparr>"

section \<open>Back pressure\<close>

definition rollover_backpressure_active :: "'a commit_runtime_scheme \<Rightarrow> bool" where
  "rollover_backpressure_active rt \<longleftrightarrow> rollover_pending rt \<and> BINLOG_GENERATION_ADMISSION_LIMIT_BYTES \<le> active_binlog_bytes rt"

definition segment_catalog_backpressure_active :: "'a commit_runtime_scheme \<Rightarrow> bool" where
  "segment_catalog_backpressure_active rt \<longleftrightarrow>
     (BINLOG_SEGMENT_ROLLOVER_LIMIT \<le> physical_segment_count rt \<or> segment_catalog_unavailable rt) \<and>
     BINLOG_GENERATION_ADMISSION_LIMIT_BYTES \<le> active_binlog_bytes rt"

definition compaction_write_budget_allows_progress :: "'a commit_runtime_scheme \<Rightarrow> bool" where
  "compaction_write_budget_allows_progress rt \<longleftrightarrow>
     (compaction_write_budget_limit rt = WRITE_BUDGET_OPEN \<or> accepted_binlog_bytes rt < compaction_write_budget_limit rt) \<and>
     \<not> rollover_backpressure_active rt \<and> \<not> segment_catalog_backpressure_active rt"

text \<open>The exclusive ownership assertion is the \<open>None\<close> branch.\<close>

definition activate_compaction_write_budget :: "'a commit_runtime_scheme \<Rightarrow> 'a commit_runtime_scheme option" where
  "activate_compaction_write_budget rt =
     (let limit = (case u64_checked_add (accepted_binlog_bytes rt) COMPACTION_PREFLUSH_WRITE_BUDGET_BYTES of
          Some l \<Rightarrow> l | None \<Rightarrow> WRITE_BUDGET_OPEN - 1)
      in if compaction_write_budget_limit rt = WRITE_BUDGET_OPEN
         then Some (rt\<lparr>compaction_write_budget_limit := limit\<rparr>) else None)"

definition release_compaction_write_budget :: "'a commit_runtime_scheme \<Rightarrow> 'a commit_runtime_scheme" where
  "release_compaction_write_budget rt = rt\<lparr>compaction_write_budget_limit := WRITE_BUDGET_OPEN\<rparr>"

definition record_accepted_binlog_bytes :: "nat \<Rightarrow> 'a commit_runtime_scheme \<Rightarrow> 'a commit_runtime_scheme" where
  "record_accepted_binlog_bytes accepted rt =
     (let bytes64 = (if accepted < 2 ^ 64 then word_of_nat accepted else - 1) in
      rt\<lparr>accepted_binlog_bytes := u64_saturating_add (accepted_binlog_bytes rt) bytes64,
         active_binlog_bytes := u64_saturating_add (active_binlog_bytes rt) bytes64\<rparr>)"

section \<open>Accepting batches\<close>

definition persistence_indeterminate :: "bytes \<Rightarrow> persistence_error" where
  "persistence_indeterminate msg = \<lparr>message = msg, upstream_unavailable = False, indeterminate = True\<rparr>"

definition next_fate :: "'a commit_runtime_scheme \<Rightarrow> channel_fate \<times> 'a commit_runtime_scheme" where
  "next_fate rt = (case channel rt of [] \<Rightarrow> (Answered, rt) | c # cs \<Rightarrow> (c, rt\<lparr>channel := cs\<rparr>))"

definition group_length :: "(u64 \<times> bytes) list \<Rightarrow> nat presult" where
  "group_length records = fold (\<lambda>(_, r) total. and_then total (\<lambda>t. and_then (framed_versioned_binlog_record_length (length r))
     (\<lambda>len. ok_or ''Binlog append group length overflow'' (checked_add t len)))) records (Inr 0)"

definition append_records :: "env \<Rightarrow> (u64 \<times> bytes) list \<Rightarrow> 'a commit_runtime_scheme \<Rightarrow> nat presult \<times> 'a commit_runtime_scheme" where
  "append_records E records rt = (case group_length records of
      Inl e \<Rightarrow> (Inl e, rt)
    | Inr physical_bytes \<Rightarrow>
        (case next_fate rt of (fate, rt1) \<Rightarrow>
          (case append_binlog_records E records (fsync rt1) (binlog rt1) of (result, file) \<Rightarrow>
            (case fate of
               WorkerGone \<Rightarrow> (fail ''Binlog worker is unavailable'', rt1)
             | LostBefore \<Rightarrow> (Inl (persistence_indeterminate ''Binlog append completion was dropped''), rt1)
             | LostAfter \<Rightarrow> (Inl (persistence_indeterminate ''Binlog append completion was dropped''), rt1\<lparr>binlog := file\<rparr>)
             | Answered \<Rightarrow> ((case result of Inr _ \<Rightarrow> Inr physical_bytes | Inl e \<Rightarrow> Inl (into_persistence_error e)),
                           rt1\<lparr>binlog := file\<rparr>)))))"

fun encode_batches :: "env \<Rightarrow> (u64 \<times> committed_batch) list \<Rightarrow> (u64 \<times> bytes) list presult" where
  "encode_batches E [] = Inr []"
| "encode_batches E ((sequence, batch) # batches) = and_then (encode_committed_batch E batch) (\<lambda>r.
     and_then (encode_batches E batches) (\<lambda>rs. Inr ((sequence, r) # rs)))"

definition append_batches :: "env \<Rightarrow> (u64 \<times> committed_batch) list \<Rightarrow> 'a commit_runtime_scheme \<Rightarrow> nat presult \<times> 'a commit_runtime_scheme" where
  "append_batches E batches rt =
     (if batches = [] then (fail ''A binlog append group must contain at least one committed batch'', rt)
      else (case encode_batches E batches of Inl e \<Rightarrow> (Inl e, rt) | Inr records \<Rightarrow> append_records E records rt))"

definition next_sequence :: "'a commit_runtime_scheme \<Rightarrow> u64 presult" where
  "next_sequence rt = ok_or ''Persistence sequence is exhausted'' (u64_checked_add (repl_offset rt) 1)"

definition sequence_mismatch :: "u64 \<Rightarrow> u64 \<Rightarrow> bytes" where
  "sequence_mismatch expected sequence = ''Persistence sequence mismatch: expected '' @ u64_to_string expected @ '', received '' @ u64_to_string sequence"

fun check_sequences :: "u64 option \<Rightarrow> (u64 \<times> committed_batch) list \<Rightarrow> unit presult" where
  "check_sequences expected [] = Inr ()"
| "check_sequences expected ((sequence, _) # batches) = (case expected of
      None \<Rightarrow> fail ''Persistence sequence is exhausted''
    | Some e \<Rightarrow> if sequence \<noteq> e then fail (sequence_mismatch e sequence)
                else check_sequences (u64_checked_add e 1) batches)"

definition accept_next_batch :: "env \<Rightarrow> u64 \<Rightarrow> committed_batch \<Rightarrow> nat \<Rightarrow> 'a commit_runtime_scheme \<Rightarrow>
    maintenance_request presult \<times> 'a commit_runtime_scheme" where
  "accept_next_batch E sequence batch compaction_threshold rt = (case next_sequence rt of
      Inl e \<Rightarrow> (Inl e, rt)
    | Inr expected \<Rightarrow>
        if sequence \<noteq> expected then (fail (sequence_mismatch expected sequence), rt)
        else (case append_batches E [(sequence, batch)] rt of
            (Inl e, rt1) \<Rightarrow> (Inl e, rt1)
          | (Inr accepted_bytes, rt1) \<Rightarrow>
              apfst Inr (record_persisted_writes 1 compaction_threshold
                ((record_accepted_binlog_bytes accepted_bytes rt1)\<lparr>repl_offset := sequence\<rparr>))))"

definition accept_next_batches :: "env \<Rightarrow> (u64 \<times> committed_batch) list \<Rightarrow> nat \<Rightarrow> 'a commit_runtime_scheme \<Rightarrow>
    maintenance_request presult \<times> 'a commit_runtime_scheme" where
  "accept_next_batches E batches compaction_threshold rt =
     (if batches = [] then (fail ''A persistence group must contain at least one committed batch'', rt)
      else (case next_sequence rt of
          Inl e \<Rightarrow> (Inl e, rt)
        | Inr expected \<Rightarrow> (case check_sequences (Some expected) batches of
              Inl e \<Rightarrow> (Inl e, rt)
            | Inr _ \<Rightarrow> (case append_batches E batches rt of
                  (Inl e, rt1) \<Rightarrow> (Inl e, rt1)
                | (Inr accepted_bytes, rt1) \<Rightarrow>
                    apfst Inr (record_persisted_writes (length batches) compaction_threshold
                      ((record_accepted_binlog_bytes accepted_bytes rt1)\<lparr>repl_offset := fst (last batches)\<rparr>))))))"

section \<open>Failure states\<close>

definition enter_fail_stop :: "bytes \<Rightarrow> 'a commit_runtime_scheme \<Rightarrow> 'a commit_runtime_scheme" where
  "enter_fail_stop msg rt = rt\<lparr>fail_stop_started := True,
     fail_stop_reason := (if fail_stop_reason rt = None then Some msg else fail_stop_reason rt),
     failure := (if failure rt = None then Some msg else failure rt), accepting_writes := False\<rparr>"


section \<open>What acceptance does\<close>

definition log_bytes :: "env \<Rightarrow> (u64 \<times> bytes) list \<Rightarrow> bytes" where
  "log_bytes E records = concat (map (\<lambda>(sequence, r). frame (binlog_record E sequence r)) records)"

lemma encode_tail: "fold (\<lambda>(sequence, r) tail. and_then tail (encode_framed_versioned_binlog_record_into E sequence r)) records (Inr out) = Inr tail \<Longrightarrow>
    tail = out @ log_bytes E records \<and> (\<forall>(sequence, r) \<in> set records. binlog_ok sequence r)"
proof (induction records arbitrary: out)
  case (Cons x records)
  obtain s r where x: "x = (s, r)" by (cases x)
  have bad: "fold (\<lambda>(sequence, r) tail. and_then tail (encode_framed_versioned_binlog_record_into E sequence r)) xs (Inl e) = Inl e" for xs and e :: persistence_error
    by (induction xs) (auto simp: and_then_def)
  show ?case
  proof (cases "encode_framed_versioned_binlog_record_into E s r out")
    case (Inl e)
    with Cons.prems x bad show ?thesis by (simp add: and_then_def)
  next
    case (Inr out')
    with Cons.prems x Cons.IH [of out'] show ?thesis by (auto simp: and_then_def encode_framed_Inr log_bytes_def)
  qed
qed (simp add: log_bytes_def)

lemma append_binlog_records_spec:
  assumes "append_binlog_records E records policy f = (r, f')"
  shows "\<exists>p. prefix p (log_bytes E records) \<and> active_bytes f' = active_bytes f @ p"
    and "r = Inr () \<Longrightarrow> active_bytes f' = active_bytes f @ log_bytes E records \<and> segments f' = segments f \<and>
      (\<forall>(sequence, x) \<in> set records. binlog_ok sequence x)"
    and "r = Inl e \<Longrightarrow> disposition e = Rejected \<Longrightarrow> active_bytes f' = active_bytes f"
    and "active_bytes f \<noteq> [] \<Longrightarrow> segments f' = segments f"
proof -
  let ?tail = "fold (\<lambda>(sequence, r) tail. and_then tail (encode_framed_versioned_binlog_record_into E sequence r)) records (Inr [])"
  consider (early) e where "r = Inl (rejected e)" "f' = f"
    | (run) "?tail = Inr (log_bytes E records)" "append_binlog_tail (log_bytes E records) policy f = (r, f')"
      "\<forall>(sequence, x) \<in> set records. binlog_ok sequence x"
  proof -
    define len where "len = fold (\<lambda>(_, r) total. and_then total (\<lambda>t. and_then (framed_versioned_binlog_record_length (length r))
        (\<lambda>len. ok_or ''Binlog append group exceeds addressable memory'' (checked_add t len)))) records (Inr 0)"
    define tail where "tail = ?tail"
    note run = assms [unfolded append_binlog_records_def, folded len_def tail_def]
    show thesis
    proof (cases "records = [] \<or> (\<exists>e. len = Inl e) \<or> (\<exists>e. tail = Inl e)")
      case True
      then have "\<exists>e. (r, f') = (Inl (rejected e), f)" using run by (cases len; cases tail) (auto split: if_splits)
      then show thesis using that(1) by blast
    next
      case False
      then obtain t where t: "tail = Inr t" "append_binlog_tail t policy f = (r, f')" using run by (cases len; cases tail) auto
      with encode_tail [of E records "[]" t] that(2) show thesis by (simp add: tail_def)
    qed
  qed
  then have goal: "(\<exists>p. prefix p (log_bytes E records) \<and> active_bytes f' = active_bytes f @ p) \<and>
    (r = Inr () \<longrightarrow> active_bytes f' = active_bytes f @ log_bytes E records \<and> segments f' = segments f \<and>
      (\<forall>(sequence, x) \<in> set records. binlog_ok sequence x)) \<and>
    (r = Inl e \<longrightarrow> disposition e = Rejected \<longrightarrow> active_bytes f' = active_bytes f) \<and> (active_bytes f \<noteq> [] \<longrightarrow> segments f' = segments f)"
  proof cases
    case run
    with append_tail_spec [OF run(2)] show ?thesis by auto
  qed (auto intro: exI [of _ "[]"])
  then show "\<exists>p. prefix p (log_bytes E records) \<and> active_bytes f' = active_bytes f @ p"
    "r = Inr () \<Longrightarrow> active_bytes f' = active_bytes f @ log_bytes E records \<and> segments f' = segments f \<and>
      (\<forall>(sequence, x) \<in> set records. binlog_ok sequence x)"
    "r = Inl e \<Longrightarrow> disposition e = Rejected \<Longrightarrow> active_bytes f' = active_bytes f"
    "active_bytes f \<noteq> [] \<Longrightarrow> segments f' = segments f" by blast+
qed

text \<open>An append changes the binlog file and the message channel only.\<close>

definition appended :: "bytes \<Rightarrow> 'r presult \<Rightarrow> 'a commit_runtime_scheme \<Rightarrow> managed_binlog \<Rightarrow> bool" where
  "appended tail r rt f \<longleftrightarrow> (\<exists>p. prefix p tail \<and> active_bytes f = active_bytes (binlog rt) @ p) \<and>
     (\<forall>x. r = Inr x \<longrightarrow> active_bytes f = active_bytes (binlog rt) @ tail \<and> segments f = segments (binlog rt)) \<and>
     (\<forall>e. r = Inl e \<and> \<not> indeterminate e \<longrightarrow> active_bytes f = active_bytes (binlog rt)) \<and>
     (active_bytes (binlog rt) \<noteq> [] \<longrightarrow> segments f = segments (binlog rt))"

lemma appended_none: "r = Inl e \<Longrightarrow> appended tail r rt (binlog rt)"
  by (auto simp: appended_def intro: exI [of _ "[]"])

lemma fail_definite [simp]: "\<not> indeterminate (persistence_error_new msg)"
  by (simp add: persistence_error_new_def)

lemma definite_rejected: "\<not> indeterminate (into_persistence_error e) \<longleftrightarrow> disposition e = Rejected"
  by (cases "disposition e") (simp_all add: into_persistence_error_def)

lemma append_records_spec:
  assumes "append_records E records rt = (r, rt')"
  shows "\<exists>f c. rt' = rt\<lparr>binlog := f, channel := c\<rparr> \<and> appended (log_bytes E records) r rt f \<and>
    (\<forall>n. r = Inr n \<longrightarrow> (\<forall>(sequence, x) \<in> set records. binlog_ok sequence x))"
proof (cases "group_length records")
  case (Inl e)
  with assms have "r = Inl e" "rt' = rt" by (simp_all add: append_records_def)
  with appended_none show ?thesis
    by (intro exI [of _ "binlog rt"] exI [of _ "channel rt"]) auto
next
  case (Inr n)
  obtain fate rt1 where fate: "next_fate rt = (fate, rt1)" by (cases "next_fate rt")
  then obtain c where rt1: "rt1 = rt\<lparr>channel := c\<rparr>" by (cases rt) (auto simp: next_fate_def split: list.splits)
  obtain q f where run: "append_binlog_records E records (fsync rt1) (binlog rt1) = (q, f)" by (cases "append_binlog_records E records (fsync rt1) (binlog rt1)")
  note s = append_binlog_records_spec [OF run]
  have ok: "appended (log_bytes E records) r rt f" if "fate = Answered"
    using s that assms Inr fate run rt1
    by (cases q) (auto simp: append_records_def appended_def definite_rejected)
  have lost: "appended (log_bytes E records) r rt f" if "fate = LostAfter"
    using s that assms Inr fate run rt1
    by (auto simp: append_records_def appended_def persistence_indeterminate_def)
  show ?thesis
  proof (cases fate)
    case Answered
    with assms Inr fate run rt1 ok s(2) show ?thesis
      by (intro exI [of _ f] exI [of _ c]) (cases q, auto simp: append_records_def)
  next
    case LostAfter
    with assms Inr fate run rt1 lost show ?thesis
      by (intro exI [of _ f] exI [of _ c]) (auto simp: append_records_def)
  qed (use assms Inr fate run rt1 in \<open>intro exI [of _ "binlog rt"] exI [of _ c], auto simp: append_records_def intro: appended_none\<close>)+
qed


text \<open>The sequences that follow \<open>offset\<close>.\<close>

fun numbered :: "u64 \<Rightarrow> 'b list \<Rightarrow> (u64 \<times> 'b) list option" where
  "numbered offset [] = Some []"
| "numbered offset (x # xs) = (case u64_checked_add offset 1 of
      None \<Rightarrow> None
    | Some sequence \<Rightarrow> map_option (\<lambda>rest. (sequence, x) # rest) (numbered sequence xs))"

lemma check_numbered:
  "check_sequences (u64_checked_add offset 1) batches = Inr u \<longleftrightarrow> numbered offset (map snd batches) = Some batches"
proof (induction batches arbitrary: offset)
  case (Cons x batches)
  obtain s b where x: "x = (s, b)" by (cases x)
  show ?case
  proof (cases "u64_checked_add offset 1")
    case (Some e)
    with x Cons.IH [of e] show ?thesis by auto
  qed (use x in simp)
qed simp

lemma numbered_snd: "numbered offset xs = Some ys \<Longrightarrow> map snd ys = xs"
  by (induction xs arbitrary: offset ys) (auto split: option.splits)

lemma numbered_last: "numbered offset xs = Some ys \<Longrightarrow> ys \<noteq> [] \<Longrightarrow> unat (fst (last ys)) = unat offset + length xs"
proof (induction xs arbitrary: offset ys)
  case (Cons x xs)
  from Cons.prems obtain s rest where s: "u64_checked_add offset 1 = Some s" "numbered s xs = Some rest" "ys = (s, x) # rest"
    by (auto split: option.splits)
  have n: "unat s = unat offset + 1" using s(1) u64_checked_add_Some [of offset 1 s] unat_add_no_overflow [of offset 1]
    by (auto simp: u64_checked_add_def unat_word_ariths split: if_splits)
  show ?case using Cons.IH [OF s(2)] numbered_snd [OF s(2)] s(3) n by (cases rest) auto
qed simp

definition encoded :: "env \<Rightarrow> (u64 \<times> committed_batch) list \<Rightarrow> (u64 \<times> bytes) list" where
  "encoded E batches = map (apsnd (\<lambda>b. projr (encode_committed_batch E b))) batches"

lemma encode_batches_Inr: "encode_batches E batches = Inr records \<longleftrightarrow>
    records = encoded E batches \<and> (\<forall>(_, b) \<in> set batches. \<exists>r. encode_committed_batch E b = Inr r)"
  by (induction batches arbitrary: records) (auto simp: and_then_Inr encoded_def)

lemma append_batches_spec:
  assumes "append_batches E batches rt = (r, rt')"
  shows "\<exists>f c. rt' = rt\<lparr>binlog := f, channel := c\<rparr> \<and> appended (log_bytes E (encoded E batches)) r rt f \<and>
    (\<forall>n. r = Inr n \<longrightarrow> batches \<noteq> [] \<and> (\<forall>(sequence, b) \<in> set batches. \<exists>x. encode_committed_batch E b = Inr x \<and> binlog_ok sequence x))"
proof (cases "batches = [] \<or> (\<exists>e. encode_batches E batches = Inl e)")
  case True
  then have "rt' = rt" "\<exists>e. r = Inl e" using assms by (auto simp: append_batches_def split: if_splits)
  with appended_none show ?thesis by (intro exI [of _ "binlog rt"] exI [of _ "channel rt"]) auto
next
  case False
  then obtain records where rs: "encode_batches E batches = Inr records" by (cases "encode_batches E batches") auto
  then have run: "append_records E records rt = (r, rt')" using assms False by (simp add: append_batches_def)
  from append_records_spec [OF run] rs False show ?thesis
    by (fastforce simp: encode_batches_Inr encoded_def)
qed

lemma maintenance_keeps:
  "binlog (snd (record_persisted_writes n t rt)) = binlog rt" "repl_offset (snd (record_persisted_writes n t rt)) = repl_offset rt"
  "accepting_writes (snd (record_persisted_writes n t rt)) = accepting_writes rt"
  "fail_stop_started (snd (record_persisted_writes n t rt)) = fail_stop_started rt"
  "failure (snd (record_persisted_writes n t rt)) = failure rt"
  "commit_runtime.more (snd (record_persisted_writes n t rt)) = commit_runtime.more rt"
  by (simp_all add: record_persisted_writes_def request_maintenance_if_needed_def request_snapshot_if_needed_def
      request_rollover_if_needed_def case_prod_beta)

lemma accept_spec:
  assumes "accept_next_batches E batches t rt = (r, rt')"
  shows "appended (log_bytes E (encoded E batches)) r rt (binlog rt')"
    and "accepting_writes rt' = accepting_writes rt" "fail_stop_started rt' = fail_stop_started rt" "failure rt' = failure rt" "commit_runtime.more rt' = commit_runtime.more rt"
    and "r = Inl e \<Longrightarrow> repl_offset rt' = repl_offset rt"
    and "r = Inr m \<Longrightarrow> numbered (repl_offset rt) (map snd batches) = Some batches \<and> repl_offset rt' = fst (last batches) \<and> batches \<noteq> [] \<and>
      (\<forall>(sequence, b) \<in> set batches. \<exists>x. encode_committed_batch E b = Inr x \<and> binlog_ok sequence x)"
proof -
  have goal: "appended (log_bytes E (encoded E batches)) r rt (binlog rt') \<and>
    accepting_writes rt' = accepting_writes rt \<and> fail_stop_started rt' = fail_stop_started rt \<and> failure rt' = failure rt \<and> commit_runtime.more rt' = commit_runtime.more rt \<and>
    (\<forall>e. r = Inl e \<longrightarrow> repl_offset rt' = repl_offset rt) \<and>
    (\<forall>m. r = Inr m \<longrightarrow> numbered (repl_offset rt) (map snd batches) = Some batches \<and> repl_offset rt' = fst (last batches) \<and> batches \<noteq> [] \<and>
      (\<forall>(sequence, b) \<in> set batches. \<exists>x. encode_committed_batch E b = Inr x \<and> binlog_ok sequence x))"
  proof (cases "batches \<noteq> [] \<and> (\<exists>n. next_sequence rt = Inr n \<and> check_sequences (Some n) batches = Inr ())")
    case False
    then have "rt' = rt" "\<exists>e. r = Inl e"
      using assms by (auto simp: accept_next_batches_def split: if_splits sum.splits)
    with appended_none show ?thesis by auto
  next
    case True
    then obtain n where n: "next_sequence rt = Inr n" "check_sequences (Some n) batches = Inr ()" and ne: "batches \<noteq> []" by auto
    then have num: "numbered (repl_offset rt) (map snd batches) = Some batches"
      using check_numbered [of "repl_offset rt" batches "()"] by (auto simp: next_sequence_def ok_or_Inr)
    obtain q rt1 where q: "append_batches E batches rt = (q, rt1)" by (cases "append_batches E batches rt")
    from append_batches_spec [OF q] obtain f c where rt1: "rt1 = rt\<lparr>binlog := f, channel := c\<rparr>"
      and app: "appended (log_bytes E (encoded E batches)) q rt f"
      and ok: "\<forall>n. q = Inr n \<longrightarrow> batches \<noteq> [] \<and>
        (\<forall>(sequence, b) \<in> set batches. \<exists>x. encode_committed_batch E b = Inr x \<and> binlog_ok sequence x)" by blast
    show ?thesis
    proof (cases q)
      case (Inl e)
      with assms n ne q have "r = Inl e" "rt' = rt1" by (simp_all add: accept_next_batches_def)
      with rt1 app Inl show ?thesis by (auto simp: appended_def)
    next
      case (Inr k)
      let ?rt2 = "(record_accepted_binlog_bytes k rt1)\<lparr>repl_offset := fst (last batches)\<rparr>"
      from assms n ne q Inr have r: "\<exists>m. r = Inr m" "rt' = snd (record_persisted_writes (length batches) t ?rt2)"
        by (auto simp: accept_next_batches_def apfst_def map_prod_def split: prod.splits)
      have "appended (log_bytes E (encoded E batches)) r rt f"
        using app Inr r(1) by (auto simp: appended_def)
      with r ok Inr num ne rt1 show ?thesis
        by (auto simp: maintenance_keeps record_accepted_binlog_bytes_def Let_def)
    qed
  qed
  then show "appended (log_bytes E (encoded E batches)) r rt (binlog rt')"
    "accepting_writes rt' = accepting_writes rt" "fail_stop_started rt' = fail_stop_started rt" "failure rt' = failure rt" "commit_runtime.more rt' = commit_runtime.more rt"
    "r = Inl e \<Longrightarrow> repl_offset rt' = repl_offset rt"
    "r = Inr m \<Longrightarrow> numbered (repl_offset rt) (map snd batches) = Some batches \<and> repl_offset rt' = fst (last batches) \<and> batches \<noteq> [] \<and>
      (\<forall>(sequence, b) \<in> set batches. \<exists>x. encode_committed_batch E b = Inr x \<and> binlog_ok sequence x)"
    by blast+
qed

end
