(* ===== verification/Coordinator.thy ===== *)
theory Coordinator
  imports Runtime
begin

text \<open>
  The commit coordinator of \<open>src/commit_coordinator.rs\<close> with the publication of committed batches
  in \<open>src/main.rs\<close>: admission of requests to the queue, formation of groups, and the processing of
  a group, from preparation through the binlog to completion, rollback or fail-stop.

  The worker is sequential; a request is prepared under one reading of the clock, and the clock
  may advance between requests. The completion channels become the list of results, in the order
  of the requests. Metrics are not modelled.
\<close>

section \<open>Requests and groups\<close>

definition COMMIT_QUEUE_MEMORY_BYTES :: nat where
  "COMMIT_QUEUE_MEMORY_BYTES = 64 * 1024 * 1024"

definition COMMIT_QUEUE_MEMORY_UNIT_BYTES :: nat where
  "COMMIT_QUEUE_MEMORY_UNIT_BYTES = 4 * 1024"

definition MAX_COMMIT_GROUP_REQUESTS :: nat where
  "MAX_COMMIT_GROUP_REQUESTS = 64"

definition MAX_COMMIT_GROUP_LOGICAL_MUTATIONS :: nat where
  "MAX_COMMIT_GROUP_LOGICAL_MUTATIONS = 256"

definition MAX_COMMIT_GROUP_INPUT_BYTES :: nat where
  "MAX_COMMIT_GROUP_INPUT_BYTES = 8 * 1024 * 1024"

definition arguments_size :: "bytes list \<Rightarrow> nat" where
  "arguments_size args = fold (\<lambda>arg acc. sat_add acc (sat_add (length arg) 24)) args 64"

fun estimated_bytes :: "commit_operation \<Rightarrow> nat" where
  "estimated_bytes (Command args) = arguments_size args"
| "estimated_bytes (CommandGroup commands) = fold (\<lambda>command acc. sat_add acc (arguments_size command)) commands 64"
| "estimated_bytes (Transaction commands) = fold (\<lambda>command acc. sat_add acc (arguments_size command)) commands 64"
| "estimated_bytes (ObpSet key v) = sat_add (sat_add 64 (length key)) (length v)"
| "estimated_bytes (ObpDelete key) = sat_add 64 (length key)"

fun logical_mutation_upper_bound :: "commit_operation \<Rightarrow> nat" where
  "logical_mutation_upper_bound (CommandGroup commands) = max (length commands) 1"
| "logical_mutation_upper_bound _ = 1"

definition div_ceil :: "nat \<Rightarrow> nat \<Rightarrow> nat" where
  "div_ceil n d = n div d + (if n mod d = 0 then 0 else 1)"

text \<open>The checks of \<open>submit\<close> before the request waits for its share of the memory semaphore.\<close>

definition submit_units :: "commit_operation \<Rightarrow> nat presult" where
  "submit_units operation =
     (if (case operation of CommandGroup commands \<Rightarrow> commands = [] \<or> MAX_COMMIT_GROUP_LOGICAL_MUTATIONS < length commands | _ \<Rightarrow> False)
      then fail ''Commit command group exceeds the coordinator limit''
      else let needed = max (estimated_bytes operation) 1 in
        if COMMIT_QUEUE_MEMORY_BYTES < needed then fail ''Commit request exceeds the coordinator memory budget''
        else let units = div_ceil needed COMMIT_QUEUE_MEMORY_UNIT_BYTES in
          if units < 2 ^ 32 then Inr units else fail ''Commit request memory accounting overflow'')"

text \<open>
  The inner loop of \<open>run_master_commit_coordinator\<close>: requests join the group while they are
  available and fit. The first that does not fit is deferred to start the next group; here it
  stays at the head of the queue.
\<close>

fun fill_group :: "commit_operation list \<Rightarrow> nat \<Rightarrow> nat \<Rightarrow> commit_operation list \<Rightarrow> commit_operation list \<times> commit_operation list" where
  "fill_group cohort mutations input [] = (cohort, [])"
| "fill_group cohort mutations input (request # queue) =
     (if MAX_COMMIT_GROUP_REQUESTS \<le> length cohort then (cohort, request # queue)
      else let projected_mutations = sat_add mutations (logical_mutation_upper_bound request);
               projected_bytes = sat_add input (estimated_bytes request)
           in if MAX_COMMIT_GROUP_LOGICAL_MUTATIONS < projected_mutations \<or> MAX_COMMIT_GROUP_INPUT_BYTES < projected_bytes
              then (cohort, request # queue)
              else fill_group (cohort @ [request]) projected_mutations projected_bytes queue)"

definition next_group :: "commit_operation list \<Rightarrow> (commit_operation list \<times> commit_operation list) option" where
  "next_group queue = (case queue of [] \<Rightarrow> None
    | request # rest \<Rightarrow> Some (fill_group [request] (logical_mutation_upper_bound request) (estimated_bytes request) rest))"

section \<open>Processing a group\<close>

record persistence = commit_runtime +
  backlog :: "(u64 \<times> committed_batch) list"
  published :: "(u64 \<times> committed_batch) list"
  replication_ready :: bool
  stop_requested :: bool

definition BACKLOG_CAPACITY :: nat where
  "BACKLOG_CAPACITY = 10000"

definition COMPACTION_THRESHOLD :: nat where
  "COMPACTION_THRESHOLD = 100000"

definition push_backlog :: "(u64 \<times> committed_batch) \<Rightarrow> (u64 \<times> committed_batch) list \<Rightarrow> (u64 \<times> committed_batch) list" where
  "push_backlog x xs = (let ys = xs @ [x] in drop (length ys - BACKLOG_CAPACITY) ys)"

definition persist_and_publish_master_batches :: "env \<Rightarrow> (u64 \<times> committed_batch) list \<Rightarrow> persistence \<Rightarrow>
    maintenance_request presult \<times> persistence" where
  "persist_and_publish_master_batches E batches p = (case accept_next_batches E batches COMPACTION_THRESHOLD p of
      (Inl e, p1) \<Rightarrow> (Inl e, p1)
    | (Inr maintenance, p1) \<Rightarrow>
        (Inr maintenance, p1\<lparr>backlog := fold push_backlog batches (backlog p1), published := published p1 @ batches\<rparr>))"

definition mark_persistence_failed :: "bytes \<Rightarrow> persistence \<Rightarrow> persistence" where
  "mark_persistence_failed msg p = p\<lparr>failure := (if failure p = None then Some msg else failure p),
     accepting_writes := False, replication_ready := False\<rparr>"

definition enter_persistence_fail_stop :: "bytes \<Rightarrow> persistence \<Rightarrow> persistence" where
  "enter_persistence_fail_stop msg p = enter_fail_stop msg (p\<lparr>replication_ready := False, stop_requested := True\<rparr>)"

definition persistence_unavailable_message :: "persistence \<Rightarrow> bytes" where
  "persistence_unavailable_message p = (case failure p of
      Some reason \<Rightarrow> ''MISCONF persistence is unavailable: '' @ reason
    | None \<Rightarrow> ''MISCONF persistence is unavailable'')"

definition copy_persistence_error :: "persistence_error \<Rightarrow> persistence_error" where
  "copy_persistence_error e = (if indeterminate e then persistence_indeterminate (message e) else persistence_error_new (message e))"

fun mark_committed :: "commit_response \<Rightarrow> commit_response" where
  "mark_committed (CommandR outcome) = CommandR (outcome\<lparr>mutation := Committed\<rparr>)"
| "mark_committed (CommandGroupR outcomes) = CommandGroupR (map (\<lambda>outcome.
     if mutation outcome = Tentative then outcome\<lparr>mutation := Committed\<rparr> else outcome) outcomes)"
| "mark_committed r = r"

definition complete_prepared :: "prepared_commit list \<Rightarrow> commit_response presult list" where
  "complete_prepared prepared = map (\<lambda>p. Inr (if pc_batches p \<noteq> [] then mark_committed (pc_response p) else pc_response p)) prepared"

definition rollback_prepared :: "env \<Rightarrow> prepared_commit list \<Rightarrow> store \<Rightarrow> store" where
  "rollback_prepared E prepared st = fold (\<lambda>p. restore_all E (pc_rollbacks p)) (rev prepared) st"

text \<open>The requests come with the clock of their preparation. \<open>None\<close> is a panic.\<close>

fun prepare_all :: "server_status \<Rightarrow> (env \<times> commit_operation) list \<Rightarrow> prepared_commit list \<Rightarrow> store \<Rightarrow>
    ((persistence_error option \<times> prepared_commit list) \<times> store) option" where
  "prepare_all S [] prepared st = Some ((None, prepared), st)"
| "prepare_all S ((E, operation) # requests) prepared st = (case prepare_request S E operation st of
      None \<Rightarrow> None
    | Some (Inr p, st1) \<Rightarrow> prepare_all S requests (prepared @ [p]) st1
    | Some (Inl err, st1) \<Rightarrow> Some ((Some err, prepared), st1))"

definition storage_failed_message :: "bytes \<Rightarrow> (u64 \<times> committed_batch) list \<Rightarrow> persistence_error \<Rightarrow> bytes" where
  "storage_failed_message what batches e = ''Master commit group persistence '' @ what @ '' for sequences '' @ u64_to_string (fst (hd batches)) @
     '' through '' @ u64_to_string (fst (last batches)) @ '': '' @ message e"

definition process_commit_group :: "server_status \<Rightarrow> env \<Rightarrow> (env \<times> commit_operation) list \<Rightarrow> store \<Rightarrow> persistence \<Rightarrow>
    (commit_response presult list \<times> store \<times> persistence) option" where
  "process_commit_group S E requests st p =
     (let reject = (\<lambda>e. map (\<lambda>_. Inl (copy_persistence_error e)) requests) in
      if fail_stop_started p \<or> \<not> accepting_writes p
      then Some (reject (persistence_error_new (persistence_unavailable_message p)), st, p)
      else (case prepare_all S requests [] st of
          None \<Rightarrow> None
        | Some ((Some err, prepared), st1) \<Rightarrow>
            Some (reject err, rollback_prepared E prepared st1, mark_persistence_failed (message err) p)
        | Some ((None, prepared), st1) \<Rightarrow>
            (case numbered (repl_offset p) (concat (map pc_batches prepared)) of
               None \<Rightarrow> let err = persistence_error_new ''Persistence sequence is exhausted'' in
                 Some (reject err, rollback_prepared E prepared st1, mark_persistence_failed (message err) p)
             | Some batches \<Rightarrow>
                 if batches = [] then Some (complete_prepared prepared, st1, p)
                 else (case persist_and_publish_master_batches E batches p of
                     (Inr _, p1) \<Rightarrow> Some (complete_prepared prepared, st1, p1)
                   | (Inl err, p1) \<Rightarrow>
                       if indeterminate err
                       then Some (reject err, st1, enter_persistence_fail_stop (storage_failed_message ''is indeterminate'' batches err) p1)
                       else Some (reject err, rollback_prepared E prepared st1,
                              mark_persistence_failed (storage_failed_message ''failed'' batches err) p1)))))"


section \<open>Groups are bounded and keep the order\<close>

lemma fill_group_spec:
  assumes "fill_group cohort mutations input queue = (cohort', queue')" and "length cohort \<le> MAX_COMMIT_GROUP_REQUESTS"
    and "length cohort = 1 \<or> mutations \<le> MAX_COMMIT_GROUP_LOGICAL_MUTATIONS \<and> input \<le> MAX_COMMIT_GROUP_INPUT_BYTES"
    and "mutations = sum_list (map logical_mutation_upper_bound cohort)" and "input = sum_list (map estimated_bytes cohort)"
  shows "cohort' @ queue' = cohort @ queue \<and> length cohort \<le> length cohort' \<and> length cohort' \<le> MAX_COMMIT_GROUP_REQUESTS \<and>
    (length cohort' = 1 \<or> sum_list (map logical_mutation_upper_bound cohort') \<le> MAX_COMMIT_GROUP_LOGICAL_MUTATIONS \<and>
       sum_list (map estimated_bytes cohort') \<le> MAX_COMMIT_GROUP_INPUT_BYTES)"
  using assms
proof (induction queue arbitrary: cohort mutations input)
  case (Cons request queue)
  show ?case
  proof (cases "MAX_COMMIT_GROUP_REQUESTS \<le> length cohort \<or>
      MAX_COMMIT_GROUP_LOGICAL_MUTATIONS < sat_add mutations (logical_mutation_upper_bound request) \<or>
      MAX_COMMIT_GROUP_INPUT_BYTES < sat_add input (estimated_bytes request)")
    case True
    with Cons.prems show ?thesis by (auto simp: Let_def split: if_splits)
  next
    case False
    have exact: "sat_add mutations (logical_mutation_upper_bound request) = mutations + logical_mutation_upper_bound request"
      "sat_add input (estimated_bytes request) = input + estimated_bytes request"
      using False by (auto simp: sat_add_def usize_max_def MAX_COMMIT_GROUP_LOGICAL_MUTATIONS_def MAX_COMMIT_GROUP_INPUT_BYTES_def min_def split: if_splits)
    have run: "fill_group (cohort @ [request]) (mutations + logical_mutation_upper_bound request) (input + estimated_bytes request) queue = (cohort', queue')"
      using Cons.prems(1) False exact by (simp add: Let_def)
    from Cons.IH [OF run] Cons.prems False exact show ?thesis by simp
  qed
qed auto

text \<open>The whole queue cut into groups; each call of \<open>next_group\<close> takes at least one request.\<close>

lemma next_group_spec:
  assumes "next_group queue = Some (cohort, rest)"
  shows "cohort @ rest = queue" "cohort \<noteq> []" "length cohort \<le> MAX_COMMIT_GROUP_REQUESTS"
    "length cohort = 1 \<or> sum_list (map logical_mutation_upper_bound cohort) \<le> MAX_COMMIT_GROUP_LOGICAL_MUTATIONS \<and>
       sum_list (map estimated_bytes cohort) \<le> MAX_COMMIT_GROUP_INPUT_BYTES"
proof -
  obtain r q where q: "queue = r # q" using assms by (cases queue) (auto simp: next_group_def)
  then have run: "fill_group [r] (logical_mutation_upper_bound r) (estimated_bytes r) q = (cohort, rest)"
    using assms by (simp add: next_group_def)
  have one: "length [r] \<le> MAX_COMMIT_GROUP_REQUESTS" by (simp add: MAX_COMMIT_GROUP_REQUESTS_def)
  have sums: "logical_mutation_upper_bound r = sum_list (map logical_mutation_upper_bound [r])"
    "estimated_bytes r = sum_list (map estimated_bytes [r])" by simp_all
  note spec = fill_group_spec [OF run one disjI1 sums]
  show "cohort @ rest = queue" "length cohort \<le> MAX_COMMIT_GROUP_REQUESTS"
    "length cohort = 1 \<or> sum_list (map logical_mutation_upper_bound cohort) \<le> MAX_COMMIT_GROUP_LOGICAL_MUTATIONS \<and>
       sum_list (map estimated_bytes cohort) \<le> MAX_COMMIT_GROUP_INPUT_BYTES"
    using spec by (simp_all add: q)
  have "1 \<le> length cohort" using spec by simp
  then show "cohort \<noteq> []" by auto
qed

lemma next_group_less: "next_group queue = Some (cohort, rest) \<Longrightarrow> length rest < length queue"
  using next_group_spec(1,2) [of queue cohort rest] by (metis length_append length_greater_0_conv less_add_same_cancel2)

function all_groups :: "commit_operation list \<Rightarrow> commit_operation list list" where
  "all_groups queue = (case next_group queue of None \<Rightarrow> [] | Some (cohort, rest) \<Rightarrow> cohort # all_groups rest)"
  by pat_completeness auto
termination
  by (relation "measure length") (auto dest: next_group_less)

declare all_groups.simps [simp del]

section \<open>Atomicity of a group\<close>

lemma prepared_ok_later: "prepared_ok E bs rs st st' \<Longrightarrow> now E \<le> now E' \<Longrightarrow> prepared_ok E' bs rs st st'"
  unfolding prepared_ok_def reproduces_def rolls_back_def by (meson order_trans)

lemma prepare_all_ok:
  assumes "prepared_ok E0 (concat (map pc_batches prepared)) (concat (map pc_rollbacks prepared)) st0 st"
    and "sorted (now E0 # map (now \<circ> fst) requests @ [now E])"
  shows "\<exists>prepared' st'. prepare_all S requests prepared st = Some ((None, prepared'), st') \<and>
    length prepared' = length prepared + length requests \<and>
    prepared_ok E (concat (map pc_batches prepared')) (concat (map pc_rollbacks prepared')) st0 st'"
  using assms
proof (induction requests arbitrary: E0 prepared st)
  case Nil
  then show ?case by (auto intro: prepared_ok_later)
next
  case (Cons request requests)
  obtain E1 operation where r: "request = (E1, operation)" by (cases request)
  have "store_wf st" using Cons.prems(1) by (simp add: prepared_ok_def)
  from prepare_request_ok [OF this, of S E1 operation] obtain q st1 where
    q: "prepare_request S E1 operation st = Some (Inr q, st1)" "prepared_ok E1 (pc_batches q) (pc_rollbacks q) st st1"
    by (auto simp: commit_ok_def)
  have "prepared_ok E1 (concat (map pc_batches (prepared @ [q]))) (concat (map pc_rollbacks (prepared @ [q]))) st0 st1"
    using prepared_ok_trans [OF Cons.prems(1) q(2)] Cons.prems(2) r by simp
  from Cons.IH [OF this] Cons.prems(2) r q(1) show ?case by auto
qed

lemma rollback_all: "rollback_prepared E prepared st = restore_all E (concat (map pc_rollbacks prepared)) st"
  unfolding rollback_prepared_def
  by (induction prepared arbitrary: st rule: rev_induct) (simp_all add: restore_append, simp add: restore_all_def)

lemma publish_spec:
  assumes "persist_and_publish_master_batches E batches p = (r, p')"
  shows "appended (log_bytes E (encoded E batches)) r p (binlog p')" "fail_stop_started p' = fail_stop_started p"
    and "r = Inl e \<Longrightarrow> repl_offset p' = repl_offset p \<and> published p' = published p"
    and "r = Inr m \<Longrightarrow> numbered (repl_offset p) (map snd batches) = Some batches \<and> repl_offset p' = fst (last batches) \<and> batches \<noteq> [] \<and>
      published p' = published p @ batches \<and> accepting_writes p' = accepting_writes p \<and>
      (\<forall>(sequence, b) \<in> set batches. \<exists>x. encode_committed_batch E b = Inr x \<and> binlog_ok sequence x)"
proof -
  obtain q p1 where q: "accept_next_batches E batches COMPACTION_THRESHOLD p = (q, p1)" by (cases "accept_next_batches E batches COMPACTION_THRESHOLD p")
  note a = accept_spec [OF q]
  have "published p1 = published p" using a(5) by (cases p; cases p1) simp
  with a assms q show "appended (log_bytes E (encoded E batches)) r p (binlog p')" "fail_stop_started p' = fail_stop_started p"
    "r = Inl e \<Longrightarrow> repl_offset p' = repl_offset p \<and> published p' = published p"
    "r = Inr m \<Longrightarrow> numbered (repl_offset p) (map snd batches) = Some batches \<and> repl_offset p' = fst (last batches) \<and> batches \<noteq> [] \<and>
      published p' = published p @ batches \<and> accepting_writes p' = accepting_writes p \<and>
      (\<forall>(sequence, b) \<in> set batches. \<exists>x. encode_committed_batch E b = Inr x \<and> binlog_ok sequence x)"
    by (cases q; auto simp: persist_and_publish_master_batches_def appended_def)+
qed

definition group_committed :: "env \<Rightarrow> store \<Rightarrow> persistence \<Rightarrow> commit_response presult list \<Rightarrow> store \<Rightarrow> persistence \<Rightarrow> bool" where
  "group_committed E st p results st' p' \<longleftrightarrow> (\<forall>r \<in> set results. \<exists>x. r = Inr x) \<and> (\<exists>batches.
     numbered (repl_offset p) (map snd batches) = Some batches \<and> published p' = published p @ batches \<and>
     repl_offset p' = (if batches = [] then repl_offset p else fst (last batches)) \<and>
     active_bytes (binlog p') = active_bytes (binlog p) @ log_bytes E (encoded E batches) \<and> segments (binlog p') = segments (binlog p) \<and>
     (\<forall>(sequence, b) \<in> set batches. \<exists>x. encode_committed_batch E b = Inr x \<and> binlog_ok sequence x) \<and>
     (\<forall>E' rep. now E \<le> now E' \<and> store_wf rep \<and> agrees E' rep st \<longrightarrow> agrees E' (replay E' (map snd batches) rep) st'))"

definition group_rejected :: "env \<Rightarrow> store \<Rightarrow> persistence \<Rightarrow> commit_response presult list \<Rightarrow> store \<Rightarrow> persistence \<Rightarrow> bool" where
  "group_rejected E st p results st' p' \<longleftrightarrow> (\<forall>r \<in> set results. \<exists>e. r = Inl e \<and> \<not> indeterminate e) \<and>
     (\<forall>E'. now E \<le> now E' \<longrightarrow> agrees E' st st') \<and> active_bytes (binlog p') = active_bytes (binlog p) \<and>
     repl_offset p' = repl_offset p \<and> published p' = published p \<and> (\<not> accepting_writes p' \<or> fail_stop_started p')"

definition group_indeterminate :: "persistence \<Rightarrow> commit_response presult list \<Rightarrow> persistence \<Rightarrow> bool" where
  "group_indeterminate p results p' \<longleftrightarrow> (\<forall>r \<in> set results. \<exists>e. r = Inl e \<and> indeterminate e) \<and>
     fail_stop_started p' \<and> \<not> accepting_writes p' \<and> repl_offset p' = repl_offset p \<and> published p' = published p"

lemma copy_indeterminate [simp]: "indeterminate (copy_persistence_error e) = indeterminate e"
  by (simp add: copy_persistence_error_def persistence_indeterminate_def)

lemma process_group_spec:
  assumes wf: "store_wf st" and times: "sorted (map (now \<circ> fst) requests @ [now E])"
  shows "\<exists>results st' p'. process_commit_group S E requests st p = Some (results, st', p') \<and>
    length results = length requests \<and> store_wf st' \<and>
    (group_committed E st p results st' p' \<or> group_rejected E st p results st' p' \<or> group_indeterminate p results p')"
proof (cases "fail_stop_started p \<or> \<not> accepting_writes p")
  case True
  with wf show ?thesis
    by (auto simp: process_commit_group_def group_rejected_def Let_def)
next
  case up: False
  let ?E0 = "E\<lparr>now := 0\<rparr>"
  have "sorted (now ?E0 # map (now \<circ> fst) requests @ [now E])" using times by simp
  moreover have "prepared_ok ?E0 (concat (map pc_batches [])) (concat (map pc_rollbacks [])) st st"
    using prepared_ok_refl [OF wf] by simp
  ultimately obtain prepared st1 where
    prep: "prepare_all S requests [] st = Some ((None, prepared), st1)" and len: "length prepared = length requests"
    and ok: "prepared_ok E (concat (map pc_batches prepared)) (concat (map pc_rollbacks prepared)) st st1"
    using prepare_all_ok [of ?E0 "[]" st st requests E S] by auto
  have wf1: "store_wf st1" and rep: "\<And>E' rep. now E \<le> now E' \<and> store_wf rep \<and> agrees E' rep st \<longrightarrow>
      agrees E' (replay E' (concat (map pc_batches prepared)) rep) st1"
    using ok unfolding prepared_ok_def reproduces_def by blast+
  let ?rb = "rollback_prepared E prepared st1"
  have wfb: "store_wf ?rb" and back1: "agrees E st ?rb"
    using ok wf1 unfolding prepared_ok_def rolls_back_def rollback_all by auto
  have back_: "agrees E' st ?rb" if "now E \<le> now E'" for E'
    using back1 same_entry_alive [of _ _ E'] unfolding agrees_def pview_later [OF that] by blast
  let ?batches = "concat (map pc_batches prepared)"
  note unfold = process_commit_group_def up prep Let_def
  show ?thesis
  proof (cases "numbered (repl_offset p) ?batches")
    case None
    with up prep len wfb back_ show ?thesis
      by (auto simp: process_commit_group_def group_rejected_def mark_persistence_failed_def Let_def)
  next
    case (Some batches)
    note snd_ = numbered_snd [OF Some]
    show ?thesis
    proof (cases "batches = []")
      case True
      have "?batches = []" using snd_ True by simp
      then have "group_committed E st p (complete_prepared prepared) st1 p"
        unfolding group_committed_def using rep [unfolded \<open>?batches = []\<close>]
        by (auto simp: complete_prepared_def log_bytes_def encoded_def intro!: exI [of _ "[]"])
      with True Some up prep len wf1 show ?thesis by (auto simp: process_commit_group_def Let_def complete_prepared_def)
    next
      case False
      obtain q p1 where pub: "persist_and_publish_master_batches E batches p = (q, p1)" by (cases "persist_and_publish_master_batches E batches p")
      note s = publish_spec [OF pub]
      show ?thesis
      proof (cases q)
        case (Inr m)
        have "group_committed E st p (complete_prepared prepared) st1 p1"
          unfolding group_committed_def using rep snd_ s(1) s(4) [OF Inr] Inr
          by (auto simp: complete_prepared_def appended_def intro!: exI [of _ batches])
        with Inr False Some pub up prep len wf1 show ?thesis by (auto simp: process_commit_group_def Let_def complete_prepared_def)
      next
        case (Inl e)
        show ?thesis
        proof (cases "indeterminate e")
          case True
          with Inl False Some pub up prep len wf1 s(3) [OF Inl] show ?thesis
            by (auto simp: process_commit_group_def Let_def group_indeterminate_def enter_persistence_fail_stop_def enter_fail_stop_def)
        next
          case definite: False
          with s(1) Inl have "active_bytes (binlog p1) = active_bytes (binlog p)" by (auto simp: appended_def)
          with definite Inl False Some pub up prep len wfb back_ s(3) [OF Inl] show ?thesis
            by (auto simp: process_commit_group_def Let_def group_rejected_def mark_persistence_failed_def)
        qed
      qed
    qed
  qed
qed


lemma submitted_mutations: "submit_units request = Inr u \<Longrightarrow> logical_mutation_upper_bound request \<le> MAX_COMMIT_GROUP_LOGICAL_MUTATIONS"
  by (cases request) (auto simp: submit_units_def MAX_COMMIT_GROUP_LOGICAL_MUTATIONS_def split: if_splits)

lemma all_groups_spec:
  "concat (all_groups queue) = queue \<and> (\<forall>g \<in> set (all_groups queue). g \<noteq> [] \<and> length g \<le> MAX_COMMIT_GROUP_REQUESTS \<and>
     (length g = 1 \<or> sum_list (map logical_mutation_upper_bound g) \<le> MAX_COMMIT_GROUP_LOGICAL_MUTATIONS \<and>
        sum_list (map estimated_bytes g) \<le> MAX_COMMIT_GROUP_INPUT_BYTES))"
proof (induction queue rule: all_groups.induct)
  case (1 queue)
  show ?case
  proof (cases "next_group queue")
    case None
    then have "queue = []" by (cases queue) (simp_all add: next_group_def)
    with None show ?thesis by (simp add: all_groups.simps [of "[]"])
  next
    case (Some x)
    obtain g rest where x: "x = (g, rest)" by (cases x)
    note s = next_group_spec [OF Some [unfolded x]]
    from 1 [OF Some x [symmetric]] s show ?thesis
      unfolding all_groups.simps [of queue] Some x by auto
  qed
qed

section \<open>Properties\<close>

text \<open>
  C8. A commit group is atomic. For a well-formed store and requests prepared at non-decreasing
  times, processing returns one result per request and is one of three. Committed: every request
  succeeds, the batches carry consecutive sequences after the previous offset, the binlog has grown
  by exactly their records, the same batches are published, and replaying them on any store that
  agreed before the group makes it agree with the store after it. Rejected: every request fails,
  the store agrees with its state before the group, binlog, offset and publications are as before,
  and no further write is accepted. Indeterminate: every request is told so, nothing is published
  and the server is in fail-stop.
\<close>

theorem commit_group_atomic:
  assumes "store_wf st" and "sorted (map (now \<circ> fst) requests @ [now E])"
  shows "\<exists>results st' p'. process_commit_group S E requests st p = Some (results, st', p') \<and>
    length results = length requests \<and> store_wf st' \<and>
    (group_committed E st p results st' p' \<or> group_rejected E st p results st' p' \<or> group_indeterminate p results p')"
  by (rule process_group_spec [OF assms])

definition sample_persistence :: persistence where
  "sample_persistence = commit_runtime.extend (runtime_new torn_write FsyncAlways 7)
     (persistence.fields [] [] True False)"

theorem commit_group_atomic_witness:
  "\<exists>results st' p'. process_commit_group sample_status replica_env
       [(sample_env, Command [''SET'', ''k'', ''v'']), (replica_env, ObpDelete ''x'')] store_new sample_persistence = Some (results, st', p') \<and>
     length results = 2 \<and> store_wf st'"
proof -
  have times: "sorted (map (now \<circ> fst) [(sample_env, Command [''SET'', ''k'', ''v'']), (replica_env, ObpDelete ''x'')] @ [now replica_env])"
    by (simp add: sample_env_def replica_env_def)
  from commit_group_atomic [OF store_new_wf times, of sample_status sample_persistence] show ?thesis by auto
qed

text \<open>
  C28. Groups are bounded and fair. However many requests wait, cutting the queue into groups ends,
  keeps every request exactly once and in order, and no group is empty or larger than 64 requests.
  A group of several requests stays within the limits on logical mutations and input bytes; if the
  requests passed \<open>submit\<close>, every group stays within the limit on mutations.
\<close>

theorem groups_bounded:
  "concat (all_groups queue) = queue \<and> (\<forall>g \<in> set (all_groups queue). g \<noteq> [] \<and> length g \<le> 64 \<and>
     (1 < length g \<longrightarrow> sum_list (map logical_mutation_upper_bound g) \<le> 256 \<and> sum_list (map estimated_bytes g) \<le> 8 * 1024 * 1024) \<and>
     ((\<forall>request \<in> set g. \<exists>u. submit_units request = Inr u) \<longrightarrow> sum_list (map logical_mutation_upper_bound g) \<le> 256))"
proof -
  have single: "sum_list (map logical_mutation_upper_bound g) \<le> 256"
    if "length g = 1" "\<forall>request \<in> set g. \<exists>u. submit_units request = Inr u" for g
    using that submitted_mutations by (cases g) (auto simp: MAX_COMMIT_GROUP_LOGICAL_MUTATIONS_def)
  show ?thesis
    using all_groups_spec [of queue] single
    unfolding MAX_COMMIT_GROUP_REQUESTS_def MAX_COMMIT_GROUP_LOGICAL_MUTATIONS_def MAX_COMMIT_GROUP_INPUT_BYTES_def
    by (metis less_irrefl)
qed

theorem groups_bounded_witness:
  "concat (all_groups (replicate 65 (ObpDelete ''a''))) = replicate 65 (ObpDelete ''a'')"
  using groups_bounded [of "replicate 65 (ObpDelete ''a'')"] by simp

text \<open>
  The memory semaphore cannot deadlock on one request. A request that passes the checks of
  \<open>submit\<close> asks for at least one unit and at most as many as the semaphore holds, and its units
  cover its estimated size.
\<close>

theorem submit_units_bounded:
  assumes "submit_units operation = Inr units"
  shows "1 \<le> units \<and> units \<le> COMMIT_QUEUE_MEMORY_BYTES div COMMIT_QUEUE_MEMORY_UNIT_BYTES \<and>
    estimated_bytes operation \<le> units * COMMIT_QUEUE_MEMORY_UNIT_BYTES"
proof -
  let ?n = "max (estimated_bytes operation) 1"
  have n: "?n \<le> 67108864" "units = div_ceil ?n 4096"
    using assms by (auto simp: submit_units_def Let_def COMMIT_QUEUE_MEMORY_BYTES_def COMMIT_QUEUE_MEMORY_UNIT_BYTES_def split: if_splits)
  have ceil: "m \<le> div_ceil m 4096 * 4096 \<and> div_ceil m 4096 \<le> 16384" if "m \<le> 67108864" for m
  proof -
    have "q * 4096 + r \<le> (q + (if r = 0 then 0 else 1)) * 4096 \<and> q + (if r = 0 then 0 else 1) \<le> 16384"
      if "q * 4096 + r \<le> 67108864" "r < 4096" for q r :: nat using that by auto
    from this [of "m div 4096" "m mod 4096"] that show ?thesis by (simp add: div_ceil_def)
  qed
  then have "?n \<le> div_ceil ?n 4096 * 4096" "div_ceil ?n 4096 \<le> 16384" using n(1) by blast+
  moreover have "1 \<le> div_ceil ?n 4096" using calculation(1) by (cases "div_ceil ?n 4096") auto
  ultimately show ?thesis using n(2) by (auto simp: COMMIT_QUEUE_MEMORY_BYTES_def COMMIT_QUEUE_MEMORY_UNIT_BYTES_def)
qed

theorem submit_units_bounded_witness:
  "submit_units (ObpSet ''k'' ''v'') = Inr 1 \<and> 1 \<le> COMMIT_QUEUE_MEMORY_BYTES div COMMIT_QUEUE_MEMORY_UNIT_BYTES"
proof -
  have "submit_units (ObpSet ''k'' ''v'') = Inr 1"
    by (simp add: submit_units_def div_ceil_def sat_add_def usize_max_def COMMIT_QUEUE_MEMORY_BYTES_def COMMIT_QUEUE_MEMORY_UNIT_BYTES_def)
  with submit_units_bounded [OF this] show ?thesis by simp
qed

end
