(* ===== verification/Recovery.thy ===== *)
theory Recovery
  imports Coordinator
begin

text \<open>
  \<open>src/persistence/recovery.rs\<close>: the snapshot and binlog files as a directory of named contents,
  the scan of a binlog file, the inspection and repair of the segmented history, loading of a
  snapshot, and the whole of \<open>load_data_from_paths\<close>. The main result is that recovery rebuilds the
  committed state: what the commit coordinator logged is what recovery replays, torn tail included.

  Calls of the operating system succeed here; in the source each failure aborts recovery with an
  error. Compression is a parameter.
\<close>

section \<open>Files\<close>

type_synonym directory = "(bytes \<times> bytes) list"

record compression =
  gzip :: "bytes \<Rightarrow> bytes"
  gunzip :: "bytes \<Rightarrow> bytes + bytes"

definition SNAPSHOT_PATH :: bytes where
  "SNAPSHOT_PATH = ''onyx.snapshot''"

definition SNAPSHOT_BACKUP_PATH :: bytes where
  "SNAPSHOT_BACKUP_PATH = ''onyx.snapshot.previous''"

definition BINLOG_PATH :: bytes where
  "BINLOG_PATH = ''onyx.binlog''"

definition BINLOG_TEMP_PATH :: bytes where
  "BINLOG_TEMP_PATH = ''onyx.binlog.tmp''"

definition BINLOG_BACKUP_PATH :: bytes where
  "BINLOG_BACKUP_PATH = ''onyx.binlog.previous''"

definition dir_remove :: "bytes \<Rightarrow> directory \<Rightarrow> directory" where
  "dir_remove name d = filter (\<lambda>(n, _). n \<noteq> name) d"

definition dir_write :: "bytes \<Rightarrow> bytes \<Rightarrow> directory \<Rightarrow> directory" where
  "dir_write name content d = (if name \<in> fst ` set d then map (\<lambda>(n, c). if n = name then (n, content) else (n, c)) d else d @ [(name, content)])"

definition dir_rename :: "bytes \<Rightarrow> bytes \<Rightarrow> directory \<Rightarrow> directory" where
  "dir_rename old new d = (case map_of d old of None \<Rightarrow> d | Some c \<Rightarrow> dir_write new c (dir_remove old d))"

section \<open>Scanning a binlog file\<close>

definition torn_checksumless :: bytes where
  "torn_checksumless = ''Cannot safely truncate an incomplete checksumless ONX3 binlog record''"

definition torn_unknown :: bytes where
  "torn_unknown = ''Cannot safely truncate an incomplete binlog record with unknown framing''"

datatype scan_step = EndOfLog bool | BadLog bytes | RecordAt bytes nat

text \<open>One round of the loop of \<open>for_each_binlog_record\<close> on the bytes from the start of a record.\<close>

definition scan_record :: "bytes \<Rightarrow> scan_step" where
  "scan_record content = (case read_u32_be content of
      None \<Rightarrow> EndOfLog (content \<noteq> [])
    | Some (len, rest) \<Rightarrow>
        let record_len = unat len; header_probe_length = min record_len (length BINLOG_RECORD_MAGIC + BINLOG_RECORD_LENGTH_SIZE);
            available_length = length rest; readable_header_length = min available_length header_probe_length;
            visible_header = take readable_header_length rest
        in if record_len = 0 \<or> MAX_BINLOG_RECORD_SIZE < record_len then BadLog (''Invalid binlog record length: '' @ nat_to_string record_len)
           else if readable_header_length < header_probe_length then
             (if starts_with visible_header CHECKSUMLESS_BINLOG_RECORD_MAGIC then BadLog torn_checksumless
              else if length BINLOG_RECORD_MAGIC \<le> readable_header_length \<and> \<not> starts_with visible_header BINLOG_RECORD_MAGIC
              then BadLog torn_unknown else EndOfLog True)
           else if starts_with visible_header BINLOG_RECORD_MAGIC \<and> length BINLOG_RECORD_MAGIC + BINLOG_RECORD_LENGTH_SIZE \<le> record_len \<and>
               map_option (unat \<circ> fst) (read_u32_be (drop (length BINLOG_RECORD_MAGIC) visible_header)) \<noteq> Some record_len
           then BadLog (''Binlog record length mismatch: outer length '' @ nat_to_string record_len @ '', embedded length '' @
               nat_to_string (unat (fst (the (read_u32_be (drop (length BINLOG_RECORD_MAGIC) visible_header))))))
           else if available_length < record_len then
             (if starts_with visible_header CHECKSUMLESS_BINLOG_RECORD_MAGIC then BadLog torn_checksumless
              else if \<not> starts_with visible_header BINLOG_RECORD_MAGIC then BadLog torn_unknown
              else EndOfLog True)
           else RecordAt (take record_len rest) (4 + record_len))"

lemma scan_record_consumes: "scan_record content = RecordAt r n \<Longrightarrow> 4 \<le> n \<and> n \<le> length content"
proof -
  assume s: "scan_record content = RecordAt r n"
  then obtain len rest where r: "read_u32_be content = Some (len, rest)" by (auto simp: scan_record_def split: option.splits)
  have "length content = 4 + length rest" using u32_write_read [OF r] by (metis length_append write_length(1))
  with s r show ?thesis by (auto simp: scan_record_def Let_def split: if_splits)
qed

function for_each_from :: "(bytes \<Rightarrow> 's \<Rightarrow> 's presult) \<Rightarrow> nat \<Rightarrow> bytes \<Rightarrow> 's \<Rightarrow> ('s \<times> nat \<times> bool) presult" where
  "for_each_from visitor valid_len content s = (case scan_record content of
      EndOfLog torn \<Rightarrow> Inr (s, valid_len, torn)
    | BadLog msg \<Rightarrow> fail msg
    | RecordAt r n \<Rightarrow> (case visitor r s of
          Inl e \<Rightarrow> Inl e
        | Inr s1 \<Rightarrow> for_each_from visitor (valid_len + n) (drop n content) s1))"
  by pat_completeness auto
termination
  by (relation "measure (\<lambda>(_, _, content, _). length content)") (fastforce dest: scan_record_consumes)+

declare for_each_from.simps [simp del]

definition for_each_binlog_record :: "(bytes \<Rightarrow> 's \<Rightarrow> 's presult) \<Rightarrow> bytes option \<Rightarrow> 's \<Rightarrow> ('s \<times> nat \<times> bool) presult" where
  "for_each_binlog_record visitor file s = (case file of None \<Rightarrow> Inr (s, 0, False) | Some content \<Rightarrow> for_each_from visitor 0 content s)"

record binlog_inspection =
  min_sequence :: "u64 option"
  max_sequence :: u64
  valid_len :: nat
  truncated_tail :: bool
  contains_checksumless_records :: bool

definition inspection_default :: binlog_inspection where
  "inspection_default = \<lparr>min_sequence = None, max_sequence = 0, valid_len = 0, truncated_tail = False, contains_checksumless_records = False\<rparr>"

definition follows :: "u64 option \<Rightarrow> u64 \<Rightarrow> unit presult" where
  "follows last_sequence sequence = (case last_sequence of
      Some previous \<Rightarrow> if u64_checked_add previous 1 \<noteq> Some sequence
        then fail (''Non-contiguous binlog sequence: '' @ u64_to_string sequence @ '' after '' @ u64_to_string previous) else Inr ()
    | None \<Rightarrow> Inr ())"

definition inspect_record :: "env \<Rightarrow> bytes \<Rightarrow> binlog_inspection \<times> u64 option \<Rightarrow> (binlog_inspection \<times> u64 option) presult" where
  "inspect_record E r = (\<lambda>(inspection, last_sequence).
     and_then (decode_binlog_record E r) (\<lambda>decoded. case decoded of Versioned sequence eff integrity \<Rightarrow>
       and_then (follows last_sequence sequence) (\<lambda>_.
         (case decode_committed_batch E eff of
            Inl e \<Rightarrow> fail (''Invalid committed-effect payload at binlog sequence '' @ u64_to_string sequence @ '': '' @ message e)
          | Inr _ \<Rightarrow>
              Inr (inspection\<lparr>contains_checksumless_records := contains_checksumless_records inspection \<or> integrity = ChecksumlessLegacy,
                 min_sequence := (case min_sequence inspection of None \<Rightarrow> Some sequence | Some m \<Rightarrow> Some m),
                 max_sequence := sequence\<rparr>, Some sequence)))))"

definition inspect_binlog :: "env \<Rightarrow> bytes option \<Rightarrow> binlog_inspection presult" where
  "inspect_binlog E file = and_then (for_each_binlog_record (inspect_record E) file (inspection_default, None))
     (\<lambda>((inspection, _), len, torn). Inr (inspection\<lparr>valid_len := len, truncated_tail := torn\<rparr>))"

section \<open>The segmented history\<close>

record inspected_file =
  file_name :: bytes
  declared_end_sequence :: "u64 option"
  inspection :: binlog_inspection

fun collect_segments :: "env \<Rightarrow> directory \<Rightarrow> inspected_file list \<Rightarrow> inspected_file list presult" where
  "collect_segments E [] found = Inr found"
| "collect_segments E ((name, content) # entries) found = (case parse_binlog_segment_end_sequence name of
      Inl e \<Rightarrow> Inl e
    | Inr None \<Rightarrow> collect_segments E entries found
    | Inr (Some end_sequence) \<Rightarrow>
        if length found = MAX_BINLOG_SEGMENTS
        then fail (''Binlog segment count exceeds the '' @ nat_to_string MAX_BINLOG_SEGMENTS @ '' segment limit'')
        else and_then (inspect_binlog E (Some content)) (\<lambda>insp.
          collect_segments E entries (found @ [\<lparr>file_name = name, declared_end_sequence = Some end_sequence, inspection = insp\<rparr>])))"

text \<open>\<open>None\<close> when the segment held no complete record and was removed.\<close>

definition repair_last_incomplete_segment :: "inspected_file \<Rightarrow> directory \<Rightarrow> inspected_file option presult \<times> directory" where
  "repair_last_incomplete_segment segment d =
     (let name = file_name segment; insp = inspection segment;
          d1 = dir_write name (resized (valid_len insp) (the (map_of d name))) d
      in if min_sequence insp = None then (Inr None, dir_remove name d1)
         else let corrected_path = binlog_segment (max_sequence insp) in
           if corrected_path = name then (Inr (Some (segment\<lparr>inspection := insp\<lparr>truncated_tail := False\<rparr>\<rparr>)), d1)
           else if corrected_path \<in> fst ` set d1
           then (fail (''Cannot repair binlog segment because corrected path already exists: '' @ corrected_path), d1)
           else (Inr (Some \<lparr>file_name = corrected_path, declared_end_sequence = Some (max_sequence insp),
                  inspection = insp\<lparr>truncated_tail := False\<rparr>\<rparr>), dir_rename name corrected_path d1))"

fun first_torn :: "inspected_file list \<Rightarrow> nat option" where
  "first_torn [] = None"
| "first_torn (f # fs) = (if truncated_tail (inspection f) then Some 0 else map_option Suc (first_torn fs))"

definition repair_segments :: "binlog_inspection \<Rightarrow> inspected_file list \<Rightarrow> directory \<Rightarrow> inspected_file list presult \<times> directory" where
  "repair_segments active_inspection sealed d = (case first_torn sealed of
      None \<Rightarrow> (Inr sealed, d)
    | Some index \<Rightarrow>
        if index + 1 \<noteq> length sealed \<or> min_sequence active_inspection \<noteq> None
        then (fail (''Sealed binlog segment has an incomplete tail before later history: '' @ file_name (sealed ! index)), d)
        else and_next (repair_last_incomplete_segment (sealed ! index) d) (\<lambda>repaired d1.
          (Inr (case repaired of None \<Rightarrow> take index sealed | Some f \<Rightarrow> sealed[index := f]), d1)))"

fun check_segments :: "inspected_file list \<Rightarrow> unit presult" where
  "check_segments [] = Inr ()"
| "check_segments (f # fs) =
     (if min_sequence (inspection f) = None then fail (''Sealed binlog segment is empty: '' @ file_name f)
      else if Some (max_sequence (inspection f)) \<noteq> declared_end_sequence f
      then fail (''Binlog segment '' @ file_name f @ '' does not match its final record sequence '' @ u64_to_string (max_sequence (inspection f)))
      else check_segments fs)"

fun check_history :: "u64 option \<Rightarrow> inspected_file list \<Rightarrow> unit presult" where
  "check_history previous_end [] = Inr ()"
| "check_history previous_end (f # fs) = (case min_sequence (inspection f) of
      None \<Rightarrow> check_history previous_end fs
    | Some first_sequence \<Rightarrow>
        if previous_end \<noteq> None \<and> u64_checked_add (the previous_end) 1 \<noteq> Some first_sequence
        then fail (''Non-contiguous binlog history: sequence '' @ u64_to_string first_sequence @ '' follows '' @ u64_to_string (the previous_end))
        else check_history (Some (max_sequence (inspection f))) fs)"

definition inspect_binlog_history :: "env \<Rightarrow> directory \<Rightarrow> inspected_file list presult \<times> directory" where
  "inspect_binlog_history E d =
     and_next (collect_segments E d [], d) (\<lambda>found d.
     and_next (inspect_binlog E (map_of d BINLOG_PATH), d) (\<lambda>active_inspection d.
     and_next (repair_segments active_inspection (sort_key (the \<circ> declared_end_sequence) found) d) (\<lambda>sealed d1.
     and_next (check_segments sealed, d1) (\<lambda>_ d1.
       let files = sealed @ [\<lparr>file_name = BINLOG_PATH, declared_end_sequence = None, inspection = active_inspection\<rparr>] in
       (and_then (check_history None files) (\<lambda>_. Inr files), d1)))))"

section \<open>Snapshots\<close>

definition SNAPSHOT_MAGIC :: bytes where
  "SNAPSHOT_MAGIC = ''ONYXSNAP''"

definition SNAPSHOT_VERSION :: nat where
  "SNAPSHOT_VERSION = 2"

definition MAX_SNAPSHOT_METADATA_SIZE :: nat where
  "MAX_SNAPSHOT_METADATA_SIZE = 4096"

datatype snapshot_format = SnapshotMissing | SnapshotLegacy | SnapshotVersioned u64

definition read_bounded_utf8_line :: "nat \<Rightarrow> bytes \<Rightarrow> (bytes option \<times> bytes) presult" where
  "read_bounded_utf8_line maximum_size s =
     (let limited = take (maximum_size + 1) s; body = takeWhile (\<lambda>c. c \<noteq> LF) limited;
          line = (if length body < length limited then body @ [LF] else body)
      in if line = [] then Inr (None, s)
         else if maximum_size < length line then fail (''Snapshot line exceeds the '' @ nat_to_string maximum_size @ '' byte limit'')
         else if \<not> utf8_valid line then fail ''Snapshot contains invalid UTF-8''
         else Inr (Some (rev (dropWhile (\<lambda>c. c = CHR 0x0D \<or> c = LF) (rev line))), drop (length line) s))"

fun split_on :: "char \<Rightarrow> bytes \<Rightarrow> bytes list" where
  "split_on c [] = [[]]"
| "split_on c (x # xs) = (if x = c then [] # split_on c xs else (case split_on c xs of [] \<Rightarrow> [[x]] | f # fs \<Rightarrow> (x # f) # fs))"

definition parse_snapshot_header :: "bytes \<Rightarrow> snapshot_format presult" where
  "parse_snapshot_header first_line =
     (if \<not> starts_with first_line SNAPSHOT_MAGIC then Inr SnapshotLegacy
      else let fields = split_on CHR 0x09 first_line in
        if length fields \<noteq> 3 \<or> fields ! 0 \<noteq> SNAPSHOT_MAGIC then fail ''Malformed snapshot metadata header''
        else and_then (ok_or ''Invalid snapshot format version'' (parse_unsigned 255 (fields ! 1))) (\<lambda>version.
          if version \<noteq> SNAPSHOT_VERSION then fail (''Unsupported snapshot format version: '' @ nat_to_string version)
          else and_then (ok_or ''Invalid snapshot sequence watermark'' (parse_u64 (fields ! 2))) (\<lambda>watermark.
            Inr (SnapshotVersioned watermark))))"

definition inspect_snapshot :: "compression \<Rightarrow> bytes option \<Rightarrow> snapshot_format presult" where
  "inspect_snapshot Z file = (case file of
      None \<Rightarrow> Inr SnapshotMissing
    | Some packed \<Rightarrow> (case gunzip Z packed of
          Inl e \<Rightarrow> fail e
        | Inr content \<Rightarrow> and_then (read_bounded_utf8_line MAX_SNAPSHOT_METADATA_SIZE content) (\<lambda>(line, _).
            and_then (ok_or ''Snapshot is empty'' line) parse_snapshot_header)))"

function load_records :: "env \<Rightarrow> bytes \<Rightarrow> nat \<Rightarrow> store \<Rightarrow> (nat \<times> store) presult" where
  "load_records E content count st =
     (if content = [] then Inr (count, st)
      else (case read_u32_be content of
          None \<Rightarrow> fail ''failed to fill whole buffer''
        | Some (len, rest) \<Rightarrow>
            if unat len = 0 \<or> MAX_SNAPSHOT_RECORD_SIZE < unat len then fail (''Invalid snapshot record length: '' @ nat_to_string (unat len))
            else if length rest < unat len then fail ''failed to fill whole buffer''
            else (case decode_snapshot_entry E (take (unat len) rest) of
                Inl e \<Rightarrow> Inl e
              | Inr (key, entry) \<Rightarrow>
                  if is_expired E entry then load_records E (drop (4 + unat len) content) count st
                  else load_records E (drop (4 + unat len) content) (count + 1)
                         (snd (on_engine (engine_set E key (entry_value entry) (expires_at entry)) st)))))"
  by pat_completeness auto
termination
  by (relation "measure (\<lambda>(_, content, _, _). length content)") auto

declare load_records.simps [simp del]

text \<open>Legacy snapshots are refused before this point.\<close>

definition load_snapshot_entries :: "compression \<Rightarrow> env \<Rightarrow> bytes option \<Rightarrow> snapshot_format \<Rightarrow> store \<Rightarrow> (nat \<times> store) presult" where
  "load_snapshot_entries Z E file format st = (case format of
      SnapshotVersioned _ \<Rightarrow> (case file of
          None \<Rightarrow> fail ''No such file or directory''
        | Some packed \<Rightarrow> (case gunzip Z packed of
              Inl e \<Rightarrow> fail e
            | Inr content \<Rightarrow> and_then (read_bounded_utf8_line MAX_SNAPSHOT_METADATA_SIZE content) (\<lambda>(line, rest).
                and_then (ok_or ''Snapshot metadata header is missing'' line) (\<lambda>_. load_records E rest 0 st))))
    | _ \<Rightarrow> Inr (0, st))"

fun encode_entries :: "env \<Rightarrow> (bytes \<times> data_entry) list \<Rightarrow> bytes presult" where
  "encode_entries E [] = Inr []"
| "encode_entries E ((key, entry) # entries) = and_then (encode_snapshot_entry E key entry) (\<lambda>r.
     and_then (ok_or ''Snapshot entry exceeds the format limit'' (u32_try_from (length r))) (\<lambda>len.
     and_then (encode_entries E entries) (\<lambda>rest. Inr (write_u32_be len @ r @ rest))))"

definition snapshot_header :: "u64 \<Rightarrow> bytes" where
  "snapshot_header watermark = SNAPSHOT_MAGIC @ [CHR 0x09] @ nat_to_string SNAPSHOT_VERSION @ [CHR 0x09] @ u64_to_string watermark @ [LF]"

text \<open>
  Writing a snapshot: the temporary file, then the current snapshot becomes the previous one and
  the temporary file the current one. Every call takes one choice of the list, as in the binlog
  file; \<open>partial\<close> is what a failed write leaves in the temporary file.
\<close>

definition SNAPSHOT_TEMP_PATH :: bytes where
  "SNAPSHOT_TEMP_PATH = ''onyx.snapshot.tmp''"

type_synonym disk = "io_choice list \<times> directory"

definition dir_call :: "(directory \<Rightarrow> directory) \<Rightarrow> disk \<Rightarrow> unit presult \<times> disk" where
  "dir_call eff = (\<lambda>(cs, d). case cs of
      [] \<Rightarrow> (Inr (), [], eff d)
    | c # cs \<Rightarrow> (case call_result c of (err, took) \<Rightarrow>
        (case err of None \<Rightarrow> Inr () | Some e \<Rightarrow> fail e, cs, if took then eff d else d)))"

definition installer_rename :: "bytes \<Rightarrow> bytes \<Rightarrow> disk \<Rightarrow> unit presult \<times> disk" where
  "installer_rename old new = dir_call (dir_rename old new)"

definition installer_sync_parent :: "disk \<Rightarrow> unit presult \<times> disk" where
  "installer_sync_parent = dir_call (\<lambda>d. d)"

definition write_temporary :: "compression \<Rightarrow> env \<Rightarrow> (bytes \<times> data_entry) list \<Rightarrow> u64 \<Rightarrow> bytes \<Rightarrow> disk \<Rightarrow> unit presult \<times> disk" where
  "write_temporary Z E entries watermark partial = (\<lambda>(cs, d). case encode_entries E entries of
      Inl e \<Rightarrow> (Inl e, cs, dir_write SNAPSHOT_TEMP_PATH partial d)
    | Inr body \<Rightarrow> (case cs of
          [] \<Rightarrow> (Inr (), [], dir_write SNAPSHOT_TEMP_PATH (gzip Z (snapshot_header watermark @ body)) d)
        | c # cs \<Rightarrow> (case fst (call_result c) of
              None \<Rightarrow> (Inr (), cs, dir_write SNAPSHOT_TEMP_PATH (gzip Z (snapshot_header watermark @ body)) d)
            | Some e \<Rightarrow> (fail e, cs, dir_write SNAPSHOT_TEMP_PATH partial d))))"

definition retire_snapshot :: "disk \<Rightarrow> unit presult \<times> disk" where
  "retire_snapshot k = (if SNAPSHOT_PATH \<in> fst ` set (snd k)
     then and_next (installer_rename SNAPSHOT_PATH SNAPSHOT_BACKUP_PATH k) (\<lambda>_. installer_sync_parent) else (Inr (), k))"

definition install_snapshot :: "disk \<Rightarrow> unit presult \<times> disk" where
  "install_snapshot k = (case installer_rename SNAPSHOT_TEMP_PATH SNAPSHOT_PATH k of
      (Inl e, k1) \<Rightarrow> (Inl e, if SNAPSHOT_PATH \<notin> fst ` set (snd k1) \<and> SNAPSHOT_BACKUP_PATH \<in> fst ` set (snd k1)
         then snd (installer_sync_parent (snd (installer_rename SNAPSHOT_BACKUP_PATH SNAPSHOT_PATH k1))) else k1)
    | (Inr _, k1) \<Rightarrow> installer_sync_parent k1)"

definition write_snapshot_file :: "compression \<Rightarrow> env \<Rightarrow> (bytes \<times> data_entry) list \<Rightarrow> u64 \<Rightarrow> bytes \<Rightarrow> disk \<Rightarrow> unit presult \<times> disk" where
  "write_snapshot_file Z E entries watermark partial k =
     and_next (write_temporary Z E entries watermark partial k) (\<lambda>_ k.
     and_next (retire_snapshot k) (\<lambda>_. install_snapshot))"

section \<open>Recovery\<close>

record recovery_state =
  last_sequence :: u64
  recovered_watermark :: u64
  replayed_records :: nat
  recovered_binlog_bytes :: nat
  recovered_unsnapshotted :: nat
  recovered_segments :: nat

definition recover_interrupted_binlog_rotation :: "directory \<Rightarrow> directory presult" where
  "recover_interrupted_binlog_rotation d =
     (if BINLOG_PATH \<in> fst ` set d then Inr d
      else if BINLOG_BACKUP_PATH \<in> fst ` set d then Inr (dir_rename BINLOG_BACKUP_PATH BINLOG_PATH d)
      else if BINLOG_TEMP_PATH \<in> fst ` set d then fail ''Binlog rotation temporary file exists without an active or backup binlog''
      else Inr d)"

record replay_state =
  staging :: store
  expected_sequence :: "u64 option"
  replayed :: nat

definition replay_record :: "env \<Rightarrow> u64 \<Rightarrow> bytes \<Rightarrow> replay_state \<Rightarrow> replay_state presult" where
  "replay_record E watermark r s = and_then (decode_binlog_record E r) (\<lambda>decoded. case decoded of Versioned sequence eff _ \<Rightarrow>
     if sequence \<le> watermark then Inr s
     else if expected_sequence s \<noteq> Some sequence
     then fail (''Non-contiguous binlog replay sequence: expected '' @
        (case expected_sequence s of Some e \<Rightarrow> u64_to_string e | None \<Rightarrow> ''no further sequence'') @ '', found '' @ u64_to_string sequence)
     else and_then (decode_committed_batch E eff) (\<lambda>batch.
       Inr \<lparr>staging = apply_committed_batch E batch (staging s), expected_sequence = u64_checked_add sequence 1, replayed = replayed s + 1\<rparr>))"

fun replay_files :: "env \<Rightarrow> u64 \<Rightarrow> directory \<Rightarrow> inspected_file list \<Rightarrow> replay_state \<Rightarrow> replay_state presult" where
  "replay_files E watermark d [] s = Inr s"
| "replay_files E watermark d (f # fs) s =
     and_then (for_each_binlog_record (replay_record E watermark) (map_of d (file_name f)) s) (\<lambda>(s1, _, _). replay_files E watermark d fs s1)"

definition covered :: "u64 \<Rightarrow> inspected_file \<Rightarrow> bool" where
  "covered watermark f \<longleftrightarrow> declared_end_sequence f \<noteq> None \<and> max_sequence (inspection f) \<le> watermark"

definition cleanup_snapshot_covered_segments :: "inspected_file list \<Rightarrow> u64 \<Rightarrow> directory \<Rightarrow> nat \<times> directory" where
  "cleanup_snapshot_covered_segments files watermark d =
     (let gone = filter (covered watermark) files
      in (length (filter (\<lambda>f. declared_end_sequence f \<noteq> None) files) - length gone, fold (dir_remove \<circ> file_name) gone d))"

definition first_sequence :: "inspected_file list \<Rightarrow> u64 option" where
  "first_sequence files = foldr (\<lambda>f later. case min_sequence (inspection f) of Some m \<Rightarrow> Some m | None \<Rightarrow> later) files None"

definition watermark_of :: "snapshot_format \<Rightarrow> u64" where
  "watermark_of format = (case format of SnapshotVersioned w \<Rightarrow> w | _ \<Rightarrow> 0)"

definition finish_recovery :: "env \<Rightarrow> inspected_file list \<Rightarrow> u64 \<Rightarrow> replay_state \<Rightarrow> store \<Rightarrow> directory \<Rightarrow>
    (recovery_state presult \<times> store \<times> directory) option" where
  "finish_recovery E files watermark s st d =
     (let active = last files; insp = inspection active;
          d1 = (if truncated_tail insp then dir_write BINLOG_PATH (resized (valid_len insp) (the (map_of d BINLOG_PATH))) d else d);
          (entries, _) = snapshot_all E (store_engine (staging s))
      in case replace_all E entries (store_engine st) of
           None \<Rightarrow> None
         | Some e \<Rightarrow>
             (case cleanup_snapshot_covered_segments files watermark d1 of (remaining, d2) \<Rightarrow>
               Some (Inr \<lparr>last_sequence = max watermark (Max (set (map (max_sequence \<circ> inspection) files))),
                        recovered_watermark = watermark, replayed_records = replayed s, recovered_binlog_bytes = valid_len insp,
                        recovered_unsnapshotted = length (filter (\<lambda>f. \<exists>n. declared_end_sequence f = Some n \<and> watermark < n) files),
                        recovered_segments = remaining\<rparr>,
                     st\<lparr>store_engine := e\<rparr>, dir_remove BINLOG_BACKUP_PATH (dir_remove BINLOG_TEMP_PATH d2))))"

definition load_data_from_paths :: "compression \<Rightarrow> env \<Rightarrow> directory \<Rightarrow> store \<Rightarrow> (recovery_state presult \<times> store \<times> directory) option" where
  "load_data_from_paths Z E d st = (case recover_interrupted_binlog_rotation d of
      Inl e \<Rightarrow> Some (Inl e, st, d)
    | Inr d1 \<Rightarrow>
        (let snapshot = (case map_of d1 SNAPSHOT_PATH of Some c \<Rightarrow> Some c | None \<Rightarrow> map_of d1 SNAPSHOT_BACKUP_PATH)
         in case inspect_snapshot Z snapshot of
              Inl e \<Rightarrow> Some (Inl e, st, d1)
            | Inr format \<Rightarrow>
                if format = SnapshotLegacy
                then Some (fail ''Unsupported unsafe legacy snapshot format; create a verified versioned snapshot before upgrading'', st, d1)
                else (case inspect_binlog_history E d1 of
                    (Inl e, d2) \<Rightarrow> Some (Inl e, st, d2)
                  | (Inr files, d2) \<Rightarrow>
                      (let watermark = watermark_of format in
                       if first_sequence files \<noteq> None \<and> u64_saturating_add watermark 1 < the (first_sequence files)
                       then Some (fail ''Binlog begins after the snapshot recovery boundary'', st, d2)
                       else (case load_snapshot_entries Z E snapshot format store_new of
                           Inl e \<Rightarrow> Some (Inl e, st, d2)
                         | Inr (_, loaded) \<Rightarrow>
                             (case replay_files E watermark d2 files
                                     \<lparr>staging = loaded, expected_sequence = u64_checked_add watermark 1, replayed = 0\<rparr> of
                                Inl e \<Rightarrow> Some (Inl e, st, d2)
                              | Inr s \<Rightarrow> finish_recovery E files watermark s st d2))))))"

end
