(* ===== verification/Recovery_Laws.thy ===== *)
theory Recovery_Laws
  imports Recovery "HOL-Library.Multiset"
begin

text \<open>
  The laws of recovery: a scan visits exactly the complete records of a log and reports a torn
  one, the history written by the commit runtime passes the inspection, and recovery rebuilds the
  state that the snapshot and the committed batches after it describe.
\<close>

section \<open>Scanning a log\<close>

text \<open>Visiting a list of records, stopping at the first error.\<close>

fun visit_all :: "('r \<Rightarrow> 's \<Rightarrow> 's presult) \<Rightarrow> 'r list \<Rightarrow> 's \<Rightarrow> 's presult" where
  "visit_all visitor [] s = Inr s"
| "visit_all visitor (r # rs) s = and_then (visitor r s) (visit_all visitor rs)"

lemma visit_all_append: "visit_all visitor (rs @ rs') s = and_then (visit_all visitor rs s) (visit_all visitor rs')"
  by (induction rs arbitrary: s) (auto simp: and_then_def split: sum.splits)

definition record_bytes :: "env \<Rightarrow> u64 \<times> bytes \<Rightarrow> bytes" where
  "record_bytes E x = binlog_record E (fst x) (snd x)"

lemma magic_length [simp]: "length BINLOG_RECORD_MAGIC = 4" "length CHECKSUMLESS_BINLOG_RECORD_MAGIC = 4"
  by (simp_all add: BINLOG_RECORD_MAGIC_def CHECKSUMLESS_BINLOG_RECORD_MAGIC_def)

lemma log_bytes_simps [simp]: "log_bytes E [] = []" "log_bytes E (x # xs) = frame (record_bytes E x) @ log_bytes E xs"
  by (simp_all add: log_bytes_def record_bytes_def case_prod_beta)

lemma log_bytes_append: "log_bytes E (xs @ ys) = log_bytes E xs @ log_bytes E ys"
  by (simp add: log_bytes_def)

text \<open>A record that is within the limits starts with the magic and its own length.\<close>

lemma record_head:
  assumes "binlog_ok (fst x) (snd x)"
  obtains n :: u32 and r where "frame (record_bytes E x) = write_u32_be n @ record_bytes E x"
    "record_bytes E x = BINLOG_RECORD_MAGIC @ write_u32_be n @ r" "length (record_bytes E x) = unat n"
    "8 < unat n" "unat n \<le> MAX_BINLOG_RECORD_SIZE"
proof -
  let ?n = "20 + length (snd x)"
  have "?n < 2 ^ 32" using assms by (simp add: binlog_ok_def MAX_BINLOG_RECORD_SIZE_def)
  from unat_u32 [OF this] assms show thesis
    by (intro that [of "word_of_nat ?n" "write_u64_be (fst x) @ snd x @ write_u32_be (crc32 E (binlog_body (fst x) (snd x)))"])
       (simp_all only: frame_def record_bytes_def binlog_length binlog_record_def binlog_body_def append_assoc binlog_ok_def, simp_all)
qed

lemmas scan_simps = scan_record_def Let_def BINLOG_RECORD_LENGTH_SIZE_def starts_with_def u32_bytes

lemma read_u32_exact [simp]: "read_u32_be (write_u32_be n) = Some (n, [])"
  using u32_bytes [of n "[]"] by simp

lemma scan_framed:
  assumes "binlog_ok (fst x) (snd x)"
  shows "scan_record (frame (record_bytes E x) @ rest) = RecordAt (record_bytes E x) (length (frame (record_bytes E x)))"
proof -
  from assms obtain n r where f: "frame (record_bytes E x) = write_u32_be n @ record_bytes E x"
    and r: "record_bytes E x = BINLOG_RECORD_MAGIC @ write_u32_be n @ r" and len: "length (record_bytes E x) = unat n"
    and n: "8 < unat n" "unat n \<le> MAX_BINLOG_RECORD_SIZE" by (rule record_head)
  have head: "take 8 (record_bytes E x) = BINLOG_RECORD_MAGIC @ write_u32_be n" "take 4 (record_bytes E x) = BINLOG_RECORD_MAGIC"
    unfolding r by simp_all
  have "n \<noteq> 0" using n by auto
  with n show ?thesis
    unfolding f append_assoc by (simp add: scan_simps len head min_absorb1 min_absorb2)
qed

lemma read_u32_short: "length bs < 4 \<Longrightarrow> read_u32_be bs = None"
  by (induction bs rule: read_u32_be.induct) auto

lemma magics_differ: "BINLOG_RECORD_MAGIC \<noteq> CHECKSUMLESS_BINLOG_RECORD_MAGIC"
  by (simp add: BINLOG_RECORD_MAGIC_def CHECKSUMLESS_BINLOG_RECORD_MAGIC_def)

text \<open>A proper prefix of a record, as a crash may leave it, ends the scan.\<close>

lemma scan_torn:
  assumes "binlog_ok (fst x) (snd x)" and "strict_prefix p (frame (record_bytes E x))"
  shows "scan_record p = EndOfLog (p \<noteq> [])"
proof -
  from assms(1) obtain n r where f: "frame (record_bytes E x) = write_u32_be n @ record_bytes E x"
    and r: "record_bytes E x = BINLOG_RECORD_MAGIC @ write_u32_be n @ r" and len: "length (record_bytes E x) = unat n"
    and n: "8 < unat n" "unat n \<le> MAX_BINLOG_RECORD_SIZE" by (rule record_head)
  show ?thesis
  proof (cases "length p < 4")
    case True
    then show ?thesis by (simp add: scan_record_def read_u32_short)
  next
    case False
    define k where "k = length p - 4"
    from assms(2) obtain z where z: "write_u32_be n @ record_bytes E x = p @ z" "z \<noteq> []"
      unfolding f by (auto simp: strict_prefix_def prefix_def)
    have "p = take (length p) (write_u32_be n @ record_bytes E x)" unfolding z(1) by simp
    moreover have "length p < 4 + unat n" using arg_cong [OF z(1), of length] z(2) by (simp add: len)
    ultimately
    have p: "p = write_u32_be n @ take k (record_bytes E x)" and k: "k < unat n"
      using False by (auto simp: k_def)
    have head: "take 8 (record_bytes E x) = BINLOG_RECORD_MAGIC @ write_u32_be n" "take 4 (record_bytes E x) = BINLOG_RECORD_MAGIC"
      unfolding r by simp_all
    have other: "take (min 4 k) (record_bytes E x) \<noteq> CHECKSUMLESS_BINLOG_RECORD_MAGIC"
    proof (cases "4 \<le> k")
      case True
      then show ?thesis using head(2) magics_differ by (simp add: min_absorb1)
    next
      case False
      then have "length (take (min 4 k) (record_bytes E x)) < 4" by simp
      then show ?thesis by (metis less_irrefl magic_length(2))
    qed
    have ne: "n \<noteq> 0" "write_u32_be n \<noteq> []" using n by (auto simp: write_u32_be_def)
    show ?thesis using n k ne other
      unfolding p by (cases "k < 8") (simp_all add: scan_simps len head min_absorb1 min_absorb2)
  qed
qed


lemma for_each_log:
  assumes "\<forall>x \<in> set rs. binlog_ok (fst x) (snd x)" and "scan_record p = EndOfLog t"
  shows "for_each_from visitor n (log_bytes E rs @ p) s =
    and_then (visit_all visitor (map (record_bytes E) rs) s) (\<lambda>s1. Inr (s1, n + length (log_bytes E rs), t))"
  using assms(1)
proof (induction rs arbitrary: n s)
  case Nil
  show ?case by (simp add: for_each_from.simps assms(2))
next
  case (Cons x rs)
  then have "scan_record (log_bytes E (x # rs) @ p) = RecordAt (record_bytes E x) (length (frame (record_bytes E x)))"
    by (simp add: scan_framed)
  moreover have "drop (length (frame (record_bytes E x))) (log_bytes E (x # rs) @ p) = log_bytes E rs @ p" by simp
  ultimately have "for_each_from visitor n (log_bytes E (x # rs) @ p) s = (case visitor (record_bytes E x) s of
      Inl e \<Rightarrow> Inl e
    | Inr s1 \<Rightarrow> for_each_from visitor (n + length (frame (record_bytes E x))) (log_bytes E rs @ p) s1)"
    by (subst for_each_from.simps) (simp cong: sum.case_cong del: log_bytes_simps)
  with Cons show ?case by (simp add: add.assoc split: sum.splits)
qed

text \<open>What a crash may leave after the complete records: nothing, or part of the next record.\<close>

definition torn :: "env \<Rightarrow> bytes \<Rightarrow> bool" where
  "torn E p \<longleftrightarrow> (\<exists>sequence r. binlog_ok sequence r \<and> strict_prefix p (frame (binlog_record E sequence r)))"

lemma torn_scan: "torn E p \<Longrightarrow> scan_record p = EndOfLog (p \<noteq> [])"
  using scan_torn [of "(a, b)" for a b] by (force simp: torn_def record_bytes_def)

lemma torn_none [simp]: "torn E []"
proof -
  have "binlog_ok 1 []" by (simp add: binlog_ok_def MAX_BINLOG_RECORD_SIZE_def)
  moreover have "frame (binlog_record E 1 []) \<noteq> []" by (simp add: frame_def write_u32_be_def)
  ultimately show ?thesis unfolding torn_def strict_prefix_def by (metis Nil_prefix)
qed

section \<open>Logged batches\<close>

text \<open>The batches the commit runtime can have written: they encode, within the limits, and read back.\<close>

definition loggable :: "env \<Rightarrow> (u64 \<times> committed_batch) list \<Rightarrow> bool" where
  "loggable E batches = list_all (\<lambda>(sequence, b). list_all (effect_encodable E) (effects b) \<and>
     (case encode_committed_batch E b of Inl _ \<Rightarrow> False | Inr x \<Rightarrow> binlog_ok sequence x)) batches"

definition logged :: "env \<Rightarrow> (u64 \<times> committed_batch) list \<Rightarrow> bytes" where
  "logged E batches = log_bytes E (encoded E batches)"

lemma loggable_append [simp]: "loggable E (xs @ ys) \<longleftrightarrow> loggable E xs \<and> loggable E ys"
  by (simp add: loggable_def)

lemma loggable_concat: "loggable E (concat xss) \<longleftrightarrow> (\<forall>xs \<in> set xss. loggable E xs)"
  by (auto simp: loggable_def list_all_iff)

lemma loggable_ok: "loggable E batches \<Longrightarrow> \<forall>x \<in> set (encoded E batches). binlog_ok (fst x) (snd x)"
proof (induction batches)
  case (Cons x batches)
  then show ?case by (cases x; cases "encode_committed_batch E (snd x)") (simp_all add: loggable_def encoded_def)
qed (simp add: encoded_def)

text \<open>A visitor of records whose action on a logged batch is known.\<close>

definition record_of :: "env \<Rightarrow> u64 \<times> committed_batch \<Rightarrow> bytes" where
  "record_of E x = binlog_record E (fst x) (projr (encode_committed_batch E (snd x)))"

lemma record_of_decodes:
  assumes "loggable E [x]"
  shows "\<exists>eff. decode_binlog_record E (record_of E x) = Inr (Versioned (fst x) eff Checksummed) \<and> decode_committed_batch E eff = Inr (snd x)"
proof -
  obtain s b where x: "x = (s, b)" by (cases x)
  with assms obtain eff where eff: "encode_committed_batch E b = Inr eff" "binlog_ok s eff" "list_all (effect_encodable E) (effects b)"
    by (auto simp: loggable_def split: sum.splits)
  with committed_batch_codec [of E b eff] decode_binlog_roundtrip [of s eff E] x show ?thesis by (auto simp: record_of_def)
qed

lemma for_each_logged:
  assumes "loggable E batches" and "torn E p"
  shows "for_each_binlog_record visitor (Some (logged E batches @ p)) s =
    and_then (visit_all (visitor \<circ> record_of E) batches s) (\<lambda>s1. Inr (s1, length (logged E batches), p \<noteq> []))"
proof -
  have "visit_all visitor (map (record_bytes E) (encoded E batches)) s = visit_all (visitor \<circ> record_of E) batches s"
    by (induction batches arbitrary: s) (auto simp: encoded_def record_bytes_def record_of_def intro!: arg_cong2 [where f = and_then])
  with for_each_log [OF loggable_ok [OF assms(1)] torn_scan [OF assms(2)], of visitor 0 E s] show ?thesis
    by (simp add: for_each_binlog_record_def logged_def)
qed

text \<open>Each sequence is the successor of the one before.\<close>

fun contiguous :: "u64 option \<Rightarrow> (u64 \<times> 'b) list \<Rightarrow> bool" where
  "contiguous previous [] = True"
| "contiguous previous (x # xs) = (follows previous (fst x) = Inr () \<and> contiguous (Some (fst x)) xs)"

definition last_of :: "u64 option \<Rightarrow> (u64 \<times> 'b) list \<Rightarrow> u64 option" where
  "last_of previous xs = (if xs = [] then previous else Some (fst (last xs)))"

lemma follows_Inr: "follows previous s = Inr u \<longleftrightarrow> previous = None \<or> u64_checked_add (the previous) 1 = Some s"
  by (auto simp: follows_def split: option.splits)

lemma contiguous_append: "contiguous previous (xs @ ys) \<longleftrightarrow> contiguous previous xs \<and> contiguous (last_of previous xs) ys"
  by (induction xs arbitrary: previous) (auto simp: last_of_def)

lemma numbered_contiguous: "numbered offset xs = Some ys \<Longrightarrow> contiguous (Some offset) ys"
  by (induction xs arbitrary: offset ys) (auto simp: follows_Inr split: option.splits)

lemma contiguous_None: "contiguous previous xs \<Longrightarrow> contiguous None xs"
  by (cases xs) (auto simp: follows_Inr)

section \<open>Inspecting a log\<close>

definition inspected :: "binlog_inspection \<Rightarrow> (u64 \<times> 'b) list \<Rightarrow> binlog_inspection" where
  "inspected i xs = (if xs = [] then i else i\<lparr>
     min_sequence := (case min_sequence i of None \<Rightarrow> Some (fst (hd xs)) | Some m \<Rightarrow> Some m), max_sequence := fst (last xs)\<rparr>)"

lemma inspect_logged:
  "loggable E xs \<Longrightarrow> contiguous previous xs \<Longrightarrow>
    visit_all (inspect_record E \<circ> record_of E) xs (i, previous) = Inr (inspected i xs, last_of previous xs)"
proof (induction xs arbitrary: i previous)
  case (Cons x xs)
  from Cons.prems have ok: "loggable E [x]" "loggable E xs" by (simp_all add: loggable_def)
  from record_of_decodes [OF ok(1)] Cons.prems(2)
  have "inspect_record E (record_of E x) (i, previous) = Inr (inspected i [x], Some (fst x))"
    by (auto simp: inspect_record_def inspected_def cong: option.case_cong)
  moreover have "inspected (inspected i [x]) xs = inspected i (x # xs)" "last_of (Some (fst x)) xs = last_of previous (x # xs)"
    by (auto simp: inspected_def last_of_def split: option.splits)
  ultimately show ?case using Cons.IH [OF ok(2)] Cons.prems(2) by simp
qed (simp add: inspected_def last_of_def)

definition inspection_of :: "env \<Rightarrow> (u64 \<times> committed_batch) list \<Rightarrow> bytes \<Rightarrow> binlog_inspection" where
  "inspection_of E xs p = (inspected inspection_default xs)\<lparr>valid_len := length (logged E xs), truncated_tail := (p \<noteq> [])\<rparr>"

lemma inspect_binlog_logged:
  "loggable E xs \<Longrightarrow> contiguous None xs \<Longrightarrow> torn E p \<Longrightarrow>
    inspect_binlog E (Some (logged E xs @ p)) = Inr (inspection_of E xs p)"
  by (simp add: inspect_binlog_def for_each_logged inspect_logged inspection_of_def)

lemma inspection_of_simps [simp]:
  "min_sequence (inspection_of E xs p) = (if xs = [] then None else Some (fst (hd xs)))"
  "max_sequence (inspection_of E xs p) = (if xs = [] then 0 else fst (last xs))"
  "valid_len (inspection_of E xs p) = length (logged E xs)"
  "truncated_tail (inspection_of E xs p) = (p \<noteq> [])"
  "contains_checksumless_records (inspection_of E xs p) = False"
  by (simp_all add: inspection_of_def inspected_def inspection_default_def)

section \<open>Replaying a log\<close>

definition replayed_batches :: "u64 \<Rightarrow> (u64 \<times> committed_batch) list \<Rightarrow> committed_batch list" where
  "replayed_batches watermark xs = map snd (filter (\<lambda>x. watermark < fst x) xs)"

lemma u64_successor: "u64_checked_add a 1 = Some b \<Longrightarrow> unat b = unat a + 1 \<and> a < b"
  by (auto simp: u64_checked_add_Some unat_word_ariths word_less_nat_alt)

lemma replay_logged:
  "loggable E xs \<Longrightarrow> contiguous (Some q) xs \<Longrightarrow> expected_sequence s = u64_checked_add (max q watermark) 1 \<Longrightarrow>
    visit_all (replay_record E watermark \<circ> record_of E) xs s = Inr \<lparr>
      staging = fold (apply_committed_batch E) (replayed_batches watermark xs) (staging s),
      expected_sequence = u64_checked_add (max (the (last_of (Some q) xs)) watermark) 1,
      replayed = replayed s + length (replayed_batches watermark xs)\<rparr>"
proof (induction xs arbitrary: q s)
  case (Cons x xs)
  from Cons.prems have ok: "loggable E [x]" "loggable E xs" by (simp_all add: loggable_def)
  from Cons.prems(2) have q: "u64_checked_add q 1 = Some (fst x)" by (simp add: follows_Inr)
  note less = u64_successor [OF q]
  have last: "last_of (Some q) (x # xs) = last_of (Some (fst x)) xs" by (simp add: last_of_def)
  show ?case
  proof (cases "fst x \<le> watermark")
    case True
    with record_of_decodes [OF ok(1)] have "replay_record E watermark (record_of E x) s = Inr s" by (auto simp: replay_record_def)
    moreover have "max q watermark = max (fst x) watermark" 
      using True less order_less_le_trans [of q "fst x" watermark] by (simp add: max_absorb2 order_less_imp_le)
    moreover have "replayed_batches watermark (x # xs) = replayed_batches watermark xs" using True by (simp add: replayed_batches_def)
    ultimately show ?thesis using Cons.IH [OF ok(2), of "fst x" s] Cons.prems last by simp
  next
    case False
    then have "watermark \<le> q" using less by (simp add: word_le_nat_alt)
    let ?s = "\<lparr>staging = apply_committed_batch E (snd x) (staging s), expected_sequence = u64_checked_add (fst x) 1, replayed = replayed s + 1\<rparr>"
    from record_of_decodes [OF ok(1)] False \<open>watermark \<le> q\<close> Cons.prems(3) q
    have "replay_record E watermark (record_of E x) s = Inr ?s" by (auto simp: replay_record_def max_def)
    moreover have "max (fst x) watermark = fst x" using False by (simp add: max_def)
    moreover have "replayed_batches watermark (x # xs) = snd x # replayed_batches watermark xs" using False by (simp add: replayed_batches_def)
    ultimately show ?thesis using Cons.IH [OF ok(2), of "fst x" ?s] Cons.prems last by simp
  qed
qed (cases s, simp add: last_of_def replayed_batches_def)

section \<open>Inspecting the history\<close>

type_synonym history = "(u64 \<times> committed_batch) list"

definition segment_end :: "history \<Rightarrow> u64" where
  "segment_end seg = fst (last seg)"

text \<open>
  The files of a history: every sealed segment under the name of its last sequence, the active
  binlog with what a crash may have torn, and no other file with the name of a segment.
\<close>

definition history_at :: "env \<Rightarrow> directory \<Rightarrow> history list \<Rightarrow> history \<Rightarrow> bytes \<Rightarrow> bool" where
  "history_at E d segs active p \<longleftrightarrow> distinct (map fst d) \<and>
     map_of d BINLOG_PATH = Some (logged E active @ p) \<and>
     list_all (\<lambda>seg. seg \<noteq> [] \<and> map_of d (binlog_segment (segment_end seg)) = Some (logged E seg)) segs \<and>
     list_all (\<lambda>(name, _). parse_binlog_segment_end_sequence name = Inr None \<or> name \<in> (binlog_segment \<circ> segment_end) ` set segs) d \<and>
     length segs \<le> MAX_BINLOG_SEGMENTS \<and> loggable E (concat segs @ active) \<and> torn E p"

definition segment_file :: "env \<Rightarrow> history \<Rightarrow> inspected_file" where
  "segment_file E seg = \<lparr>file_name = binlog_segment (segment_end seg), declared_end_sequence = Some (segment_end seg),
     inspection = inspection_of E seg []\<rparr>"

definition active_entry :: "env \<Rightarrow> history \<Rightarrow> bytes \<Rightarrow> inspected_file" where
  "active_entry E active p = \<lparr>file_name = BINLOG_PATH, declared_end_sequence = None, inspection = inspection_of E active p\<rparr>"

lemma contiguous_sorted:
  "contiguous previous xs \<Longrightarrow> sorted_wrt (\<lambda>x y. fst x < fst y) xs \<and> (\<forall>q. previous = Some q \<longrightarrow> (\<forall>x \<in> set xs. q < fst x))"
proof (induction xs arbitrary: previous)
  case (Cons x xs)
  then have xs: "sorted_wrt (\<lambda>x y. fst x < fst y) xs" "\<forall>y \<in> set xs. fst x < fst y" by auto
  have "q < fst x" if "previous = Some q" for q
    using Cons.prems that u64_successor [of q "fst x"] by (simp add: follows_Inr)
  with xs show ?case by (force intro: less_trans)
qed simp

lemma segment_ends_sorted:
  "sorted_wrt (\<lambda>x y. fst x < fst y) (concat segs) \<Longrightarrow> [] \<notin> set segs \<Longrightarrow> sorted_wrt (<) (map segment_end segs)"
proof (induction segs)
  case (Cons seg segs)
  have "segment_end seg < segment_end s" if "s \<in> set segs" for s
  proof -
    have "s \<noteq> []" using that Cons.prems(2) by auto
    then have "last s \<in> set (concat segs)" using that by (auto intro!: bexI [of _ s])
    moreover have "last seg \<in> set seg" using Cons.prems(2) by (intro last_in_set) auto
    ultimately show ?thesis using Cons.prems(1) by (auto simp: sorted_wrt_append segment_end_def)
  qed
  with Cons show ?case by (auto simp: sorted_wrt_append)
qed simp

lemma contiguous_segment: "contiguous previous (concat segs @ active) \<Longrightarrow> seg \<in> set segs \<Longrightarrow> contiguous None seg"
proof (induction segs arbitrary: previous)
  case (Cons s segs)
  then show ?case by (auto simp: contiguous_append intro: contiguous_None)
qed simp

lemma segment_parse:
  assumes "loggable E seg" and "seg \<noteq> []"
  shows "parse_binlog_segment_end_sequence (binlog_segment (segment_end seg)) = Inr (Some (segment_end seg))"
proof -
  obtain s b where x: "last seg = (s, b)" by (cases "last seg")
  have "loggable E [last seg]" using assms unfolding loggable_def by (simp add: list_all_iff)
  then have "segment_end seg \<noteq> 0" by (auto simp: loggable_def segment_end_def x binlog_ok_def split: sum.splits)
  then show ?thesis by (simp add: segment_name_exact)
qed

definition is_segment :: "bytes \<times> bytes \<Rightarrow> bool" where
  "is_segment f \<longleftrightarrow> parse_binlog_segment_end_sequence (fst f) \<noteq> Inr None"

lemma collect_segments_spec:
  assumes "\<forall>f \<in> set d. is_segment f \<longrightarrow> (\<exists>seg \<in> S. seg \<noteq> [] \<and> loggable E seg \<and> contiguous None seg \<and>
      f = (binlog_segment (segment_end seg), logged E seg))"
    and "length found + length (filter is_segment d) \<le> MAX_BINLOG_SEGMENTS"
  shows "\<exists>fs. collect_segments E d found = Inr (found @ fs) \<and> map file_name fs = map fst (filter is_segment d) \<and> set fs \<subseteq> segment_file E ` S"
  using assms
proof (induction d arbitrary: found)
  case (Cons f d)
  obtain name content where f: "f = (name, content)" by (cases f)
  show ?case
  proof (cases "is_segment f")
    case False
    with Cons.IH [of found] Cons.prems f show ?thesis by (simp add: is_segment_def)
  next
    case True
    with Cons.prems(1) obtain seg where seg: "seg \<in> S" "seg \<noteq> []" "loggable E seg" "contiguous None seg"
      and n: "name = binlog_segment (segment_end seg)" "content = logged E seg" using f by auto
    have insp: "inspect_binlog E (Some content) = Inr (inspection_of E seg [])"
      using inspect_binlog_logged [OF seg(3,4), of "[]"] n by simp
    from True Cons.prems(2) have len: "length found \<noteq> MAX_BINLOG_SEGMENTS" by simp
    from Cons.IH [of "found @ [segment_file E seg]"] Cons.prems True obtain fs
      where fs: "collect_segments E d (found @ [segment_file E seg]) = Inr (found @ segment_file E seg # fs)"
        "map file_name fs = map fst (filter is_segment d)" "set fs \<subseteq> segment_file E ` S" by auto
    have "collect_segments E (f # d) found = collect_segments E d (found @ [segment_file E seg])"
      using segment_parse [OF seg(3,2)] insp len n by (simp add: f segment_file_def)
    with fs seg(1) f True n show ?thesis by (intro exI [of _ "segment_file E seg # fs"]) (simp add: segment_file_def)
  qed
qed simp

lemma segment_files_collected:
  assumes "history_at E d segs active p" and "sorted_wrt (\<lambda>x y. fst x < fst y) (concat segs)" and "\<forall>seg \<in> set segs. contiguous None seg"
  shows "\<exists>fs. collect_segments E d [] = Inr fs \<and> sort_key (the \<circ> declared_end_sequence) fs = map (segment_file E) segs"
proof -
  from assms(1) have dd: "distinct (map fst d)" and max: "length segs \<le> MAX_BINLOG_SEGMENTS" and log: "loggable E (concat segs @ active)"
    and segs: "seg \<in> set segs \<Longrightarrow> seg \<noteq> [] \<and> map_of d (binlog_segment (segment_end seg)) = Some (logged E seg)" for seg
    by (auto simp: history_at_def list_all_iff)
  from log have logs: "\<forall>seg \<in> set segs. loggable E seg" by (simp add: loggable_concat)
  have "[] \<notin> set segs" using segs by blast
  with assms(2) have ends: "sorted_wrt (<) (map segment_end segs)" by (rule segment_ends_sorted)
  then have inj: "inj_on segment_end (set segs)" "distinct segs" using strict_sorted_iff distinct_map by blast+
  have parse: "parse_binlog_segment_end_sequence (binlog_segment (segment_end seg)) = Inr (Some (segment_end seg))" if "seg \<in> set segs" for seg
    using that segs logs by (intro segment_parse) auto
  have found: "\<exists>seg \<in> set segs. f = (binlog_segment (segment_end seg), logged E seg)" if "f \<in> set d" "is_segment f" for f
  proof -
    from assms(1) that obtain seg where seg: "seg \<in> set segs" "fst f = binlog_segment (segment_end seg)"
      by (cases f) (auto simp: history_at_def list_all_iff is_segment_def)
    with segs have "map_of d (fst f) = Some (logged E seg)" by simp
    moreover have "map_of d (fst f) = Some (snd f)" using dd that(1) by (intro map_of_is_SomeI) simp_all
    ultimately have "snd f = logged E seg" by simp
    with seg show ?thesis by (intro bexI [of _ seg]) (simp_all add: prod_eq_iff)
  qed
  have names: "fst ` set (filter is_segment d) = (binlog_segment \<circ> segment_end) ` set segs"
  proof
    show "fst ` set (filter is_segment d) \<subseteq> (binlog_segment \<circ> segment_end) ` set segs" using found by fastforce
    show "(binlog_segment \<circ> segment_end) ` set segs \<subseteq> fst ` set (filter is_segment d)"
    proof
      fix name assume "name \<in> (binlog_segment \<circ> segment_end) ` set segs"
      then obtain seg where seg: "seg \<in> set segs" "name = binlog_segment (segment_end seg)" by auto
      then have "(name, logged E seg) \<in> set d" "is_segment (name, logged E seg)" using segs parse by (auto dest: map_of_SomeD simp: is_segment_def)
      then show "name \<in> fst ` set (filter is_segment d)" by force
    qed
  qed
  have dnames: "distinct (map fst (filter is_segment d))" using dd by (simp add: distinct_map_filter)
  have "length (filter is_segment d) = card (fst ` set (filter is_segment d))"
    using distinct_card [OF dnames] by simp
  also have "\<dots> \<le> length segs" unfolding names by (rule le_trans [OF card_image_le card_length]) simp
  finally obtain fs where fs: "collect_segments E d [] = Inr fs" "map file_name fs = map fst (filter is_segment d)"
      "set fs \<subseteq> segment_file E ` set segs"
    using collect_segments_spec [of d "set segs" E "[]"] found segs logs assms(3) max by fastforce
  have inj_name: "inj_on (file_name \<circ> segment_file E) (set segs)"
    using inj(1) parse by (intro inj_onI) (metis comp_apply inj_onD inspected_file.select_convs(1) option.inject segment_file_def sum.inject(2))
  have "segment_file E ` set segs \<subseteq> set fs"
  proof
    fix f assume "f \<in> segment_file E ` set segs"
    then obtain seg where seg: "seg \<in> set segs" "f = segment_file E seg" by auto
    then have "file_name f \<in> file_name ` set fs" using names fs(2) by (metis comp_apply image_eqI inspected_file.select_convs(1) list.set_map segment_file_def)
    then obtain seg' where "seg' \<in> set segs" "segment_file E seg' \<in> set fs" "file_name (segment_file E seg') = file_name f" using fs(3) by auto
    with seg inj_onD [OF inj_name, of seg' seg] show "f \<in> set fs" by simp
  qed
  with fs(3) have set: "set fs = segment_file E ` set segs" by auto
  have "distinct fs" using dnames fs(2) distinct_map by metis
  moreover have "distinct (map (segment_file E) segs)" using inj_name inj(2) by (simp add: distinct_map inj_on_imageI2)
  ultimately have "mset fs = mset (map (segment_file E) segs)" 
    using set set_eq_iff_mset_eq_distinct [of fs "map (segment_file E) segs"] by simp
  then have "sort_key (the \<circ> declared_end_sequence) fs = map (segment_file E) segs"
  proof (rule sort_key_inj_key_eq)
    show "inj_on (the \<circ> declared_end_sequence) (set fs)" unfolding set using inj(1) by (auto simp: inj_on_def segment_file_def)
    show "sorted (map (the \<circ> declared_end_sequence) (map (segment_file E) segs))"
      using ends by (simp add: o_def segment_file_def strict_sorted_iff)
  qed
  with fs(1) show ?thesis by blast
qed

lemma check_history_ok:
  "contiguous previous (concat segs @ active) \<Longrightarrow> previous' = previous \<or> previous' = None \<Longrightarrow>
    check_history previous' (map (segment_file E) segs @ [active_entry E active p]) = Inr ()"
proof (induction segs arbitrary: previous previous')
  case Nil
  then show ?case by (cases active) (auto simp: active_entry_def follows_Inr)
next
  case (Cons seg segs)
  show ?case
  proof (cases "seg = []")
    case True
    with Cons show ?thesis by (simp add: segment_file_def)
  next
    case False
    from Cons.prems(1) have "contiguous previous seg" "contiguous (last_of previous seg) (concat segs @ active)"
      using contiguous_append [of previous seg "concat segs @ active"] by simp_all
    moreover from this(1) False have "follows previous (fst (hd seg)) = Inr ()" by (cases seg) simp_all
    ultimately have "contiguous (Some (segment_end seg)) (concat segs @ active)" "follows previous (fst (hd seg)) = Inr ()"
      using False by (simp_all only: last_of_def segment_end_def if_False)
    with Cons.IH [of _ "Some (segment_end seg)"] False Cons.prems(2) show ?thesis
      by (auto simp: segment_file_def segment_end_def follows_Inr)
  qed
qed

text \<open>The inspection of files that hold a history file by file comes down to the check across the files.\<close>

lemma inspect_files:
  assumes "history_at E d segs active p" and "sorted_wrt (\<lambda>x y. fst x < fst y) (concat segs)"
    and "\<forall>seg \<in> set segs. contiguous None seg" and "contiguous None active"
  shows "inspect_binlog_history E d =
    (let files = map (segment_file E) segs @ [active_entry E active p] in (and_then (check_history None files) (\<lambda>_. Inr files), d))"
proof -
  obtain fs where fs: "collect_segments E d [] = Inr fs" "sort_key (the \<circ> declared_end_sequence) fs = map (segment_file E) segs"
    using segment_files_collected [OF assms(1-3)] by blast
  from assms have h: "loggable E active" "torn E p" "map_of d BINLOG_PATH = Some (logged E active @ p)" "[] \<notin> set segs"
    by (auto simp: history_at_def list_all_iff)
  with assms(4) have active: "inspect_binlog E (map_of d BINLOG_PATH) = Inr (inspection_of E active p)"
    by (simp add: inspect_binlog_logged)
  have whole: "first_torn (map (segment_file E) segs) = None" by (induction segs) (simp_all add: segment_file_def)
  have "check_segments (map (segment_file E) segs) = Inr ()"
    using h(4) by (induction segs) (auto simp: segment_file_def segment_end_def)
  then show ?thesis
    by (simp add: inspect_binlog_history_def and_next_def fs active whole repair_segments_def active_entry_def Let_def)
qed

lemma inspect_history:
  assumes "history_at E d segs active p" and "contiguous previous (concat segs @ active)"
  shows "inspect_binlog_history E d = (Inr (map (segment_file E) segs @ [active_entry E active p]), d)"
proof -
  have "contiguous None active" using assms(2) by (auto simp: contiguous_append intro: contiguous_None)
  with inspect_files [OF assms(1)] check_history_ok [OF assms(2), of None E p] contiguous_sorted [OF assms(2)] contiguous_segment [OF assms(2)]
  show ?thesis by (simp add: sorted_wrt_append)
qed

section \<open>Loading a snapshot\<close>

lemma split_on_none: "c \<notin> set xs \<Longrightarrow> split_on c xs = [xs]"
  by (induction xs) auto

lemma split_on_first: "c \<notin> set xs \<Longrightarrow> split_on c (xs @ c # ys) = xs # split_on c ys"
  by (induction xs) auto

lemma digits_plain: "c \<in> set (nat_to_string n) \<Longrightarrow> c \<noteq> LF \<and> c \<noteq> CHR 0x0D \<and> c \<noteq> CHR 0x09 \<and> of_char c < (128 :: nat)"
  using nat_to_string_digits [of c n] by (auto simp: between_def LF_def)

lemma read_line:
  assumes "line \<noteq> []" and "\<forall>c \<in> set line. c \<noteq> LF \<and> c \<noteq> CHR 0x0D \<and> of_char c < (128 :: nat)" and "length line < n"
  shows "read_bounded_utf8_line n (line @ LF # rest) = Inr (Some line, rest)"
proof -
  have "take (n + 1) (line @ LF # rest) = line @ LF # take (n - length line) rest"
    using assms(3) by (simp add: Suc_diff_le)
  moreover have "takeWhile (\<lambda>c. c \<noteq> LF) (line @ LF # xs) = line" for xs
    using assms(2) by (subst takeWhile_append2) auto
  moreover have "utf8_valid (line @ [LF])"
    using assms(2) by (intro utf8_valid_ascii) (auto simp: is_ascii_def list_all_iff LF_def)
  moreover have "dropWhile (\<lambda>c. c = CHR 0x0D \<or> c = LF) (rev line) = rev line"
    using assms(1,2) by (cases line rule: rev_cases) auto
  ultimately show ?thesis using assms(1,3) by (simp add: read_bounded_utf8_line_def Let_def)
qed

definition header_line :: "u64 \<Rightarrow> bytes" where
  "header_line watermark = SNAPSHOT_MAGIC @ [CHR 0x09] @ nat_to_string SNAPSHOT_VERSION @ [CHR 0x09] @ u64_to_string watermark"

lemma header_plain: "\<forall>c \<in> set (header_line w). c \<noteq> LF \<and> c \<noteq> CHR 0x0D \<and> of_char c < (128 :: nat)"
  using digits_plain [of _ "unat w"] digits_plain [of _ SNAPSHOT_VERSION]
  by (auto simp: header_line_def u64_to_string_def SNAPSHOT_MAGIC_def LF_def)

lemma read_header: "read_bounded_utf8_line MAX_SNAPSHOT_METADATA_SIZE (snapshot_header w @ body) = Inr (Some (header_line w), body)"
proof -
  have "unat w < 10 ^ Suc 19" using unat_u64_less [of w] by simp
  from nat_to_string_length [OF this] have "length (header_line w) < MAX_SNAPSHOT_METADATA_SIZE"
    by (simp add: header_line_def u64_to_string_def SNAPSHOT_MAGIC_def SNAPSHOT_VERSION_def nat_to_string.simps
        MAX_SNAPSHOT_METADATA_SIZE_def)
  moreover have "header_line w \<noteq> []" by (simp add: header_line_def SNAPSHOT_MAGIC_def)
  moreover have "snapshot_header w @ body = header_line w @ LF # body" by (simp add: snapshot_header_def header_line_def)
  ultimately show ?thesis using read_line [OF _ header_plain] by simp
qed

lemma parse_header: "parse_snapshot_header (header_line w) = Inr (SnapshotVersioned w)"
proof -
  have "CHR 0x09 \<notin> set SNAPSHOT_MAGIC" by (simp add: SNAPSHOT_MAGIC_def)
  moreover have "CHR 0x09 \<notin> set (nat_to_string n)" for n using digits_plain by blast
  ultimately have "split_on CHR 0x09 (header_line w) = [SNAPSHOT_MAGIC, nat_to_string SNAPSHOT_VERSION, u64_to_string w]"
    by (simp add: header_line_def u64_to_string_def split_on_first split_on_none)
  moreover have "parse_unsigned 255 (nat_to_string SNAPSHOT_VERSION) = Some SNAPSHOT_VERSION"
    by (simp add: SNAPSHOT_VERSION_def nat_to_string.simps parse_unsigned_def digit_val_def between_def digit_char_def)
  moreover have "starts_with (header_line w) SNAPSHOT_MAGIC" by (simp add: header_line_def starts_with_def)
  ultimately show ?thesis by (simp add: parse_snapshot_header_def Let_def)
qed

definition entry_encodable :: "env \<Rightarrow> bytes \<times> data_entry \<Rightarrow> bool" where
  "entry_encodable E x \<longleftrightarrow> encodable E (entry_value (snd x)) \<and> expires_at (snd x) \<noteq> Some 0"

text \<open>The live part of a list of entries, as the code compares them.\<close>

definition entries_view :: "env \<Rightarrow> (bytes \<times> data_entry) list \<Rightarrow> bytes \<Rightarrow> persistent_entry option" where
  "entries_view E entries k = palive E (map_option persistent_entry_from (map_of entries k))"

lemma set_view:
  assumes "store_wf st"
  shows "pview E (snd (on_engine (engine_set E key v expires) st)) = (pview E st)(key := palive E (Some \<lparr>pe_value = v, pe_expires_at = expires\<rparr>))"
    and "store_wf (snd (on_engine (engine_set E key v expires) st))"
proof -
  let ?st = "snd (on_engine (engine_set E key v expires) st)"
  have c: "engine_change E ((contents (store_engine st))(key := if expired_at E expires then None
       else Some ((fresh_entry E v)\<lparr>expires_at := expires\<rparr>))) (store_engine st) (store_engine ?st)"
    using engine_set_change by simp
  note cv = change_view [OF c assms]
  show "store_wf ?st" by (rule cv(2))
  show "pview E ?st = (pview E st)(key := palive E (Some \<lparr>pe_value = v, pe_expires_at = expires\<rparr>))"
    unfolding pview_def fun_eq_iff cv(1)
    by (auto simp: alive_def palive_def entry_expired_def expired_at_def persistent_entry_from_def fresh_entry_def split: option.splits)
qed

lemma read_framed:
  assumes "length r < 2 ^ 32"
  shows "read_u32_be (frame r @ rest) = Some (word_of_nat (length r), r @ rest)" "unat (word_of_nat (length r) :: u32) = length r"
  using unat_u32 [OF assms] by (simp_all add: frame_def u32_bytes)

lemma encode_entries_Cons: "encode_entries E ((key, entry) # entries) = Inr out \<longleftrightarrow>
    (\<exists>r rest. encode_snapshot_entry E key entry = Inr r \<and> length r < 2 ^ 32 \<and> encode_entries E entries = Inr rest \<and> out = frame r @ rest)"
  by (auto simp: and_then_Inr ok_or_Inr u32_try_from_def frame_def)

lemma encode_entry_size: "encode_snapshot_entry E key entry = Inr r \<Longrightarrow> r \<noteq> [] \<and> length r \<le> MAX_SNAPSHOT_RECORD_SIZE"
  by (auto simp: encode_snapshot_entry_def and_then_Inr append_snapshot_bytes_Inr Let_def frame_def write_u32_be_def split: if_splits)

lemma load_records_spec:
  assumes "encode_entries E entries = Inr body" and "list_all (entry_encodable E) entries" and "distinct (map fst entries)"
    and "store_wf st" and "\<And>k. k \<in> fst ` set entries \<Longrightarrow> pview E st k = None"
  shows "\<exists>n st'. load_records E body c st = Inr (n, st') \<and> store_wf st' \<and>
    (\<forall>k. pview E st' k = (if k \<in> fst ` set entries then entries_view E entries k else pview E st k))"
  using assms
proof (induction entries arbitrary: body c st)
  case Nil
  then show ?case by (simp add: load_records.simps)
next
  case (Cons x entries)
  obtain key entry where x: "x = (key, entry)" by (cases x)
  from Cons.prems(1) x obtain r rest where r: "encode_snapshot_entry E key entry = Inr r" "length r < 2 ^ 32"
    and rest: "encode_entries E entries = Inr rest" "body = frame r @ rest" unfolding x encode_entries_Cons by blast
  let ?entry = "entry\<lparr>created_at := now E, last_accessed := now E\<rparr>"
  have dec: "decode_snapshot_entry E r = Inr (key, ?entry)"
    using snapshot_entry_roundtrip [OF r(1)] Cons.prems(2) x by (simp add: entry_encodable_def)
  note size = encode_entry_size [OF r(1)]
  let ?set = "snd (on_engine (engine_set E key (entry_value entry) (expires_at entry)) st)"
  have step: "load_records E body c st = (if is_expired E entry then load_records E rest c st
      else load_records E rest (c + 1) ?set)"
  proof -
    have "body \<noteq> []" using rest(2) by (simp add: frame_def write_u32_be_def)
    moreover have "drop (4 + length r) body = rest" unfolding rest(2) frame_length [symmetric] by simp
    moreover have "read_u32_be body = Some (word_of_nat (length r), r @ rest)" unfolding rest(2) by (rule read_framed(1) [OF r(2)])
    ultimately show ?thesis using size read_framed(2) [OF r(2)] dec
      by (subst load_records.simps) (simp add: is_expired_def)
  qed
  define st1 where "st1 = (if is_expired E entry then st else ?set)"
  have st1: "store_wf st1" "pview E st1 = (pview E st)(key := palive E (Some (persistent_entry_from entry)))"
    using Cons.prems(4) Cons.prems(5) [of key] set_view [OF Cons.prems(4), of E key "entry_value entry" "expires_at entry"] x
    by (auto simp: st1_def persistent_entry_from_def is_expired_def palive_def split: option.splits)
  have fresh: "key \<notin> fst ` set entries" using Cons.prems(3) x by simp
  have "pview E st1 k = None" if "k \<in> fst ` set entries" for k using that fresh Cons.prems(5) [of k] st1(2) x by auto
  from Cons.IH [OF rest(1) _ _ st1(1) this] Cons.prems(2,3) x obtain n st'
    where "load_records E rest (if is_expired E entry then c else c + 1) st1 = Inr (n, st')" "store_wf st'"
      "\<forall>k. pview E st' k = (if k \<in> fst ` set entries then entries_view E entries k else pview E st1 k)" by fastforce
  moreover have "load_records E body c st = load_records E rest (if is_expired E entry then c else c + 1) st1"
    by (simp add: step st1_def)
  ultimately show ?case
    using fresh x by (intro exI [of _ n] exI [of _ st']) (auto simp: st1(2) entries_view_def)
qed

section \<open>The recovered state\<close>

type_synonym snapshot_image = "(u64 \<times> (bytes \<times> data_entry) list) option"

definition image_watermark :: "snapshot_image \<Rightarrow> u64" where
  "image_watermark s = (case s of None \<Rightarrow> 0 | Some (w, _) \<Rightarrow> w)"

definition image_entries :: "snapshot_image \<Rightarrow> (bytes \<times> data_entry) list" where
  "image_entries s = (case s of None \<Rightarrow> [] | Some (_, entries) \<Rightarrow> entries)"

text \<open>The snapshot recovery reads: the current one, or the previous one if there is none.\<close>

definition current_snapshot :: "directory \<Rightarrow> bytes option" where
  "current_snapshot d = (case map_of d SNAPSHOT_PATH of Some c \<Rightarrow> Some c | None \<Rightarrow> map_of d SNAPSHOT_BACKUP_PATH)"

text \<open>The directory holds this snapshot, or none.\<close>

definition snapshot_at :: "compression \<Rightarrow> env \<Rightarrow> directory \<Rightarrow> snapshot_image \<Rightarrow> bool" where
  "snapshot_at Z E d s \<longleftrightarrow> list_all (entry_encodable E) (image_entries s) \<and> distinct (map fst (image_entries s)) \<and> (case s of
      None \<Rightarrow> current_snapshot d = None
    | Some (w, entries) \<Rightarrow> (case (encode_entries E entries, current_snapshot d) of
          (Inr body, Some packed) \<Rightarrow> gunzip Z packed = Inr (snapshot_header w @ body)
        | _ \<Rightarrow> False))"

definition recovered_content :: "env \<Rightarrow> snapshot_image \<Rightarrow> history \<Rightarrow> bytes \<Rightarrow> persistent_entry option" where
  "recovered_content E s log = fold (effect_update E) (concat (map effects (replayed_batches (image_watermark s) log))) (entries_view E (image_entries s))"

lemma apply_batches_view:
  "store_wf st \<Longrightarrow> pview E (fold (apply_committed_batch E) bs st) = fold (effect_update E) (concat (map effects bs)) (pview E st) \<and>
    store_wf (fold (apply_committed_batch E) bs st)"
  by (induction bs arbitrary: st) (simp_all add: apply_batch_view)

lemma pview_new: "pview E store_new = (\<lambda>_. None)"
  by (simp add: pview_def view_def live_def fun_eq_iff store_new_def with_maxmemory_def)

lemma snapshot_all_spec:
  assumes "engine_wf e"
  shows "hm_wf (fst (snapshot_all E e))" "hm_get (fst (snapshot_all E e)) = live (now E) (contents e)"
proof -
  let ?f = "\<lambda>g. let g1 = snd (expire_keys E g) in (sd_visit (sdata (fst g1)), g1)"
  have wf: "engine_wf (snd (all_shards ?f e))"
    using engine_change_wf [OF snapshot_all_change assms] by (simp add: snapshot_all_def)
  have "fst (snapshot_all E e) = engine_entries (snd (snapshot_all E e))"
    using all_shards_results [of ?f sh_entries, OF _ assms wf]
    by (simp add: snapshot_all_def engine_entries_def Let_def)
  moreover have "engine_wf (snd (snapshot_all E e))" using wf by (simp add: snapshot_all_def)
  ultimately show "hm_wf (fst (snapshot_all E e))" "hm_get (fst (snapshot_all E e)) = live (now E) (contents e)"
    using engine_distinct engine_map engine_change_contents [OF snapshot_all_change assms] by simp_all
qed

lemma load_snapshot_spec:
  assumes "snapshot_at Z E d s"
  shows "\<exists>format n st. inspect_snapshot Z (current_snapshot d) = Inr format \<and>
    format \<noteq> SnapshotLegacy \<and> watermark_of format = image_watermark s \<and>
    load_snapshot_entries Z E (current_snapshot d) format store_new = Inr (n, st) \<and>
    store_wf st \<and> pview E st = entries_view E (image_entries s)"
proof (cases s)
  case None
  with assms show ?thesis
    by (simp add: snapshot_at_def inspect_snapshot_def watermark_of_def image_watermark_def load_snapshot_entries_def
        store_new_wf pview_new image_entries_def entries_view_def palive_def fun_eq_iff)
next
  case (Some x)
  obtain w entries where s: "s = Some (w, entries)" using Some by (cases x) auto
  from assms s obtain body packed where enc: "encode_entries E entries = Inr body"
    and packed: "current_snapshot d = Some packed" "gunzip Z packed = Inr (snapshot_header w @ body)"
    and ok: "list_all (entry_encodable E) entries" "distinct (map fst entries)"
    by (auto simp: snapshot_at_def image_entries_def split: sum.splits option.splits)
  from load_records_spec [OF enc ok store_new_wf, of 0] obtain n st where st: "load_records E body 0 store_new = Inr (n, st)" "store_wf st"
    "\<forall>k. pview E st k = (if k \<in> fst ` set entries then entries_view E entries k else pview E store_new k)" unfolding pview_new by blast
  have "pview E st = entries_view E entries"
  proof
    fix k show "pview E st k = entries_view E entries k"
      using st(3) map_of_eq_None_iff [of entries k]
      by (cases "map_of entries k") (auto simp: pview_new entries_view_def palive_def)
  qed
  with s packed st show ?thesis
    by (simp add: inspect_snapshot_def read_header parse_header watermark_of_def image_watermark_def load_snapshot_entries_def image_entries_def)
qed

section \<open>The directory\<close>

lemma map_of_remove: "map_of (dir_remove name d) n = (if n = name then None else map_of d n)"
  by (induction d) (auto simp: dir_remove_def)

lemma map_of_write: "map_of (dir_write name content d) n = (if n = name then Some content else map_of d n)"
proof (cases "name \<in> fst ` set d")
  case True
  have "map_of (map (\<lambda>(m, c). if m = name then (m, content) else (m, c)) xs) n =
      (if n = name \<and> name \<in> fst ` set xs then Some content else map_of xs n)" for xs
  proof (induction xs)
    case (Cons x xs)
    then show ?case by (cases x; cases "fst x = name"; cases "n = name") simp_all
  qed simp
  with True show ?thesis by (simp add: dir_write_def)
next
  case False
  then have "map_of d name = None" by (simp add: map_of_eq_None_iff)
  with False show ?thesis by (cases "map_of d n") (auto simp: dir_write_def map_add_def)
qed

lemma distinct_remove: "distinct (map fst d) \<Longrightarrow> distinct (map fst (dir_remove name d))"
  unfolding dir_remove_def by (rule distinct_map_filter)

lemma names_write: "map fst (dir_write name content d) = map fst d @ (if name \<in> fst ` set d then [] else [name])"
  by (auto simp: dir_write_def)

lemma names_remove: "set (map fst (dir_remove name d)) = set (map fst d) - {name}"
  by (auto simp: dir_remove_def)

lemma fold_remove:
  "map_of (fold (dir_remove \<circ> g) xs d) n = (if n \<in> g ` set xs then None else map_of d n)"
  "distinct (map fst d) \<Longrightarrow> distinct (map fst (fold (dir_remove \<circ> g) xs d))"
  "set (map fst (fold (dir_remove \<circ> g) xs d)) = set (map fst d) - g ` set xs"
proof (induction xs arbitrary: d)
  case (Cons x xs)
  { case 1 show ?case using Cons(1) by (auto simp: map_of_remove) }
  { case 2 then show ?case using Cons(2) distinct_remove by simp }
  { case 3 show ?case using Cons(3) [of "dir_remove (g x) d"] names_remove [of "g x" d] by auto }
qed simp_all

lemmas paths = SNAPSHOT_PATH_def SNAPSHOT_BACKUP_PATH_def BINLOG_PATH_def BINLOG_TEMP_PATH_def BINLOG_BACKUP_PATH_def

section \<open>Recovery\<close>

lemma replay_history:
  assumes "history_at E d segs active p" and "contiguous (Some q) (concat segs @ active)"
    and "expected_sequence s = u64_checked_add (max q w) 1"
  shows "\<exists>x. replay_files E w d (map (segment_file E) segs @ [active_entry E active p]) s = Inr \<lparr>
      staging = fold (apply_committed_batch E) (replayed_batches w (concat segs @ active)) (staging s),
      expected_sequence = x, replayed = replayed s + length (replayed_batches w (concat segs @ active))\<rparr>"
proof -
  define v where "v = replay_record E w \<circ> record_of E"
  note visit = for_each_logged [of E _ _ "replay_record E w", folded v_def]
  have run: "replay_files E w d (map (segment_file E) ss @ [active_entry E active p]) s = visit_all v (concat ss @ active) s" if "set ss \<subseteq> set segs" for ss s
    using that
  proof (induction ss arbitrary: s)
    case Nil
    from assms(1) have "loggable E active" "torn E p" "map_of d BINLOG_PATH = Some (logged E active @ p)" by (auto simp: history_at_def)
    then show ?case
      by (cases "visit_all v active s") (simp_all add: active_entry_def visit)
  next
    case (Cons seg ss)
    then have seg: "loggable E seg" "map_of d (binlog_segment (segment_end seg)) = Some (logged E seg)"
      using assms(1) by (auto simp: history_at_def list_all_iff loggable_concat)
    have "for_each_binlog_record (replay_record E w) (Some (logged E seg)) s =
        and_then (visit_all v seg s) (\<lambda>s1. Inr (s1, length (logged E seg), False))"
      using visit [OF seg(1) torn_none, of s] by simp
    with Cons seg(2) show ?case
      by (cases "visit_all v seg s") (simp_all add: segment_file_def visit_all_append)
  qed
  have "loggable E (concat segs @ active)" using assms(1) unfolding history_at_def by blast
  from replay_logged [OF this assms(2,3), folded v_def] run [of segs s] show ?thesis by auto
qed

lemma first_sequence_history:
  "[] \<notin> set segs \<Longrightarrow> first_sequence (map (segment_file E) segs @ [active_entry E active p]) =
    (if concat segs @ active = [] then None else Some (fst (hd (concat segs @ active))))"
  by (cases segs) (auto simp: first_sequence_def segment_file_def active_entry_def)

lemma sorted_last: "sorted_wrt (\<lambda>x y. fst x < fst y) xs \<Longrightarrow> x \<in> set xs \<Longrightarrow> fst x \<le> (fst (last xs) :: 'k::linorder)"
  by (cases xs rule: rev_cases) (auto simp: sorted_wrt_append less_imp_le)

lemma last_sequence_history:
  assumes "[] \<notin> set segs" and "sorted_wrt (\<lambda>x y. fst x < fst y) (concat segs @ active)"
  shows "Max (set (map (max_sequence \<circ> inspection) (map (segment_file E) segs @ [active_entry E active p]))) =
    the (last_of (Some 0) (concat segs @ active))"
proof (rule Max_eqI)
  let ?all = "concat segs @ active" and ?ms = "set (map (max_sequence \<circ> inspection) (map (segment_file E) segs @ [active_entry E active p]))"
  show "finite ?ms" by simp
  have ms: "?ms = fst ` last ` set segs \<union> {if active = [] then 0 else fst (last active)}"
    using assms(1) by (auto simp: segment_file_def active_entry_def image_iff)
  have le: "fst x \<le> fst (last ?all)" if "x \<in> set ?all" for x
    by (rule sorted_last [OF assms(2) that])
  have mem: "last seg \<in> set ?all" if "seg \<in> set segs" for seg
    using that assms(1) by (auto intro!: bexI [of _ seg] last_in_set)
  show "y \<le> the (last_of (Some 0) ?all)" if y: "y \<in> ?ms" for y
  proof -
    consider "y = 0" | x where "x \<in> set ?all" "y = fst x"
    proof -
      from y consider "y = 0" | seg where "seg \<in> set segs" "y = fst (last seg)" | "active \<noteq> []" "y = fst (last active)"
        unfolding ms by (cases "active = []") auto
      then show thesis
      proof cases
        case (2 seg)
        with mem [of seg] that(2) show ?thesis by blast
      next
        case 3
        with that(2) [of "last active"] show ?thesis by simp
      qed (rule that(1))
    qed
    then show ?thesis
    proof cases
      case (2 x)
      then have "?all \<noteq> []" by (metis empty_iff list.set(1))
      with le [OF 2(1)] 2(2) show ?thesis by (simp only: last_of_def if_False option.sel)
    qed simp
  qed
  show "the (last_of (Some 0) ?all) \<in> ?ms"
  proof (cases "active = []")
    case True
    then show ?thesis using assms(1) unfolding ms by (cases segs rule: rev_cases) (auto simp: last_of_def)
  qed (simp add: last_of_def active_entry_def)
qed


lemma paths_parse:
  "parse_binlog_segment_end_sequence BINLOG_PATH = Inr None" "parse_binlog_segment_end_sequence BINLOG_TEMP_PATH = Inr None"
  "parse_binlog_segment_end_sequence BINLOG_BACKUP_PATH = Inr None" "parse_binlog_segment_end_sequence SNAPSHOT_PATH = Inr None"
  "parse_binlog_segment_end_sequence SNAPSHOT_BACKUP_PATH = Inr None"
  by (simp_all add: parse_binlog_segment_end_sequence_def str_of_bytes_def paths starts_with_def BINLOG_SEGMENT_PREFIX_def)

lemma paths_differ: "BINLOG_PATH \<noteq> BINLOG_TEMP_PATH" "BINLOG_PATH \<noteq> BINLOG_BACKUP_PATH"
  by (simp_all add: paths)

text \<open>What recovery leaves in the directory: the covered segments are gone and the torn tail is cut off.\<close>

definition same_beside_binlog :: "directory \<Rightarrow> directory \<Rightarrow> bool" where
  "same_beside_binlog d d' \<longleftrightarrow> (\<forall>name. parse_binlog_segment_end_sequence name = Inr None \<and>
     name \<notin> {BINLOG_PATH, BINLOG_TEMP_PATH, BINLOG_BACKUP_PATH} \<longrightarrow> map_of d' name = map_of d name)"

lemma cleanup_history:
  assumes h: "history_at E d segs active p" and d1: "d1 = (if p \<noteq> [] then dir_write BINLOG_PATH (resized (length (logged E active)) (logged E active @ p)) d else d)"
    and cleanup: "cleanup_snapshot_covered_segments (map (segment_file E) segs @ [active_entry E active p]) w d1 = (n, d2)"
  shows "n = length (filter (\<lambda>seg. w < segment_end seg) segs)"
    and "history_at E (dir_remove BINLOG_BACKUP_PATH (dir_remove BINLOG_TEMP_PATH d2)) (filter (\<lambda>seg. w < segment_end seg) segs) active []"
    and "same_beside_binlog d (dir_remove BINLOG_BACKUP_PATH (dir_remove BINLOG_TEMP_PATH d2))"
proof -
  let ?gone = "filter (\<lambda>seg. \<not> w < segment_end seg) segs"
  let ?files = "map (segment_file E) segs @ [active_entry E active p]"
  from h have segs: "\<And>seg. seg \<in> set segs \<Longrightarrow> seg \<noteq> [] \<and> map_of d (binlog_segment (segment_end seg)) = Some (logged E seg)"
    and ok: "loggable E (concat segs @ active)" "length segs \<le> MAX_BINLOG_SEGMENTS" "map_of d BINLOG_PATH = Some (logged E active @ p)" "distinct (map fst d)"
    and names: "\<And>name. name \<in> set (map fst d) \<Longrightarrow> parse_binlog_segment_end_sequence name = Inr None \<or> name \<in> (binlog_segment \<circ> segment_end) ` set segs"
    by (auto simp: history_at_def list_all_iff)
  have gone: "filter (covered w) ?files = map (segment_file E) ?gone"
    using segs by (induction segs) (auto simp: covered_def segment_file_def active_entry_def segment_end_def)
  have sealed: "filter (\<lambda>f. declared_end_sequence f \<noteq> None) ?files = map (segment_file E) segs"
    by (induction segs) (simp_all add: segment_file_def active_entry_def)
  have d2: "n = length segs - length ?gone" "d2 = fold (dir_remove \<circ> file_name) (map (segment_file E) ?gone) d1"
    using cleanup unfolding cleanup_snapshot_covered_segments_def gone sealed Let_def by simp_all
  have "length (filter (\<lambda>seg. w < segment_end seg) segs) + length ?gone = length segs" by (rule sum_length_filter_compl)
  then show n: "n = length (filter (\<lambda>seg. w < segment_end seg) segs)" using d2(1) by simp
  have "history_at E (dir_remove BINLOG_BACKUP_PATH (dir_remove BINLOG_TEMP_PATH d2)) (filter (\<lambda>seg. w < segment_end seg) segs) active [] \<and>
      same_beside_binlog d (dir_remove BINLOG_BACKUP_PATH (dir_remove BINLOG_TEMP_PATH d2))"
  proof
    let ?d' = "dir_remove BINLOG_BACKUP_PATH (dir_remove BINLOG_TEMP_PATH d2)"
    let ?kept = "filter (\<lambda>seg. w < segment_end seg) segs"
    let ?name = "binlog_segment \<circ> segment_end"
    have parse: "parse_binlog_segment_end_sequence (?name seg) = Inr (Some (segment_end seg))" if "seg \<in> set segs" for seg
      using that segs ok(1) segment_parse [of E seg] by (simp add: loggable_concat)
    have gone_names: "file_name ` set (map (segment_file E) ?gone) = ?name ` set ?gone" by (simp add: segment_file_def image_image)
    have log: "map_of d1 n = (if n = BINLOG_PATH then Some (logged E active) else map_of d n)" for n
      using ok(3) by (simp add: d1 map_of_write resized_def)
    have "BINLOG_PATH \<in> fst ` set d" using ok(3) by (auto dest: map_of_SomeD intro: rev_image_eqI)
    then have "map fst d1 = map fst d" by (simp add: d1 names_write)
    then have names1: "set (map fst d1) = set (map fst d)" "distinct (map fst d1)" using ok(4) by (simp_all only:)
    have at: "map_of ?d' n = (if n = BINLOG_BACKUP_PATH \<or> n = BINLOG_TEMP_PATH \<or> n \<in> ?name ` set ?gone then None else map_of d1 n)" for n
      unfolding map_of_remove d2(2) fold_remove(1) gone_names
      by (cases "n = BINLOG_BACKUP_PATH"; cases "n = BINLOG_TEMP_PATH"; cases "n \<in> ?name ` set ?gone") (simp_all only: if_True if_False simp_thms)
    have names': "set (map fst ?d') = set (map fst d) - ?name ` set ?gone - {BINLOG_TEMP_PATH} - {BINLOG_BACKUP_PATH}"
      by (simp only: names_remove d2(2) fold_remove(3) gone_names names1)
    have f1: "distinct (map fst ?d')" unfolding d2(2) by (intro distinct_remove fold_remove(2) names1)
    have f2: "map_of ?d' BINLOG_PATH = Some (logged E active @ [])"
    proof -
      have "BINLOG_PATH \<notin> ?name ` set ?gone" using parse paths_parse(1) by force
      then show ?thesis using paths_differ by (simp only: at log) simp
    qed
    have f3: "map_of ?d' (?name seg) = Some (logged E seg)" if "seg \<in> set ?kept" for seg
    proof -
      from that have seg: "seg \<in> set segs" "w < segment_end seg" by simp_all
      have "?name seg \<notin> ?name ` set ?gone"
      proof
        assume "?name seg \<in> ?name ` set ?gone"
        then obtain seg' where "seg' \<in> set segs" "\<not> w < segment_end seg'" "?name seg = ?name seg'" by auto
        then show False using parse [OF seg(1)] parse [of seg'] seg(2) by simp
      qed
      moreover have "?name seg \<noteq> BINLOG_PATH" "?name seg \<noteq> BINLOG_TEMP_PATH" "?name seg \<noteq> BINLOG_BACKUP_PATH"
        using parse [OF seg(1)] paths_parse by auto
      ultimately show ?thesis using segs [OF seg(1)] by (simp only: at log if_False simp_thms) simp
    qed
    have f4: "parse_binlog_segment_end_sequence name = Inr None \<or> name \<in> ?name ` set ?kept" if "name \<in> set (map fst ?d')" for name
      using names [of name] that unfolding names' by auto
    have f5: "length ?kept \<le> MAX_BINLOG_SEGMENTS" using ok(2) length_filter_le le_trans by blast
    have f6: "loggable E (concat ?kept @ active)" using ok(1) by (auto simp: loggable_concat)
    show "same_beside_binlog d ?d'" unfolding same_beside_binlog_def
    proof (intro allI impI)
      fix name assume name: "parse_binlog_segment_end_sequence name = Inr None \<and> name \<notin> {BINLOG_PATH, BINLOG_TEMP_PATH, BINLOG_BACKUP_PATH}"
      then have "name \<notin> ?name ` set ?gone" using parse by force
      with name show "map_of ?d' name = map_of d name" by (simp only: at log) simp
    qed
    show "history_at E ?d' ?kept active []" unfolding history_at_def list_all_iff
    proof (intro conjI ballI)
      fix seg assume "seg \<in> set ?kept"
      then show "seg \<noteq> []" "map_of ?d' (binlog_segment (segment_end seg)) = Some (logged E seg)" using segs f3 [of seg] by simp_all
    next
      fix x assume "x \<in> set ?d'"
      then have "fst x \<in> set (map fst ?d')" by simp
      from f4 [OF this] show "case x of (name, _) \<Rightarrow> parse_binlog_segment_end_sequence name = Inr None \<or> name \<in> ?name ` set ?kept"
        by (simp only: case_prod_beta)
    qed (fact f1 f2 f5 f6 torn_none)+
  qed
  then show "history_at E (dir_remove BINLOG_BACKUP_PATH (dir_remove BINLOG_TEMP_PATH d2)) (filter (\<lambda>seg. w < segment_end seg) segs) active []"
    "same_beside_binlog d (dir_remove BINLOG_BACKUP_PATH (dir_remove BINLOG_TEMP_PATH d2))" by blast+
qed


text \<open>Recovery as a whole, on a directory with this snapshot and this history.\<close>

definition recovers :: "compression \<Rightarrow> env \<Rightarrow> directory \<Rightarrow> snapshot_image \<Rightarrow> history list \<Rightarrow> history \<Rightarrow> store \<Rightarrow> bool" where
  "recovers Z E d s segs active st \<longleftrightarrow> (\<exists>e d'. let w = image_watermark s; kept = filter (\<lambda>seg. w < segment_end seg) segs in
     load_data_from_paths Z E d st = Some (Inr \<lparr>last_sequence = max w (the (last_of (Some 0) (concat segs @ active))),
         recovered_watermark = w, replayed_records = length (replayed_batches w (concat segs @ active)),
         recovered_binlog_bytes = length (logged E active), recovered_unsnapshotted = length kept, recovered_segments = length kept\<rparr>,
       st\<lparr>store_engine := e\<rparr>, d') \<and>
     pview E (st\<lparr>store_engine := e\<rparr>) = recovered_content E s (concat segs @ active) \<and> store_wf (st\<lparr>store_engine := e\<rparr>) \<and>
     history_at E d' kept active [] \<and> same_beside_binlog d d')"

lemma finish_recovery_spec:
  assumes h: "history_at E d segs active p" and c: "contiguous (Some q) (concat segs @ active)"
    and st: "store_wf st" "\<not> snapshot_active (store_engine st)" and staged: "store_wf (staging s)"
  shows "\<exists>e d'. let kept = filter (\<lambda>seg. w < segment_end seg) segs in
     finish_recovery E (map (segment_file E) segs @ [active_entry E active p]) w s st d =
       Some (Inr \<lparr>last_sequence = max w (the (last_of (Some 0) (concat segs @ active))),
         recovered_watermark = w, replayed_records = replayed s,
         recovered_binlog_bytes = length (logged E active), recovered_unsnapshotted = length kept, recovered_segments = length kept\<rparr>,
       st\<lparr>store_engine := e\<rparr>, d') \<and>
     pview E (st\<lparr>store_engine := e\<rparr>) = pview E (staging s) \<and> store_wf (st\<lparr>store_engine := e\<rparr>) \<and> history_at E d' kept active [] \<and> same_beside_binlog d d'"
proof -
  let ?files = "map (segment_file E) segs @ [active_entry E active p]"
  obtain entries rest where sa: "snapshot_all E (store_engine (staging s)) = (entries, rest)" by (cases "snapshot_all E (store_engine (staging s))")
  note all = snapshot_all_spec [OF staged [unfolded store_wf_def], of E, unfolded sa fst_conv]
  have "length (shards (store_engine st)) = NUM_SHARDS" using st(1) by (simp add: store_wf_def engine_wf_def)
  from replace_all_spec [OF st(2) this all(1)] obtain e where e: "replace_all E entries (store_engine st) = Some e" "engine_wf e"
    "contents e = live (now E) (contents (store_engine (staging s)))" using all(2) by metis
  have view: "pview E (st\<lparr>store_engine := e\<rparr>) = pview E (staging s)"
    by (simp add: pview_def view_def e(3) fun_eq_iff live_def split: option.splits)
  from h have log: "map_of d BINLOG_PATH = Some (logged E active @ p)" "[] \<notin> set segs" by (auto simp: history_at_def list_all_iff)
  define d1 where "d1 = (if p \<noteq> [] then dir_write BINLOG_PATH (resized (length (logged E active)) (logged E active @ p)) d else d)"
  obtain n d2 where d2: "cleanup_snapshot_covered_segments ?files w d1 = (n, d2)" by (cases "cleanup_snapshot_covered_segments ?files w d1")
  note clean = cleanup_history [OF h d1_def d2]
  have beyond: "length (filter (\<lambda>f. \<exists>n. declared_end_sequence f = Some n \<and> w < n) ?files) = length (filter (\<lambda>seg. w < segment_end seg) segs)"
    by (induction segs) (simp_all add: segment_file_def active_entry_def)
  have "sorted_wrt (\<lambda>x y. fst x < fst y) (concat segs @ active)" using contiguous_sorted [OF c] by simp
  note max = last_sequence_history [OF log(2) this, of E p]
  have last: "last ?files = active_entry E active p" "inspection (active_entry E active p) = inspection_of E active p" by (simp_all add: active_entry_def)
  have "finish_recovery E ?files w s st d = Some (Inr \<lparr>last_sequence = max w (the (last_of (Some 0) (concat segs @ active))),
         recovered_watermark = w, replayed_records = replayed s,
         recovered_binlog_bytes = length (logged E active), recovered_unsnapshotted = length (filter (\<lambda>seg. w < segment_end seg) segs), recovered_segments = n\<rparr>,
       st\<lparr>store_engine := e\<rparr>, dir_remove BINLOG_BACKUP_PATH (dir_remove BINLOG_TEMP_PATH d2))"
    unfolding finish_recovery_def Let_def last sa prod.case log(1) option.sel inspection_of_simps d1_def [symmetric] d2 beyond max
    by (simp add: e(1))
  with view clean e(2) show ?thesis
    by (intro exI [of _ e] exI [of _ "dir_remove BINLOG_BACKUP_PATH (dir_remove BINLOG_TEMP_PATH d2)"]) (simp add: Let_def store_wf_def)
qed

lemma history_refused:
  assumes "snapshot_at Z E d s" and "history_at E d segs active p" and "sorted_wrt (\<lambda>x y. fst x < fst y) (concat segs)"
    and "\<forall>seg \<in> set segs. contiguous None seg" and "contiguous None active"
    and "check_history None (map (segment_file E) segs @ [active_entry E active p]) = Inl e"
  shows "load_data_from_paths Z E d st = Some (Inl e, st, d)"
proof -
  let ?snap = "case map_of d SNAPSHOT_PATH of Some c \<Rightarrow> Some c | None \<Rightarrow> map_of d SNAPSHOT_BACKUP_PATH"
  from assms(2) have binlog: "BINLOG_PATH \<in> fst ` set d" by (auto simp: history_at_def dest: map_of_SomeD intro: rev_image_eqI)
  from load_snapshot_spec [OF assms(1), unfolded current_snapshot_def] obtain format where
    f: "inspect_snapshot Z ?snap = Inr format" "format \<noteq> SnapshotLegacy" by blast
  have "inspect_binlog_history E d = (Inl e, d)" using inspect_files [OF assms(2-5)] by (simp only: assms(6) Let_def and_then_simps)
  then show ?thesis
    unfolding load_data_from_paths_def recover_interrupted_binlog_rotation_def if_P [OF binlog] sum.case Let_def f using f(2) by simp
qed

lemma recovery_spec:
  assumes snap: "snapshot_at Z E d s" and h: "history_at E d segs active p"
    and num: "contiguous (Some q) (concat segs @ active)" "q \<le> image_watermark s"
    and st: "store_wf st" "\<not> snapshot_active (store_engine st)"
  shows "recovers Z E d s segs active st"
proof -
  let ?w = "image_watermark s" and ?files = "map (segment_file E) segs @ [active_entry E active p]" and ?log = "concat segs @ active"
  let ?snap = "case map_of d SNAPSHOT_PATH of Some c \<Rightarrow> Some c | None \<Rightarrow> map_of d SNAPSHOT_BACKUP_PATH"
  from h have binlog: "BINLOG_PATH \<in> fst ` set d" and ne: "[] \<notin> set segs" by (auto simp: history_at_def list_all_iff dest: map_of_SomeD intro: rev_image_eqI)
  from load_snapshot_spec [OF snap, unfolded current_snapshot_def] obtain format n loaded where f: "inspect_snapshot Z ?snap = Inr format" "format \<noteq> SnapshotLegacy"
    "watermark_of format = ?w" "load_snapshot_entries Z E ?snap format store_new = Inr (n, loaded)"
    "store_wf loaded" "pview E loaded = entries_view E (image_entries s)" by blast
  note insp = inspect_history [OF h num(1)]
  let ?s0 = "\<lparr>staging = loaded, expected_sequence = u64_checked_add ?w 1, replayed = 0\<rparr>"
  have "max q ?w = ?w" using num(2) by (simp add: max_absorb2)
  with replay_history [OF h num(1), of ?s0 ?w] obtain x where rep: "replay_files E ?w d ?files ?s0 = Inr \<lparr>
      staging = fold (apply_committed_batch E) (replayed_batches ?w ?log) loaded, expected_sequence = x,
      replayed = length (replayed_batches ?w ?log)\<rparr>" by auto
  have early: "\<not> (first_sequence ?files \<noteq> None \<and> u64_saturating_add ?w 1 < the (first_sequence ?files))"
  proof (cases ?log)
    case (Cons y ys)
    with num(1) have "u64_checked_add q 1 = Some (fst y)" by (auto simp: follows_Inr)
    from u64_successor [OF this] num(2) unat_u64_less [of "fst y"] have "fst y \<le> u64_saturating_add ?w 1"
      unfolding word_le_nat_alt by (simp add: unat_u64_saturating_add)
    then show ?thesis unfolding first_sequence_history [OF ne] Cons by simp
  qed (simp only: first_sequence_history [OF ne] if_True simp_thms)
  let ?s1 = "\<lparr>staging = fold (apply_committed_batch E) (replayed_batches ?w ?log) loaded, expected_sequence = x,
      replayed = length (replayed_batches ?w ?log)\<rparr>"
  note applied = apply_batches_view [OF f(5), of E "replayed_batches ?w ?log"]
  have run: "load_data_from_paths Z E d st = finish_recovery E ?files ?w ?s1 st d"
    unfolding load_data_from_paths_def recover_interrupted_binlog_rotation_def if_P [OF binlog] sum.case Let_def f insp prod.case if_not_P [OF early] rep
    using f(2) by simp
  from finish_recovery_spec [OF h num(1) st, of ?s1 ?w] applied f(6) show ?thesis
    unfolding recovers_def run Let_def recovered_content_def by simp
qed

end
