(* ===== verification/Durability.thy ===== *)
theory Durability
  imports Recovery_Laws
begin

text \<open>
  The commit path and recovery together: what the coordinator acknowledged is what recovery
  rebuilds. The invariant \<open>durable\<close> relates the live store and the commit runtime to the files in
  the directory; an acknowledged group keeps it, and from any state where it holds a restart
  rebuilds the live store.
\<close>

section \<open>The clock does not matter for the formats\<close>

lemma encode_value_now [simp]: "encode_value (E\<lparr>now := t\<rparr>) v = encode_value E v"
  by (cases v) simp_all

lemma encode_snapshot_entry_now [simp]: "encode_snapshot_entry (E\<lparr>now := t\<rparr>) key entry = encode_snapshot_entry E key entry"
  by (simp add: encode_snapshot_entry_def)

lemma encode_effect_now [simp]: "encode_effect (E\<lparr>now := t\<rparr>) = encode_effect E"
proof
  fix eff show "encode_effect (E\<lparr>now := t\<rparr>) eff = encode_effect E eff" by (cases eff) simp_all
qed

lemma encode_committed_batch_now [simp]: "encode_committed_batch (E\<lparr>now := t\<rparr>) = encode_committed_batch E"
  by (simp add: fun_eq_iff encode_committed_batch_def)

lemma encodable_now [simp]: "encodable (E\<lparr>now := t\<rparr>) v = encodable E v"
  by (cases v) simp_all

lemma effect_encodable_now [simp]: "effect_encodable (E\<lparr>now := t\<rparr>) = effect_encodable E"
proof
  fix eff show "effect_encodable (E\<lparr>now := t\<rparr>) eff = effect_encodable E eff" by (cases eff) simp_all
qed

lemma logged_now [simp]: "logged (E\<lparr>now := t\<rparr>) = logged E"
  by (simp add: fun_eq_iff logged_def log_bytes_def encoded_def binlog_record_def)

lemma torn_now [simp]: "torn (E\<lparr>now := t\<rparr>) = torn E"
  by (simp add: fun_eq_iff torn_def binlog_record_def)

lemma loggable_now [simp]: "loggable (E\<lparr>now := t\<rparr>) = loggable E"
  by (simp add: fun_eq_iff loggable_def)

lemma history_at_now [simp]: "history_at (E\<lparr>now := t\<rparr>) = history_at E"
  by (simp add: fun_eq_iff history_at_def)

lemma encode_entries_now [simp]: "encode_entries (E\<lparr>now := t\<rparr>) entries = encode_entries E entries"
  by (induction entries) auto

lemma entry_encodable_now [simp]: "entry_encodable (E\<lparr>now := t\<rparr>) = entry_encodable E"
  by (simp add: fun_eq_iff entry_encodable_def)

lemma snapshot_at_now [simp]: "snapshot_at Z (E\<lparr>now := t\<rparr>) d s = snapshot_at Z E d s"
  by (cases s) (simp_all add: snapshot_at_def split_beta)

section \<open>Durable states\<close>

lemma write_again: "dir_write name c (dir_write name c' d) = dir_write name c d"
proof (cases "name \<in> fst ` set d")
  case True
  have "set (map fst (dir_write name c' d)) = set (map fst d)" using True by (simp only: names_write if_True append_Nil2)
  then have "name \<in> fst ` set (dir_write name c' d)" using True by simp
  with True show ?thesis by (auto simp: dir_write_def)
next
  case False
  then have "map (\<lambda>(n, x). if n = name then (n, c) else (n, x)) d = d" by (intro map_idI) force
  with False show ?thesis by (simp add: dir_write_def)
qed

lemma last_of_append: "last_of previous (xs @ ys) = last_of (last_of previous xs) ys"
  by (simp add: last_of_def)

definition durable :: "compression \<Rightarrow> env \<Rightarrow> directory \<Rightarrow> snapshot_image \<Rightarrow> history list \<Rightarrow> history \<Rightarrow> store \<Rightarrow> persistence \<Rightarrow> bool" where
  "durable Z E d s segs active st p \<longleftrightarrow> snapshot_at Z E d s \<and> history_at E d segs active [] \<and> store_wf st \<and>
     active_bytes (binlog p) = logged E active \<and>
     (\<exists>q. contiguous (Some q) (concat segs @ active) \<and> q \<le> image_watermark s \<and> image_watermark s \<le> repl_offset p \<and>
        last_of (Some q) (concat segs @ active) = Some (repl_offset p)) \<and>
     (\<forall>t k. now E \<le> t \<longrightarrow> same_entry (recovered_content (E\<lparr>now := t\<rparr>) s (concat segs @ active) k) (pview (E\<lparr>now := t\<rparr>) st k))"

text \<open>
  After a crash the directory holds the active binlog of the runtime, possibly followed by part of
  a record that was being appended.
\<close>

definition crash :: "directory \<Rightarrow> persistence \<Rightarrow> bytes \<Rightarrow> directory" where
  "crash d p tail = dir_write BINLOG_PATH (active_bytes (binlog p) @ tail) d"

lemma history_crash:
  assumes "history_at E d segs active []" and "loggable E active'" and "torn E tail"
  shows "history_at E (dir_write BINLOG_PATH (logged E active' @ tail) d) segs active' tail"
proof -
  let ?d = "dir_write BINLOG_PATH (logged E active' @ tail) d"
  from assms(1) have h: "BINLOG_PATH \<in> fst ` set d" "loggable E (concat segs @ active)" "length segs \<le> MAX_BINLOG_SEGMENTS" "distinct (map fst d)"
    and segs: "\<And>seg. seg \<in> set segs \<Longrightarrow> seg \<noteq> [] \<and> map_of d (binlog_segment (segment_end seg)) = Some (logged E seg)"
    and names: "\<And>x. x \<in> set d \<Longrightarrow> parse_binlog_segment_end_sequence (fst x) = Inr None \<or> fst x \<in> (binlog_segment \<circ> segment_end) ` set segs"
    unfolding history_at_def list_all_iff by (auto dest: map_of_SomeD intro: rev_image_eqI)
  from h(1) have fsts: "map fst ?d = map fst d" by (simp add: names_write)
  have apart: "binlog_segment (segment_end seg) \<noteq> BINLOG_PATH" if "seg \<in> set segs" for seg
  proof -
    have "loggable E seg" using h(2) that by (simp add: loggable_concat)
    from segment_parse [OF this] segs [OF that] paths_parse(1) show ?thesis by auto
  qed
  show ?thesis unfolding history_at_def list_all_iff
  proof (intro conjI ballI)
    show "distinct (map fst ?d)" unfolding fsts by (fact h(4))
    show "map_of ?d BINLOG_PATH = Some (logged E active' @ tail)" by (simp add: map_of_write)
    show "loggable E (concat segs @ active')" using h(2) assms(2) by simp
  next
    fix seg assume "seg \<in> set segs"
    with segs [of seg] apart [of seg] show "seg \<noteq> []" "map_of ?d (binlog_segment (segment_end seg)) = Some (logged E seg)"
      by (simp_all add: map_of_write)
  next
    fix x assume "x \<in> set ?d"
    then have "fst x \<in> set (map fst ?d)" by simp
    then obtain y where "y \<in> set d" "fst y = fst x" unfolding fsts by auto
    with names [of y] show "case x of (name, _) \<Rightarrow> parse_binlog_segment_end_sequence name = Inr None \<or> name \<in> (binlog_segment \<circ> segment_end) ` set segs"
      by (simp add: case_prod_beta)
  qed (fact h assms)+
qed

lemma snapshot_crash: "snapshot_at Z E d s \<Longrightarrow> snapshot_at Z E (dir_write BINLOG_PATH c d) s"
proof -
  have "SNAPSHOT_PATH \<noteq> BINLOG_PATH" "SNAPSHOT_BACKUP_PATH \<noteq> BINLOG_PATH" by (simp_all add: paths)
  then show "snapshot_at Z E d s \<Longrightarrow> snapshot_at Z E (dir_write BINLOG_PATH c d) s"
    by (cases s) (simp_all add: snapshot_at_def current_snapshot_def map_of_write split_beta cong: option.case_cong)
qed

lemma recovered_offset:
  assumes "q \<le> w" and "w \<le> offset" and "last_of (Some q) log = Some offset"
  shows "max w (the (last_of (Some 0) log)) = offset"
  using assms by (cases "log = []") (simp_all add: last_of_def max_absorb1 max_absorb2)

lemma durable_recovers_agreeing:
  assumes "durable Z E d s segs active st p" and "now E \<le> t" and "torn E tail"
    and "store_wf st0" and "\<not> snapshot_active (store_engine st0)"
  shows "\<exists>r st1 d'. load_data_from_paths Z (E\<lparr>now := t\<rparr>) (crash d p tail) st0 = Some (Inr r, st1, d') \<and>
    last_sequence r = repl_offset p \<and> agrees (E\<lparr>now := t\<rparr>) st1 st \<and> store_wf st1"
proof -
  let ?E = "E\<lparr>now := t\<rparr>" and ?log = "concat segs @ active"
  from assms(1) obtain q where h: "snapshot_at Z E d s" "history_at E d segs active []" "active_bytes (binlog p) = logged E active"
    and q: "contiguous (Some q) ?log" "q \<le> image_watermark s" "image_watermark s \<le> repl_offset p" "last_of (Some q) ?log = Some (repl_offset p)"
    and eq: "\<And>k. same_entry (recovered_content ?E s ?log k) (pview ?E st k)"
    using assms(2) unfolding durable_def by blast
  have log: "loggable E active" using h(2) unfolding history_at_def by simp
  have "snapshot_at Z ?E (crash d p tail) s" "history_at ?E (crash d p tail) segs active tail"
    using snapshot_crash [OF h(1)] history_crash [OF h(2) log assms(3)] by (simp_all add: crash_def h(3))
  from recovery_spec [OF this q(1,2) assms(4,5)] obtain e d' r where
    r: "load_data_from_paths Z ?E (crash d p tail) st0 = Some (Inr r, st0\<lparr>store_engine := e\<rparr>, d')"
      "last_sequence r = max (image_watermark s) (the (last_of (Some 0) ?log))"
      "pview ?E (st0\<lparr>store_engine := e\<rparr>) = recovered_content ?E s ?log" "store_wf (st0\<lparr>store_engine := e\<rparr>)"
    unfolding recovers_def Let_def by fastforce
  have "last_sequence r = repl_offset p" using r(2) recovered_offset [OF q(2-4)] by simp
  with r eq show ?thesis by (intro exI [of _ r] exI [of _ "st0\<lparr>store_engine := e\<rparr>"] exI [of _ d']) (simp add: agrees_def)
qed

lemma contiguous_numbered: "numbered offset xs = Some ys \<Longrightarrow> contiguous (Some offset) ys \<and> last_of (Some offset) ys = Some (if ys = [] then offset else fst (last ys))"
  by (simp add: numbered_contiguous last_of_def)

lemma replayed_append:
  assumes "contiguous (Some r) ys" and "w \<le> r"
  shows "replayed_batches w (xs @ ys) = replayed_batches w xs @ map snd ys"
proof -
  have "\<forall>y \<in> set ys. w < fst y" using contiguous_sorted [OF assms(1)] assms(2) by (auto intro: le_less_trans)
  then show ?thesis by (simp add: replayed_batches_def)
qed

lemma committed_durable:
  assumes "durable Z E d s segs active st p" and "group_committed E st p results st' p'" and "store_wf st'"
    and encodable: "\<forall>x \<in> set (drop (length (published p)) (published p')). list_all (effect_encodable E) (effects (snd x))"
  shows "\<exists>batches. published p' = published p @ batches \<and> durable Z E (crash d p' []) s segs (active @ batches) st' p'"
proof -
  let ?log = "concat segs @ active"
  from assms(1) obtain q where h: "snapshot_at Z E d s" "history_at E d segs active []" "active_bytes (binlog p) = logged E active"
    and q: "contiguous (Some q) ?log" "q \<le> image_watermark s" "image_watermark s \<le> repl_offset p" "last_of (Some q) ?log = Some (repl_offset p)"
    and eq: "\<And>t k. now E \<le> t \<Longrightarrow> same_entry (recovered_content (E\<lparr>now := t\<rparr>) s ?log k) (pview (E\<lparr>now := t\<rparr>) st k)"
    unfolding durable_def by blast
  from assms(2) obtain batches where b: "numbered (repl_offset p) (map snd batches) = Some batches" "published p' = published p @ batches"
      "repl_offset p' = (if batches = [] then repl_offset p else fst (last batches))"
      "active_bytes (binlog p') = active_bytes (binlog p) @ log_bytes E (encoded E batches)"
      "\<forall>(sequence, b) \<in> set batches. \<exists>x. encode_committed_batch E b = Inr x \<and> binlog_ok sequence x"
    and rep: "\<And>E' rep. now E \<le> now E' \<Longrightarrow> store_wf rep \<Longrightarrow> agrees E' rep st \<Longrightarrow> agrees E' (replay E' (map snd batches) rep) st'"
    unfolding group_committed_def by blast
  note num = contiguous_numbered [OF b(1)]
  have logb: "loggable E batches"
    using b(5) encodable b(2) unfolding loggable_def list_all_iff by fastforce
  have log: "loggable E active" using h(2) unfolding history_at_def by simp
  have bytes: "active_bytes (binlog p') = logged E (active @ batches)"
    using b(4) h(3) by (simp add: logged_def log_bytes_append encoded_def)
  have hist: "history_at E (crash d p' []) segs (active @ batches) []"
    using history_crash [OF h(2), of "active @ batches" "[]"] log logb by (simp add: crash_def bytes)
  have cont: "contiguous (Some q) (concat segs @ active @ batches)"
    using q num contiguous_append [of "Some q" ?log batches] by simp
  have last: "last_of (Some q) (concat segs @ active @ batches) = Some (repl_offset p')"
  proof -
    have "last_of (Some q) (?log @ batches) = last_of (Some (repl_offset p)) batches" using last_of_append [of "Some q" ?log batches] by (simp only: q(4))
    also have "\<dots> = Some (repl_offset p')" using b(3) by (simp add: last_of_def)
    finally show ?thesis by simp
  qed
  have le: "repl_offset p \<le> repl_offset p'"
    using b(3) contiguous_sorted [OF conjunct1 [OF num]] by (cases "batches = []") (auto intro: less_imp_le)
  have "same_entry (recovered_content (E\<lparr>now := t\<rparr>) s (concat segs @ active @ batches) k) (pview (E\<lparr>now := t\<rparr>) st' k)" if "now E \<le> t" for t k
  proof -
    let ?E = "E\<lparr>now := t\<rparr>"
    have "snapshot_at Z ?E d s" "history_at ?E d segs active []" using h by simp_all
    moreover have "\<not> snapshot_active (store_engine store_new)" by (simp add: store_new_def with_maxmemory_def engine_new_def)
    ultimately obtain e where e: "pview ?E (store_new\<lparr>store_engine := e\<rparr>) = recovered_content ?E s ?log" "store_wf (store_new\<lparr>store_engine := e\<rparr>)"
      using recovery_spec [OF _ _ q(1,2) store_new_wf, of Z ?E d "[]"] unfolding recovers_def Let_def by blast
    have "agrees ?E (store_new\<lparr>store_engine := e\<rparr>) st" using eq [OF that] e(1) by (simp add: agrees_def)
    with rep [of ?E] e(2) that have a: "agrees ?E (replay ?E (map snd batches) (store_new\<lparr>store_engine := e\<rparr>)) st'" by simp
    have "pview ?E (replay ?E (map snd batches) (store_new\<lparr>store_engine := e\<rparr>)) = recovered_content ?E s (?log @ batches)"
      using apply_batches_view [OF e(2), of ?E "map snd batches"] replayed_append [OF conjunct1 [OF num] q(3), of ?log]
      by (simp add: replay_def e(1) recovered_content_def)
    with a show ?thesis by (simp add: agrees_def)
  qed
  then have "durable Z E (crash d p' []) s segs (active @ batches) st' p'"
    unfolding durable_def using snapshot_crash [OF h(1)] hist bytes assms(3) cont q(2,3) le last
    by (auto simp: crash_def intro: order_trans)
  with b(2) show ?thesis by blast
qed

section \<open>A healthy disk\<close>

text \<open>The disk and the binlog worker do not fail from here on, and writes are accepted.\<close>

definition healthy :: "persistence \<Rightarrow> bool" where
  "healthy p \<longleftrightarrow> handle_open (binlog p) \<and> choices (binlog p) = [] \<and> channel p = [] \<and> accepting_writes p \<and> \<not> fail_stop_started p"

lemma faultless [simp]:
  "choices f = [] \<Longrightarrow> next_choice f = (Proceed, f)"
  "choices f = [] \<Longrightarrow> os_call eff f = (Inr (), eff f)"
  by (simp_all add: next_choice_def os_call_def)

lemma append_faultless:
  assumes "handle_open f" and "choices f = []"
  shows "\<exists>f'. append_binlog_tail tail policy f = (Inr (), f') \<and> handle_open f' \<and> choices f' = []"
proof -
  let ?f1 = "f\<lparr>position := length (active_bytes f)\<rparr>"
  have seek: "seek_end f = (Inr (length (active_bytes f)), ?f1)" using assms by (simp add: seek_end_def on_handle_def)
  have "\<exists>modified f2. write_all_tracking_modification tail False ?f1 = (Inr (), modified, f2) \<and> handle_open f2 \<and> choices f2 = []"
  proof (cases "tail = []")
    case False
    then show ?thesis using assms
      by (subst write_all_tracking_modification.simps)
         (auto simp: file_write_def write_some_def Let_def write_all_tracking_modification.simps [of "[]"])
  qed (use assms in \<open>auto simp: write_all_tracking_modification.simps\<close>)
  then obtain modified f2 where w: "write_all_tracking_modification tail False ?f1 = (Inr (), modified, f2)" "handle_open f2" "choices f2 = []" by blast
  then show ?thesis
    by (cases "policy = FsyncAlways")
       (simp_all add: append_binlog_tail_def seek and_next_def file_flush_def sync_data_def on_handle_def)
qed

definition writable :: "env \<Rightarrow> (u64 \<times> committed_batch) list \<Rightarrow> bool" where
  "writable E batches \<longleftrightarrow> list_all (\<lambda>(sequence, b). case encode_committed_batch E b of Inl _ \<Rightarrow> False | Inr x \<Rightarrow> binlog_ok sequence x) batches \<and>
     length (logged E batches) \<le> usize_max"

lemma writable_encodes:
  "list_all (\<lambda>(sequence, b). case encode_committed_batch E b of Inl _ \<Rightarrow> False | Inr x \<Rightarrow> binlog_ok sequence x) batches \<Longrightarrow>
    (\<forall>x \<in> set (encoded E batches). binlog_ok (fst x) (snd x)) \<and> encode_batches E batches = Inr (encoded E batches)"
proof (induction batches)
  case (Cons x batches)
  then show ?case by (cases x; cases "encode_committed_batch E (snd x)") (simp_all add: encoded_def)
qed (simp add: encoded_def)

lemma framed_length: "binlog_ok sequence r \<Longrightarrow> framed_versioned_binlog_record_length (length r) = Inr (length (frame (binlog_record E sequence r)))"
  by (auto simp: framed_versioned_binlog_record_length_def versioned_length_Inr binlog_ok_def frame_length binlog_length
      checked_add_def usize_max_def BINLOG_RECORD_LENGTH_SIZE_def MAX_BINLOG_RECORD_SIZE_def and_then_Inr ok_or_Inr)

lemma lengths_add:
  "\<forall>x \<in> set records. binlog_ok (fst x) (snd x) \<Longrightarrow> n + length (log_bytes E records) \<le> usize_max \<Longrightarrow>
    fold (\<lambda>(_, r) total. and_then total (\<lambda>t. and_then (framed_versioned_binlog_record_length (length r))
      (\<lambda>len. ok_or msg (checked_add t len)))) records (Inr n) = Inr (n + length (log_bytes E records))"
proof (induction records arbitrary: n)
  case (Cons x records)
  obtain s r where x: "x = (s, r)" by (cases x)
  let ?m = "length (frame (binlog_record E s r))"
  have "checked_add n ?m = Some (n + ?m)" using Cons.prems(2) x by (simp add: checked_add_def record_bytes_def)
  with Cons.IH [of "n + ?m"] Cons.prems x framed_length [of s r E] show ?case by (simp add: record_bytes_def add.assoc)
qed simp

lemma tails_add:
  "\<forall>x \<in> set records. binlog_ok (fst x) (snd x) \<Longrightarrow>
    fold (\<lambda>(sequence, r) tail. and_then tail (encode_framed_versioned_binlog_record_into E sequence r)) records (Inr out) = Inr (out @ log_bytes E records)"
proof (induction records arbitrary: out)
  case (Cons x records)
  obtain s r where x: "x = (s, r)" by (cases x)
  with Cons.prems have "encode_framed_versioned_binlog_record_into E s r out = Inr (out @ frame (binlog_record E s r))"
    by (simp add: encode_framed_Inr)
  with Cons x show ?case by (simp add: record_bytes_def)
qed simp

lemma append_batches_healthy:
  assumes "handle_open (binlog rt)" and "choices (binlog rt) = []" and "channel rt = []" and "writable E batches" and "batches \<noteq> []"
  shows "\<exists>n f. append_batches E batches rt = (Inr n, rt\<lparr>binlog := f\<rparr>) \<and> handle_open f \<and> choices f = []"
proof -
  have ok: "\<forall>x \<in> set (encoded E batches). binlog_ok (fst x) (snd x)" and enc: "encode_batches E batches = Inr (encoded E batches)"
    using writable_encodes [of E batches] assms(4) by (simp_all add: writable_def)
  have len: "length (log_bytes E (encoded E batches)) \<le> usize_max" using assms(4) by (simp add: writable_def logged_def)
  from append_faultless [OF assms(1,2)] obtain f where
    f: "append_binlog_tail (log_bytes E (encoded E batches)) (fsync rt) (binlog rt) = (Inr (), f)" "handle_open f" "choices f = []" by blast
  have "encoded E batches \<noteq> []" using assms(5) by (simp add: encoded_def)
  with f(1) ok len have "append_binlog_records E (encoded E batches) (fsync rt) (binlog rt) = (Inr (), f)"
    by (simp add: append_binlog_records_def lengths_add [where E = E and n = 0, simplified] tails_add)
  moreover have "group_length (encoded E batches) = Inr (length (log_bytes E (encoded E batches)))"
    using lengths_add [OF ok, of 0 E] len by (simp add: group_length_def)
  ultimately show ?thesis using f(2,3) enc assms(3,5)
    by (intro exI [of _ "length (log_bytes E (encoded E batches))"] exI [of _ f]) (simp add: append_batches_def append_records_def next_fate_def)
qed

lemma maintenance_keeps_channel: "channel (snd (record_persisted_writes n t rt)) = channel rt"
  by (simp add: record_persisted_writes_def request_maintenance_if_needed_def request_snapshot_if_needed_def
      request_rollover_if_needed_def case_prod_beta)

lemma accept_healthy:
  assumes "healthy p" and "writable E batches" and "batches \<noteq> []" and "numbered (repl_offset p) (map snd batches) = Some batches"
  shows "\<exists>m p'. accept_next_batches E batches COMPACTION_THRESHOLD p = (Inr m, p') \<and> healthy p'"
proof -
  from assms(1) have h: "handle_open (binlog p)" "choices (binlog p) = []" "channel p = []" "accepting_writes p" "\<not> fail_stop_started p"
    by (simp_all add: healthy_def)
  from append_batches_healthy [OF h(1-3) assms(2,3)] obtain n f where f: "append_batches E batches p = (Inr n, p\<lparr>binlog := f\<rparr>)" "handle_open f" "choices f = []" by blast
  from assms(4) have "check_sequences (u64_checked_add (repl_offset p) 1) batches = Inr ()" by (simp add: check_numbered)
  moreover from this assms(3) obtain e where e: "u64_checked_add (repl_offset p) 1 = Some e"
    by (cases batches; cases "u64_checked_add (repl_offset p) 1") auto
  ultimately have seq: "next_sequence p = Inr e" "check_sequences (Some e) batches = Inr ()" by (simp_all add: next_sequence_def)
  let ?rt = "(record_accepted_binlog_bytes n (p\<lparr>binlog := f\<rparr>))\<lparr>repl_offset := fst (last batches)\<rparr>"
  obtain m p1 where r: "record_persisted_writes (length batches) COMPACTION_THRESHOLD ?rt = (m, p1)" by (cases "record_persisted_writes (length batches) COMPACTION_THRESHOLD ?rt")
  have "accept_next_batches E batches COMPACTION_THRESHOLD p = (Inr m, p1)"
    using assms(3) seq f r by (simp add: accept_next_batches_def)
  moreover have "healthy p1"
    using maintenance_keeps [of "length batches" COMPACTION_THRESHOLD ?rt] maintenance_keeps_channel [of "length batches" COMPACTION_THRESHOLD ?rt] r h f
    by (simp add: healthy_def record_accepted_binlog_bytes_def Let_def)
  ultimately show ?thesis by blast
qed

lemma publish_healthy:
  assumes "healthy p" and "writable E batches" and "batches \<noteq> []" and "numbered (repl_offset p) (map snd batches) = Some batches"
  shows "\<exists>m p'. persist_and_publish_master_batches E batches p = (Inr m, p') \<and> healthy p'"
  using accept_healthy [OF assms] by (auto simp: persist_and_publish_master_batches_def healthy_def)

lemma healthy_group:
  assumes "healthy p" and "prepare_all S requests [] st = Some ((None, prepared), st')"
    and "numbered (repl_offset p) (concat (map pc_batches prepared)) = Some batches" and "writable E batches"
  shows "\<exists>p'. process_commit_group S E requests st p = Some (complete_prepared prepared, st', p') \<and> healthy p' \<and> published p' = published p @ batches"
proof (cases "batches = []")
  case True
  with assms show ?thesis by (simp add: process_commit_group_def healthy_def)
next
  case False
  have "numbered (repl_offset p) (map snd batches) = Some batches" using assms(3) numbered_snd [OF assms(3)] by simp
  from publish_healthy [OF assms(1,4) False this] obtain m p' where pub: "persist_and_publish_master_batches E batches p = (Inr m, p')" "healthy p'" by blast
  with assms False publish_spec(4) [OF pub(1) refl] show ?thesis by (simp add: process_commit_group_def healthy_def)
qed


section \<open>A concrete run\<close>

definition put_batch :: committed_batch where
  "put_batch = \<lparr>effects = [PutE ''k'' \<lparr>pe_value = Blob ''v'', pe_expires_at = None\<rparr>]\<rparr>"

definition delete_batch :: committed_batch where
  "delete_batch = \<lparr>effects = [DeleteE ''k'']\<rparr>"

definition sample_log :: history where
  "sample_log = [(1, put_batch)]"

definition sample_dir :: directory where
  "sample_dir = [(BINLOG_PATH, logged sample_env sample_log)]"

definition sample_runtime :: persistence where
  "sample_runtime = commit_runtime.extend
     (runtime_new \<lparr>handle_open = True, active_file = Some (logged sample_env sample_log), position = 0, segments = [], choices = []\<rparr> FsyncAlways 1)
     (persistence.fields [] [] True False)"

definition plain :: compression where
  "plain = \<lparr>gzip = (\<lambda>x. x), gunzip = Inr\<rparr>"

lemma sample_encodes:
  "\<exists>x. encode_committed_batch sample_env put_batch = Inr x \<and> length x < 100"
  "\<exists>x. encode_committed_batch sample_env delete_batch = Inr x \<and> length x < 100"
  by (simp_all add: put_batch_def delete_batch_def encode_simps tag_def)

lemma sample_history: "history_at sample_env sample_dir [] sample_log []"
proof -
  from sample_encodes(1) have "loggable sample_env sample_log"
    by (auto simp: loggable_def sample_log_def put_batch_def binlog_ok_def MAX_BINLOG_RECORD_SIZE_def)
  then show ?thesis by (simp add: history_at_def sample_dir_def paths_parse)
qed

lemma sample_snapshot: "snapshot_at Z E sample_dir None"
  by (simp add: snapshot_at_def current_snapshot_def sample_dir_def image_entries_def paths)

lemma sample_content: "recovered_content E None sample_log = (\<lambda>k. if k = ''k'' then Some \<lparr>pe_value = Blob ''v'', pe_expires_at = None\<rparr> else None)"
  by (simp add: recovered_content_def image_watermark_def image_entries_def sample_log_def put_batch_def replayed_batches_def
      entries_view_def palive_def fun_eq_iff)

definition live_store :: store where
  "live_store = snd (on_engine (engine_set sample_env ''k'' (Blob ''v'') None) store_new)"

lemma live_store:
  "store_wf live_store" "pview sample_env live_store = recovered_content E None sample_log" "view sample_env live_store ''k'' \<noteq> None"
proof -
  note s = set_view [OF store_new_wf, of sample_env "''k''" "Blob ''v''" None, folded live_store_def]
  show "store_wf live_store" by (rule s(2))
  show v: "pview sample_env live_store = recovered_content E None sample_log"
    unfolding s(1) sample_content pview_new by (simp add: palive_def fun_eq_iff)
  have "pview sample_env live_store ''k'' \<noteq> None" unfolding v sample_content by simp
  then show "view sample_env live_store ''k'' \<noteq> None" by (simp add: pview_def)
qed

lemma sample_durable: "durable plain sample_env sample_dir None [] sample_log live_store sample_runtime"
proof -
  have "last_of (Some 0) sample_log = Some 1" "contiguous (Some 0) sample_log"
    by (simp_all add: last_of_def sample_log_def follows_Inr u64_checked_add_def)
  moreover have "same_entry (recovered_content (sample_env\<lparr>now := t\<rparr>) None sample_log k) (pview (sample_env\<lparr>now := t\<rparr>) live_store k)" if "now sample_env \<le> t" for t k
    using pview_later [of sample_env "sample_env\<lparr>now := t\<rparr>" live_store k] that
    by (simp add: live_store(2) [of sample_env] sample_content palive_def same_entry_def)
  ultimately show ?thesis
    using sample_history sample_snapshot live_store(1)
    by (auto simp: durable_def sample_runtime_def runtime_new_def commit_runtime.defs persistence.defs image_watermark_def intro!: exI [of _ 0])
qed

lemma sample_healthy: "healthy sample_runtime" "repl_offset sample_runtime = 1" "published sample_runtime = []"
  by (simp_all add: healthy_def sample_runtime_def runtime_new_def commit_runtime.defs persistence.defs)

text \<open>Deleting a key that is there prepares one batch with that deletion.\<close>

lemma delete_prepared:
  assumes "store_wf st" and "view E st key \<noteq> None"
  shows "\<exists>q st'. prepare_all S [(E, ObpDelete key)] [] st = Some ((None, [q]), st') \<and> pc_batches q = [\<lparr>effects = [DeleteE key]\<rparr>]"
proof -
  obtain att st1 where begun: "begin_mutation E [key] st = (att, st1)" by (cases "begin_mutation E [key] st")
  note b = begin_content [OF assms(1) begun]
  have "fst (store_delete E key st1)"
    using b(4) assms(2) by (simp add: store_delete_def engine_delete_fst view_def fun_eq_iff)
  then show ?thesis
    by (cases "store_delete E key st1") (simp add: prepare_request_def prepare_obp_delete_def begun with_mutations_def)
qed

lemma sample_writable: "writable sample_env [(2, delete_batch)]"
proof -
  from sample_encodes(2) obtain x where x: "encode_committed_batch sample_env delete_batch = Inr x" "length x < 100" by blast
  then show ?thesis
    by (simp add: writable_def binlog_ok_def MAX_BINLOG_RECORD_SIZE_def logged_def encoded_def record_bytes_def frame_length binlog_length usize_max_def)
qed

lemma sample_numbered: "numbered 1 [delete_batch] = Some [(2, delete_batch)]"
  by (simp add: u64_checked_add_def)

section \<open>Properties\<close>

text \<open>
  C7. Recovery rebuilds the logged state. Take a directory with a readable snapshot or none, any
  number of sealed segments in any directory order, and an active binlog that may end in part of a
  record; let the logged batches be numbered without a gap from a sequence the snapshot covers.
  Then recovery succeeds, whatever the store held before: it reports the last logged sequence (or
  the watermark), its content is the snapshot's live entries with exactly the batches after the
  watermark applied in order, and the directory it leaves holds the same history without the
  segments the snapshot covers and without the torn tail.
\<close>

theorem recovery_rebuilds:
  assumes "snapshot_at Z E d s" and "history_at E d segs active p"
    and "numbered q batches = Some (concat segs @ active)" and "q \<le> image_watermark s"
    and "store_wf st" and "\<not> snapshot_active (store_engine st)"
  shows "\<exists>r e d'. load_data_from_paths Z E d st = Some (Inr r, st\<lparr>store_engine := e\<rparr>, d') \<and>
    last_sequence r = max (image_watermark s) (the (last_of (Some 0) (concat segs @ active))) \<and>
    replayed_records r = length (replayed_batches (image_watermark s) (concat segs @ active)) \<and>
    pview E (st\<lparr>store_engine := e\<rparr>) = recovered_content E s (concat segs @ active) \<and>
    history_at E d' (filter (\<lambda>seg. image_watermark s < segment_end seg) segs) active []"
  using recovery_spec [OF assms(1,2) numbered_contiguous [OF assms(3)] assms(4-6)]
  unfolding recovers_def Let_def by fastforce

definition torn_tail :: bytes where
  "torn_tail = take 9 (frame (binlog_record sample_env 2 ''record''))"

lemma torn_tail: "torn sample_env torn_tail"
proof -
  let ?f = "frame (binlog_record sample_env 2 ''record'')"
  have "binlog_ok 2 ''record''" by (simp add: binlog_ok_def MAX_BINLOG_RECORD_SIZE_def)
  moreover have "prefix torn_tail ?f" unfolding torn_tail_def by (rule take_is_prefix)
  moreover have "torn_tail \<noteq> ?f" using arg_cong [of torn_tail ?f length] by (simp add: torn_tail_def frame_length binlog_length)
  ultimately show ?thesis unfolding torn_def strict_prefix_def by blast
qed

lemma store_new_idle: "\<not> snapshot_active (store_engine store_new)"
  by (simp add: store_new_def with_maxmemory_def engine_new_def)

theorem recovery_rebuilds_witness:
  "\<exists>r e d'. load_data_from_paths plain sample_env (dir_write BINLOG_PATH (logged sample_env sample_log @ torn_tail) sample_dir) store_new =
      Some (Inr r, store_new\<lparr>store_engine := e\<rparr>, d') \<and> last_sequence r = 1 \<and> replayed_records r = 1 \<and>
    pview sample_env (store_new\<lparr>store_engine := e\<rparr>) ''k'' = Some \<lparr>pe_value = Blob ''v'', pe_expires_at = None\<rparr> \<and>
    map_of d' BINLOG_PATH = Some (logged sample_env sample_log)"
proof -
  let ?d = "dir_write BINLOG_PATH (logged sample_env sample_log @ torn_tail) sample_dir"
  have "loggable sample_env sample_log" using sample_history by (simp add: history_at_def)
  note h = history_crash [OF sample_history this torn_tail]
  have n: "numbered 0 [put_batch] = Some (concat [] @ sample_log)" by (simp add: u64_checked_add_def sample_log_def)
  have w: "0 \<le> image_watermark None" by simp
  from recovery_rebuilds [OF snapshot_crash [OF sample_snapshot [of plain sample_env]] h n w store_new_wf store_new_idle]
  obtain r e d' where "load_data_from_paths plain sample_env ?d store_new = Some (Inr r, store_new\<lparr>store_engine := e\<rparr>, d')"
    "last_sequence r = max (image_watermark None) (the (last_of (Some 0) sample_log))"
    "replayed_records r = length (replayed_batches (image_watermark None) sample_log)"
    "pview sample_env (store_new\<lparr>store_engine := e\<rparr>) = recovered_content sample_env None sample_log"
    "history_at sample_env d' [] sample_log []" by auto
  moreover have "max (image_watermark None) (the (last_of (Some 0) sample_log)) = 1" "length (replayed_batches (image_watermark None) sample_log) = 1"
    by (simp_all add: image_watermark_def last_of_def sample_log_def replayed_batches_def)
  ultimately show ?thesis
    by (intro exI [of _ r] exI [of _ e] exI [of _ d']) (simp add: sample_content history_at_def)
qed

text \<open>
  An acknowledged write is durable. Let the files describe the live store. If the first
  request of a commit group is answered with success, then the batches of the group are in the
  binlog, and after a crash at any later time, with the binlog possibly ending in part of a further
  record, recovery succeeds, continues at the same sequence, and every key has the entry it had in
  the live store after the group, as far as the code compares entries.
\<close>

theorem acknowledged_survives:
  assumes "durable Z E d s segs active st p"
    and "sorted (map (now \<circ> fst) requests @ [now E])"
    and "process_commit_group S E requests st p = Some (Inr answer # results, st', p')"
    and "list_all (\<lambda>x. list_all (effect_encodable E) (effects (snd x))) (drop (length (published p)) (published p'))"
    and "now E \<le> t" and "torn E tail" and "store_wf st0" and "\<not> snapshot_active (store_engine st0)"
  shows "\<exists>r st1 d'. load_data_from_paths Z (E\<lparr>now := t\<rparr>) (crash d p' tail) st0 = Some (Inr r, st1, d') \<and>
    last_sequence r = repl_offset p' \<and> agrees (E\<lparr>now := t\<rparr>) st1 st'"
proof -
  have wf: "store_wf st" using assms(1) unfolding durable_def by blast
  from process_group_spec [OF wf assms(2), of S p] assms(3)
  have "store_wf st'" "group_committed E st p (Inr answer # results) st' p' \<or> group_rejected E st p (Inr answer # results) st' p' \<or>
      group_indeterminate p (Inr answer # results) p'" by auto
  moreover have "\<not> group_rejected E st p (Inr answer # results) st' p'" "\<not> group_indeterminate p (Inr answer # results) p'"
    by (auto simp: group_rejected_def group_indeterminate_def)
  ultimately have "store_wf st'" "group_committed E st p (Inr answer # results) st' p'" by blast+
  from committed_durable [OF assms(1) this(2,1)] assms(4) obtain batches
    where "durable Z E (crash d p' []) s segs (active @ batches) st' p'" by (auto simp: list_all_iff)
  from durable_recovers_agreeing [OF this assms(5-8)] have "\<exists>r st1 d'. load_data_from_paths Z (E\<lparr>now := t\<rparr>) (crash (crash d p' []) p' tail) st0 = Some (Inr r, st1, d') \<and>
    last_sequence r = repl_offset p' \<and> agrees (E\<lparr>now := t\<rparr>) st1 st' \<and> store_wf st1" .
  moreover have "crash (crash d p' []) p' tail = crash d p' tail" by (simp add: crash_def write_again)
  ultimately show ?thesis by auto
qed

lemma sample_prepared:
  "\<exists>q st'. prepare_all sample_status [(sample_env, ObpDelete ''k'')] [] live_store = Some ((None, [q]), st') \<and>
     numbered (repl_offset sample_runtime) (concat (map pc_batches [q])) = Some [(2, delete_batch)]"
  using delete_prepared [OF live_store(1,3), of sample_status] sample_numbered by (auto simp: delete_batch_def sample_healthy)

theorem acknowledged_survives_witness:
  "\<exists>answer st' p' r st1 d'.
     process_commit_group sample_status sample_env [(sample_env, ObpDelete ''k'')] live_store sample_runtime = Some ([Inr answer], st', p') \<and>
     load_data_from_paths plain (sample_env\<lparr>now := 500\<rparr>) (crash sample_dir p' torn_tail) store_new = Some (Inr r, st1, d') \<and>
     last_sequence r = repl_offset p' \<and> agrees (sample_env\<lparr>now := 500\<rparr>) st1 st'"
proof -
  obtain q st' where q: "prepare_all sample_status [(sample_env, ObpDelete ''k'')] [] live_store = Some ((None, [q]), st')"
    "numbered (repl_offset sample_runtime) (concat (map pc_batches [q])) = Some [(2, delete_batch)]" using sample_prepared by blast
  from healthy_group [OF sample_healthy(1) q sample_writable] obtain p' where
    p': "process_commit_group sample_status sample_env [(sample_env, ObpDelete ''k'')] live_store sample_runtime = Some (complete_prepared [q], st', p')"
      "published p' = [(2, delete_batch)]" by (auto simp: sample_healthy)
  have "list_all (\<lambda>x. list_all (effect_encodable sample_env) (effects (snd x))) (drop (length (published sample_runtime)) (published p'))"
    by (simp add: p'(2) sample_healthy delete_batch_def)
  from acknowledged_survives [OF sample_durable _ p'(1) [unfolded complete_prepared_def list.map] this _ torn_tail store_new_wf store_new_idle, of 500]
  show ?thesis using p'(1) by (fastforce simp: sample_env_def complete_prepared_def)
qed



end
