(* ===== verification/Checkpoint.thy ===== *)
theory Checkpoint
  imports Durability
begin

text \<open>
  Checkpoints: the installation of a snapshot file under any failures of the operating system, and
  the preservation of the invariant \<open>durable\<close> by a checkpoint of the live store.
\<close>

section \<open>Installing a snapshot\<close>

definition other_files :: "directory \<Rightarrow> directory \<Rightarrow> bool" where
  "other_files d d' \<longleftrightarrow> (\<forall>n. n \<noteq> SNAPSHOT_PATH \<and> n \<noteq> SNAPSHOT_BACKUP_PATH \<and> n \<noteq> SNAPSHOT_TEMP_PATH \<longrightarrow> map_of d' n = map_of d n) \<and>
     (distinct (map fst d) \<longrightarrow> distinct (map fst d'))"

lemma other_files_trans: "other_files d d' \<Longrightarrow> other_files d' d'' \<Longrightarrow> other_files d d''"
  by (simp add: other_files_def)

lemma other_files_refl [simp]: "other_files d d"
  by (simp add: other_files_def)

lemma snapshot_paths: "SNAPSHOT_PATH \<noteq> SNAPSHOT_BACKUP_PATH" "SNAPSHOT_PATH \<noteq> SNAPSHOT_TEMP_PATH" "SNAPSHOT_BACKUP_PATH \<noteq> SNAPSHOT_TEMP_PATH"
  by (simp_all add: paths SNAPSHOT_TEMP_PATH_def)

lemma map_of_rename: "map_of (dir_rename old new d) n = (case map_of d old of None \<Rightarrow> map_of d n
    | Some c \<Rightarrow> if n = new then Some c else if n = old then None else map_of d n)"
  by (simp add: dir_rename_def map_of_write map_of_remove split: option.split)

lemma distinct_write: "distinct (map fst d) \<Longrightarrow> distinct (map fst (dir_write name c d))"
  unfolding names_write by simp

lemma distinct_rename: "distinct (map fst d) \<Longrightarrow> distinct (map fst (dir_rename old new d))"
  unfolding dir_rename_def by (cases "map_of d old") (simp_all only: option.case distinct_write distinct_remove)

lemma in_directory: "name \<in> fst ` set d \<longleftrightarrow> map_of d name \<noteq> None"
  by (simp add: map_of_eq_None_iff)

lemma dir_call_cases:
  assumes "dir_call eff (cs, d) = (r, cs', d')"
  shows "d' = eff d \<or> d' = d" and "r = Inr () \<Longrightarrow> d' = eff d"
  using assms by (auto simp: dir_call_def split: list.splits prod.splits option.splits if_splits elim: call_result.elims)

lemma write_temporary_spec:
  assumes "write_temporary Z E entries w partial (cs, d) = (r, cs', d')"
  shows "other_files d d' \<and> current_snapshot d' = current_snapshot d \<and>
    (r = Inr () \<longrightarrow> (\<exists>body. encode_entries E entries = Inr body \<and> map_of d' SNAPSHOT_TEMP_PATH = Some (gzip Z (snapshot_header w @ body))))"
proof -
  have other: "other_files d (dir_write SNAPSHOT_TEMP_PATH c d)" "current_snapshot (dir_write SNAPSHOT_TEMP_PATH c d) = current_snapshot d" for c
    using snapshot_paths distinct_write by (simp_all add: other_files_def current_snapshot_def map_of_write del: distinct_map split: option.split)
  from assms obtain c where "d' = dir_write SNAPSHOT_TEMP_PATH c d"
    "r = Inr () \<Longrightarrow> \<exists>body. encode_entries E entries = Inr body \<and> c = gzip Z (snapshot_header w @ body)"
    by (auto simp: write_temporary_def split: sum.splits list.splits option.splits)
  with other show ?thesis by (auto simp: map_of_write)
qed

lemma rename_other: "other_files d (dir_rename SNAPSHOT_PATH SNAPSHOT_BACKUP_PATH d)" "other_files d (dir_rename SNAPSHOT_TEMP_PATH SNAPSHOT_PATH d)"
  "other_files d (dir_rename SNAPSHOT_BACKUP_PATH SNAPSHOT_PATH d)"
  unfolding other_files_def using distinct_rename by (auto simp: map_of_rename simp del: distinct_map split: option.split)

lemma retire_snapshot_spec:
  assumes "retire_snapshot (cs, d) = (r, cs', d')"
  shows "other_files d d' \<and> current_snapshot d' = current_snapshot d \<and> map_of d' SNAPSHOT_TEMP_PATH = map_of d SNAPSHOT_TEMP_PATH"
proof (cases "SNAPSHOT_PATH \<in> fst ` set d")
  case True
  let ?d1 = "dir_rename SNAPSHOT_PATH SNAPSHOT_BACKUP_PATH d"
  obtain q cs1 d1 where q: "installer_rename SNAPSHOT_PATH SNAPSHOT_BACKUP_PATH (cs, d) = (q, cs1, d1)"
    by (cases "installer_rename SNAPSHOT_PATH SNAPSHOT_BACKUP_PATH (cs, d)")
  from dir_call_cases(1) [OF q [unfolded installer_rename_def]] have "d1 = ?d1 \<or> d1 = d" .
  moreover have "d' = d1"
  proof (cases q)
    case (Inr u)
    with assms True q have "installer_sync_parent (cs1, d1) = (r, cs', d')" by (simp add: retire_snapshot_def and_next_def)
    from dir_call_cases(1) [OF this [unfolded installer_sync_parent_def]] show ?thesis by simp
  qed (use assms True q in \<open>simp add: retire_snapshot_def and_next_def\<close>)
  moreover have "current_snapshot ?d1 = current_snapshot d" "map_of ?d1 SNAPSHOT_TEMP_PATH = map_of d SNAPSHOT_TEMP_PATH"
    using True snapshot_paths unfolding in_directory by (auto simp: current_snapshot_def map_of_rename)
  ultimately show ?thesis using rename_other(1) [of d] by auto
qed (use assms in \<open>simp add: retire_snapshot_def\<close>)

lemma install_snapshot_spec:
  assumes "install_snapshot (cs, d) = (r, cs', d')" and temp: "map_of d SNAPSHOT_TEMP_PATH = Some packed"
  shows "other_files d d' \<and> (current_snapshot d' = current_snapshot d \<or> current_snapshot d' = Some packed) \<and>
    (r = Inr () \<longrightarrow> map_of d' SNAPSHOT_PATH = Some packed)"
proof -
  let ?new = "dir_rename SNAPSHOT_TEMP_PATH SNAPSHOT_PATH d"
  have new: "map_of ?new SNAPSHOT_PATH = Some packed" using temp by (simp add: map_of_rename)
  obtain q cs1 d1 where q: "installer_rename SNAPSHOT_TEMP_PATH SNAPSHOT_PATH (cs, d) = (q, cs1, d1)"
    by (cases "installer_rename SNAPSHOT_TEMP_PATH SNAPSHOT_PATH (cs, d)")
  note c = dir_call_cases [OF q [unfolded installer_rename_def]]
  show ?thesis
  proof (cases q)
    case (Inr u)
    with assms q have "installer_sync_parent (cs1, d1) = (r, cs', d')" by (simp add: install_snapshot_def)
    from dir_call_cases(1) [OF this [unfolded installer_sync_parent_def]] Inr c(2) have "d' = ?new" by simp
    with new rename_other(2) [of d] show ?thesis by (simp add: current_snapshot_def)
  next
    case (Inl e)
    define undone where "undone \<longleftrightarrow> SNAPSHOT_PATH \<notin> fst ` set d1 \<and> SNAPSHOT_BACKUP_PATH \<in> fst ` set d1"
    let ?old = "dir_rename SNAPSHOT_BACKUP_PATH SNAPSHOT_PATH d1"
    have r: "r = Inl e" using assms Inl q by (simp add: install_snapshot_def)
    have "d' = d1 \<or> undone \<and> d' = ?old"
    proof (cases undone)
      case True
      obtain q2 cs2 d2 where q2: "installer_rename SNAPSHOT_BACKUP_PATH SNAPSHOT_PATH (cs1, d1) = (q2, cs2, d2)"
        by (cases "installer_rename SNAPSHOT_BACKUP_PATH SNAPSHOT_PATH (cs1, d1)")
      obtain q3 cs3 d3 where q3: "installer_sync_parent (cs2, d2) = (q3, cs3, d3)" by (cases "installer_sync_parent (cs2, d2)")
      have "d' = d3" using assms(1) q Inl True q2 q3 by (simp add: install_snapshot_def undone_def)
      with dir_call_cases(1) [OF q2 [unfolded installer_rename_def]] dir_call_cases(1) [OF q3 [unfolded installer_sync_parent_def]] True
      show ?thesis by auto
    qed (use assms(1) q Inl in \<open>auto simp: install_snapshot_def undone_def\<close>)
    moreover have "current_snapshot ?old = current_snapshot d1" if undone
      using that unfolding undone_def in_directory by (auto simp: current_snapshot_def map_of_rename)
    ultimately have "current_snapshot d' = current_snapshot d1" "other_files d1 d'" using rename_other(3) [of d1] by auto
    moreover have "current_snapshot d1 = current_snapshot d \<or> current_snapshot d1 = Some packed" "other_files d d1"
      using c(1) new rename_other(2) [of d] by (auto simp: current_snapshot_def)
    ultimately show ?thesis using r other_files_trans by auto
  qed
qed

lemma write_snapshot_spec:
  assumes "write_snapshot_file Z E entries w partial (cs, d) = (r, cs', d')"
  shows "other_files d d' \<and> (current_snapshot d' = current_snapshot d \<or>
      (\<exists>body. encode_entries E entries = Inr body \<and> current_snapshot d' = Some (gzip Z (snapshot_header w @ body)))) \<and>
    (r = Inr () \<longrightarrow> (\<exists>body. encode_entries E entries = Inr body \<and> map_of d' SNAPSHOT_PATH = Some (gzip Z (snapshot_header w @ body))))"
proof -
  obtain r1 cs1 d1 where w: "write_temporary Z E entries w partial (cs, d) = (r1, cs1, d1)" by (cases "write_temporary Z E entries w partial (cs, d)")
  obtain r2 cs2 d2 where t: "retire_snapshot (cs1, d1) = (r2, cs2, d2)" by (cases "retire_snapshot (cs1, d1)")
  note ws = write_temporary_spec [OF w] and ts = retire_snapshot_spec [OF t]
  show ?thesis
  proof (cases r1)
    case (Inl e)
    with assms w ws show ?thesis by (auto simp: write_snapshot_file_def and_next_def)
  next
    case one: (Inr u)
    with ws obtain body where b: "encode_entries E entries = Inr body" "map_of d1 SNAPSHOT_TEMP_PATH = Some (gzip Z (snapshot_header w @ body))" by auto
    show ?thesis
    proof (cases r2)
      case (Inl e)
      with assms w t one ws ts show ?thesis by (auto simp: write_snapshot_file_def and_next_def intro: other_files_trans)
    next
      case (Inr u2)
      with assms w t one have "install_snapshot (cs2, d2) = (r, cs', d')" by (simp add: write_snapshot_file_def and_next_def)
      from install_snapshot_spec [OF this] ts b ws show ?thesis by (auto intro: other_files_trans)
    qed
  qed
qed


section \<open>Checkpoints\<close>

text \<open>Changes outside the binlog leave the history as it is.\<close>

lemma history_names:
  assumes "history_at E d segs active p" and "distinct (map fst d) \<Longrightarrow> distinct (map fst d')"
    and same: "\<And>name. name \<notin> N \<Longrightarrow> map_of d' name = map_of d name"
    and N: "\<And>name. name \<in> N \<Longrightarrow> parse_binlog_segment_end_sequence name = Inr None \<and> name \<noteq> BINLOG_PATH"
  shows "history_at E d' segs active p"
proof -
  from assms(1) have h: "distinct (map fst d)" "map_of d BINLOG_PATH = Some (logged E active @ p)" "length segs \<le> MAX_BINLOG_SEGMENTS"
      "loggable E (concat segs @ active)" "torn E p"
    and segs: "\<And>seg. seg \<in> set segs \<Longrightarrow> seg \<noteq> [] \<and> map_of d (binlog_segment (segment_end seg)) = Some (logged E seg)"
    and names: "\<And>x. x \<in> set d \<Longrightarrow> parse_binlog_segment_end_sequence (fst x) = Inr None \<or> fst x \<in> (binlog_segment \<circ> segment_end) ` set segs"
    unfolding history_at_def list_all_iff by auto
  have seg_same: "map_of d' (binlog_segment (segment_end seg)) = map_of d (binlog_segment (segment_end seg))" if "seg \<in> set segs" for seg
  proof (rule same)
    have "loggable E seg" "seg \<noteq> []" using h(4) that segs [OF that] by (simp_all add: loggable_concat)
    from segment_parse [OF this] N show "binlog_segment (segment_end seg) \<notin> N" by fastforce
  qed
  have "BINLOG_PATH \<notin> N" using N by blast
  show ?thesis unfolding history_at_def list_all_iff
  proof (intro conjI ballI)
    show "distinct (map fst d')" by (rule assms(2)) (fact h(1))
    show "map_of d' BINLOG_PATH = Some (logged E active @ p)" using h(2) same [OF \<open>BINLOG_PATH \<notin> N\<close>] by simp
  next
    fix seg assume "seg \<in> set segs"
    with segs seg_same show "seg \<noteq> []" "map_of d' (binlog_segment (segment_end seg)) = Some (logged E seg)" by simp_all
  next
    fix x assume x: "x \<in> set d'"
    have "parse_binlog_segment_end_sequence (fst x) = Inr None \<or> fst x \<in> (binlog_segment \<circ> segment_end) ` set segs"
    proof (cases "fst x \<in> N")
      case True
      then show ?thesis using N by blast
    next
      case False
      have "map_of d' (fst x) \<noteq> None" using x by (simp add: map_of_eq_None_iff)
      with same [OF False] have "map_of d (fst x) \<noteq> None" by metis
      then obtain y where "y \<in> set d" "fst y = fst x" by (auto simp: map_of_eq_None_iff)
      with names [of y] show ?thesis by simp
    qed
    then show "case x of (name, _) \<Rightarrow> parse_binlog_segment_end_sequence name = Inr None \<or> name \<in> (binlog_segment \<circ> segment_end) ` set segs"
      by (simp add: case_prod_beta)
  qed (fact h)+
qed

lemma temp_path: "parse_binlog_segment_end_sequence SNAPSHOT_TEMP_PATH = Inr None" "SNAPSHOT_TEMP_PATH \<noteq> BINLOG_PATH" "SNAPSHOT_PATH \<noteq> BINLOG_PATH" "SNAPSHOT_BACKUP_PATH \<noteq> BINLOG_PATH"
  by (simp_all add: parse_binlog_segment_end_sequence_def str_of_bytes_def SNAPSHOT_TEMP_PATH_def starts_with_def BINLOG_SEGMENT_PREFIX_def paths)

lemma history_other: "history_at E d segs active p \<Longrightarrow> other_files d d' \<Longrightarrow> history_at E d' segs active p"
  by (rule history_names [of E d segs active p d' "{SNAPSHOT_PATH, SNAPSHOT_BACKUP_PATH, SNAPSHOT_TEMP_PATH}"])
    (auto simp: other_files_def paths_parse temp_path)

lemma checkpoint_content:
  assumes begun: "begin_snapshot E (store_engine st) = Some (snap, e')" and wf: "store_wf st" and "now E \<le> t"
  shows "entries_view (E\<lparr>now := t\<rparr>) (snapshot_entries snap) k = pview (E\<lparr>now := t\<rparr>) (st\<lparr>store_engine := e'\<rparr>) k"
    and "store_wf (st\<lparr>store_engine := e'\<rparr>)" and "distinct (map fst (snapshot_entries snap))"
proof -
  let ?E = "E\<lparr>now := t\<rparr>"
  note s = snapshot_entries_spec [OF begun wf [unfolded store_wf_def]]
  have ok: "engine_wf e'" "contents e' = contents (store_engine st)"
    using begin_snapshot_ok [OF begun] wf by (simp_all add: store_wf_def)
  have "pview ?E (st\<lparr>store_engine := e'\<rparr>) k = pview ?E st k" by (simp add: pview_def view_def ok(2))
  also have "\<dots> = palive ?E (pview E st k)" using assms(3) by (intro pview_later) simp
  also have "\<dots> = entries_view ?E (snapshot_entries snap) k" using s(2) by (simp add: entries_view_def pview_def view_def)
  finally show "entries_view ?E (snapshot_entries snap) k = pview ?E (st\<lparr>store_engine := e'\<rparr>) k" by simp
  show "store_wf (st\<lparr>store_engine := e'\<rparr>)" using ok(1) by (simp add: store_wf_def)
  show "distinct (map fst (snapshot_entries snap))" using s(1) by simp
qed


text \<open>
  A checkpoint never endangers the data. Let the files describe the live store and let the
  engine's snapshot be taken and written at the current sequence. Whatever calls of the installation
  fail, with or without their effect, and at whatever point the server stops, the files still
  describe the live store: recovery reads either the snapshot it would have read before or the new
  one. If the installation reports success, recovery starts from the new snapshot.
\<close>

theorem checkpoint_keeps_durable:
  assumes "durable Z E d s segs active st p" and "begin_snapshot E (store_engine st) = Some (snap, e')"
    and "list_all (entry_encodable E) (snapshot_entries snap)" and "\<And>x. gunzip Z (gzip Z x) = Inr x"
    and "write_snapshot_file Z E (snapshot_entries snap) (repl_offset p) partial (choices_left, d) = (r, choices_left', d')"
  shows "\<exists>s'. durable Z E d' s' segs active (st\<lparr>store_engine := e'\<rparr>) p \<and>
    (r = Inr () \<longrightarrow> s' = Some (repl_offset p, snapshot_entries snap))"
proof -
  let ?log = "concat segs @ active" and ?st = "st\<lparr>store_engine := e'\<rparr>" and ?new = "Some (repl_offset p, snapshot_entries snap)"
  from assms(1) obtain q where h: "snapshot_at Z E d s" "history_at E d segs active []" "active_bytes (binlog p) = logged E active" "store_wf st"
    and q: "contiguous (Some q) ?log" "q \<le> image_watermark s" "image_watermark s \<le> repl_offset p" "last_of (Some q) ?log = Some (repl_offset p)"
    and eq: "\<And>t k. now E \<le> t \<Longrightarrow> same_entry (recovered_content (E\<lparr>now := t\<rparr>) s ?log k) (pview (E\<lparr>now := t\<rparr>) st k)"
    unfolding durable_def by blast
  note w = write_snapshot_spec [OF assms(5)] and c = checkpoint_content [OF assms(2) h(4)]
  have hist: "history_at E d' segs active []" using history_other [OF h(2)] w by blast
  have wf: "store_wf ?st" by (rule c(2)) (rule order_refl)
  show ?thesis
  proof (cases "current_snapshot d' = current_snapshot d \<and> r \<noteq> Inr ()")
    case True
    have "snapshot_at Z E d' s" using h(1) True by (cases s) (simp_all add: snapshot_at_def)
    moreover have "pview (E\<lparr>now := t\<rparr>) ?st k = pview (E\<lparr>now := t\<rparr>) st k" for t k
      using begin_snapshot_ok(1) [OF assms(2)] h(4) by (simp add: pview_def view_def store_wf_def)
    ultimately have "durable Z E d' s segs active ?st p"
      unfolding durable_def using hist wf h(3) q eq by auto
    with True show ?thesis by blast
  next
    case False
    then obtain body where b: "encode_entries E (snapshot_entries snap) = Inr body"
        "current_snapshot d' = Some (gzip Z (snapshot_header (repl_offset p) @ body))"
      using w by (auto simp: current_snapshot_def)
    have "snapshot_at Z E d' ?new" using b assms(3,4) c(3) [OF order_refl] by (simp add: snapshot_at_def image_entries_def)
    moreover have "q \<le> image_watermark ?new" "image_watermark ?new \<le> repl_offset p"
      using q(2,3) by (auto simp: image_watermark_def)
    moreover have "same_entry (recovered_content (E\<lparr>now := t\<rparr>) ?new ?log k) (pview (E\<lparr>now := t\<rparr>) ?st k)" if "now E \<le> t" for t k
    proof -
      have "fst x \<le> repl_offset p" if "x \<in> set ?log" for x
      proof -
        have "?log \<noteq> []" using that by (metis empty_iff list.set(1))
        then have "repl_offset p = fst (last ?log)" using q(4) unfolding last_of_def by (simp only: if_False option.inject)
        with sorted_last [OF conjunct1 [OF contiguous_sorted [OF q(1)]] that] show ?thesis by simp
      qed
      then have "\<forall>x \<in> set ?log. \<not> repl_offset p < fst x" by (meson linorder_not_less)
      then have "filter (\<lambda>x. repl_offset p < fst x) ?log = []" by (rule filter_False)
      then have "replayed_batches (repl_offset p) ?log = []" by (simp only: replayed_batches_def list.map)
      then show ?thesis using c(1) [OF that, of k] by (simp add: recovered_content_def image_watermark_def image_entries_def same_entry_def)
    qed
    ultimately have "durable Z E d' ?new segs active ?st p"
      unfolding durable_def using hist wf h(3) q(1,4) by auto
    then show ?thesis by blast
  qed
qed


lemma live_snapshot:
  "\<exists>snap e'. begin_snapshot sample_env (store_engine live_store) = Some (snap, e') \<and> list_all (entry_encodable sample_env) (snapshot_entries snap)"
proof -
  have eng: "store_engine live_store = snd (engine_set sample_env ''k'' (Blob ''v'') None engine_new)"
    by (simp add: live_store_def store_new_def with_maxmemory_def)
  have c: "engine_change sample_env ((contents engine_new)(''k'' := if expired_at sample_env None then None
      else Some ((fresh_entry sample_env (Blob ''v''))\<lparr>expires_at := None\<rparr>))) engine_new (store_engine live_store)"
    unfolding eng by (rule engine_set_change)
  have idle: "\<not> snapshot_active (store_engine live_store)" "engine_bases (store_engine live_store) = replicate (length (shards (store_engine live_store))) None"
    using c engine_new_ok [of sample_env] by (auto simp: engine_change_def engine_ok_def engine_new_def engine_bases_def engine_wf_def shard_new_def)
  obtain snap e' where b: "begin_snapshot sample_env (store_engine live_store) = Some (snap, e')" using begin_snapshot_defined [OF idle] .
  note s = snapshot_entries_spec [OF b live_store(1) [unfolded store_wf_def]]
  have "entry_encodable sample_env (k, x)" if "(k, x) \<in> set (snapshot_entries snap)" for k x
  proof -
    have "view sample_env live_store k = Some x" using that s by (simp add: view_def map_of_is_SomeI flip: s(2))
    then have "pview sample_env live_store k = Some (persistent_entry_from x)" by (simp add: pview_def)
    then have "pe_value (persistent_entry_from x) = Blob ''v''" "pe_expires_at (persistent_entry_from x) = None"
      unfolding live_store(2) [of sample_env] sample_content by (auto split: if_splits dest: sym)
    then show ?thesis by (simp add: entry_encodable_def persistent_entry_from_def)
  qed
  then show ?thesis using b by (auto simp: list_all_iff)
qed

theorem checkpoint_keeps_durable_witness:
  "\<exists>snap e' r k d' s'. begin_snapshot sample_env (store_engine live_store) = Some (snap, e') \<and>
     write_snapshot_file plain sample_env (snapshot_entries snap) 1 [] ([Proceed, FailLate ''rename''], sample_dir) = (r, k, d') \<and>
     durable plain sample_env d' s' [] sample_log (live_store\<lparr>store_engine := e'\<rparr>) sample_runtime"
proof -
  obtain snap e' where b: "begin_snapshot sample_env (store_engine live_store) = Some (snap, e')" "list_all (entry_encodable sample_env) (snapshot_entries snap)"
    using live_snapshot by blast
  obtain r k d' where w: "write_snapshot_file plain sample_env (snapshot_entries snap) (repl_offset sample_runtime) [] ([Proceed, FailLate ''rename''], sample_dir) = (r, k, d')"
    by (cases "write_snapshot_file plain sample_env (snapshot_entries snap) (repl_offset sample_runtime) [] ([Proceed, FailLate ''rename''], sample_dir)")
  have "gunzip plain (gzip plain x) = Inr x" for x by (simp add: plain_def)
  from checkpoint_keeps_durable [OF sample_durable b this w] b w show ?thesis by (auto simp: sample_healthy)
qed

end
