(* ===== verification/Replica_State.thy ===== *)
theory Replica_State
  imports Checkpoint
begin

text \<open>
  \<open>src/persistence/replica_state.rs\<close>: the small file that records whether this data directory
  belongs to a replica, and if so to which history and from which baseline. It decides whether a
  restarted replica may resume from its data or must take a full synchronization, and whether the
  data may be served by a master. Files are a directory of named contents, as in recovery; the calls
  that write take one choice each, so they may fail with or without their effect.
\<close>

section \<open>The state and its file\<close>

definition REPLICA_STATE_MAGIC :: bytes where
  "REPLICA_STATE_MAGIC = ''ONYXREPL''"

definition REPLICA_STATE_VERSION :: nat where
  "REPLICA_STATE_VERSION = 2"

definition REPLICA_STATE_PATH :: bytes where
  "REPLICA_STATE_PATH = ''onyx.replica''"

definition REPLICA_STATE_TEMP_PATH :: bytes where
  "REPLICA_STATE_TEMP_PATH = ''onyx.replica.tmp''"

record replica_identity =
  replid :: u64
  baseline_sequence :: u64

datatype durable_replica_state = Detached | Installing | Ready replica_identity

definition trim_end :: "bytes \<Rightarrow> bytes" where
  "trim_end s = concat (rev (dropWhile is_whitespace (rev (utf8_chars s))))"

definition replica_state_fields :: "bytes list \<Rightarrow> u64 \<Rightarrow> durable_replica_state presult" where
  "replica_state_fields parts snapshot_mark =
     (if length parts \<noteq> 5 \<or> parts ! 0 \<noteq> REPLICA_STATE_MAGIC then fail ''Malformed durable replica state''
      else and_then (ok_or ''Invalid durable replica state version'' (parse_unsigned 255 (parts ! 1))) (\<lambda>version.
        if version \<noteq> REPLICA_STATE_VERSION then fail (''Unsupported durable replica state version: '' @ nat_to_string version)
        else and_then (ok_or ''Invalid upstream replication ID'' (parse_u64 (parts ! 3))) (\<lambda>upstream.
        and_then (ok_or ''Invalid replica baseline sequence'' (parse_u64 (parts ! 4))) (\<lambda>baseline.
          if parts ! 2 = ''DETACHED'' \<and> upstream = 0 \<and> baseline = 0 then Inr Detached
          else if parts ! 2 = ''INSTALLING'' \<and> upstream = 0 \<and> baseline = 0 then Inr Installing
          else if parts ! 2 = ''READY'' \<and> upstream \<noteq> 0
          then Inr (if baseline \<noteq> snapshot_mark then Installing else Ready \<lparr>replid = upstream, baseline_sequence = baseline\<rparr>)
          else fail ''Invalid durable replica state fields''))))"

definition load_durable_replica_state :: "directory \<Rightarrow> u64 \<Rightarrow> durable_replica_state option presult" where
  "load_durable_replica_state d snapshot_mark = (case map_of d REPLICA_STATE_PATH of
      None \<Rightarrow> Inr None
    | Some body \<Rightarrow>
        if MAX_SNAPSHOT_METADATA_SIZE < length body then fail ''Replica identity metadata exceeds the format limit''
        else if \<not> utf8_valid body then fail ''stream did not contain valid UTF-8''
        else and_then (replica_state_fields (split_on CHR 0x09 (trim_end body)) snapshot_mark) (\<lambda>s. Inr (Some s)))"

fun state_fields :: "durable_replica_state \<Rightarrow> bytes \<times> u64 \<times> u64" where
  "state_fields Detached = (''DETACHED'', 0, 0)"
| "state_fields Installing = (''INSTALLING'', 0, 0)"
| "state_fields (Ready i) = (''READY'', replid i, baseline_sequence i)"

definition state_line :: "durable_replica_state \<Rightarrow> bytes" where
  "state_line s = (case state_fields s of (status, upstream, baseline) \<Rightarrow>
     REPLICA_STATE_MAGIC @ [CHR 0x09] @ nat_to_string REPLICA_STATE_VERSION @ [CHR 0x09] @ status @ [CHR 0x09] @
     u64_to_string upstream @ [CHR 0x09] @ u64_to_string baseline)"

text \<open>\<open>left\<close> is what a failed write leaves in the temporary file.\<close>

definition write_state_temporary :: "bytes \<Rightarrow> bytes \<Rightarrow> disk \<Rightarrow> unit presult \<times> disk" where
  "write_state_temporary left text = (\<lambda>(cs, d). case cs of
      [] \<Rightarrow> (Inr (), [], dir_write REPLICA_STATE_TEMP_PATH text d)
    | c # cs \<Rightarrow> (case fst (call_result c) of
          None \<Rightarrow> (Inr (), cs, dir_write REPLICA_STATE_TEMP_PATH text d)
        | Some e \<Rightarrow> (fail e, cs, dir_write REPLICA_STATE_TEMP_PATH left d)))"

definition write_durable_replica_state :: "bytes \<Rightarrow> durable_replica_state \<Rightarrow> disk \<Rightarrow> unit presult \<times> disk" where
  "write_durable_replica_state left s k =
     and_next (write_state_temporary left (state_line s @ [LF]) k) (\<lambda>_ k.
     and_next (installer_rename REPLICA_STATE_TEMP_PATH REPLICA_STATE_PATH k) (\<lambda>_. installer_sync_parent))"

definition write_replica_identity :: "bytes \<Rightarrow> replica_identity \<Rightarrow> disk \<Rightarrow> unit presult \<times> disk" where
  "write_replica_identity left i = write_durable_replica_state left (Ready i)"

definition write_replica_installing :: "bytes \<Rightarrow> disk \<Rightarrow> unit presult \<times> disk" where
  "write_replica_installing left = write_durable_replica_state left Installing"

definition write_replica_detached :: "bytes \<Rightarrow> disk \<Rightarrow> unit presult \<times> disk" where
  "write_replica_detached left = write_durable_replica_state left Detached"

definition prepare_replication_startup :: "bytes \<Rightarrow> u64 \<Rightarrow> bool \<Rightarrow> disk \<Rightarrow> replica_identity option presult \<times> disk" where
  "prepare_replication_startup left snapshot_mark configured_as_replica k =
     (case load_durable_replica_state (snd k) snapshot_mark of
        Inl e \<Rightarrow> (Inl e, k)
      | Inr state \<Rightarrow>
          if configured_as_replica then (Inr (case state of Some (Ready i) \<Rightarrow> Some i | _ \<Rightarrow> None), k)
          else (case state of
              Some Installing \<Rightarrow> (fail ''Cannot start as master while replica baseline installation is incomplete'', k)
            | Some (Ready i) \<Rightarrow> and_next (write_replica_detached left k) (\<lambda>_ k. (Inr None, k))
            | _ \<Rightarrow> (Inr None, k)))"

section \<open>Round trip\<close>

lemma state_line_plain: "\<forall>c \<in> set (state_line s). c \<noteq> LF \<and> of_char c < (128 :: nat)"
  using digits_plain by (cases s) (auto simp: state_line_def u64_to_string_def REPLICA_STATE_MAGIC_def LF_def)

lemma state_line_fields: "split_on CHR 0x09 (state_line s) =
    [REPLICA_STATE_MAGIC, nat_to_string REPLICA_STATE_VERSION, fst (state_fields s), u64_to_string (fst (snd (state_fields s))),
     u64_to_string (snd (snd (state_fields s)))]"
proof -
  have "CHR 0x09 \<notin> set (nat_to_string n)" for n using digits_plain by blast
  moreover have "CHR 0x09 \<notin> set (fst (state_fields s))" by (cases s) auto
  moreover have "CHR 0x09 \<notin> set REPLICA_STATE_MAGIC" by (simp add: REPLICA_STATE_MAGIC_def)
  ultimately show ?thesis
    by (simp add: state_line_def case_prod_beta u64_to_string_def split_on_first split_on_none)
qed

lemma state_line_length: "length (state_line s @ [LF]) \<le> MAX_SNAPSHOT_METADATA_SIZE"
proof -
  have "length (u64_to_string w) \<le> 20" for w
    using nat_to_string_length [of "unat w" 19] unat_u64_less [of w] by (simp add: u64_to_string_def)
  from this [of "fst (snd (state_fields s))"] this [of "snd (snd (state_fields s))"]
  show ?thesis
    by (cases s) (simp_all add: state_line_def REPLICA_STATE_MAGIC_def REPLICA_STATE_VERSION_def MAX_SNAPSHOT_METADATA_SIZE_def nat_to_string.simps)
qed

lemma trim_end_line:
  assumes "\<forall>c \<in> set (line @ [b]). of_char c < (128 :: nat)" and "\<not> is_whitespace [b]"
  shows "trim_end (line @ [b, LF]) = line @ [b]"
proof -
  have "is_ascii (line @ [b, LF])" using assms(1) by (auto simp: is_ascii_def list_all_iff LF_def)
  then have "utf8_chars (line @ [b, LF]) = map (\<lambda>b. [b]) (line @ [b, LF])" by (rule utf8_chars_ascii)
  moreover have "is_whitespace [LF]" by (simp add: is_whitespace_def LF_def)
  moreover have "concat (map (\<lambda>b. [b]) line) = line" by (induction line) simp_all
  ultimately show ?thesis using assms(2) by (simp add: trim_end_def)
qed

lemma digit_not_space: "between 48 57 b \<Longrightarrow> \<not> is_whitespace [b]"
  by (auto simp: is_whitespace_def between_def Let_def)

lemma trim_state_line: "trim_end (state_line s @ [LF]) = state_line s"
proof -
  let ?n = "nat_to_string (unat (snd (snd (state_fields s))))"
  obtain d ds where d: "?n = ds @ [d]" using nat_to_string_head by (metis rev_exhaust list.distinct(1))
  then have "between 48 57 d" using nat_to_string_digits [of d] by (metis in_set_conv_decomp)
  obtain line where line: "state_line s = line @ [d]" using d by (simp add: state_line_def case_prod_beta u64_to_string_def)
  show ?thesis using trim_end_line [of line d] state_line_plain [of s] digit_not_space [OF \<open>between 48 57 d\<close>] unfolding line by simp
qed

text \<open>What a restarted server makes of a state it wrote: a baseline that is not the recovered snapshot is not trusted.\<close>

fun trusted :: "u64 \<Rightarrow> durable_replica_state \<Rightarrow> durable_replica_state" where
  "trusted mark (Ready i) = (if baseline_sequence i = mark then Ready i else Installing)"
| "trusted mark s = s"

lemma load_state_line:
  assumes "map_of d REPLICA_STATE_PATH = Some (state_line s @ [LF])" and "\<And>i. s = Ready i \<Longrightarrow> replid i \<noteq> 0"
  shows "load_durable_replica_state d mark = Inr (Some (trusted mark s))"
proof -
  have "utf8_valid (state_line s @ [LF])"
    using state_line_plain [of s] by (intro utf8_valid_ascii) (auto simp: is_ascii_def list_all_iff LF_def)
  moreover have "parse_unsigned 255 (nat_to_string REPLICA_STATE_VERSION) = Some REPLICA_STATE_VERSION"
    by (simp add: REPLICA_STATE_VERSION_def nat_to_string.simps parse_unsigned_def digit_val_def between_def digit_char_def)
  then have "replica_state_fields (split_on CHR 0x09 (state_line s)) mark = Inr (trusted mark s)"
    using assms(2) unfolding state_line_fields
    by (cases s) (simp_all add: replica_state_fields_def numeral_2_eq_2 numeral_3_eq_3)
  ultimately show ?thesis
    using assms(1) state_line_length [of s] by (simp add: load_durable_replica_state_def trim_state_line del: length_append)
qed

section \<open>Writing the state\<close>

text \<open>Files other than the state file and its temporary copy.\<close>

definition same_but_state :: "directory \<Rightarrow> directory \<Rightarrow> bool" where
  "same_but_state d d' \<longleftrightarrow> (distinct (map fst d) \<longrightarrow> distinct (map fst d')) \<and>
     (\<forall>name. name \<noteq> REPLICA_STATE_PATH \<and> name \<noteq> REPLICA_STATE_TEMP_PATH \<longrightarrow> map_of d' name = map_of d name)"

lemma same_but_state_refl [simp]: "same_but_state d d"
  by (simp add: same_but_state_def)

lemma same_but_state_trans: "same_but_state d d' \<Longrightarrow> same_but_state d' d'' \<Longrightarrow> same_but_state d d''"
  by (simp add: same_but_state_def)

lemma state_paths: "REPLICA_STATE_PATH \<noteq> REPLICA_STATE_TEMP_PATH" "REPLICA_STATE_TEMP_PATH \<noteq> REPLICA_STATE_PATH"
  by (simp_all add: REPLICA_STATE_PATH_def REPLICA_STATE_TEMP_PATH_def)

lemma write_state_temporary_spec:
  assumes "write_state_temporary left text (cs, d) = (r, cs', d')"
  shows "\<exists>x. d' = dir_write REPLICA_STATE_TEMP_PATH x d \<and> (r = Inr () \<longrightarrow> x = text)"
  using assms by (auto simp: write_state_temporary_def split: list.splits option.splits)

lemma write_state_spec:
  assumes "write_durable_replica_state left s (cs, d) = (r, cs', d')"
  shows "same_but_state d d'"
    and "map_of d' REPLICA_STATE_PATH = map_of d REPLICA_STATE_PATH \<or> map_of d' REPLICA_STATE_PATH = Some (state_line s @ [LF])"
    and "r = Inr () \<Longrightarrow> map_of d' REPLICA_STATE_PATH = Some (state_line s @ [LF])"
proof -
  let ?text = "state_line s @ [LF]"
  obtain r1 cs1 d1 where w: "write_state_temporary left ?text (cs, d) = (r1, cs1, d1)" by (cases "write_state_temporary left ?text (cs, d)")
  from write_state_temporary_spec [OF w] obtain x where x: "d1 = dir_write REPLICA_STATE_TEMP_PATH x d" "r1 = Inr () \<longrightarrow> x = ?text" by blast
  have one: "same_but_state d d1" "map_of d1 REPLICA_STATE_PATH = map_of d REPLICA_STATE_PATH"
    by (simp_all add: x(1) same_but_state_def map_of_write distinct_write state_paths)
  have goal: "same_but_state d d' \<and> (map_of d' REPLICA_STATE_PATH = map_of d REPLICA_STATE_PATH \<or> map_of d' REPLICA_STATE_PATH = Some ?text) \<and>
    (r = Inr () \<longrightarrow> map_of d' REPLICA_STATE_PATH = Some ?text)"
  proof (cases r1)
    case (Inl e)
    with assms w have "d' = d1" "r = Inl e" by (simp_all add: write_durable_replica_state_def and_next_def)
    with one show ?thesis by simp
  next
    case (Inr u)
    then have written: "map_of d1 REPLICA_STATE_TEMP_PATH = Some ?text" using x by (simp add: map_of_write)
    obtain r2 cs2 d2 where m: "installer_rename REPLICA_STATE_TEMP_PATH REPLICA_STATE_PATH (cs1, d1) = (r2, cs2, d2)"
      by (cases "installer_rename REPLICA_STATE_TEMP_PATH REPLICA_STATE_PATH (cs1, d1)")
    let ?ren = "dir_rename REPLICA_STATE_TEMP_PATH REPLICA_STATE_PATH d1"
    have ren: "same_but_state d1 ?ren" "map_of ?ren REPLICA_STATE_PATH = Some ?text"
      by (simp_all add: same_but_state_def map_of_rename written distinct_rename)
    have d2: "d2 = d1 \<and> r2 \<noteq> Inr () \<or> d2 = ?ren" using dir_call_cases [OF m [unfolded installer_rename_def]] by auto
    have d': "d' = d2" "r = Inr () \<Longrightarrow> r2 = Inr ()"
      using assms w m Inr by (cases r2; auto simp: write_durable_replica_state_def and_next_def installer_sync_parent_def dest!: dir_call_cases)+
    from d2 show ?thesis
    proof
      assume "d2 = ?ren"
      with d' one ren same_but_state_trans show ?thesis by metis
    qed (use d' one in auto)
  qed
  then show "same_but_state d d'" "map_of d' REPLICA_STATE_PATH = map_of d REPLICA_STATE_PATH \<or> map_of d' REPLICA_STATE_PATH = Some ?text"
    "r = Inr () \<Longrightarrow> map_of d' REPLICA_STATE_PATH = Some ?text" by blast+
qed

end
