(* ===== verification/Maintenance.thy ===== *)
theory Maintenance
  imports Replica_State
begin

text \<open>
  The maintenance of \<open>src/persistence/runtime.rs\<close>: the messages to the binlog worker beside append,
  the cleanup of sealed segments that a snapshot covers, the rollover of the active generation, and
  compaction in its four phases. Between the phases of a compaction the source holds no gate, so
  commits and rollovers may happen there; each phase is therefore a function of its own.

  A guard released on every path, such as the write budget, is released in each branch. Metrics,
  the gates and the loss of a spawned task are not modelled.
\<close>

section \<open>Messages to the binlog worker\<close>

definition worker_call :: "bytes \<Rightarrow> bytes \<Rightarrow> (managed_binlog \<Rightarrow> (storage_failure + 'r) \<times> managed_binlog) \<Rightarrow>
    'a commit_runtime_scheme \<Rightarrow> 'r presult \<times> 'a commit_runtime_scheme" where
  "worker_call gone dropped op rt = (case next_fate rt of (fate, rt1) \<Rightarrow>
     (case op (binlog rt1) of (result, file) \<Rightarrow>
       (case fate of
          WorkerGone \<Rightarrow> (Inl (persistence_indeterminate gone), rt1)
        | LostBefore \<Rightarrow> (Inl (persistence_indeterminate dropped), rt1)
        | LostAfter \<Rightarrow> (Inl (persistence_indeterminate dropped), rt1\<lparr>binlog := file\<rparr>)
        | Answered \<Rightarrow> (map_sum into_persistence_error id result, rt1\<lparr>binlog := file\<rparr>))))"

definition storage :: "(bytes \<Rightarrow> storage_failure) \<Rightarrow> bytes \<Rightarrow> (bytes + 'a) \<times> 's \<Rightarrow> (storage_failure + 'a) \<times> 's" where
  "storage wrap context_text = apfst (map_sum (\<lambda>e. wrap (context_text @ e)) id)"

definition worker_flush :: "managed_binlog \<Rightarrow> (storage_failure + unit) \<times> managed_binlog" where
  "worker_flush f = and_next (storage storage_indeterminate ''Binlog flush failed: '' (file_flush f)) (\<lambda>_ f.
     storage storage_indeterminate ''Binlog sync failed: '' (sync_all f))"

definition worker_checkpoint :: "managed_binlog \<Rightarrow> (storage_failure + nat) \<times> managed_binlog" where
  "worker_checkpoint f = and_next (storage storage_indeterminate ''Binlog compaction checkpoint flush failed: '' (file_flush f)) (\<lambda>_ f.
     storage storage_indeterminate ''Binlog compaction checkpoint seek failed: '' (seek_end f))"

fun seal_failure :: "rotation_error \<Rightarrow> storage_failure" where
  "seal_failure (Unchanged e) = rejected (''Binlog generation sealing did not modify history: '' @ e)"
| "seal_failure (RotationIndeterminate e) = storage_indeterminate (''Binlog generation sealing outcome is indeterminate: '' @ e)"

definition worker_seal :: "u64 \<Rightarrow> managed_binlog \<Rightarrow> (storage_failure + nat) \<times> managed_binlog" where
  "worker_seal end_sequence f = apfst (map_sum seal_failure id) (seal_active end_sequence f)"

definition worker_sync_data :: "managed_binlog \<Rightarrow> (storage_failure + unit) \<times> managed_binlog" where
  "worker_sync_data f = storage storage_indeterminate ''Binlog sync failed: '' (sync_data f)"

definition worker_truncate :: "managed_binlog \<Rightarrow> (storage_failure + unit) \<times> managed_binlog" where
  "worker_truncate f =
     and_next (storage rejected ''Binlog was not truncated because the pre-truncation flush failed: '' (file_flush f)) (\<lambda>_ f.
     and_next (storage storage_indeterminate ''Binlog truncation outcome is indeterminate: '' (Binlog_File.truncate 0 f)) (\<lambda>_ f.
     storage storage_indeterminate ''Binlog truncation completed but could not be durably synchronized: '' (sync_all f)))"

definition binlog_flush :: "'a commit_runtime_scheme \<Rightarrow> unit presult \<times> 'a commit_runtime_scheme" where
  "binlog_flush = worker_call ''Binlog worker is unavailable during flush'' ''Binlog flush completion was dropped'' worker_flush"

definition binlog_checkpoint :: "'a commit_runtime_scheme \<Rightarrow> nat presult \<times> 'a commit_runtime_scheme" where
  "binlog_checkpoint = worker_call ''Binlog worker is unavailable during compaction checkpoint''
     ''Binlog compaction checkpoint completion was dropped'' worker_checkpoint"

definition binlog_seal_active :: "u64 \<Rightarrow> 'a commit_runtime_scheme \<Rightarrow> nat presult \<times> 'a commit_runtime_scheme" where
  "binlog_seal_active end_sequence = worker_call ''Binlog worker is unavailable during generation sealing''
     ''Binlog generation sealing completion was dropped'' (worker_seal end_sequence)"

definition binlog_sync_data :: "'a commit_runtime_scheme \<Rightarrow> unit presult \<times> 'a commit_runtime_scheme" where
  "binlog_sync_data = worker_call ''Binlog worker is unavailable during sync'' ''Binlog sync completion was dropped'' worker_sync_data"

definition binlog_truncate :: "'a commit_runtime_scheme \<Rightarrow> unit presult \<times> 'a commit_runtime_scheme" where
  "binlog_truncate = worker_call ''Binlog worker is unavailable during truncation'' ''Binlog truncate completion was dropped'' worker_truncate"

definition error_with_context :: "persistence_error \<Rightarrow> bytes \<Rightarrow> persistence_error" where
  "error_with_context e context_text = (let msg = context_text @ '': '' @ message e in
     if indeterminate e then persistence_indeterminate msg else persistence_error_new msg)"

section \<open>The segment catalog\<close>

record segment_cleanup =
  removed_files :: nat
  failed_files :: nat
  remaining_files :: nat

text \<open>A removal that fails is counted and the loop goes on with the next segment.\<close>

fun cleanup_segments :: "env \<Rightarrow> u64 \<Rightarrow> (u64 \<times> bytes) list \<Rightarrow> segment_cleanup \<Rightarrow> managed_binlog \<Rightarrow>
    segment_cleanup presult \<times> managed_binlog" where
  "cleanup_segments E watermark [] cleanup f = (Inr cleanup, f)"
| "cleanup_segments E watermark ((end_sequence, content) # rest) cleanup f =
     (if watermark < end_sequence then cleanup_segments E watermark rest cleanup f
      else (case inspect_binlog E (Some content) of
          Inl e \<Rightarrow> (fail (''Unable to validate snapshot-covered binlog segment '' @ binlog_segment end_sequence @ '': '' @ message e), f)
        | Inr insp \<Rightarrow>
            if min_sequence insp = None \<or> max_sequence insp \<noteq> end_sequence \<or> truncated_tail insp
            then (fail (''Snapshot-covered binlog segment does not match its catalog identity: '' @ binlog_segment end_sequence), f)
            else (case os_call (\<lambda>f. f\<lparr>segments := filter (\<lambda>s. fst s \<noteq> end_sequence) (segments f)\<rparr>) f of
                (Inr _, f1) \<Rightarrow> cleanup_segments E watermark rest (cleanup\<lparr>removed_files := removed_files cleanup + 1\<rparr>) f1
              | (Inl _, f1) \<Rightarrow> cleanup_segments E watermark rest (cleanup\<lparr>failed_files := failed_files cleanup + 1\<rparr>) f1)))"

definition persistence_io :: "bytes \<Rightarrow> (bytes + 'a) \<times> 's \<Rightarrow> 'a presult \<times> 's" where
  "persistence_io context_text = apfst (map_sum (\<lambda>e. persistence_error_new (context_text @ e)) id)"

definition cleanup_binlog_segments_through :: "env \<Rightarrow> u64 \<Rightarrow> managed_binlog \<Rightarrow> segment_cleanup presult \<times> managed_binlog" where
  "cleanup_binlog_segments_through E watermark f =
     and_next (persistence_io ''Unable to enumerate binlog segment catalog: '' (os_call (\<lambda>f. f) f)) (\<lambda>_ f.
     and_next (cleanup_segments E watermark (segments f) \<lparr>removed_files = 0, failed_files = 0, remaining_files = 0\<rparr> f) (\<lambda>cleanup f.
     and_next (persistence_io ''Unable to synchronize binlog segment catalog maintenance: '' (sync_parent_directory f)) (\<lambda>_ f.
     and_next (persistence_io ''Unable to refresh binlog segment catalog after cleanup: '' (os_call (\<lambda>f. f) f)) (\<lambda>_ f.
       (Inr (cleanup\<lparr>remaining_files := length (segments f)\<rparr>), f)))))"

definition apply_segment_catalog_cleanup :: "segment_cleanup \<Rightarrow> 'a commit_runtime_scheme \<Rightarrow> 'a commit_runtime_scheme" where
  "apply_segment_catalog_cleanup cleanup rt = rt\<lparr>physical_segment_count := remaining_files cleanup,
     segment_cleanup_blocked := 0 < failed_files cleanup, segment_catalog_unavailable := False\<rparr>"

definition refresh_segment_catalog :: "env \<Rightarrow> 'a commit_runtime_scheme \<Rightarrow> segment_cleanup presult \<times> 'a commit_runtime_scheme" where
  "refresh_segment_catalog E rt = (case cleanup_binlog_segments_through E (snapshot_watermark rt) (binlog rt) of
      (Inr cleanup, f) \<Rightarrow> (Inr cleanup, apply_segment_catalog_cleanup cleanup (rt\<lparr>binlog := f\<rparr>))
    | (Inl e, f) \<Rightarrow> (Inl e, rt\<lparr>binlog := f, segment_cleanup_blocked := True, segment_catalog_unavailable := True\<rparr>))"

definition preflush_active_generation :: "managed_binlog \<Rightarrow> nat presult \<times> managed_binlog" where
  "preflush_active_generation f = persistence_io [] (
     and_next (if active_file f = None then (Inl ''No such file or directory'', f) else os_call (\<lambda>f. f) f) (\<lambda>_ f.
     and_next (os_call (\<lambda>f. f) f) (\<lambda>_ f. let len = length (active_bytes f) in
       and_next (if 0 < len then os_call (\<lambda>f. f) f else (Inr (), f)) (\<lambda>_ f. (Inr len, f)))))"

section \<open>Rollover\<close>

text \<open>
  The outcome of sealing under the commit boundary: the counters of a new generation, or the error,
  with fail-stop when the outcome is unknown. \<open>None\<close> is the failed assertion on the catalog size.
\<close>

definition seal_generation :: "bytes \<Rightarrow> 'a commit_runtime_scheme \<Rightarrow> (nat presult \<times> 'a commit_runtime_scheme) option" where
  "seal_generation context_text rt = (case binlog_seal_active (repl_offset rt) rt of
      (Inl e, rt1) \<Rightarrow> let e' = error_with_context e context_text in
        Some (Inl e', if indeterminate e' then enter_fail_stop (message e') rt1 else rt1)
    | (Inr sealed_bytes, rt1) \<Rightarrow>
        map_option (\<lambda>rt2. (Inr sealed_bytes, rt2)) (record_sealed_segment sealed_bytes (rt1\<lparr>active_binlog_bytes := 0\<rparr>)))"

definition preflush :: "'a commit_runtime_scheme \<Rightarrow> nat presult \<times> 'a commit_runtime_scheme" where
  "preflush rt = (case preflush_active_generation (binlog rt) of
     (r, f) \<Rightarrow> (map_sum (\<lambda>e. error_with_context e ''Active binlog generation preflush failed'') id r, rt\<lparr>binlog := f\<rparr>))"

definition rollover_generation_owned :: "env \<Rightarrow> 'a commit_runtime_scheme \<Rightarrow> (u64 presult \<times> 'a commit_runtime_scheme) option" where
  "rollover_generation_owned E rt =
     (if active_binlog_bytes rt = 0 then Some (Inr (repl_offset rt), rt)
      else (case refresh_segment_catalog E rt of
          (Inl e, rt1) \<Rightarrow> Some (Inl (error_with_context e ''Binlog generation rollover catalog maintenance failed''), rt1)
        | (Inr _, rt1) \<Rightarrow>
            if BINLOG_SEGMENT_ROLLOVER_LIMIT \<le> physical_segment_count rt1
            then Some (fail (''Binlog generation rollover is blocked at '' @ nat_to_string (physical_segment_count rt1) @
              '' physical segments; the remaining catalog capacity is reserved for snapshot compaction''), rt1)
            else (case activate_compaction_write_budget rt1 of
                None \<Rightarrow> None
              | Some rt2 \<Rightarrow> (case preflush rt2 of
                    (Inl e, rt3) \<Rightarrow> Some (Inl e, release_compaction_write_budget rt3)
                  | (Inr _, rt3) \<Rightarrow> map_option (\<lambda>(r, rt4). (map_sum id (\<lambda>_. repl_offset rt4) r, release_compaction_write_budget rt4))
                      (seal_generation ''Binlog generation rollover failed'' rt3)))))"

section \<open>Compaction\<close>

record compaction_capture =
  capture_watermark :: u64
  compacted_write_count :: nat
  compacted_segment_count :: nat
  capture_entries :: "(bytes \<times> data_entry) list"

text \<open>
  The first phase, up to the release of the commit boundary. The store's snapshot stays open while
  its entries are taken out; they are fixed at this point.
\<close>

definition capture_snapshot :: "env \<Rightarrow> store \<Rightarrow> 'a commit_runtime_scheme \<Rightarrow> (compaction_capture presult \<times> store \<times> 'a commit_runtime_scheme) option" where
  "capture_snapshot E st rt = (case begin_snapshot E (store_engine st) of
      None \<Rightarrow> None
    | Some (snap, e) \<Rightarrow> Some (Inr \<lparr>capture_watermark = repl_offset rt, compacted_write_count = write_count rt,
          compacted_segment_count = unsnapshotted_segment_count rt, capture_entries = snapshot_entries snap\<rparr>,
        st\<lparr>store_engine := e\<rparr>, rt))"

definition compact_capture :: "env \<Rightarrow> store \<Rightarrow> 'a commit_runtime_scheme \<Rightarrow> (compaction_capture presult \<times> store \<times> 'a commit_runtime_scheme) option" where
  "compact_capture E st rt = (case refresh_segment_catalog E rt of
      (Inl e, rt1) \<Rightarrow> Some (Inl (error_with_context e ''Snapshot compaction catalog maintenance failed''), st, rt1)
    | (Inr _, rt1) \<Rightarrow>
        if MAX_BINLOG_SEGMENTS \<le> physical_segment_count rt1 then capture_snapshot E st rt1
        else (case activate_compaction_write_budget rt1 of
            None \<Rightarrow> None
          | Some rt2 \<Rightarrow> (case preflush rt2 of
                (Inl e, rt3) \<Rightarrow> Some (Inl e, st, release_compaction_write_budget rt3)
              | (Inr _, rt3) \<Rightarrow> (case seal_generation ''Binlog generation sealing failed'' rt3 of
                    None \<Rightarrow> None
                  | Some (Inl e, rt4) \<Rightarrow> Some (Inl e, st, release_compaction_write_budget rt4)
                  | Some (Inr _, rt4) \<Rightarrow> capture_snapshot E st (release_compaction_write_budget rt4)))))"

text \<open>The second phase closes the store's snapshot and writes the entries, without any gate.\<close>

definition compact_write :: "compression \<Rightarrow> env \<Rightarrow> bytes \<Rightarrow> compaction_capture \<Rightarrow> disk \<Rightarrow> unit presult \<times> disk" where
  "compact_write Z E partial c k = apfst (map_sum (\<lambda>e. persistence_error_new (''Snapshot installation failed: '' @ message e)) id)
     (write_snapshot_file Z E (capture_entries c) (capture_watermark c) partial k)"

text \<open>The third phase, under the commit boundary again; a failure there leaves the new snapshot in place.\<close>

definition compact_finish :: "bytes \<Rightarrow> u64 \<Rightarrow> compaction_capture \<Rightarrow> disk \<Rightarrow> 'a commit_runtime_scheme \<Rightarrow>
    u64 presult \<times> disk \<times> 'a commit_runtime_scheme" where
  "compact_finish left upstream c k rt = (case binlog_checkpoint rt of
      (Inl e, rt1) \<Rightarrow> let e' = error_with_context e ''Post-snapshot binlog checkpoint failed'' in
        (Inl e', k, if indeterminate e' then enter_fail_stop (message e') rt1 else rt1)
    | (Inr _, rt1) \<Rightarrow>
        (case (if upstream = 0 then (Inr (), k)
               else write_replica_identity left \<lparr>replid = upstream, baseline_sequence = capture_watermark c\<rparr> k) of
          (Inl e, k1) \<Rightarrow> (Inl e, k1, rt1)
        | (Inr _, k1) \<Rightarrow> (Inr (capture_watermark c), k1, rt1\<lparr>snapshot_watermark := capture_watermark c,
             write_count := write_count rt1 - compacted_write_count c,
             unsnapshotted_segment_count := unsnapshotted_segment_count rt1 - compacted_segment_count c,
             compaction_entry_floor := length (capture_entries c)\<rparr>)))"

text \<open>The last phase only removes segments; its failure is logged.\<close>

definition compact_cleanup :: "env \<Rightarrow> 'a commit_runtime_scheme \<Rightarrow> 'a commit_runtime_scheme" where
  "compact_cleanup E rt = snd (refresh_segment_catalog E rt)"

text \<open>The periodic synchronization of the \<open>everysec\<close> policy.\<close>

definition run_periodic_sync_once :: "persistence \<Rightarrow> unit presult \<times> persistence" where
  "run_periodic_sync_once p = (case binlog_sync_data p of
      (Inr _, p1) \<Rightarrow> (Inr (), p1)
    | (Inl e, p1) \<Rightarrow> let msg = ''Periodic binlog sync failed: '' @ message e in
        (Inl e, if indeterminate e then enter_persistence_fail_stop msg p1 else mark_persistence_failed msg p1))"

section \<open>The active file stays in place\<close>

text \<open>Operations that never leave the active binlog file missing.\<close>

definition keeps_active :: "(managed_binlog \<Rightarrow> 'r \<times> managed_binlog) \<Rightarrow> bool" where
  "keeps_active op \<longleftrightarrow> (\<forall>f. active_file f \<noteq> None \<longrightarrow> active_file (snd (op f)) \<noteq> None)"

lemma keepsD: "keeps_active op \<Longrightarrow> op f = (r, f') \<Longrightarrow> active_file f \<noteq> None \<Longrightarrow> active_file f' \<noteq> None"
  unfolding keeps_active_def by (metis snd_conv)

lemma keepsI: "(\<And>f r f'. op f = (r, f') \<Longrightarrow> active_file f \<noteq> None \<Longrightarrow> active_file f' \<noteq> None) \<Longrightarrow> keeps_active op"
  unfolding keeps_active_def by (metis prod.collapse)

named_theorems keeps

lemma keeps_os_call: "(\<And>f. active_file f \<noteq> None \<Longrightarrow> active_file (eff f) \<noteq> None) \<Longrightarrow> keeps_active (os_call eff)"
  by (rule keepsI, erule os_call_cases) simp_all

lemma keeps_handle: "keeps_active op \<Longrightarrow> keeps_active (on_handle op)"
  unfolding keeps_active_def on_handle_def by auto

lemma keeps_next [keeps]: "keeps_active a \<Longrightarrow> (\<And>x. keeps_active (b x)) \<Longrightarrow> keeps_active (\<lambda>f. and_next (a f) b)"
  by (rule keepsI, erule and_nextE) (blast dest: keepsD)+

lemma keeps_apfst [keeps]: "keeps_active op \<Longrightarrow> keeps_active (\<lambda>f. apfst (g f) (op f))"
  by (simp add: keeps_active_def)

lemma keeps_return [keeps]: "keeps_active (\<lambda>f. (r f, f))"
  by (simp add: keeps_active_def)

lemma keeps_if [keeps]: "keeps_active a \<Longrightarrow> keeps_active b \<Longrightarrow> keeps_active (\<lambda>f. if P f then a f else b f)"
  unfolding keeps_active_def by simp

lemma keeps_idle [keeps]: "keeps_active (os_call (\<lambda>f. f))" "keeps_active file_flush" "keeps_active sync_data" "keeps_active sync_all"
  "keeps_active sync_parent_directory" "keeps_active (seek_start n)" "keeps_active seek_end" "keeps_active (set_len n)"
  unfolding file_flush_def sync_data_def sync_all_def sync_parent_directory_def seek_start_def seek_end_def set_len_def
  by ((rule keeps_handle)?, (rule keeps_apfst)?, rule keeps_os_call, simp)+

lemma keeps_truncate [keeps]: "keeps_active (Binlog_File.truncate n)"
proof -
  have "keeps_active remove_all_binlog_segments" using remove_all_active by (metis keepsI)
  then show ?thesis unfolding Binlog_File.truncate_def by (intro keeps)
qed

lemma keeps_context [keeps]: "keeps_active op \<Longrightarrow> keeps_active (\<lambda>f. with_context context_text (op f))"
  unfolding with_context_def by (rule keeps_apfst)

lemma keeps_rollback [keeps]: "keeps_active (rollback_binlog_tail n e)"
proof -
  have "keeps_active (\<lambda>f. and_next (with_context ''tail truncation failed: '' (Binlog_File.truncate n f)) (\<lambda>_ f.
     and_next (with_context ''tail seek failed: '' (seek_start n f)) (\<lambda>_ f.
     and_next (with_context ''rollback flush failed: '' (file_flush f)) (\<lambda>_ f.
     with_context ''rollback sync failed: '' (sync_all f)))))" by (intro keeps)
  then show ?thesis by (intro keepsI) (auto simp: rollback_binlog_tail_def split: prod.splits sum.splits dest: keepsD)
qed

lemma keeps_write [keeps]: "keeps_active (file_write buf)"
  by (rule keepsI) (auto simp: Let_def file_write_def write_some_def next_choice_def split: if_splits prod.splits list.splits io_choice.splits)

lemma keeps_write_all: "active_file f \<noteq> None \<Longrightarrow> active_file (snd (snd (write_all_tracking_modification buf m f))) \<noteq> None"
proof -
  have "active_file f \<noteq> None \<longrightarrow> active_file (snd (snd (write_all_tracking_modification buf m f))) \<noteq> None"
  proof (induction buf m f rule: write_all_tracking_modification.induct)
    case (1 buffer modified f)
    show ?case
    proof (cases "buffer = []")
      case False
      obtain w f1 where w: "file_write buffer f = (w, f1)" by (cases "file_write buffer f")
      have "active_file f \<noteq> None \<longrightarrow> active_file f1 \<noteq> None" using keepsD [OF keeps_write w] by blast
      with 1 False w show ?thesis
        by (subst write_all_tracking_modification.simps) (auto split: sum.splits file_error.splits)
    qed (simp add: write_all_tracking_modification.simps)
  qed
  then show "active_file f \<noteq> None \<Longrightarrow> active_file (snd (snd (write_all_tracking_modification buf m f))) \<noteq> None" by simp
qed

lemma keeps_append: "keeps_active (append_binlog_records E records policy)"
proof -
  have tail: "keeps_active (append_binlog_tail bs policy)" for bs
  proof (rule keepsI)
    fix f r f' assume run: "append_binlog_tail bs policy f = (r, f')" and act: "active_file f \<noteq> None"
    obtain q f1 where one: "seek_end f = (q, f1)" by (cases "seek_end f")
    have f1: "active_file f1 \<noteq> None" by (rule keepsD [OF keeps_idle(7) one act])
    obtain w m f2 where two: "write_all_tracking_modification bs False f1 = (w, m, f2)" by (cases "write_all_tracking_modification bs False f1")
    have f2: "active_file f2 \<noteq> None" using keeps_write_all [OF f1, of bs False] two by simp
    let ?sync = "\<lambda>f. and_next (w, f) (\<lambda>_ f. and_next (file_flush f) (\<lambda>_ f. if policy = FsyncAlways then sync_data f else (Inr (), f)))"
    have "keeps_active ?sync" by (intro keeps)
    moreover obtain x f3 where three: "?sync f2 = (x, f3)" by (cases "?sync f2")
    ultimately have f3: "active_file f3 \<noteq> None" using f2 by (rule keepsD)
    obtain y f4 where four: "rollback_binlog_tail (projr q) (projl x) f3 = (y, f4)" by (cases "rollback_binlog_tail (projr q) (projl x) f3")
    have f4: "active_file f4 \<noteq> None" by (rule keepsD [OF keeps_rollback four f3])
    show "active_file f' \<noteq> None"
      using run one f1 two three f3 four f4 unfolding append_binlog_tail_def
      by (cases q; cases x; auto split: if_splits)
  qed
  have "append_binlog_records E records policy f = (r, f') \<Longrightarrow> f' = f \<or> (\<exists>bs. append_binlog_tail bs policy f = (r, f'))" for f r f'
    unfolding append_binlog_records_def by (auto split: if_splits sum.splits)
  with tail show ?thesis by (intro keepsI) (metis keepsD)
qed


section \<open>What maintenance changes\<close>

text \<open>Everything of the runtime that matters to the commit path, except the binlog files.\<close>

definition same_runtime :: "persistence \<Rightarrow> persistence \<Rightarrow> bool" where
  "same_runtime p p' \<longleftrightarrow> repl_offset p' = repl_offset p \<and> snapshot_watermark p' = snapshot_watermark p \<and>
     accepting_writes p' = accepting_writes p \<and> fail_stop_started p' = fail_stop_started p \<and> published p' = published p \<and> backlog p' = backlog p"

lemma same_runtime_refl [simp]: "same_runtime p p"
  by (simp add: same_runtime_def)

lemma same_runtime_trans: "same_runtime p p' \<Longrightarrow> same_runtime p' p'' \<Longrightarrow> same_runtime p p''"
  by (simp add: same_runtime_def)

lemma same_runtime_update [simp]:
  "same_runtime p (p'\<lparr>binlog := f\<rparr>) = same_runtime p p'" "same_runtime p (p'\<lparr>channel := c\<rparr>) = same_runtime p p'"
  "same_runtime p (p'\<lparr>active_binlog_bytes := n\<rparr>) = same_runtime p p'" "same_runtime p (p'\<lparr>compaction_write_budget_limit := n\<rparr>) = same_runtime p p'"
  "same_runtime p (p'\<lparr>physical_segment_count := m\<rparr>) = same_runtime p p'" "same_runtime p (p'\<lparr>unsnapshotted_segment_count := m\<rparr>) = same_runtime p p'"
  "same_runtime p (p'\<lparr>segment_cleanup_blocked := b\<rparr>) = same_runtime p p'" "same_runtime p (p'\<lparr>segment_catalog_unavailable := b\<rparr>) = same_runtime p p'"
  by (simp_all add: same_runtime_def)

lemma worker_call_cases:
  assumes "worker_call gone dropped op p = (r, p')"
  obtains c where "p' = p\<lparr>channel := c\<rparr>" "\<exists>e. r = Inl e \<and> indeterminate e"
  | c q f where "op (binlog p) = (q, f)" "p' = p\<lparr>channel := c, binlog := f\<rparr>" "r = map_sum into_persistence_error id q \<or> (\<exists>e. r = Inl e \<and> indeterminate e)"
proof -
  obtain fate p1 where fate: "next_fate p = (fate, p1)" by (cases "next_fate p")
  then obtain c where p1: "p1 = p\<lparr>channel := c\<rparr>" by (cases p) (auto simp: next_fate_def split: list.splits)
  obtain q f where q: "op (binlog p1) = (q, f)" by (cases "op (binlog p1)")
  note run = assms [unfolded worker_call_def fate prod.case q]
  show thesis
  proof (cases "fate = WorkerGone \<or> fate = LostBefore")
    case True
    then have "p' = p\<lparr>channel := c\<rparr>" "\<exists>e. r = Inl e \<and> indeterminate e"
      using run p1 by (auto simp: persistence_indeterminate_def)
    then show thesis by (rule that(1))
  next
    case False
    then consider "fate = LostAfter" | "fate = Answered" by (cases fate) simp_all
    then have "p' = p1\<lparr>binlog := f\<rparr> \<and> (r = map_sum into_persistence_error id q \<or> (\<exists>e. r = Inl e \<and> indeterminate e))"
    proof cases
      case 1
      have "(Inl (persistence_indeterminate dropped), p1\<lparr>binlog := f\<rparr>) = (r, p')" using run by (simp only: 1 channel_fate.case)
      then have "r = Inl (persistence_indeterminate dropped)" "p' = p1\<lparr>binlog := f\<rparr>" by (simp_all only: prod.inject)
      then show ?thesis by (simp add: persistence_indeterminate_def)
    next
      case 2
      have "(map_sum into_persistence_error id q, p1\<lparr>binlog := f\<rparr>) = (r, p')" using run by (simp only: 2 channel_fate.case)
      then show ?thesis by (simp only: prod.inject simp_thms)
    qed
    note post = this [unfolded p1]
    have "op (binlog p) = (q, f)" using q p1 by simp
    from this conjunct1 [OF post] conjunct2 [OF post] show thesis by (rule that(2))
  qed
qed

definition idle_op :: "(managed_binlog \<Rightarrow> 'r \<times> managed_binlog) \<Rightarrow> bool" where
  "idle_op op \<longleftrightarrow> (\<forall>f. same_files f (snd (op f)))"

named_theorems idle

lemma idleD: "idle_op op \<Longrightarrow> op f = (q, f') \<Longrightarrow> same_files f f'"
  unfolding idle_op_def by (metis snd_conv)

lemma idleI: "(\<And>f q f'. op f = (q, f') \<Longrightarrow> same_files f f') \<Longrightarrow> idle_op op"
  unfolding idle_op_def by (metis prod.collapse)

lemma idle_next [idle]: "idle_op a \<Longrightarrow> (\<And>x. idle_op (b x)) \<Longrightarrow> idle_op (\<lambda>f. and_next (a f) b)"
  by (rule idleI, erule and_nextE) (blast dest: idleD intro: same_files_trans)+

lemma idle_apfst [idle]: "idle_op op \<Longrightarrow> idle_op (\<lambda>f. apfst (g f) (op f))"
  by (simp add: idle_op_def)

lemma idle_return [idle]: "idle_op (\<lambda>f. (r f, f))"
  by (simp add: idle_op_def)

lemma idle_if [idle]: "idle_op a \<Longrightarrow> idle_op b \<Longrightarrow> idle_op (\<lambda>f. if P f then a f else b f)"
  by (simp add: idle_op_def)

lemma idle_calls [idle]: "idle_op (os_call (\<lambda>f. f))" "idle_op file_flush" "idle_op sync_data" "idle_op sync_all" "idle_op sync_parent_directory" "idle_op seek_end"
  using idle_call idle_handle_call seek_call unfolding file_flush_def sync_data_def sync_all_def sync_parent_directory_def
  by (intro idleI; blast)+

lemma idle_wrapped [idle]: "idle_op op \<Longrightarrow> idle_op (\<lambda>f. storage wrap context_text (op f))" "idle_op op \<Longrightarrow> idle_op (\<lambda>f. persistence_io context_text (op f))"
  unfolding storage_def persistence_io_def by (rule idle_apfst, assumption)+

lemma worker_ops_idle: "idle_op worker_checkpoint" "idle_op worker_flush" "idle_op worker_sync_data"
  unfolding worker_checkpoint_def worker_flush_def worker_sync_data_def by (intro idle)+

lemma idle_let [idle]: "(\<And>x. idle_op (\<lambda>f. b x f)) \<Longrightarrow> idle_op (\<lambda>f. let x = g f in b x f)"
  by (simp add: idle_op_def)

lemma preflush_idle: "idle_op preflush_active_generation"
  unfolding preflush_active_generation_def by (intro idle)

text \<open>A call of the worker whose operation leaves the files alone.\<close>

lemma worker_idle:
  assumes "worker_call gone dropped op p = (r, p')" and "idle_op op"
  shows "same_files (binlog p) (binlog p')" "same_runtime p p'"
  using assms(1) idleD [OF assms(2)] by (cases rule: worker_call_cases; auto)+

lemma preflush_spec:
  assumes "preflush p = (r, p')"
  shows "same_files (binlog p) (binlog p')" "same_runtime p p'"
proof -
  obtain q f where q: "preflush_active_generation (binlog p) = (q, f)" by (cases "preflush_active_generation (binlog p)")
  have "same_files (binlog p) f"
    by (rule idleD [OF preflush_idle q])
  with assms q show "same_files (binlog p) (binlog p')" "same_runtime p p'" by (auto simp: preflush_def)
qed

lemma cleanup_segments_spec:
  "cleanup_segments E w todo c f = (r, f') \<Longrightarrow> active_file f' = active_file f \<and> handle_open f' = handle_open f \<and>
    (\<exists>G. (\<forall>n \<in> G. n \<le> w) \<and> segments f' = filter (\<lambda>s. fst s \<notin> G) (segments f))"
proof (induction todo arbitrary: c f)
  case Nil
  then show ?case by (auto intro!: exI [of _ "{}"])
next
  case (Cons x todo)
  obtain n content where x: "x = (n, content)" by (cases x)
  let ?eff = "\<lambda>f :: managed_binlog. f\<lparr>segments := filter (\<lambda>s. fst s \<noteq> n) (segments f)\<rparr>"
  obtain q f1 where q: "os_call ?eff f = (q, f1)" by (cases "os_call ?eff f")
  consider "f' = f" | c' where "cleanup_segments E w todo c' f = (r, f')" | c' where "\<not> w < n" "cleanup_segments E w todo c' f1 = (r, f')"
    using Cons.prems q unfolding x by (auto split: if_splits sum.splits prod.splits)
  then show ?case
  proof cases
    case 3
    from Cons.IH [OF 3(2)] obtain G where G: "active_file f' = active_file f1" "handle_open f' = handle_open f1"
      "\<forall>n \<in> G. n \<le> w" "segments f' = filter (\<lambda>s. fst s \<notin> G) (segments f1)" by blast
    from q show ?thesis
    proof (cases rule: os_call_cases)
      case (ran cs)
      with G 3(1) show ?thesis by (intro conjI exI [of _ "insert n G"]) (auto simp: filter_filter intro: filter_cong)
    qed (use G in auto)
  qed (use Cons.IH in \<open>auto intro!: exI [of _ "{}"]\<close>)
qed

lemma refresh_spec:
  assumes "refresh_segment_catalog E p = (r, p')"
  shows "same_runtime p p'" "active_file (binlog p') = active_file (binlog p)" "handle_open (binlog p') = handle_open (binlog p)"
    "\<exists>G. (\<forall>n \<in> G. n \<le> snapshot_watermark p) \<and> segments (binlog p') = filter (\<lambda>s. fst s \<notin> G) (segments (binlog p))"
    "r = Inr c \<Longrightarrow> physical_segment_count p' = length (segments (binlog p'))"
proof -
  let ?w = "snapshot_watermark p"
  obtain q f where q: "cleanup_binlog_segments_through E ?w (binlog p) = (q, f)" by (cases "cleanup_binlog_segments_through E ?w (binlog p)")
  have goal: "active_file f = active_file (binlog p) \<and> handle_open f = handle_open (binlog p) \<and>
    (\<exists>G. (\<forall>n \<in> G. n \<le> ?w) \<and> segments f = filter (\<lambda>s. fst s \<notin> G) (segments (binlog p))) \<and> (\<forall>c. q = Inr c \<longrightarrow> remaining_files c = length (segments f))"
    using q unfolding cleanup_binlog_segments_through_def
  proof (cases rule: and_nextE)
    case (stop e)
    have "same_files (binlog p) f" using stop(1) by (rule idleD [rotated]) (intro idle)
    with stop show ?thesis by (auto simp: same_files_def intro!: exI [of _ "{}"])
  next
    case (go u f1)
    have s1: "same_files (binlog p) f1" using go(1) by (rule idleD [rotated]) (intro idle)
    from go(2) show ?thesis
    proof (cases rule: and_nextE)
      case (stop e)
      from cleanup_segments_spec [OF stop(1)] s1 stop show ?thesis by (simp add: same_files_def)
    next
      case (go c f2)
      note clean = cleanup_segments_spec [OF go(1)]
      have "same_files f2 f" using go(2) by (rule idleD [rotated]) (intro idle)
      moreover have "\<forall>c. q = Inr c \<longrightarrow> remaining_files c = length (segments f)" using go(2) by (auto elim!: and_nextE)
      ultimately have "same_files f2 f \<and> (\<forall>c. q = Inr c \<longrightarrow> remaining_files c = length (segments f))" by simp
      with clean s1 show ?thesis by (auto simp: same_files_def)
    qed
  qed
  then show "same_runtime p p'" "active_file (binlog p') = active_file (binlog p)" "handle_open (binlog p') = handle_open (binlog p)"
    "\<exists>G. (\<forall>n \<in> G. n \<le> ?w) \<and> segments (binlog p') = filter (\<lambda>s. fst s \<notin> G) (segments (binlog p))"
    "r = Inr c \<Longrightarrow> physical_segment_count p' = length (segments (binlog p'))"
    using assms q by (auto simp: refresh_segment_catalog_def apply_segment_catalog_cleanup_def split: sum.splits)
qed


lemma seal_generation_spec:
  assumes "seal_generation context_text p = Some (r, p')" and act: "active_file (binlog p) \<noteq> None"
  shows "fail_stop_started p' \<or> same_runtime p p' \<and> (same_files (binlog p) (binlog p') \<or>
    active_bytes (binlog p) \<noteq> [] \<and> active_file (binlog p') = Some [] \<and> physical_segment_count p < MAX_BINLOG_SEGMENTS \<and>
    segments (binlog p') = segments (binlog p) @ [(repl_offset p, active_bytes (binlog p))])"
proof -
  obtain x p1 where x: "binlog_seal_active (repl_offset p) p = (x, p1)" by (cases "binlog_seal_active (repl_offset p) p")
  note run = assms(1) [unfolded seal_generation_def x prod.case]
  from x [unfolded binlog_seal_active_def] show ?thesis
  proof (cases rule: worker_call_cases)
    case (1 c)
    then obtain e where "x = Inl e" "indeterminate e" by blast
    then show ?thesis using run by (auto simp: error_with_context_def enter_fail_stop_def persistence_indeterminate_def Let_def)
  next
    case (2 c q f)
    obtain y where y: "seal_active (repl_offset p) (binlog p) = (y, f)" "q = map_sum seal_failure id y"
      using 2(1) by (cases "seal_active (repl_offset p) (binlog p)") (auto simp: worker_seal_def)
    note seal = seal_spec [OF y(1) act]
    show ?thesis
    proof (cases "\<exists>e. x = Inl e \<and> indeterminate e")
      case True
      then show ?thesis using run by (auto simp: error_with_context_def enter_fail_stop_def persistence_indeterminate_def Let_def)
    next
      case definite: False
      then have xq: "x = map_sum into_persistence_error id (map_sum seal_failure id y)" using 2(3) y(2) by blast
      have p1: "same_runtime p p1" "binlog p1 = f" "physical_segment_count p1 = physical_segment_count p" using 2(2) by simp_all
      show ?thesis
      proof (cases y)
        case (Inl re)
        then obtain e where e: "re = Unchanged e" using definite xq by (cases re) (auto simp: into_persistence_error_def storage_indeterminate_def)
        have "x = Inl (into_persistence_error (seal_failure re))" using xq Inl by simp
        moreover have "\<not> indeterminate (into_persistence_error (seal_failure re))" using definite calculation by blast
        ultimately have "p' = p1" using run by (auto simp: error_with_context_def Let_def)
        with seal(2) [of e] Inl e p1 show ?thesis by simp
      next
        case (Inr n)
        then have "x = Inr n" using xq by simp
        then have rec: "record_sealed_segment n (p1\<lparr>active_binlog_bytes := 0\<rparr>) = Some p'" using run by auto
        have n: "n = length (active_bytes (binlog p))" using seal(3) [OF Inr] by simp
        have "same_runtime p p'" "binlog p' = f" "0 < n \<longrightarrow> physical_segment_count p < MAX_BINLOG_SEGMENTS"
          using rec p1 by (auto simp: record_sealed_segment_def split: if_splits)
        with seal(3) [OF Inr] n show ?thesis by (auto split: if_splits)
      qed
    qed
  qed
qed

end
