(* ===== verification/Server.thy ===== *)
theory Server
  imports Maintenance
begin

text \<open>
  The server's data path as a state machine: commit groups, expiry, rollover and the phases of a
  compaction in any interleaving the gates of the source allow, every call of the operating system
  failing or not. The result is that at every moment outside fail-stop the files on disk describe
  the live store, so that a crash there loses nothing.
\<close>

section \<open>The files on disk\<close>

text \<open>
  The directory of the server: the files of the binlog, which the runtime handles, and the others.
\<close>

definition binlog_files :: "managed_binlog \<Rightarrow> directory" where
  "binlog_files f = (case active_file f of None \<Rightarrow> [] | Some bs \<Rightarrow> [(BINLOG_PATH, bs)]) @ map (apfst binlog_segment) (segments f)"

definition on_disk :: "directory \<Rightarrow> managed_binlog \<Rightarrow> directory" where
  "on_disk d f = d @ binlog_files f"

definition plain_files :: "directory \<Rightarrow> bool" where
  "plain_files d \<longleftrightarrow> distinct (map fst d) \<and> list_all (\<lambda>(name, _). parse_binlog_segment_end_sequence name = Inr None \<and> name \<noteq> BINLOG_PATH) d"

text \<open>The binlog files hold the history \<open>segs\<close> in sealed segments and \<open>active\<close> in the active generation.\<close>

definition holds :: "env \<Rightarrow> managed_binlog \<Rightarrow> history list \<Rightarrow> history \<Rightarrow> bool" where
  "holds E f segs active \<longleftrightarrow> active_file f = Some (logged E active) \<and>
     segments f = map (\<lambda>seg. (segment_end seg, logged E seg)) segs \<and> [] \<notin> set segs \<and>
     length segs \<le> MAX_BINLOG_SEGMENTS \<and> loggable E (concat segs @ active)"

lemma holds_now [simp]: "holds (E\<lparr>now := t\<rparr>) = holds E"
  by (simp add: holds_def fun_eq_iff)

lemma holds_bytes: "holds E f segs active \<Longrightarrow> active_bytes f = logged E active"
  by (simp add: holds_def)

lemma plain_lookup:
  assumes "plain_files d" and "parse_binlog_segment_end_sequence name \<noteq> Inr None \<or> name = BINLOG_PATH"
  shows "map_of d name = None"
  using assms by (fastforce simp: plain_files_def list_all_iff map_of_eq_None_iff)

lemma contiguous_ordered: "contiguous previous (concat segs @ active) \<Longrightarrow> sorted_wrt (\<lambda>x y. fst x < fst y) (concat segs)"
  by (drule contiguous_sorted) (simp add: sorted_wrt_append)

lemma segment_names:
  assumes "holds E f segs active" and "sorted_wrt (\<lambda>x y. fst x < fst y) (concat segs)"
  shows "distinct (map (binlog_segment \<circ> segment_end) segs)"
    and "seg \<in> set segs \<Longrightarrow> parse_binlog_segment_end_sequence (binlog_segment (segment_end seg)) = Inr (Some (segment_end seg))"
proof -
  have parse: "parse_binlog_segment_end_sequence (binlog_segment (segment_end seg)) = Inr (Some (segment_end seg))" if "seg \<in> set segs" for seg
    using assms(1) that by (intro segment_parse) (auto simp: holds_def loggable_concat)
  then show "seg \<in> set segs \<Longrightarrow> parse_binlog_segment_end_sequence (binlog_segment (segment_end seg)) = Inr (Some (segment_end seg))" .
  from assms(2) have "sorted_wrt (<) (map segment_end segs)" using assms(1) by (intro segment_ends_sorted) (simp_all add: holds_def)
  then have "distinct (map segment_end segs)" by (simp add: strict_sorted_iff)
  moreover have "inj_on binlog_segment (segment_end ` set segs)"
    using parse by (intro inj_onI) (metis (no_types, lifting) image_iff sum.inject(2) option.inject)
  ultimately show "distinct (map (binlog_segment \<circ> segment_end) segs)"
    by (simp add: distinct_map comp_inj_on)
qed

lemma on_disk_history:
  assumes "holds E f segs active" and "plain_files d" and "sorted_wrt (\<lambda>x y. fst x < fst y) (concat segs)"
  shows "history_at E (on_disk d f) segs active []"
proof -
  note n = segment_names [OF assms(1,3)]
  have f: "binlog_files f = (BINLOG_PATH, logged E active) # map (\<lambda>seg. (binlog_segment (segment_end seg), logged E seg)) segs"
    using assms(1) by (simp add: binlog_files_def holds_def)
  have names: "map fst (on_disk d f) = map fst d @ BINLOG_PATH # map (binlog_segment \<circ> segment_end) segs"
    by (simp add: on_disk_def f comp_def)
  have "binlog_segment (segment_end seg) \<noteq> BINLOG_PATH" if "seg \<in> set segs" for seg using n(2) [OF that] paths_parse(1) by auto
  then have apart: "BINLOG_PATH \<notin> (binlog_segment \<circ> segment_end) ` set segs" by fastforce
  have plain: "name \<notin> set (map fst d)" if "parse_binlog_segment_end_sequence name \<noteq> Inr None \<or> name = BINLOG_PATH" for name
    using plain_lookup [OF assms(2) that] by (simp add: map_of_eq_None_iff)
  show ?thesis unfolding history_at_def list_all_iff
  proof (intro conjI ballI)
    have "set (map fst d) \<inter> set (BINLOG_PATH # map (binlog_segment \<circ> segment_end) segs) = {}"
    proof -
      have "x \<notin> set (map fst d)" if "x \<in> insert BINLOG_PATH ((binlog_segment \<circ> segment_end) ` set segs)" for x
        using that
      proof
        assume "x = BINLOG_PATH"
        then show ?thesis by (intro plain disjI2)
      next
        assume "x \<in> (binlog_segment \<circ> segment_end) ` set segs"
        then obtain seg where "seg \<in> set segs" "x = binlog_segment (segment_end seg)" unfolding comp_def by (elim imageE)
        with n(2) show ?thesis by (intro plain disjI1) simp
      qed
      then show ?thesis unfolding disjoint_iff list.set set_map by blast
    qed
    moreover have "distinct (map fst d)" using assms(2) by (simp add: plain_files_def)
    ultimately show "distinct (map fst (on_disk d f))" unfolding names distinct_append using n(1) apart by (simp add: image_comp)
    show "map_of (on_disk d f) BINLOG_PATH = Some (logged E active @ [])"
      using plain_lookup [OF assms(2), of BINLOG_PATH] by (simp add: on_disk_def f map_add_def)
  next
    fix seg assume seg: "seg \<in> set segs"
    then show "seg \<noteq> []" using assms(1) by (auto simp: holds_def)
    have "map_of (map (\<lambda>seg. (binlog_segment (segment_end seg), logged E seg)) segs) (binlog_segment (segment_end seg)) = Some (logged E seg)"
      by (rule map_of_is_SomeI) (use n(1) seg in \<open>auto simp: comp_def\<close>)
    then show "map_of (on_disk d f) (binlog_segment (segment_end seg)) = Some (logged E seg)"
      using plain_lookup [OF assms(2), of "binlog_segment (segment_end seg)"] n(2) [OF seg] paths_parse(1)
      by (auto simp: on_disk_def f map_add_def)
  next
    fix x assume "x \<in> set (on_disk d f)"
    then show "case x of (name, _) \<Rightarrow> parse_binlog_segment_end_sequence name = Inr None \<or> name \<in> (binlog_segment \<circ> segment_end) ` set segs"
      using assms(2) paths_parse(1) by (auto simp: on_disk_def f plain_files_def list_all_iff)
  qed (use assms(1) in \<open>simp_all add: holds_def\<close>)
qed

lemma on_disk_snapshot:
  assumes "holds E f segs active" and "sorted_wrt (\<lambda>x y. fst x < fst y) (concat segs)"
  shows "current_snapshot (on_disk d f) = current_snapshot d"
proof -
  have "map_of (binlog_files f) name = None" if "name = SNAPSHOT_PATH \<or> name = SNAPSHOT_BACKUP_PATH" for name
  proof -
    have "name \<noteq> binlog_segment (segment_end seg)" if "seg \<in> set segs" for seg
      using segment_names(2) [OF assms that] paths_parse(4,5) \<open>name = SNAPSHOT_PATH \<or> name = SNAPSHOT_BACKUP_PATH\<close> by auto
    moreover have "name \<noteq> BINLOG_PATH" using that by (auto simp: paths)
    ultimately show ?thesis using assms(1) by (force simp: map_of_eq_None_iff binlog_files_def holds_def)
  qed
  then have "map_of (binlog_files f) SNAPSHOT_PATH = None" "map_of (binlog_files f) SNAPSHOT_BACKUP_PATH = None" by blast+
  then show ?thesis by (simp add: current_snapshot_def on_disk_def map_add_def split: option.splits)
qed

section \<open>Descriptions of the live store\<close>

text \<open>The part of \<open>durable\<close> that does not mention files.\<close>

definition describes :: "env \<Rightarrow> snapshot_image \<Rightarrow> history \<Rightarrow> store \<Rightarrow> u64 \<Rightarrow> bool" where
  "describes E s log st offset \<longleftrightarrow>
     (\<exists>q. contiguous (Some q) log \<and> q \<le> image_watermark s \<and> image_watermark s \<le> offset \<and> last_of (Some q) log = Some offset) \<and>
     (\<forall>t k. now E \<le> t \<longrightarrow> same_entry (recovered_content (E\<lparr>now := t\<rparr>) s log k) (pview (E\<lparr>now := t\<rparr>) st k))"

lemma durable_iff: "durable Z E d s segs active st p \<longleftrightarrow> snapshot_at Z E d s \<and> history_at E d segs active [] \<and> store_wf st \<and>
    active_bytes (binlog p) = logged E active \<and> describes E s (concat segs @ active) st (repl_offset p)"
  unfolding durable_def describes_def by blast

lemma describes_later: "describes E s log st offset \<Longrightarrow> now E \<le> t \<Longrightarrow> describes (E\<lparr>now := t\<rparr>) s log st offset"
  unfolding describes_def by (auto intro: order_trans)

lemma describes_agrees:
  assumes "describes E s log st offset" and "\<And>E'. now E \<le> now E' \<Longrightarrow> agrees E' st st'"
  shows "describes E s log st' offset"
proof -
  have "same_entry (pview (E\<lparr>now := t\<rparr>) st k) (pview (E\<lparr>now := t\<rparr>) st' k)" if "now E \<le> t" for t k
    using assms(2) [of "E\<lparr>now := t\<rparr>"] that by (simp add: agrees_def)
  with assms(1) show ?thesis unfolding describes_def by (blast intro: same_entry_trans)
qed

lemma effects_cong: "(\<And>k. same_entry (m k) (m' k)) \<Longrightarrow> same_entry (fold (effect_update E) es m k) (fold (effect_update E) es m' k)"
proof (induction es arbitrary: m m')
  case (Cons x es)
  have "same_entry (effect_update E x m k) (effect_update E x m' k)" for k
    using Cons.prems by (cases x) (simp_all add: same_entry_def)
  then show ?case using Cons.IH by simp
qed simp

lemma describes_commit:
  assumes d: "describes E s log st (repl_offset p)" and g: "group_committed E st p results st' p'" and wf: "store_wf st"
  obtains batches where "published p' = published p @ batches" "describes E s (log @ batches) st' (repl_offset p')"
    "active_bytes (binlog p') = active_bytes (binlog p) @ logged E batches" "segments (binlog p') = segments (binlog p)"
    "\<forall>(sequence, b) \<in> set batches. \<exists>x. encode_committed_batch E b = Inr x \<and> binlog_ok sequence x"
proof -
  from d obtain q where q: "contiguous (Some q) log" "q \<le> image_watermark s" "image_watermark s \<le> repl_offset p" "last_of (Some q) log = Some (repl_offset p)"
    and eq: "\<And>t k. now E \<le> t \<Longrightarrow> same_entry (recovered_content (E\<lparr>now := t\<rparr>) s log k) (pview (E\<lparr>now := t\<rparr>) st k)"
    unfolding describes_def by blast
  from g obtain batches where b: "numbered (repl_offset p) (map snd batches) = Some batches" "published p' = published p @ batches"
      "repl_offset p' = (if batches = [] then repl_offset p else fst (last batches))"
      "active_bytes (binlog p') = active_bytes (binlog p) @ log_bytes E (encoded E batches)" "segments (binlog p') = segments (binlog p)"
      "\<forall>(sequence, b) \<in> set batches. \<exists>x. encode_committed_batch E b = Inr x \<and> binlog_ok sequence x"
    and rep: "\<And>E' rep. now E \<le> now E' \<Longrightarrow> store_wf rep \<Longrightarrow> agrees E' rep st \<Longrightarrow> agrees E' (replay E' (map snd batches) rep) st'"
    unfolding group_committed_def by blast
  note num = contiguous_numbered [OF b(1)]
  have cont: "contiguous (Some q) (log @ batches)" using q num contiguous_append [of "Some q" log batches] by simp
  have last: "last_of (Some q) (log @ batches) = Some (repl_offset p')"
  proof -
    have "last_of (Some q) (log @ batches) = last_of (Some (repl_offset p)) batches" using last_of_append [of "Some q" log batches] by (simp only: q(4))
    also have "\<dots> = Some (repl_offset p')" using b(3) by (simp add: last_of_def)
    finally show ?thesis .
  qed
  have le: "repl_offset p \<le> repl_offset p'"
    using b(3) contiguous_sorted [OF conjunct1 [OF num]] by (cases "batches = []") (auto intro: less_imp_le)
  have "same_entry (recovered_content (E\<lparr>now := t\<rparr>) s (log @ batches) k) (pview (E\<lparr>now := t\<rparr>) st' k)" if t: "now E \<le> t" for t k
  proof -
    let ?E = "E\<lparr>now := t\<rparr>"
    have "agrees ?E st st" by (simp add: agrees_def same_entry_def)
    with rep [of ?E st] wf t have a: "agrees ?E (replay ?E (map snd batches) st) st'" by simp
    have "recovered_content ?E s (log @ batches) = fold (effect_update ?E) (concat (map effects (map snd batches))) (recovered_content ?E s log)"
      using replayed_append [OF conjunct1 [OF num] q(3), of log] by (simp add: recovered_content_def)
    moreover have "pview ?E (replay ?E (map snd batches) st) = fold (effect_update ?E) (concat (map effects (map snd batches))) (pview ?E st)"
      using apply_batches_view [OF wf, of ?E "map snd batches"] by (simp add: replay_def)
    ultimately have "same_entry (recovered_content ?E s (log @ batches) k) (pview ?E (replay ?E (map snd batches) st) k)"
      using effects_cong [OF eq [OF t]] by simp
    with a show ?thesis unfolding agrees_def by (blast intro: same_entry_trans)
  qed
  moreover have "image_watermark s \<le> repl_offset p'" using q(3) le by simp
  ultimately have "describes E s (log @ batches) st' (repl_offset p')" unfolding describes_def using cont q(2) last by blast
  with that b show thesis by (simp add: logged_def)
qed

text \<open>A snapshot image that could be on disk.\<close>

definition image_ok :: "env \<Rightarrow> snapshot_image \<Rightarrow> bool" where
  "image_ok E s \<longleftrightarrow> list_all (entry_encodable E) (image_entries s) \<and> distinct (map fst (image_entries s))"


section \<open>The server\<close>

datatype compaction_phase = Idle | Captured compaction_capture | Installed compaction_capture

record server =
  clock :: env
  live_data :: store
  pers :: persistence
  files :: directory
  compaction :: compaction_phase

definition image_of :: "compaction_capture \<Rightarrow> snapshot_image" where
  "image_of c = Some (capture_watermark c, capture_entries c)"

text \<open>
  One step of the server outside fail-stop. The calls of the operating system that a step makes fail
  as the choices in the binlog, or the list \<open>cs\<close> for the other files, say; \<open>partial\<close> and \<open>left\<close> are
  what failed writes leave behind; the status \<open>S\<close> has the counters that \<open>INFO\<close> shows. Three premises exclude what the source does not guard against:
  a rejected group must not have removed the sealed segments, a cleanup must remove segments from the
  oldest on, and the data must survive its encoding.
\<close>

inductive server_step :: "compression \<Rightarrow> server \<Rightarrow> server \<Rightarrow> bool" for Z where
  tick: "\<not> fail_stop_started (pers v) \<Longrightarrow> now (clock v) \<le> t \<Longrightarrow> server_step Z v (v\<lparr>clock := (clock v)\<lparr>now := t\<rparr>\<rparr>)"
| expire: "\<not> fail_stop_started (pers v) \<Longrightarrow>
    server_step Z v (v\<lparr>live_data := snd (store_gc_expired (clock v) (live_data v))\<rparr>)"
| read: "\<not> fail_stop_started (pers v) \<Longrightarrow> \<not> is_write_command (arg_at 0 args) \<Longrightarrow>
    server_step Z v (v\<lparr>live_data := snd (server_execute_command S (clock v) args (live_data v))\<rparr>)"
| fetch: "\<not> fail_stop_started (pers v) \<Longrightarrow> server_step Z v (v\<lparr>live_data := snd (on_engine (engine_get (clock v) key) (live_data v))\<rparr>)"
| commit: "\<not> fail_stop_started (pers v) \<Longrightarrow> sorted (now (clock v) # map fst requests @ [t]) \<Longrightarrow>
    process_commit_group S ((clock v)\<lparr>now := t\<rparr>) (map (apfst (\<lambda>t. (clock v)\<lparr>now := t\<rparr>)) requests) (live_data v) (pers v) = Some (results, st, p) \<Longrightarrow>
    list_all (\<lambda>x. list_all (effect_encodable (clock v)) (effects (snd x))) (drop (length (published (pers v))) (published p)) \<Longrightarrow>
    segments (binlog p) = segments (binlog (pers v)) \<Longrightarrow>
    server_step Z v (v\<lparr>clock := (clock v)\<lparr>now := t\<rparr>, live_data := st, pers := p\<rparr>)"
| periodic_sync: "\<not> fail_stop_started (pers v) \<Longrightarrow> run_periodic_sync_once (pers v) = (r, p) \<Longrightarrow> server_step Z v (v\<lparr>pers := p\<rparr>)"
| rollover: "\<not> fail_stop_started (pers v) \<Longrightarrow> rollover_generation_owned (clock v) (pers v) = Some (r, p) \<Longrightarrow>
    suffix (segments (binlog (snd (refresh_segment_catalog (clock v) (pers v))))) (segments (binlog (pers v))) \<Longrightarrow>
    server_step Z v (v\<lparr>pers := p\<rparr>)"
| capture_failed: "\<not> fail_stop_started (pers v) \<Longrightarrow> compaction v = Idle \<Longrightarrow> compact_capture (clock v) (live_data v) (pers v) = Some (Inl e, st, p) \<Longrightarrow>
    suffix (segments (binlog (snd (refresh_segment_catalog (clock v) (pers v))))) (segments (binlog (pers v))) \<Longrightarrow>
    server_step Z v (v\<lparr>live_data := st, pers := p\<rparr>)"
| capture: "\<not> fail_stop_started (pers v) \<Longrightarrow> compaction v = Idle \<Longrightarrow> compact_capture (clock v) (live_data v) (pers v) = Some (Inr c, st, p) \<Longrightarrow>
    suffix (segments (binlog (snd (refresh_segment_catalog (clock v) (pers v))))) (segments (binlog (pers v))) \<Longrightarrow>
    list_all (entry_encodable (clock v)) (capture_entries c) \<Longrightarrow>
    server_step Z v (v\<lparr>live_data := st, pers := p, compaction := Captured c\<rparr>)"
| close_snapshot: "\<not> fail_stop_started (pers v) \<Longrightarrow> finish_snapshot (store_engine (live_data v)) = Some e \<Longrightarrow>
    server_step Z v (v\<lparr>live_data := (live_data v)\<lparr>store_engine := e\<rparr>\<rparr>)"
| install: "\<not> fail_stop_started (pers v) \<Longrightarrow> compaction v = Captured c \<Longrightarrow>
    compact_write Z (clock v) partial c (cs, files v) = (r, cs', d) \<Longrightarrow>
    server_step Z v (v\<lparr>files := d, compaction := (if r = Inr () then Installed c else Idle)\<rparr>)"
| finish: "\<not> fail_stop_started (pers v) \<Longrightarrow> compaction v = Installed c \<Longrightarrow>
    compact_finish left upstream c (cs, files v) (pers v) = (r, (cs', d), p) \<Longrightarrow>
    server_step Z v (v\<lparr>files := d, pers := p, compaction := Idle\<rparr>)"
| cleanup: "\<not> fail_stop_started (pers v) \<Longrightarrow> suffix (segments (binlog (compact_cleanup (clock v) (pers v)))) (segments (binlog (pers v))) \<Longrightarrow>
    server_step Z v (v\<lparr>pers := compact_cleanup (clock v) (pers v)\<rparr>)"

section \<open>The invariant\<close>

definition phase_ok :: "env \<Rightarrow> history \<Rightarrow> store \<Rightarrow> persistence \<Rightarrow> snapshot_image \<Rightarrow> compaction_phase \<Rightarrow> bool" where
  "phase_ok E log st p s ph = (case ph of
      Idle \<Rightarrow> True
    | Captured c \<Rightarrow> image_ok E (image_of c) \<and> describes E (image_of c) log st (repl_offset p) \<and> snapshot_watermark p \<le> capture_watermark c
    | Installed c \<Rightarrow> capture_watermark c \<le> image_watermark s)"

definition safe_with :: "compression \<Rightarrow> server \<Rightarrow> snapshot_image \<Rightarrow> history list \<Rightarrow> history \<Rightarrow> bool" where
  "safe_with Z v s segs active \<longleftrightarrow> plain_files (files v) \<and> holds (clock v) (binlog (pers v)) segs active \<and>
     snapshot_at Z (clock v) (files v) s \<and> store_wf (live_data v) \<and>
     describes (clock v) s (concat segs @ active) (live_data v) (repl_offset (pers v)) \<and>
     snapshot_watermark (pers v) \<le> image_watermark s \<and>
     phase_ok (clock v) (concat segs @ active) (live_data v) (pers v) s (compaction v)"

definition safe :: "compression \<Rightarrow> server \<Rightarrow> bool" where
  "safe Z v \<longleftrightarrow> fail_stop_started (pers v) \<or> (\<exists>s segs active. safe_with Z v s segs active)"

lemma image_of_simps [simp]: "image_watermark (image_of c) = capture_watermark c" "image_entries (image_of c) = capture_entries c"
  by (simp_all add: image_of_def image_watermark_def image_entries_def)

lemma image_ok_now [simp]: "image_ok (E\<lparr>now := t\<rparr>) = image_ok E"
  by (simp add: image_ok_def fun_eq_iff)

text \<open>The live store changes without a record: the changes must be invisible from now on.\<close>

lemma phase_agrees:
  assumes "phase_ok E log st p s ph" and "\<And>E'. now E \<le> now E' \<Longrightarrow> agrees E' st st'"
  shows "phase_ok E log st' p s ph"
  using assms(1) describes_agrees [OF _ assms(2)] by (cases ph) (auto simp: phase_ok_def)

lemma safe_live:
  assumes "safe_with Z v s segs active" and "\<And>E'. now (clock v) \<le> now E' \<Longrightarrow> agrees E' (live_data v) st" and "store_wf st"
  shows "safe_with Z (v\<lparr>live_data := st\<rparr>) s segs active"
  using assms(1,3) describes_agrees [OF _ assms(2)] phase_agrees [OF _ assms(2)] unfolding safe_with_def by simp

lemma contents_agrees:
  assumes "\<And>k. alive E (contents (store_engine st') k) = alive E (contents (store_engine st) k)" and "now E \<le> now E'"
  shows "agrees E' st st'"
proof -
  have "pview E st' = pview E st" by (simp add: pview_def view_alive assms(1) fun_eq_iff)
  then show ?thesis by (simp add: agrees_def same_entry_def pview_later [OF assms(2)])
qed

lemma phase_later: "phase_ok E log st p s ph \<Longrightarrow> now E \<le> t \<Longrightarrow> phase_ok (E\<lparr>now := t\<rparr>) log st p s ph"
  by (cases ph) (auto simp: phase_ok_def describes_later)

lemma safe_later: "safe_with Z v s segs active \<Longrightarrow> now (clock v) \<le> t \<Longrightarrow> safe_with Z (v\<lparr>clock := (clock v)\<lparr>now := t\<rparr>\<rparr>) s segs active"
  unfolding safe_with_def by (simp add: describes_later phase_later)

text \<open>The runtime changes, but neither the binlog files nor what the commit path reads of it.\<close>

lemma holds_same: "holds E f segs active \<Longrightarrow> same_files f f' \<Longrightarrow> holds E f' segs active"
  by (simp add: holds_def same_files_def)

lemma safe_runtime:
  assumes "safe_with Z v s segs active" and "same_runtime (pers v) p" and "holds (clock v) (binlog p) segs active"
  shows "safe_with Z (v\<lparr>pers := p\<rparr>) s segs active"
proof -
  have "phase_ok E log st (pers v) s ph \<Longrightarrow> phase_ok E log st p s ph" for E log st ph
    using assms(2) by (cases ph) (auto simp: phase_ok_def same_runtime_def)
  with assms show ?thesis unfolding safe_with_def same_runtime_def by simp
qed


section \<open>Sealing and cleaning up\<close>

lemma describes_drop:
  assumes "describes E s (xs @ ys) st offset" and "\<forall>x \<in> set xs. fst x \<le> image_watermark s"
  shows "describes E s ys st offset"
proof -
  from assms(1) obtain q where q: "contiguous (Some q) (xs @ ys)" "q \<le> image_watermark s" "image_watermark s \<le> offset"
      "last_of (Some q) (xs @ ys) = Some offset"
    and eq: "\<And>t k. now E \<le> t \<Longrightarrow> same_entry (recovered_content (E\<lparr>now := t\<rparr>) s (xs @ ys) k) (pview (E\<lparr>now := t\<rparr>) st k)"
    unfolding describes_def by blast
  let ?q = "if xs = [] then q else fst (last xs)"
  have last: "last_of (Some q) xs = Some ?q" by (simp add: last_of_def)
  have "contiguous (Some ?q) ys" "last_of (Some ?q) ys = Some offset"
    using q(1,4) contiguous_append [of "Some q" xs ys] last_of_append [of "Some q" xs ys] by (simp_all only: last)
  moreover have "?q \<le> image_watermark s" using q(2) assms(2) by simp
  moreover have "filter (\<lambda>x. image_watermark s < fst x) xs = []" using assms(2) by (simp add: filter_empty_conv not_less)
  then have "replayed_batches (image_watermark s) (xs @ ys) = replayed_batches (image_watermark s) ys" by (simp add: replayed_batches_def)
  then have "recovered_content (E\<lparr>now := t\<rparr>) s (xs @ ys) = recovered_content (E\<lparr>now := t\<rparr>) s ys" for t by (simp add: recovered_content_def)
  ultimately show ?thesis unfolding describes_def using q(3) eq by metis
qed

lemma covered_records:
  assumes "contiguous previous (concat segs @ active)" and "seg \<in> set segs" and "segment_end seg \<le> w" and "x \<in> set seg"
  shows "fst x \<le> w"
proof -
  have "contiguous None seg" by (rule contiguous_segment [OF assms(1,2)])
  then have "fst x \<le> segment_end seg" unfolding segment_end_def
    using sorted_last [OF conjunct1 [OF contiguous_sorted] assms(4)] by blast
  with assms(3) show ?thesis by simp
qed

lemma describes_contiguous: "describes E s log st offset \<Longrightarrow> \<exists>q. contiguous (Some q) log"
  unfolding describes_def by blast

lemma describes_uncover:
  assumes "describes E s (concat segs @ active) st offset" and "\<forall>seg \<in> set (take n segs). segment_end seg \<le> w" and "w \<le> image_watermark s"
  shows "describes E s (concat (drop n segs) @ active) st offset"
proof (rule describes_drop)
  have "concat segs = concat (take n segs) @ concat (drop n segs)" by (metis append_take_drop_id concat_append)
  then show "describes E s (concat (take n segs) @ concat (drop n segs) @ active) st offset" using assms(1) by simp
  obtain q where "contiguous (Some q) (concat segs @ active)" using describes_contiguous [OF assms(1)] by blast
  with assms(2,3) show "\<forall>x \<in> set (concat (take n segs)). fst x \<le> image_watermark s"
    using covered_records by (fastforce dest: in_set_takeD)
qed

lemma dropped_covered:
  assumes "suffix (filter (\<lambda>x. f x \<notin> G) xs) xs" and "distinct (map f xs)"
  obtains n where "filter (\<lambda>x. f x \<notin> G) xs = drop n xs" "\<forall>x \<in> set (take n xs). f x \<in> G"
proof -
  define ys where "ys = filter (\<lambda>x. f x \<notin> G) xs"
  from assms(1) obtain zs where zs: "xs = zs @ ys" unfolding suffix_def ys_def [symmetric] by blast
  have "f x \<in> G" if x: "x \<in> set zs" for x
  proof (rule ccontr)
    assume "f x \<notin> G"
    moreover have "x \<in> set xs" using x zs by simp
    ultimately have "x \<in> set ys" by (simp add: ys_def)
    moreover have "distinct xs" using assms(2) by (simp add: distinct_map)
    ultimately show False using x unfolding zs by auto
  qed
  moreover have "ys = drop (length zs) xs" "take (length zs) xs = zs" by (simp_all add: zs)
  ultimately show thesis using that [of "length zs"] unfolding ys_def by simp
qed

lemma refresh_holds:
  fixes p :: persistence
  assumes "holds E (binlog p) segs active" and "contiguous previous (concat segs @ active)" and "refresh_segment_catalog E' p = (r, p')"
    and "suffix (segments (binlog p')) (segments (binlog p))"
  obtains n where "holds E (binlog p') (drop n segs) active" "\<forall>seg \<in> set (take n segs). segment_end seg \<le> snapshot_watermark p"
proof -
  note ref = refresh_spec [OF assms(3)]
  from ref(4) obtain G where G: "\<forall>n \<in> G. n \<le> snapshot_watermark p" "segments (binlog p') = filter (\<lambda>s. fst s \<notin> G) (segments (binlog p))" by blast
  have h: "segments (binlog p) = map (\<lambda>seg. (segment_end seg, logged E seg)) segs" "active_file (binlog p) = Some (logged E active)" "[] \<notin> set segs"
    "length segs \<le> MAX_BINLOG_SEGMENTS" "loggable E (concat segs @ active)" using assms(1) by (simp_all add: holds_def)
  have "distinct (map segment_end segs)"
    using segment_names(1) [OF assms(1) contiguous_ordered [OF assms(2)]] by (metis distinct_map map_map)
  then have "distinct (map fst (segments (binlog p)))" by (simp add: h(1) comp_def)
  from dropped_covered [OF assms(4) [unfolded G(2)] this] obtain n where n: "segments (binlog p') = drop n (segments (binlog p))"
    "\<forall>x \<in> set (take n (segments (binlog p))). fst x \<in> G" using G(2) by metis
  have "loggable E (concat (drop n segs) @ active)"
    using h(5) unfolding loggable_append loggable_concat by (blast dest: in_set_dropD)
  moreover have "[] \<notin> set (drop n segs)" using h(3) by (blast dest: in_set_dropD)
  ultimately have "holds E (binlog p') (drop n segs) active"
    unfolding holds_def using n(1) h ref(2) by (simp add: drop_map)
  moreover have "\<forall>seg \<in> set (take n segs). segment_end seg \<le> snapshot_watermark p"
    using n(2) G(1) unfolding h(1) take_map by auto
  ultimately show thesis by (rule that)
qed

lemma safe_refresh:
  assumes safe: "safe_with Z v s segs active" and run: "refresh_segment_catalog E' (pers v) = (r, p')"
    and suf: "suffix (segments (binlog p')) (segments (binlog (pers v)))"
  obtains n where "safe_with Z (v\<lparr>pers := p'\<rparr>) s (drop n segs) active"
proof -
  have s: "plain_files (files v)" "holds (clock v) (binlog (pers v)) segs active" "snapshot_at Z (clock v) (files v) s" "store_wf (live_data v)"
      "describes (clock v) s (concat segs @ active) (live_data v) (repl_offset (pers v))" "snapshot_watermark (pers v) \<le> image_watermark s"
      "phase_ok (clock v) (concat segs @ active) (live_data v) (pers v) s (compaction v)"
    using safe unfolding safe_with_def by blast+
  note ref = refresh_spec [OF run]
  obtain q where "contiguous (Some q) (concat segs @ active)" using describes_contiguous [OF s(5)] by blast
  from refresh_holds [OF s(2) this run suf] obtain n where n: "holds (clock v) (binlog p') (drop n segs) active"
    "\<forall>seg \<in> set (take n segs). segment_end seg \<le> snapshot_watermark (pers v)" .
  have rt: "repl_offset p' = repl_offset (pers v)" "snapshot_watermark p' = snapshot_watermark (pers v)" using ref(1) by (simp_all add: same_runtime_def)
  have "phase_ok (clock v) (concat (drop n segs) @ active) (live_data v) p' s (compaction v)"
    using s(7) describes_uncover [OF _ n(2)] rt by (cases "compaction v") (auto simp: phase_ok_def)
  moreover have "describes (clock v) s (concat (drop n segs) @ active) (live_data v) (repl_offset p')"
    using describes_uncover [OF s(5) n(2) s(6)] rt by simp
  ultimately have "safe_with Z (v\<lparr>pers := p'\<rparr>) s (drop n segs) active"
    unfolding safe_with_def using s n(1) rt by simp
  then show thesis by (rule that)
qed

lemma safe_seal:
  assumes safe: "safe_with Z v s segs active" and run: "seal_generation context_text (pers v) = Some (r, p')"
    and count: "physical_segment_count (pers v) = length (segments (binlog (pers v)))" and up: "\<not> fail_stop_started p'"
  shows "\<exists>segs' active'. safe_with Z (v\<lparr>pers := p'\<rparr>) s segs' active'"
proof -
  have s: "holds (clock v) (binlog (pers v)) segs active"
      "describes (clock v) s (concat segs @ active) (live_data v) (repl_offset (pers v))"
    using safe unfolding safe_with_def by blast+
  then have h: "segments (binlog (pers v)) = map (\<lambda>seg. (segment_end seg, logged (clock v) seg)) segs" "active_file (binlog (pers v)) = Some (logged (clock v) active)"
    "[] \<notin> set segs" "loggable (clock v) (concat segs @ active)" by (simp_all add: holds_def)
  have "active_file (binlog (pers v)) \<noteq> None" using h(2) by simp
  from seal_generation_spec [OF run this] up have same: "same_runtime (pers v) p'" and
    out: "same_files (binlog (pers v)) (binlog p') \<or> active_bytes (binlog (pers v)) \<noteq> [] \<and> active_file (binlog p') = Some [] \<and>
      physical_segment_count (pers v) < MAX_BINLOG_SEGMENTS \<and>
      segments (binlog p') = segments (binlog (pers v)) @ [(repl_offset (pers v), active_bytes (binlog (pers v)))]" by blast+
  from out show ?thesis
  proof
    assume "same_files (binlog (pers v)) (binlog p')"
    from safe_runtime [OF safe same holds_same [OF s(1) this]] show ?thesis by blast
  next
    assume sealed: "active_bytes (binlog (pers v)) \<noteq> [] \<and> active_file (binlog p') = Some [] \<and>
      physical_segment_count (pers v) < MAX_BINLOG_SEGMENTS \<and>
      segments (binlog p') = segments (binlog (pers v)) @ [(repl_offset (pers v), active_bytes (binlog (pers v)))]"
    have ne: "active \<noteq> []" using sealed h(2) by (auto simp: logged_def log_bytes_def encoded_def)
    obtain q where "last_of (Some q) (concat segs @ active) = Some (repl_offset (pers v))" using s(2) unfolding describes_def by blast
    then have "last_of (last_of (Some q) (concat segs)) active = Some (repl_offset (pers v))" by (simp only: last_of_append)
    then have off: "repl_offset (pers v) = segment_end active" using ne by (simp add: last_of_def segment_end_def)
    have new: "holds (clock v) (binlog p') (segs @ [active]) []"
      unfolding holds_def using sealed h ne off count by (simp add: logged_def log_bytes_def encoded_def)
    have "safe_with Z (v\<lparr>pers := p'\<rparr>) s (segs @ [active]) []"
    proof -
      have "phase_ok (clock v) (concat segs @ active) (live_data v) p' s (compaction v)"
        using safe same unfolding safe_with_def by (cases "compaction v") (auto simp: phase_ok_def same_runtime_def)
      with safe same new show ?thesis unfolding safe_with_def same_runtime_def by simp
    qed
    then show ?thesis by blast
  qed
qed


section \<open>Every step keeps the invariant\<close>

lemma accept_keeps:
  fixes p :: persistence
  assumes "accept_next_batches E batches n p = (r, p')"
  shows "snapshot_watermark p' = snapshot_watermark p" "active_file (binlog p) \<noteq> None \<Longrightarrow> active_file (binlog p') \<noteq> None"
proof -
  obtain x p1 where x: "append_batches E batches p = (x, p1)" by (cases "append_batches E batches p")
  have p1: "snapshot_watermark p1 = snapshot_watermark p \<and> (active_file (binlog p) \<noteq> None \<longrightarrow> active_file (binlog p1) \<noteq> None)"
  proof (cases "batches = [] \<or> (\<exists>e. encode_batches E batches = Inl e)")
    case True
    then have "p1 = p" using x by (auto simp: append_batches_def split: if_splits)
    then show ?thesis by simp
  next
    case False
    then obtain records where "encode_batches E batches = Inr records" by (cases "encode_batches E batches") auto
    with False x have run: "append_records E records p = (x, p1)" by (simp add: append_batches_def)
    obtain fate p2 where fate: "next_fate p = (fate, p2)" by (cases "next_fate p")
    then obtain c where p2: "p2 = p\<lparr>channel := c\<rparr>" by (cases p) (auto simp: next_fate_def split: list.splits)
    obtain y f where y: "append_binlog_records E records (fsync p2) (binlog p2) = (y, f)" by (cases "append_binlog_records E records (fsync p2) (binlog p2)")
    have "active_file (binlog p2) \<noteq> None \<longrightarrow> active_file f \<noteq> None" using keepsD [OF keeps_append y] by blast
    moreover have "p1 = p \<or> p1 = p2 \<or> p1 = p2\<lparr>binlog := f\<rparr>"
      using run fate y by (cases fate) (auto simp: append_records_def split: sum.splits)
    ultimately show ?thesis using p2 by auto
  qed
  have "snapshot_watermark (snd (record_persisted_writes k n q)) = snapshot_watermark q" for k and q :: persistence
    by (simp add: record_persisted_writes_def request_maintenance_if_needed_def request_snapshot_if_needed_def request_rollover_if_needed_def case_prod_beta)
  note keep = this maintenance_keeps(1)
  have "p' = p \<or> p' = p1 \<or> (\<exists>k q. p' = snd (record_persisted_writes k n ((record_accepted_binlog_bytes q p1)\<lparr>repl_offset := fst (last batches)\<rparr>)))"
    using assms x unfolding accept_next_batches_def by (auto simp: apfst_def map_prod_def split: if_splits sum.splits prod.splits) (metis snd_conv)+
  then have "snapshot_watermark p' = snapshot_watermark p \<and> (active_file (binlog p) \<noteq> None \<longrightarrow> active_file (binlog p') \<noteq> None)"
  proof (elim disjE exE)
    fix k q assume "p' = snd (record_persisted_writes k n ((record_accepted_binlog_bytes q p1)\<lparr>repl_offset := fst (last batches)\<rparr>))"
    with p1 show ?thesis by (simp add: keep record_accepted_binlog_bytes_def Let_def)
  qed (use p1 in simp_all)
  then show "snapshot_watermark p' = snapshot_watermark p" "active_file (binlog p) \<noteq> None \<Longrightarrow> active_file (binlog p') \<noteq> None" by blast+
qed

text \<open>A group leaves the runtime as it was or as the publication of its batches left it, perhaps marked as failed.\<close>

lemma group_outcome:
  assumes "process_commit_group S E requests st p = Some (results, st', p')"
  obtains q where "q = p \<or> (\<exists>batches r. persist_and_publish_master_batches E batches p = (r, q))"
    "p' = q \<or> (\<exists>msg. p' = mark_persistence_failed msg q \<or> p' = enter_persistence_fail_stop msg q)"
proof (cases "fail_stop_started p \<or> \<not> accepting_writes p")
  case True
  then have "p' = p" using assms by (simp add: process_commit_group_def Let_def)
  with that show thesis by blast
next
  case go: False
  obtain err prepared st1 where prep: "prepare_all S requests [] st = Some ((err, prepared), st1)"
    using assms go by (cases "prepare_all S requests [] st") (auto simp: process_commit_group_def Let_def)
  show thesis
  proof (cases "err \<noteq> None \<or> numbered (repl_offset p) (concat (map pc_batches prepared)) = None")
    case True
    then have "\<exists>msg. p' = mark_persistence_failed msg p" using assms go prep by (cases err) (auto simp: process_commit_group_def Let_def)
    with that show thesis by blast
  next
    case False
    then obtain batches where b: "numbered (repl_offset p) (concat (map pc_batches prepared)) = Some batches" "err = None" by auto
    obtain r p1 where r: "persist_and_publish_master_batches E batches p = (r, p1)" by (cases "persist_and_publish_master_batches E batches p")
    have "p' = p \<or> p' = p1 \<or> (\<exists>msg. p' = mark_persistence_failed msg p1 \<or> p' = enter_persistence_fail_stop msg p1)"
      using assms go prep b r by (cases r) (auto simp: process_commit_group_def Let_def split: if_splits)
    with that r show thesis by blast
  qed
qed

lemma group_keeps:
  assumes "process_commit_group S E requests st p = Some (results, st', p')"
  shows "snapshot_watermark p' = snapshot_watermark p" "active_file (binlog p) \<noteq> None \<Longrightarrow> active_file (binlog p') \<noteq> None"
proof -
  have pub: "snapshot_watermark p1 = snapshot_watermark p \<and> (active_file (binlog p) \<noteq> None \<longrightarrow> active_file (binlog p1) \<noteq> None)"
    if run: "persist_and_publish_master_batches E batches p = (q, p1)" for batches q p1
  proof -
    obtain x p2 where x: "accept_next_batches E batches COMPACTION_THRESHOLD p = (x, p2)" by (cases "accept_next_batches E batches COMPACTION_THRESHOLD p")
    have "binlog p1 = binlog p2" "snapshot_watermark p1 = snapshot_watermark p2"
      using run x by (cases x; auto simp: persist_and_publish_master_batches_def)+
    with accept_keeps [OF x] show ?thesis by simp
  qed
  obtain q where q: "q = p \<or> (\<exists>batches r. persist_and_publish_master_batches E batches p = (r, q))"
    "p' = q \<or> (\<exists>msg. p' = mark_persistence_failed msg q \<or> p' = enter_persistence_fail_stop msg q)" by (rule group_outcome [OF assms])
  from q(2) have "binlog p' = binlog q" "snapshot_watermark p' = snapshot_watermark q"
    by (auto simp: mark_persistence_failed_def enter_persistence_fail_stop_def enter_fail_stop_def)
  moreover have "snapshot_watermark q = snapshot_watermark p \<and> (active_file (binlog p) \<noteq> None \<longrightarrow> active_file (binlog q) \<noteq> None)" using q(1) pub by blast
  ultimately show "snapshot_watermark p' = snapshot_watermark p" "active_file (binlog p) \<noteq> None \<Longrightarrow> active_file (binlog p') \<noteq> None" by simp_all
qed

lemma safe_commit:
  assumes safe: "safe_with Z v s segs active" and times: "sorted (map (now \<circ> fst) requests @ [now (clock v)])"
    and run: "process_commit_group S (clock v) requests (live_data v) (pers v) = Some (results, st, p)"
    and encodable: "list_all (\<lambda>x. list_all (effect_encodable (clock v)) (effects (snd x))) (drop (length (published (pers v))) (published p))"
    and segments: "segments (binlog p) = segments (binlog (pers v))" and up: "\<not> fail_stop_started p"
  shows "\<exists>active'. safe_with Z (v\<lparr>live_data := st, pers := p\<rparr>) s segs active'"
proof -
  let ?E = "clock v" and ?log = "concat segs @ active"
  have s: "plain_files (files v)" "holds ?E (binlog (pers v)) segs active" "snapshot_at Z ?E (files v) s" "store_wf (live_data v)"
      "describes ?E s ?log (live_data v) (repl_offset (pers v))" "snapshot_watermark (pers v) \<le> image_watermark s"
      "phase_ok ?E ?log (live_data v) (pers v) s (compaction v)"
    using safe unfolding safe_with_def by blast+
  have h: "active_file (binlog (pers v)) = Some (logged ?E active)" "loggable ?E ?log" using s(2) by (simp_all add: holds_def)
  note keep = group_keeps [OF run]
  have act: "active_file (binlog p) = Some (active_bytes (binlog p))" using keep(2) h(1) by (cases "active_file (binlog p)") simp_all
  from process_group_spec [OF s(4) times, of S "pers v"] run have wf: "store_wf st"
    and out: "group_committed ?E (live_data v) (pers v) results st p \<or> group_rejected ?E (live_data v) (pers v) results st p \<or>
      group_indeterminate (pers v) results p" by auto
  from out up consider (yes) "group_committed ?E (live_data v) (pers v) results st p" | (no) "group_rejected ?E (live_data v) (pers v) results st p"
    by (auto simp: group_indeterminate_def)
  then show ?thesis
  proof cases
    case yes
    obtain batches where b: "published p = published (pers v) @ batches"
      "describes ?E s (?log @ batches) st (repl_offset p)" "active_bytes (binlog p) = active_bytes (binlog (pers v)) @ logged ?E batches"
      "\<forall>(sequence, b) \<in> set batches. \<exists>x. encode_committed_batch ?E b = Inr x \<and> binlog_ok sequence x" by (rule describes_commit [OF s(5) yes s(4)])
    have "loggable ?E batches" using b(4) encodable b(1) unfolding loggable_def list_all_iff by fastforce
    then have "holds ?E (binlog p) segs (active @ batches)"
      using s(2) act b(3) h segments unfolding holds_def by (simp add: logged_def log_bytes_append encoded_def)
    moreover have "phase_ok ?E (?log @ batches) st p s (compaction v)"
    proof (cases "compaction v")
      case (Captured c)
      with s(7) have c: "image_ok ?E (image_of c)" "describes ?E (image_of c) ?log (live_data v) (repl_offset (pers v))"
        "snapshot_watermark (pers v) \<le> capture_watermark c" by (simp_all add: phase_ok_def)
      obtain batches' where b': "published p = published (pers v) @ batches'" "describes ?E (image_of c) (?log @ batches') st (repl_offset p)"
        by (rule describes_commit [OF c(2) yes s(4)])
      have "describes ?E (image_of c) (?log @ batches) st (repl_offset p)" using b'(1,2) b(1) by simp
      with c(1,3) keep(1) Captured show ?thesis by (simp add: phase_ok_def)
    qed (use s(7) in \<open>simp_all add: phase_ok_def\<close>)
    ultimately have "safe_with Z (v\<lparr>live_data := st, pers := p\<rparr>) s segs (active @ batches)"
      unfolding safe_with_def using s wf b(2) keep(1) by simp
    then show ?thesis by blast
  next
    case no
    then have g: "\<And>E'. now ?E \<le> now E' \<Longrightarrow> agrees E' (live_data v) st" "active_bytes (binlog p) = active_bytes (binlog (pers v))" "repl_offset p = repl_offset (pers v)"
      by (simp_all add: group_rejected_def)
    have "holds ?E (binlog p) segs active" using s(2) act g(2) h(1) segments by (simp add: holds_def)
    moreover have "phase_ok ?E ?log st p s (compaction v)"
      using phase_agrees [OF s(7) g(1)] g(3) keep(1) by (cases "compaction v") (simp_all add: phase_ok_def)
    ultimately have "safe_with Z (v\<lparr>live_data := st, pers := p\<rparr>) s segs active"
      unfolding safe_with_def using s wf describes_agrees [OF s(5) g(1)] g(3) keep(1) by simp
    then show ?thesis by blast
  qed
qed


lemma same_files_segments: "same_files f f' \<Longrightarrow> segments f' = segments f"
  by (simp add: same_files_def)

lemma budget_runtime:
  "activate_compaction_write_budget p = Some p' \<Longrightarrow> same_runtime p p' \<and> binlog p' = binlog p \<and> physical_segment_count p' = physical_segment_count p"
  "same_runtime p (release_compaction_write_budget p') = same_runtime p p'" "binlog (release_compaction_write_budget p') = binlog p'"
  "fail_stop_started (release_compaction_write_budget p') = fail_stop_started p'"
  by (auto simp: activate_compaction_write_budget_def release_compaction_write_budget_def Let_def split: if_splits)

lemma safe_released: "safe_with Z (v\<lparr>pers := p\<rparr>) s segs active \<Longrightarrow> safe_with Z (v\<lparr>pers := release_compaction_write_budget p\<rparr>) s segs active"
  using safe_runtime [of Z "v\<lparr>pers := p\<rparr>" s segs active "release_compaction_write_budget p"]
  by (simp add: budget_runtime safe_with_def)

text \<open>The preparation of a seal: the write budget and the preflush leave the files alone.\<close>

lemma safe_preflush:
  assumes safe: "safe_with Z v s segs active" and act: "activate_compaction_write_budget (pers v) = Some p1" and run: "preflush p1 = (r, p2)"
  shows "safe_with Z (v\<lparr>pers := p2\<rparr>) s segs active" "physical_segment_count p2 = physical_segment_count (pers v)"
    "segments (binlog p2) = segments (binlog (pers v))"
proof -
  note b = budget_runtime(1) [OF act] and q = preflush_spec [OF run]
  have "same_runtime (pers v) p2" using b q(2) by (blast intro: same_runtime_trans)
  moreover have same: "same_files (binlog (pers v)) (binlog p2)" using b q(1) by simp
  moreover have "holds (clock v) (binlog (pers v)) segs active" using safe unfolding safe_with_def by blast
  ultimately show "safe_with Z (v\<lparr>pers := p2\<rparr>) s segs active" using safe_runtime [OF safe _ holds_same] by blast
  show "segments (binlog p2) = segments (binlog (pers v))" using same by (rule same_files_segments)
  show "physical_segment_count p2 = physical_segment_count (pers v)" using b run by (auto simp: preflush_def split: prod.splits)
qed

lemma safe_rollover:
  assumes safe: "safe_with Z v s segs active" and run: "rollover_generation_owned E' (pers v) = Some (r, p)"
    and suf: "suffix (segments (binlog (snd (refresh_segment_catalog E' (pers v))))) (segments (binlog (pers v)))" and up: "\<not> fail_stop_started p"
  shows "\<exists>segs' active'. safe_with Z (v\<lparr>pers := p\<rparr>) s segs' active'"
proof (cases "active_binlog_bytes (pers v) = 0")
  case True
  then have "p = pers v" using run by (simp add: rollover_generation_owned_def)
  then have "v\<lparr>pers := p\<rparr> = v" by simp
  with safe show ?thesis by metis
next
  case go: False
  obtain x p1 where x: "refresh_segment_catalog E' (pers v) = (x, p1)" by (cases "refresh_segment_catalog E' (pers v)")
  from safe_refresh [OF safe x] suf x obtain n where one: "safe_with Z (v\<lparr>pers := p1\<rparr>) s (drop n segs) active" by auto
  show ?thesis
  proof (cases "(\<exists>e. x = Inl e) \<or> BINLOG_SEGMENT_ROLLOVER_LIMIT \<le> physical_segment_count p1")
    case True
    then have "p = p1" using run go x by (cases x) (auto simp: rollover_generation_owned_def)
    with one show ?thesis by blast
  next
    case False
    then obtain c where c: "x = Inr c" by (cases x) auto
    from False have small: "\<not> BINLOG_SEGMENT_ROLLOVER_LIMIT \<le> physical_segment_count p1" by simp
    note run1 = run [unfolded rollover_generation_owned_def if_not_P [OF go] x prod.case c sum.case if_not_P [OF small]]
    from run1 obtain p2 where p2: "activate_compaction_write_budget p1 = Some p2" by (auto split: option.splits)
    obtain y p3 where y: "preflush p2 = (y, p3)" by (cases "preflush p2")
    have "activate_compaction_write_budget (pers (v\<lparr>pers := p1\<rparr>)) = Some p2" using p2 by simp
    note pre = safe_preflush [OF one this y, simplified]
    show ?thesis
    proof (cases y)
      case (Inl e)
      then have "p = release_compaction_write_budget p3" using run1 p2 y by auto
      with safe_released [OF pre(1)] show ?thesis by (auto simp: safe_with_def)
    next
      case (Inr k)
      then obtain z p4 where z: "seal_generation ''Binlog generation rollover failed'' p3 = Some (z, p4)" "p = release_compaction_write_budget p4"
        using run1 p2 y by auto
      have count: "physical_segment_count p3 = length (segments (binlog p3))" using pre(2,3) refresh_spec(5) [OF x c] by simp
      have "\<not> fail_stop_started p4" using up z(2) by (simp add: budget_runtime)
      with safe_seal [OF pre(1), simplified, OF z(1) count]
      obtain segs' active' where "safe_with Z (v\<lparr>pers := p4\<rparr>) s segs' active'" by auto
      with safe_released show ?thesis unfolding z(2) by blast
    qed
  qed
qed

lemma safe_capture_snapshot:
  assumes safe: "safe_with Z v s segs active" and run: "capture_snapshot (clock v) (live_data v) (pers v) = Some (Inr c, st, p)"
    and encodable: "list_all (entry_encodable (clock v)) (capture_entries c)"
  shows "safe_with Z (v\<lparr>live_data := st, pers := p, compaction := Captured c\<rparr>) s segs active"
proof -
  let ?E = "clock v" and ?log = "concat segs @ active" and ?off = "repl_offset (pers v)"
  have s: "plain_files (files v)" "holds ?E (binlog (pers v)) segs active" "snapshot_at Z ?E (files v) s" "store_wf (live_data v)"
      "describes ?E s ?log (live_data v) ?off" "snapshot_watermark (pers v) \<le> image_watermark s"
    using safe unfolding safe_with_def by blast+
  from run obtain snap e where b: "begin_snapshot ?E (store_engine (live_data v)) = Some (snap, e)"
    and c: "capture_watermark c = ?off" "capture_entries c = snapshot_entries snap" "st = (live_data v)\<lparr>store_engine := e\<rparr>" "p = pers v"
    by (auto simp: capture_snapshot_def split: option.splits)
  note content = checkpoint_content [OF b s(4)]
  have wf: "store_wf st" unfolding c(3) by (rule content(2)) (rule order_refl)
  have agree: "agrees E' (live_data v) st" if "now ?E \<le> now E'" for E'
    using begin_snapshot_ok(1) [OF b] s(4) that by (intro contents_agrees [of ?E]) (simp_all add: c(3) store_wf_def)
  from s(5) obtain q where q: "contiguous (Some q) ?log" "q \<le> image_watermark s" "image_watermark s \<le> ?off" "last_of (Some q) ?log = Some ?off"
    unfolding describes_def by blast
  have "replayed_batches ?off ?log = []"
  proof -
    have "fst x \<le> ?off" if "x \<in> set ?log" for x
    proof -
      have "?log \<noteq> []" using that by (metis empty_iff list.set(1))
      then have "?off = fst (last ?log)" using q(4) unfolding last_of_def by (simp only: if_False option.inject)
      with sorted_last [OF conjunct1 [OF contiguous_sorted [OF q(1)]] that] show ?thesis by simp
    qed
    then have "filter (\<lambda>x. ?off < fst x) ?log = []" by (meson filter_False linorder_not_less)
    then show ?thesis by (simp only: replayed_batches_def list.map)
  qed
  then have "same_entry (recovered_content (?E\<lparr>now := t\<rparr>) (image_of c) ?log k) (pview (?E\<lparr>now := t\<rparr>) st k)" if "now ?E \<le> t" for t k
    using content(1) [OF that, of k] by (simp add: recovered_content_def c same_entry_def)
  moreover have "q \<le> capture_watermark c" "capture_watermark c \<le> ?off" using q(2,3) c(1) by simp_all
  ultimately have "describes ?E (image_of c) ?log st ?off" unfolding describes_def using q(1,4) by (metis image_of_simps(1))
  moreover have "image_ok ?E (image_of c)" using encodable content(3) [OF order_refl] c(2) by (simp add: image_ok_def)
  moreover have "snapshot_watermark (pers v) \<le> capture_watermark c" using s(6) q(3) c(1) by simp
  ultimately have "phase_ok ?E ?log st (pers v) s (Captured c)" by (simp add: phase_ok_def)
  with s wf describes_agrees [OF s(5) agree] show ?thesis unfolding safe_with_def c(4) by simp
qed


lemma safe_capture:
  assumes safe: "safe_with Z v s segs active" and run: "compact_capture (clock v) (live_data v) (pers v) = Some (r, st, p)"
    and suf: "suffix (segments (binlog (snd (refresh_segment_catalog (clock v) (pers v))))) (segments (binlog (pers v)))" and up: "\<not> fail_stop_started p"
  shows "r = Inl e \<Longrightarrow> \<exists>segs' active'. safe_with Z (v\<lparr>live_data := st, pers := p\<rparr>) s segs' active'"
    and "r = Inr c \<Longrightarrow> list_all (entry_encodable (clock v)) (capture_entries c) \<Longrightarrow>
      \<exists>segs' active'. safe_with Z (v\<lparr>live_data := st, pers := p, compaction := Captured c\<rparr>) s segs' active'"
proof -
  obtain x p1 where x: "refresh_segment_catalog (clock v) (pers v) = (x, p1)" by (cases "refresh_segment_catalog (clock v) (pers v)")
  from safe_refresh [OF safe x] suf x obtain n where one: "safe_with Z (v\<lparr>pers := p1\<rparr>) s (drop n segs) active" by auto
  text \<open>Either the phase fails before the capture, or it captures on a safe state.\<close>
  have cases: "(\<exists>e segs' active'. r = Inl e \<and> st = live_data v \<and> safe_with Z (v\<lparr>pers := p\<rparr>) s segs' active') \<or>
    (\<exists>p0 segs' active'. capture_snapshot (clock v) (live_data v) p0 = Some (r, st, p) \<and> safe_with Z (v\<lparr>pers := p0\<rparr>) s segs' active')"
  proof (cases "(\<exists>e. x = Inl e) \<or> MAX_BINLOG_SEGMENTS \<le> physical_segment_count p1")
    case True
    then show ?thesis using run x one by (cases x) (fastforce simp: compact_capture_def split: if_splits)+
  next
    case False
    then obtain c where c: "x = Inr c" by (cases x) auto
    from False have small: "\<not> MAX_BINLOG_SEGMENTS \<le> physical_segment_count p1" by simp
    note run1 = run [unfolded compact_capture_def x prod.case c sum.case if_not_P [OF small]]
    from run1 obtain p2 where p2: "activate_compaction_write_budget p1 = Some p2" by (auto split: option.splits)
    obtain y p3 where y: "preflush p2 = (y, p3)" by (cases "preflush p2")
    have "activate_compaction_write_budget (pers (v\<lparr>pers := p1\<rparr>)) = Some p2" using p2 by simp
    note pre = safe_preflush [OF one this y, simplified]
    show ?thesis
    proof (cases y)
      case (Inl e)
      then have "r = Inl e" "st = live_data v" "p = release_compaction_write_budget p3" using run1 p2 y by auto
      with safe_released [OF pre(1)] show ?thesis by blast
    next
      case (Inr k)
      obtain z p4 where z: "seal_generation ''Binlog generation sealing failed'' p3 = Some (z, p4)"
        using run1 p2 y Inr by (cases "seal_generation ''Binlog generation sealing failed'' p3") auto
      have count: "physical_segment_count p3 = length (segments (binlog p3))" using pre(2,3) refresh_spec(5) [OF x c] by simp
      have fin: "(\<exists>e. z = Inl e \<and> r = Inl e \<and> st = live_data v \<and> p = release_compaction_write_budget p4) \<or>
          capture_snapshot (clock v) (live_data v) (release_compaction_write_budget p4) = Some (r, st, p)"
        using run1 p2 y Inr z by (cases z) auto
      then have "\<not> fail_stop_started p4" using up
        by (auto simp: budget_runtime capture_snapshot_def split: option.splits)
      with safe_seal [OF pre(1), simplified, OF z count]
      obtain segs' active' where "safe_with Z (v\<lparr>pers := p4\<rparr>) s segs' active'" by auto
      from safe_released [OF this] fin show ?thesis by blast
    qed
  qed
  then show "\<exists>segs' active'. safe_with Z (v\<lparr>live_data := st, pers := p\<rparr>) s segs' active'" if "r = Inl e"
    using that by (auto simp: capture_snapshot_def split: option.splits)
  show "\<exists>segs' active'. safe_with Z (v\<lparr>live_data := st, pers := p, compaction := Captured c\<rparr>) s segs' active'"
    if c: "r = Inr c" "list_all (entry_encodable (clock v)) (capture_entries c)"
  proof -
    from cases c(1) obtain p0 segs' active' where cap: "capture_snapshot (clock v) (live_data v) p0 = Some (Inr c, st, p)"
      "safe_with Z (v\<lparr>pers := p0\<rparr>) s segs' active'" by auto
    from safe_capture_snapshot [of Z "v\<lparr>pers := p0\<rparr>" s segs' active' c st p] cap c(2)
    have "safe_with Z (v\<lparr>live_data := st, pers := p, compaction := Captured c\<rparr>) s segs' active'" by simp
    then show ?thesis by blast
  qed
qed

text \<open>Changes of the other files.\<close>

lemma plain_names:
  assumes "plain_files d" and "distinct (map fst d) \<Longrightarrow> distinct (map fst d')"
    and "\<And>name. name \<notin> N \<Longrightarrow> map_of d' name = map_of d name" and "\<And>name. name \<in> N \<Longrightarrow> parse_binlog_segment_end_sequence name = Inr None \<and> name \<noteq> BINLOG_PATH"
  shows "plain_files d'"
proof -
  have "parse_binlog_segment_end_sequence (fst x) = Inr None \<and> fst x \<noteq> BINLOG_PATH" if "x \<in> set d'" for x
  proof (cases "fst x \<in> N")
    case False
    have "map_of d' (fst x) \<noteq> None" using that by (simp add: map_of_eq_None_iff)
    then have "fst x \<in> fst ` set d" using assms(3) [OF False] by (metis map_of_eq_None_iff)
    then show ?thesis using assms(1) by (auto simp: plain_files_def list_all_iff)
  qed (rule assms(4))
  then have "list_all (\<lambda>(name, _). parse_binlog_segment_end_sequence name = Inr None \<and> name \<noteq> BINLOG_PATH) d'"
    unfolding list_all_iff case_prod_beta by blast
  moreover have "distinct (map fst d')" using assms(1,2) unfolding plain_files_def by blast
  ultimately show ?thesis unfolding plain_files_def by blast
qed

lemma more_paths_parse:
  "parse_binlog_segment_end_sequence SNAPSHOT_TEMP_PATH = Inr None" "parse_binlog_segment_end_sequence REPLICA_STATE_PATH = Inr None"
  "parse_binlog_segment_end_sequence REPLICA_STATE_TEMP_PATH = Inr None"
  by (simp_all add: parse_binlog_segment_end_sequence_def str_of_bytes_def SNAPSHOT_TEMP_PATH_def REPLICA_STATE_PATH_def REPLICA_STATE_TEMP_PATH_def
      starts_with_def BINLOG_SEGMENT_PREFIX_def)

lemma more_paths_differ: "SNAPSHOT_PATH \<noteq> BINLOG_PATH" "SNAPSHOT_BACKUP_PATH \<noteq> BINLOG_PATH" "SNAPSHOT_TEMP_PATH \<noteq> BINLOG_PATH"
  "REPLICA_STATE_PATH \<noteq> BINLOG_PATH" "REPLICA_STATE_TEMP_PATH \<noteq> BINLOG_PATH" "SNAPSHOT_PATH \<noteq> REPLICA_STATE_PATH" "SNAPSHOT_PATH \<noteq> REPLICA_STATE_TEMP_PATH"
  "SNAPSHOT_BACKUP_PATH \<noteq> REPLICA_STATE_PATH" "SNAPSHOT_BACKUP_PATH \<noteq> REPLICA_STATE_TEMP_PATH"
  by (simp_all add: paths SNAPSHOT_TEMP_PATH_def REPLICA_STATE_PATH_def REPLICA_STATE_TEMP_PATH_def)

lemma plain_other: "plain_files d \<Longrightarrow> other_files d d' \<Longrightarrow> plain_files d'"
  by (rule plain_names [of d d' "{SNAPSHOT_PATH, SNAPSHOT_BACKUP_PATH, SNAPSHOT_TEMP_PATH}"])
    (auto simp: other_files_def paths_parse more_paths_parse more_paths_differ)

lemma plain_state: "plain_files d \<Longrightarrow> same_but_state d d' \<Longrightarrow> plain_files d' \<and> current_snapshot d' = current_snapshot d"
proof
  assume d: "plain_files d" "same_but_state d d'"
  then show "plain_files d'"
    by (intro plain_names [of d d' "{REPLICA_STATE_PATH, REPLICA_STATE_TEMP_PATH}"])
      (auto simp: same_but_state_def more_paths_parse more_paths_differ)
  have "map_of d' SNAPSHOT_PATH = map_of d SNAPSHOT_PATH" "map_of d' SNAPSHOT_BACKUP_PATH = map_of d SNAPSHOT_BACKUP_PATH"
    using d(2) by (simp_all add: same_but_state_def more_paths_differ)
  then show "current_snapshot d' = current_snapshot d" unfolding current_snapshot_def by (simp only:)
qed

lemma snapshot_current: "snapshot_at Z E d s \<Longrightarrow> current_snapshot d' = current_snapshot d \<Longrightarrow> snapshot_at Z E d' s"
  by (cases s) (simp_all add: snapshot_at_def)

lemma safe_install:
  assumes safe: "safe_with Z v s segs active" and ph: "compaction v = Captured c"
    and run: "compact_write Z (clock v) partial c (cs, files v) = (r, cs', d)" and zip: "\<And>x. gunzip Z (gzip Z x) = Inr x"
  shows "\<exists>s'. safe_with Z (v\<lparr>files := d, compaction := (if r = Inr () then Installed c else Idle)\<rparr>) s' segs active"
proof -
  let ?E = "clock v" and ?log = "concat segs @ active"
  have s: "plain_files (files v)" "holds ?E (binlog (pers v)) segs active" "snapshot_at Z ?E (files v) s" "store_wf (live_data v)"
      "describes ?E s ?log (live_data v) (repl_offset (pers v))" "snapshot_watermark (pers v) \<le> image_watermark s"
    and c: "image_ok ?E (image_of c)" "describes ?E (image_of c) ?log (live_data v) (repl_offset (pers v))" "snapshot_watermark (pers v) \<le> capture_watermark c"
    using safe ph unfolding safe_with_def by (auto simp: phase_ok_def)
  obtain r0 where w: "write_snapshot_file Z ?E (capture_entries c) (capture_watermark c) partial (cs, files v) = (r0, cs', d)" "r = Inr () \<longrightarrow> r0 = Inr ()"
    using run by (cases "write_snapshot_file Z ?E (capture_entries c) (capture_watermark c) partial (cs, files v)")
      (auto simp: compact_write_def map_sum_Inr)
  note spec = write_snapshot_spec [OF w(1)]
  have plain: "plain_files d" using plain_other s(1) spec by blast
  show ?thesis
  proof (cases "current_snapshot d = current_snapshot (files v) \<and> r \<noteq> Inr ()")
    case True
    then have "snapshot_at Z ?E d s" using snapshot_current [OF s(3)] by blast
    with True s plain show ?thesis unfolding safe_with_def by (auto simp: phase_ok_def)
  next
    case False
    then obtain body where b: "encode_entries ?E (capture_entries c) = Inr body" "current_snapshot d = Some (gzip Z (snapshot_header (capture_watermark c) @ body))"
      using spec w(2) by (auto simp: current_snapshot_def)
    then have "snapshot_at Z ?E d (image_of c)"
      using c(1) zip by (simp add: snapshot_at_def image_ok_def, simp add: image_of_def)
    then have "safe_with Z (v\<lparr>files := d, compaction := (if r = Inr () then Installed c else Idle)\<rparr>) (image_of c) segs active"
      using s c plain unfolding safe_with_def by (simp add: phase_ok_def)
    then show ?thesis by blast
  qed
qed

lemma safe_finish:
  assumes safe: "safe_with Z v s segs active" and ph: "compaction v = Installed c"
    and run: "compact_finish left upstream c (cs, files v) (pers v) = (r, (cs', d), p)" and up: "\<not> fail_stop_started p"
  shows "safe_with Z (v\<lparr>files := d, pers := p, compaction := Idle\<rparr>) s segs active"
proof -
  have s: "plain_files (files v)" "holds (clock v) (binlog (pers v)) segs active" "snapshot_at Z (clock v) (files v) s" "store_wf (live_data v)"
      "describes (clock v) s (concat segs @ active) (live_data v) (repl_offset (pers v))" "snapshot_watermark (pers v) \<le> image_watermark s"
      "capture_watermark c \<le> image_watermark s"
    using safe ph unfolding safe_with_def by (auto simp: phase_ok_def)
  obtain x p1 where x: "binlog_checkpoint (pers v) = (x, p1)" by (cases "binlog_checkpoint (pers v)")
  note idle = worker_idle [OF x [unfolded binlog_checkpoint_def] worker_ops_idle(1)]
  have p1: "repl_offset p1 = repl_offset (pers v)" "snapshot_watermark p1 = snapshot_watermark (pers v)" using idle(2) by (simp_all add: same_runtime_def)
  have hold: "holds (clock v) (binlog p1) segs active" by (rule holds_same [OF s(2) idle(1)])
  let ?upd = "if upstream = 0 then (Inr (), (cs, files v)) else write_replica_identity left \<lparr>replid = upstream, baseline_sequence = capture_watermark c\<rparr> (cs, files v)"
  obtain y k1 d1 where y: "?upd = (y, k1, d1)" by (cases ?upd)
  have d1: "same_but_state (files v) d1"
    using y write_state_spec(1) by (auto simp: write_replica_identity_def split: if_splits)
  have out: "(d = files v \<or> d = d1) \<and> repl_offset p = repl_offset p1 \<and> binlog p = binlog p1 \<and> snapshot_watermark p \<in> {snapshot_watermark p1, capture_watermark c}"
    using run up x y by (cases x; cases y) (auto simp: compact_finish_def enter_fail_stop_def Let_def split: if_splits)
  have "plain_files d \<and> snapshot_at Z (clock v) d s" using out plain_state [OF s(1) d1] snapshot_current [OF s(3)] s(1,3) by blast
  moreover have "snapshot_watermark p \<le> image_watermark s" using out p1(2) s(6,7) by auto
  ultimately show ?thesis unfolding safe_with_def using s out p1(1) hold by (simp add: phase_ok_def)
qed


lemma finish_agrees:
  assumes "finish_snapshot (store_engine st) = Some e" and "store_wf st" and "now E \<le> now E'"
  shows "agrees E' st (st\<lparr>store_engine := e\<rparr>) \<and> store_wf (st\<lparr>store_engine := e\<rparr>)"
  using finish_snapshot_ok(1) [OF assms(1)] assms(2,3) by (auto simp: store_wf_def intro!: contents_agrees)

lemma gc_agrees:
  assumes "store_wf st" and "now E \<le> now E'"
  shows "agrees E' st (snd (store_gc_expired E st)) \<and> store_wf (snd (store_gc_expired E st))"
proof -
  let ?e = "snd (gc_expired E (store_engine st))"
  have st: "snd (store_gc_expired E st) = st\<lparr>store_engine := ?e\<rparr>" by (simp add: store_gc_expired_def on_engine_def case_prod_beta)
  have "engine_wf ?e" "contents ?e = live (now E) (contents (store_engine st))"
    using gc_expired_change [of E "store_engine st"] assms(1) by (simp_all add: engine_change_def store_wf_def)
  then show ?thesis unfolding st using assms(2)
    by (auto simp: store_wf_def live_def alive_def split: option.splits intro!: contents_agrees [of E])
qed

lemma read_agrees:
  assumes "store_wf st" and "\<not> is_write_command (arg_at 0 args)" and "now E \<le> now E'"
  shows "agrees E' st (snd (server_execute_command S E args st)) \<and> store_wf (snd (server_execute_command S E args st))"
proof -
  have "pview E (snd (server_execute_command S E args st)) = pview E st" "store_wf (snd (server_execute_command S E args st))"
    using confined_server [of E args S] affected_only_writes [OF assms(2)] assms(1) by (simp_all add: confined_def fun_eq_iff)
  then show ?thesis using agrees_pview [of E st _ E'] assms(3) by simp
qed

lemma get_agrees:
  assumes "store_wf st" and "now E \<le> now E'"
  shows "agrees E' st (snd (on_engine (engine_get E key) st)) \<and> store_wf (snd (on_engine (engine_get E key) st))"
proof -
  let ?st = "snd (on_engine (engine_get E key) st)"
  have "store_engine ?st = snd (engine_get E key (store_engine st))" by (simp add: on_engine_def case_prod_beta)
  with engine_get_change [of E "store_engine st" key]
  have c: "engine_change E ((contents (store_engine st))(key := map_option (touch E) (live (now E) (contents (store_engine st)) key))) (store_engine st) (store_engine ?st)" by simp
  note p = pview_change [OF c assms(1)]
  have "palive E (map_option persistent_entry_from (map_option (touch E) (live (now E) (contents (store_engine st)) key))) = pview E st key"
    using palive_pview [of E st key] by (simp add: pview_def view_def option.map_comp comp_def)
  with p(1) have "pview E ?st = pview E st" by (simp add: fun_eq_iff)
  then show ?thesis using agrees_pview [of E st ?st E'] assms(2) p(2) by simp
qed

lemma step_safe:
  assumes "server_step Z v v'" and "safe Z v" and zip: "\<And>x. gunzip Z (gzip Z x) = Inr x"
  shows "safe Z v'"
proof (cases "fail_stop_started (pers v')")
  case up: False
  from assms(1) have "\<not> fail_stop_started (pers v)" by cases
  with assms(2) obtain s segs active where safe: "safe_with Z v s segs active" unfolding safe_def by blast
  then have wf: "store_wf (live_data v)" and hold: "holds (clock v) (binlog (pers v)) segs active" unfolding safe_with_def by blast+
  from assms(1) have "\<exists>s segs active. safe_with Z v' s segs active"
  proof cases
    case (tick t)
    with safe_later [OF safe] show ?thesis by blast
  next
    case expire
    with safe_live [OF safe] gc_agrees [OF wf] show ?thesis by blast
  next
    case (read args S)
    with safe_live [OF safe] read_agrees [OF wf] show ?thesis by blast
  next
    case (fetch key)
    with safe_live [OF safe] get_agrees [OF wf] show ?thesis by blast
  next
    case (commit requests t S results st p)
    let ?v = "v\<lparr>clock := (clock v)\<lparr>now := t\<rparr>\<rparr>"
    have "now (clock v) \<le> t" using commit(3) by simp
    then have later: "safe_with Z ?v s segs active" by (rule safe_later [OF safe])
    have times: "sorted (map (now \<circ> fst) (map (apfst (\<lambda>t. (clock v)\<lparr>now := t\<rparr>)) requests) @ [now (clock ?v)])"
      using commit(3) by (simp add: comp_def)
    have "\<exists>active'. safe_with Z (?v\<lparr>live_data := st, pers := p\<rparr>) s segs active'"
      by (rule safe_commit [OF later times]) (use commit up in simp_all)
    then show ?thesis using commit(1) by auto
  next
    case (periodic_sync r p)
    obtain x p1 where x: "binlog_sync_data (pers v) = (x, p1)" by (cases "binlog_sync_data (pers v)")
    note idle = worker_idle [OF x [unfolded binlog_sync_data_def] worker_ops_idle(3)]
    have "p = p1 \<or> fail_stop_started p \<or> (\<exists>msg. p = mark_persistence_failed msg p1)"
      using periodic_sync(3) x by (cases x) (auto simp: run_periodic_sync_once_def Let_def enter_persistence_fail_stop_def enter_fail_stop_def split: if_splits)
    then have p: "binlog p = binlog p1" "repl_offset p = repl_offset (pers v)" "snapshot_watermark p = snapshot_watermark (pers v)"
      using up idle(2) periodic_sync(1) by (auto simp: mark_persistence_failed_def same_runtime_def)
    have "holds (clock v) (binlog p) segs active" unfolding p(1) by (rule holds_same [OF hold idle(1)])
    moreover have "phase_ok (clock v) (concat segs @ active) (live_data v) p s (compaction v)"
      using safe p(2,3) unfolding safe_with_def by (cases "compaction v") (auto simp: phase_ok_def)
    ultimately show ?thesis using safe p(2,3) unfolding periodic_sync(1) safe_with_def by auto
  next
    case (rollover r p)
    with safe_rollover [OF safe rollover(3,4)] up show ?thesis by auto
  next
    case (capture_failed e st p)
    with safe_capture(1) [OF safe capture_failed(4,5)] up show ?thesis by auto
  next
    case (capture c st p)
    with safe_capture(2) [OF safe capture(4,5)] up show ?thesis by auto
  next
    case (close_snapshot e)
    with safe_live [OF safe] finish_agrees [OF _ wf] show ?thesis by blast
  next
    case (install c partial cs r cs' d)
    with safe_install [OF safe install(3,4) zip] show ?thesis by blast
  next
    case (finish c left upstream cs r cs' d p)
    with safe_finish [OF safe finish(3,4)] up show ?thesis by auto
  next
    case cleanup
    obtain x p1 where x: "refresh_segment_catalog (clock v) (pers v) = (x, p1)" by (cases "refresh_segment_catalog (clock v) (pers v)")
    have "suffix (segments (binlog p1)) (segments (binlog (pers v)))" using cleanup(3) by (simp add: compact_cleanup_def x)
    then obtain n where "safe_with Z (v\<lparr>pers := p1\<rparr>) s (drop n segs) active" by (rule safe_refresh [OF safe x])
    then show ?thesis unfolding cleanup(1) by (auto simp: compact_cleanup_def x)
  qed
  then show ?thesis unfolding safe_def by blast
qed (simp add: safe_def)

lemma run_safe:
  assumes "(server_step Z)\<^sup>*\<^sup>* v v'" and "safe Z v" and "\<And>x. gunzip Z (gzip Z x) = Inr x"
  shows "safe Z v'"
  using assms(1,2) by (induction rule: rtranclp_induct) (use step_safe assms(3) in blast)+

lemma safe_durable:
  assumes "safe_with Z v s segs active"
  shows "durable Z (clock v) (on_disk (files v) (binlog (pers v))) s segs active (live_data v) (pers v)"
proof -
  have s: "plain_files (files v)" "holds (clock v) (binlog (pers v)) segs active" "snapshot_at Z (clock v) (files v) s" "store_wf (live_data v)"
      "describes (clock v) s (concat segs @ active) (live_data v) (repl_offset (pers v))"
    using assms unfolding safe_with_def by blast+
  have q: "sorted_wrt (\<lambda>x y. fst x < fst y) (concat segs)" using describes_contiguous [OF s(5)] contiguous_ordered by blast
  have "snapshot_at Z (clock v) (on_disk (files v) (binlog (pers v))) s"
    by (rule snapshot_current [OF s(3)]) (rule on_disk_snapshot [OF s(2) q])
  with on_disk_history [OF s(2,1) q] s(4,5) holds_bytes [OF s(2)] show ?thesis by (simp add: durable_iff)
qed

text \<open>
  The premise on the order of a cleanup is not met by the code: it goes on after a removal that
  failed, so that an older segment stays while a newer one is gone.
\<close>

lemma cleanup_gap:
  fixes p :: persistence
  assumes h: "holds E (binlog p) [older, newer] active" and c: "contiguous (Some q) (older @ newer @ active)"
    and w: "segment_end newer \<le> snapshot_watermark p" and cs: "choices (binlog p) = [Proceed, Fail reason]"
  shows "holds E (binlog (compact_cleanup E p)) [older] active" "\<exists>cleanup. fst (refresh_segment_catalog E p) = Inr cleanup \<and> failed_files cleanup = 1"
proof -
  from h have segs: "segments (binlog p) = [(segment_end older, logged E older), (segment_end newer, logged E newer)]"
    and log: "loggable E older" "loggable E newer" and ne: "older \<noteq> []" "newer \<noteq> []" by (auto simp: holds_def loggable_append)
  have cont: "contiguous None older" "contiguous None newer"
    using contiguous_segment [of "Some q" "[older, newer]" active] c by simp_all
  have insp: "inspect_binlog E (Some (logged E older)) = Inr (inspection_of E older [])" "inspect_binlog E (Some (logged E newer)) = Inr (inspection_of E newer [])"
    using inspect_binlog_logged [OF log(1) cont(1), of "[]"] inspect_binlog_logged [OF log(2) cont(2), of "[]"] by simp_all
  have "sorted_wrt (<) (map segment_end [older, newer])"
    by (rule segment_ends_sorted) (use contiguous_ordered [of "Some q" "[older, newer]" active] c ne in auto)
  then have "\<not> snapshot_watermark p < segment_end older" "\<not> snapshot_watermark p < segment_end newer" "segment_end older \<noteq> segment_end newer"
    using w by auto
  then have run: "cleanup_binlog_segments_through E (snapshot_watermark p) (binlog p) =
      (Inr \<lparr>removed_files = 1, failed_files = 1, remaining_files = 1\<rparr>,
       (binlog p)\<lparr>choices := [], segments := [(segment_end older, logged E older)]\<rparr>)"
    using ne by (simp add: cleanup_binlog_segments_through_def persistence_io_def os_call_def next_choice_def cs and_next_def segs insp
        sync_parent_directory_def segment_end_def [symmetric])
  show "holds E (binlog (compact_cleanup E p)) [older] active"
    using h by (simp add: compact_cleanup_def refresh_segment_catalog_def run apply_segment_catalog_cleanup_def holds_def loggable_append)
  show "\<exists>cleanup. fst (refresh_segment_catalog E p) = Inr cleanup \<and> failed_files cleanup = 1"
    by (simp add: refresh_segment_catalog_def run)
qed

section \<open>Properties\<close>

text \<open>
  Nothing that was acknowledged is lost in any run. Whatever sequence of commit groups, expiry
  sweeps, periodic synchronizations, generation rollovers, compaction phases and segment cleanups the
  server goes through, with system calls failing anywhere, a process crash at any later moment outside
  fail-stop leaves a directory from which recovery rebuilds the last sequence number and every
  visible entry of the live store.
\<close>

theorem any_run_survives:
  assumes "safe Z v0" and "(server_step Z)\<^sup>*\<^sup>* v0 v" and "\<And>x. gunzip Z (gzip Z x) = Inr x" and "\<not> fail_stop_started (pers v)"
    and "now (clock v) \<le> t" and "torn (clock v) tail" and "store_wf st0" and "\<not> snapshot_active (store_engine st0)"
  shows "\<exists>r st1 d'. load_data_from_paths Z ((clock v)\<lparr>now := t\<rparr>) (crash (on_disk (files v) (binlog (pers v))) (pers v) tail) st0 = Some (Inr r, st1, d') \<and>
    last_sequence r = repl_offset (pers v) \<and> agrees ((clock v)\<lparr>now := t\<rparr>) st1 (live_data v)"
proof -
  from run_safe [OF assms(2,1,3)] assms(4) obtain s segs active where "safe_with Z v s segs active" unfolding safe_def by blast
  from durable_recovers_agreeing [OF safe_durable [OF this] assms(5-8)] show ?thesis by blast
qed

definition sample_server :: server where
  "sample_server = \<lparr>clock = sample_env, live_data = live_store, pers = sample_runtime, files = [], compaction = Idle\<rparr>"

lemma sample_safe: "safe plain sample_server"
proof -
  note d = sample_durable [unfolded durable_iff]
  have "holds sample_env (binlog sample_runtime) [] sample_log"
    using sample_history by (simp add: holds_def history_at_def sample_runtime_def runtime_new_def commit_runtime.defs persistence.defs)
  moreover have "snapshot_at plain sample_env [] None" by (simp add: snapshot_at_def current_snapshot_def image_entries_def)
  moreover have "snapshot_watermark sample_runtime = 0"
    by (simp add: sample_runtime_def runtime_new_def commit_runtime.defs persistence.defs)
  ultimately have "safe_with plain sample_server None [] sample_log"
    using d by (simp add: safe_with_def sample_server_def plain_files_def phase_ok_def image_watermark_def)
  then show ?thesis unfolding safe_def by blast
qed

lemma sample_commit:
  "\<exists>v. server_step plain sample_server v \<and> clock v = sample_env \<and> healthy (pers v) \<and> published (pers v) = [(2, delete_batch)]"
proof -
  obtain q st' where q: "prepare_all sample_status [(sample_env, ObpDelete ''k'')] [] live_store = Some ((None, [q]), st')"
    "numbered (repl_offset sample_runtime) (concat (map pc_batches [q])) = Some [(2, delete_batch)]" using sample_prepared by blast
  from healthy_group [OF sample_healthy(1) q sample_writable] obtain p' where
    p': "process_commit_group sample_status sample_env [(sample_env, ObpDelete ''k'')] live_store sample_runtime = Some (complete_prepared [q], st', p')"
      "published p' = [(2, delete_batch)]" "healthy p'" by (auto simp: sample_healthy)
  have "sorted (map (now \<circ> fst) [(sample_env, ObpDelete ''k'')] @ [now sample_env])" by simp
  from process_group_spec [OF live_store(1) this, of sample_status sample_runtime] p'(1)
  have "group_committed sample_env live_store sample_runtime (complete_prepared [q]) st' p'"
    by (auto simp: group_rejected_def group_indeterminate_def complete_prepared_def)
  then have seg: "segments (binlog p') = segments (binlog sample_runtime)" unfolding group_committed_def by blast
  let ?v = "sample_server\<lparr>clock := (clock sample_server)\<lparr>now := now sample_env\<rparr>, live_data := st', pers := p'\<rparr>"
  have "server_step plain sample_server ?v"
    by (rule server_step.commit [where requests = "[(now sample_env, ObpDelete ''k'')]" and S = sample_status and results = "complete_prepared [q]"])
      (use p' seg sample_healthy in \<open>simp_all add: sample_server_def healthy_def delete_batch_def\<close>)
  with p' show ?thesis by (intro exI [of _ ?v]) (simp add: sample_server_def)
qed

lemma plain_zip: "gunzip plain (gzip plain x) = Inr x"
  by (simp add: plain_def)

theorem any_run_survives_witness:
  "\<exists>v r st1 d'. (server_step plain)\<^sup>*\<^sup>* sample_server v \<and> published (pers v) = [(2, delete_batch)] \<and>
     load_data_from_paths plain ((clock v)\<lparr>now := 500\<rparr>) (crash (on_disk (files v) (binlog (pers v))) (pers v) torn_tail) store_new = Some (Inr r, st1, d') \<and>
     last_sequence r = repl_offset (pers v) \<and> agrees ((clock v)\<lparr>now := 500\<rparr>) st1 (live_data v)"
proof -
  obtain v where v: "server_step plain sample_server v" "clock v = sample_env" "healthy (pers v)" "published (pers v) = [(2, delete_batch)]"
    using sample_commit by blast
  then have run: "(server_step plain)\<^sup>*\<^sup>* sample_server v" by blast
  have "torn (clock v) torn_tail" "now (clock v) \<le> 500" "\<not> fail_stop_started (pers v)"
    using v(2,3) torn_tail by (simp_all add: healthy_def) (simp add: sample_env_def)
  from any_run_survives [OF sample_safe run plain_zip this(3,2,1) store_new_wf store_new_idle] run v(4) show ?thesis by blast
qed

text \<open>
  C31. A segment cleanup that could not remove an older covered segment makes the files unrecoverable.
  When the snapshot covers two sealed segments and removing the older one fails, the cleanup still
  removes the newer one and succeeds; recovery, which rebuilt the store from the files before the
  cleanup, then refuses them because of the gap, although the snapshot covers everything missing.
\<close>

theorem cleanup_gap_blocks_recovery:
  fixes p :: persistence
  assumes h: "holds E (binlog p) [older, newer] active" and c: "contiguous (Some q) (older @ newer @ active)" and q: "q \<le> image_watermark s"
    and w: "segment_end newer \<le> snapshot_watermark p" and cs: "choices (binlog p) = [Proceed, Fail reason]" and ne: "active \<noteq> []"
    and d: "plain_files d" "snapshot_at Z E d s" and st: "store_wf st" "\<not> snapshot_active (store_engine st)"
  shows "(\<exists>cleanup. fst (refresh_segment_catalog E p) = Inr cleanup \<and> failed_files cleanup = 1) \<and>
    (\<exists>r st1 d1. load_data_from_paths Z E (on_disk d (binlog p)) st = Some (Inr r, st1, d1)) \<and>
    (\<exists>e st1 d1. load_data_from_paths Z E (on_disk d (binlog (compact_cleanup E p))) st = Some (Inl e, st1, d1))"
proof -
  note gap = cleanup_gap(1) [OF h c w cs]
  have ord: "sorted_wrt (\<lambda>x y. fst x < fst y) (older @ newer @ active)" using contiguous_sorted [OF c] by blast
  have "history_at E (on_disk d (binlog p)) [older, newer] active []" by (rule on_disk_history [OF h d(1)]) (use ord in \<open>simp add: sorted_wrt_append\<close>)
  moreover have "snapshot_at Z E (on_disk d (binlog p)) s"
    by (rule snapshot_current [OF d(2)], rule on_disk_snapshot [OF h]) (use ord in \<open>simp add: sorted_wrt_append\<close>)
  ultimately have "recovers Z E (on_disk d (binlog p)) s [older, newer] active st" using c q st by (intro recovery_spec) simp_all
  then have before: "\<exists>r st1 d1. load_data_from_paths Z E (on_disk d (binlog p)) st = Some (Inr r, st1, d1)" unfolding recovers_def Let_def by blast
  let ?d = "on_disk d (binlog (compact_cleanup E p))"
  have hist: "history_at E ?d [older] active []" by (rule on_disk_history [OF gap d(1)]) (use ord in \<open>simp add: sorted_wrt_append\<close>)
  have snap: "snapshot_at Z E ?d s"
    by (rule snapshot_current [OF d(2)], rule on_disk_snapshot [OF gap]) (use ord in \<open>simp add: sorted_wrt_append\<close>)
  have cont: "contiguous None older" "contiguous None active"
    using c by (auto simp: contiguous_append intro: contiguous_None)
  have parts: "older \<noteq> []" "newer \<noteq> []" using h by (auto simp: holds_def)
  have "u64_checked_add (segment_end older) 1 = Some (fst (hd newer))"
    using c parts by (cases newer) (auto simp: contiguous_append last_of_def follows_Inr segment_end_def)
  moreover have "fst (hd newer) < fst (hd active)" using ord parts ne by (cases newer; cases active) (auto simp: sorted_wrt_append)
  ultimately have "\<exists>e. check_history None (map (segment_file E) [older] @ [active_entry E active []]) = Inl e"
    using parts ne by (auto simp: segment_file_def active_entry_def segment_end_def)
  then obtain e where e: "check_history None (map (segment_file E) [older] @ [active_entry E active []]) = Inl e" by blast
  have "load_data_from_paths Z E ?d st = Some (Inl e, st, ?d)"
    by (rule history_refused [OF snap hist _ _ cont(2) e]) (use ord cont(1) in \<open>simp_all add: sorted_wrt_append\<close>)
  with before cleanup_gap(2) [OF h c w cs] show ?thesis by blast
qed

definition gap_binlog :: managed_binlog where
  "gap_binlog = \<lparr>handle_open = True, active_file = Some (logged sample_env [(3, put_batch)]), position = 0,
     segments = [(1, logged sample_env sample_log), (2, logged sample_env [(2, delete_batch)])], choices = [Proceed, Fail ''busy'']\<rparr>"

definition gap_runtime :: persistence where
  "gap_runtime = sample_runtime\<lparr>binlog := gap_binlog, repl_offset := 3, snapshot_watermark := 2\<rparr>"

definition gap_dir :: directory where
  "gap_dir = [(SNAPSHOT_PATH, snapshot_header 2)]"

lemma gap_snapshot: "snapshot_at plain sample_env gap_dir (Some (2, []))"
  by (simp add: snapshot_at_def image_entries_def current_snapshot_def gap_dir_def plain_def)

lemma gap_plain: "plain_files gap_dir"
  by (simp add: plain_files_def gap_dir_def paths_parse) (simp add: paths)

lemma gap_holds: "holds sample_env (binlog gap_runtime) [sample_log, [(2, delete_batch)]] [(3, put_batch)]"
  using sample_encodes by (auto simp: holds_def gap_runtime_def gap_binlog_def sample_log_def segment_end_def loggable_def
      put_batch_def delete_batch_def binlog_ok_def MAX_BINLOG_RECORD_SIZE_def MAX_BINLOG_SEGMENTS_def)

theorem cleanup_gap_blocks_recovery_witness:
  "(\<exists>cleanup. fst (refresh_segment_catalog sample_env gap_runtime) = Inr cleanup \<and> failed_files cleanup = 1) \<and>
    (\<exists>r st1 d1. load_data_from_paths plain sample_env (on_disk gap_dir (binlog gap_runtime)) store_new = Some (Inr r, st1, d1)) \<and>
    (\<exists>e st1 d1. load_data_from_paths plain sample_env (on_disk gap_dir (binlog (compact_cleanup sample_env gap_runtime))) store_new = Some (Inl e, st1, d1))"
  by (rule cleanup_gap_blocks_recovery [OF gap_holds _ _ _ _ _ gap_plain gap_snapshot store_new_wf store_new_idle, where q = 0 and reason = "''busy''"])
    (simp_all add: sample_log_def follows_Inr u64_checked_add_def image_watermark_def segment_end_def gap_runtime_def gap_binlog_def)

end
