(* ===== verification/Replication_Master.thy ===== *)
theory Replication_Master
  imports Replication_Wire Server
begin

text \<open>
  The master's side of replication in \<open>src/main.rs\<close>: the negotiation of \<open>SYNC3\<close>, the choice between
  the retained backlog and a full dump, the bytes of the initial synchronization, the live stream and
  the table of replicas. The laws say that the batches of a partial synchronization are exactly those
  the replica does not have.
\<close>

section \<open>Negotiation\<close>

definition eq_ignore_ascii_case :: "bytes \<Rightarrow> bytes \<Rightarrow> bool" where
  "eq_ignore_ascii_case a b \<longleftrightarrow> to_ascii_lowercase a = to_ascii_lowercase b"

definition replid_allows_partial :: "u64 \<Rightarrow> u64 \<Rightarrow> bool" where
  "replid_allows_partial requested_replid current_replid \<longleftrightarrow> requested_replid \<noteq> 0 \<and> requested_replid = current_replid"

definition partial_resync_possible :: "u64 \<Rightarrow> u64 option \<Rightarrow> u64 \<Rightarrow> bool" where
  "partial_resync_possible requested_offset backlog_oldest current_repl_offset =
     (if current_repl_offset < requested_offset then False
      else if requested_offset = current_repl_offset then True
      else (case backlog_oldest of
          Some oldest \<Rightarrow> (case u64_checked_add requested_offset 1 of Some next_offset \<Rightarrow> oldest \<le> next_offset | None \<Rightarrow> False)
        | None \<Rightarrow> False))"

record sync_request =
  requested_replid :: u64
  requested_offset :: u64
  heartbeat_enabled :: bool

definition sync_numbers :: "bytes \<Rightarrow> bytes \<Rightarrow> bool \<Rightarrow> bytes + sync_request" where
  "sync_numbers id_text offset heartbeat = (case (parse_u64 id_text, parse_u64 offset) of
      (Some r, Some s) \<Rightarrow> Inr \<lparr>requested_replid = r, requested_offset = s, heartbeat_enabled = heartbeat\<rparr>
    | _ \<Rightarrow> Inl ''ERR SYNC3 requires numeric replication ID and sequence'')"

text \<open>The arguments of \<open>SYNC3\<close>; \<open>Inl\<close> is the error reply, after which the connection is closed.\<close>

definition parse_sync3 :: "bool \<Rightarrow> bytes list \<Rightarrow> bytes + sync_request" where
  "parse_sync3 replica_role args =
     (if replica_role then Inl ''ERR chained replication is not supported''
      else (case args of
          [_, id_text, offset] \<Rightarrow> sync_numbers id_text offset False
        | [_, id_text, offset, capability] \<Rightarrow>
            if eq_ignore_ascii_case capability ''HEARTBEAT'' then sync_numbers id_text offset True
            else Inl ''ERR usage: SYNC3 replid sequence [HEARTBEAT]''
        | _ \<Rightarrow> Inl ''ERR usage: SYNC3 replid sequence [HEARTBEAT]''))"

section \<open>The initial synchronization\<close>

datatype sync_plan = Continue "(u64 \<times> committed_batch) list" | FullDump u64 "(bytes \<times> data_entry) list"

definition backlog_after :: "u64 \<Rightarrow> persistence \<Rightarrow> (u64 \<times> committed_batch) list" where
  "backlog_after offset p = filter (\<lambda>(off, _). offset < off) (backlog p)"

definition backlog_snapshot :: "u64 \<Rightarrow> sync_request \<Rightarrow> persistence \<Rightarrow> (u64 \<times> committed_batch) list option" where
  "backlog_snapshot repl_id req p =
     (if replid_allows_partial (requested_replid req) repl_id \<and> 0 < requested_offset req \<and>
         partial_resync_possible (requested_offset req) (case backlog p of [] \<Rightarrow> None | x # _ \<Rightarrow> Some (fst x)) (repl_offset p)
      then Some (backlog_after (requested_offset req) p) else None)"

text \<open>
  The write gate is taken once for the backlog, in the state \<open>p\<close>, and once more for a full dump, in
  the state \<open>p'\<close> with the store \<open>st'\<close>.
\<close>

definition plan_sync :: "env \<Rightarrow> u64 \<Rightarrow> sync_request \<Rightarrow> persistence \<Rightarrow> store \<Rightarrow> persistence \<Rightarrow> sync_plan \<times> store" where
  "plan_sync E repl_id req p st' p' = (case backlog_snapshot repl_id req p of
      Some missing \<Rightarrow> (Continue missing, st')
    | None \<Rightarrow> (case snapshot_all E (store_engine st') of (entries, e) \<Rightarrow> (FullDump (repl_offset p') entries, st'\<lparr>store_engine := e\<rparr>)))"

text \<open>The bytes sent before the result is known; \<open>Inl\<close> is an encoding error, which ends the session.\<close>

fun send_effects :: "env \<Rightarrow> (u64 \<times> committed_batch) list \<Rightarrow> u64 \<Rightarrow> bytes \<times> u64 presult" where
  "send_effects E [] last_sent = ([], Inr last_sent)"
| "send_effects E ((off, batch) # missing) last_sent = (case encode_replication_effect E off batch of
      Inl e \<Rightarrow> ([], Inl e)
    | Inr r \<Rightarrow> apfst ((@) (write_chunked_replication_record r)) (send_effects E missing off))"

fun send_entries :: "env \<Rightarrow> (bytes \<times> data_entry) list \<Rightarrow> bytes \<times> unit presult" where
  "send_entries E [] = ([], Inr ())"
| "send_entries E ((key, entry) # entries) = (case encode_full_sync_entry E key entry of
      Inl e \<Rightarrow> ([], Inl e)
    | Inr r \<Rightarrow> apfst ((@) (write_chunked_replication_record r)) (send_entries E entries))"

fun words_line :: "bytes list \<Rightarrow> bytes" where
  "words_line [] = CRLF"
| "words_line [w] = w @ CRLF"
| "words_line (w # ws) = w @ '' '' @ words_line ws"

definition sync_done_line :: "u64 \<Rightarrow> u64 presult \<Rightarrow> bytes" where
  "sync_done_line repl_id result = (case result of Inl _ \<Rightarrow> []
    | Inr last_sent \<Rightarrow> words_line [''+SYNCDONE3'', u64_to_string repl_id, u64_to_string last_sent])"

definition initial_sync :: "env \<Rightarrow> u64 \<Rightarrow> sync_request \<Rightarrow> sync_plan \<Rightarrow> bytes \<times> u64 presult" where
  "initial_sync E repl_id req plan = (case plan of
      Continue missing \<Rightarrow> (case send_effects E missing (requested_offset req) of (out, result) \<Rightarrow>
        (words_line [''+CONTINUE3'', u64_to_string repl_id, u64_to_string (requested_offset req)] @ out @ sync_done_line repl_id result, result))
    | FullDump offset entries \<Rightarrow> (case send_entries E entries of (out, sent) \<Rightarrow>
        let result = and_then sent (\<lambda>_. Inr offset) in
        (words_line [''+FULLRESYNC3'', u64_to_string repl_id, u64_to_string offset, nat_to_string (length entries)] @ out @
           sync_done_line repl_id result, result)))"

section \<open>The live stream\<close>

record master_session =
  last_sent_offset :: u64
  sent :: bytes

datatype stream_event = Received u64 committed_batch | HeartbeatTick | Lagged | ChannelClosed | ReaderEnded

text \<open>One turn of the loop; \<open>written\<close> says whether the writes succeed, \<open>None\<close> is the end of the session.\<close>

definition stream_turn :: "env \<Rightarrow> bool \<Rightarrow> bool \<Rightarrow> stream_event \<Rightarrow> master_session \<Rightarrow> master_session option" where
  "stream_turn E heartbeats written event s = (case event of
      Received offset batch \<Rightarrow>
        if offset \<le> last_sent_offset s then Some s
        else (case encode_replication_effect E offset batch of
            Inl _ \<Rightarrow> None
          | Inr r \<Rightarrow> if written then Some (s\<lparr>sent := sent s @ write_chunked_replication_record r, last_sent_offset := offset\<rparr>) else None)
    | HeartbeatTick \<Rightarrow>
        if \<not> heartbeats then Some s
        else if written then Some (s\<lparr>sent := sent s @ words_line [''REPLCONF'', ''PING'', u64_to_string (last_sent_offset s)]\<rparr>)
        else None
    | _ \<Rightarrow> None)"

section \<open>The table of replicas\<close>

record replica_status =
  addr :: bytes
  last_ack_offset :: u64
  last_ack_time :: u64

record replica_table =
  next_replica_id :: u64
  statuses :: "u64 \<Rightarrow> replica_status option"

definition register_replica :: "env \<Rightarrow> bytes \<Rightarrow> sync_request \<Rightarrow> replica_table \<Rightarrow> u64 \<times> replica_table" where
  "register_replica E peer req t = (let n = next_replica_id t + 1 in
     (n, t\<lparr>next_replica_id := n, statuses := (statuses t)(n \<mapsto> \<lparr>addr = peer, last_ack_offset = requested_offset req, last_ack_time = now E\<rparr>)\<rparr>))"

definition acknowledge :: "env \<Rightarrow> u64 \<Rightarrow> bytes list \<Rightarrow> replica_table \<Rightarrow> replica_table" where
  "acknowledge E n args t =
     (if args \<noteq> [] \<and> eq_ignore_ascii_case (args ! 0) ''REPLCONF'' \<and> 1 < length args \<and> eq_ignore_ascii_case (args ! 1) ''ACK''
      then (case (if 2 < length args then parse_u64 (args ! 2) else None, statuses t n) of
          (Some off, Some status) \<Rightarrow> t\<lparr>statuses := (statuses t)(n \<mapsto> status\<lparr>last_ack_offset := off, last_ack_time := now E\<rparr>)\<rparr>
        | _ \<Rightarrow> t)
      else t)"

definition remove_replica :: "u64 \<Rightarrow> replica_table \<Rightarrow> replica_table" where
  "remove_replica n t = t\<lparr>statuses := (statuses t)(n := None)\<rparr>"

section \<open>What a run of the master publishes\<close>

text \<open>The part of the state that replication reads: the sequence, the broadcast batches and the backlog.\<close>

definition stream_of :: "persistence \<Rightarrow> u64 \<times> history \<times> history" where
  "stream_of p = (repl_offset p, published p, backlog p)"

lemma stream_of_same: "same_runtime p p' \<Longrightarrow> stream_of p' = stream_of p"
  by (simp add: same_runtime_def stream_of_def)

lemma stream_of_update [simp]:
  "stream_of (p\<lparr>binlog := f\<rparr>) = stream_of p" "stream_of (p\<lparr>channel := c\<rparr>) = stream_of p" "stream_of (p\<lparr>write_count := m\<rparr>) = stream_of p"
  "stream_of (p\<lparr>active_binlog_bytes := n\<rparr>) = stream_of p" "stream_of (p\<lparr>compaction_write_budget_limit := n\<rparr>) = stream_of p"
  "stream_of (p\<lparr>physical_segment_count := m\<rparr>) = stream_of p" "stream_of (p\<lparr>unsnapshotted_segment_count := m\<rparr>) = stream_of p"
  "stream_of (p\<lparr>segment_cleanup_blocked := b\<rparr>) = stream_of p" "stream_of (p\<lparr>segment_catalog_unavailable := b\<rparr>) = stream_of p"
  "stream_of (p\<lparr>snapshot_watermark := n\<rparr>) = stream_of p" "stream_of (p\<lparr>compaction_entry_floor := m\<rparr>) = stream_of p"
  "stream_of (enter_fail_stop msg p) = stream_of p" "stream_of (mark_persistence_failed msg p) = stream_of p"
  "stream_of (enter_persistence_fail_stop msg p) = stream_of p" "stream_of (release_compaction_write_budget p) = stream_of p"
  by (simp_all add: stream_of_def enter_fail_stop_def mark_persistence_failed_def enter_persistence_fail_stop_def release_compaction_write_budget_def)

lemma worker_stream: "worker_call gone dropped op p = (r, p') \<Longrightarrow> stream_of p' = stream_of p"
  by (erule worker_call_cases) simp_all

lemma refresh_stream: "stream_of (snd (refresh_segment_catalog E p)) = stream_of p"
  using refresh_spec(1) [of E p] by (cases "refresh_segment_catalog E p") (auto intro: stream_of_same)

lemma seal_stream: "seal_generation text p = Some (r, p') \<Longrightarrow> stream_of p' = stream_of p"
  using worker_stream [of _ _ "worker_seal (repl_offset p)" p]
  by (cases "binlog_seal_active (repl_offset p) p")
    (auto simp: seal_generation_def binlog_seal_active_def record_sealed_segment_def Let_def split: sum.splits if_splits)

lemma preflush_stream: "preflush p = (r, p') \<Longrightarrow> stream_of p' = stream_of p"
  by (auto simp: preflush_def split: prod.splits)

lemma budget_stream: "activate_compaction_write_budget p = Some p' \<Longrightarrow> stream_of p' = stream_of p"
  by (auto simp: activate_compaction_write_budget_def split: if_splits)

lemma rollover_stream:
  assumes "rollover_generation_owned E p = Some (r, p')"
  shows "stream_of p' = stream_of p"
proof -
  obtain x p1 where x: "refresh_segment_catalog E p = (x, p1)" by (cases "refresh_segment_catalog E p")
  with refresh_stream [of E p] have "stream_of p1 = stream_of p" by simp
  with assms x show ?thesis
    by (auto simp: rollover_generation_owned_def split: if_splits sum.splits option.splits prod.splits dest!: budget_stream preflush_stream seal_stream)
qed

lemma capture_stream:
  assumes "compact_capture E st p = Some (r, st', p')"
  shows "stream_of p' = stream_of p"
proof -
  obtain x p1 where x: "refresh_segment_catalog E p = (x, p1)" by (cases "refresh_segment_catalog E p")
  with refresh_stream [of E p] have "stream_of p1 = stream_of p" by simp
  with assms x show ?thesis
    by (auto simp: compact_capture_def capture_snapshot_def split: if_splits sum.splits option.splits prod.splits dest!: budget_stream preflush_stream seal_stream)
qed

lemma capture_agrees:
  assumes "compact_capture E st p = Some (r, st', p')" and "store_wf st" and "now E \<le> now E'"
  shows "agrees E' st st'"
proof -
  have "st' = st \<or> (\<exists>snap e. begin_snapshot E (store_engine st) = Some (snap, e) \<and> st' = st\<lparr>store_engine := e\<rparr>)"
    using assms(1) by (auto simp: compact_capture_def capture_snapshot_def split: if_splits sum.splits option.splits prod.splits)
  then show ?thesis
  proof
    assume "st' = st"
    then show ?thesis by (simp add: agrees_def same_entry_def)
  next
    assume "\<exists>snap e. begin_snapshot E (store_engine st) = Some (snap, e) \<and> st' = st\<lparr>store_engine := e\<rparr>"
    then obtain snap e where b: "begin_snapshot E (store_engine st) = Some (snap, e)" "st' = st\<lparr>store_engine := e\<rparr>" by blast
    show ?thesis using begin_snapshot_ok(1) [OF b(1)] assms(2,3) by (intro contents_agrees [of E]) (simp_all add: b(2) store_wf_def)
  qed
qed

lemma finish_stream: "compact_finish left upstream c k p = (r, k', p') \<Longrightarrow> stream_of p' = stream_of p"
  using worker_stream [of _ _ worker_checkpoint p]
  by (cases "binlog_checkpoint p") (auto simp: compact_finish_def binlog_checkpoint_def Let_def split: sum.splits if_splits prod.splits)

lemma sync_stream: "run_periodic_sync_once p = (r, p') \<Longrightarrow> stream_of p' = stream_of p"
  using worker_stream [of _ _ worker_sync_data p]
  by (cases "binlog_sync_data p") (auto simp: run_periodic_sync_once_def binlog_sync_data_def Let_def split: sum.splits if_splits)

lemma group_stream:
  assumes "process_commit_group S E requests st p = Some (results, st', p')"
  shows "\<exists>batches. published p' = published p @ batches \<and> backlog p' = fold push_backlog batches (backlog p)"
proof -
  have pub: "\<exists>batches. published q = published p @ batches \<and> backlog q = fold push_backlog batches (backlog p)"
    if "persist_and_publish_master_batches E batches p = (r, q)" for batches r q
  proof -
    obtain x p1 where x: "accept_next_batches E batches COMPACTION_THRESHOLD p = (x, p1)" by (cases "accept_next_batches E batches COMPACTION_THRESHOLD p")
    have "published p1 = published p" "backlog p1 = backlog p" using accept_spec(5) [OF x] by (cases p; cases p1; simp)+
    with that x show ?thesis
      by (cases x) (auto simp: persist_and_publish_master_batches_def intro: exI [of _ "[]"])
  qed
  obtain q where q: "q = p \<or> (\<exists>batches r. persist_and_publish_master_batches E batches p = (r, q))"
    "p' = q \<or> (\<exists>msg. p' = mark_persistence_failed msg q \<or> p' = enter_persistence_fail_stop msg q)" by (rule group_outcome [OF assms])
  have "stream_of p' = stream_of q" using q(2) by auto
  then have "published p' = published q" "backlog p' = backlog q" by (simp_all add: stream_of_def)
  with q(1) pub show ?thesis by (auto intro: exI [of _ "[]"])
qed

text \<open>
  A run publishes \<open>batches\<close>: they continue the sequence, are in the backlog as far as it reaches, can be
  encoded, and take any store that agrees with the old live store to one that agrees with the new.
\<close>

definition publishes :: "env \<Rightarrow> history \<Rightarrow> store \<Rightarrow> persistence \<Rightarrow> store \<Rightarrow> persistence \<Rightarrow> bool" where
  "publishes E batches st p st' p' \<longleftrightarrow> numbered (repl_offset p) (map snd batches) = Some batches \<and>
     published p' = published p @ batches \<and> backlog p' = fold push_backlog batches (backlog p) \<and>
     repl_offset p' = (if batches = [] then repl_offset p else fst (last batches)) \<and> loggable E batches \<and>
     (\<forall>E' rep. now E \<le> now E' \<and> store_wf rep \<and> agrees E' rep st \<longrightarrow> agrees E' (replay E' (map snd batches) rep) st')"

lemma publishes_nothing:
  assumes "stream_of p' = stream_of p" and "\<And>E'. now E \<le> now E' \<Longrightarrow> agrees E' st st'"
  shows "publishes E [] st p st' p'"
  using assms agrees_trans by (auto simp: publishes_def stream_of_def replay_def loggable_def)

lemma numbered_append: "numbered n xs = Some ys \<Longrightarrow> numbered (if ys = [] then n else fst (last ys)) xs' = Some ys' \<Longrightarrow> numbered n (xs @ xs') = Some (ys @ ys')"
  by (induction xs arbitrary: n ys) (auto split: option.splits if_splits)

lemma publishes_trans:
  assumes a: "publishes E xs st p st1 p1" and b: "publishes (E\<lparr>now := t\<rparr>) ys st1 p1 st2 p2" and "now E \<le> t"
  shows "publishes (E\<lparr>now := t\<rparr>) (xs @ ys) st p st2 p2"
  unfolding publishes_def
proof (intro conjI allI impI)
  show "numbered (repl_offset p) (map snd (xs @ ys)) = Some (xs @ ys)"
    using a b numbered_append [of "repl_offset p" "map snd xs" xs "map snd ys" ys] by (simp add: publishes_def)
  show "repl_offset p2 = (if xs @ ys = [] then repl_offset p else fst (last (xs @ ys)))" using a b by (auto simp: publishes_def)
  fix E' rep assume r: "now (E\<lparr>now := t\<rparr>) \<le> now E' \<and> store_wf rep \<and> agrees E' rep st"
  have "agrees E' (replay E' (map snd xs) rep) st1" using a r assms(3) by (auto simp: publishes_def)
  moreover have "store_wf (replay E' (map snd xs) rep)" using apply_batches_view r by (auto simp: replay_def)
  ultimately have "agrees E' (replay E' (map snd ys) (replay E' (map snd xs) rep)) st2" using b r by (simp add: publishes_def)
  then show "agrees E' (replay E' (map snd (xs @ ys)) rep) st2" by (simp add: replay_def)
qed (use a b in \<open>simp_all add: publishes_def loggable_append\<close>)

lemma step_publishes:
  assumes step: "server_step Z v v'" and "safe Z v" and up: "\<not> fail_stop_started (pers v')"
  shows "\<exists>batches t. clock v' = (clock v)\<lparr>now := t\<rparr> \<and> now (clock v) \<le> t \<and> publishes (clock v') batches (live_data v) (pers v) (live_data v') (pers v')"
proof -
  from step have "\<not> fail_stop_started (pers v)" by cases
  with assms(2) obtain s segs active where safe: "safe_with Z v s segs active" unfolding safe_def by blast
  then have wf: "store_wf (live_data v)" unfolding safe_with_def by blast
  have same [simp]: "agrees E' st st" for E' st by (simp add: agrees_def same_entry_def)
  have quiet: ?thesis if q: "clock v' = clock v" "stream_of (pers v') = stream_of (pers v)"
    "\<And>E'. now (clock v) \<le> now E' \<Longrightarrow> agrees E' (live_data v) (live_data v')"
    using publishes_nothing [OF q(2) q(3)] by (intro exI [of _ "[]"] exI [of _ "now (clock v)"]) (simp add: q(1))
  from step show ?thesis
  proof cases
    case (tick t)
    then show ?thesis using publishes_nothing [of "pers v" "pers v"] by (intro exI [of _ "[]"] exI [of _ t]) simp
  next
    case expire
    show ?thesis by (rule quiet) (use expire gc_agrees [OF wf, of "clock v"] in auto)
  next
    case (read args S)
    show ?thesis by (rule quiet) (use read read_agrees [OF wf, of args "clock v"] in auto)
  next
    case (fetch key)
    show ?thesis by (rule quiet) (use fetch get_agrees [OF wf, of "clock v"] in auto)
  next
    case (commit requests t S results st p)
    let ?E = "(clock v)\<lparr>now := t\<rparr>"
    have "sorted (map (now \<circ> fst) (map (apfst (\<lambda>t. (clock v)\<lparr>now := t\<rparr>)) requests) @ [now ?E])" using commit(3) by (simp add: comp_def)
    from process_group_spec [OF wf this, of S "pers v"] commit(4)
    have out: "group_committed ?E (live_data v) (pers v) results st p \<or> group_rejected ?E (live_data v) (pers v) results st p \<or>
      group_indeterminate (pers v) results p" by auto
    obtain xs where xs: "published p = published (pers v) @ xs" "backlog p = fold push_backlog xs (backlog (pers v))" using group_stream [OF commit(4)] by blast
    have "publishes ?E xs (live_data v) (pers v) st p"
    proof (cases "group_committed ?E (live_data v) (pers v) results st p")
      case True
      then have "loggable ?E xs" using xs(1) commit(5) unfolding group_committed_def loggable_def list_all_iff by fastforce
      with True xs show ?thesis unfolding group_committed_def publishes_def by auto
    next
      case False
      with out up commit(1) have r: "group_rejected ?E (live_data v) (pers v) results st p" by (auto simp: group_indeterminate_def)
      then have "xs = []" using xs(1) by (simp add: group_rejected_def)
      with r xs show ?thesis by (auto simp: group_rejected_def stream_of_def intro!: publishes_nothing)
    qed
    then show ?thesis using commit(1,3) by auto
  next
    case (periodic_sync r p)
    show ?thesis by (rule quiet) (use periodic_sync sync_stream in auto)
  next
    case (rollover r p)
    show ?thesis by (rule quiet) (use rollover rollover_stream in auto)
  next
    case (capture_failed e st p)
    show ?thesis by (rule quiet) (use capture_failed capture_stream capture_agrees [OF _ wf] in auto)
  next
    case (capture c st p)
    show ?thesis by (rule quiet) (use capture capture_stream capture_agrees [OF _ wf] in auto)
  next
    case (close_snapshot e)
    show ?thesis by (rule quiet) (use close_snapshot finish_agrees [OF _ wf, of e "clock v"] in auto)
  next
    case (install c partial cs r cs' d)
    show ?thesis by (rule quiet) (use install in auto)
  next
    case (finish c left upstream cs r cs' d p)
    show ?thesis by (rule quiet) (use finish finish_stream in auto)
  next
    case cleanup
    show ?thesis by (rule quiet) (use cleanup refresh_stream in \<open>auto simp: compact_cleanup_def\<close>)
  qed
qed

lemma run_publishes:
  assumes "(server_step Z)\<^sup>*\<^sup>* v v'" and "safe Z v" and zip: "\<And>x. gunzip Z (gzip Z x) = Inr x" and "\<not> fail_stop_started (pers v')"
  shows "\<exists>batches t. clock v' = (clock v)\<lparr>now := t\<rparr> \<and> now (clock v) \<le> t \<and> publishes (clock v') batches (live_data v) (pers v) (live_data v') (pers v')"
  using assms(1,4)
proof (induction rule: rtranclp_induct)
  case base
  have "publishes (clock v) [] (live_data v) (pers v) (live_data v) (pers v)"
    by (rule publishes_nothing) (simp_all add: agrees_def same_entry_def)
  then show ?case by (intro exI [of _ "[]"] exI [of _ "now (clock v)"]) simp
next
  case (step v1 v2)
  from step(2) have "\<not> fail_stop_started (pers v1)" by cases
  with step(3) obtain xs t where xs: "clock v1 = (clock v)\<lparr>now := t\<rparr>" "now (clock v) \<le> t" "publishes (clock v1) xs (live_data v) (pers v) (live_data v1) (pers v1)" by blast
  from step_publishes [OF step(2) run_safe [OF step(1) assms(2) zip] step(4)] obtain ys u where
    ys: "clock v2 = (clock v1)\<lparr>now := u\<rparr>" "now (clock v1) \<le> u" "publishes (clock v2) ys (live_data v1) (pers v1) (live_data v2) (pers v2)" by blast
  have "publishes (clock v2) (xs @ ys) (live_data v) (pers v) (live_data v2) (pers v2)"
    using publishes_trans [OF xs(3) _ ys(2), of ys] ys(1,3) by simp
  with xs ys show ?case by (intro exI [of _ "xs @ ys"] exI [of _ u]) simp
qed

section \<open>The backlog\<close>

text \<open>The backlog is a gap-free history that ends with the current sequence.\<close>

definition backlog_ok :: "persistence \<Rightarrow> bool" where
  "backlog_ok p \<longleftrightarrow> (\<exists>q. contiguous (Some q) (backlog p) \<and> last_of (Some q) (backlog p) = Some (repl_offset p))"

lemma push_all: "\<exists>n. fold push_backlog xs b = drop n (b @ xs)"
proof (induction xs rule: rev_induct)
  case (snoc x xs)
  then obtain n where n: "fold push_backlog xs b = drop n (b @ xs)" by blast
  have "fold push_backlog (xs @ [x]) b = drop (length (fold push_backlog xs b @ [x]) - BACKLOG_CAPACITY) (fold push_backlog xs b @ [x])"
    by (simp add: push_backlog_def Let_def)
  also have "fold push_backlog xs b @ [x] = drop (min n (length (b @ xs))) (b @ xs @ [x])" unfolding n by (simp add: min_def)
  finally show ?case by (metis drop_drop)
qed (auto intro: exI [of _ 0])

lemma contiguous_drop:
  assumes "contiguous (Some q) xs" and "last_of (Some q) xs = Some l"
  shows "\<exists>q'. contiguous (Some q') (drop n xs) \<and> last_of (Some q') (drop n xs) = Some l"
proof -
  define q' where "q' = the (last_of (Some q) (take n xs))"
  then have q': "last_of (Some q) (take n xs) = Some q'" by (simp add: last_of_def)
  have "contiguous (Some q) (take n xs @ drop n xs)" "last_of (Some q) (take n xs @ drop n xs) = Some l" using assms by simp_all
  with q' show ?thesis by (simp only: contiguous_append last_of_append) blast
qed

lemma publishes_backlog:
  assumes "publishes E batches st p st' p'" and "backlog_ok p"
  shows "backlog_ok p'"
proof -
  from assms(2) obtain q where q: "contiguous (Some q) (backlog p)" "last_of (Some q) (backlog p) = Some (repl_offset p)" unfolding backlog_ok_def by blast
  from assms(1) have b: "numbered (repl_offset p) (map snd batches) = Some batches" "backlog p' = fold push_backlog batches (backlog p)"
    "repl_offset p' = (if batches = [] then repl_offset p else fst (last batches))" unfolding publishes_def by blast+
  note c = contiguous_numbered [OF b(1)]
  have "contiguous (Some q) (backlog p @ batches)" using q c by (simp add: contiguous_append)
  moreover have "last_of (Some q) (backlog p @ batches) = Some (repl_offset p')" using c by (simp only: last_of_append q(2) b(3))
  ultimately show ?thesis unfolding backlog_ok_def b(2) using contiguous_drop push_all [of batches "backlog p"] by metis
qed

lemma contiguous_bounds:
  assumes "contiguous (Some q) xs" and "last_of (Some q) xs = Some l" and "x \<in> set xs"
  shows "q < fst x" "fst x \<le> l"
proof -
  show "q < fst x" using contiguous_sorted [OF assms(1)] assms(3) by blast
  have "xs \<noteq> []" using assms(3) by auto
  then have "l = fst (last xs)" using assms(2) by (simp add: last_of_def)
  with sorted_last [OF conjunct1 [OF contiguous_sorted [OF assms(1)]] assms(3)] show "fst x \<le> l" by simp
qed

lemma contiguous_head: "contiguous (Some q) (x # xs) \<Longrightarrow> unat (fst x) = Suc (unat q)"
  using u64_successor by (fastforce simp: follows_Inr)

lemma contiguous_suffix_whole:
  assumes xs: "contiguous (Some r) xs" "last_of (Some r) xs = Some l" and ys: "contiguous (Some r) (drop n xs)" "last_of (Some r) (drop n xs) = Some l"
  shows "drop n xs = xs"
proof (cases "drop n xs")
  case Nil
  then have "l = r" using ys(2) by (simp add: last_of_def)
  then have "xs = []" using contiguous_bounds [OF xs, of "last xs"] xs(2) by (auto simp: last_of_def split: if_splits)
  then show ?thesis by simp
next
  case (Cons y ys)
  have "contiguous (Some r) (y # ys)" using assms(3) Cons by simp
  from contiguous_head [OF this] have y: "unat (fst y) = Suc (unat r)" .
  obtain x zs where x: "xs = x # zs" using Cons by (cases xs) auto
  have "contiguous (Some r) (x # zs)" using xs(1) x by simp
  from contiguous_head [OF this] y have eq: "fst x = fst y" by (simp add: word_unat_eq_iff)
  have less: "fst x < fst z" if "z \<in> set zs" for z using conjunct1 [OF contiguous_sorted [OF xs(1)]] x that by simp
  have "n = 0"
  proof (rule ccontr)
    assume "n \<noteq> 0"
    then have "y \<in> set zs" using Cons x by (cases n) (auto intro: in_set_dropD [of _ "n - 1"])
    with less eq show False by fastforce
  qed
  then show ?thesis by simp
qed

lemma backlog_after_alt: "backlog_after r p = filter (\<lambda>x. r < fst x) (backlog p)"
  by (simp add: backlog_after_def case_prod_unfold)

lemma filter_above: "sorted_wrt (\<lambda>x y. fst x < fst y) xs \<Longrightarrow> filter (\<lambda>x. (r :: u64) < fst x) xs = dropWhile (\<lambda>x. fst x \<le> r) xs"
proof (induction xs)
  case (Cons x xs)
  show ?case
  proof (cases "fst x \<le> r")
    case False
    then have "filter (\<lambda>x. r < fst x) xs = xs" using Cons.prems by (force simp: filter_id_conv)
    with False show ?thesis by simp
  qed (use Cons in \<open>simp add: not_less [symmetric]\<close>)
qed simp

lemma partial_exact:
  assumes "backlog_ok p" and "partial_resync_possible r (case backlog p of [] \<Rightarrow> None | x # _ \<Rightarrow> Some (fst x)) (repl_offset p)"
  shows "contiguous (Some r) (backlog_after r p) \<and> last_of (Some r) (backlog_after r p) = Some (repl_offset p)"
proof -
  let ?m = "repl_offset p" and ?b = "backlog p"
  from assms(1) obtain q where q: "contiguous (Some q) ?b" "last_of (Some q) ?b = Some ?m" unfolding backlog_ok_def by blast
  note bounds = contiguous_bounds [OF q]
  show ?thesis
  proof (cases "r = ?m")
    case True
    then have "backlog_after r p = []" using bounds(2) by (simp add: backlog_after_alt filter_empty_conv not_less)
    then show ?thesis by (simp add: last_of_def True)
  next
    case False
    with assms(2) obtain x b n where x: "?b = x # b" "u64_checked_add r 1 = Some n" "fst x \<le> n" "r < ?m"
      by (auto simp: partial_resync_possible_def split: if_splits list.splits option.splits)
    let ?pre = "takeWhile (\<lambda>x. fst x \<le> r) ?b" and ?post = "dropWhile (\<lambda>x. fst x \<le> r) ?b"
    have "sorted_wrt (\<lambda>x y. fst x < fst y) ?b" using contiguous_sorted [OF q(1)] by blast
    then have after: "backlog_after r p = ?post" unfolding backlog_after_alt by (rule filter_above)
    define w where "w = the (last_of (Some q) ?pre)"
    then have w: "last_of (Some q) ?pre = Some w" by (simp add: last_of_def)
    have whole: "contiguous (Some q) (?pre @ ?post)" "last_of (Some q) (?pre @ ?post) = Some ?m" using q by simp_all
    then have post: "contiguous (Some w) ?post" "last_of (Some w) ?post = Some ?m" by (simp_all only: contiguous_append last_of_append w)
    have ne: "?post \<noteq> []"
    proof
      assume "?post = []"
      then have "fst (last ?b) \<le> r" using x(1) last_in_set [of ?b] by (metis dropWhile_eq_Nil_conv list.distinct(1))
      with q(2) x show False by (simp add: last_of_def)
    qed
    then obtain y ys where y: "?post = y # ys" by (cases ?post) auto
    have "\<not> fst y \<le> r" using hd_dropWhile [OF ne] y by simp
    moreover have "unat (fst y) = Suc (unat w)" using post(1) y contiguous_head by metis
    ultimately have "unat r \<le> unat w" by (simp add: word_le_nat_alt)
    moreover have "unat w \<le> unat r"
    proof (cases ?pre)
      case Nil
      then have "w = q" using w by (simp add: last_of_def)
      moreover have "unat (fst x) = Suc (unat q)" using q(1) x(1) contiguous_head by metis
      ultimately show ?thesis using x(2,3) u64_successor [OF x(2)] by (simp add: word_le_nat_alt)
    next
      case (Cons z zs)
      then have "w = fst (last ?pre)" using w by (simp add: last_of_def)
      moreover have "last ?pre \<in> set ?pre" using Cons by (metis last_in_set list.distinct(1))
      ultimately show ?thesis using set_takeWhileD [of "last ?pre" "\<lambda>x. fst x \<le> r"] by (simp add: word_le_nat_alt)
    qed
    ultimately have "w = r" by (simp add: word_unat_eq_iff)
    with post after show ?thesis by simp
  qed
qed

text \<open>
  A replica that stopped at the sequence of an earlier state gets from the backlog exactly the batches
  published since then.
\<close>

lemma partial_published:
  assumes pub: "publishes E batches st p st' p'" and ok: "backlog_ok p"
    and possible: "partial_resync_possible (repl_offset p) (case backlog p' of [] \<Rightarrow> None | x # _ \<Rightarrow> Some (fst x)) (repl_offset p')"
  shows "backlog_after (repl_offset p) p' = batches"
proof -
  let ?r = "repl_offset p"
  from ok obtain q where q: "contiguous (Some q) (backlog p)" "last_of (Some q) (backlog p) = Some ?r" unfolding backlog_ok_def by blast
  from pub have b: "numbered ?r (map snd batches) = Some batches" "backlog p' = fold push_backlog batches (backlog p)"
    "repl_offset p' = (if batches = [] then ?r else fst (last batches))" unfolding publishes_def by blast+
  have c: "contiguous (Some ?r) batches" "last_of (Some ?r) batches = Some (repl_offset p')" using contiguous_numbered [OF b(1)] by (simp_all add: b(3))
  obtain n where n: "backlog p' = drop n (backlog p @ batches)" using b(2) push_all by metis
  have "filter (\<lambda>x. ?r < fst x) (drop n (backlog p)) = []" using contiguous_bounds(2) [OF q] in_set_dropD by (fastforce simp: filter_empty_conv)
  moreover have "filter (\<lambda>x. ?r < fst x) (drop k batches) = drop k batches" for k
    using contiguous_bounds(1) [OF c] in_set_dropD by (fastforce simp: filter_id_conv)
  ultimately have after: "backlog_after ?r p' = drop (n - length (backlog p)) batches"
    by (simp add: backlog_after_alt n)
  from partial_exact [OF publishes_backlog [OF pub ok] possible] contiguous_suffix_whole [OF c] show ?thesis unfolding after by blast
qed

end
