(* ===== verification/Replica.thy ===== *)
theory Replica
  imports Replication_Master
begin

text \<open>
  The replica's side of replication in \<open>src/main.rs\<close>: the installation of replicated batches and of a
  full synchronization, promotion, the markers of the protocol, and the replica's connection loop.

  The state is the store, the commit runtime, the files other than the binlog with the choices for
  their system calls, and the identity and sequence the loop keeps between connections. \<open>link\<close> is a
  connection: the bytes still to come, cut into chunks in any way, and for every wait either the clock
  when it completes or that a stop was requested first.
\<close>

section \<open>State\<close>

record replica =
  replica_data :: store
  replica_pers :: persistence
  replica_files :: disk
  upstream_replid :: u64
  promote_to_master :: bool
  replica_role :: bool
  local_replid :: u64
  local_offset :: u64

section \<open>Installing replicated effects\<close>

definition persist_and_apply_replica_effect :: "env \<Rightarrow> u64 \<Rightarrow> committed_batch \<Rightarrow> store \<Rightarrow> persistence \<Rightarrow> unit presult \<times> store \<times> persistence" where
  "persist_and_apply_replica_effect E sequence batch st p =
     (if \<not> accepting_writes p then (fail (persistence_unavailable_message p), st, p)
      else if \<not> replication_ready p then (fail ''Replica has no installed durable synchronization baseline'', st, p)
      else (case u64_checked_add (repl_offset p) 1 of
          None \<Rightarrow> (fail ''Replica sequence is exhausted'', st, p)
        | Some expected \<Rightarrow>
            if sequence \<noteq> expected
            then (fail (''Replication sequence mismatch: expected '' @ u64_to_string expected @ '', received '' @ u64_to_string sequence), st, p)
            else (case accept_next_batch E sequence batch COMPACTION_THRESHOLD p of
                (Inr _, p1) \<Rightarrow> (Inr (), apply_committed_batch E batch st, p1)
              | (Inl e, p1) \<Rightarrow> (Inl e, st,
                  if indeterminate e
                  then enter_persistence_fail_stop (''Replicated effect persistence is indeterminate at sequence '' @ u64_to_string sequence @ '': '' @ message e) p1
                  else mark_persistence_failed (''Unable to persist replicated effect at sequence '' @ u64_to_string sequence @ '': '' @ message e) p1))))"

section \<open>Full synchronization\<close>

text \<open>\<open>left\<close> is what a failed write leaves in the temporary state file.\<close>

definition begin_full_sync_reception :: "bytes \<Rightarrow> replica \<Rightarrow> unit presult \<times> replica" where
  "begin_full_sync_reception left r = (let p = replica_pers r in
     if promote_to_master r \<or> stop_requested p
     then (fail ''Replica promotion started before full synchronization could begin'', r)
     else if \<not> accepting_writes p then (fail (persistence_unavailable_message p), r)
     else (case write_replica_installing left (replica_files r) of
         (Inl e, k) \<Rightarrow> (Inl e, r\<lparr>replica_files := k, replica_pers := mark_persistence_failed
           (''Unable to invalidate the previous replica baseline before full synchronization: '' @ message e) p\<rparr>)
       | (Inr _, k) \<Rightarrow> (Inr (), r\<lparr>replica_files := k, replica_pers := p\<lparr>replication_ready := False\<rparr>, upstream_replid := 0\<rparr>)))"

text \<open>An indeterminate error of the binlog worker stops the server; other errors are returned.\<close>

definition stop_if_indeterminate :: "bytes \<Rightarrow> persistence_error \<Rightarrow> persistence \<Rightarrow> persistence" where
  "stop_if_indeterminate context_text e p = (if indeterminate e then enter_persistence_fail_stop (context_text @ message e) p else p)"

text \<open>The files of the new baseline, after the old history is gone; every failure here is indeterminate.\<close>

definition write_baseline :: "compression \<Rightarrow> env \<Rightarrow> bytes \<Rightarrow> bytes \<Rightarrow> u64 \<Rightarrow> u64 \<Rightarrow> (bytes \<times> data_entry) list \<Rightarrow> disk \<Rightarrow> unit presult \<times> disk" where
  "write_baseline Z E partial left upstream sequence entries k =
     and_next (apfst (map_sum (\<lambda>e. persistence_indeterminate (''Replica baseline snapshot failed after binlog rotation: '' @ message e)) id)
         (write_snapshot_file Z E entries sequence partial k)) (\<lambda>_ k.
       apfst (map_sum (\<lambda>e. persistence_indeterminate (''Replica identity installation failed after baseline replacement: '' @ message e)) id)
         (write_replica_identity left \<lparr>replid = upstream, baseline_sequence = sequence\<rparr> k))"

definition install_full_sync :: "compression \<Rightarrow> env \<Rightarrow> bytes \<Rightarrow> bytes \<Rightarrow> bytes \<Rightarrow> u64 \<Rightarrow> u64 \<Rightarrow> store \<Rightarrow> replica \<Rightarrow> (unit presult \<times> replica) option" where
  "install_full_sync Z E partial left left' upstream sequence staged r = (let p = replica_pers r in
     if upstream = 0 then Some (fail ''Full synchronization requires a non-zero replication ID'', r)
     else if promote_to_master r \<or> stop_requested p
     then Some (fail ''Replica promotion started before full synchronization could be installed'', r)
     else if \<not> accepting_writes p then Some (fail (persistence_unavailable_message p), r)
     else (case binlog_flush (p\<lparr>replication_ready := False\<rparr>) of
         (Inl e, p1) \<Rightarrow> Some (Inl e, r\<lparr>replica_pers := stop_if_indeterminate ''Replica baseline flush is indeterminate: '' e p1\<rparr>)
       | (Inr _, p1) \<Rightarrow> (case write_replica_installing left (replica_files r) of
           (Inl e, k1) \<Rightarrow> Some (Inl e, r\<lparr>replica_pers := p1, replica_files := k1\<rparr>)
         | (Inr _, k1) \<Rightarrow> (case binlog_truncate p1 of
             (Inl e, p2) \<Rightarrow> Some (Inl e, r\<lparr>replica_pers := stop_if_indeterminate ''Replica baseline rotation is indeterminate: '' e p2, replica_files := k1\<rparr>)
           | (Inr _, p2) \<Rightarrow> (case snapshot_all E (store_engine staged) of (entries, _) \<Rightarrow>
               (case write_baseline Z E partial left' upstream sequence entries k1 of
                 (Inl e, k2) \<Rightarrow> Some (Inl e, r\<lparr>replica_pers := enter_persistence_fail_stop (message e) p2, replica_files := k2\<rparr>)
               | (Inr _, k2) \<Rightarrow> (case replace_all E entries (store_engine (replica_data r)) of
                   None \<Rightarrow> None
                 | Some e \<Rightarrow> Some (Inr (), r\<lparr>replica_data := (replica_data r)\<lparr>store_engine := e\<rparr>, replica_files := k2,
                     replica_pers := (install_baseline sequence (length entries) p2)\<lparr>replication_ready := True, backlog := []\<rparr>,
                     upstream_replid := upstream\<rparr>))))))))"

section \<open>Promotion\<close>

definition commit_replica_promotion :: "bytes \<Rightarrow> replica \<Rightarrow> unit presult \<times> replica" where
  "commit_replica_promotion left r = (let p = replica_pers r in
     if \<not> replication_ready p then (fail ''Replica is not durably synchronized and cannot be promoted'', r)
     else (case binlog_flush p of
         (Inl e, p1) \<Rightarrow> (Inl e, r\<lparr>replica_pers := stop_if_indeterminate ''Replica promotion flush is indeterminate: '' e p1\<rparr>)
       | (Inr _, p1) \<Rightarrow> (case write_replica_detached left (replica_files r) of
           (Inl e, k) \<Rightarrow> (Inl e, r\<lparr>replica_pers := p1, replica_files := k\<rparr>)
         | (Inr _, k) \<Rightarrow> (Inr (), r\<lparr>replica_pers := p1\<lparr>replication_ready := False\<rparr>, replica_files := k, upstream_replid := 0,
             promote_to_master := True, replica_role := False\<rparr>))))"

text \<open>\<open>stopped\<close> is the outcome of waiting for the connection loop to end.\<close>

definition prepare_replica_promotion :: "bytes \<Rightarrow> unit presult \<Rightarrow> replica \<Rightarrow> unit presult \<times> replica" where
  "prepare_replica_promotion left stopped r =
     (if \<not> replication_ready (replica_pers r) then (fail ''Replica is not durably synchronized and cannot be promoted'', r)
      else let r1 = r\<lparr>replica_pers := (replica_pers r)\<lparr>stop_requested := True\<rparr>\<rparr> in
        (case stopped of Inl e \<Rightarrow> (Inl e, r1) | Inr _ \<Rightarrow> commit_replica_promotion left r1))"

definition maybe_auto_promote_replica :: "bytes \<Rightarrow> nat option \<Rightarrow> bool \<Rightarrow> nat \<Rightarrow> nat \<Rightarrow> replica \<Rightarrow> bool \<times> replica" where
  "maybe_auto_promote_replica left unreachable auto_failover failover_timeout instant r =
     (if \<not> auto_failover \<or> (case unreachable of None \<Rightarrow> True | Some since \<Rightarrow> instant - since < failover_timeout) then (False, r)
      else apfst (\<lambda>result. case result of Inr _ \<Rightarrow> True | Inl _ \<Rightarrow> False) (commit_replica_promotion left r))"

section \<open>The markers of the protocol\<close>

datatype sync_handshake = FullHandshake u64 u64 nat | PartialHandshake u64 u64

definition handshake_replid :: "bytes \<Rightarrow> u64 presult" where
  "handshake_replid word = and_then (ok_or ''Invalid master replication ID'' (parse_u64 word)) (\<lambda>n.
     if n = 0 then fail ''Master replication ID must be non-zero'' else Inr n)"

definition parse_replica_sync_handshake :: "bytes list \<Rightarrow> sync_handshake presult" where
  "parse_replica_sync_handshake marker =
     (if marker \<noteq> [] \<and> marker ! 0 = ''+FULLRESYNC3'' \<and> length marker = 4
      then and_then (handshake_replid (marker ! 1)) (\<lambda>n.
        and_then (ok_or ''Invalid full synchronization sequence'' (parse_u64 (marker ! 2))) (\<lambda>sequence.
        and_then (ok_or ''Invalid full synchronization entry count'' (parse_usize (marker ! 3))) (\<lambda>entries.
          if MAX_KEYS < entries then fail ''Full synchronization entry count exceeds the configured key limit''
          else Inr (FullHandshake n sequence entries))))
      else if marker \<noteq> [] \<and> marker ! 0 = ''+CONTINUE3'' \<and> length marker = 3
      then and_then (handshake_replid (marker ! 1)) (\<lambda>n.
        and_then (ok_or ''Invalid partial synchronization sequence'' (parse_u64 (marker ! 2))) (\<lambda>sequence.
          Inr (PartialHandshake n sequence)))
      else fail ''Unexpected or malformed replication handshake'')"

definition parse_replica_sync_done :: "bytes list \<Rightarrow> u64 \<Rightarrow> u64 presult" where
  "parse_replica_sync_done marker expected_replid =
     (if length marker \<noteq> 3 \<or> marker ! 0 \<noteq> ''+SYNCDONE3'' then fail ''Missing or malformed synchronization completion marker''
      else and_then (ok_or ''Invalid completion replication ID'' (parse_u64 (marker ! 1))) (\<lambda>n.
        if n \<noteq> expected_replid then fail ''Synchronization completion replication ID does not match the handshake''
        else ok_or ''Invalid synchronization completion sequence'' (parse_u64 (marker ! 2))))"

definition is_authentication_rejection :: "bytes list \<Rightarrow> bool" where
  "is_authentication_rejection arguments \<longleftrightarrow> arguments \<noteq> [] \<and>
     (eq_ignore_ascii_case (arguments ! 0) ''-NOAUTH'' \<or> eq_ignore_ascii_case (arguments ! 0) ''-WRONGPASS'')"

definition parse_upstream_heartbeat :: "bytes list \<Rightarrow> u64 \<Rightarrow> bool presult" where
  "parse_upstream_heartbeat arguments installed_sequence =
     (if arguments = [] \<or> arguments ! 0 \<noteq> ''REPLCONF'' then Inr False
      else if length arguments \<noteq> 3 \<or> arguments ! 1 \<noteq> ''PING'' then fail ''Master sent a malformed replication heartbeat''
      else and_then (ok_or ''Master sent an invalid heartbeat sequence'' (parse_u64 (arguments ! 2))) (\<lambda>n.
        if n \<noteq> installed_sequence
        then fail (''Replication heartbeat sequence mismatch: installed '' @ u64_to_string installed_sequence @ '', received '' @ u64_to_string n)
        else Inr True))"

section \<open>A connection\<close>

datatype wait = Completed u64 | Stopped

record link =
  incoming :: "bytes list"
  waits :: "wait list"
  stop_seen :: bool
  link_clock :: env

text \<open>
  The result of the operation, or \<open>None\<close> when a stop was requested, which every later wait sees too;
  without a choice the operation completes at once.
\<close>

definition await_or_stop :: "(env \<Rightarrow> bytes list \<Rightarrow> 'a \<times> bytes list) \<Rightarrow> link \<Rightarrow> 'a option \<times> link" where
  "await_or_stop operation l = (if stop_seen l then (None, l) else (case waits l of
      [] \<Rightarrow> (case operation (link_clock l) (incoming l) of (x, c) \<Rightarrow> (Some x, l\<lparr>incoming := c\<rparr>))
    | Stopped # ws \<Rightarrow> (None, l\<lparr>waits := ws, stop_seen := True\<rparr>)
    | Completed t # ws \<Rightarrow> let E = (link_clock l)\<lparr>now := t\<rparr> in
        (case operation E (incoming l) of (x, c) \<Rightarrow> (Some x, l\<lparr>incoming := c, waits := ws, link_clock := E\<rparr>))))"

definition read_marker :: "env \<Rightarrow> bytes list \<Rightarrow> (io_error + bytes list option) \<times> bytes list" where
  "read_marker E = read_replication_command"

text \<open>A failed synchronization: the error, and whether it means that the master is unreachable.\<close>

type_synonym sync_failure = "persistence_error \<times> bool"

definition sync_error :: "bytes \<Rightarrow> bool \<Rightarrow> sync_failure" where
  "sync_error msg unavailable = (persistence_error_new msg, unavailable)"

fun receive_entries :: "nat \<Rightarrow> bytes list \<Rightarrow> store \<Rightarrow> link \<Rightarrow> (sync_failure + store) \<times> link" where
  "receive_entries 0 seen staged l = (Inr staged, l)"
| "receive_entries (Suc n) seen staged l = (case await_or_stop read_full_sync_entry l of
      (None, l1) \<Rightarrow> (Inl (sync_error ''Replica lifecycle stopped during full synchronization'' False), l1)
    | (Some (Inl e), l1) \<Rightarrow>
        (Inl (sync_error (''Master sent an invalid full synchronization entry: '' @ message e) (upstream_unavailable e)), l1)
    | (Some (Inr (key, entry)), l1) \<Rightarrow>
        if key \<in> set seen then (Inl (sync_error ''Master sent a duplicate key in the full synchronization snapshot'' False), l1)
        else receive_entries n (key # seen) (snd (on_engine (apply_entry (link_clock l1) key entry) staged)) l1)"

definition full_sync_end :: "u64 \<Rightarrow> io_error + bytes list option \<Rightarrow> sync_failure + u64" where
  "full_sync_end upstream found = (case found of
      Inr (Some marker) \<Rightarrow> map_sum (\<lambda>e. (e, False)) id (parse_replica_sync_done marker upstream)
    | Inr None \<Rightarrow> Inl (sync_error ''Master disconnected before completing full synchronization'' True)
    | Inl err \<Rightarrow> Inl (sync_error (''Unable to read full synchronization completion: '' @ io_message err) (upstream_failure_counts_as_unreachable err)))"

definition receive_full :: "compression \<Rightarrow> bytes \<Rightarrow> bytes \<Rightarrow> bytes \<Rightarrow> u64 \<Rightarrow> u64 \<Rightarrow> nat \<Rightarrow> replica \<Rightarrow> link \<Rightarrow>
    ((sync_failure + u64 \<times> u64) \<times> replica \<times> link) option" where
  "receive_full Z partial left left' upstream sequence entries r l = (case receive_entries entries [] store_new l of
      (Inl f, l1) \<Rightarrow> Some (Inl f, r, l1)
    | (Inr staged, l1) \<Rightarrow> (case await_or_stop read_marker l1 of
        (None, l2) \<Rightarrow> Some (Inl (sync_error ''Replica lifecycle stopped before full synchronization completed'' False), r, l2)
      | (Some found, l2) \<Rightarrow> (case full_sync_end upstream found of
          Inl f \<Rightarrow> Some (Inl f, r, l2)
        | Inr finished \<Rightarrow>
            if finished \<noteq> sequence
            then Some (Inl (sync_error ''Full synchronization completion sequence does not match its snapshot boundary'' False), r, l2)
            else (case install_full_sync Z (link_clock l2) partial left left' upstream sequence staged r of
                None \<Rightarrow> None
              | Some (Inl e, r1) \<Rightarrow> Some (Inl (e, False), r1, l2)
              | Some (Inr _, r1) \<Rightarrow> Some (Inr (upstream, sequence), r1\<lparr>local_replid := upstream, local_offset := sequence\<rparr>, l2)))))"

text \<open>The loop of a partial synchronization; it ends with every finite input.\<close>

partial_function (option) receive_partial :: "u64 \<Rightarrow> replica \<Rightarrow> link \<Rightarrow> ((sync_failure + u64 \<times> u64) \<times> replica \<times> link) option" where
  "receive_partial upstream r l = (case await_or_stop read_marker l of
      (None, l1) \<Rightarrow> Some (Inl (sync_error ''Replica lifecycle stopped during partial synchronization'' False), r, l1)
    | (Some (Inl err), l1) \<Rightarrow> Some (Inl (sync_error (''Unable to read partial synchronization data: '' @ io_message err)
        (upstream_failure_counts_as_unreachable err)), r, l1)
    | (Some (Inr None), l1) \<Rightarrow> Some (Inl (sync_error ''Master disconnected during partial synchronization'' True), r, l1)
    | (Some (Inr (Some arguments)), l1) \<Rightarrow>
        if arguments \<noteq> [] \<and> arguments ! 0 = ''+SYNCDONE3''
        then (case parse_replica_sync_done arguments upstream of
            Inl e \<Rightarrow> Some (Inl (e, False), r, l1)
          | Inr finished \<Rightarrow>
              if finished \<noteq> local_offset r
              then Some (Inl (sync_error ''Partial synchronization completion sequence does not match the installed sequence'' False), r, l1)
              else Some (Inr (upstream, finished), r, l1))
        else (case await_or_stop (\<lambda>E. read_replication_effect E arguments) l1 of
            (None, l2) \<Rightarrow> Some (Inl (sync_error ''Replica lifecycle stopped while receiving a partial effect'' False), r, l2)
          | (Some (Inl e), l2) \<Rightarrow> Some (Inl (e, upstream_unavailable e), r, l2)
          | (Some (Inr (sequence, batch)), l2) \<Rightarrow>
              (case persist_and_apply_replica_effect (link_clock l2) sequence batch (replica_data r) (replica_pers r) of
                (Inl e, st, p) \<Rightarrow> Some (Inl (e, False), r\<lparr>replica_data := st, replica_pers := p\<rparr>, l2)
              | (Inr _, st, p) \<Rightarrow> receive_partial upstream (r\<lparr>replica_data := st, replica_pers := p, local_offset := sequence\<rparr>) l2)))"

text \<open>What the end of the live stream says about the master.\<close>

datatype stream_end = StopRequested | Unreachable | Reachable

definition end_of :: "bool \<Rightarrow> stream_end" where
  "end_of unavailable = (if unavailable then Unreachable else Reachable)"

partial_function (option) live_stream :: "replica \<Rightarrow> link \<Rightarrow> (stream_end \<times> replica \<times> link) option" where
  "live_stream r l = (case await_or_stop read_marker l of
      (None, l1) \<Rightarrow> Some (StopRequested, r, l1)
    | (Some (Inl err), l1) \<Rightarrow> Some (end_of (upstream_failure_counts_as_unreachable err), r, l1)
    | (Some (Inr None), l1) \<Rightarrow> Some (Unreachable, r, l1)
    | (Some (Inr (Some arguments)), l1) \<Rightarrow>
        if arguments = [] then live_stream r l1
        else (case parse_upstream_heartbeat arguments (local_offset r) of
            Inl e \<Rightarrow> Some (Reachable, r, l1)
          | Inr heartbeat \<Rightarrow>
              if heartbeat then live_stream r l1
              else (case await_or_stop (\<lambda>E. read_replication_effect E arguments) l1 of
                  (None, l2) \<Rightarrow> Some (StopRequested, r, l2)
                | (Some (Inl e), l2) \<Rightarrow> Some (end_of (upstream_unavailable e), r, l2)
                | (Some (Inr (sequence, batch)), l2) \<Rightarrow>
                    (case persist_and_apply_replica_effect (link_clock l2) sequence batch (replica_data r) (replica_pers r) of
                      (Inl e, st, p) \<Rightarrow> Some (Reachable, r\<lparr>replica_data := st, replica_pers := p\<rparr>, l2)
                    | (Inr _, st, p) \<Rightarrow> live_stream (r\<lparr>replica_data := st, replica_pers := p, local_offset := sequence\<rparr>) l2))))"

section \<open>The connection loop\<close>

definition MIN_BACKOFF_SECS :: nat where
  "MIN_BACKOFF_SECS = 1"

definition MAX_BACKOFF_SECS :: nat where
  "MAX_BACKOFF_SECS = 30"

record replica_config =
  credentials :: "(bytes \<times> bytes) option"
  auto_failover :: bool
  failover_timeout :: nat

record runner =
  backoff_secs :: nat
  unreachable_since :: "nat option"

text \<open>
  What the outside decides in one turn of the loop: whether the connection is made and the two writes
  succeed, the connection, a reading of the monotonic clock, and what failed writes leave behind.
\<close>

record turn =
  connected :: bool
  auth_written :: bool
  sync_written :: bool
  turn_link :: link
  instant :: nat
  leftover :: "nat \<Rightarrow> bytes"

definition encode_upstream_auth :: "bytes \<times> bytes \<Rightarrow> bytes" where
  "encode_upstream_auth c = encode_replication_command [''AUTH'', fst c, snd c]"

definition sync_command :: "replica \<Rightarrow> bytes" where
  "sync_command r = words_line [''SYNC3'', u64_to_string (local_replid r), u64_to_string (local_offset r), ''HEARTBEAT'']"

definition ack_command :: "replica \<Rightarrow> bytes" where
  "ack_command r = words_line [''REPLCONF'', ''ACK'', u64_to_string (local_offset r)]"

definition mark_unreachable :: "nat \<Rightarrow> runner \<Rightarrow> runner" where
  "mark_unreachable i s = s\<lparr>unreachable_since := (case unreachable_since s of Some t \<Rightarrow> Some t | None \<Rightarrow> Some i)\<rparr>"

definition note_failure :: "nat \<Rightarrow> bool \<Rightarrow> runner \<Rightarrow> runner" where
  "note_failure i unavailable s = (if unavailable then mark_unreachable i s else s\<lparr>unreachable_since := None\<rparr>)"

text \<open>The end of a failed turn: promotion where the code tries it, then the pause. The first component says that the loop returns.\<close>

definition retry :: "replica_config \<Rightarrow> turn \<Rightarrow> bool \<Rightarrow> replica \<Rightarrow> runner \<Rightarrow> link \<Rightarrow> bool \<times> replica \<times> runner" where
  "retry C u may_promote r s l =
     (case (if may_promote then maybe_auto_promote_replica (leftover u 4) (unreachable_since s) (auto_failover C) (failover_timeout C) (instant u) r
            else (False, r)) of
       (True, r1) \<Rightarrow> (True, r1, s)
     | (False, r1) \<Rightarrow> (case await_or_stop (\<lambda>_ c. ((), c)) l of
         (None, _) \<Rightarrow> (True, r1, s)
       | (Some _, _) \<Rightarrow> (False, r1, s\<lparr>backoff_secs := min (backoff_secs s * 2) MAX_BACKOFF_SECS\<rparr>)))"

datatype 'a phase = Returned | Failed | Passed 'a

definition authenticate :: "replica_config \<Rightarrow> turn \<Rightarrow> runner \<Rightarrow> link \<Rightarrow> unit phase \<times> runner \<times> link" where
  "authenticate C u s l = (case credentials C of
      None \<Rightarrow> (Passed (), s, l)
    | Some _ \<Rightarrow> (case await_or_stop (\<lambda>_ c. (auth_written u, c)) l of
        (None, l1) \<Rightarrow> (Returned, s, l1)
      | (Some False, l1) \<Rightarrow> (Failed, mark_unreachable (instant u) s, l1)
      | (Some True, l1) \<Rightarrow> (case await_or_stop read_marker l1 of
          (None, l2) \<Rightarrow> (Returned, s, l2)
        | (Some (Inr (Some reply)), l2) \<Rightarrow>
            if length reply = 1 \<and> eq_ignore_ascii_case (reply ! 0) ''+OK'' then (Passed (), s\<lparr>backoff_secs := MIN_BACKOFF_SECS\<rparr>, l2)
            else (Failed, note_failure (instant u) False s, l2)
        | (Some (Inr None), l2) \<Rightarrow> (Failed, note_failure (instant u) True s, l2)
        | (Some (Inl err), l2) \<Rightarrow> (Failed, note_failure (instant u) (upstream_failure_counts_as_unreachable err) s, l2))))"

definition negotiate :: "turn \<Rightarrow> runner \<Rightarrow> link \<Rightarrow> sync_handshake phase \<times> runner \<times> link" where
  "negotiate u s l = (case await_or_stop (\<lambda>_ c. (sync_written u, c)) l of
      (None, l1) \<Rightarrow> (Returned, s, l1)
    | (Some False, l1) \<Rightarrow> (Failed, mark_unreachable (instant u) s, l1)
    | (Some True, l1) \<Rightarrow> (case await_or_stop read_marker l1 of
        (None, l2) \<Rightarrow> (Returned, s, l2)
      | (Some (Inr (Some marker)), l2) \<Rightarrow>
          (case (if is_authentication_rejection marker then fail ''Master requires valid upstream replication credentials''
                 else parse_replica_sync_handshake marker) of
            Inr h \<Rightarrow> (Passed h, s, l2)
          | Inl _ \<Rightarrow> (Failed, note_failure (instant u) False s, l2))
      | (Some (Inr None), l2) \<Rightarrow> (Failed, note_failure (instant u) True s, l2)
      | (Some (Inl err), l2) \<Rightarrow> (Failed, note_failure (instant u) (upstream_failure_counts_as_unreachable err) s, l2)))"

text \<open>From the accepted handshake to the end of the connection.\<close>

definition synchronize :: "compression \<Rightarrow> replica_config \<Rightarrow> turn \<Rightarrow> sync_handshake \<Rightarrow> replica \<Rightarrow> runner \<Rightarrow> link \<Rightarrow> (bool \<times> replica \<times> runner) option" where
  "synchronize Z C u h r s0 l = (let s = s0\<lparr>backoff_secs := MIN_BACKOFF_SECS, unreachable_since := None\<rparr> in
     case (case h of
         FullHandshake n sequence entries \<Rightarrow> receive_full Z (leftover u 1) (leftover u 2) (leftover u 3) n sequence entries r l
       | PartialHandshake n _ \<Rightarrow> receive_partial n r l) of
       None \<Rightarrow> None
     | Some (Inl (e, unavailable), r1, l1) \<Rightarrow>
         if stop_requested (replica_pers r1) \<or> stop_seen l1 then Some (True, r1, s)
         else Some (retry C u True r1 (note_failure (instant u) unavailable s) l1)
     | Some (Inr (n, sequence), r1, l1) \<Rightarrow> (case live_stream (r1\<lparr>local_replid := n, local_offset := sequence\<rparr>) l1 of
         None \<Rightarrow> None
       | Some (ending, r2, l2) \<Rightarrow>
           let s1 = (case ending of StopRequested \<Rightarrow> s | Unreachable \<Rightarrow> note_failure (instant u) True s | Reachable \<Rightarrow> note_failure (instant u) False s) in
           if stop_requested (replica_pers r2) \<or> stop_seen l2 then Some (True, r2, s1)
           else Some (retry C u True r2 s1 l2)))"

definition run_turn :: "compression \<Rightarrow> replica_config \<Rightarrow> turn \<Rightarrow> replica \<Rightarrow> runner \<Rightarrow> (bool \<times> replica \<times> runner) option" where
  "run_turn Z C u r s =
     (if stop_requested (replica_pers r) then Some (True, r, s)
      else (case await_or_stop (\<lambda>_ c. ((), c)) (turn_link u) of
          (None, _) \<Rightarrow> Some (True, r, s)
        | (Some _, l) \<Rightarrow>
            if \<not> connected u then Some (retry C u True r (mark_unreachable (instant u) s) l)
            else (case authenticate C u s l of
                (Returned, s1, _) \<Rightarrow> Some (True, r, s1)
              | (Failed, s1, l1) \<Rightarrow> Some (retry C u True r s1 l1)
              | (Passed _, s1, l1) \<Rightarrow> (case negotiate u s1 l1 of
                  (Returned, s2, _) \<Rightarrow> Some (True, r, s2)
                | (Failed, s2, l2) \<Rightarrow> Some (retry C u True r s2 l2)
                | (Passed h, s2, l2) \<Rightarrow> (case h of
                    PartialHandshake n sequence \<Rightarrow>
                      if n \<noteq> local_replid r \<or> sequence \<noteq> local_offset r
                      then Some (retry C u False r (note_failure (instant u) False s2) l2)
                      else synchronize Z C u h r s2 l2
                  | FullHandshake _ _ _ \<Rightarrow> (case begin_full_sync_reception (leftover u 0) r of
                      (Inl _, r1) \<Rightarrow> Some (retry C u False r1 (note_failure (instant u) False s2) l2)
                    | (Inr _, r1) \<Rightarrow> synchronize Z C u h (r1\<lparr>local_replid := 0, local_offset := 0\<rparr>) s2 l2))))))"

text \<open>The whole loop over the turns that the outside makes possible: \<open>None\<close> is a panic, otherwise whether it returned.\<close>

fun run_replica :: "compression \<Rightarrow> replica_config \<Rightarrow> turn list \<Rightarrow> replica \<Rightarrow> runner \<Rightarrow> (bool \<times> replica \<times> runner) option" where
  "run_replica Z C [] r s = Some (False, r, s)"
| "run_replica Z C (u # us) r s = (case run_turn Z C u r s of
      None \<Rightarrow> None
    | Some (True, r1, s1) \<Rightarrow> Some (True, r1, s1)
    | Some (False, r1, s1) \<Rightarrow> run_replica Z C us r1 s1)"

end
