(* ===== verification/Replica_Laws.thy ===== *)
theory Replica_Laws
  imports Replica
begin

text \<open>
  What the replica ends up with: the markers and records of the master are read back from any division
  of the stream into chunks, a wait ends with the operation or with a stop, and a batch is installed in
  the binlog before the store.
\<close>

section \<open>Markers\<close>

definition plain_word :: "bytes \<Rightarrow> bool" where
  "plain_word w \<longleftrightarrow> w \<noteq> [] \<and> list_all (\<lambda>c. \<not> is_ascii_space c \<and> of_char c < (128 :: nat)) w"

lemma split_word: "list_all (\<lambda>c. \<not> is_ascii_space c) w \<Longrightarrow> split_ascii_whitespace (w @ bs) acc = split_ascii_whitespace bs (acc @ w)"
  by (induction w arbitrary: acc) simp_all

lemma words_line_spec:
  assumes "list_all plain_word ws" and "ws \<noteq> []"
  shows "\<exists>body. words_line ws = body @ CRLF \<and> LF \<notin> set body \<and> is_ascii body \<and> split_ascii_whitespace body [] = ws \<and> body \<noteq> [] \<and> hd body = hd (hd ws)"
  using assms
proof (induction ws rule: words_line.induct)
  case (2 w)
  then have "list_all (\<lambda>c. \<not> is_ascii_space c) w" by (simp add: plain_word_def list_all_iff)
  from split_word [OF this, of "[]" "[]"] 2 show ?case
    by (intro exI [of _ w]) (auto simp: plain_word_def is_ascii_def list_all_iff is_ascii_space_def LF_def)
next
  case (3 w w' ws)
  then obtain body where b: "words_line (w' # ws) = body @ CRLF" "LF \<notin> set body" "is_ascii body" "split_ascii_whitespace body [] = w' # ws" by auto
  have w: "list_all (\<lambda>c. \<not> is_ascii_space c) w" "w \<noteq> []" using 3 by (simp_all add: plain_word_def list_all_iff)
  have "split_ascii_whitespace (w @ '' '' @ body) [] = w # w' # ws"
    using split_word [OF w(1), of "'' '' @ body" "[]"] w(2) b(4) by (simp add: is_ascii_space_def)
  then show ?case using b 3(2) w
    by (intro exI [of _ "w @ '' '' @ body"]) (auto simp: plain_word_def is_ascii_def list_all_iff is_ascii_space_def LF_def)
qed simp

lemma line_read:
  assumes "list_all plain_word ws" and "ws \<noteq> []" and "length ws \<le> 4" and "hd (hd ws) \<noteq> CHR ''*''" and "length (words_line ws) \<le> 1024"
    and "concat chunks = words_line ws @ rest"
  shows "\<exists>c. read_replication_command chunks = (Inr (Some ws), c) \<and> concat c = rest"
proof -
  obtain body where b: "words_line ws = body @ CRLF" "LF \<notin> set body" "is_ascii body" "split_ascii_whitespace body [] = ws" "body \<noteq> []" "hd body = hd (hd ws)"
    using words_line_spec [OF assms(1,2)] by blast
  let ?in = "body @ CRLF @ rest"
  obtain x xs where x: "body = x # xs" "x \<noteq> CHR ''*''" using b(5,6) assms(4) by (cases body) auto
  have "takeWhile (\<lambda>c. c \<noteq> LF) (body @ zs) = body @ takeWhile (\<lambda>c. c \<noteq> LF) zs" for zs
    by (rule takeWhile_append2) (use b(2) in auto)
  then have "takeWhile (\<lambda>c. c \<noteq> LF) ?in = body @ [CHR 0x0D]" by (simp add: CRLF_def CR_def LF_def)
  then have newline: "position_newline ?in = Some (Suc (length body))" by (simp add: position_newline_def CRLF_def)
  have "take (Suc (Suc (length body))) ?in = body @ CRLF" by (simp add: CRLF_def)
  then have line: "line_content (take (Suc (length body) + 1) ?in) = Inr body"
    by (simp add: line_content_def strip_suffix_def CRLF_def)
  have max: "\<not> maximum_first_line_size replication_limits x < Suc (length body) + 1"
    using x(2) assms(5) b(1) by (simp add: maximum_first_line_size_def replication_limits_def CRLF_def MAX_REPLICATION_FRAME_BULK_SIZE_def REPLICATION_CHUNK_SIZE_def)
  have inline: "parse_inline replication_limits body = Inr ws"
    using b(3,4) assms(2,3) utf8_valid_ascii by (auto simp: parse_inline_def str_of_bytes_def replication_limits_def)
  have "decode_buffered_command ?in replication_limits = Inr (Some (ws, length (words_line ws)))"
    using newline line max inline x b(1) by (simp add: decode_buffered_command_def Let_def CRLF_def)
  with readers_agree [OF replication_limits_ok, of chunks] assms(6) b(1) show ?thesis
    by (cases "read_command_with_limits replication_limits chunks") (simp add: read_replication_command_def)
qed

lemma digits_word: "plain_word (nat_to_string n)" "plain_word (u64_to_string w)"
proof -
  show "plain_word (nat_to_string n)" for n
  proof -
    have "\<not> is_ascii_space c \<and> of_char c < (128 :: nat)" if "c \<in> set (nat_to_string n)" for c
      using nat_to_string_digits [OF that] by (auto simp: between_def is_ascii_space_def)
    moreover have "nat_to_string n \<noteq> []" by (subst nat_to_string.simps) simp
    ultimately show ?thesis by (simp add: plain_word_def list_all_iff)
  qed
  then show "plain_word (u64_to_string w)" by (simp add: u64_to_string_def)
qed

lemma digits_length: "length (u64_to_string w) \<le> 20" "n \<le> usize_max \<Longrightarrow> length (nat_to_string n) \<le> 20"
  using nat_to_string_length [of "unat w" 19] nat_to_string_length [of n 19] unat_u64_less [of w]
  by (simp_all add: u64_to_string_def usize_max_def)

lemmas marker_simps = digits_word plain_word_def [of "_ # _"] is_ascii_space_def CRLF_def

lemma sync_done_read:
  assumes "concat chunks = sync_done_line upstream (Inr sequence) @ rest"
  shows "\<exists>c. read_replication_command chunks = (Inr (Some [''+SYNCDONE3'', u64_to_string upstream, u64_to_string sequence]), c) \<and> concat c = rest"
  by (rule line_read [OF _ _ _ _ _ assms [unfolded sync_done_line_def sum.case]])
    (use digits_length(1) [of upstream] digits_length(1) [of sequence] in \<open>simp_all add: marker_simps\<close>)

lemma sync_done_parsed [simp]: "parse_replica_sync_done [''+SYNCDONE3'', u64_to_string upstream, u64_to_string sequence] upstream = Inr sequence"
  by (simp add: parse_replica_sync_done_def ok_or_def numeral_2_eq_2)

lemma continue_read:
  assumes "concat chunks = words_line [''+CONTINUE3'', u64_to_string upstream, u64_to_string sequence] @ rest" and "upstream \<noteq> 0"
  shows "\<exists>marker c. read_replication_command chunks = (Inr (Some marker), c) \<and> concat c = rest \<and>
    parse_replica_sync_handshake marker = Inr (PartialHandshake upstream sequence)"
proof -
  have "\<exists>c. read_replication_command chunks = (Inr (Some [''+CONTINUE3'', u64_to_string upstream, u64_to_string sequence]), c) \<and> concat c = rest"
    by (rule line_read [OF _ _ _ _ _ assms(1)])
      (use digits_length(1) [of upstream] digits_length(1) [of sequence] in \<open>simp_all add: marker_simps\<close>)
  moreover have "parse_replica_sync_handshake [''+CONTINUE3'', u64_to_string upstream, u64_to_string sequence] = Inr (PartialHandshake upstream sequence)"
    using assms(2) by (simp add: parse_replica_sync_handshake_def handshake_replid_def ok_or_def numeral_2_eq_2)
  ultimately show ?thesis by blast
qed

lemma fullresync_read:
  assumes "concat chunks = words_line [''+FULLRESYNC3'', u64_to_string upstream, u64_to_string sequence, nat_to_string n] @ rest" and "upstream \<noteq> 0" and "n \<le> MAX_KEYS"
  shows "\<exists>marker c. read_replication_command chunks = (Inr (Some marker), c) \<and> concat c = rest \<and>
    parse_replica_sync_handshake marker = Inr (FullHandshake upstream sequence n)"
proof -
  have max: "n \<le> usize_max" using assms(3) by (simp add: MAX_KEYS_def usize_max_def)
  have "\<exists>c. read_replication_command chunks = (Inr (Some [''+FULLRESYNC3'', u64_to_string upstream, u64_to_string sequence, nat_to_string n]), c) \<and> concat c = rest"
    by (rule line_read [OF _ _ _ _ _ assms(1)])
      (use digits_length(1) [of upstream] digits_length(1) [of sequence] digits_length(2) [OF max] in \<open>simp_all add: marker_simps\<close>)
  moreover have "parse_replica_sync_handshake [''+FULLRESYNC3'', u64_to_string upstream, u64_to_string sequence, nat_to_string n] =
      Inr (FullHandshake upstream sequence n)"
    using assms(2,3) max by (simp add: parse_replica_sync_handshake_def handshake_replid_def ok_or_def numeral_2_eq_2 numeral_3_eq_3)
  ultimately show ?thesis by blast
qed

section \<open>Waiting\<close>

fun wait_times :: "wait list \<Rightarrow> u64 list" where
  "wait_times [] = []"
| "wait_times (Completed t # ws) = t # wait_times ws"
| "wait_times (Stopped # ws) = wait_times ws"

text \<open>The clock does not run backwards and does not pass \<open>T\<close>; no stop is requested.\<close>

definition timely :: "u64 \<Rightarrow> link \<Rightarrow> bool" where
  "timely T l \<longleftrightarrow> sorted (now (link_clock l) # wait_times (waits l) @ [T])"

definition calm :: "link \<Rightarrow> bool" where
  "calm l \<longleftrightarrow> \<not> stop_seen l \<and> Stopped \<notin> set (waits l)"

lemma await_cases:
  assumes "await_or_stop operation l = (x, l')" and "timely T l"
  obtains "x = None" "\<not> calm l"
  | t where "x = Some (fst (operation ((link_clock l)\<lparr>now := t\<rparr>) (incoming l)))" "incoming l' = snd (operation ((link_clock l)\<lparr>now := t\<rparr>) (incoming l))"
    "link_clock l' = (link_clock l)\<lparr>now := t\<rparr>" "now (link_clock l) \<le> t" "t \<le> T" "timely T l'" "calm l \<Longrightarrow> calm l'"
proof (cases "stop_seen l")
  case True
  with assms(1) that(1) show thesis by (simp add: await_or_stop_def calm_def)
next
  case False
  show thesis
  proof (cases "waits l")
    case Nil
    show thesis by (rule that(2) [of "now (link_clock l)"]) (use assms False Nil in \<open>auto simp: await_or_stop_def timely_def calm_def split: prod.splits\<close>)
  next
    case (Cons w ws)
    show thesis
    proof (cases w)
      case (Completed t)
      show thesis by (rule that(2) [of t]) (use assms False Cons Completed in \<open>auto simp: await_or_stop_def timely_def calm_def Let_def split: prod.splits\<close>)
    next
      case Stopped
      with assms(1) that(1) Cons False show thesis by (simp add: await_or_stop_def calm_def)
    qed
  qed
qed

section \<open>Installing batches\<close>

lemma accept_single: "accept_next_batch E sequence batch n p = accept_next_batches E [(sequence, batch)] n p"
  by (simp add: accept_next_batch_def accept_next_batches_def split: sum.splits prod.splits)

lemma persist_spec:
  assumes "persist_and_apply_replica_effect E sequence batch st p = (r, st', p')"
  obtains e where "r = Inl e" "st' = st" "repl_offset p' = repl_offset p"
  | "r = Inr ()" "st' = apply_committed_batch E batch st" "repl_offset p' = sequence"
proof -
  obtain x p1 where x: "accept_next_batch E sequence batch COMPACTION_THRESHOLD p = (x, p1)" by (cases "accept_next_batch E sequence batch COMPACTION_THRESHOLD p")
  note a = accept_spec [OF x [unfolded accept_single]]
  show thesis
  proof (cases "\<exists>e. x = Inl e")
    case True
    then obtain e where e: "x = Inl e" by blast
    with a(6) have "repl_offset p1 = repl_offset p" by blast
    with assms x e that(1) show thesis
      by (auto simp: persist_and_apply_replica_effect_def mark_persistence_failed_def enter_persistence_fail_stop_def enter_fail_stop_def
          split: if_splits option.splits)
  next
    case False
    then obtain m where m: "x = Inr m" by (cases x) auto
    with a(7) have "repl_offset p1 = sequence" by fastforce
    with assms x m that show thesis by (auto simp: persist_and_apply_replica_effect_def split: if_splits option.splits)
  qed
qed

lemma loggable_writable: "loggable E [(sequence, b)] \<Longrightarrow> writable E [(sequence, b)]"
  by (auto simp: loggable_def writable_def logged_def encoded_def record_bytes_def frame_length binlog_length binlog_ok_def MAX_BINLOG_RECORD_SIZE_def
      usize_max_def split: sum.splits)

lemma persist_healthy:
  assumes "healthy p" and "replication_ready p" and "u64_checked_add (repl_offset p) 1 = Some sequence" and "loggable E [(sequence, batch)]"
  shows "\<exists>p'. persist_and_apply_replica_effect E sequence batch st p = (Inr (), apply_committed_batch E batch st, p') \<and> healthy p' \<and>
    replication_ready p' \<and> repl_offset p' = sequence"
proof -
  have "numbered (repl_offset p) (map snd [(sequence, batch)]) = Some [(sequence, batch)]" using assms(3) by simp
  from accept_healthy [OF assms(1) loggable_writable [OF assms(4)] _ this] obtain m p' where
    p': "accept_next_batches E [(sequence, batch)] COMPACTION_THRESHOLD p = (Inr m, p')" "healthy p'" by auto
  note a = accept_spec [OF p'(1)]
  have "replication_ready p' = replication_ready p" using a(5) by (cases p; cases p') simp
  with a(7) p' assms show ?thesis by (auto simp: persist_and_apply_replica_effect_def accept_single healthy_def)
qed

text \<open>A batch that is applied early looks later as if it were applied then.\<close>

lemma palive_later: "now E \<le> now E' \<Longrightarrow> palive E' (palive E x) = palive E' x"
  by (auto simp: palive_def split: option.splits)

lemma palive_None: "palive E None = None"
  by (simp add: palive_def)

lemma effects_later:
  "now E \<le> now E' \<Longrightarrow> palive E' (fold (effect_update E) es m k) = fold (effect_update E') es (\<lambda>k. palive E' (m k)) k"
proof (induction es arbitrary: m)
  case (Cons x es)
  have "(\<lambda>k. palive E' (effect_update E x m k)) = effect_update E' x (\<lambda>k. palive E' (m k))"
    by (cases x) (simp_all add: fun_eq_iff palive_later [OF Cons.prems] palive_None)
  with Cons show ?case by simp
qed simp

lemma apply_later:
  assumes "store_wf st" and "now E \<le> now E'"
  shows "pview E' (apply_committed_batch E b st) = fold (effect_update E') (effects b) (pview E' st)"
proof
  fix k
  have "pview E' (apply_committed_batch E b st) k = palive E' (fold (effect_update E) (effects b) (pview E st) k)"
    using pview_later [OF assms(2)] apply_batch_view [OF assms(1), of E b] by simp
  also have "\<dots> = fold (effect_update E') (effects b) (pview E' st) k"
    using effects_later [OF assms(2)] by (simp add: pview_later [OF assms(2), abs_def])
  finally show "pview E' (apply_committed_batch E b st) k = fold (effect_update E') (effects b) (pview E' st) k" .
qed

text \<open>The replica \<open>r'\<close> is \<open>r\<close> with \<open>batches\<close> installed, seen from the time \<open>T\<close> on.\<close>

definition installed :: "u64 \<Rightarrow> history \<Rightarrow> replica \<Rightarrow> replica \<Rightarrow> bool" where
  "installed T batches r r' \<longleftrightarrow> store_wf (replica_data r') \<and> local_offset r' = repl_offset (replica_pers r') \<and>
     last_of (Some (local_offset r)) batches = Some (local_offset r') \<and>
     (\<forall>E'. T \<le> now E' \<longrightarrow> pview E' (replica_data r') = fold (effect_update E') (concat (map (effects \<circ> snd) batches)) (pview E' (replica_data r)))"

lemma installed_refl: "store_wf (replica_data r) \<Longrightarrow> local_offset r = repl_offset (replica_pers r) \<Longrightarrow> installed T [] r r"
  by (simp add: installed_def last_of_def)

lemma installed_step:
  assumes "installed T batches (r\<lparr>replica_data := apply_committed_batch E b (replica_data r), replica_pers := p, local_offset := sequence\<rparr>) r'"
    and "store_wf (replica_data r)" and "now E \<le> T"
  shows "installed T ((sequence, b) # batches) r r'"
proof -
  let ?r = "r\<lparr>replica_data := apply_committed_batch E b (replica_data r), replica_pers := p, local_offset := sequence\<rparr>"
  have "last_of (Some (local_offset r)) ((sequence, b) # batches) = last_of (Some sequence) batches"
    using last_of_append [of "Some (local_offset r)" "[(sequence, b)]" batches] by (simp add: last_of_def)
  moreover have "pview E' (replica_data r') = fold (effect_update E') (concat (map (effects \<circ> snd) ((sequence, b) # batches))) (pview E' (replica_data r))"
    if "T \<le> now E'" for E'
  proof -
    have "now E \<le> now E'" using assms(3) that by simp
    from apply_later [OF assms(2) this, of b] assms(1) that show ?thesis by (simp add: installed_def)
  qed
  ultimately show ?thesis using assms(1) by (simp add: installed_def)
qed

lemma encode_effect_later: "encode_replication_effect (E\<lparr>now := t\<rparr>) = encode_replication_effect E"
  by (simp add: fun_eq_iff encode_replication_effect_def)

end
