(* ===== verification/Startup.thy ===== *)
theory Startup
  imports Config Replica_Laws
begin

text \<open>
  The start of the server in \<open>src/main.rs\<close>: recovery, the decision on the durable replica state, and
  the runtime built from what was recovered. A start after a crash establishes the invariant of the
  running server again, so the durability of a run extends over any number of restarts.
\<close>

section \<open>Opening the files\<close>

text \<open>
  The binlog worker reads its catalog of sealed segments from the directory; the model keeps it in the
  order of the end sequences. \<open>open_binlog_file\<close> retries until the file is open and creates it if needed.
\<close>

definition segment_catalog :: "directory \<Rightarrow> (u64 \<times> bytes) list" where
  "segment_catalog d = sort_key fst (map (\<lambda>(name, c). (case parse_binlog_segment_end_sequence name of Inr (Some n) \<Rightarrow> n | _ \<Rightarrow> 0, c)) (filter is_segment d))"

definition open_binlog_file :: "io_choice list \<Rightarrow> directory \<Rightarrow> managed_binlog" where
  "open_binlog_file cs d = \<lparr>handle_open = True, active_file = Some (case map_of d BINLOG_PATH of None \<Rightarrow> [] | Some bs \<Rightarrow> bs),
     position = 0, segments = segment_catalog d, choices = cs\<rparr>"

definition files_beside_binlog :: "directory \<Rightarrow> directory" where
  "files_beside_binlog d = filter (\<lambda>(name, _). parse_binlog_segment_end_sequence name = Inr None \<and> name \<noteq> BINLOG_PATH) d"

lemma history_segments:
  assumes "history_at E d segs active p"
  shows "set (filter is_segment d) = (\<lambda>seg. (binlog_segment (segment_end seg), logged E seg)) ` set segs"
proof -
  from assms have dd: "distinct (map fst d)" and log: "loggable E (concat segs @ active)"
    and segs: "\<And>seg. seg \<in> set segs \<Longrightarrow> seg \<noteq> [] \<and> map_of d (binlog_segment (segment_end seg)) = Some (logged E seg)"
    and names: "\<And>x. x \<in> set d \<Longrightarrow> parse_binlog_segment_end_sequence (fst x) = Inr None \<or> fst x \<in> (binlog_segment \<circ> segment_end) ` set segs"
    unfolding history_at_def list_all_iff by auto
  have parse: "parse_binlog_segment_end_sequence (binlog_segment (segment_end seg)) = Inr (Some (segment_end seg))" if "seg \<in> set segs" for seg
    using that segs log by (intro segment_parse) (auto simp: loggable_concat)
  have "f \<in> (\<lambda>seg. (binlog_segment (segment_end seg), logged E seg)) ` set segs" if f: "f \<in> set d" "is_segment f" for f
  proof -
    have "fst f \<in> (binlog_segment \<circ> segment_end) ` set segs" using names [OF f(1)] f(2) by (cases f) (simp add: is_segment_def)
    then obtain seg where seg: "seg \<in> set segs" "fst f = binlog_segment (segment_end seg)" by auto
    have "map_of d (fst f) = Some (snd f)" using dd f(1) by (intro map_of_is_SomeI) simp_all
    with seg segs [OF seg(1)] have "f = (binlog_segment (segment_end seg), logged E seg)" by (simp add: prod_eq_iff)
    with seg(1) show ?thesis by blast
  qed
  moreover have "(binlog_segment (segment_end seg), logged E seg) \<in> set (filter is_segment d)" if "seg \<in> set segs" for seg
    using segs [OF that] parse [OF that] by (auto simp: is_segment_def dest: map_of_SomeD)
  ultimately show ?thesis by auto
qed

lemma history_catalog:
  assumes h: "history_at E d segs active p" and ord: "sorted_wrt (\<lambda>x y. fst x < fst y) (concat segs)"
  shows "segment_catalog d = map (\<lambda>seg. (segment_end seg, logged E seg)) segs"
proof -
  let ?file = "\<lambda>seg. (binlog_segment (segment_end seg), logged E seg)" and ?row = "\<lambda>seg. (segment_end seg, logged E seg)"
  let ?read = "\<lambda>(name, c :: bytes). (case parse_binlog_segment_end_sequence name of Inr (Some n) \<Rightarrow> n | _ \<Rightarrow> 0, c)"
  from h have dd: "distinct (map fst d)" and ne: "[] \<notin> set segs" and log: "\<forall>seg \<in> set segs. loggable E seg"
    by (auto simp: history_at_def list_all_iff loggable_concat)
  have read: "?read (?file seg) = ?row seg" if "seg \<in> set segs" for seg
  proof -
    have "loggable E seg" "seg \<noteq> []" using that log ne by auto
    from segment_parse [OF this] show ?thesis by simp
  qed
  note files = history_segments [OF h]
  have rows: "set (map ?read (filter is_segment d)) = ?row ` set segs" unfolding set_map files image_image using read by (intro image_cong) simp_all
  have ends: "sorted_wrt (<) (map segment_end segs)" by (rule segment_ends_sorted [OF ord ne])
  have inj: "inj_on segment_end (set segs)" "distinct segs" using ends strict_sorted_iff distinct_map by blast+
  have "inj_on ?read (?file ` set segs)"
  proof (rule inj_onI)
    fix x y assume "x \<in> ?file ` set segs" "y \<in> ?file ` set segs" "?read x = ?read y"
    then obtain a b where ab: "a \<in> set segs" "b \<in> set segs" "x = ?file a" "y = ?file b" "?row a = ?row b" using read by fastforce
    then show "x = y" by simp
  qed
  then have "inj_on ?read (set (filter is_segment d))" unfolding files .
  moreover have "distinct (filter is_segment d)" using dd by (simp add: distinct_map)
  ultimately have "distinct (map ?read (filter is_segment d))" by (simp add: distinct_map)
  moreover have "distinct (map ?row segs)" using inj by (auto simp: distinct_map inj_on_def)
  moreover have "set (map ?read (filter is_segment d)) = set (map ?row segs)" unfolding rows by simp
  ultimately have "mset (map ?read (filter is_segment d)) = mset (map ?row segs)" by (rule set_eq_iff_mset_eq_distinct [THEN iffD1])
  then show ?thesis unfolding segment_catalog_def
  proof (rule sort_key_inj_key_eq)
    show "inj_on fst (set (map ?read (filter is_segment d)))" unfolding rows using inj(1) by (auto simp: inj_on_def)
    show "sorted (map fst (map ?row segs))" using ends by (simp add: o_def strict_sorted_iff)
  qed
qed

lemma opened_holds:
  assumes h: "history_at E d segs active []" and ord: "sorted_wrt (\<lambda>x y. fst x < fst y) (concat segs)"
  shows "holds E (open_binlog_file cs d) segs active"
proof -
  from h have "map_of d BINLOG_PATH = Some (logged E active)" "[] \<notin> set segs" "length segs \<le> MAX_BINLOG_SEGMENTS" "loggable E (concat segs @ active)"
    by (auto simp: history_at_def list_all_iff)
  with history_catalog [OF h ord] show ?thesis by (simp add: holds_def open_binlog_file_def)
qed

lemma beside_plain: "distinct (map fst d) \<Longrightarrow> plain_files (files_beside_binlog d)"
  by (auto simp: plain_files_def files_beside_binlog_def list_all_iff distinct_map_filter)

lemma beside_lookup:
  assumes "parse_binlog_segment_end_sequence name = Inr None" and "name \<noteq> BINLOG_PATH"
  shows "map_of (files_beside_binlog d) name = map_of d name"
  using assms by (induction d) (auto simp: files_beside_binlog_def)

lemma beside_snapshot: "current_snapshot (files_beside_binlog d) = current_snapshot d"
proof -
  have "map_of (files_beside_binlog d) SNAPSHOT_PATH = map_of d SNAPSHOT_PATH" "map_of (files_beside_binlog d) SNAPSHOT_BACKUP_PATH = map_of d SNAPSHOT_BACKUP_PATH"
    by (rule beside_lookup; simp add: paths_parse more_paths_differ)+
  then show ?thesis by (simp only: current_snapshot_def)
qed

section \<open>The start\<close>

definition set_compaction_entry_floor :: "nat \<Rightarrow> 'a commit_runtime_scheme \<Rightarrow> 'a commit_runtime_scheme" where
  "set_compaction_entry_floor entries p = p\<lparr>compaction_entry_floor := entries\<rparr>"

definition persistence_new :: "managed_binlog \<Rightarrow> fsync_policy \<Rightarrow> u64 \<Rightarrow> bool \<Rightarrow> persistence" where
  "persistence_new f policy sequence ready = commit_runtime.extend (runtime_new f policy sequence)
     \<lparr>backlog = [], published = [], replication_ready = ready, stop_requested = False\<rparr>"

definition restored_persistence :: "managed_binlog \<Rightarrow> fsync_policy \<Rightarrow> bool \<Rightarrow> recovery_state \<Rightarrow> nat \<Rightarrow> persistence" where
  "restored_persistence f policy ready recovery entries = snd (request_maintenance_if_needed COMPACTION_THRESHOLD
     (set_compaction_entry_floor entries
       (restore_maintenance_state (replayed_records recovery) (of_nat (recovered_binlog_bytes recovery)) (recovered_unsnapshotted recovery)
         (recovered_segments recovery) (recovered_watermark recovery)
         (persistence_new f policy (last_sequence recovery) ready))))"

text \<open>
  \<open>fs\<close> and \<open>bs\<close> are the choices for the calls on the replica state file and for those of the binlog
  worker; \<open>left\<close> is what a failed write leaves in the temporary state file.
\<close>

definition startup :: "compression \<Rightarrow> env \<Rightarrow> server_config \<Rightarrow> bytes \<Rightarrow> io_choice list \<Rightarrow> io_choice list \<Rightarrow> directory \<Rightarrow>
    (replica_identity option \<times> server) presult option" where
  "startup Z E C left fs bs d = (case load_data_from_paths Z E d (with_maxmemory (config_maxmemory C) (config_policy C)) of
      None \<Rightarrow> None
    | Some (Inl e, _, _) \<Rightarrow> Some (Inl e)
    | Some (Inr recovery, st, d1) \<Rightarrow>
        (case prepare_replication_startup left (recovered_watermark recovery) (config_master_addr C \<noteq> None) (fs, d1) of
          (Inl e, _) \<Rightarrow> Some (Inl e)
        | (Inr identity, _, d2) \<Rightarrow> (case store_stats E st of (counted, st1) \<Rightarrow>
            Some (Inr (identity, \<lparr>clock = E, live_data = st1,
              pers = restored_persistence (open_binlog_file bs d2) (config_fsync C) (identity \<noteq> None) recovery (stats_total_keys counted),
              files = files_beside_binlog d2, compaction = Idle\<rparr>)))))"

text \<open>The state in which the connection loop of a replica starts.\<close>

definition start_replica :: "io_choice list \<Rightarrow> u64 \<Rightarrow> replica_identity option \<Rightarrow> server \<Rightarrow> replica" where
  "start_replica fs recovered_sequence identity v = \<lparr>replica_data = live_data v, replica_pers = pers v, replica_files = (fs, files v),
     upstream_replid = (case identity of Some i \<Rightarrow> replid i | None \<Rightarrow> 0), promote_to_master = False, replica_role = True,
     local_replid = (case identity of Some i \<Rightarrow> replid i | None \<Rightarrow> 0),
     local_offset = (case identity of Some _ \<Rightarrow> recovered_sequence | None \<Rightarrow> 0)\<rparr>"

lemma restored_fields [simp]:
  "binlog (restored_persistence f policy ready recovery n) = f" "repl_offset (restored_persistence f policy ready recovery n) = last_sequence recovery"
  "snapshot_watermark (restored_persistence f policy ready recovery n) = recovered_watermark recovery"
  "fail_stop_started (restored_persistence f policy ready recovery n) = False" "accepting_writes (restored_persistence f policy ready recovery n) = True"
  "backlog (restored_persistence f policy ready recovery n) = []" "published (restored_persistence f policy ready recovery n) = []"
  "replication_ready (restored_persistence f policy ready recovery n) = ready" "stop_requested (restored_persistence f policy ready recovery n) = False"
  by (simp_all add: restored_persistence_def request_maintenance_if_needed_def request_snapshot_if_needed_def request_rollover_if_needed_def
      set_compaction_entry_floor_def restore_maintenance_state_def persistence_new_def runtime_new_def commit_runtime.defs case_prod_beta)

section \<open>A start establishes the invariant\<close>

lemma recovered_later:
  assumes "now E \<le> now E'"
  shows "palive E' (recovered_content E s log k) = recovered_content E' s log k"
proof -
  have "(\<lambda>k. palive E' (entries_view E entries k)) = entries_view E' entries" for entries
    by (simp add: fun_eq_iff entries_view_def palive_later [OF assms])
  then show ?thesis unfolding recovered_content_def effects_later [OF assms] by simp
qed

text \<open>The segments above the snapshot are a suffix of the history.\<close>

lemma kept_suffix:
  assumes "sorted_wrt (<) (map segment_end segs)"
  shows "\<exists>gone. segs = gone @ filter (\<lambda>seg. w < segment_end seg) segs \<and> (\<forall>seg \<in> set gone. segment_end seg \<le> w)"
  using assms
proof (induction segs)
  case (Cons seg segs)
  show ?case
  proof (cases "w < segment_end seg")
    case True
    then have "filter (\<lambda>seg. w < segment_end seg) (seg # segs) = seg # segs" using Cons.prems by (force simp: filter_id_conv)
    then show ?thesis by (intro exI [of _ "[]"]) simp
  next
    case False
    from Cons obtain gone where "segs = gone @ filter (\<lambda>seg. w < segment_end seg) segs" "\<forall>seg \<in> set gone. segment_end seg \<le> w" by auto
    with False show ?thesis by (intro exI [of _ "seg # gone"]) auto
  qed
qed simp

lemma describes_kept:
  assumes d: "describes E s (concat segs @ active) st offset" and ne: "[] \<notin> set segs"
  shows "describes E s (concat (filter (\<lambda>seg. image_watermark s < segment_end seg) segs) @ active) st offset"
proof -
  let ?kept = "filter (\<lambda>seg. image_watermark s < segment_end seg) segs"
  obtain q where c: "contiguous (Some q) (concat segs @ active)" using describes_contiguous [OF d] by blast
  have "sorted_wrt (<) (map segment_end segs)" by (rule segment_ends_sorted [OF contiguous_ordered [OF c] ne])
  from kept_suffix [OF this] obtain gone where g: "segs = gone @ ?kept" "\<forall>seg \<in> set gone. segment_end seg \<le> image_watermark s" by blast
  have "take (length gone) segs = gone" "drop (length gone) segs = ?kept" by (subst g(1), simp)+
  with describes_uncover [OF d, of "length gone" "image_watermark s"] g(2) show ?thesis by simp
qed

text \<open>Reading back at a later time is as good as the live store.\<close>

lemma describes_later_view:
  assumes "pview (E\<lparr>now := t\<rparr>) st' = recovered_content (E\<lparr>now := t\<rparr>) s log" and "t \<le> u"
  shows "pview (E\<lparr>now := u\<rparr>) st' k = recovered_content (E\<lparr>now := u\<rparr>) s log k"
  using pview_later [of "E\<lparr>now := t\<rparr>" "E\<lparr>now := u\<rparr>" st'] recovered_later [of "E\<lparr>now := t\<rparr>" "E\<lparr>now := u\<rparr>"] assms by simp

lemma describes_recovered:
  assumes "describes E s log st offset" and "now E \<le> t" and "pview (E\<lparr>now := t\<rparr>) st' = recovered_content (E\<lparr>now := t\<rparr>) s log"
  shows "describes (E\<lparr>now := t\<rparr>) s log st' offset"
  using assms(1) describes_later_view [OF assms(3)] unfolding describes_def by (simp add: same_entry_def)

lemma startup_recovers:
  assumes snap: "snapshot_at Z E d s" and h: "history_at E d segs active tail" and desc: "describes E s (concat segs @ active) st offset" and t: "now E \<le> t"
  obtains rec st1 d1 where "load_data_from_paths Z (E\<lparr>now := t\<rparr>) d (with_maxmemory m policy) = Some (Inr rec, st1, d1)"
    "last_sequence rec = offset" "recovered_watermark rec = image_watermark s" "store_wf st1" "same_beside_binlog d d1"
    "history_at E d1 (filter (\<lambda>seg. image_watermark s < segment_end seg) segs) active []"
    "describes (E\<lparr>now := t\<rparr>) s (concat (filter (\<lambda>seg. image_watermark s < segment_end seg) segs) @ active) st1 offset"
    "\<And>u. t \<le> u \<Longrightarrow> agrees (E\<lparr>now := u\<rparr>) st1 st"
proof -
  let ?E = "E\<lparr>now := t\<rparr>" and ?log = "concat segs @ active" and ?st = "with_maxmemory m policy"
  have new: "store_wf ?st" "\<not> snapshot_active (store_engine ?st)"
    using store_new_wf store_new_idle by (simp_all add: store_wf_def store_new_def with_maxmemory_def)
  from desc obtain q where q: "contiguous (Some q) ?log" "q \<le> image_watermark s" "image_watermark s \<le> offset" "last_of (Some q) ?log = Some offset"
    unfolding describes_def by blast
  have "recovers Z ?E d s segs active ?st" by (rule recovery_spec [OF _ _ q(1,2) new]) (use snap h in simp_all)
  then obtain rec e d1 where r: "load_data_from_paths Z ?E d ?st = Some (Inr rec, ?st\<lparr>store_engine := e\<rparr>, d1)"
      "last_sequence rec = max (image_watermark s) (the (last_of (Some 0) ?log))" "recovered_watermark rec = image_watermark s"
      "pview ?E (?st\<lparr>store_engine := e\<rparr>) = recovered_content ?E s ?log" "store_wf (?st\<lparr>store_engine := e\<rparr>)"
      "history_at ?E d1 (filter (\<lambda>seg. image_watermark s < segment_end seg) segs) active []" "same_beside_binlog d d1"
    unfolding recovers_def Let_def by fastforce
  have ne: "[] \<notin> set segs" using h by (auto simp: history_at_def list_all_iff)
  note now = describes_kept [OF describes_recovered [OF desc t r(4)] ne]
  have "agrees (E\<lparr>now := u\<rparr>) (?st\<lparr>store_engine := e\<rparr>) st" if u: "t \<le> u" for u
    using desc describes_later_view [OF r(4) u] t u unfolding agrees_def describes_def by (metis order_trans)
  then show thesis by (intro that [OF r(1) _ r(3,5,7) _ now]) (use r(2,6) recovered_offset [OF q(2-4)] in simp_all)
qed

lemma prepare_files:
  assumes "prepare_replication_startup left w as_replica (fs, d) = (res, fs', d')"
  shows "same_but_state d d'"
  using assms write_state_spec(1)
  by (auto simp: prepare_replication_startup_def write_replica_detached_def split: sum.splits option.splits durable_replica_state.splits if_splits elim!: and_nextE)

lemma history_state: "history_at E d segs active p \<Longrightarrow> same_but_state d d' \<Longrightarrow> history_at E d' segs active p"
  by (rule history_names [of E d segs active p d' "{REPLICA_STATE_PATH, REPLICA_STATE_TEMP_PATH}"])
    (auto simp: same_but_state_def more_paths_parse more_paths_differ)

lemma beside_state: "same_beside_binlog d d1 \<Longrightarrow> same_but_state d1 d2 \<Longrightarrow> current_snapshot (files_beside_binlog d2) = current_snapshot d"
proof -
  assume d: "same_beside_binlog d d1" "same_but_state d1 d2"
  have "map_of d1 name = map_of d name" "map_of d2 name = map_of d1 name" if name: "name \<in> {SNAPSHOT_PATH, SNAPSHOT_BACKUP_PATH}" for name
  proof -
    have "name \<notin> {BINLOG_PATH, BINLOG_TEMP_PATH, BINLOG_BACKUP_PATH}" using name by (auto simp: paths)
    moreover have "parse_binlog_segment_end_sequence name = Inr None" "name \<noteq> REPLICA_STATE_PATH" "name \<noteq> REPLICA_STATE_TEMP_PATH"
      using name paths_parse(4,5) more_paths_differ by auto
    ultimately show "map_of d1 name = map_of d name" "map_of d2 name = map_of d1 name"
      using d unfolding same_beside_binlog_def same_but_state_def by blast+
  qed
  then have "map_of d2 SNAPSHOT_PATH = map_of d SNAPSHOT_PATH" "map_of d2 SNAPSHOT_BACKUP_PATH = map_of d SNAPSHOT_BACKUP_PATH" by simp_all
  then show ?thesis unfolding beside_snapshot by (simp only: current_snapshot_def)
qed

lemma counted_view:
  assumes "store_stats E st = (counted, st1)" and "store_wf st"
  shows "now E \<le> now E' \<Longrightarrow> pview E' st1 = pview E' st" "store_wf st1"
proof -
  have st1: "st1 = st\<lparr>store_engine := snd (stats E (store_engine st))\<rparr>" using assms(1) by (auto simp: store_stats_def on_engine_def case_prod_beta)
  have wf: "engine_wf (store_engine st)" using assms(2) by (simp add: store_wf_def)
  show "store_wf st1" using engine_change_wf [OF stats_change wf] by (simp add: st1 store_wf_def)
  have "pview E st1 = pview E st"
    by (simp add: fun_eq_iff pview_def view_alive st1 engine_change_contents [OF stats_change wf] alive_def live_def split: option.splits)
  then show "now E \<le> now E' \<Longrightarrow> pview E' st1 = pview E' st" using pview_later by (metis ext)
qed

lemma startup_safe:
  assumes snap: "snapshot_at Z E d s" and h: "history_at E d segs active tail" and desc: "describes E s (concat segs @ active) st offset" and t: "now E \<le> t"
    and run: "startup Z (E\<lparr>now := t\<rparr>) C left fs bs d = Some (Inr (identity, v))"
  shows "safe_with Z v s (filter (\<lambda>seg. image_watermark s < segment_end seg) segs) active \<and> repl_offset (pers v) = offset \<and>
    \<not> fail_stop_started (pers v) \<and> clock v = E\<lparr>now := t\<rparr> \<and> (\<forall>u. t \<le> u \<longrightarrow> agrees (E\<lparr>now := u\<rparr>) (live_data v) st)"
proof -
  let ?E = "E\<lparr>now := t\<rparr>" and ?kept = "filter (\<lambda>seg. image_watermark s < segment_end seg) segs"
  obtain rec st1 d1 where r: "load_data_from_paths Z ?E d (with_maxmemory (config_maxmemory C) (config_policy C)) = Some (Inr rec, st1, d1)"
      "last_sequence rec = offset" "recovered_watermark rec = image_watermark s" "store_wf st1" "same_beside_binlog d d1"
      "history_at E d1 ?kept active []" "describes ?E s (concat ?kept @ active) st1 offset" "\<And>u. t \<le> u \<Longrightarrow> agrees (E\<lparr>now := u\<rparr>) st1 st"
    using startup_recovers [OF snap h desc t, of "config_maxmemory C" "config_policy C"] by blast
  obtain res fs' d2 where p: "prepare_replication_startup left (image_watermark s) (config_master_addr C \<noteq> None) (fs, d1) = (res, fs', d2)"
    by (cases "prepare_replication_startup left (image_watermark s) (config_master_addr C \<noteq> None) (fs, d1)")
  obtain counted st2 where c: "store_stats ?E st1 = (counted, st2)" by (cases "store_stats ?E st1")
  have v: "v = \<lparr>clock = ?E, live_data = st2,
      pers = restored_persistence (open_binlog_file bs d2) (config_fsync C) (identity \<noteq> None) rec (stats_total_keys counted),
      files = files_beside_binlog d2, compaction = Idle\<rparr>"
    using run unfolding startup_def r(1) option.case prod.case sum.case r(3) p c by (cases res) simp_all
  note same = prepare_files [OF p]
  have h2: "history_at E d2 ?kept active []" by (rule history_state [OF r(6) same])
  obtain q where "contiguous (Some q) (concat ?kept @ active)" using describes_contiguous [OF r(7)] by blast
  note hold = opened_holds [OF h2 contiguous_ordered [OF this], of bs]
  have "plain_files (files_beside_binlog d2)" by (rule beside_plain) (use h2 in \<open>simp add: history_at_def\<close>)
  moreover have "snapshot_at Z ?E (files_beside_binlog d2) s" by (rule snapshot_current [OF _ beside_state [OF r(5) same]]) (use snap in simp)
  moreover have "describes ?E s (concat ?kept @ active) st2 offset"
    by (rule describes_agrees [OF r(7)]) (use counted_view(1) [OF c r(4)] in \<open>simp add: agrees_def same_entry_def\<close>)
  moreover have "agrees (E\<lparr>now := u\<rparr>) st2 st" if "t \<le> u" for u
    using r(8) [OF that] counted_view(1) [OF c r(4), of "E\<lparr>now := u\<rparr>"] that by (simp add: agrees_def)
  ultimately show ?thesis using hold counted_view(2) [OF c r(4)] by (simp add: v safe_with_def r(2,3) phase_ok_def)
qed

lemma crash_files:
  assumes "safe_with Z v s segs active" and "torn (clock v) tail"
  defines "d \<equiv> crash (on_disk (files v) (binlog (pers v))) (pers v) tail"
  shows "snapshot_at Z (clock v) d s" "history_at (clock v) d segs active tail" "describes (clock v) s (concat segs @ active) (live_data v) (repl_offset (pers v))"
proof -
  have dur: "snapshot_at Z (clock v) (on_disk (files v) (binlog (pers v))) s" "history_at (clock v) (on_disk (files v) (binlog (pers v))) segs active []"
      "active_bytes (binlog (pers v)) = logged (clock v) active"
    using safe_durable [OF assms(1)] unfolding durable_def by blast+
  have "loggable (clock v) active" using dur(2) by (simp add: history_at_def)
  with snapshot_crash [OF dur(1)] history_crash [OF dur(2) _ assms(2)] dur(3) show "snapshot_at Z (clock v) d s" "history_at (clock v) d segs active tail"
    by (simp_all add: d_def crash_def)
  show "describes (clock v) s (concat segs @ active) (live_data v) (repl_offset (pers v))" using assms(1) unfolding safe_with_def by blast
qed

lemma restart_safe:
  assumes safe: "safe_with Z v s segs active" and torn: "torn (clock v) tail" and t: "now (clock v) \<le> t"
    and run: "startup Z ((clock v)\<lparr>now := t\<rparr>) C left fs bs (crash (on_disk (files v) (binlog (pers v))) (pers v) tail) = Some (Inr (identity, v'))"
  shows "safe_with Z v' s (filter (\<lambda>seg. image_watermark s < segment_end seg) segs) active" "repl_offset (pers v') = repl_offset (pers v)"
    "\<not> fail_stop_started (pers v')" "clock v' = (clock v)\<lparr>now := t\<rparr>" "t \<le> u \<Longrightarrow> agrees ((clock v)\<lparr>now := u\<rparr>) (live_data v') (live_data v)"
proof -
  note f = crash_files [OF safe torn]
  from startup_safe [OF f t run]
  show "safe_with Z v' s (filter (\<lambda>seg. image_watermark s < segment_end seg) segs) active" "repl_offset (pers v') = repl_offset (pers v)"
    "\<not> fail_stop_started (pers v')" "clock v' = (clock v)\<lparr>now := t\<rparr>" "t \<le> u \<Longrightarrow> agrees ((clock v)\<lparr>now := u\<rparr>) (live_data v') (live_data v)" by blast+
qed

section \<open>Lives\<close>

text \<open>Steps of the running server and restarts after a crash, with any configuration.\<close>

inductive server_life :: "compression \<Rightarrow> server \<Rightarrow> server \<Rightarrow> bool" for Z where
  running: "server_step Z v v' \<Longrightarrow> server_life Z v v'"
| restart: "\<not> fail_stop_started (pers v) \<Longrightarrow> torn (clock v) tail \<Longrightarrow> now (clock v) \<le> t \<Longrightarrow>
    startup Z ((clock v)\<lparr>now := t\<rparr>) C left fs bs (crash (on_disk (files v) (binlog (pers v))) (pers v) tail) = Some (Inr (identity, v')) \<Longrightarrow>
    server_life Z v v'"

lemma life_safe:
  assumes "(server_life Z)\<^sup>*\<^sup>* v0 v" and "safe Z v0" and "\<And>x. gunzip Z (gzip Z x) = Inr x"
  shows "safe Z v"
  using assms(1)
proof (induction rule: rtranclp_induct)
  case (step v v')
  from step(2) show ?case
  proof cases
    case running
    then show ?thesis using run_safe [of Z v v'] step(3) assms(3) by blast
  next
    case (restart tail t C left fs bs identity)
    then obtain s segs active where "safe_with Z v s segs active" using step(3) by (auto simp: safe_def)
    from restart_safe(1) [OF this restart(2-4)] show ?thesis unfolding safe_def by blast
  qed
qed (fact assms(2))

lemma startup_returns:
  assumes "snapshot_at Z E d s" and "history_at E d segs active tail" and "describes E s (concat segs @ active) st offset" and "now E \<le> t"
  shows "\<exists>res. startup Z (E\<lparr>now := t\<rparr>) C left fs bs d = Some res \<and> (map_of d REPLICA_STATE_PATH = None \<longrightarrow> (\<exists>identity v. res = Inr (identity, v)))"
proof -
  obtain rec st1 d1 where r: "load_data_from_paths Z (E\<lparr>now := t\<rparr>) d (with_maxmemory (config_maxmemory C) (config_policy C)) = Some (Inr rec, st1, d1)"
      "same_beside_binlog d d1"
    by (rule startup_recovers [OF assms, of "config_maxmemory C" "config_policy C"]) (rule that)
  have "REPLICA_STATE_PATH \<notin> {BINLOG_PATH, BINLOG_TEMP_PATH, BINLOG_BACKUP_PATH}" by (auto simp: paths REPLICA_STATE_PATH_def)
  then have "map_of d1 REPLICA_STATE_PATH = map_of d REPLICA_STATE_PATH" using r(2) more_paths_parse(2) unfolding same_beside_binlog_def by blast
  then have "load_durable_replica_state d1 (recovered_watermark rec) = Inr None" if "map_of d REPLICA_STATE_PATH = None"
    using that by (simp add: load_durable_replica_state_def)
  then have fresh: "prepare_replication_startup left (recovered_watermark rec) r (fs, d1) = (Inr None, fs, d1)" if "map_of d REPLICA_STATE_PATH = None" for r
    using that by (simp add: prepare_replication_startup_def)
  obtain res fs' d2 where p: "prepare_replication_startup left (recovered_watermark rec) (config_master_addr C \<noteq> None) (fs, d1) = (res, fs', d2)"
    by (cases "prepare_replication_startup left (recovered_watermark rec) (config_master_addr C \<noteq> None) (fs, d1)")
  obtain counted st2 where c: "store_stats (E\<lparr>now := t\<rparr>) st1 = (counted, st2)" by (cases "store_stats (E\<lparr>now := t\<rparr>) st1")
  have "res = Inr None" if "map_of d REPLICA_STATE_PATH = None" using fresh [OF that] p by simp
  then show ?thesis unfolding startup_def r(1) option.case prod.case sum.case p c by (cases res) auto
qed

section \<open>Properties\<close>


definition sample_config :: server_config where
  "sample_config = \<lparr>config_master_addr = None, config_upstream = None, config_users = [], config_fsync = FsyncAlways, config_maxmemory = 0,
     config_policy = NoEviction, config_auto_failover = False, config_failover_timeout = 30, config_bind = V4 [127, 0, 0, 1],
     config_directory = ''.'', config_port = 6380, config_warnings = []\<rparr>"


end
