(* ===== verification/Full_Sync.thy ===== *)
theory Full_Sync
  imports Startup
begin

text \<open>
  Full synchronization: what \<open>install_full_sync\<close> leaves behind under every failure, what a restarted
  replica makes of it, and that the bytes of a full dump bring the replica to the master's data.
\<close>

section \<open>Recovery and the other files\<close>

definition binlog_name :: "bytes \<Rightarrow> bool" where
  "binlog_name name \<longleftrightarrow> starts_with name ''onyx.binlog''"

lemma binlog_names:
  "binlog_name BINLOG_PATH" "binlog_name BINLOG_TEMP_PATH" "binlog_name BINLOG_BACKUP_PATH" "binlog_name (binlog_segment n)"
  "parse_binlog_segment_end_sequence name = Inr (Some m) \<Longrightarrow> binlog_name name" "\<not> binlog_name REPLICA_STATE_PATH"
proof -
  show "binlog_name BINLOG_PATH" "binlog_name BINLOG_TEMP_PATH" "binlog_name BINLOG_BACKUP_PATH" "\<not> binlog_name REPLICA_STATE_PATH"
    by (simp_all add: binlog_name_def starts_with_def paths REPLICA_STATE_PATH_def)
  have prefix: "binlog_name s" if "starts_with s BINLOG_SEGMENT_PREFIX" for s
  proof -
    from that obtain rest where "s = BINLOG_SEGMENT_PREFIX @ rest" unfolding starts_with_def by (metis append_take_drop_id)
    then show ?thesis by (simp add: binlog_name_def starts_with_def BINLOG_SEGMENT_PREFIX_def)
  qed
  show "binlog_name (binlog_segment n)" by (rule prefix) (simp add: starts_with_def binlog_segment_def)
  assume "parse_binlog_segment_end_sequence name = Inr (Some m)"
  then have "starts_with name BINLOG_SEGMENT_PREFIX"
    by (auto simp: parse_binlog_segment_end_sequence_def str_of_bytes_def split: option.splits if_splits)
  then show "binlog_name name" by (rule prefix)
qed

lemma collected_names:
  "collect_segments E d found = Inr fs \<Longrightarrow> \<forall>f \<in> set found. binlog_name (file_name f) \<Longrightarrow> \<forall>f \<in> set fs. binlog_name (file_name f)"
proof (induction d arbitrary: found)
  case (Cons x d)
  obtain name c where x: "x = (name, c)" by (cases x)
  from Cons.prems(1) x consider "parse_binlog_segment_end_sequence name = Inr None" "collect_segments E d found = Inr fs"
    | m insp where "parse_binlog_segment_end_sequence name = Inr (Some m)"
      "collect_segments E d (found @ [\<lparr>file_name = name, declared_end_sequence = Some m, inspection = insp\<rparr>]) = Inr fs"
    by (auto simp: and_then_Inr split: sum.splits option.splits if_splits)
  then show ?case
  proof cases
    case 1
    show ?thesis by (rule Cons.IH [OF 1(2) Cons.prems(2)])
  next
    case 2
    show ?thesis by (rule Cons.IH [OF 2(2)]) (use Cons.prems(2) binlog_names(5) [OF 2(1)] in auto)
  qed
qed simp

lemma repaired_names:
  assumes "repair_segments insp sealed d = (Inr fs, d')" and "\<forall>f \<in> set sealed. binlog_name (file_name f)" and "\<not> binlog_name name"
  shows "map_of d' name = map_of d name" "\<forall>f \<in> set fs. binlog_name (file_name f)"
proof -
  have "map_of d' name = map_of d name \<and> (\<forall>f \<in> set fs. binlog_name (file_name f))"
  proof (cases "first_torn sealed")
    case None
    with assms show ?thesis by (simp add: repair_segments_def)
  next
    case (Some i)
    let ?f = "sealed ! i"
    from assms(1) Some obtain rep where i: "i + 1 = length sealed" and rep: "repair_last_incomplete_segment ?f d = (Inr rep, d')"
      and fs: "fs = (case rep of None \<Rightarrow> take i sealed | Some f \<Rightarrow> sealed[i := f])"
      by (auto simp: repair_segments_def split: if_splits elim!: and_nextE)
    have f: "binlog_name (file_name ?f)" using assms(2) i by simp
    have other: "name \<noteq> file_name ?f" "name \<noteq> binlog_segment n" for n using f assms(3) binlog_names(4) by auto
    from rep other have "map_of d' name = map_of d name" "\<forall>f'. rep = Some f' \<longrightarrow> binlog_name (file_name f')"
      using f binlog_names(4)
      by (auto simp: repair_last_incomplete_segment_def Let_def map_of_write map_of_remove map_of_rename split: if_splits option.splits)
    then show ?thesis using assms(2) fs by (auto split: option.splits dest!: in_set_takeD set_update_subset_insert [THEN subsetD])
  qed
  then show "map_of d' name = map_of d name" "\<forall>f \<in> set fs. binlog_name (file_name f)" by blast+
qed

lemma inspected_names:
  assumes "inspect_binlog_history E d = (Inr fs, d')" and "\<not> binlog_name name"
  shows "map_of d' name = map_of d name" "\<forall>f \<in> set fs. binlog_name (file_name f)"
proof -
  from assms(1) obtain found insp sealed where c: "collect_segments E d [] = Inr found" "inspect_binlog E (map_of d BINLOG_PATH) = Inr insp"
    and r: "repair_segments insp (sort_key (the \<circ> declared_end_sequence) found) d = (Inr sealed, d')"
    and fs: "fs = sealed @ [\<lparr>file_name = BINLOG_PATH, declared_end_sequence = None, inspection = insp\<rparr>]"
    by (auto simp: inspect_binlog_history_def Let_def and_then_Inr elim!: and_nextE)
  have "\<forall>f \<in> set (sort_key (the \<circ> declared_end_sequence) found). binlog_name (file_name f)" using collected_names [OF c(1)] by simp
  from repaired_names [OF r this assms(2)] show "map_of d' name = map_of d name" "\<forall>f \<in> set fs. binlog_name (file_name f)"
    using binlog_names(1) by (auto simp: fs)
qed

lemma recovery_keeps:
  assumes "load_data_from_paths Z E d st = Some (Inr rec, st', d')" and name: "\<not> binlog_name name"
  shows "map_of d' name = map_of d name"
proof -
  have other: "name \<noteq> BINLOG_PATH" "name \<noteq> BINLOG_TEMP_PATH" "name \<noteq> BINLOG_BACKUP_PATH" using name binlog_names by auto
  from assms(1) obtain d1 d2 fs w s where d1: "recover_interrupted_binlog_rotation d = Inr d1"
    and d2: "inspect_binlog_history E d1 = (Inr fs, d2)" and fin: "finish_recovery E fs w s st d2 = Some (Inr rec, st', d')"
    unfolding load_data_from_paths_def Let_def by (auto split: sum.splits if_splits prod.splits)
  have "map_of d1 name = map_of d name"
    using d1 other by (auto simp: recover_interrupted_binlog_rotation_def map_of_rename split: if_splits option.splits)
  moreover note insp = inspected_names [OF d2 name]
  moreover have "map_of d' name = map_of d2 name"
  proof -
    have "name \<notin> file_name ` set (filter (covered w) fs)" using insp(2) name by auto
    with fin other show ?thesis
      by (auto simp: finish_recovery_def Let_def cleanup_snapshot_covered_segments_def map_of_remove fold_remove(1) map_of_write split: prod.splits option.splits if_splits)
  qed
  ultimately show ?thesis by simp
qed

section \<open>Truncation\<close>

lemma remove_segments_all: "remove_segments n removed f = (Inr (), f') \<Longrightarrow> segments f' = drop n (segments f)"
proof (induction n arbitrary: removed f)
  case 0
  then show ?case by (auto simp: sync_parent_directory_def dest!: idle_call same_files_bytes split: if_splits)
next
  case (Suc n)
  from Suc.prems obtain g where g: "os_call (\<lambda>f. f\<lparr>segments := tl (segments f)\<rparr>) f = (Inr (), g)" "remove_segments n True g = (Inr (), f')"
    by (auto elim!: and_nextE)
  from g(1) have "segments g = tl (segments f)" by (auto elim!: os_call_cases)
  with Suc.IH [OF g(2)] show ?case by (simp add: drop_Suc)
qed

lemma truncate_all:
  assumes "Binlog_File.truncate 0 f = (Inr (), f')"
  shows "active_file f' = Some []" "segments f' = []"
proof -
  from assms obtain f1 f2 where f1: "set_len 0 f = (Inr (), f1)" and f2: "seek_start 0 f1 = (Inr (), f2)" and r: "remove_all_binlog_segments f2 = (Inr (), f')"
    by (auto simp: Binlog_File.truncate_def elim!: and_nextE)
  from f1 have "active_file f1 = Some []" by (auto simp: set_len_def on_handle_def resized_def split: if_splits elim!: os_call_cases)
  moreover from f2 have "active_file f2 = active_file f1" by (auto simp: seek_start_def on_handle_def split: if_splits elim!: os_call_cases)
  ultimately show "active_file f' = Some []" using remove_all_active [OF r] by simp
  from r obtain g where "remove_segments (length (segments g)) False g = (Inr (), f')"
    by (auto simp: remove_all_binlog_segments_def elim!: and_nextE)
  from remove_segments_all [OF this] show "segments f' = []" by simp
qed

lemma storage_Inr: "storage wrap context_text q = (Inr a, s) \<longleftrightarrow> q = (Inr a, s)"
  by (cases q; cases "fst q") (auto simp: storage_def)

lemma worker_truncate_all: "worker_truncate f = (Inr (), f') \<Longrightarrow> active_file f' = Some [] \<and> segments f' = []"
proof -
  assume "worker_truncate f = (Inr (), f')"
  then obtain f1 f2 where "Binlog_File.truncate 0 f1 = (Inr (), f2)" "sync_all f2 = (Inr (), f')"
    by (auto simp: worker_truncate_def storage_Inr elim!: and_nextE)
  then show ?thesis using truncate_all [of f1 f2]
    by (auto simp: sync_all_def on_handle_def same_files_def dest!: idle_call split: if_splits)
qed

lemma binlog_truncate_all:
  assumes "binlog_truncate p = (Inr (), p')"
  shows "active_file (binlog p') = Some [] \<and> segments (binlog p') = []"
  using assms unfolding binlog_truncate_def
proof (cases rule: worker_call_cases)
  case (2 c q f)
  then have "q = Inr ()" by (cases q) auto
  with 2 worker_truncate_all show ?thesis by simp
qed simp

lemma holds_nothing: "active_file f = Some [] \<Longrightarrow> segments f = [] \<Longrightarrow> holds E f [] []"
  by (simp add: holds_def logged_def encoded_def loggable_def)

section \<open>The outcomes of an installation\<close>

abbreviation state_file :: "directory \<Rightarrow> bytes option" where
  "state_file d \<equiv> map_of d REPLICA_STATE_PATH"

abbreviation state_bytes :: "durable_replica_state \<Rightarrow> bytes" where
  "state_bytes s \<equiv> state_line s @ [LF]"

text \<open>The files are the new baseline: an empty log, the snapshot of the received entries, and the identity.\<close>

definition baseline_at :: "compression \<Rightarrow> env \<Rightarrow> replica_identity \<Rightarrow> (bytes \<times> data_entry) list \<Rightarrow> directory \<Rightarrow> bool" where
  "baseline_at Z E i entries d \<longleftrightarrow> state_file d = Some (state_bytes (Ready i)) \<and>
     (\<exists>body. encode_entries E entries = Inr body \<and> current_snapshot d = Some (gzip Z (snapshot_header (baseline_sequence i) @ body)))"

lemma other_state: "other_files d d' \<Longrightarrow> state_file d' = state_file d"
proof -
  have "REPLICA_STATE_PATH \<noteq> SNAPSHOT_PATH" "REPLICA_STATE_PATH \<noteq> SNAPSHOT_BACKUP_PATH" "REPLICA_STATE_PATH \<noteq> SNAPSHOT_TEMP_PATH"
    by (simp_all add: paths SNAPSHOT_TEMP_PATH_def REPLICA_STATE_PATH_def)
  then show "other_files d d' \<Longrightarrow> state_file d' = state_file d" unfolding other_files_def by blast
qed

lemma wrapped_Inl: "apfst (map_sum f id) q = (Inl e, k) \<longleftrightarrow> (\<exists>e'. q = (Inl e', k) \<and> e = f e')"
  by (cases q; cases "fst q") auto

lemma wrapped_Inr: "apfst (map_sum f id) q = (Inr a, k) \<longleftrightarrow> q = (Inr a, k)"
  by (cases q; cases "fst q") auto

lemma write_baseline_spec:
  assumes "write_baseline Z E partial left upstream sequence entries (cs, d) = (res, cs', d')" and "plain_files d"
  shows "plain_files d'"
    and "res \<noteq> Inr () \<and> state_file d' = state_file d \<or> baseline_at Z E \<lparr>replid = upstream, baseline_sequence = sequence\<rparr> entries d'"
proof -
  let ?i = "\<lparr>replid = upstream, baseline_sequence = sequence\<rparr>"
  let ?snap = "write_snapshot_file Z E entries sequence partial (cs, d)"
  have "plain_files d' \<and> (res \<noteq> Inr () \<and> state_file d' = state_file d \<or> baseline_at Z E ?i entries d')"
    using assms(1) unfolding write_baseline_def
  proof (cases rule: and_nextE)
    case (stop e)
    then obtain e' where "?snap = (Inl e', cs', d')" by (auto simp: wrapped_Inl)
    note w = write_snapshot_spec [OF this]
    then show ?thesis using plain_other [OF assms(2)] other_state stop(2) by blast
  next
    case (go a k)
    obtain cs1 d1 where k: "k = (cs1, d1)" by (cases k)
    have snap: "?snap = (Inr (), cs1, d1)" using go(1) by (simp add: wrapped_Inr k)
    then obtain body where b: "other_files d d1" "encode_entries E entries = Inr body" "current_snapshot d1 = Some (gzip Z (snapshot_header sequence @ body))"
      using write_snapshot_spec [OF snap] by (auto simp: current_snapshot_def)
    obtain r2 where r2: "write_durable_replica_state left (Ready ?i) (cs1, d1) = (r2, cs', d')" "res = Inr () \<longrightarrow> r2 = Inr ()"
      using go(2) by (cases "write_durable_replica_state left (Ready ?i) (cs1, d1)") (auto simp: k write_replica_identity_def map_sum_Inr)
    note w = write_state_spec [OF r2(1)]
    note p = plain_state [OF plain_other [OF assms(2) b(1)] w(1)]
    from w(2) show ?thesis
    proof
      assume same: "state_file d' = state_file d1"
      show ?thesis
      proof (cases "res = Inr ()")
        case True
        then have "state_file d' = Some (state_bytes (Ready ?i))" using w(3) r2(2) by blast
        with p b show ?thesis by (simp add: baseline_at_def)
      next
        case False
        with p same other_state [OF b(1)] show ?thesis by simp
      qed
    next
      assume "state_file d' = Some (state_bytes (Ready ?i))"
      with p b show ?thesis by (simp add: baseline_at_def)
    qed
  qed
  then show "plain_files d'" "res \<noteq> Inr () \<and> state_file d' = state_file d \<or> baseline_at Z E ?i entries d'" by blast+
qed

text \<open>
  What an installation can leave: the files of before, with at most the state file changed to
  \<open>Installing\<close>; files that \<open>Installing\<close> marks as unusable; or the new baseline.
\<close>

definition install_outcome :: "compression \<Rightarrow> env \<Rightarrow> replica_identity \<Rightarrow> (bytes \<times> data_entry) list \<Rightarrow> replica \<Rightarrow> replica \<Rightarrow> bool" where
  "install_outcome Z E i entries r r' \<longleftrightarrow>
     same_files (binlog (replica_pers r)) (binlog (replica_pers r')) \<and> same_but_state (snd (replica_files r)) (snd (replica_files r')) \<and>
       state_file (snd (replica_files r')) = state_file (snd (replica_files r)) \<or>
     state_file (snd (replica_files r')) = Some (state_bytes Installing) \<or>
     baseline_at Z E i entries (snd (replica_files r')) \<and> active_file (binlog (replica_pers r')) = Some [] \<and>
       segments (binlog (replica_pers r')) = [] \<and> plain_files (snd (replica_files r'))"

lemma stop_binlog [simp]: "binlog (stop_if_indeterminate msg e p) = binlog p" "binlog (enter_persistence_fail_stop msg p) = binlog p"
  by (simp_all add: stop_if_indeterminate_def enter_persistence_fail_stop_def enter_fail_stop_def)

lemma flush_same: "binlog_flush p = (res, p') \<Longrightarrow> same_files (binlog p) (binlog p') \<and> same_runtime p p'"
  unfolding binlog_flush_def using worker_idle worker_ops_idle(2) by blast

lemma install_cases:
  assumes run: "install_full_sync Z E partial left left' upstream sequence staged r = Some (res, r')" and plain: "plain_files (snd (replica_files r))"
    and i: "i = \<lparr>replid = upstream, baseline_sequence = sequence\<rparr>" and entries: "entries = fst (snapshot_all E (store_engine staged))"
  shows "install_outcome Z E i entries r r'" and "res \<noteq> Inr () \<Longrightarrow> replica_data r' = replica_data r"
    and "res = Inr () \<Longrightarrow> \<exists>e p k. replace_all E entries (store_engine (replica_data r)) = Some e \<and>
      r' = r\<lparr>replica_data := (replica_data r)\<lparr>store_engine := e\<rparr>, replica_files := k, upstream_replid := upstream,
        replica_pers := (install_baseline sequence (length entries) p)\<lparr>replication_ready := True, backlog := []\<rparr>\<rparr> \<and>
      baseline_at Z E i entries (snd k) \<and> active_file (binlog p) = Some [] \<and> segments (binlog p) = [] \<and> plain_files (snd k)"
proof -
  let ?p = "replica_pers r" and ?early = "upstream = 0 \<or> promote_to_master r \<or> stop_requested (replica_pers r) \<or> \<not> accepting_writes (replica_pers r)"
  let ?ok = "\<exists>e p k. replace_all E entries (store_engine (replica_data r)) = Some e \<and>
      r' = r\<lparr>replica_data := (replica_data r)\<lparr>store_engine := e\<rparr>, replica_files := k, upstream_replid := upstream,
        replica_pers := (install_baseline sequence (length entries) p)\<lparr>replication_ready := True, backlog := []\<rparr>\<rparr> \<and>
      baseline_at Z E i entries (snd k) \<and> active_file (binlog p) = Some [] \<and> segments (binlog p) = [] \<and> plain_files (snd k)"
  obtain x p1 where x: "binlog_flush (?p\<lparr>replication_ready := False\<rparr>) = (x, p1)" by (cases "binlog_flush (?p\<lparr>replication_ready := False\<rparr>)")
  obtain cs d where k: "replica_files r = (cs, d)" by (cases "replica_files r")
  obtain y cs1 d1 where y: "write_replica_installing left (cs, d) = (y, cs1, d1)" by (cases "write_replica_installing left (cs, d)")
  obtain z p2 where z: "binlog_truncate p1 = (z, p2)" by (cases "binlog_truncate p1")
  obtain rest where sa: "snapshot_all E (store_engine staged) = (entries, rest)" by (cases "snapshot_all E (store_engine staged)") (simp add: entries)
  obtain w cs2 d2 where w: "write_baseline Z E partial left' upstream sequence entries (cs1, d1) = (w, cs2, d2)"
    by (cases "write_baseline Z E partial left' upstream sequence entries (cs1, d1)")
  note step = run [unfolded install_full_sync_def Let_def x prod.case k y z sa w]
  have same: "same_files (binlog ?p) (binlog p1)" using flush_same [OF x] by simp
  note inst = write_state_spec [OF y [unfolded write_replica_installing_def]]
  have plain1: "plain_files d1" using plain_state [OF _ inst(1)] plain k by simp
  have all: "install_outcome Z E i entries r r' \<and> (res \<noteq> Inr () \<longrightarrow> replica_data r' = replica_data r) \<and> (res = Inr () \<longrightarrow> ?ok)"
  proof (cases ?early)
    case True
    then have "r' = r \<and> res \<noteq> Inr ()" using step by (auto split: if_splits)
    then show ?thesis by (simp add: install_outcome_def)
  next
    case go: False
    note step = step [unfolded if_not_P [OF go [simplified, THEN conjunct1]]]
    show ?thesis
    proof (cases x)
      case (Inl e)
      with step go k same show ?thesis by (auto simp: install_outcome_def)
    next
      case x: (Inr u)
      show ?thesis
      proof (cases y)
        case (Inl e)
        with step go x k same inst show ?thesis by (auto simp: install_outcome_def)
      next
        case y: (Inr u')
        then have state: "state_file d1 = Some (state_bytes Installing)" using inst(3) by simp
        show ?thesis
        proof (cases z)
          case (Inl e)
          with step go x y state show ?thesis by (auto simp: install_outcome_def)
        next
          case z': (Inr u'')
          then have gone: "active_file (binlog p2) = Some [] \<and> segments (binlog p2) = []" using binlog_truncate_all z by simp
          note b = write_baseline_spec [OF w plain1, folded i]
          show ?thesis
          proof (cases w)
            case (Inl e)
            with step go x y z' have "res \<noteq> Inr () \<and> replica_data r' = replica_data r \<and> replica_files r' = (cs2, d2) \<and> binlog (replica_pers r') = binlog p2" by auto
            with b state gone show ?thesis by (auto simp: install_outcome_def)
          next
            case w': (Inr v)
            then obtain e where e: "replace_all E entries (store_engine (replica_data r)) = Some e"
              using step go x y z' by (cases "replace_all E entries (store_engine (replica_data r))") auto
            with step go x y z' w' have r': "res = Inr ()" "r' = r\<lparr>replica_data := (replica_data r)\<lparr>store_engine := e\<rparr>, replica_files := (cs2, d2), upstream_replid := upstream,
              replica_pers := (install_baseline sequence (length entries) p2)\<lparr>replication_ready := True, backlog := []\<rparr>\<rparr>" by auto
            have "?ok" by (rule exI [of _ e], rule exI [of _ p2], rule exI [of _ "(cs2, d2)"]) (use e r' b w' gone in auto)
            moreover have "install_outcome Z E i entries r r'" using b w' gone by (simp add: install_outcome_def r'(2) install_baseline_def)
            ultimately show ?thesis using r'(1) by simp
          qed
        qed
      qed
    qed
  qed
  then show "install_outcome Z E i entries r r'" "res \<noteq> Inr () \<Longrightarrow> replica_data r' = replica_data r" "res = Inr () \<Longrightarrow> ?ok" by blast+
qed

section \<open>The new baseline\<close>

lemma snapshot_view:
  assumes "store_wf st" and "now E \<le> now E'"
  shows "entries_view E' (fst (snapshot_all E (store_engine st))) k = pview E' st k"
proof -
  have "entries_view E' (fst (snapshot_all E (store_engine st))) k = palive E' (pview E st k)"
    using snapshot_all_spec(2) [OF assms(1) [unfolded store_wf_def], of E] by (simp add: entries_view_def pview_def view_def)
  also have "\<dots> = pview E' st k" using pview_later [of E E' st] assms(2) by simp
  finally show ?thesis .
qed

lemma baseline_describes:
  assumes "store_wf st"
  shows "describes E (Some (w, fst (snapshot_all E (store_engine st)))) [] st w"
proof -
  have "recovered_content (E\<lparr>now := t\<rparr>) (Some (w, fst (snapshot_all E (store_engine st)))) [] k = pview (E\<lparr>now := t\<rparr>) st k" if "now E \<le> t" for t k
    using snapshot_view [OF assms, of E "E\<lparr>now := t\<rparr>"] that by (simp add: recovered_content_def replayed_batches_def image_entries_def)
  then show ?thesis by (auto simp: describes_def image_watermark_def last_of_def same_entry_def)
qed

lemma baseline_on_disk:
  assumes b: "baseline_at Z E i entries d" and f: "active_file f = Some []" "segments f = []" and "plain_files d"
    and enc: "list_all (entry_encodable E) entries" "hm_wf entries" and zip: "\<And>x. gunzip Z (gzip Z x) = Inr x"
  shows "snapshot_at Z E (on_disk d f) (Some (baseline_sequence i, entries))" "history_at E (on_disk d f) [] [] []"
proof -
  note h = holds_nothing [OF f, of E]
  show "history_at E (on_disk d f) [] [] []" by (rule on_disk_history [OF h assms(4)]) simp
  have "snapshot_at Z E d (Some (baseline_sequence i, entries))" using b enc zip by (auto simp: baseline_at_def snapshot_at_def image_entries_def)
  then show "snapshot_at Z E (on_disk d f) (Some (baseline_sequence i, entries))" by (rule snapshot_current) (rule on_disk_snapshot [OF h], simp)
qed

lemma replaced_view:
  assumes "store_wf staged" and "store_wf st" and "replace_all E (fst (snapshot_all E (store_engine staged))) (store_engine st) = Some e"
  shows "store_wf (st\<lparr>store_engine := e\<rparr>)" "now E \<le> now E' \<Longrightarrow> pview E' (st\<lparr>store_engine := e\<rparr>) = pview E' staged"
proof -
  let ?es = "fst (snapshot_all E (store_engine staged))"
  note all = snapshot_all_spec [OF assms(1) [unfolded store_wf_def], of E]
  have "\<not> snapshot_active (store_engine st)" "length (shards (store_engine st)) = NUM_SHARDS"
    using assms(2,3) by (auto simp: replace_all_def store_wf_def engine_wf_def split: if_splits)
  from replace_all_spec [OF this all(1), of E] assms(3) have e: "engine_wf e" "contents e = hm_get ?es" by auto
  then show "store_wf (st\<lparr>store_engine := e\<rparr>)" by (simp add: store_wf_def)
  have "pview E' (st\<lparr>store_engine := e\<rparr>) k = entries_view E' ?es k" for k
    by (simp add: entries_view_def pview_def view_alive e(2) alive_persistent)
  then show "now E \<le> now E' \<Longrightarrow> pview E' (st\<lparr>store_engine := e\<rparr>) = pview E' staged" using snapshot_view [OF assms(1)] by (simp add: fun_eq_iff)
qed

text \<open>A restarted server trusts an identity only if the state file on disk says so.\<close>

lemma startup_identity:
  assumes "startup Z E C left fs bs d = Some (Inr (Some i, v))"
  shows "\<exists>w. load_durable_replica_state d w = Inr (Some (Ready i))"
proof -
  from assms obtain rec st1 d1 k where load: "load_data_from_paths Z E d (with_maxmemory (config_maxmemory C) (config_policy C)) = Some (Inr rec, st1, d1)"
    and prep: "prepare_replication_startup left (recovered_watermark rec) (config_master_addr C \<noteq> None) (fs, d1) = (Inr (Some i), k)"
    unfolding startup_def by (auto split: option.splits sum.splits prod.splits)
  have "load_durable_replica_state d1 (recovered_watermark rec) = Inr (Some (Ready i))"
    using prep by (auto simp: prepare_replication_startup_def split: sum.splits option.splits durable_replica_state.splits if_splits elim!: and_nextE)
  then show ?thesis using recovery_keeps [OF load binlog_names(6)] by (auto simp: load_durable_replica_state_def)
qed

lemma on_disk_state: "state_file d = Some bs \<Longrightarrow> state_file (on_disk d f) = Some bs"
  by (simp add: on_disk_def)

lemma startup_baseline:
  assumes out: "install_outcome Z E j entries r r'" and entries: "entries = fst (snapshot_all E (store_engine staged))" and wf: "store_wf staged"
    and enc: "list_all (entry_encodable E) entries" and zip: "\<And>x. gunzip Z (gzip Z x) = Inr x" and j: "replid j \<noteq> 0" and t: "now E \<le> t"
    and run: "startup Z (E\<lparr>now := t\<rparr>) C left fs bs (on_disk (snd (replica_files r')) (binlog (replica_pers r'))) = Some (Inr (Some i, v))"
  shows "same_files (binlog (replica_pers r)) (binlog (replica_pers r')) \<and> same_but_state (snd (replica_files r)) (snd (replica_files r')) \<and>
      state_file (snd (replica_files r')) = state_file (snd (replica_files r)) \<or>
    i = j \<and> safe Z v \<and> repl_offset (pers v) = baseline_sequence j \<and> (\<forall>u. t \<le> u \<longrightarrow> agrees (E\<lparr>now := u\<rparr>) (live_data v) staged)"
proof -
  let ?d = "snd (replica_files r')" and ?f = "binlog (replica_pers r')"
  from startup_identity [OF run] obtain w where load: "load_durable_replica_state (on_disk ?d ?f) w = Inr (Some (Ready i))" by blast
  have not_installing: "state_file ?d \<noteq> Some (state_bytes Installing)"
  proof
    assume "state_file ?d = Some (state_bytes Installing)"
    from load_state_line [OF on_disk_state [OF this]] load show False by simp
  qed
  from out not_installing show ?thesis unfolding install_outcome_def
  proof (elim disjE)
    assume b: "baseline_at Z E j entries ?d \<and> active_file ?f = Some [] \<and> segments ?f = [] \<and> plain_files ?d"
    then have "state_file ?d = Some (state_bytes (Ready j))" by (simp add: baseline_at_def)
    from load_state_line [OF on_disk_state [OF this], of ?f w] load j have i: "i = j" by (simp split: if_splits)
    have "hm_wf entries" using snapshot_all_spec(1) wf by (simp add: entries store_wf_def)
    with b enc zip have "snapshot_at Z E (on_disk ?d ?f) (Some (baseline_sequence j, entries))" "history_at E (on_disk ?d ?f) [] [] []"
      using baseline_on_disk [of Z E j entries ?d ?f] by blast+
    from startup_safe [OF this _ t run, of staged "baseline_sequence j"] baseline_describes [OF wf, of E "baseline_sequence j"] i
    show ?thesis by (simp add: entries safe_def) blast
  qed blast+
qed

section \<open>Completion\<close>

lemma worker_healthy:
  assumes "channel p = []" and "op (binlog p) = (Inr a, f)"
  shows "worker_call gone dropped op p = (Inr a, p\<lparr>binlog := f\<rparr>)"
  using assms by (simp add: worker_call_def next_fate_def)

lemma remove_healthy: "choices f = [] \<Longrightarrow> \<exists>f'. remove_segments n removed f = (Inr (), f') \<and> choices f' = [] \<and> handle_open f' = handle_open f"
proof (induction n arbitrary: removed f)
  case (Suc n)
  then show ?case using Suc.IH [of "f\<lparr>segments := tl (segments f)\<rparr>" True] by (simp add: and_next_def)
qed (simp add: sync_parent_directory_def)

lemma truncate_healthy:
  assumes "handle_open f" and "choices f = []"
  shows "\<exists>f'. worker_truncate f = (Inr (), f')"
proof -
  let ?g = "f\<lparr>active_file := Some (resized 0 (active_bytes f)), position := 0\<rparr>"
  obtain f' where f': "remove_segments (length (segments f)) False ?g = (Inr (), f')" "choices f' = []" "handle_open f'"
    using remove_healthy [of ?g "length (segments f)" False] assms by auto
  have "Binlog_File.truncate 0 f = (Inr (), f')"
    using assms f'(1) by (simp add: Binlog_File.truncate_def set_len_def seek_start_def on_handle_def and_next_def remove_all_binlog_segments_def)
  with assms f' show ?thesis by (simp add: worker_truncate_def file_flush_def sync_all_def on_handle_def and_next_def storage_def)
qed

lemma state_written: "\<exists>d'. write_durable_replica_state left s ([], d) = (Inr (), [], d')"
  by (simp add: write_durable_replica_state_def write_state_temporary_def installer_rename_def installer_sync_parent_def dir_call_def and_next_def)

lemma snapshot_written:
  assumes "encode_entries E entries = Inr body"
  shows "\<exists>d'. write_snapshot_file Z E entries w partial ([], d) = (Inr (), [], d')"
  using assms by (simp add: write_snapshot_file_def write_temporary_def retire_snapshot_def install_snapshot_def installer_rename_def
      installer_sync_parent_def dir_call_def and_next_def)

lemma install_completes:
  assumes p: "healthy (replica_pers r)" "\<not> stop_requested (replica_pers r)" "\<not> promote_to_master r" and "upstream \<noteq> 0" and "fst (replica_files r) = []"
    and enc: "encode_entries E (fst (snapshot_all E (store_engine staged))) = Inr body" and "\<not> snapshot_active (store_engine (replica_data r))"
  shows "\<exists>r'. install_full_sync Z E partial left left' upstream sequence staged r = Some (Inr (), r')"
proof -
  let ?p = "(replica_pers r)\<lparr>replication_ready := False\<rparr>"
  have h: "channel ?p = []" "choices (binlog ?p) = []" "handle_open (binlog ?p)" "accepting_writes (replica_pers r)" using p(1) by (simp_all add: healthy_def)
  have flush: "binlog_flush ?p = (Inr (), ?p)"
    unfolding binlog_flush_def using worker_healthy [OF h(1), of worker_flush "()" "binlog ?p"] h(2,3)
    by (simp add: worker_flush_def file_flush_def sync_all_def on_handle_def storage_def and_next_def)
  obtain f where "worker_truncate (binlog ?p) = (Inr (), f)" using truncate_healthy [OF h(3,2)] by blast
  then have cut: "binlog_truncate ?p = (Inr (), ?p\<lparr>binlog := f\<rparr>)" unfolding binlog_truncate_def by (rule worker_healthy [OF h(1)])
  obtain d where k: "replica_files r = ([], d)" using assms(5) by (cases "replica_files r") simp
  obtain d1 where d1: "write_replica_installing left ([], d) = (Inr (), [], d1)" using state_written [of left Installing d] unfolding write_replica_installing_def by blast
  obtain d2 where "write_snapshot_file Z E (fst (snapshot_all E (store_engine staged))) sequence partial ([], d1) = (Inr (), [], d2)" using snapshot_written [OF enc] by blast
  moreover obtain d3 where "write_replica_identity left' \<lparr>replid = upstream, baseline_sequence = sequence\<rparr> ([], d2) = (Inr (), [], d3)"
    using state_written [of left' _ d2] unfolding write_replica_identity_def by blast
  ultimately have base: "write_baseline Z E partial left' upstream sequence (fst (snapshot_all E (store_engine staged))) ([], d1) = (Inr (), [], d3)"
    by (simp add: write_baseline_def and_next_def)
  obtain e where "replace_all E (fst (snapshot_all E (store_engine staged))) (store_engine (replica_data r)) = Some e"
    using assms(7) by (simp add: replace_all_def)
  moreover obtain entries rest where sa: "snapshot_all E (store_engine staged) = (entries, rest)" by (cases "snapshot_all E (store_engine staged)")
  ultimately show ?thesis
    using assms(2-4) h(4) base unfolding install_full_sync_def Let_def flush k d1 cut sa fst_conv by (simp add: cut)
qed

section \<open>Properties\<close>

text \<open>
  C6. Installing a full synchronization is atomic for a restarted replica. Whatever calls on the log,
  the snapshot and the state file fail, with or without their effect, and at whatever point the server
  stops: the live store is replaced by the received entries exactly when the installation succeeds, and a server
  started on the files that are left trusts a replica identity only if the files are those of before,
  or if it is the new identity and recovery rebuilds the received entries at the new sequence.
\<close>

theorem full_sync_crash_safe:
  assumes run: "install_full_sync Z E partial left left' upstream sequence staged r = Some (res, r')" and wf: "store_wf staged" "store_wf (replica_data r)"
    and plain: "plain_files (snd (replica_files r))" and enc: "list_all (entry_encodable E) (fst (snapshot_all E (store_engine staged)))"
    and zip: "\<And>x. gunzip Z (gzip Z x) = Inr x"
  shows "(res = Inr () \<longrightarrow> repl_offset (replica_pers r') = sequence \<and> replication_ready (replica_pers r') \<and>
      (\<forall>u. now E \<le> u \<longrightarrow> agrees (E\<lparr>now := u\<rparr>) (replica_data r') staged)) \<and>
    (res \<noteq> Inr () \<longrightarrow> replica_data r' = replica_data r) \<and>
    (\<forall>C left'' fs bs t i v. now E \<le> t \<and>
      startup Z (E\<lparr>now := t\<rparr>) C left'' fs bs (on_disk (snd (replica_files r')) (binlog (replica_pers r'))) = Some (Inr (Some i, v)) \<longrightarrow>
        same_files (binlog (replica_pers r)) (binlog (replica_pers r')) \<and> same_but_state (snd (replica_files r)) (snd (replica_files r')) \<and>
          map_of (snd (replica_files r')) REPLICA_STATE_PATH = map_of (snd (replica_files r)) REPLICA_STATE_PATH \<or>
        i = \<lparr>replid = upstream, baseline_sequence = sequence\<rparr> \<and> safe Z v \<and> repl_offset (pers v) = sequence \<and>
          (\<forall>u. t \<le> u \<longrightarrow> agrees (E\<lparr>now := u\<rparr>) (live_data v) staged))"
proof (cases "upstream = 0")
  case True
  with run have "r' = r" "res \<noteq> Inr ()" by (auto simp: install_full_sync_def Let_def)
  then show ?thesis by simp
next
  case False
  note c = install_cases [OF run plain refl refl]
  have "repl_offset (replica_pers r') = sequence \<and> replication_ready (replica_pers r') \<and> (\<forall>u. now E \<le> u \<longrightarrow> agrees (E\<lparr>now := u\<rparr>) (replica_data r') staged)" if "res = Inr ()"
  proof -
    from c(3) [OF that] obtain e p k where e: "replace_all E (fst (snapshot_all E (store_engine staged))) (store_engine (replica_data r)) = Some e"
      and r': "r' = r\<lparr>replica_data := (replica_data r)\<lparr>store_engine := e\<rparr>, replica_files := k, upstream_replid := upstream,
        replica_pers := (install_baseline sequence (length (fst (snapshot_all E (store_engine staged)))) p)\<lparr>replication_ready := True, backlog := []\<rparr>\<rparr>" by blast
    have "pview (E\<lparr>now := u\<rparr>) (replica_data r') = pview (E\<lparr>now := u\<rparr>) staged" if "now E \<le> u" for u
      using replaced_view(2) [OF wf e, of "E\<lparr>now := u\<rparr>"] that by (simp add: r')
    then show ?thesis by (simp add: r' install_baseline_def agrees_def same_entry_def)
  qed
  moreover note c(2) startup_baseline [OF c(1) refl wf(1) enc zip]
  ultimately show ?thesis using False by simp blast
qed

definition sample_replica :: replica where
  "sample_replica = \<lparr>replica_data = live_store, replica_pers = sample_runtime, replica_files = ([], []), upstream_replid = 7,
     promote_to_master = False, replica_role = True, local_replid = 7, local_offset = 1\<rparr>"

lemma live_idle: "\<not> snapshot_active (store_engine live_store)"
  using live_snapshot by (auto simp: begin_snapshot_def split: if_splits)

lemma live_entries:
  obtains x where "fst (snapshot_all sample_env (store_engine live_store)) = [(''k'', x)]" "entry_value x = Blob ''v''" "expires_at x = None"
proof -
  let ?es = "fst (snapshot_all sample_env (store_engine live_store))"
  note all = snapshot_all_spec [OF live_store(1) [unfolded store_wf_def], of sample_env]
  have view: "map_option persistent_entry_from (hm_get ?es k) = (if k = ''k'' then Some \<lparr>pe_value = Blob ''v'', pe_expires_at = None\<rparr> else None)" for k
    using live_store(2) [of sample_env] sample_content [of sample_env] all(2) by (auto simp: fun_eq_iff pview_def view_def)
  have keys: "set (map fst ?es) = {''k''}"
  proof -
    have "k \<in> fst ` set ?es \<longleftrightarrow> k = ''k''" for k using view [of k] map_of_eq_None_iff [of ?es k] by (auto split: if_splits)
    then show ?thesis by auto
  qed
  then have "length ?es = 1" using all(1) distinct_card [of "map fst ?es"] by simp
  then obtain kx where es: "?es = [kx]" by (cases ?es) auto
  then obtain x where x: "?es = [(''k'', x)]" using keys by (cases kx) auto
  with view [of "''k''"] show thesis by (intro that [of x]) (simp_all add: persistent_entry_from_def)
qed

lemma live_encodes: "\<exists>body. encode_entries sample_env (fst (snapshot_all sample_env (store_engine live_store))) = Inr body"
  "list_all (entry_encodable sample_env) (fst (snapshot_all sample_env (store_engine live_store)))"
proof -
  obtain x where x: "fst (snapshot_all sample_env (store_engine live_store)) = [(''k'', x)]" "entry_value x = Blob ''v''" "expires_at x = None" by (rule live_entries)
  show "list_all (entry_encodable sample_env) (fst (snapshot_all sample_env (store_engine live_store)))" by (simp add: x entry_encodable_def)
  have "\<exists>r. encode_snapshot_entry sample_env ''k'' x = Inr r \<and> length r < 100"
    by (simp add: encode_snapshot_entry_def x encode_simps tag_def append_snapshot_bytes_def MAX_SNAPSHOT_RECORD_SIZE_def Let_def)
  then show "\<exists>body. encode_entries sample_env (fst (snapshot_all sample_env (store_engine live_store))) = Inr body"
    by (auto simp: x u32_try_from_def ok_or_def)
qed

theorem full_sync_crash_safe_witness:
  "\<exists>r. install_full_sync plain sample_env [] [] [] 9 5 live_store sample_replica = Some (Inr (), r) \<and> repl_offset (replica_pers r) = 5 \<and>
     agrees sample_env (replica_data r) live_store"
proof -
  obtain body where body: "encode_entries sample_env (fst (snapshot_all sample_env (store_engine live_store))) = Inr body" using live_encodes(1) by blast
  have s: "replica_data sample_replica = live_store" "replica_pers sample_replica = sample_runtime" "replica_files sample_replica = ([], [])"
    "\<not> promote_to_master sample_replica" "\<not> stop_requested sample_runtime"
    by (simp_all add: sample_replica_def) (simp add: sample_runtime_def runtime_new_def commit_runtime.defs persistence.defs)
  obtain r where r: "install_full_sync plain sample_env [] [] [] 9 5 live_store sample_replica = Some (Inr (), r)"
    using install_completes [of sample_replica 9 sample_env live_store body plain "[]" "[]" "[]" 5] s sample_healthy(1) body live_idle by auto
  have "store_wf (replica_data sample_replica)" "plain_files (snd (replica_files sample_replica))" using live_store(1) by (simp_all add: s plain_files_def)
  from full_sync_crash_safe [OF r live_store(1) this live_encodes(2) plain_zip] have "repl_offset (replica_pers r) = 5"
    "agrees (sample_env\<lparr>now := now sample_env\<rparr>) (replica_data r) live_store" by blast+
  then show ?thesis using r by simp
qed

section \<open>Receiving the entries\<close>

abbreviation put_of :: "bytes \<times> data_entry \<Rightarrow> committed_effect" where
  "put_of x \<equiv> PutE (fst x) (persistent_entry_from (snd x))"

lemma apply_entry_put:
  "snd (on_engine (apply_entry E key (entry\<lparr>created_at := now E, last_accessed := now E\<rparr>)) st) = apply_committed_batch E \<lparr>effects = [put_of (key, entry)]\<rparr> st"
  by (cases entry) (simp add: apply_committed_batch_def into_data_entry_def persistent_entry_from_def Let_def)

lemma encode_entry_later: "encode_full_sync_entry (E\<lparr>now := t\<rparr>) = encode_full_sync_entry E"
  by (simp add: fun_eq_iff encode_full_sync_entry_def)

lemma puts_view:
  "distinct (map fst entries) \<Longrightarrow> fold (effect_update E) (map put_of entries) m k =
    (case map_of entries k of Some x \<Rightarrow> palive E (Some (persistent_entry_from x)) | None \<Rightarrow> m k)"
proof (induction entries arbitrary: m)
  case (Cons x entries)
  have "map_of entries (fst x) = None" using Cons.prems by (simp add: map_of_eq_None_iff)
  with Cons show ?case by (cases "k = fst x") (simp_all split: option.split)
qed simp

lemma receive_entries_spec:
  assumes "send_entries E entries = (out, Inr ())" and "list_all (entry_encodable E) entries" and "distinct (map fst entries)"
    and "set (map fst entries) \<inter> set seen = {}" and "store_wf staged" and "link_clock l = E\<lparr>now := t0\<rparr>" and "timely T l" and "concat (incoming l) = out @ rest"
  shows "(\<exists>f l'. receive_entries (length entries) seen staged l = (Inl f, l') \<and> \<not> calm l) \<or>
    (\<exists>st l' t. receive_entries (length entries) seen staged l = (Inr st, l') \<and> store_wf st \<and> link_clock l' = E\<lparr>now := t\<rparr> \<and> t0 \<le> t \<and> t \<le> T \<and> timely T l' \<and>
      concat (incoming l') = rest \<and> (calm l \<longrightarrow> calm l') \<and>
      (\<forall>E'. t \<le> now E' \<longrightarrow> pview E' st = fold (effect_update E') (map put_of entries) (pview E' staged)))"
  using assms
proof (induction entries arbitrary: out seen staged l t0)
  case Nil
  have "t0 \<le> T" using Nil(7) by (simp add: timely_def Nil(6))
  with Nil show ?case by auto
next
  case (Cons kx entries)
  obtain key entry where kx: "kx = (key, entry)" by (cases kx)
  from Cons.prems(1) kx obtain r out' where r: "encode_full_sync_entry E key entry = Inr r" and out': "send_entries E entries = (out', Inr ())"
    "out = write_chunked_replication_record r @ out'"
    by (cases "send_entries E entries") (auto split: sum.splits)
  have stream: "concat (incoming l) = write_chunked_replication_record r @ out' @ rest" using Cons.prems(8) out'(2) by simp
  have ok: "encodable (E\<lparr>now := t\<rparr>) (entry_value entry)" "expires_at entry \<noteq> Some 0" for t using Cons.prems(2) kx by (simp_all add: entry_encodable_def)
  obtain x l1 where x: "await_or_stop read_full_sync_entry l = (x, l1)" by (cases "await_or_stop read_full_sync_entry l")
  from x Cons.prems(7) show ?case
  proof (cases rule: await_cases)
    case 1
    then show ?thesis using x by (simp add: kx)
  next
    case (2 t)
    let ?E = "E\<lparr>now := t\<rparr>" and ?b = "\<lparr>effects = [put_of (key, entry)]\<rparr>"
    have clock: "(link_clock l)\<lparr>now := t\<rparr> = ?E" "t0 \<le> t" using Cons.prems(6) 2(4) by simp_all
    from entry_record_read [OF _ ok(1) ok(2) stream, of t] obtain c where
      c: "read_full_sync_entry ?E (incoming l) = (Inr (key, entry\<lparr>created_at := now ?E, last_accessed := now ?E\<rparr>), c)" "concat c = out' @ rest"
      using r by (auto simp: encode_entry_later)
    have x': "x = Some (Inr (key, entry\<lparr>created_at := now ?E, last_accessed := now ?E\<rparr>))" and l1: "incoming l1 = c" "link_clock l1 = ?E"
      using 2(1-3) c(1) unfolding clock(1) by simp_all
    let ?st = "apply_committed_batch ?E ?b staged"
    have fresh: "key \<notin> set seen" using Cons.prems(4) kx by simp
    have go: "receive_entries (length (kx # entries)) seen staged l = receive_entries (length entries) (key # seen) ?st l1"
      using x fresh unfolding x' by (simp add: l1(2) apply_entry_put [of ?E key entry staged, simplified])
    have st: "store_wf ?st" using apply_batch_view(2) [OF Cons.prems(5)] by blast
    have next_stream: "concat (incoming l1) = out' @ rest" using c(2) l1(1) by simp
    have step: "pview E' ?st = effect_update E' (put_of kx) (pview E' staged)" if "t \<le> now E'" for E'
      using apply_later [OF Cons.prems(5), of ?E E' ?b] that by (simp add: kx)
    have "list_all (entry_encodable E) entries" "distinct (map fst entries)" "set (map fst entries) \<inter> set (key # seen) = {}"
      using Cons.prems(2-4) kx by auto
    from Cons.IH [OF out'(1) this st l1(2) 2(6) next_stream] show ?thesis
    proof (elim disjE exE conjE)
      fix f l' assume "receive_entries (length entries) (key # seen) ?st l1 = (Inl f, l')" "\<not> calm l1"
      then show ?thesis using go 2(7) by auto
    next
      fix st' l' t' assume a: "receive_entries (length entries) (key # seen) ?st l1 = (Inr st', l')" "store_wf st'" "link_clock l' = E\<lparr>now := t'\<rparr>" "t \<le> t'" "t' \<le> T"
        "timely T l'" "concat (incoming l') = rest" "calm l1 \<longrightarrow> calm l'" "\<forall>E'. t' \<le> now E' \<longrightarrow> pview E' st' = fold (effect_update E') (map put_of entries) (pview E' ?st)"
      then show ?thesis using go clock(2) 2(7) step by (intro disjI2 exI [of _ st'] exI [of _ l'] exI [of _ t']) auto
    qed
  qed
qed

lemma encode_snapshot_cong: "persistent_entry_from x = persistent_entry_from y \<Longrightarrow> encode_snapshot_entry E key x = encode_snapshot_entry E key y"
  by (simp add: encode_snapshot_entry_def persistent_entry_from_def)

lemma entries_encode:
  assumes "\<And>key x. (key, x) \<in> set entries \<Longrightarrow> \<exists>r. encode_snapshot_entry E key x = Inr r"
  shows "\<exists>body. encode_entries E entries = Inr body"
  using assms
proof (induction entries)
  case (Cons kx entries)
  obtain key x where kx: "kx = (key, x)" by (cases kx)
  obtain body where body: "encode_entries E entries = Inr body" using Cons by (metis list.set_intros(2))
  obtain r where r: "encode_snapshot_entry E key x = Inr r" using Cons.prems [of key x] kx by auto
  have "length r < 2 ^ 32" using encode_entry_size [OF r] by (simp add: MAX_SNAPSHOT_RECORD_SIZE_def)
  with body r kx show ?case by (auto simp: u32_try_from_def ok_or_def)
qed simp

lemma sent_entries_encode:
  "send_entries E entries = (out, Inr ()) \<Longrightarrow> (key, x) \<in> set entries \<Longrightarrow> \<exists>r. encode_snapshot_entry E key x = Inr r"
proof (induction entries arbitrary: out)
  case (Cons kx entries)
  then show ?case
    by (cases kx; cases "send_entries E entries") (auto simp: encode_full_sync_entry_def and_then_Inr split: sum.splits)
qed simp

text \<open>What was received can be written as a snapshot again.\<close>

lemma staged_encodes:
  assumes sent: "send_entries E entries = (out, Inr ())" and wf: "store_wf st" and view: "\<And>k. pview (E\<lparr>now := t\<rparr>) st k = entries_view (E\<lparr>now := t\<rparr>) entries k"
    and "distinct (map fst entries)"
  shows "\<exists>body. encode_entries (E\<lparr>now := t\<rparr>) (fst (snapshot_all (E\<lparr>now := t\<rparr>) (store_engine st))) = Inr body"
proof (rule entries_encode)
  let ?E = "E\<lparr>now := t\<rparr>" and ?es = "fst (snapshot_all (E\<lparr>now := t\<rparr>) (store_engine st))"
  note all = snapshot_all_spec [OF wf [unfolded store_wf_def], of ?E]
  fix key x assume "(key, x) \<in> set ?es"
  then have "hm_get ?es key = Some x" using all(1) by (simp add: map_of_is_SomeI)
  then have "pview ?E st key = Some (persistent_entry_from x)" using all(2) by (simp add: pview_def view_def)
  then obtain y where "map_of entries key = Some y" "persistent_entry_from x = persistent_entry_from y"
    using view [of key] by (auto simp: entries_view_def palive_def split: option.splits if_splits)
  with sent_entries_encode [OF sent, of key y] encode_snapshot_cong [of x y E key] show "\<exists>r. encode_snapshot_entry ?E key x = Inr r"
    by (auto dest: map_of_SomeD)
qed

lemma install_total:
  assumes "\<not> snapshot_active (store_engine (replica_data r))"
  shows "\<exists>res r'. install_full_sync Z E partial left left' upstream sequence staged r = Some (res, r')"
  using assms by (auto simp: install_full_sync_def Let_def replace_all_def split: prod.split sum.split)

lemma receive_full_spec:
  assumes sent: "send_entries E entries = (out, Inr ())" and enc: "list_all (entry_encodable E) entries" and distinct: "distinct (map fst entries)"
    and link: "link_clock l = E\<lparr>now := t0\<rparr>" "timely T l" "concat (incoming l) = out @ sync_done_line upstream (Inr sequence) @ rest"
    and r: "store_wf (replica_data r)" "plain_files (snd (replica_files r))" "\<not> snapshot_active (store_engine (replica_data r))"
  shows "\<exists>res r' l'. receive_full Z partial left left' upstream sequence (length entries) r l = Some (res, r', l') \<and>
    (\<forall>x. res = Inr x \<longrightarrow> x = (upstream, sequence) \<and> concat (incoming l') = rest \<and> local_replid r' = upstream \<and> local_offset r' = sequence \<and>
      repl_offset (replica_pers r') = sequence \<and> store_wf (replica_data r') \<and> (\<forall>E'. T \<le> now E' \<longrightarrow> pview E' (replica_data r') = entries_view E' entries)) \<and>
    (\<forall>f. res = Inl f \<longrightarrow> replica_data r' = replica_data r) \<and>
    (calm l \<and> healthy (replica_pers r) \<and> \<not> stop_requested (replica_pers r) \<and> \<not> promote_to_master r \<and> upstream \<noteq> 0 \<and> fst (replica_files r) = [] \<longrightarrow> (\<exists>x. res = Inr x))"
proof -
  from receive_entries_spec [OF sent enc distinct _ store_new_wf link, of "[]"] consider
      f l' where "receive_entries (length entries) [] store_new l = (Inl f, l')" "\<not> calm l"
    | st l1 t where "receive_entries (length entries) [] store_new l = (Inr st, l1)" "store_wf st" "link_clock l1 = E\<lparr>now := t\<rparr>" "t \<le> T" "timely T l1"
      "concat (incoming l1) = sync_done_line upstream (Inr sequence) @ rest" "calm l \<longrightarrow> calm l1"
      "\<forall>E'. t \<le> now E' \<longrightarrow> pview E' st = fold (effect_update E') (map put_of entries) (pview E' store_new)" by auto
  then show ?thesis
  proof cases
    case (1 f l')
    then show ?thesis by (simp add: receive_full_def)
  next
    case (2 st l1 t)
    have view: "pview E' st k = entries_view E' entries k" if "t \<le> now E'" for E' k
      using 2(8) that puts_view [OF distinct, of E' "\<lambda>_. None" k] by (simp add: pview_new entries_view_def palive_def split: option.splits)
    obtain x l2 where x: "await_or_stop read_marker l1 = (x, l2)" by (cases "await_or_stop read_marker l1")
    from x 2(5) show ?thesis
    proof (cases rule: await_cases)
      case a: 1
      then show ?thesis using 2(1,7) x by (auto simp: receive_full_def)
    next
      case a: (2 t')
      let ?E = "E\<lparr>now := t'\<rparr>" and ?done = "[''+SYNCDONE3'', u64_to_string upstream, u64_to_string sequence]"
      obtain c where c: "read_replication_command (incoming l1) = (Inr (Some ?done), c)" "concat c = rest" using sync_done_read [OF 2(6)] by blast
      have x': "x = Some (Inr (Some ?done))" "incoming l2 = c" "link_clock l2 = ?E" "t \<le> t'" "t' \<le> T"
        using a(1-5) c(1) 2(3) by (simp_all add: read_marker_def)
      have fin: "full_sync_end upstream (Inr (Some ?done)) = Inr sequence"
        by (simp add: full_sync_end_def parse_replica_sync_done_def ok_or_def numeral_2_eq_2)
      have view': "pview ?E st k = entries_view ?E entries k" for k using view [of ?E k] x'(4) by simp
      obtain res r' where ins: "install_full_sync Z ?E partial left left' upstream sequence st r = Some (res, r')"
        using install_total [OF r(3), of Z ?E partial left left' upstream sequence st] by blast
      note run = receive_full_def [of Z partial left left' upstream sequence "length entries" r l, unfolded 2(1) prod.case sum.case x x'(1) option.case fin x'(3) ins]
      note cases = install_cases [OF ins r(2) refl refl]
      show ?thesis
      proof (cases "res = Inr ()")
        case True
        from cases(3) [OF True] obtain e p k where e: "replace_all ?E (fst (snapshot_all ?E (store_engine st))) (store_engine (replica_data r)) = Some e"
          and r': "r' = r\<lparr>replica_data := (replica_data r)\<lparr>store_engine := e\<rparr>, replica_files := k, upstream_replid := upstream,
            replica_pers := (install_baseline sequence (length (fst (snapshot_all ?E (store_engine st)))) p)\<lparr>replication_ready := True, backlog := []\<rparr>\<rparr>" by blast
        note rv = replaced_view [OF 2(2) r(1) e]
        have "pview E' (replica_data r') = entries_view E' entries" if "T \<le> now E'" for E'
          using rv(2) [of E'] view [of E'] that x'(4,5) by (simp add: r' fun_eq_iff)
        then show ?thesis using run True rv(1) c(2) x'(2) by (simp add: r' install_baseline_def)
      next
        case False
        then obtain e where e: "res = Inl e" by (cases res) auto
        have "\<not> (calm l \<and> healthy (replica_pers r) \<and> \<not> stop_requested (replica_pers r) \<and> \<not> promote_to_master r \<and> upstream \<noteq> 0 \<and> fst (replica_files r) = [])"
        proof
          assume h: "calm l \<and> healthy (replica_pers r) \<and> \<not> stop_requested (replica_pers r) \<and> \<not> promote_to_master r \<and> upstream \<noteq> 0 \<and> fst (replica_files r) = []"
          obtain body where "encode_entries ?E (fst (snapshot_all ?E (store_engine st))) = Inr body" using staged_encodes [OF sent 2(2) view' distinct] by blast
          from install_completes [OF _ _ _ _ _ this r(3), of upstream Z partial left left' sequence] h ins e show False by auto
        qed
        then show ?thesis using run e cases(2) [OF False] by auto
      qed
    qed
  qed
qed

end
