(* ===== verification/Replica_Stream.thy ===== *)
theory Replica_Stream
  imports Replica_Laws
begin

text \<open>
  The two loops of the replica that install effects as they arrive, during a partial synchronization and
  on the live stream, share one turn: read a header, read the effect, persist and apply it. The locale
  states that turn; what follows from it for a stream of effects is proved once and used for both.
\<close>

section \<open>Loops over effects\<close>

locale effect_loop =
  fixes loop :: "replica \<Rightarrow> link \<Rightarrow> ('o \<times> replica \<times> link) option"
    and stopped :: 'o and interrupted :: 'o and failed :: "persistence_error \<Rightarrow> 'o" and refused :: "persistence_error \<Rightarrow> 'o" and broken :: "'o \<Rightarrow> bool"
  assumes stop_before: "await_or_stop read_marker l = (None, l1) \<Longrightarrow> loop r l = Some (stopped, r, l1)"
    and turn: "await_or_stop read_marker l = (Some (Inr (Some h)), l1) \<Longrightarrow> h \<noteq> [] \<Longrightarrow> h ! 0 = ''APPLYEFFECT'' \<Longrightarrow>
      loop r l = (case await_or_stop (\<lambda>E. read_replication_effect E h) l1 of
          (None, l2) \<Rightarrow> Some (interrupted, r, l2)
        | (Some (Inl e), l2) \<Rightarrow> Some (failed e, r, l2)
        | (Some (Inr (sequence, batch)), l2) \<Rightarrow>
            (case persist_and_apply_replica_effect (link_clock l2) sequence batch (replica_data r) (replica_pers r) of
              (Inl e, st, p) \<Rightarrow> Some (refused e, r\<lparr>replica_data := st, replica_pers := p\<rparr>, l2)
            | (Inr _, st, p) \<Rightarrow> loop (r\<lparr>replica_data := st, replica_pers := p, local_offset := sequence\<rparr>) l2))"
    and broken: "broken stopped" "broken interrupted" "broken (failed e)" "broken (refused e)"
begin

lemma one_effect:
  assumes enc: "encode_replication_effect E s b = Inr rec" and log: "loggable E [(s, b)]" and s: "u64_checked_add (local_offset r) 1 = Some s"
    and base: "store_wf (replica_data r)" "local_offset r = repl_offset (replica_pers r)" and clock: "link_clock l = E\<lparr>now := t0\<rparr>" and "timely T l"
    and stream: "concat (incoming l) = write_chunked_replication_record rec @ later"
  obtains x r' l' where "loop r l = Some (x, r', l')" "broken x" "installed T [] r r'"
    "\<not> (calm l \<and> healthy (replica_pers r) \<and> replication_ready (replica_pers r))"
  | p l' t where "loop r l = loop (r\<lparr>replica_data := apply_committed_batch (E\<lparr>now := t\<rparr>) b (replica_data r), replica_pers := p, local_offset := s\<rparr>) l'"
    "repl_offset p = s" "t \<le> T" "link_clock l' = E\<lparr>now := t\<rparr>" "timely T l'" "concat (incoming l') = later" "calm l \<Longrightarrow> calm l'"
    "healthy (replica_pers r) \<Longrightarrow> replication_ready (replica_pers r) \<Longrightarrow> healthy p \<and> replication_ready p"
proof -
  let ?h = "record_header rec"
  note base0 = installed_refl [OF base, of T]
  have read: "\<exists>c c'. read_replication_command (incoming l) = (Inr (Some ?h), c) \<and> hd ?h = ''APPLYEFFECT'' \<and>
      read_replication_effect (E\<lparr>now := t\<rparr>) ?h c = (Inr (s, b), c') \<and> concat c' = later" for t
    by (rule effect_record_read [OF _ _ stream]) (use enc log in \<open>auto simp: encode_effect_later loggable_def\<close>)
  have h: "?h \<noteq> []" "?h ! 0 = ''APPLYEFFECT''"
    using enc by (auto simp: encode_replication_effect_def and_then_Inr split: if_splits)
  obtain x l1 where x: "await_or_stop read_marker l = (x, l1)" by (cases "await_or_stop read_marker l")
  from x assms(7) show thesis
  proof (cases rule: await_cases)
    case 1
    show thesis by (rule that(1) [OF _ broken(1) base0, of l1]) (use x 1 stop_before in auto)
  next
    case (2 t)
    have head: "x = Some (Inr (Some ?h))" using 2(1) read [of 0] by (auto simp: read_marker_def)
    obtain x2 l2 where x2: "await_or_stop (\<lambda>E. read_replication_effect E ?h) l1 = (x2, l2)" by (cases "await_or_stop (\<lambda>E. read_replication_effect E ?h) l1")
    note one = turn [OF x [unfolded head] h, of r, unfolded x2 prod.case]
    from x2 2(6) show thesis
    proof (cases rule: await_cases)
      case stop: 1
      show thesis by (rule that(1) [OF _ broken(2) base0, of l2]) (use one stop 2(7) in auto)
    next
      case go: (2 t2)
      have E2: "(link_clock l1)\<lparr>now := t2\<rparr> = E\<lparr>now := t2\<rparr>" using 2(3) clock by simp
      from read [of t2] 2(2) have eff: "x2 = Some (Inr (s, b))" "concat (incoming l2) = later"
        using go(1,2) unfolding E2 by (auto simp: read_marker_def)
      obtain res st p where run: "persist_and_apply_replica_effect (link_clock l2) s b (replica_data r) (replica_pers r) = (res, st, p)"
        by (cases "persist_and_apply_replica_effect (link_clock l2) s b (replica_data r) (replica_pers r)")
      have healthy: "res = Inr () \<and> healthy p \<and> replication_ready p" if "healthy (replica_pers r)" "replication_ready (replica_pers r)"
        using persist_healthy [OF that, of s "E\<lparr>now := t2\<rparr>" b "replica_data r"] s log base(2) run go(3) E2 by auto
      from run show thesis
      proof (cases rule: persist_spec)
        case (1 e)
        have "installed T [] r (r\<lparr>replica_data := st, replica_pers := p\<rparr>)" using base0 1 by (simp add: installed_def last_of_def)
        then show thesis by (rule that(1) [rotated 2]) (use one eff(1) run 1(1) healthy broken(4) in auto)
      next
        case ok: 2
        show thesis by (rule that(2) [of p t2 l2]) (use one eff run ok go(3,5,6,7) E2 2(7) healthy in simp_all)
      qed
    qed
  qed
qed

text \<open>A stream of effects: the loop ends early at a prefix, or goes on with all of them installed.\<close>

lemma follow:
  assumes "send_effects E batches (local_offset r) = (out, Inr sequence)" and "contiguous (Some (local_offset r)) batches" and "loggable E batches"
    and "local_offset r = repl_offset (replica_pers r)" and "store_wf (replica_data r)" and "link_clock l = E\<lparr>now := t0\<rparr>" and "timely T l"
    and "concat (incoming l) = out @ rest"
  shows "(\<exists>x r' l' k. loop r l = Some (x, r', l') \<and> broken x \<and> installed T (take k batches) r r' \<and>
      \<not> (calm l \<and> healthy (replica_pers r) \<and> replication_ready (replica_pers r))) \<or>
    (\<exists>r' l' t. loop r l = loop r' l' \<and> installed T batches r r' \<and> local_offset r' = sequence \<and> link_clock l' = E\<lparr>now := t\<rparr> \<and> timely T l' \<and>
      concat (incoming l') = rest \<and> (calm l \<longrightarrow> calm l') \<and>
      (healthy (replica_pers r) \<and> replication_ready (replica_pers r) \<longrightarrow> healthy (replica_pers r') \<and> replication_ready (replica_pers r')))"
  using assms
proof (induction batches arbitrary: r l out t0)
  case Nil
  then show ?case using installed_refl [OF Nil(5,4), of T] by (intro disjI2 exI [of _ r] exI [of _ l] exI [of _ t0]) simp
next
  case (Cons y batches)
  obtain s b where y: "y = (s, b)" by (cases y)
  from Cons.prems(1) y obtain rec more_out where rec: "encode_replication_effect E s b = Inr rec" "send_effects E batches s = (more_out, Inr sequence)"
    "out = write_chunked_replication_record rec @ more_out" by (cases "send_effects E batches s") (auto split: sum.splits)
  from Cons.prems(3) y have log: "loggable E [(s, b)]" "loggable E batches" by (auto simp: loggable_def)
  from Cons.prems(2) y have s: "u64_checked_add (local_offset r) 1 = Some s" "contiguous (Some s) batches" by (auto simp: follows_Inr)
  have stream: "concat (incoming l) = write_chunked_replication_record rec @ (more_out @ rest)" using Cons.prems(8) rec(3) by simp
  from rec(1) log(1) s(1) Cons.prems(5,4,6,7) stream show ?case
  proof (cases rule: one_effect)
    case (1 x r' l')
    then show ?thesis by (intro disjI1 exI [of _ x] exI [of _ r'] exI [of _ l'] exI [of _ 0]) auto
  next
    case (2 p l1 t)
    let ?r = "r\<lparr>replica_data := apply_committed_batch (E\<lparr>now := t\<rparr>) b (replica_data r), replica_pers := p, local_offset := s\<rparr>"
    have up: "installed T (y # zs) r r'" if "installed T zs ?r r'" for zs r'
      using installed_step [OF that Cons.prems(5)] 2(3) y by simp
    have "store_wf (replica_data ?r)" "local_offset ?r = repl_offset (replica_pers ?r)" "contiguous (Some (local_offset ?r)) batches"
      "send_effects E batches (local_offset ?r) = (more_out, Inr sequence)"
      using Cons.prems(5) 2(2) s(2) rec(2) by (simp_all add: apply_batch_view(2))
    from Cons.IH [OF this(4,3) log(2) this(2,1) 2(4,5,6)] show ?thesis
    proof (elim disjE exE conjE)
      fix x r' l' k assume a: "loop ?r l1 = Some (x, r', l')" "broken x" "installed T (take k batches) ?r r'"
        "\<not> (calm l1 \<and> healthy (replica_pers ?r) \<and> replication_ready (replica_pers ?r))"
      then show ?thesis using 2(1,7,8) up by (intro disjI1 exI [of _ x] exI [of _ r'] exI [of _ l'] exI [of _ "Suc k"]) auto
    next
      fix r' l' t' assume a: "loop ?r l1 = loop r' l'" "installed T batches ?r r'" "local_offset r' = sequence" "link_clock l' = E\<lparr>now := t'\<rparr>" "timely T l'"
        "concat (incoming l') = rest" "calm l1 \<longrightarrow> calm l'"
        "healthy (replica_pers ?r) \<and> replication_ready (replica_pers ?r) \<longrightarrow> healthy (replica_pers r') \<and> replication_ready (replica_pers r')"
      then show ?thesis using 2(1,7,8) up by (intro disjI2 exI [of _ r'] exI [of _ l'] exI [of _ t']) auto
    qed
  qed
qed

end

section \<open>Partial synchronization\<close>

interpretation partial: effect_loop "receive_partial upstream" "Inl (sync_error ''Replica lifecycle stopped during partial synchronization'' False)"
  "Inl (sync_error ''Replica lifecycle stopped while receiving a partial effect'' False)" "\<lambda>e. Inl (e, upstream_unavailable e)" "\<lambda>e. Inl (e, False)" "\<lambda>x. \<exists>f. x = Inl f"
  by (unfold_locales, (subst receive_partial.simps, simp)+) auto

text \<open>The end marker is reached, or a stop is requested before.\<close>

lemma receive_end:
  assumes "store_wf (replica_data r)" and "local_offset r = repl_offset (replica_pers r)" and "timely T l"
    and "concat (incoming l) = sync_done_line upstream (Inr (local_offset r)) @ rest"
  obtains f l' where "receive_partial upstream r l = Some (Inl f, r, l')" "\<not> calm l"
  | l' where "receive_partial upstream r l = Some (Inr (upstream, local_offset r), r, l')" "concat (incoming l') = rest"
proof -
  obtain x l1 where x: "await_or_stop read_marker l = (x, l1)" by (cases "await_or_stop read_marker l")
  from x assms(3) show thesis
  proof (cases rule: await_cases)
    case 1
    show thesis by (rule that(1) [of "sync_error ''Replica lifecycle stopped during partial synchronization'' False" l1])
      (subst receive_partial.simps, use x 1 in simp_all)
  next
    case (2 t)
    obtain c where
      c: "read_replication_command (incoming l) = (Inr (Some [''+SYNCDONE3'', u64_to_string upstream, u64_to_string (local_offset r)]), c)" "concat c = rest"
      using sync_done_read [OF assms(4)] by blast
    have "x = Some (Inr (Some [''+SYNCDONE3'', u64_to_string upstream, u64_to_string (local_offset r)]))" "incoming l1 = c"
      using 2(1,2) c(1) by (simp_all add: read_marker_def)
    then show thesis by (intro that(2) [of l1]) (subst receive_partial.simps, use x c(2) in simp_all)
  qed
qed

lemma receive_partial_spec:
  assumes "send_effects E batches (local_offset r) = (out, Inr sequence)" and "contiguous (Some (local_offset r)) batches" and "loggable E batches"
    and "local_offset r = repl_offset (replica_pers r)" and "store_wf (replica_data r)" and "link_clock l = E\<lparr>now := t0\<rparr>" and "timely T l"
    and "concat (incoming l) = out @ sync_done_line upstream (Inr sequence) @ rest"
  shows "\<exists>res r' l' k. receive_partial upstream r l = Some (res, r', l') \<and> installed T (take k batches) r r' \<and>
    (\<forall>x. res = Inr x \<longrightarrow> x = (upstream, sequence) \<and> installed T batches r r' \<and> concat (incoming l') = rest) \<and>
    (calm l \<and> healthy (replica_pers r) \<and> replication_ready (replica_pers r) \<longrightarrow> (\<exists>x. res = Inr x))"
  using partial.follow [OF assms, of upstream]
proof (elim disjE exE conjE)
  fix x r' l' k f assume "receive_partial upstream r l = Some (x, r', l')" "x = Inl f" "installed T (take k batches) r r'"
    "\<not> (calm l \<and> healthy (replica_pers r) \<and> replication_ready (replica_pers r))"
  then show ?thesis by (intro exI [of _ x] exI [of _ r'] exI [of _ l'] exI [of _ k]) simp
next
  fix r1 l1 t assume a: "receive_partial upstream r l = receive_partial upstream r1 l1" "installed T batches r r1" "local_offset r1 = sequence" "timely T l1"
    "concat (incoming l1) = sync_done_line upstream (Inr sequence) @ rest" "calm l \<longrightarrow> calm l1"
  then have "store_wf (replica_data r1)" "local_offset r1 = repl_offset (replica_pers r1)" "concat (incoming l1) = sync_done_line upstream (Inr (local_offset r1)) @ rest"
    by (simp_all add: installed_def)
  from this(1,2) a(4) this(3) show ?thesis
  proof (cases rule: receive_end)
    case (1 f l')
    with a show ?thesis by (intro exI [of _ "Inl f"] exI [of _ r1] exI [of _ l'] exI [of _ "length batches"]) auto
  next
    case (2 l')
    with a show ?thesis by (intro exI [of _ "Inr (upstream, sequence)"] exI [of _ r1] exI [of _ l'] exI [of _ "length batches"]) simp
  qed
qed

section \<open>The live stream\<close>

interpretation live: effect_loop live_stream StopRequested StopRequested "\<lambda>e. end_of (upstream_unavailable e)" "\<lambda>_. Reachable" "\<lambda>_. True"
  by (unfold_locales, (subst live_stream.simps, simp add: parse_upstream_heartbeat_def)+) simp_all

text \<open>A heartbeat that carries the installed sequence changes nothing.\<close>

lemma heartbeat_read:
  assumes "concat chunks = words_line [''REPLCONF'', ''PING'', u64_to_string w] @ rest"
  shows "\<exists>c. read_replication_command chunks = (Inr (Some [''REPLCONF'', ''PING'', u64_to_string w]), c) \<and> concat c = rest"
  by (rule line_read [OF _ _ _ _ _ assms]) (use digits_length(1) [of w] in \<open>simp_all add: marker_simps\<close>)

lemma live_heartbeat:
  assumes "concat (incoming l) = words_line [''REPLCONF'', ''PING'', u64_to_string (local_offset r)] @ rest" and "timely T l"
  obtains l' where "live_stream r l = Some (StopRequested, r, l')" "\<not> calm l"
  | l' t where "live_stream r l = live_stream r l'" "link_clock l' = (link_clock l)\<lparr>now := t\<rparr>" "timely T l'" "concat (incoming l') = rest" "calm l \<Longrightarrow> calm l'"
proof -
  let ?h = "[''REPLCONF'', ''PING'', u64_to_string (local_offset r)]"
  obtain c where c: "read_replication_command (incoming l) = (Inr (Some ?h), c)" "concat c = rest" using heartbeat_read [OF assms(1)] by blast
  obtain x l1 where x: "await_or_stop read_marker l = (x, l1)" by (cases "await_or_stop read_marker l")
  from x assms(2) show thesis
  proof (cases rule: await_cases)
    case 1
    show thesis by (rule that(1) [of l1]) (use live.stop_before x 1 in auto)
  next
    case (2 t)
    have head: "x = Some (Inr (Some ?h))" "incoming l1 = c" using 2(1,2) c(1) by (simp_all add: read_marker_def)
    have beat: "parse_upstream_heartbeat ?h (local_offset r) = Inr True"
      by (simp add: parse_upstream_heartbeat_def ok_or_def numeral_2_eq_2)
    have "live_stream r l = live_stream r l1" by (subst live_stream.simps) (simp add: x head(1) beat)
    then show thesis by (rule that(2) [of l1 t]) (use 2(3,6,7) head(2) c(2) in simp_all)
  qed
qed

text \<open>The session of the master while its writes succeed, and the batches it sends.\<close>

fun stream_run :: "env \<Rightarrow> bool \<Rightarrow> stream_event list \<Rightarrow> master_session \<Rightarrow> master_session option" where
  "stream_run E heartbeats [] s = Some s"
| "stream_run E heartbeats (event # events) s = Option.bind (stream_turn E heartbeats True event s) (stream_run E heartbeats events)"

fun live_batches :: "u64 \<Rightarrow> stream_event list \<Rightarrow> history" where
  "live_batches n [] = []"
| "live_batches n (Received offset batch # events) = (if offset \<le> n then live_batches n events else (offset, batch) # live_batches offset events)"
| "live_batches n (event # events) = live_batches n events"

lemma turn_sent: "stream_turn E heartbeats True event s = Some s1 \<Longrightarrow> \<exists>out. sent s1 = sent s @ out"
  by (cases event) (auto simp: stream_turn_def split: if_splits sum.splits)

lemma run_sent: "stream_run E heartbeats events s = Some s' \<Longrightarrow> \<exists>out. sent s' = sent s @ out"
proof (induction events arbitrary: s)
  case (Cons event events)
  then obtain s1 where "stream_turn E heartbeats True event s = Some s1" "stream_run E heartbeats events s1 = Some s'" by (auto simp: bind_eq_Some_conv)
  with turn_sent Cons.IH [of s1] show ?case by fastforce
qed simp

lemma live_follow:
  assumes "stream_run E heartbeats events s = Some s'" and "sent s' = sent s @ out" and "live_batches (last_sent_offset s) events = batches"
    and "contiguous (Some (local_offset r)) batches" and "loggable E batches" and "local_offset r = last_sent_offset s"
    and "local_offset r = repl_offset (replica_pers r)" and "store_wf (replica_data r)" and "link_clock l = E\<lparr>now := t0\<rparr>" and "timely T l"
    and "concat (incoming l) = out @ rest"
  shows "(\<exists>x r' l' k. live_stream r l = Some (x, r', l') \<and> installed T (take k batches) r r' \<and>
      \<not> (calm l \<and> healthy (replica_pers r) \<and> replication_ready (replica_pers r))) \<or>
    (\<exists>r' l' t. live_stream r l = live_stream r' l' \<and> installed T batches r r' \<and> local_offset r' = last_sent_offset s' \<and>
      link_clock l' = E\<lparr>now := t\<rparr> \<and> timely T l' \<and> concat (incoming l') = rest \<and> (calm l \<longrightarrow> calm l') \<and>
      (healthy (replica_pers r) \<and> replication_ready (replica_pers r) \<longrightarrow> healthy (replica_pers r') \<and> replication_ready (replica_pers r')))"
  using assms
proof (induction events arbitrary: s r l out t0 batches)
  case Nil
  then show ?case using installed_refl [OF Nil(8,7), of T] by (intro disjI2 exI [of _ r] exI [of _ l] exI [of _ t0]) simp
next
  case (Cons event events)
  from Cons.prems(1) obtain s1 where s1: "stream_turn E heartbeats True event s = Some s1" "stream_run E heartbeats events s1 = Some s'"
    by (auto simp: bind_eq_Some_conv)
  obtain more_out where out: "sent s' = sent s1 @ more_out" using run_sent [OF s1(2)] by blast
  consider (quiet) "s1 = s" "live_batches (last_sent_offset s) events = batches"
    | (beat) "s1 = s\<lparr>sent := sent s @ words_line [''REPLCONF'', ''PING'', u64_to_string (last_sent_offset s)]\<rparr>" "live_batches (last_sent_offset s) events = batches"
    | (effect) q b rec zs where "encode_replication_effect E q b = Inr rec" "batches = (q, b) # zs" "live_batches q events = zs"
        "s1 = s\<lparr>sent := sent s @ write_chunked_replication_record rec, last_sent_offset := q\<rparr>"
    using s1(1) Cons.prems(3) by (cases event) (auto simp: stream_turn_def split: if_splits sum.splits)
  then show ?case
  proof cases
    case quiet
    with s1(2) have "stream_run E heartbeats events s = Some s'" by simp
    from Cons.IH [OF this Cons.prems(2) quiet(2) Cons.prems(4-11)] show ?thesis .
  next
    case beat
    with out Cons.prems(2,6,11) have "concat (incoming l) = words_line [''REPLCONF'', ''PING'', u64_to_string (local_offset r)] @ (more_out @ rest)" by simp
    from this Cons.prems(10) show ?thesis
    proof (cases rule: live_heartbeat)
      case (1 l')
      then show ?thesis using installed_refl [OF Cons.prems(8,7), of T]
        by (intro disjI1 exI [of _ StopRequested] exI [of _ r] exI [of _ l'] exI [of _ 0]) simp
    next
      case (2 l' t)
      have "link_clock l' = E\<lparr>now := t\<rparr>" "local_offset r = last_sent_offset s1" "live_batches (last_sent_offset s1) events = batches"
        using 2(2) Cons.prems(6,9) beat by simp_all
      from Cons.IH [OF s1(2) out this(3) Cons.prems(4,5) this(2) Cons.prems(7,8) this(1) 2(3,4)] show ?thesis unfolding 2(1) using 2(5) by blast
    qed
  next
    case (effect q b rec zs)
    have q: "u64_checked_add (local_offset r) 1 = Some q" "contiguous (Some q) zs" "loggable E [(q, b)]" "loggable E zs"
      using Cons.prems(4,5) effect(2) by (auto simp: follows_Inr loggable_def)
    have stream: "concat (incoming l) = write_chunked_replication_record rec @ (more_out @ rest)" using Cons.prems(2,11) out effect(4) by simp
    from effect(1) q(3,1) Cons.prems(8,7,9,10) stream show ?thesis
    proof (cases rule: live.one_effect)
      case (1 x r' l')
      then show ?thesis by (intro disjI1 exI [of _ x] exI [of _ r'] exI [of _ l'] exI [of _ 0]) auto
    next
      case (2 p l1 t)
      let ?r = "r\<lparr>replica_data := apply_committed_batch (E\<lparr>now := t\<rparr>) b (replica_data r), replica_pers := p, local_offset := q\<rparr>"
      have up: "installed T ((q, b) # zs) r r'" if "installed T zs ?r r'" for zs r'
        using installed_step [OF that Cons.prems(8)] 2(3) by simp
      have "live_batches (last_sent_offset s1) events = zs" "contiguous (Some (local_offset ?r)) zs" "local_offset ?r = last_sent_offset s1"
        "local_offset ?r = repl_offset (replica_pers ?r)" "store_wf (replica_data ?r)"
        using effect q(2) 2(2) Cons.prems(8) by (simp_all add: apply_batch_view(2))
      from Cons.IH [OF s1(2) out this(1,2) q(4) this(3-5) 2(4,5,6)] show ?thesis
      proof (elim disjE exE conjE)
        fix x r' l' k assume "live_stream ?r l1 = Some (x, r', l')" "installed T (take k zs) ?r r'"
          "\<not> (calm l1 \<and> healthy (replica_pers ?r) \<and> replication_ready (replica_pers ?r))"
        then show ?thesis using 2(1,7,8) up effect(2) by (intro disjI1 exI [of _ x] exI [of _ r'] exI [of _ l'] exI [of _ "Suc k"]) auto
      next
        fix r' l' t' assume "live_stream ?r l1 = live_stream r' l'" "installed T zs ?r r'" "local_offset r' = last_sent_offset s'" "link_clock l' = E\<lparr>now := t'\<rparr>"
          "timely T l'" "concat (incoming l') = rest" "calm l1 \<longrightarrow> calm l'"
          "healthy (replica_pers ?r) \<and> replication_ready (replica_pers ?r) \<longrightarrow> healthy (replica_pers r') \<and> replication_ready (replica_pers r')"
        then show ?thesis using 2(1,7,8) up effect(2) by (intro disjI2 exI [of _ r'] exI [of _ l'] exI [of _ t']) auto
      qed
    qed
  qed
qed

text \<open>What the channel delivers: batches sent already, and the ones committed since.\<close>

fun deliveries :: "stream_event list \<Rightarrow> history" where
  "deliveries [] = []"
| "deliveries (Received offset batch # events) = (offset, batch) # deliveries events"
| "deliveries (event # events) = deliveries events"

lemma next_above: "u64_checked_add n 1 = Some q \<Longrightarrow> n < q"
  by (auto simp: u64_checked_add_def word_less_nat_alt unat_word_ariths split: if_splits)

lemma live_new: "deliveries events = batches \<Longrightarrow> contiguous (Some n) batches \<Longrightarrow> live_batches n events = batches"
proof (induction events arbitrary: n batches rule: deliveries.induct)
  case (2 q b events)
  then have "u64_checked_add n 1 = Some q" "contiguous (Some q) (deliveries events)" by (auto simp: follows_Inr)
  with next_above [of n q] 2 show ?case by auto
qed simp_all

lemma live_after:
  "deliveries events = old @ batches \<Longrightarrow> \<forall>x \<in> set old. fst x \<le> n \<Longrightarrow> contiguous (Some n) batches \<Longrightarrow> live_batches n events = batches"
proof (induction events arbitrary: old rule: deliveries.induct)
  case (2 q b events)
  show ?case
  proof (cases old)
    case Nil
    with live_new [OF 2(2)] 2(4) show ?thesis by simp
  next
    case (Cons x xs)
    with 2(2,3) 2(1) [of xs] 2(4) show ?thesis by auto
  qed
qed auto

lemma effect_sent: "loggable E [(s, b)] \<Longrightarrow> \<exists>r. encode_replication_effect E s b = Inr r"
  by (auto simp: loggable_def encode_replication_effect_def binlog_ok_def split: sum.splits)

lemma run_lasts:
  assumes "loggable E (deliveries events)" and "set events \<inter> {Lagged, ChannelClosed, ReaderEnded} = {}"
  shows "\<exists>s'. stream_run E heartbeats events s = Some s'"
  using assms
proof (induction events arbitrary: s)
  case (Cons event events)
  have more: "loggable E (deliveries events)" using Cons.prems(1) by (cases event) (simp_all add: loggable_def)
  have "\<exists>s1. stream_turn E heartbeats True event s = Some s1"
  proof (cases event)
    case (Received q b)
    then have "\<exists>r. encode_replication_effect E q b = Inr r" by (intro effect_sent) (use Cons.prems(1) in \<open>simp add: loggable_def\<close>)
    with Received show ?thesis by (auto simp: stream_turn_def)
  qed (use Cons.prems(2) in \<open>simp_all add: stream_turn_def\<close>)
  with Cons.IH [OF more] Cons.prems(2) show ?case by (force simp: bind_eq_Some_conv)
qed simp

end
