(* ===== verification/Replication.thy ===== *)
theory Replication
  imports Full_Sync Replica_Stream
begin

text \<open>
  Master and replica together: what the master sends after \<open>SYNC3\<close>, in the state it has reached by any
  run, brings the replica to that state.
\<close>

section \<open>Sending\<close>

lemma effects_sent: "loggable E batches \<Longrightarrow> \<exists>out. send_effects E batches n = (out, Inr (if batches = [] then n else fst (last batches)))"
proof (induction batches arbitrary: n)
  case (Cons x batches)
  obtain s b where x: "x = (s, b)" by (cases x)
  from Cons.prems x have "loggable E [(s, b)]" "loggable E batches" by (auto simp: loggable_def)
  with effect_sent Cons.IH [of s] x show ?case by fastforce
qed simp

lemma replay_view: "store_wf st \<Longrightarrow> pview E (replay E (map snd batches) st) = fold (effect_update E) (concat (map (effects \<circ> snd) batches)) (pview E st)"
  using apply_batches_view [of st E "map snd batches"] by (simp add: replay_def comp_def)

text \<open>A replica that agreed with the master and has installed what was published since agrees again.\<close>

lemma caught_up:
  assumes pub: "publishes E0 batches st0 p0 st1 p1" and i: "installed T batches r r'" and rep: "store_wf (replica_data r)" "local_offset r = repl_offset p0"
      "\<And>E. T \<le> now E \<Longrightarrow> agrees E (replica_data r) st0" and T: "now E0 \<le> T"
  shows "local_offset r' = repl_offset p1 \<and> (\<forall>E. T \<le> now E \<longrightarrow> agrees E (replica_data r') st1)"
proof (intro conjI allI impI)
  show "local_offset r' = repl_offset p1" using i pub rep(2) by (auto simp: installed_def last_of_def publishes_def split: if_splits)
  fix E :: env assume E: "T \<le> now E"
  have "pview E (replica_data r') = pview E (replay E (map snd batches) (replica_data r))" using i E replay_view [OF rep(1), of E batches] by (simp add: installed_def)
  moreover have "agrees E (replay E (map snd batches) (replica_data r)) st1"
    using pub rep(1) rep(3) [OF E] E T unfolding publishes_def by (meson order_trans)
  ultimately show "agrees E (replica_data r') st1" by (simp add: agrees_def)
qed

section \<open>Properties\<close>

text \<open>
  C2. A partial synchronization brings the replica up to date. A replica that agreed with the master
  at some point of any run of the master, and asks for what follows, is sent exactly the batches
  committed since then when the backlog still has them. However the stream is cut into chunks, the
  replica installs these batches in order, each in its binlog before its store; when something fails
  or a stop is requested it is left at a prefix of them; when it completes its visible entries are
  those of the master, and it does complete when nothing fails.
\<close>

theorem partial_sync_follows:
  assumes run: "safe Z v0" "(server_step Z)\<^sup>*\<^sup>* v0 v" "\<And>x. gunzip Z (gzip Z x) = Inr x" "\<not> fail_stop_started (pers v)" "backlog_ok (pers v0)"
    and rep: "store_wf (replica_data r)" "local_offset r = repl_offset (replica_pers r)" "local_offset r = repl_offset (pers v0)"
      "\<And>E. T \<le> now E \<Longrightarrow> agrees E (replica_data r) (live_data v0)"
    and req: "requested_offset req = local_offset r" "backlog_snapshot upstream req (pers v) = Some missing"
    and link: "link_clock l = (clock v)\<lparr>now := t\<rparr>" "timely T l" "now (clock v) \<le> T"
      "concat (incoming l) = fst (initial_sync (clock v) upstream req (Continue missing)) @ rest"
  shows "\<exists>marker c res r' l' k. read_replication_command (incoming l) = (Inr (Some marker), c) \<and>
    parse_replica_sync_handshake marker = Inr (PartialHandshake upstream (local_offset r)) \<and>
    receive_partial upstream r (l\<lparr>incoming := c\<rparr>) = Some (res, r', l') \<and> installed T (take k missing) r r' \<and>
    (\<forall>x. res = Inr x \<longrightarrow> concat (incoming l') = rest \<and> local_offset r' = repl_offset (pers v) \<and>
      (\<forall>E. T \<le> now E \<longrightarrow> agrees E (replica_data r') (live_data v))) \<and>
    (calm l \<and> healthy (replica_pers r) \<and> replication_ready (replica_pers r) \<longrightarrow> (\<exists>x. res = Inr x))"
proof -
  from run_publishes [OF run(2,1,3,4)] obtain batches u where pub: "publishes (clock v) batches (live_data v0) (pers v0) (live_data v) (pers v)"
    by blast
  from req have up: "upstream \<noteq> 0" and possible: "partial_resync_possible (local_offset r) (case backlog (pers v) of [] \<Rightarrow> None | x # _ \<Rightarrow> Some (fst x)) (repl_offset (pers v))"
    and missing: "missing = backlog_after (local_offset r) (pers v)" by (auto simp: backlog_snapshot_def replid_allows_partial_def split: if_splits)
  have batches: "missing = batches" using partial_published [OF pub run(5)] possible missing rep(3) by simp
  from pub have b: "numbered (local_offset r) (map snd batches) = Some batches" "loggable (clock v) batches"
    "repl_offset (pers v) = (if batches = [] then local_offset r else fst (last batches))"
    by (simp_all add: publishes_def rep(3))
  have "\<exists>out. send_effects (clock v) batches (local_offset r) = (out, Inr (repl_offset (pers v)))" unfolding b(3) by (rule effects_sent [OF b(2)])
  then obtain out where out: "send_effects (clock v) batches (local_offset r) = (out, Inr (repl_offset (pers v)))" by blast
  have "concat (incoming l) = words_line [''+CONTINUE3'', u64_to_string upstream, u64_to_string (local_offset r)] @
      (out @ sync_done_line upstream (Inr (repl_offset (pers v))) @ rest)"
    using link(4) out by (simp add: initial_sync_def batches req(1))
  from continue_read [OF this up] obtain marker c where m: "read_replication_command (incoming l) = (Inr (Some marker), c)"
    "concat c = out @ sync_done_line upstream (Inr (repl_offset (pers v))) @ rest"
    "parse_replica_sync_handshake marker = Inr (PartialHandshake upstream (local_offset r))" by blast
  let ?l = "l\<lparr>incoming := c\<rparr>"
  have "timely T ?l" "link_clock ?l = (clock v)\<lparr>now := t\<rparr>" "calm ?l = calm l" using link(1,2) by (simp_all add: timely_def calm_def)
  with receive_partial_spec [OF out conjunct1 [OF contiguous_numbered [OF b(1)]] b(2) rep(2,1), of ?l t T upstream rest] m(2)
  obtain res r' l' k where run': "receive_partial upstream r ?l = Some (res, r', l')" "installed T (take k batches) r r'"
    "\<forall>x. res = Inr x \<longrightarrow> x = (upstream, repl_offset (pers v)) \<and> installed T batches r r' \<and> concat (incoming l') = rest"
    "calm l \<and> healthy (replica_pers r) \<and> replication_ready (replica_pers r) \<longrightarrow> (\<exists>x. res = Inr x)" by auto
  note fin = caught_up [OF pub _ rep(1,3,4) link(3)]
  show ?thesis
    by (rule exI [of _ marker], rule exI [of _ c], rule exI [of _ res], rule exI [of _ r'], rule exI [of _ l'], rule exI [of _ k])
      (use m run' fin batches in auto)
qed

definition sample_request :: sync_request where
  "sample_request = \<lparr>requested_replid = 7, requested_offset = 1, heartbeat_enabled = True\<rparr>"

definition sample_link :: "bytes \<Rightarrow> link" where
  "sample_link bs = \<lparr>incoming = [take 3 bs, drop 3 bs], waits = [Completed 150, Completed 160], stop_seen = False, link_clock = sample_env\<rparr>"

lemma sample_link: "concat (incoming (sample_link bs)) = bs" "timely 200 (sample_link bs)" "calm (sample_link bs)" "link_clock (sample_link bs) = sample_env\<lparr>now := 100\<rparr>"
  by (simp_all add: sample_link_def timely_def calm_def sample_env_def)

lemma sample_backlog:
  obtains v where "server_step plain sample_server v" "clock v = sample_env" "\<not> fail_stop_started (pers v)"
    "backlog_snapshot 7 sample_request (pers v) = Some [(2, delete_batch)]" "published (pers v) = [(2, delete_batch)]"
proof -
  obtain v where v: "server_step plain sample_server v" "clock v = sample_env" "healthy (pers v)" "published (pers v) = [(2, delete_batch)]"
    using sample_commit by blast
  then have up: "\<not> fail_stop_started (pers v)" by (simp add: healthy_def)
  from step_publishes [OF v(1) sample_safe up] obtain batches where b: "publishes (clock v) batches (live_data sample_server) (pers sample_server) (live_data v) (pers v)" by blast
  have "pers sample_server = sample_runtime" "backlog sample_runtime = []"
    by (simp_all add: sample_server_def sample_runtime_def runtime_new_def commit_runtime.defs persistence.defs)
  with b v(4) have "batches = [(2, delete_batch)]" "backlog (pers v) = fold push_backlog batches []" "repl_offset (pers v) = (if batches = [] then 1 else fst (last batches))"
    unfolding publishes_def by (simp_all add: sample_healthy)
  then have "backlog (pers v) = [(2, delete_batch)]" "repl_offset (pers v) = 2" by (simp_all add: push_backlog_def BACKLOG_CAPACITY_def)
  then have "backlog_snapshot 7 sample_request (pers v) = Some [(2, delete_batch)]"
    by (simp add: backlog_snapshot_def sample_request_def replid_allows_partial_def partial_resync_possible_def backlog_after_alt u64_checked_add_def)
  with that v(1,2,4) up show thesis by blast
qed

lemma sample_follows: "store_wf (replica_data sample_replica)" "local_offset sample_replica = repl_offset (replica_pers sample_replica)"
  "local_offset sample_replica = repl_offset (pers sample_server)" "agrees E (replica_data sample_replica) (live_data sample_server)"
  "healthy (replica_pers sample_replica)" "replication_ready (replica_pers sample_replica)"
  using live_store(1) by (simp_all add: sample_replica_def sample_healthy sample_server_def agrees_def same_entry_def)
    (simp add: sample_runtime_def runtime_new_def commit_runtime.defs persistence.defs)

theorem partial_sync_follows_witness:
  "\<exists>v c x r' l'. server_step plain sample_server v \<and> backlog_snapshot 7 sample_request (pers v) = Some [(2, delete_batch)] \<and>
     receive_partial 7 sample_replica ((sample_link (fst (initial_sync sample_env 7 sample_request (Continue [(2, delete_batch)]))))\<lparr>incoming := c\<rparr>) = Some (Inr x, r', l') \<and>
     agrees (sample_env\<lparr>now := 500\<rparr>) (replica_data r') (live_data v)"
proof -
  obtain v where v: "server_step plain sample_server v" "clock v = sample_env" "\<not> fail_stop_started (pers v)"
    "backlog_snapshot 7 sample_request (pers v) = Some [(2, delete_batch)]" by (rule sample_backlog) blast
  have run: "(server_step plain)\<^sup>*\<^sup>* sample_server v" using v(1) by blast
  have base: "backlog_ok (pers sample_server)"
    by (auto simp: sample_server_def backlog_ok_def last_of_def sample_runtime_def runtime_new_def commit_runtime.defs persistence.defs)
  have req: "requested_offset sample_request = local_offset sample_replica" by (simp add: sample_request_def sample_replica_def)
  let ?out = "fst (initial_sync (clock v) 7 sample_request (Continue [(2, delete_batch)]))"
  have link: "link_clock (sample_link ?out) = (clock v)\<lparr>now := 100\<rparr>" "now (clock v) \<le> 200" "concat (incoming (sample_link ?out)) = ?out @ []"
    using sample_link(4) by (simp_all add: v(2) sample_link(1)) (simp add: sample_env_def)
  from partial_sync_follows [OF sample_safe run plain_zip v(3) base sample_follows(1-4) req v(4) link(1) sample_link(2) link(2,3)] sample_link(3) sample_follows(5,6)
  obtain c x r' l' where "receive_partial 7 sample_replica ((sample_link ?out)\<lparr>incoming := c\<rparr>) = Some (Inr x, r', l')"
    "\<forall>E. 200 \<le> now E \<longrightarrow> agrees E (replica_data r') (live_data v)" by blast
  then show ?thesis using v(1,4) unfolding v(2) by (intro exI [of _ v] exI [of _ c] exI [of _ x] exI [of _ r'] exI [of _ l']) simp
qed

text \<open>
  C3. A full synchronization brings the replica up to date. A request the backlog cannot serve is answered
  with all entries of the master; whatever the chunks of the stream, a replica that completes the
  synchronization shows exactly the master's entries at the master's sequence, one that fails on the way keeps its store,
  and it completes when nothing fails and no stop is requested.
\<close>

theorem full_sync_follows:
  assumes plan: "plan_sync E upstream req p st p' = (FullDump sequence entries, st')" and wf: "store_wf st"
    and sent: "initial_sync E upstream req (FullDump sequence entries) = (out, Inr sequence)" and up: "upstream \<noteq> 0"
    and fits: "length entries \<le> MAX_KEYS" "list_all (entry_encodable E) entries"
    and link: "link_clock l = E\<lparr>now := t\<rparr>" "timely T l" "now E \<le> T" "concat (incoming l) = out @ rest"
    and r: "store_wf (replica_data r)" "plain_files (snd (replica_files r))" "\<not> snapshot_active (store_engine (replica_data r))"
  shows "\<exists>marker c res r' l'. read_replication_command (incoming l) = (Inr (Some marker), c) \<and>
    parse_replica_sync_handshake marker = Inr (FullHandshake upstream (repl_offset p') (length entries)) \<and>
    receive_full Z partial left left' upstream sequence (length entries) r (l\<lparr>incoming := c\<rparr>) = Some (res, r', l') \<and>
    (\<forall>x. res = Inr x \<longrightarrow> x = (upstream, repl_offset p') \<and> concat (incoming l') = rest \<and> local_offset r' = repl_offset p' \<and>
      repl_offset (replica_pers r') = repl_offset p' \<and> (\<forall>E'. T \<le> now E' \<longrightarrow> agrees E' (replica_data r') st)) \<and>
    (\<forall>f. res = Inl f \<longrightarrow> replica_data r' = replica_data r) \<and>
    (calm l \<and> healthy (replica_pers r) \<and> \<not> stop_requested (replica_pers r) \<and> \<not> promote_to_master r \<and> fst (replica_files r) = [] \<longrightarrow> (\<exists>x. res = Inr x))"
proof -
  from plan have entries: "entries = fst (snapshot_all E (store_engine st))" "sequence = repl_offset p'"
    by (auto simp: plan_sync_def split: option.splits prod.splits)
  have distinct: "distinct (map fst entries)" using snapshot_all_spec(1) [OF wf [unfolded store_wf_def], of E] by (simp add: entries)
  from sent obtain body where body: "send_entries E entries = (body, Inr ())"
    "out = words_line [''+FULLRESYNC3'', u64_to_string upstream, u64_to_string sequence, nat_to_string (length entries)] @ body @ sync_done_line upstream (Inr sequence)"
    by (auto simp: initial_sync_def Let_def and_then_Inr split: prod.splits)
  have "concat (incoming l) = words_line [''+FULLRESYNC3'', u64_to_string upstream, u64_to_string sequence, nat_to_string (length entries)] @
      (body @ sync_done_line upstream (Inr sequence) @ rest)" using link(4) body(2) by simp
  from fullresync_read [OF this up fits(1)] obtain marker c where m: "read_replication_command (incoming l) = (Inr (Some marker), c)"
    "concat c = body @ sync_done_line upstream (Inr sequence) @ rest"
    "parse_replica_sync_handshake marker = Inr (FullHandshake upstream sequence (length entries))" by blast
  let ?l = "l\<lparr>incoming := c\<rparr>"
  have l: "link_clock ?l = E\<lparr>now := t\<rparr>" "timely T ?l" "concat (incoming ?l) = body @ sync_done_line upstream (Inr sequence) @ rest" "calm ?l = calm l"
    using link(1,2) m(2) by (simp_all add: timely_def calm_def)
  from receive_full_spec [OF body(1) fits(2) distinct l(1-3) r, of Z partial left left'] obtain res r' l' where
    run: "receive_full Z partial left left' upstream sequence (length entries) r ?l = Some (res, r', l')"
      "\<forall>x. res = Inr x \<longrightarrow> x = (upstream, sequence) \<and> concat (incoming l') = rest \<and> local_replid r' = upstream \<and> local_offset r' = sequence \<and>
        repl_offset (replica_pers r') = sequence \<and> store_wf (replica_data r') \<and> (\<forall>E'. T \<le> now E' \<longrightarrow> pview E' (replica_data r') = entries_view E' entries)"
      "\<forall>f. res = Inl f \<longrightarrow> replica_data r' = replica_data r"
      "calm l \<and> healthy (replica_pers r) \<and> \<not> stop_requested (replica_pers r) \<and> \<not> promote_to_master r \<and> fst (replica_files r) = [] \<longrightarrow> (\<exists>x. res = Inr x)"
    using up l(4) by blast
  have "agrees E' (replica_data r') st" if "res = Inr x" "T \<le> now E'" for x E'
  proof -
    have "pview E' (replica_data r') k = pview E' st k" for k
      using run(2) that snapshot_view [OF wf, of E E' k] link(3) by (simp add: entries)
    then show ?thesis by (simp add: agrees_def same_entry_def)
  qed
  then show ?thesis using run(2-4) unfolding entries(2) [symmetric]
    by (intro exI [of _ marker] exI [of _ c] exI [of _ res] exI [of _ r'] exI [of _ l']) (simp add: m run(1))
qed

lemma sample_dump:
  obtains x out where "plan_sync sample_env 9 sample_request sample_runtime live_store sample_runtime =
      (FullDump 1 [(''k'', x)], live_store\<lparr>store_engine := snd (snapshot_all sample_env (store_engine live_store))\<rparr>)"
    "initial_sync sample_env 9 sample_request (FullDump 1 [(''k'', x)]) = (out, Inr 1)" "entry_encodable sample_env (''k'', x)"
proof -
  obtain x where x: "fst (snapshot_all sample_env (store_engine live_store)) = [(''k'', x)]" "entry_value x = Blob ''v''" "expires_at x = None" by (rule live_entries)
  have "backlog_snapshot 9 sample_request sample_runtime = None" by (simp add: backlog_snapshot_def sample_request_def replid_allows_partial_def)
  then have plan: "plan_sync sample_env 9 sample_request sample_runtime live_store sample_runtime =
      (FullDump 1 [(''k'', x)], live_store\<lparr>store_engine := snd (snapshot_all sample_env (store_engine live_store))\<rparr>)"
    using x(1) by (auto simp: plan_sync_def sample_healthy split: prod.split)
  have "\<exists>rec. encode_full_sync_entry sample_env ''k'' x = Inr rec"
    by (simp add: encode_full_sync_entry_def encode_snapshot_entry_def x encode_simps tag_def append_snapshot_bytes_def MAX_SNAPSHOT_RECORD_SIZE_def Let_def)
  then obtain rec where "encode_full_sync_entry sample_env ''k'' x = Inr rec" by blast
  then have "initial_sync sample_env 9 sample_request (FullDump 1 [(''k'', x)]) =
      (fst (initial_sync sample_env 9 sample_request (FullDump 1 [(''k'', x)])), Inr 1)" by (simp add: initial_sync_def Let_def)
  from that [OF plan this] x show thesis by (simp add: entry_encodable_def)
qed

theorem full_sync_follows_witness:
  "\<exists>entries out c x r' l'. fst (plan_sync sample_env 9 sample_request sample_runtime live_store sample_runtime) = FullDump 1 entries \<and>
     initial_sync sample_env 9 sample_request (FullDump 1 entries) = (out, Inr 1) \<and>
     receive_full plain [] [] [] 9 1 (length entries) sample_replica ((sample_link out)\<lparr>incoming := c\<rparr>) = Some (Inr x, r', l') \<and>
     agrees (sample_env\<lparr>now := 500\<rparr>) (replica_data r') live_store"
proof -
  obtain x out where d: "plan_sync sample_env 9 sample_request sample_runtime live_store sample_runtime =
      (FullDump 1 [(''k'', x)], live_store\<lparr>store_engine := snd (snapshot_all sample_env (store_engine live_store))\<rparr>)"
    "initial_sync sample_env 9 sample_request (FullDump 1 [(''k'', x)]) = (out, Inr 1)" "entry_encodable sample_env (''k'', x)" by (rule sample_dump)
  have fits: "length [(''k'', x)] \<le> MAX_KEYS" "list_all (entry_encodable sample_env) [(''k'', x)]" "(9 :: u64) \<noteq> 0" "now sample_env \<le> 200"
    "concat (incoming (sample_link out)) = out @ []"
    using d(3) by (simp_all add: MAX_KEYS_def sample_link(1)) (simp add: sample_env_def)
  have r: "store_wf (replica_data sample_replica)" "plain_files (snd (replica_files sample_replica))" "\<not> snapshot_active (store_engine (replica_data sample_replica))"
    "healthy (replica_pers sample_replica)" "\<not> promote_to_master sample_replica" "fst (replica_files sample_replica) = []"
    using live_store(1) live_idle by (simp_all add: sample_replica_def sample_healthy plain_files_def)
  have up: "\<not> stop_requested (replica_pers sample_replica)" by (simp add: sample_replica_def sample_runtime_def runtime_new_def commit_runtime.defs persistence.defs)
  from full_sync_follows [OF d(1) live_store(1) d(2) fits(3,1,2) sample_link(4,2) fits(4,5) r(1-3), of plain "[]" "[]" "[]"] r(4-6) up sample_link(3)
  obtain c y r' l' where "receive_full plain [] [] [] 9 1 (length [(''k'', x)]) sample_replica ((sample_link out)\<lparr>incoming := c\<rparr>) = Some (Inr y, r', l')"
    "\<forall>E'. 200 \<le> now E' \<longrightarrow> agrees E' (replica_data r') live_store" by blast
  then show ?thesis using d(1,2)
    by (intro exI [of _ "[(''k'', x)]"] exI [of _ out] exI [of _ c] exI [of _ y] exI [of _ r'] exI [of _ l']) simp
qed

text \<open>
  C4. The live stream keeps the replica up to date. The session that follows a synchronization is delivered the
  batches the master commits, possibly after some that the synchronization has sent already; it
  sends each new batch once, with heartbeats in between. The replica, however the stream is
  cut into chunks, installs a prefix of these batches, and when nothing fails and no stop is requested
  it has installed all of them, at the master's sequence and with the master's visible entries.
\<close>

theorem live_stream_follows:
  assumes run: "safe Z v0" "(server_step Z)\<^sup>*\<^sup>* v0 v" "\<And>x. gunzip Z (gzip Z x) = Inr x" "\<not> fail_stop_started (pers v)"
    and rep: "store_wf (replica_data r)" "local_offset r = repl_offset (replica_pers r)" "local_offset r = repl_offset (pers v0)"
      "\<And>E. T \<le> now E \<Longrightarrow> agrees E (replica_data r) (live_data v0)"
    and events: "deliveries events = old @ missing" "published (pers v) = published (pers v0) @ missing" "\<forall>x \<in> set old. fst x \<le> repl_offset (pers v0)"
      "loggable (clock v) old" "set events \<inter> {Lagged, ChannelClosed, ReaderEnded} = {}"
    and session: "last_sent_offset s = repl_offset (pers v0)" and T: "now (clock v) \<le> T"
  shows "\<exists>s' out. stream_run (clock v) heartbeats events s = Some s' \<and> sent s' = sent s @ out \<and>
    (\<forall>l t rest. link_clock l = (clock v)\<lparr>now := t\<rparr> \<and> timely T l \<and> concat (incoming l) = out @ rest \<longrightarrow>
      (\<exists>x r' l' k. live_stream r l = Some (x, r', l') \<and> installed T (take k missing) r r' \<and>
        \<not> (calm l \<and> healthy (replica_pers r) \<and> replication_ready (replica_pers r))) \<or>
      (\<exists>r' l'. live_stream r l = live_stream r' l' \<and> concat (incoming l') = rest \<and> local_offset r' = repl_offset (pers v) \<and>
        (\<forall>E. T \<le> now E \<longrightarrow> agrees E (replica_data r') (live_data v))))"
proof -
  from run_publishes [OF run(2,1,3,4)] obtain batches where pub: "publishes (clock v) batches (live_data v0) (pers v0) (live_data v) (pers v)" by blast
  then have batches: "batches = missing" using events(2) by (simp add: publishes_def)
  from pub have b: "numbered (local_offset r) (map snd missing) = Some missing" "loggable (clock v) missing" by (simp_all add: publishes_def rep(3) batches)
  note c = conjunct1 [OF contiguous_numbered [OF b(1)]]
  have "loggable (clock v) (deliveries events)" using b(2) events(1,4) by (auto simp: loggable_def)
  from run_lasts [OF this events(5)] obtain s' where s': "stream_run (clock v) heartbeats events s = Some s'" by blast
  obtain out where out: "sent s' = sent s @ out" using run_sent [OF s'] by blast
  have new: "live_batches (last_sent_offset s) events = missing" using live_after [OF events(1)] events(3) c session rep(3) by simp
  have offset: "local_offset r = last_sent_offset s" using session rep(3) by simp
  show ?thesis
  proof (rule exI [of _ s'], rule exI [of _ out], intro conjI allI impI)
    fix l t rest assume link: "link_clock l = (clock v)\<lparr>now := t\<rparr> \<and> timely T l \<and> concat (incoming l) = out @ rest"
    from live_follow [OF s' out new c b(2) offset rep(2,1) conjunct1 [OF link] conjunct1 [OF conjunct2 [OF link]] conjunct2 [OF conjunct2 [OF link]]]
      caught_up [OF pub [unfolded batches] _ rep(1,3,4) T]
    show "(\<exists>x r' l' k. live_stream r l = Some (x, r', l') \<and> installed T (take k missing) r r' \<and>
        \<not> (calm l \<and> healthy (replica_pers r) \<and> replication_ready (replica_pers r))) \<or>
      (\<exists>r' l'. live_stream r l = live_stream r' l' \<and> concat (incoming l') = rest \<and> local_offset r' = repl_offset (pers v) \<and>
        (\<forall>E. T \<le> now E \<longrightarrow> agrees E (replica_data r') (live_data v)))" by blast
  qed (use s' out in simp_all)
qed

definition sample_events :: "stream_event list" where
  "sample_events = [HeartbeatTick, Received 2 delete_batch]"

definition sample_session :: master_session where
  "sample_session = \<lparr>last_sent_offset = 1, sent = []\<rparr>"

theorem live_stream_follows_witness:
  "\<exists>v s' r' l'. server_step plain sample_server v \<and> stream_run sample_env True sample_events sample_session = Some s' \<and>
     live_stream sample_replica (sample_link (sent s')) = live_stream r' l' \<and> local_offset r' = repl_offset (pers v) \<and>
     agrees (sample_env\<lparr>now := 500\<rparr>) (replica_data r') (live_data v)"
proof -
  obtain v where v: "server_step plain sample_server v" "clock v = sample_env" "\<not> fail_stop_started (pers v)"
    "published (pers v) = [(2, delete_batch)]" by (rule sample_backlog) blast
  have run: "(server_step plain)\<^sup>*\<^sup>* sample_server v" using v(1) by blast
  have ev: "deliveries sample_events = [] @ [(2, delete_batch)]" "published (pers v) = published (pers sample_server) @ [(2, delete_batch)]"
    "\<forall>x \<in> set ([] :: history). fst x \<le> repl_offset (pers sample_server)" "loggable (clock v) []" "set sample_events \<inter> {Lagged, ChannelClosed, ReaderEnded} = {}"
    "last_sent_offset sample_session = repl_offset (pers sample_server)" "now (clock v) \<le> 200"
    using sample_follows(3) by (simp_all add: v(2,4) sample_events_def sample_session_def sample_server_def loggable_def sample_replica_def)
      (simp_all add: sample_runtime_def runtime_new_def commit_runtime.defs persistence.defs sample_env_def)
  from live_stream_follows [OF sample_safe run plain_zip v(3) sample_follows(1-4) ev, of True]
  obtain s' out where s': "stream_run sample_env True sample_events sample_session = Some s'" "sent s' = out"
    and live: "\<forall>l t rest. link_clock l = sample_env\<lparr>now := t\<rparr> \<and> timely 200 l \<and> concat (incoming l) = out @ rest \<longrightarrow>
      (\<exists>x r' l' k. live_stream sample_replica l = Some (x, r', l') \<and> installed 200 (take k [(2, delete_batch)]) sample_replica r' \<and>
        \<not> (calm l \<and> healthy (replica_pers sample_replica) \<and> replication_ready (replica_pers sample_replica))) \<or>
      (\<exists>r' l'. live_stream sample_replica l = live_stream r' l' \<and> concat (incoming l') = rest \<and> local_offset r' = repl_offset (pers v) \<and>
        (\<forall>E. 200 \<le> now E \<longrightarrow> agrees E (replica_data r') (live_data v)))"
    unfolding v(2) by (auto simp: sample_session_def)
  have "link_clock (sample_link out) = sample_env\<lparr>now := 100\<rparr> \<and> timely 200 (sample_link out) \<and> concat (incoming (sample_link out)) = out @ []"
    using sample_link by simp
  with live have "\<exists>r' l'. live_stream sample_replica (sample_link out) = live_stream r' l' \<and> local_offset r' = repl_offset (pers v) \<and>
        (\<forall>E. 200 \<le> now E \<longrightarrow> agrees E (replica_data r') (live_data v))" using sample_link(3) sample_follows(5,6) by blast
  then obtain r' l' where "live_stream sample_replica (sample_link out) = live_stream r' l'" "local_offset r' = repl_offset (pers v)"
    "\<forall>E. 200 \<le> now E \<longrightarrow> agrees E (replica_data r') (live_data v)" by blast
  then show ?thesis using v(1) s' by (intro exI [of _ v] exI [of _ s'] exI [of _ r'] exI [of _ l']) simp
qed

end
