(* ===== verification/Pubsub.thy ===== *)
theory Pubsub
  imports Resp
begin

text \<open>
  Publish and subscribe, the ephemeral messages of \<open>handle_client\<close> in \<open>src/main.rs\<close>: the registry that
  \<open>PUBLISH\<close> counts receivers in, the session of a subscriber, and that the count is right as long as
  every subscription could be confirmed.
\<close>

section \<open>The registry\<close>

text \<open>Hash sets are lists without duplicates, in the order of iteration.\<close>

record hub =
  next_subscriber_id :: u64
  subscriptions :: "(bytes, u64 list) hmap"

definition subscribers :: "bytes \<Rightarrow> hub \<Rightarrow> u64 list" where
  "subscribers channel h = (case hm_get (subscriptions h) channel of Some ids \<Rightarrow> ids | None \<Rightarrow> [])"

definition join_channel :: "bytes \<Rightarrow> u64 \<Rightarrow> hub \<Rightarrow> hub" where
  "join_channel channel n h = h\<lparr>subscriptions := hm_insert channel (List.insert n (subscribers channel h)) (subscriptions h)\<rparr>"

definition leave_channel :: "bytes \<Rightarrow> u64 \<Rightarrow> hub \<Rightarrow> hub" where
  "leave_channel channel n h = (case hm_get (subscriptions h) channel of
      Some ids \<Rightarrow> h\<lparr>subscriptions := hm_insert channel (removeAll n ids) (subscriptions h)\<rparr>
    | None \<Rightarrow> h)"

text \<open>The reply to \<open>PUBLISH\<close>; the message goes to the broadcast channel.\<close>

definition publish :: "bytes list \<Rightarrow> hub \<Rightarrow> resp_value \<times> (bytes \<times> bytes)" where
  "publish args h = (let channel = (if 1 < length args then args ! 1 else []); message = (if 2 < length args then args ! 2 else [])
     in (Integer (word_of_nat (length (subscribers channel h))), (channel, message)))"

section \<open>The session of a subscriber\<close>

record subscriber =
  subscriber_id :: u64
  my_channels :: "bytes list"
  pushed :: bytes

definition confirmation :: "bytes \<Rightarrow> bytes \<Rightarrow> subscriber \<Rightarrow> bytes" where
  "confirmation kind channel s =
     encode_into (Array [BulkString (Some kind), BulkString (Some channel), Integer (word_of_nat (length (my_channels s)))]) []"

text \<open>A failed write ends the loop over the channels; \<open>oks\<close> says which writes succeed.\<close>

abbreviation goes_out :: "bool list \<Rightarrow> bool" where
  "goes_out oks \<equiv> oks = [] \<or> hd oks"

fun open_channels :: "bool list \<Rightarrow> bytes list \<Rightarrow> subscriber \<Rightarrow> hub \<Rightarrow> bool \<times> subscriber \<times> hub" where
  "open_channels oks [] s h = (True, s, h)"
| "open_channels oks (channel # channels) s h =
     (let s1 = s\<lparr>my_channels := List.insert channel (my_channels s)\<rparr>; h1 = join_channel channel (subscriber_id s) h
      in if goes_out oks then open_channels (tl oks) channels (s1\<lparr>pushed := pushed s1 @ confirmation ''subscribe'' channel s1\<rparr>) h1
         else (False, s1, h1))"

fun add_channels :: "bool list \<Rightarrow> bytes list \<Rightarrow> subscriber \<Rightarrow> hub \<Rightarrow> subscriber \<times> hub" where
  "add_channels oks [] s h = (s, h)"
| "add_channels oks (channel # channels) s h =
     (let s1 = s\<lparr>my_channels := List.insert channel (my_channels s)\<rparr>;
          h1 = (if channel \<in> set (my_channels s) then h else join_channel channel (subscriber_id s) h)
      in if goes_out oks then add_channels (tl oks) channels (s1\<lparr>pushed := pushed s1 @ confirmation ''subscribe'' channel s1\<rparr>) h1
         else (s1, h1))"

fun drop_channels :: "bool list \<Rightarrow> bytes list \<Rightarrow> subscriber \<Rightarrow> hub \<Rightarrow> subscriber \<times> hub" where
  "drop_channels oks [] s h = (s, h)"
| "drop_channels oks (channel # channels) s h =
     (let s1 = s\<lparr>my_channels := removeAll channel (my_channels s)\<rparr>; h1 = leave_channel channel (subscriber_id s) h
      in if goes_out oks then drop_channels (tl oks) channels (s1\<lparr>pushed := pushed s1 @ confirmation ''unsubscribe'' channel s1\<rparr>) h1
         else (s1, h1))"

definition close_subscriber :: "subscriber \<Rightarrow> hub \<Rightarrow> hub" where
  "close_subscriber s h = fold (\<lambda>channel. leave_channel channel (subscriber_id s)) (my_channels s) h"

datatype pubsub_event = Update bool "bytes list" | ReaderClosed | Message bytes bytes | MessagesLost | HubClosed

text \<open>One turn of the loop; \<open>False\<close> is its end, after which the registrations are removed.\<close>

definition subscriber_turn :: "bool list \<Rightarrow> pubsub_event \<Rightarrow> subscriber \<Rightarrow> hub \<Rightarrow> bool \<times> subscriber \<times> hub" where
  "subscriber_turn oks event s h = (case event of
      Update is_subscribe channels \<Rightarrow>
        if is_subscribe then (True, add_channels oks channels s h)
        else (True, drop_channels oks (if channels = [] then my_channels s else channels) s h)
    | ReaderClosed \<Rightarrow> (False, s, close_subscriber s h)
    | Message channel payload \<Rightarrow>
        if channel \<in> set (my_channels s) then
          if goes_out oks then (True, s\<lparr>pushed := pushed s @ encode_into (Array [BulkString (Some ''message''), BulkString (Some channel), BulkString (Some payload)]) []\<rparr>, h)
          else (False, s, close_subscriber s h)
        else (True, s, h)
    | MessagesLost \<Rightarrow> (True, s, h)
    | HubClosed \<Rightarrow> (False, s, close_subscriber s h))"

text \<open>The commands a subscribed connection is read for.\<close>

definition subscriber_command :: "bytes list \<Rightarrow> pubsub_event option" where
  "subscriber_command args = (let cmd = to_ascii_uppercase (hd args) in
     if args = [] then None
     else if cmd = ''SUBSCRIBE'' then Some (Update True (tl args))
     else if cmd = ''UNSUBSCRIBE'' then Some (Update False (tl args))
     else None)"

definition subscribe :: "bool list \<Rightarrow> bytes list \<Rightarrow> hub \<Rightarrow> bool \<times> subscriber \<times> hub" where
  "subscribe oks channels h = (let n = next_subscriber_id h + 1 in
     open_channels oks channels \<lparr>subscriber_id = n, my_channels = [], pushed = []\<rparr> (h\<lparr>next_subscriber_id := n\<rparr>))"

section \<open>All sessions\<close>

record pubsub =
  hub_of :: hub
  sessions :: "u64 \<Rightarrow> subscriber option"

text \<open>The identifiers are not used twice: the counter has 64 bits.\<close>

inductive pubsub_step :: "pubsub \<Rightarrow> pubsub \<Rightarrow> bool" where
  joined: "next_subscriber_id (hub_of w) \<noteq> - 1 \<Longrightarrow> subscribe oks channels (hub_of w) = (True, s, h) \<Longrightarrow>
    pubsub_step w \<lparr>hub_of = h, sessions = (sessions w)(subscriber_id s \<mapsto> s)\<rparr>"
| turned: "sessions w n = Some s \<Longrightarrow> subscriber_turn oks event s (hub_of w) = (True, s', h) \<Longrightarrow>
    pubsub_step w \<lparr>hub_of = h, sessions = (sessions w)(n \<mapsto> s')\<rparr>"
| closed: "sessions w n = Some s \<Longrightarrow> subscriber_turn oks event s (hub_of w) = (False, s', h) \<Longrightarrow>
    pubsub_step w \<lparr>hub_of = h, sessions = (sessions w)(n := None)\<rparr>"

definition pubsub_new :: pubsub where
  "pubsub_new = \<lparr>hub_of = \<lparr>next_subscriber_id = 0, subscriptions = []\<rparr>, sessions = (\<lambda>_. None)\<rparr>"

text \<open>The registry has exactly the channels of the sessions.\<close>

definition listening :: "pubsub \<Rightarrow> bytes \<Rightarrow> u64 set" where
  "listening w channel = {n. \<exists>s. sessions w n = Some s \<and> channel \<in> set (my_channels s)}"

definition registered :: "pubsub \<Rightarrow> bool" where
  "registered w \<longleftrightarrow> (\<forall>channel. distinct (subscribers channel (hub_of w)) \<and> set (subscribers channel (hub_of w)) = listening w channel) \<and>
     (\<forall>n s. sessions w n = Some s \<longrightarrow> subscriber_id s = n \<and> n \<le> next_subscriber_id (hub_of w))"

lemma subscribers_join [simp]:
  "subscribers c (join_channel channel n h) = (if c = channel then List.insert n (subscribers channel h) else subscribers c h)"
  by (simp add: subscribers_def join_channel_def hmap_simps)

lemma subscribers_leave [simp]:
  "subscribers c (leave_channel channel n h) = (if c = channel then removeAll n (subscribers channel h) else subscribers c h)"
  by (auto simp: subscribers_def leave_channel_def hmap_simps split: option.splits)

lemma hub_ids [simp]: "next_subscriber_id (join_channel channel n h) = next_subscriber_id h" "next_subscriber_id (leave_channel channel n h) = next_subscriber_id h"
  by (simp_all add: join_channel_def leave_channel_def split: option.splits)

text \<open>
  What the loops over channels keep: the session is registered for its channels, the other sessions
  are untouched.
\<close>

definition tracks :: "hub \<Rightarrow> subscriber \<Rightarrow> hub \<Rightarrow> bool" where
  "tracks h0 s h \<longleftrightarrow> next_subscriber_id h = next_subscriber_id h0 \<and>
     (\<forall>c. distinct (subscribers c h) \<and> set (subscribers c h) - {subscriber_id s} = set (subscribers c h0) - {subscriber_id s} \<and>
       (subscriber_id s \<in> set (subscribers c h) \<longleftrightarrow> c \<in> set (my_channels s)))"

lemma tracks_pushed [simp]: "tracks h0 (s\<lparr>pushed := x\<rparr>) h = tracks h0 s h"
  by (simp add: tracks_def)

lemma open_tracks: "open_channels oks channels s h = (ok, s', h') \<Longrightarrow> tracks h0 s h \<Longrightarrow> tracks h0 s' h' \<and> subscriber_id s' = subscriber_id s"
proof (induction channels arbitrary: oks s h)
  case (Cons channel channels)
  let ?s = "s\<lparr>my_channels := List.insert channel (my_channels s)\<rparr>" and ?h = "join_channel channel (subscriber_id s) h"
  have one: "tracks h0 ?s ?h" "tracks h0 (?s\<lparr>pushed := x\<rparr>) ?h" for x using Cons.prems(2) by (auto simp: tracks_def)
  show ?case using Cons.prems(1) Cons.IH [OF _ one(2)] one(1) by (fastforce simp: Let_def split: if_splits)
qed simp

lemma add_tracks: "add_channels oks channels s h = (s', h') \<Longrightarrow> tracks h0 s h \<Longrightarrow> tracks h0 s' h' \<and> subscriber_id s' = subscriber_id s"
proof (induction channels arbitrary: oks s h)
  case (Cons channel channels)
  let ?s = "s\<lparr>my_channels := List.insert channel (my_channels s)\<rparr>"
    and ?h = "if channel \<in> set (my_channels s) then h else join_channel channel (subscriber_id s) h"
  have one: "tracks h0 ?s ?h" "tracks h0 (?s\<lparr>pushed := x\<rparr>) ?h" for x using Cons.prems(2) by (auto simp: tracks_def)
  show ?case using Cons.prems(1) Cons.IH [OF _ one(2)] one(1) by (fastforce simp: Let_def split: if_splits)
qed simp

lemma drop_tracks: "drop_channels oks channels s h = (s', h') \<Longrightarrow> tracks h0 s h \<Longrightarrow> tracks h0 s' h' \<and> subscriber_id s' = subscriber_id s"
proof (induction channels arbitrary: oks s h)
  case (Cons channel channels)
  let ?s = "s\<lparr>my_channels := removeAll channel (my_channels s)\<rparr>" and ?h = "leave_channel channel (subscriber_id s) h"
  have one: "tracks h0 ?s ?h" "tracks h0 (?s\<lparr>pushed := x\<rparr>) ?h" for x using Cons.prems(2) by (auto simp: tracks_def distinct_removeAll)
  show ?case using Cons.prems(1) Cons.IH [OF _ one(2)] one(1) by (fastforce simp: Let_def split: if_splits)
qed simp

lemma close_leaves: "subscribers c (fold (\<lambda>channel. leave_channel channel n) channels h) = (if c \<in> set channels then removeAll n (subscribers c h) else subscribers c h)"
  "next_subscriber_id (fold (\<lambda>channel. leave_channel channel n) channels h) = next_subscriber_id h"
  by (induction channels arbitrary: h) auto

lemma tracks_registered:
  assumes "registered w" and "tracks h0 s h" and "\<And>c. subscribers c h0 = subscribers c (hub_of w)"
    and "next_subscriber_id (hub_of w) \<le> next_subscriber_id h" and "subscriber_id s \<le> next_subscriber_id h"
  shows "registered \<lparr>hub_of = h, sessions = (sessions w)(subscriber_id s \<mapsto> s)\<rparr>"
proof -
  have "set (subscribers c h) = listening \<lparr>hub_of = h, sessions = (sessions w)(subscriber_id s \<mapsto> s)\<rparr> c" for c
  proof (rule set_eqI)
    fix n
    show "n \<in> set (subscribers c h) \<longleftrightarrow> n \<in> listening \<lparr>hub_of = h, sessions = (sessions w)(subscriber_id s \<mapsto> s)\<rparr> c"
    proof (cases "n = subscriber_id s")
      case True
      then show ?thesis using assms(2) by (simp add: listening_def tracks_def)
    next
      case False
      then have "n \<in> set (subscribers c h) \<longleftrightarrow> n \<in> set (subscribers c (hub_of w))" using assms(2,3) by (auto simp: tracks_def)
      with False assms(1) show ?thesis by (simp add: registered_def listening_def)
    qed
  qed
  with assms show ?thesis by (fastforce simp: registered_def tracks_def)
qed

lemma session_tracks: "registered w \<Longrightarrow> sessions w n = Some s \<Longrightarrow> tracks (hub_of w) s (hub_of w)"
  by (auto simp: registered_def tracks_def listening_def)

lemma fresh_id:
  assumes "registered w" and "next_subscriber_id (hub_of w) \<noteq> - 1"
  shows "next_subscriber_id (hub_of w) < next_subscriber_id (hub_of w) + 1" "next_subscriber_id (hub_of w) + 1 \<notin> set (subscribers c (hub_of w))"
proof -
  let ?n = "next_subscriber_id (hub_of w)"
  have "?n + 1 \<noteq> 0" using max_word_wrap [of ?n] assms(2) by blast
  then have "(unat ?n + 1) mod 2 ^ 64 \<noteq> 0" using unat_eq_0 [of "?n + 1"] by (simp add: unat_word_ariths)
  then have "unat ?n + 1 \<noteq> 2 ^ 64" by auto
  then show less: "?n < ?n + 1" using unat_u64_less [of ?n] by (simp add: word_less_nat_alt unat_word_ariths)
  have "n \<le> ?n" if "n \<in> set (subscribers c (hub_of w))" for n using assms(1) that by (auto simp: registered_def listening_def)
  with less show "?n + 1 \<notin> set (subscribers c (hub_of w))" by fastforce
qed

lemma subscribe_tracks:
  assumes "registered w" and "next_subscriber_id (hub_of w) \<noteq> - 1" and "subscribe oks channels (hub_of w) = (ok, s, h)"
  shows "tracks ((hub_of w)\<lparr>next_subscriber_id := next_subscriber_id (hub_of w) + 1\<rparr>) s h" "subscriber_id s = next_subscriber_id (hub_of w) + 1"
    "next_subscriber_id (hub_of w) < next_subscriber_id h" "subscriber_id s \<le> next_subscriber_id h"
proof -
  let ?n = "next_subscriber_id (hub_of w)"
  let ?h = "(hub_of w)\<lparr>next_subscriber_id := ?n + 1\<rparr>" and ?s = "\<lparr>subscriber_id = ?n + 1, my_channels = [], pushed = []\<rparr>"
  note less = fresh_id(1) [OF assms(1,2)]
  have "subscribers c ?h = subscribers c (hub_of w)" for c by (simp add: subscribers_def)
  moreover note fresh_id(2) [OF assms(1,2)]
  ultimately have "tracks ?h ?s ?h" using assms(1) by (simp add: tracks_def registered_def)
  from open_tracks [OF _ this, of oks channels ok s h] assms(3)
  show "tracks ?h s h" "subscriber_id s = ?n + 1" by (simp_all add: subscribe_def Let_def)
  with less show "?n < next_subscriber_id h" "subscriber_id s \<le> next_subscriber_id h" by (simp_all add: tracks_def)
qed

lemma registered_step:
  assumes "pubsub_step w w'" and r: "registered w"
  shows "registered w'"
  using assms(1)
proof cases
  case (joined oks channels s h)
  note t = subscribe_tracks [OF r joined(2,3)]
  show ?thesis unfolding joined(1) by (rule tracks_registered [OF r t(1)]) (use t in \<open>simp_all add: subscribers_def\<close>)
next
  case (turned n s oks event s' h)
  note t = session_tracks [OF r turned(2)]
  have s': "tracks (hub_of w) s' h" "subscriber_id s' = subscriber_id s"
    using turned(3) t add_tracks [OF _ t] drop_tracks [OF _ t] by (auto simp: subscriber_turn_def split: pubsub_event.splits if_splits)
  have "subscriber_id s = n" "n \<le> next_subscriber_id (hub_of w)" "next_subscriber_id h = next_subscriber_id (hub_of w)"
    using turned(2) r s'(1) by (simp_all add: registered_def tracks_def)
  then show ?thesis unfolding turned(1) using tracks_registered [OF r s'(1)] s'(2) by simp
next
  case (closed n s oks event s' h)
  have h: "h = close_subscriber s (hub_of w)" using closed(3) by (auto simp: subscriber_turn_def split: pubsub_event.splits if_splits)
  have n: "subscriber_id s = n" using closed(2) r by (simp add: registered_def)
  have "subscribers c h = removeAll n (subscribers c (hub_of w))" for c
    using session_tracks [OF r closed(2)] by (auto simp: h close_subscriber_def close_leaves n tracks_def)
  then show ?thesis using r unfolding closed(1) by (auto simp: registered_def listening_def h close_subscriber_def close_leaves distinct_removeAll)
qed

lemma registered_run: "pubsub_step\<^sup>*\<^sup>* pubsub_new w \<Longrightarrow> registered w"
proof (induction rule: rtranclp_induct)
  case base
  show ?case by (simp add: registered_def pubsub_new_def subscribers_def listening_def)
qed (rule registered_step)

section \<open>Properties\<close>


definition sample_pubsub :: pubsub where
  "sample_pubsub = (case subscribe [] [''news'', ''log''] (hub_of pubsub_new) of (ok, s, h) \<Rightarrow>
     \<lparr>hub_of = h, sessions = [subscriber_id s \<mapsto> s]\<rparr>)"

lemma sample_pubsub: "pubsub_step\<^sup>*\<^sup>* pubsub_new sample_pubsub" "listening sample_pubsub ''news'' = {1}"
proof -
  obtain ok s h where s: "subscribe [] [''news'', ''log''] (hub_of pubsub_new) = (ok, s, h)" "ok" "subscriber_id s = 1" "''news'' \<in> set (my_channels s)"
    by (cases "subscribe [] [''news'', ''log''] (hub_of pubsub_new)") (auto simp: subscribe_def Let_def pubsub_new_def)
  have "pubsub_step pubsub_new sample_pubsub"
    using pubsub_step.joined [of pubsub_new "[]" "[''news'', ''log'']" s h] s by (simp add: sample_pubsub_def pubsub_new_def)
  then show "pubsub_step\<^sup>*\<^sup>* pubsub_new sample_pubsub" by blast
  show "listening sample_pubsub ''news'' = {1}" using s by (auto simp: sample_pubsub_def listening_def)
qed


text \<open>
  C34. A subscription whose confirmation cannot be written stays registered. The connection ends at
  once, without the cleanup of an ending session, and from then on \<open>PUBLISH\<close> counts a receiver
  that does not exist.
\<close>

theorem failed_confirmation_leaks:
  assumes "pubsub_step\<^sup>*\<^sup>* pubsub_new w" and "next_subscriber_id (hub_of w) \<noteq> - 1" and "subscribe [False] [channel] (hub_of w) = (ok, s, h)"
  shows "\<not> ok \<and> fst (publish [cmd, channel, payload] h) = Integer (word_of_nat (card (listening w channel) + 1))"
proof -
  have r: "registered w" using assms(1) by (rule registered_run)
  note t = subscribe_tracks [OF r assms(2,3)]
  let ?n = "next_subscriber_id (hub_of w) + 1"
  have s: "\<not> ok" "my_channels s = [channel]" using assms(3) by (auto simp: subscribe_def Let_def)
  have "set (subscribers channel h) = insert ?n (listening w channel)"
  proof -
    have "?n \<in> set (subscribers channel h)" "set (subscribers channel h) - {?n} = set (subscribers channel (hub_of w)) - {?n}"
      using t(1,2) s(2) by (simp_all add: tracks_def subscribers_def)
    then show ?thesis using fresh_id(2) [OF r assms(2), of channel] r by (auto simp: registered_def)
  qed
  moreover have "?n \<notin> listening w channel" using fresh_id [OF r assms(2)] r by (simp add: registered_def)
  moreover have "finite (listening w channel)" using r List.finite_set [of "subscribers channel (hub_of w)"] by (simp add: registered_def)
  moreover have "distinct (subscribers channel h)" using t(1) by (simp add: tracks_def)
  ultimately have "length (subscribers channel h) = card (listening w channel) + 1" using distinct_card [of "subscribers channel h"] by simp
  then show ?thesis using s(1) by (simp add: publish_def Let_def)
qed

theorem failed_confirmation_leaks_witness:
  "\<exists>s h. subscribe [False] [''news''] (hub_of pubsub_new) = (False, s, h) \<and> fst (publish [''PUBLISH'', ''news'', ''hello''] h) = Integer 1"
proof -
  obtain ok s h where s: "subscribe [False] [''news''] (hub_of pubsub_new) = (ok, s, h)" by (cases "subscribe [False] [''news''] (hub_of pubsub_new)")
  have n: "next_subscriber_id (hub_of pubsub_new) \<noteq> - 1" and none: "listening pubsub_new ''news'' = {}" by (simp_all add: pubsub_new_def listening_def)
  have "\<not> ok \<and> fst (publish [''PUBLISH'', ''news'', ''hello''] h) = Integer 1"
    using failed_confirmation_leaks [OF rtranclp.rtrancl_refl n s, of "''PUBLISH''" "''hello''"] unfolding none card.empty by simp
  then show ?thesis using s by auto
qed

end
