(* ===== verification/Session.thy ===== *)
theory Session
  imports Pubsub Config Replication_Master
begin

text \<open>
  The session of a client: \<open>handle_client\<close> of \<open>src/main.rs\<close> with the transaction queue, the collection of
  pipelined writes and the calls of the commit coordinator. One turn of its loop reads a command,
  dispatches it and appends the reply; other sessions and tasks run between the turns.
\<close>

section \<open>Transaction queues\<close>

definition MAX_TRANSACTION_COMMANDS :: nat where
  "MAX_TRANSACTION_COMMANDS = 1024"

definition MAX_TRANSACTION_BYTES :: nat where
  "MAX_TRANSACTION_BYTES = 16 * 1024 * 1024"

definition MAX_PIPELINED_COMMIT_COMMANDS :: nat where
  "MAX_PIPELINED_COMMIT_COMMANDS = 64"

record transaction_queue =
  queued :: "bytes list list"
  encoded_bytes :: nat
  queue_failed :: bool

definition transaction_queue_default :: transaction_queue where
  "transaction_queue_default = \<lparr>queued = [], encoded_bytes = 0, queue_failed = False\<rparr>"

fun command_bytes :: "bytes list \<Rightarrow> nat \<Rightarrow> nat option" where
  "command_bytes [] n = Some n"
| "command_bytes (argument # arguments) n = Option.bind (checked_add n (sat_add (length argument) 16)) (command_bytes arguments)"

definition enqueue :: "bytes list \<Rightarrow> transaction_queue \<Rightarrow> (bytes + unit) \<times> transaction_queue" where
  "enqueue command q =
     (if queue_failed q then (Inl ''ERR transaction queue is already invalid'', q)
      else if MAX_TRANSACTION_COMMANDS \<le> length (queued q)
      then (Inl ''ERR transaction queue command limit exceeded'', q\<lparr>queue_failed := True\<rparr>)
      else (case Option.bind (command_bytes command 16) (checked_add (encoded_bytes q)) of
          None \<Rightarrow> (Inl ''ERR transaction queue byte limit exceeded'', q\<lparr>queue_failed := True\<rparr>)
        | Some projected \<Rightarrow>
            if MAX_TRANSACTION_BYTES < projected then (Inl ''ERR transaction queue byte limit exceeded'', q\<lparr>queue_failed := True\<rparr>)
            else (Inr (), q\<lparr>encoded_bytes := projected, queued := queued q @ [command]\<rparr>)))"

section \<open>The coordinator as its clients see it\<close>

text \<open>Where the request of a client comes to stand: the requests before and after it in its group.\<close>

record group_place =
  earlier :: "(u64 \<times> commit_operation) list"
  prepared_at :: u64
  later :: "(u64 \<times> commit_operation) list"
  group_time :: u64

text \<open>\<open>None\<close> is a panic of the coordinator.\<close>

definition submit :: "server_status \<Rightarrow> group_place \<Rightarrow> commit_operation \<Rightarrow> server \<Rightarrow> (commit_response presult \<times> server) option" where
  "submit S g operation v = (case submit_units operation of
      Inl e \<Rightarrow> Some (Inl e, v)
    | Inr _ \<Rightarrow> (case process_commit_group S ((clock v)\<lparr>now := group_time g\<rparr>)
          (map (apfst (\<lambda>t. (clock v)\<lparr>now := t\<rparr>)) (earlier g @ (prepared_at g, operation) # later g)) (live_data v) (pers v) of
        None \<Rightarrow> None
      | Some (results, st, p) \<Rightarrow>
          Some (results ! length (earlier g), v\<lparr>clock := (clock v)\<lparr>now := group_time g\<rparr>, live_data := st, pers := p\<rparr>)))"

definition mismatched :: "bytes \<Rightarrow> persistence_error" where
  "mismatched what = persistence_indeterminate (''Master commit coordinator returned a mismatched '' @ what @ '' outcome'')"

fun command_response :: "commit_response \<Rightarrow> command_outcome presult" where
  "command_response (CommandR outcome) = Inr outcome"
| "command_response _ = Inl (mismatched ''command'')"

fun group_response :: "commit_response \<Rightarrow> command_outcome list presult" where
  "group_response (CommandGroupR outcomes) = Inr outcomes"
| "group_response _ = Inl (mismatched ''command group'')"

fun transaction_response :: "commit_response \<Rightarrow> resp_value presult" where
  "transaction_response (TransactionR r) = Inr r"
| "transaction_response _ = Inl (mismatched ''transaction'')"

fun obp_response :: "commit_response \<Rightarrow> obp_mutation_result presult" where
  "obp_response (ObpR r) = Inr r"
| "obp_response _ = Inl (mismatched ''OBP'')"

definition coordinated :: "(commit_response \<Rightarrow> 'r presult) \<Rightarrow> server_status \<Rightarrow> group_place \<Rightarrow> commit_operation \<Rightarrow> server \<Rightarrow>
    ('r presult \<times> server) option" where
  "coordinated pick S g operation v = map_option (apfst (\<lambda>r. and_then r pick)) (submit S g operation v)"

definition misconf_message :: "bytes \<Rightarrow> persistence_error \<Rightarrow> bytes" where
  "misconf_message what e =
     (if take 8 (message e) = ''MISCONF '' then message e else ''MISCONF '' @ what @ '' persistence failed: '' @ message e)"

definition failed_outcome :: "persistence_error \<Rightarrow> command_outcome" where
  "failed_outcome e = \<lparr>response = Error (misconf_message ''mutation'' e), mutation = NoChange\<rparr>"

definition execute_ordered_command :: "server_status \<Rightarrow> group_place \<Rightarrow> bytes list \<Rightarrow> server \<Rightarrow> (command_outcome \<times> server) option" where
  "execute_ordered_command S g args v =
     (if \<not> is_write_command (arg_at 0 args)
      then Some (apsnd (\<lambda>st. v\<lparr>live_data := st\<rparr>) (server_execute_command S (clock v) args (live_data v)))
      else map_option (apfst (\<lambda>r. case r of Inr outcome \<Rightarrow> outcome | Inl e \<Rightarrow> failed_outcome e))
        (coordinated command_response S g (Command args) v))"

definition execute_ordered_commands :: "server_status \<Rightarrow> group_place \<Rightarrow> bytes list list \<Rightarrow> server \<Rightarrow> (command_outcome list \<times> server) option" where
  "execute_ordered_commands S g commands v =
     map_option (apfst (\<lambda>r. case r of Inr outcomes \<Rightarrow> outcomes | Inl e \<Rightarrow> replicate (length commands) (failed_outcome e)))
       (coordinated group_response S g (CommandGroup commands) v)"

definition read_only_reply :: resp_value where
  "read_only_reply = Error ''READONLY this instance is a read-only replica''"

text \<open>The commands of a transaction that runs without the coordinator; a write is refused.\<close>

fun run_reads :: "server_status \<Rightarrow> env \<Rightarrow> bytes list list \<Rightarrow> store \<Rightarrow> resp_value list \<times> store" where
  "run_reads S E [] st = ([], st)"
| "run_reads S E (args # commands) st =
     (case (if is_write_command (arg_at 0 args) then (read_only_reply, st) else apfst response (server_execute_command S E args st)) of
       (r, st1) \<Rightarrow> apfst ((#) r) (run_reads S E commands st1))"

definition execute_transaction :: "server_status \<Rightarrow> group_place \<Rightarrow> bytes list list \<Rightarrow> bool \<Rightarrow> server \<Rightarrow> (resp_value \<times> server) option" where
  "execute_transaction S g commands replica_mode v =
     (if \<not> list_ex (\<lambda>args. is_write_command (arg_at 0 args)) commands \<or> replica_mode
      then (case run_reads S (clock v) commands (live_data v) of (rs, st) \<Rightarrow> Some (Array rs, v\<lparr>live_data := st\<rparr>))
      else map_option (apfst (\<lambda>r. case r of Inr x \<Rightarrow> x | Inl e \<Rightarrow> Error (misconf_message ''transaction'' e)))
        (coordinated transaction_response S g (Transaction commands) v))"

section \<open>Reading and dispatching\<close>

datatype read_wait = InTime | IdleElapsed | FrameElapsed | ReadBroken

text \<open>\<open>Inl None\<close> is an error of another kind, on which the connection ends without a reply.\<close>

definition read_command_with_timeouts :: "read_wait \<Rightarrow> resp_limits \<Rightarrow> bytes list \<Rightarrow> (io_error option + bytes list option) \<times> bytes list" where
  "read_command_with_timeouts w lim chunks = (case w of
      ReadBroken \<Rightarrow> (Inl None, chunks)
    | IdleElapsed \<Rightarrow> (Inl (Some (TimedOut ''RESP client idle timeout'')), chunks)
    | FrameElapsed \<Rightarrow> if fill_buf chunks = [] then (Inr None, []) else (Inl (Some (TimedOut ''RESP frame assembly timeout'')), chunks)
    | InTime \<Rightarrow> if fill_buf chunks = [] then (Inr None, []) else apfst (map_sum Some id) (read_command_with_limits lim (fill_buf chunks)))"

record client =
  authenticated :: bool
  transaction :: "transaction_queue option"
  buffered_protocol_error :: "bytes option"
  unread :: "bytes list"
  outgoing :: bytes

definition respond :: "resp_value \<Rightarrow> client \<Rightarrow> client" where
  "respond r c = c\<lparr>outgoing := outgoing c @ encode_into r []\<rparr>"

datatype client_action =
    Answer resp_value
  | Transact "bytes list list"
  | PublishMessage
  | SubscribeTo "bytes list"
  | RefuseSync
  | SynchronizeWith
  | Execute

definition auth_credentials :: "bytes list \<Rightarrow> bytes \<times> bytes" where
  "auth_credentials args = (if 3 \<le> length args then (args ! 1, args ! 2) else (''default'', arg_at 1 args))"

definition client_action_of :: "server_config \<Rightarrow> bytes list \<Rightarrow> client \<Rightarrow> client_action \<times> client" where
  "client_action_of C args c = (let cmd = hd args in
     if cmd = ''AUTH'' then (case auth_credentials args of (username, password) \<Rightarrow>
       if \<not> auth_required C then (Answer (Error ''ERR no password configured on this server''), c)
       else if check_credentials C username password then (Answer (SimpleString ''OK''), c\<lparr>authenticated := True\<rparr>)
       else (Answer (Error ''WRONGPASS invalid username or password''), c))
     else if \<not> authenticated c then (Answer (Error ''NOAUTH authentication required. Use AUTH password''), c)
     else if cmd = ''MULTI'' then
       if transaction c \<noteq> None then (Answer (Error ''ERR MULTI calls cannot be nested''), c)
       else (Answer (SimpleString ''OK''), c\<lparr>transaction := Some transaction_queue_default\<rparr>)
     else if cmd = ''DISCARD'' then
       if transaction c \<noteq> None then (Answer (SimpleString ''OK''), c\<lparr>transaction := None\<rparr>)
       else (Answer (Error ''ERR DISCARD without an active transaction (use MULTI first)''), c)
     else if cmd = ''EXEC'' then (case transaction c of
         None \<Rightarrow> (Answer (Error ''ERR EXEC without an active transaction (use MULTI first)''), c)
       | Some q \<Rightarrow> (if queue_failed q then Answer (Error ''EXECABORT transaction discarded because its queue limit was exceeded'')
           else Transact (queued q), c\<lparr>transaction := None\<rparr>))
     else (case transaction c of
         Some q \<Rightarrow> (case enqueue args q of (r, q1) \<Rightarrow>
           (Answer (case r of Inr _ \<Rightarrow> SimpleString ''QUEUED'' | Inl m \<Rightarrow> Error m), c\<lparr>transaction := Some q1\<rparr>))
       | None \<Rightarrow>
           (if cmd = ''PUBLISH'' then PublishMessage
            else if cmd = ''SUBSCRIBE'' then SubscribeTo (tl args)
            else if cmd = ''SYNC'' then RefuseSync
            else if cmd = ''SYNC3'' then SynchronizeWith
            else Execute, c)))"

text \<open>The command name in upper case.\<close>

definition upper_name :: "bytes list \<Rightarrow> bytes list" where
  "upper_name args = (case args of [] \<Rightarrow> [] | cmd # rest \<Rightarrow> to_ascii_uppercase cmd # rest)"

text \<open>
  The write commands that are complete in the buffer follow the first one in its request. The result
  has the commands, the rest of the buffer, and the error of a malformed command.
\<close>

fun collect_writes :: "nat \<Rightarrow> bytes \<Rightarrow> bytes list list \<Rightarrow> bytes list list \<times> bytes \<times> bytes option" where
  "collect_writes 0 buffer commands = (commands, buffer, None)"
| "collect_writes (Suc n) buffer commands = (case decode_buffered_command buffer CLIENT_RESP_LIMITS of
      Inr (Some (args, consumed)) \<Rightarrow>
        if args = [] then (commands, buffer, None)
        else if \<not> is_write_command (hd (upper_name args)) then (commands, buffer, None)
        else collect_writes n (drop consumed buffer) (commands @ [upper_name args])
    | Inr None \<Rightarrow> (commands, buffer, None)
    | Inl e \<Rightarrow> (commands, buffer, Some (io_message e)))"

section \<open>The turn\<close>

text \<open>What \<open>INFO\<close> adds; \<open>peers\<close> are the values of the replica table in the order of iteration.\<close>

definition NL :: bytes where
  "NL = [CHR 0x0A]"

fun peer_lines :: "u64 \<Rightarrow> u64 \<Rightarrow> nat \<Rightarrow> replica_status list \<Rightarrow> bytes" where
  "peer_lines ts offset i [] = []"
| "peer_lines ts offset i (s # peers) = NL @ ''slave'' @ nat_to_string i @ '':addr='' @ addr s @ '',offset='' @ u64_to_string (last_ack_offset s) @
     '',lag='' @ u64_to_string (u64_saturating_sub offset (last_ack_offset s)) @
     '',last_ack_secs_ago='' @ u64_to_string (u64_saturating_sub ts (last_ack_time s)) @ peer_lines ts offset (i + 1) peers"

definition info_replication :: "u64 \<Rightarrow> u64 \<Rightarrow> replica_status list \<Rightarrow> bytes" where
  "info_replication ts offset peers = NL @ ''master_repl_offset:'' @ u64_to_string offset @ NL @ ''connected_replicas:'' @ nat_to_string (length peers) @
     NL @ ''max_replica_lag:'' @ u64_to_string (fold max (map (\<lambda>s. u64_saturating_sub offset (last_ack_offset s)) peers) 0) @
     peer_lines ts offset 0 peers"

text \<open>
  What a turn depends on beside the connection: the outcome of waiting for a command, the counters that
  \<open>INFO\<close> shows, the group of a commit, whether replies to pipelined writes can be written, the readings of
  the role, which a promotion may change during the turn, and the table of replicas.
\<close>

record turn_input =
  wait :: read_wait
  counters :: server_status
  place :: group_place
  answered :: bool
  replica_first :: bool
  replica_second :: bool
  replica_third :: bool
  peers_listed :: "replica_status list"

datatype turn_end = Continue | Closed | Published bytes bytes | Subscribing "bytes list" | Synchronizing "bytes list" | Saving | Promoting

definition buffered :: "bytes list \<Rightarrow> bytes" where
  "buffered chunks = (case chunks of [] \<Rightarrow> [] | chunk # _ \<Rightarrow> chunk)"

definition with_info :: "turn_input \<Rightarrow> bytes list \<Rightarrow> resp_value \<Rightarrow> server \<Rightarrow> resp_value" where
  "with_info i args r v = (case r of
      BulkString (Some s) \<Rightarrow>
        if hd args = ''INFO'' then BulkString (Some (s @ info_replication (now (clock v)) (repl_offset (pers v)) (peers_listed i))) else r
    | _ \<Rightarrow> r)"

definition normal_command :: "turn_input \<Rightarrow> bytes list \<Rightarrow> client \<Rightarrow> server \<Rightarrow> (turn_end \<times> client \<times> server) option" where
  "normal_command i args c v = (let cmd = hd args; S = counters i in
     if \<not> replica_first i \<and> is_write_command cmd then
       (case collect_writes (MAX_PIPELINED_COMMIT_COMMANDS - 1) (buffered (unread c)) [args] of (commands, buffer, err) \<Rightarrow>
         let c1 = c\<lparr>unread := buffer # tl (unread c), buffered_protocol_error := err\<rparr> in
         (case execute_ordered_commands S (place i) commands v of
           None \<Rightarrow> None
         | Some (outcomes, v1) \<Rightarrow>
             if answered i then Some (Continue, fold respond (map response outcomes) c1, v1) else Some (Closed, c1, v1)))
     else if cmd = ''SAVE'' then Some (Saving, c, v)
     else if replica_second i \<and> is_write_command cmd then Some (Continue, respond read_only_reply c, v)
     else if replica_third i \<and> cmd = ''REPLICAOF'' \<and> 2 < length args \<and> eq_ignore_ascii_case (args ! 1) ''no'' \<and> eq_ignore_ascii_case (args ! 2) ''one''
     then Some (Promoting, c, v)
     else (case execute_ordered_command S (place i) args v of
         None \<Rightarrow> None
       | Some (outcome, v1) \<Rightarrow> Some (Continue, respond (with_info i args (response outcome) v1) c, v1)))"

text \<open>The replies to the two commands that other components carry out.\<close>

definition save_reply :: "u64 presult \<Rightarrow> resp_value" where
  "save_reply r = (case r of Inr _ \<Rightarrow> SimpleString ''OK'' | Inl e \<Rightarrow> Error (''ERR snapshot failed: '' @ message e))"

definition promotion_reply :: "unit presult \<Rightarrow> resp_value" where
  "promotion_reply r = (case r of Inr _ \<Rightarrow> SimpleString ''OK'' | Inl e \<Rightarrow> Error (''MISCONF promotion failed: '' @ message e))"

definition perform_action :: "turn_input \<Rightarrow> bytes list \<Rightarrow> client_action \<Rightarrow> hub \<Rightarrow> client \<Rightarrow> server \<Rightarrow> (turn_end \<times> client \<times> server) option" where
  "perform_action i args a h c v = (case a of
      Answer r \<Rightarrow> Some (Continue, respond r c, v)
    | Transact commands \<Rightarrow>
        map_option (\<lambda>(r, v1). (Continue, respond r c, v1)) (execute_transaction (counters i) (place i) commands (replica_first i) v)
    | PublishMessage \<Rightarrow> (case publish args h of (r, topic, payload) \<Rightarrow> Some (Published topic payload, respond r c, v))
    | SubscribeTo channels \<Rightarrow> Some (Subscribing channels, c, v)
    | RefuseSync \<Rightarrow> Some (Closed, respond (Error ''ERR replication protocol version 3 is required; use SYNC3'') c, v)
    | SynchronizeWith \<Rightarrow> Some (Synchronizing args, c, v)
    | Execute \<Rightarrow> normal_command i args c v)"

definition protocol_error :: "bytes \<Rightarrow> resp_value" where
  "protocol_error m = Error (''ERR Protocol error: '' @ m)"

definition client_turn :: "server_config \<Rightarrow> turn_input \<Rightarrow> hub \<Rightarrow> client \<Rightarrow> server \<Rightarrow> (turn_end \<times> client \<times> server) option" where
  "client_turn C i h c v = (case buffered_protocol_error c of
      Some m \<Rightarrow> Some (Closed, respond (protocol_error m) (c\<lparr>buffered_protocol_error := None\<rparr>), v)
    | None \<Rightarrow> (case read_command_with_timeouts (wait i) CLIENT_RESP_LIMITS (unread c) of
        (Inl None, chunks) \<Rightarrow> Some (Closed, c\<lparr>unread := chunks\<rparr>, v)
      | (Inl (Some e), chunks) \<Rightarrow> Some (Closed, respond (protocol_error (io_message e)) (c\<lparr>unread := chunks\<rparr>), v)
      | (Inr None, chunks) \<Rightarrow> Some (Closed, c\<lparr>unread := chunks\<rparr>, v)
      | (Inr (Some args), chunks) \<Rightarrow>
          if args = [] then Some (Continue, c\<lparr>unread := chunks\<rparr>, v)
          else (case client_action_of C (upper_name args) (c\<lparr>unread := chunks\<rparr>) of (a, c1) \<Rightarrow> perform_action i (upper_name args) a h c1 v)))"

definition client_new :: "server_config \<Rightarrow> bytes list \<Rightarrow> client" where
  "client_new C chunks = \<lparr>authenticated = \<not> auth_required C, transaction = None, buffered_protocol_error = None, unread = chunks, outgoing = []\<rparr>"

section \<open>Turns are runs of the server\<close>

text \<open>The time passes from the request to its group, and the data of the group survives its encoding.\<close>

definition in_order :: "group_place \<Rightarrow> server \<Rightarrow> bool" where
  "in_order g v \<longleftrightarrow> sorted (now (clock v) # map fst (earlier g) @ prepared_at g # map fst (later g) @ [group_time g])"

definition sound_group :: "server \<Rightarrow> server \<Rightarrow> bool" where
  "sound_group v v' \<longleftrightarrow> segments (binlog (pers v')) = segments (binlog (pers v)) \<and>
     list_all (\<lambda>x. list_all (effect_encodable (clock v)) (effects (snd x))) (drop (length (published (pers v))) (published (pers v')))"

lemma submit_run:
  assumes "submit S g operation v = Some (r, v')" and "\<not> fail_stop_started (pers v)" and "in_order g v" and "sound_group v v'"
  shows "(server_step Z)\<^sup>*\<^sup>* v v'"
proof (cases "submit_units operation")
  case (Inl e)
  with assms(1) show ?thesis by (simp add: submit_def)
next
  case (Inr u)
  let ?requests = "earlier g @ (prepared_at g, operation) # later g"
  from Inr assms(1) obtain results st p where
    run: "process_commit_group S ((clock v)\<lparr>now := group_time g\<rparr>) (map (apfst (\<lambda>t. (clock v)\<lparr>now := t\<rparr>)) ?requests) (live_data v) (pers v) = Some (results, st, p)"
    and v': "v' = v\<lparr>clock := (clock v)\<lparr>now := group_time g\<rparr>, live_data := st, pers := p\<rparr>"
    by (auto simp: submit_def split: option.splits)
  have "sorted (now (clock v) # map fst ?requests @ [group_time g])" using assms(3) by (simp add: in_order_def)
  from server_step.commit [OF assms(2) this run, of Z] assms(4) show ?thesis by (simp add: sound_group_def v')
qed

lemma coordinated_run:
  assumes "coordinated pick S g operation v = Some (r, v')" and "\<not> fail_stop_started (pers v)" and "in_order g v" and "sound_group v v'"
  shows "(server_step Z)\<^sup>*\<^sup>* v v'"
  using assms submit_run [of S g operation v _ v' Z] by (auto simp: coordinated_def)

lemma run_reads_run:
  assumes "\<not> fail_stop_started (pers v)"
  shows "(server_step Z)\<^sup>*\<^sup>* v (v\<lparr>live_data := snd (run_reads S (clock v) commands (live_data v))\<rparr>)"
  using assms
proof (induction commands arbitrary: v)
  case (Cons args commands)
  show ?case
  proof (cases "is_write_command (arg_at 0 args)")
    case True
    with Cons show ?thesis by (simp add: case_prod_beta)
  next
    case False
    let ?v = "v\<lparr>live_data := snd (server_execute_command S (clock v) args (live_data v))\<rparr>"
    have "server_step Z v ?v" by (rule server_step.read [OF Cons.prems False])
    also have "(server_step Z)\<^sup>*\<^sup>* ?v (?v\<lparr>live_data := snd (run_reads S (clock ?v) commands (live_data ?v))\<rparr>)" by (rule Cons.IH) (use Cons.prems in simp)
    finally show ?thesis using False by (simp add: case_prod_beta)
  qed
qed simp

lemma ordered_command_run:
  assumes "execute_ordered_command S g args v = Some (out, v')" and "\<not> fail_stop_started (pers v)" and "in_order g v" and "sound_group v v'"
  shows "(server_step Z)\<^sup>*\<^sup>* v v'"
proof (cases "is_write_command (arg_at 0 args)")
  case True
  with assms coordinated_run [of command_response S g "Command args" v _ v' Z] show ?thesis by (auto simp: execute_ordered_command_def)
next
  case False
  with assms(1) server_step.read [OF assms(2) False, of Z S] show ?thesis by (auto simp: execute_ordered_command_def apsnd_def map_prod_def case_prod_beta)
qed

lemma transaction_run:
  assumes "execute_transaction S g commands mode v = Some (out, v')" and "\<not> fail_stop_started (pers v)" and "in_order g v" and "sound_group v v'"
  shows "(server_step Z)\<^sup>*\<^sup>* v v'"
  using assms run_reads_run [OF assms(2), of Z S commands] coordinated_run [of transaction_response S g "Transaction commands" v _ v' Z]
  by (auto simp: execute_transaction_def split: if_splits prod.splits)

lemma normal_run:
  assumes "normal_command i args c v = Some (x, c', v')" and "args \<noteq> []" and "\<not> fail_stop_started (pers v)" and "in_order (place i) v" and "sound_group v v'"
  shows "(server_step Z)\<^sup>*\<^sup>* v v'"
  using assms ordered_command_run [of "counters i" "place i" args v _ v' Z] coordinated_run [of group_response "counters i" "place i" _ v _ v' Z]
  by (auto simp: normal_command_def execute_ordered_commands_def Let_def split: if_splits prod.splits option.splits)

lemma action_run:
  assumes "perform_action i args a h c v = Some (x, c', v')" and "args \<noteq> []" and "\<not> fail_stop_started (pers v)" and "in_order (place i) v" and "sound_group v v'"
  shows "(server_step Z)\<^sup>*\<^sup>* v v'"
  using assms normal_run [of i args c v x c' v' Z] transaction_run [of "counters i" "place i" _ _ v _ v' Z]
  by (cases a) (auto simp: perform_action_def split: prod.splits)

lemma upper_name_simps [simp]: "args \<noteq> [] \<Longrightarrow> upper_name args \<noteq> []" "args \<noteq> [] \<Longrightarrow> hd (upper_name args) = to_ascii_uppercase (hd args)"
  "tl (upper_name args) = tl args" "length (upper_name args) = length args"
  by (cases args; simp add: upper_name_def)+

section \<open>Roles and credentials\<close>

lemma respond_simps [simp]: "authenticated (respond r c) = authenticated c" "transaction (respond r c) = transaction c"
  "unread (respond r c) = unread c" "buffered_protocol_error (respond r c) = buffered_protocol_error c"
  by (simp_all add: respond_def)

lemma turn_cases:
  assumes "client_turn C i h c v = Some (x, c', v')"
  obtains "v' = v" "x \<in> {Continue, Closed}" "authenticated c' = authenticated c" "transaction c' = transaction c"
  | args chunks a c1 where "read_command_with_timeouts (wait i) CLIENT_RESP_LIMITS (unread c) = (Inr (Some args), chunks)" "args \<noteq> []"
    "client_action_of C (upper_name args) (c\<lparr>unread := chunks\<rparr>) = (a, c1)" "perform_action i (upper_name args) a h c1 v = Some (x, c', v')"
  using assms by (auto simp: client_turn_def split: option.splits prod.splits sum.splits if_splits)

lemma action_unauthenticated:
  assumes "client_action_of C args c = (a, c1)" and "\<not> authenticated c"
  shows "(\<exists>r. a = Answer r) \<and> (authenticated c1 \<longrightarrow> hd args = ''AUTH'' \<and> (case auth_credentials args of (user, password) \<Rightarrow> check_credentials C user password))"
  using assms by (auto simp: client_action_of_def Let_def split: if_splits prod.splits)

text \<open>A session on a replica: nothing but the live entries can change, and not what they show.\<close>

lemma run_reads_agrees:
  "store_wf st \<Longrightarrow> now E \<le> now E' \<Longrightarrow> agrees E' st (snd (run_reads S E commands st)) \<and> store_wf (snd (run_reads S E commands st))"
proof (induction commands arbitrary: st)
  case (Cons args commands)
  let ?st = "snd (server_execute_command S E args st)"
  show ?case
  proof (cases "is_write_command (arg_at 0 args)")
    case True
    with Cons show ?thesis by (simp add: case_prod_beta)
  next
    case False
    with read_agrees [OF Cons.prems(1) False Cons.prems(2), of S] Cons.IH [of ?st] Cons.prems(2) show ?thesis
      by (auto simp: case_prod_beta intro: agrees_trans)
  qed
qed simp

definition on_replica :: "turn_input \<Rightarrow> bool" where
  "on_replica i \<longleftrightarrow> replica_first i \<and> replica_second i \<and> replica_third i"

definition unchanged :: "server \<Rightarrow> server \<Rightarrow> bool" where
  "unchanged v v' \<longleftrightarrow> pers v' = pers v \<and> clock v' = clock v \<and> files v' = files v \<and> store_wf (live_data v') \<and>
     (\<forall>E. now (clock v) \<le> now E \<longrightarrow> agrees E (live_data v) (live_data v'))"

lemma replica_normal:
  assumes "normal_command i args c v = Some (x, c', v')" and "args \<noteq> []" and "on_replica i" and "store_wf (live_data v)"
  shows "unchanged v v'"
proof (cases "is_write_command (hd args)")
  case True
  with assms show ?thesis by (auto simp: normal_command_def Let_def on_replica_def unchanged_def split: if_splits)
next
  case False
  then have read: "\<not> is_write_command (arg_at 0 args)" using assms(2) by (simp add: arg_or_def hd_conv_nth)
  with assms False read_agrees [OF assms(4) read] read_agrees [OF assms(4) read order_refl] show ?thesis
    by (auto simp: normal_command_def Let_def execute_ordered_command_def unchanged_def apsnd_def map_prod_def case_prod_beta split: if_splits option.splits)
qed

lemma replica_action:
  assumes "perform_action i args a h c v = Some (x, c', v')" and "args \<noteq> []" and "on_replica i" and "store_wf (live_data v)"
  shows "unchanged v v'"
proof -
  have same: "unchanged v v" using assms(4) by (simp add: unchanged_def)
  have reads: "unchanged v v1" if "execute_transaction S g commands True v = Some (r, v1)" for S g commands r v1
    using that run_reads_agrees [OF assms(4)] run_reads_agrees [OF assms(4) order_refl] by (auto simp: execute_transaction_def unchanged_def case_prod_beta)
  from assms(1) show ?thesis
    using same reads replica_normal [OF _ assms(2-4)] assms(3) by (cases a) (auto simp: perform_action_def on_replica_def split: prod.splits)
qed

section \<open>Queued transactions\<close>

fun actions :: "server_config \<Rightarrow> bytes list list \<Rightarrow> client \<Rightarrow> client_action list \<times> client" where
  "actions C [] c = ([], c)"
| "actions C (args # commands) c = (case client_action_of C args c of (a, c1) \<Rightarrow> apfst ((#) a) (actions C commands c1))"

definition queue_bytes :: "bytes list \<Rightarrow> nat" where
  "queue_bytes args = 16 + sum_list (map (\<lambda>a. length a + 16) args)"

definition fits_queue :: "bytes list list \<Rightarrow> bool" where
  "fits_queue commands \<longleftrightarrow> length commands \<le> MAX_TRANSACTION_COMMANDS \<and> sum_list (map queue_bytes commands) \<le> MAX_TRANSACTION_BYTES"

lemma actions_append: "actions C (xs @ ys) c = (case actions C xs c of (as, c1) \<Rightarrow> apfst ((@) as) (actions C ys c1))"
  by (induction xs arbitrary: c) (simp_all add: case_prod_beta apfst_def map_prod_def)

lemma command_bytes_eq:
  "0 < n \<Longrightarrow> n \<le> usize_max \<Longrightarrow> command_bytes args n = checked_add n (sum_list (map (\<lambda>a. length a + 16) args))"
proof (induction args arbitrary: n)
  case Nil
  then show ?case by (simp add: checked_add_def)
next
  case (Cons a args)
  show ?case
  proof (cases "n + (length a + 16) \<le> usize_max")
    case True
    then have "sat_add (length a) 16 = length a + 16" by (simp add: sat_add_def)
    with True Cons show ?thesis by (auto simp: checked_add_def)
  next
    case False
    then have "usize_max < n + sat_add (length a) 16" using Cons.prems by (auto simp: sat_add_def)
    with False show ?thesis by (simp add: checked_add_def)
  qed
qed

definition queue_of :: "bytes list list \<Rightarrow> transaction_queue" where
  "queue_of commands = \<lparr>queued = commands, encoded_bytes = sum_list (map queue_bytes commands), queue_failed = False\<rparr>"

lemma enqueue_queue:
  assumes "fits_queue commands"
  shows "fits_queue (commands @ [args]) \<Longrightarrow> enqueue args (queue_of commands) = (Inr (), queue_of (commands @ [args]))"
    and "\<not> fits_queue (commands @ [args]) \<Longrightarrow> \<exists>m q. enqueue args (queue_of commands) = (Inl m, q) \<and> queue_failed q"
proof -
  have size: "Option.bind (command_bytes args 16) (checked_add b) = (if b + queue_bytes args \<le> usize_max then Some (b + queue_bytes args) else None)" for b
    by (auto simp: command_bytes_eq usize_max_def checked_add_def queue_bytes_def)
  have max: "MAX_TRANSACTION_BYTES \<le> usize_max" by (simp add: MAX_TRANSACTION_BYTES_def usize_max_def)
  show "fits_queue (commands @ [args]) \<Longrightarrow> enqueue args (queue_of commands) = (Inr (), queue_of (commands @ [args]))"
    using max by (simp add: enqueue_def queue_of_def fits_queue_def size)
  show "\<not> fits_queue (commands @ [args]) \<Longrightarrow> \<exists>m q. enqueue args (queue_of commands) = (Inl m, q) \<and> queue_failed q"
    using assms by (auto simp: enqueue_def queue_of_def fits_queue_def size)
qed

definition queueable :: "bytes list \<Rightarrow> bool" where
  "queueable args \<longleftrightarrow> hd args \<notin> {''AUTH'', ''MULTI'', ''DISCARD'', ''EXEC''}"

lemma fits_prefix: "fits_queue (xs @ ys) \<Longrightarrow> fits_queue xs"
  by (simp add: fits_queue_def)

lemma queueing_action:
  "authenticated c \<Longrightarrow> transaction c = Some q \<Longrightarrow> queueable args \<Longrightarrow> client_action_of C args c =
    (Answer (case fst (enqueue args q) of Inr _ \<Rightarrow> SimpleString ''QUEUED'' | Inl m \<Rightarrow> Error m), c\<lparr>transaction := Some (snd (enqueue args q))\<rparr>)"
  by (simp add: client_action_of_def Let_def queueable_def case_prod_beta)

lemma failed_queue:
  assumes "authenticated c" and "transaction c = Some q" and "queue_failed q" and "list_all queueable commands"
  shows "\<exists>as. actions C commands c = (as, c) \<and> length as = length commands"
  using assms
proof (induction commands)
  case (Cons args commands)
  then obtain as where "actions C commands c = (as, c)" "length as = length commands" by auto
  moreover have "enqueue args q = (Inl ''ERR transaction queue is already invalid'', q)" using Cons.prems(3) by (simp add: enqueue_def)
  moreover have "c\<lparr>transaction := Some q\<rparr> = c" using Cons.prems(2) by simp
  ultimately show ?case using queueing_action [OF Cons.prems(1,2), of args C] Cons.prems(4) by simp
qed simp

lemma queue_commands:
  assumes "authenticated c" and "transaction c = Some (queue_of before)" and "fits_queue before" and "list_all queueable commands"
  shows "if fits_queue (before @ commands)
    then actions C commands c = (replicate (length commands) (Answer (SimpleString ''QUEUED'')), c\<lparr>transaction := Some (queue_of (before @ commands))\<rparr>)
    else \<exists>as q. actions C commands c = (as, c\<lparr>transaction := Some q\<rparr>) \<and> length as = length commands \<and> queue_failed q"
  using assms
proof (induction commands arbitrary: before c)
  case Nil
  then show ?case by simp
next
  case (Cons args commands)
  let ?q = "enqueue args (queue_of before)"
  let ?c = "c\<lparr>transaction := Some (snd ?q)\<rparr>"
  note one = queueing_action [OF Cons.prems(1,2), of args C]
  show ?case
  proof (cases "fits_queue (before @ [args])")
    case True
    then have q: "?q = (Inr (), queue_of (before @ [args]))" using enqueue_queue(1) [OF Cons.prems(3)] by blast
    from Cons.IH [of ?c "before @ [args]"] Cons.prems True q one show ?thesis by (fastforce split: if_splits)
  next
    case False
    then obtain m q where q: "?q = (Inl m, q)" "queue_failed q" using enqueue_queue(2) [OF Cons.prems(3)] by blast
    obtain as where "actions C commands ?c = (as, ?c)" "length as = length commands"
      using failed_queue [of ?c q commands C] Cons.prems(1,4) q by auto
    moreover have "\<not> fits_queue (before @ args # commands)" using False fits_prefix [of "before @ [args]" commands] by (simp only: append_assoc append_Cons append_Nil) blast
    ultimately show ?thesis using one Cons.prems(4) q by (auto intro!: exI [of _ q])
  qed
qed

end
