(* ===== verification/Session_Laws.thy ===== *)
theory Session_Laws
  imports Session
begin

text \<open>
  What a client can rely on: the replies of the coordinator have the form of the request, pipelined
  writes are answered one by one, no command runs before the client is authenticated, a replica takes no
  writes, and a transaction runs what was queued.
\<close>

section \<open>Replies have the form of their request\<close>

fun response_fits :: "commit_operation \<Rightarrow> commit_response \<Rightarrow> bool" where
  "response_fits (Command args) (CommandR outcome) = True"
| "response_fits (CommandGroup commands) (CommandGroupR outcomes) = (length outcomes = length commands)"
| "response_fits (Transaction commands) (TransactionR (Array results)) = (length results = length commands)"
| "response_fits (ObpSet key v) (ObpR r) = True"
| "response_fits (ObpDelete key) (ObpR r) = True"
| "response_fits _ _ = False"

lemma group_loop_fits:
  "prepare_group_loop S E commands outcomes batches rollbacks st = Some (Inr p, st') \<Longrightarrow>
    \<exists>more. pc_response p = CommandGroupR (outcomes @ more) \<and> length more = length commands"
proof (induction commands arbitrary: outcomes batches rollbacks st)
  case Nil
  then show ?case by (auto simp: without_mutation_def with_mutations_def split: if_splits)
next
  case (Cons args commands)
  then show ?case by (fastforce split: option.splits sum.splits)
qed

lemma transaction_loop_fits:
  "transaction_loop S E commands baseline changed results st = Some ((b, ch, rs), st') \<Longrightarrow> length rs = length results + length commands"
proof (induction commands arbitrary: baseline changed results st)
  case (Cons args commands)
  then show ?case by (force simp: Let_def split: if_splits prod.splits option.splits sum.splits)
qed simp

lemma prepare_fits: "prepare_request S E operation st = Some (Inr p, st') \<Longrightarrow> response_fits operation (pc_response p)"
proof (cases operation)
  case (Command args)
  assume "prepare_request S E operation st = Some (Inr p, st')"
  with Command show ?thesis
    by (auto simp: prepare_request_def prepare_command_def without_mutation_def with_mutations_def split: option.splits sum.splits)
next
  case (CommandGroup commands)
  assume "prepare_request S E operation st = Some (Inr p, st')"
  with CommandGroup group_loop_fits [of S E commands "[]" "[]" "[]" st p st'] show ?thesis by (auto simp: prepare_request_def prepare_command_group_def)
next
  case (Transaction commands)
  assume "prepare_request S E operation st = Some (Inr p, st')"
  with Transaction transaction_loop_fits [of S E commands "[]" "[]" "[]" st] show ?thesis
    by (fastforce simp: prepare_request_def prepare_transaction_def without_mutation_def with_mutations_def split: option.splits prod.splits)
next
  case (ObpSet key v)
  assume "prepare_request S E operation st = Some (Inr p, st')"
  with ObpSet show ?thesis
    by (auto simp: prepare_request_def prepare_obp_set_def without_mutation_def with_mutations_def Let_def split: option.splits prepared_mutation.splits)
next
  case (ObpDelete key)
  assume "prepare_request S E operation st = Some (Inr p, st')"
  with ObpDelete show ?thesis
    by (auto simp: prepare_request_def prepare_obp_delete_def without_mutation_def with_mutations_def Let_def split: prod.splits if_splits)
qed

lemma committed_fits: "response_fits operation r \<Longrightarrow> response_fits operation (mark_committed r)"
  by (cases "(operation, r)" rule: response_fits.cases) auto

abbreviation reply_fits :: "env \<times> commit_operation \<Rightarrow> commit_response presult \<Rightarrow> bool" where
  "reply_fits request r \<equiv> \<forall>x. r = Inr x \<longrightarrow> response_fits (snd request) x"

lemma prepare_all_fits:
  "prepare_all S requests prepared st = Some ((None, prepared'), st') \<Longrightarrow>
    \<exists>ps. prepared' = prepared @ ps \<and> list_all2 (\<lambda>x p. response_fits (snd x) (pc_response p)) requests ps"
proof (induction requests arbitrary: prepared st)
  case (Cons x requests)
  obtain E operation where x: "x = (E, operation)" by (cases x)
  with Cons.prems obtain p st1 where p: "prepare_request S E operation st = Some (Inr p, st1)" "prepare_all S requests (prepared @ [p]) st1 = Some ((None, prepared'), st')"
    by (auto split: option.splits sum.splits)
  from Cons.IH [OF p(2)] prepare_fits [OF p(1)] x show ?case by auto
qed simp

lemma complete_fits:
  assumes "list_all2 (\<lambda>x p. response_fits (snd x) (pc_response p)) requests ps"
  shows "list_all2 reply_fits requests (complete_prepared ps)"
  using assms unfolding complete_prepared_def list_all2_map2 by (rule list_all2_mono) (auto simp: committed_fits)

lemma rejected_fits: "list_all2 reply_fits requests (map (\<lambda>_. Inl e) requests)"
  by (simp add: list_all2_map2 list_all2_same)

lemma process_fits:
  assumes "process_commit_group S E requests st p = Some (results, st', p')"
  shows "list_all2 reply_fits requests results"
proof -
  have "list_all2 reply_fits requests (complete_prepared prepared)" if "prepare_all S requests [] st = Some ((None, prepared), st1)" for prepared st1
    using prepare_all_fits [OF that] complete_fits by auto
  with assms rejected_fits show ?thesis
    by (auto simp: process_commit_group_def Let_def split: if_splits option.splits prod.splits sum.splits)
qed

lemma submit_total:
  assumes "store_wf (live_data v)" and "in_order g v"
  shows "\<exists>r v'. submit S g operation v = Some (r, v') \<and> (\<forall>x. r = Inr x \<longrightarrow> response_fits operation x)"
proof (cases "submit_units operation")
  case (Inl e)
  then show ?thesis by (simp add: submit_def)
next
  case (Inr u)
  let ?E = "(clock v)\<lparr>now := group_time g\<rparr>"
  let ?requests = "map (apfst (\<lambda>t. (clock v)\<lparr>now := t\<rparr>)) (earlier g @ (prepared_at g, operation) # later g)"
  have "sorted (map (now \<circ> fst) ?requests @ [now ?E])" using assms(2) by (simp add: in_order_def comp_def)
  from process_group_spec [OF assms(1) this, of S "pers v"] obtain results st p where
    run: "process_commit_group S ?E ?requests (live_data v) (pers v) = Some (results, st, p)" by blast
  have "reply_fits (?requests ! length (earlier g)) (results ! length (earlier g))" by (rule list_all2_nthD [OF process_fits [OF run]]) simp
  moreover have "?requests ! length (earlier g) = ((clock v)\<lparr>now := prepared_at g\<rparr>, operation)" by (simp add: nth_append)
  ultimately show ?thesis using Inr run by (simp add: submit_def)
qed

section \<open>Pipelined writes\<close>

text \<open>Commands as a client may send them.\<close>

definition sent_frame :: "bytes list \<Rightarrow> bool" where
  "sent_frame args \<longleftrightarrow> args \<noteq> [] \<and> length args \<le> max_array_len CLIENT_RESP_LIMITS \<and>
     list_all (\<lambda>a. utf8_valid a \<and> length a \<le> max_bulk_len CLIENT_RESP_LIMITS) args \<and> length (resp_frame args) \<le> max_frame_len CLIENT_RESP_LIMITS"

definition sent_write :: "bytes list \<Rightarrow> bool" where
  "sent_write args \<longleftrightarrow> sent_frame args \<and> is_write_command (to_ascii_uppercase (hd args))"

lemma client_limits_ok: "limits_ok CLIENT_RESP_LIMITS"
  by (simp add: limits_ok_def CLIENT_RESP_LIMITS_def usize_max_def)

lemma decode_sent: "sent_frame args \<Longrightarrow> decode_buffered_command (resp_frame args @ rest) CLIENT_RESP_LIMITS = Inr (Some (args, length (resp_frame args)))"
  by (rule decode_resp_frame) (use client_limits_ok in \<open>simp_all add: sent_frame_def\<close>)

lemma collect_pipeline:
  assumes "list_all sent_write commands" and "length commands \<le> n" and "decode_buffered_command rest CLIENT_RESP_LIMITS = Inr None"
  shows "collect_writes n (concat (map resp_frame commands) @ rest) before = (before @ map upper_name commands, rest, None)"
  using assms
proof (induction commands arbitrary: n before)
  case Nil
  then show ?case by (cases n) simp_all
next
  case (Cons args commands)
  then obtain m where n: "n = Suc m" by (cases n) auto
  have "decode_buffered_command (resp_frame args @ (concat (map resp_frame commands) @ rest)) CLIENT_RESP_LIMITS = Inr (Some (args, length (resp_frame args)))"
    by (rule decode_sent) (use Cons.prems(1) in \<open>simp add: sent_write_def\<close>)
  with Cons n show ?case by (simp add: sent_write_def sent_frame_def)
qed

lemma group_replies:
  assumes "store_wf (live_data v)" and "in_order g v"
  shows "\<exists>r v' outcomes. submit S g (CommandGroup commands) v = Some (r, v') \<and> execute_ordered_commands S g commands v = Some (outcomes, v') \<and>
    length outcomes = length commands \<and> (case r of Inr x \<Rightarrow> x = CommandGroupR outcomes | Inl e \<Rightarrow> set outcomes \<subseteq> {failed_outcome e})"
proof -
  obtain r v' where r: "submit S g (CommandGroup commands) v = Some (r, v')" "\<forall>x. r = Inr x \<longrightarrow> response_fits (CommandGroup commands) x"
    using submit_total [OF assms] by blast
  show ?thesis
  proof (cases r)
    case (Inl e)
    with r show ?thesis by (auto simp: execute_ordered_commands_def coordinated_def)
  next
    case (Inr x)
    with r(2) obtain outcomes where "x = CommandGroupR outcomes" "length outcomes = length commands" by (cases x) auto
    with Inr r(1) show ?thesis by (auto simp: execute_ordered_commands_def coordinated_def)
  qed
qed

lemma respond_all: "fold respond rs c = c\<lparr>outgoing := outgoing c @ concat (map (\<lambda>r. encode_into r []) rs)\<rparr>"
  by (induction rs arbitrary: c) (simp_all add: respond_def)

section \<open>Properties\<close>

text \<open>
  C37. The coordinator answers every request, and in the form of the request: a command with one outcome, a
  group with one outcome for each of its commands, a transaction with one result for each of its commands, a binary
  request with a binary result. The branches of the clients for mismatched outcomes are not reached.
\<close>

theorem replies_fit_requests:
  assumes "store_wf (live_data v)" and "in_order g v"
  shows "\<exists>r v'. submit S g operation v = Some (r, v') \<and> (\<forall>x. r = Inr x \<longrightarrow> response_fits operation x)"
  using assms by (rule submit_total)

definition sample_place :: group_place where
  "sample_place = \<lparr>earlier = [(100, ObpDelete ''k'')], prepared_at = 100, later = [], group_time = 100\<rparr>"

lemma sample_in_order: "store_wf (live_data sample_server)" "in_order sample_place sample_server"
  using live_store(1) by (simp_all add: sample_server_def in_order_def sample_place_def sample_env_def)

theorem replies_fit_requests_witness:
  "\<exists>r v'. submit sample_status sample_place (CommandGroup [[''SET'', ''k'', ''v''], [''DEL'', ''k'']]) sample_server = Some (r, v') \<and>
     (\<forall>x. r = Inr x \<longrightarrow> (\<exists>a b. x = CommandGroupR [a, b]))"
proof -
  obtain r v' where r: "submit sample_status sample_place (CommandGroup [[''SET'', ''k'', ''v''], [''DEL'', ''k'']]) sample_server = Some (r, v')"
    "\<forall>x. r = Inr x \<longrightarrow> response_fits (CommandGroup [[''SET'', ''k'', ''v''], [''DEL'', ''k'']]) x"
    using replies_fit_requests [OF sample_in_order] by blast
  have "\<exists>a b. x = CommandGroupR [a, b]" if "r = Inr x" for x
    using r(2) that by (cases x) (auto simp: length_Suc_conv)
  with r(1) show ?thesis by blast
qed

text \<open>
  C38. Pipelined writes are committed together and answered one by one. When the buffer holds further
  complete write commands, the turn takes all of them, in order, into one request to the coordinator,
  leaves the rest of the buffer for the next turn, and writes exactly one reply for each command: the outcomes
  of the commands, or the same error for all of them.
\<close>

theorem pipelined_writes_answered:
  assumes role: "\<not> replica_first i" "answered i" and cmds: "list_all sent_write (args # commands)" "length commands < MAX_PIPELINED_COMMIT_COMMANDS"
    and buf: "buffered (unread c) = concat (map resp_frame commands) @ rest" "decode_buffered_command rest CLIENT_RESP_LIMITS = Inr None"
    and v: "store_wf (live_data v)" "in_order (place i) v"
  shows "\<exists>r v' replies. submit (counters i) (place i) (CommandGroup (map upper_name (args # commands))) v = Some (r, v') \<and>
    normal_command i (upper_name args) c v = Some (Continue, c\<lparr>unread := rest # tl (unread c), buffered_protocol_error := None,
      outgoing := outgoing c @ concat (map (\<lambda>r. encode_into r []) replies)\<rparr>, v') \<and> length replies = length (args # commands) \<and>
    (case r of Inr x \<Rightarrow> \<exists>outcomes. x = CommandGroupR outcomes \<and> replies = map response outcomes
      | Inl e \<Rightarrow> set replies \<subseteq> {Error (misconf_message ''mutation'' e)})"
proof -
  have collect: "collect_writes (MAX_PIPELINED_COMMIT_COMMANDS - 1) (buffered (unread c)) [upper_name args] = (map upper_name (args # commands), rest, None)"
    unfolding buf(1) by (subst collect_pipeline) (use cmds buf(2) in auto)
  from group_replies [OF v, of "counters i" "map upper_name (args # commands)"] obtain r v' outcomes where
    g: "submit (counters i) (place i) (CommandGroup (map upper_name (args # commands))) v = Some (r, v')"
      "execute_ordered_commands (counters i) (place i) (map upper_name (args # commands)) v = Some (outcomes, v')"
      "length outcomes = length (map upper_name (args # commands))"
      "case r of Inr x \<Rightarrow> x = CommandGroupR outcomes | Inl e \<Rightarrow> set outcomes \<subseteq> {failed_outcome e}" by blast
  have "is_write_command (hd (upper_name args))" using cmds(1) by (simp add: sent_write_def sent_frame_def)
  then have "normal_command i (upper_name args) c v = Some (Continue, fold respond (map response outcomes) (c\<lparr>unread := rest # tl (unread c), buffered_protocol_error := None\<rparr>), v')"
    using role g(2) unfolding normal_command_def Let_def collect prod.case by simp
  then have "normal_command i (upper_name args) c v = Some (Continue, c\<lparr>unread := rest # tl (unread c), buffered_protocol_error := None,
      outgoing := outgoing c @ concat (map (\<lambda>r. encode_into r []) (map response outcomes))\<rparr>, v')" by (simp add: respond_all)
  moreover have "case r of Inr x \<Rightarrow> \<exists>os. x = CommandGroupR os \<and> map response outcomes = map response os
      | Inl e \<Rightarrow> set (map response outcomes) \<subseteq> {Error (misconf_message ''mutation'' e)}"
    using g(4) by (cases r) (auto simp: failed_outcome_def)
  ultimately show ?thesis using g(1,3) by (intro exI [of _ r] exI [of _ v'] exI [of _ "map response outcomes"]) simp
qed

definition sample_input :: turn_input where
  "sample_input = \<lparr>wait = InTime, counters = sample_status, place = sample_place, answered = True,
     replica_first = False, replica_second = False, replica_third = False, peers_listed = []\<rparr>"

definition sample_client :: "bytes list \<Rightarrow> client" where
  "sample_client chunks = \<lparr>authenticated = True, transaction = None, buffered_protocol_error = None, unread = chunks, outgoing = []\<rparr>"

lemma sample_frame: "sent_frame [''SET'', ''k'', ''v'']" "sent_frame [''DEL'', ''k'']" "sent_frame [''GET'', ''k'']"
proof -
  have digits: "nat_to_string 1 = ''1''" "nat_to_string 2 = ''2''" "nat_to_string 3 = ''3''" by code_simp+
  have n: "length [''SET'', ''k'', ''v''] = 3" "length [''DEL'', ''k''] = 2" "length [''GET'', ''k''] = 2" "length ''SET'' = 3" "length ''DEL'' = 3"
    "length ''GET'' = 3" "length ''k'' = 1" "length ''v'' = 1" by simp_all
  have "length (resp_frame [''SET'', ''k'', ''v'']) < 100" "length (resp_frame [''DEL'', ''k'']) < 100" "length (resp_frame [''GET'', ''k'']) < 100"
    unfolding resp_frame_def header_def bulk_def list.map n digits by (simp_all add: CRLF_def)
  then show "sent_frame [''SET'', ''k'', ''v'']" "sent_frame [''DEL'', ''k'']" "sent_frame [''GET'', ''k'']"
    by (simp_all add: sent_frame_def CLIENT_RESP_LIMITS_def)
qed

lemma sample_upper: "upper_name [''SET'', ''k'', ''v''] = [''SET'', ''k'', ''v'']" "upper_name [''DEL'', ''k''] = [''DEL'', ''k'']"
  "upper_name [''GET'', ''k''] = [''GET'', ''k'']" by code_simp+

lemma sample_writes: "list_all sent_write [[''SET'', ''k'', ''v''], [''DEL'', ''k'']]"
  using sample_frame sample_upper by (simp add: sent_write_def upper_name_def is_write_command_def write_commands_def)

theorem pipelined_writes_answered_witness:
  "\<exists>v' replies. normal_command sample_input [''SET'', ''k'', ''v''] (sample_client [resp_frame [''DEL'', ''k'']]) sample_server =
      Some (Continue, sample_client [[]]\<lparr>outgoing := concat (map (\<lambda>r. encode_into r []) replies)\<rparr>, v') \<and> length replies = 2"
proof -
  let ?c = "sample_client [resp_frame [''DEL'', ''k'']]"
  have s: "\<not> replica_first sample_input" "answered sample_input" "in_order (place sample_input) sample_server"
    using sample_in_order(2) by (simp_all add: sample_input_def)
  have b: "buffered (unread ?c) = concat (map resp_frame [[''DEL'', ''k'']]) @ []" "decode_buffered_command [] CLIENT_RESP_LIMITS = Inr None"
    "length [[''DEL'', ''k'']] < MAX_PIPELINED_COMMIT_COMMANDS"
    by (simp_all add: sample_client_def buffered_def decode_buffered_command_def position_newline_def MAX_PIPELINED_COMMIT_COMMANDS_def)
  from sample_upper(1) pipelined_writes_answered [OF s(1,2) sample_writes b(3) b(1,2) sample_in_order(1) s(3)]
  obtain v' replies where "normal_command sample_input [''SET'', ''k'', ''v''] ?c sample_server = Some (Continue, ?c\<lparr>unread := [] # tl (unread ?c),
      buffered_protocol_error := None, outgoing := outgoing ?c @ concat (map (\<lambda>r. encode_into r []) replies)\<rparr>, v')" "length replies = 2" by auto
  then show ?thesis by (intro exI [of _ v'] exI [of _ replies]) (simp add: sample_client_def)
qed

text \<open>
  C35. No command runs before the client is authenticated. On a server with users, a turn of a session
  that is not authenticated changes nothing of the server and does not leave for a subscription or a
  replication stream; it authenticates the session only when the command was \<open>AUTH\<close> with the credentials
  of a user.
\<close>

theorem unauthenticated_inert:
  assumes "\<not> authenticated c" and "client_turn C i h c v = Some (x, c', v')"
  shows "v' = v \<and> x \<in> {Continue, Closed} \<and> (authenticated c' \<longrightarrow>
    (\<exists>args chunks user password. read_command_with_timeouts (wait i) CLIENT_RESP_LIMITS (unread c) = (Inr (Some args), chunks) \<and>
      to_ascii_uppercase (hd args) = ''AUTH'' \<and> auth_credentials args = (user, password) \<and> check_credentials C user password))"
  using assms(2)
proof (cases rule: turn_cases)
  case 1
  with assms(1) show ?thesis by simp
next
  case (2 args chunks a c1)
  note a = action_unauthenticated [OF 2(3)]
  obtain r where r: "a = Answer r" using a assms(1) by auto
  have "authenticated c' = authenticated c1" "v' = v" "x = Continue" using 2(4) by (auto simp: r perform_action_def)
  moreover have "auth_credentials (upper_name args) = auth_credentials args" by (cases args) (simp_all add: auth_credentials_def upper_name_def arg_or_def nth_Cons')
  ultimately show ?thesis using a assms(1) 2(1,2) by (auto split: prod.splits)
qed

lemma frame_read:
  assumes "sent_frame args" and "concat chunks = resp_frame args @ rest"
  shows "\<exists>c. read_command_with_timeouts InTime CLIENT_RESP_LIMITS chunks = (Inr (Some args), c) \<and> concat c = rest"
proof -
  have full: "concat (fill_buf chunks) = concat chunks" by (induction chunks rule: fill_buf.induct) simp_all
  have ne: "fill_buf chunks \<noteq> []"
  proof
    assume "fill_buf chunks = []"
    then have "concat chunks = []" using full by simp
    with assms(2) show False by (simp add: resp_frame_def header_def)
  qed
  from readers_agree [OF client_limits_ok, of "fill_buf chunks"] decode_sent [OF assms(1), of rest] full assms(2) ne show ?thesis
    by (cases "read_command_with_limits CLIENT_RESP_LIMITS (fill_buf chunks)") (auto simp: read_command_with_timeouts_def)
qed

definition guarded_config :: server_config where
  "guarded_config = \<lparr>config_master_addr = None, config_upstream = None, config_users = [(''default'', ''secret'')], config_fsync = FsyncAlways,
     config_maxmemory = 0, config_policy = NoEviction, config_auto_failover = False, config_failover_timeout = 30, config_bind = V4 [127, 0, 0, 1],
     config_directory = ''.'', config_port = 6380, config_warnings = []\<rparr>"

theorem unauthenticated_inert_witness:
  "\<exists>x c'. client_turn guarded_config sample_input (hub_of pubsub_new) (client_new guarded_config [resp_frame [''DEL'', ''k'']]) sample_server =
     Some (x, c', sample_server) \<and> \<not> authenticated c' \<and> outgoing c' \<noteq> []"
proof -
  let ?c = "client_new guarded_config [resp_frame [''DEL'', ''k'']]"
  have c: "\<not> authenticated ?c" "buffered_protocol_error ?c = None" "unread ?c = [resp_frame [''DEL'', ''k'']]"
    by (simp_all add: client_new_def guarded_config_def auth_required_def)
  obtain chunks where r: "read_command_with_timeouts InTime CLIENT_RESP_LIMITS [resp_frame [''DEL'', ''k'']] = (Inr (Some [''DEL'', ''k'']), chunks)"
    using frame_read [OF sample_frame(2), of "[resp_frame [''DEL'', ''k'']]" "[]"] by auto
  let ?r = "Error ''NOAUTH authentication required. Use AUTH password''"
  have turn: "client_turn guarded_config sample_input (hub_of pubsub_new) ?c sample_server = Some (Continue, respond ?r (?c\<lparr>unread := chunks\<rparr>), sample_server)"
    using c r by (simp add: client_turn_def sample_input_def sample_upper client_action_of_def perform_action_def)
  from unauthenticated_inert [OF c(1) turn] c(1) r have "\<not> authenticated (respond ?r (?c\<lparr>unread := chunks\<rparr>))" by simp
  then show ?thesis using turn by (auto simp: respond_def)
qed


definition replica_input :: turn_input where
  "replica_input = sample_input\<lparr>replica_first := True, replica_second := True, replica_third := True\<rparr>"

lemma sample_turn:
  assumes "wait i = InTime" and "sent_frame args" and "upper_name args = args"
  obtains chunks where "client_turn C i h (sample_client [resp_frame args]) v =
    (case client_action_of C args (sample_client chunks) of (a, c1) \<Rightarrow> perform_action i args a h c1 v)"
proof -
  obtain chunks where r: "read_command_with_timeouts InTime CLIENT_RESP_LIMITS [resp_frame args] = (Inr (Some args), chunks)"
    using frame_read [OF assms(2), of "[resp_frame args]" "[]"] by auto
  have "args \<noteq> []" using assms(2) by (simp add: sent_frame_def)
  with r show thesis by (intro that [of chunks]) (simp add: client_turn_def assms sample_client_def)
qed


text \<open>
  C39. A transaction runs exactly what was queued. The commands a client sends after \<open>MULTI\<close> are
  queued and not run; \<open>EXEC\<close> runs them all in their order, as one request, when their number and
  their size are within the limits, and otherwise runs none of them. Either way the session has no
  transaction afterwards.
\<close>

theorem transaction_runs_queue:
  assumes "authenticated c" and "transaction c = None" and "list_all queueable commands"
  shows "if fits_queue commands
    then actions C ([''MULTI''] # commands @ [[''EXEC'']]) c =
      (Answer (SimpleString ''OK'') # replicate (length commands) (Answer (SimpleString ''QUEUED'')) @ [Transact commands], c)
    else \<exists>replies. actions C ([''MULTI''] # commands @ [[''EXEC'']]) c =
      (Answer (SimpleString ''OK'') # replies @ [Answer (Error ''EXECABORT transaction discarded because its queue limit was exceeded'')], c) \<and>
      length replies = length commands"
proof -
  let ?c = "c\<lparr>transaction := Some (queue_of [])\<rparr>"
  have multi: "client_action_of C [''MULTI''] c = (Answer (SimpleString ''OK''), ?c)"
    using assms(1,2) by (simp add: client_action_of_def transaction_queue_default_def queue_of_def)
  have exec: "client_action_of C [''EXEC''] (c\<lparr>transaction := Some q\<rparr>) =
      (if queue_failed q then Answer (Error ''EXECABORT transaction discarded because its queue limit was exceeded'') else Transact (queued q), c)" for q
    using assms(1,2) by (simp add: client_action_of_def)
  have c: "authenticated ?c" "transaction ?c = Some (queue_of [])" "fits_queue []" using assms(1) by (simp_all add: fits_queue_def)
  note q = queue_commands [OF c assms(3), of C, unfolded append_Nil]
  show ?thesis
  proof (cases "fits_queue commands")
    case True
    with q have "actions C commands ?c = (replicate (length commands) (Answer (SimpleString ''QUEUED'')), c\<lparr>transaction := Some (queue_of commands)\<rparr>)" by simp
    with True multi exec show ?thesis by (simp add: actions_append queue_of_def)
  next
    case False
    with q obtain as q' where "actions C commands ?c = (as, c\<lparr>transaction := Some q'\<rparr>)" "length as = length commands" "queue_failed q'" by auto
    with False multi exec show ?thesis by (simp add: actions_append)
  qed
qed

theorem transaction_runs_queue_witness:
  "actions guarded_config [[''MULTI''], [''SET'', ''k'', ''v''], [''GET'', ''k''], [''EXEC'']] (sample_client []) =
     ([Answer (SimpleString ''OK''), Answer (SimpleString ''QUEUED''), Answer (SimpleString ''QUEUED''), Transact [[''SET'', ''k'', ''v''], [''GET'', ''k'']]],
      sample_client [])"
proof -
  have c: "authenticated (sample_client [])" "transaction (sample_client []) = None" "list_all queueable [[''SET'', ''k'', ''v''], [''GET'', ''k'']]"
    by (simp_all add: sample_client_def queueable_def)
  have "fits_queue [[''SET'', ''k'', ''v''], [''GET'', ''k'']]"
    by (simp add: fits_queue_def queue_bytes_def MAX_TRANSACTION_COMMANDS_def MAX_TRANSACTION_BYTES_def)
  with transaction_runs_queue [OF c, of guarded_config] show ?thesis by (simp add: numeral_2_eq_2)
qed



end
