(* ===== verification/Obp.thy ===== *)
theory Obp
  imports Codec
begin

text \<open>
  \<open>src/protocol.rs\<close>: frames of the binary protocol OBP. A frame is a fixed header of 11 bytes,
  length-prefixed arguments and a length-prefixed payload. The decoder works on a connection
  buffer that may hold an incomplete frame, and removes a frame from it only when it is complete.
\<close>

section \<open>Frames and errors\<close>

definition OBP_MAGIC :: byte where "OBP_MAGIC = CHR 0x4F"

definition OBP_VERSION :: byte where "OBP_VERSION = CHR 0x01"

definition MAX_OBP_ARGUMENTS :: nat where "MAX_OBP_ARGUMENTS = 1024"

definition MAX_OBP_ARGUMENT_SIZE :: nat where "MAX_OBP_ARGUMENT_SIZE = 512 * 1024"

definition MAX_OBP_PAYLOAD_SIZE :: nat where "MAX_OBP_PAYLOAD_SIZE = 512 * 1024"

definition MAX_OBP_FRAME_SIZE :: nat where "MAX_OBP_FRAME_SIZE = 1024 * 1024"

definition OBP_FIXED_HEADER_SIZE :: nat where "OBP_FIXED_HEADER_SIZE = 11"

definition OBP_PAYLOAD_LENGTH_SIZE :: nat where "OBP_PAYLOAD_LENGTH_SIZE = 4"

datatype obp_error =
    InvalidMagic
  | UnsupportedVersion byte
  | TooManyArguments nat
  | ArgumentTooLarge nat
  | PayloadTooLarge nat
  | FrameTooLarge
  | LengthOverflow

fun obp_error_text :: "obp_error \<Rightarrow> bytes" where
  "obp_error_text InvalidMagic = ''Invalid OBP magic byte''"
| "obp_error_text (UnsupportedVersion version) = ''Unsupported OBP version: '' @ nat_to_string (of_char version)"
| "obp_error_text (TooManyArguments count) = ''OBP argument count exceeds the protocol limit: '' @ nat_to_string count"
| "obp_error_text (ArgumentTooLarge len) = ''OBP argument exceeds the protocol limit: '' @ nat_to_string len"
| "obp_error_text (PayloadTooLarge len) = ''OBP payload exceeds the protocol limit: '' @ nat_to_string len"
| "obp_error_text FrameTooLarge = ''OBP frame exceeds the protocol limit''"
| "obp_error_text LengthOverflow = ''OBP frame length overflow''"

record obp_frame =
  frame_cmd :: byte
  frame_flags :: u16
  correlation_id :: u32
  frame_args :: "bytes list"
  frame_payload :: "bytes option"

definition or_overflow :: "'a option \<Rightarrow> obp_error + 'a" where
  "or_overflow r = (case r of None \<Rightarrow> Inl LengthOverflow | Some a \<Rightarrow> Inr a)"

lemma or_overflow_simps [simp]: "or_overflow None = Inl LengthOverflow" "or_overflow (Some a) = Inr a"
  by (simp_all add: or_overflow_def)

lemma or_overflow_Inr: "or_overflow r = Inr a \<longleftrightarrow> r = Some a"
  by (cases r) simp_all

definition put_u16 :: "u16 \<Rightarrow> bytes" where
  "put_u16 v = [byte_of (drop_bit 8 v), byte_of v]"

definition u16_from_be_bytes :: "byte \<Rightarrow> byte \<Rightarrow> u16" where
  "u16_from_be_bytes b0 b1 = push_bit 8 (word_of_byte b0) OR word_of_byte b1"

section \<open>Encoding\<close>

fun obp_args_size :: "bytes list \<Rightarrow> nat \<Rightarrow> obp_error + nat" where
  "obp_args_size [] frame_size = Inr frame_size"
| "obp_args_size (argument # arguments) frame_size =
     (if MAX_OBP_ARGUMENT_SIZE < length argument then Inl (ArgumentTooLarge (length argument))
      else and_then (or_overflow (Option.bind (checked_add frame_size 4) (\<lambda>size. checked_add size (length argument))))
        (obp_args_size arguments))"

definition payload_bytes :: "obp_frame \<Rightarrow> bytes" where
  "payload_bytes f = (case frame_payload f of None \<Rightarrow> [] | Some p \<Rightarrow> p)"

definition obp_fixed :: "obp_frame \<Rightarrow> bytes" where
  "obp_fixed f = [OBP_MAGIC, OBP_VERSION, frame_cmd f] @ put_u16 (frame_flags f) @ write_u32_be (correlation_id f) @
     put_u16 (word_of_nat (length (frame_args f)))"

definition obp_encode :: "obp_frame \<Rightarrow> bytes \<Rightarrow> obp_error + bytes" where
  "obp_encode f buf =
     (if MAX_OBP_ARGUMENTS < length (frame_args f) then Inl (TooManyArguments (length (frame_args f)))
      else and_then (or_overflow (checked_add OBP_FIXED_HEADER_SIZE OBP_PAYLOAD_LENGTH_SIZE)) (\<lambda>size.
        and_then (obp_args_size (frame_args f) size) (\<lambda>size.
          let payload_length = length (payload_bytes f) in
          if MAX_OBP_PAYLOAD_SIZE < payload_length then Inl (PayloadTooLarge payload_length)
          else and_then (or_overflow (checked_add size payload_length)) (\<lambda>size.
            if MAX_OBP_FRAME_SIZE < size then Inl FrameTooLarge
            else Inr (buf @ obp_fixed f @ concat (map frame (frame_args f)) @ write_u32_be (word_of_nat payload_length) @
                      payload_bytes f)))))"

section \<open>Decoding\<close>

fun validate_args :: "bytes \<Rightarrow> nat \<Rightarrow> nat \<Rightarrow> obp_error + nat option" where
  "validate_args buf 0 offset = Inr (Some offset)"
| "validate_args buf (Suc n) offset =
     and_then (or_overflow (checked_add offset 4)) (\<lambda>length_end.
       if length buf < length_end then Inr None
       else and_then (or_overflow (map_option fst (read_u32_be (drop offset buf)))) (\<lambda>w.
         let argument_length = unat w in
         if MAX_OBP_ARGUMENT_SIZE < argument_length then Inl (ArgumentTooLarge argument_length)
         else and_then (or_overflow (checked_add length_end argument_length)) (\<lambda>argument_end.
           if MAX_OBP_FRAME_SIZE < argument_end then Inl FrameTooLarge
           else if length buf < argument_end then Inr None
           else validate_args buf n argument_end)))"

fun collect_args :: "bytes \<Rightarrow> nat \<Rightarrow> nat \<Rightarrow> obp_error + bytes list" where
  "collect_args buf 0 argument_offset = Inr []"
| "collect_args buf (Suc n) argument_offset = (let length_end = argument_offset + 4 in
     and_then (or_overflow (map_option fst (read_u32_be (drop argument_offset buf)))) (\<lambda>w.
       let argument_end = length_end + unat w in
       and_then (collect_args buf n argument_end) (\<lambda>args. Inr (take (unat w) (drop length_end buf) # args))))"

definition decode_payload_end :: "bytes \<Rightarrow> nat \<Rightarrow> obp_error + (nat \<times> nat) option" where
  "decode_payload_end buf offset =
     and_then (or_overflow (checked_add offset OBP_PAYLOAD_LENGTH_SIZE)) (\<lambda>payload_length_end.
       if length buf < payload_length_end then Inr None
       else and_then (or_overflow (map_option fst (read_u32_be (drop offset buf)))) (\<lambda>w.
         let payload_length = unat w in
         if MAX_OBP_PAYLOAD_SIZE < payload_length then Inl (PayloadTooLarge payload_length)
         else and_then (or_overflow (checked_add payload_length_end payload_length)) (\<lambda>frame_end.
           if MAX_OBP_FRAME_SIZE < frame_end then Inl FrameTooLarge
           else if length buf < frame_end then Inr None
           else Inr (Some (payload_length_end, payload_length)))))"

definition obp_decode :: "bytes \<Rightarrow> (obp_error + obp_frame option) \<times> bytes" where
  "obp_decode buf =
     (if buf \<noteq> [] \<and> hd buf \<noteq> OBP_MAGIC then (Inl InvalidMagic, buf)
      else if 1 < length buf \<and> buf ! 1 \<noteq> OBP_VERSION then (Inl (UnsupportedVersion (buf ! 1)), buf)
      else if length buf < OBP_FIXED_HEADER_SIZE then (Inr None, buf)
      else let cmd = buf ! 2; flags = u16_from_be_bytes (buf ! 3) (buf ! 4);
               correlation = (case read_u32_be (drop 5 buf) of Some (w, _) \<Rightarrow> w | None \<Rightarrow> 0);
               argument_count = unat (u16_from_be_bytes (buf ! 9) (buf ! 10)) in
        if MAX_OBP_ARGUMENTS < argument_count then (Inl (TooManyArguments argument_count), buf)
        else (case validate_args buf argument_count OBP_FIXED_HEADER_SIZE of
            Inl err \<Rightarrow> (Inl err, buf)
          | Inr None \<Rightarrow> (Inr None, buf)
          | Inr (Some offset) \<Rightarrow> (case decode_payload_end buf offset of
              Inl err \<Rightarrow> (Inl err, buf)
            | Inr None \<Rightarrow> (Inr None, buf)
            | Inr (Some (payload_length_end, payload_length)) \<Rightarrow>
                (case collect_args buf argument_count OBP_FIXED_HEADER_SIZE of
                  Inl err \<Rightarrow> (Inl err, buf)
                | Inr args \<Rightarrow>
                    (Inr (Some \<lparr>frame_cmd = cmd, frame_flags = flags, correlation_id = correlation, frame_args = args,
                        frame_payload = (if 0 < payload_length then Some (take payload_length (drop payload_length_end buf)) else None)\<rparr>),
                     drop (payload_length_end + payload_length) buf)))))"

section \<open>Round trip\<close>

lemma u16_bytes: "u16_from_be_bytes (byte_of (drop_bit 8 w)) (byte_of (w :: u16)) = w"
proof (rule bit_eqI)
  fix n :: nat assume "possible_bit TYPE(u16) n"
  then have "n < 16" by simp
  then consider "n < 8" | "8 \<le> n" "n < 16" by linarith
  then show "bit (u16_from_be_bytes (byte_of (drop_bit 8 w)) (byte_of w)) n = bit w n"
    by cases (simp_all add: u16_from_be_bytes_def bit_or_iff bit_push_bit_iff bit_word_of_byte bit_drop_bit_eq less_diff_conv2)
qed

lemma frame_u32: "length a < 2 ^ 32 \<Longrightarrow> read_u32_be (frame a @ s) = Some (word_of_nat (length a), a @ s)"
  by (simp add: frame_def u32_bytes)

lemma validate_step:
  assumes "length a \<le> MAX_OBP_ARGUMENT_SIZE" and "length (pre @ frame a) \<le> MAX_OBP_FRAME_SIZE"
  shows "validate_args (pre @ frame a @ s) (Suc n) (length pre) = validate_args (pre @ frame a @ s) n (length (pre @ frame a))"
    and "collect_args (pre @ frame a @ s) (Suc n) (length pre) =
      and_then (collect_args (pre @ frame a @ s) n (length (pre @ frame a))) (\<lambda>args. Inr (a # args))"
proof -
  let ?buf = "pre @ frame a @ s"
  have small: "length a < 2 ^ 32" using assms(1) by (simp add: MAX_OBP_ARGUMENT_SIZE_def)
  have len: "length (pre @ frame a) = length pre + 4 + length a" by (simp add: frame_length)
  have read: "read_u32_be (drop (length pre) ?buf) = Some (word_of_nat (length a), a @ s)"
    using frame_u32 [OF small, of s] by simp
  have d: "drop (length pre + 4) ?buf = a @ s" by (simp add: frame_def)
  have add: "checked_add (length pre) 4 = Some (length pre + 4)"
    "checked_add (length pre + 4) (length a) = Some (length pre + 4 + length a)"
    using assms(2) by (simp_all add: frame_length checked_add_def usize_max_def MAX_OBP_FRAME_SIZE_def)
  show "validate_args ?buf (Suc n) (length pre) = validate_args ?buf n (length (pre @ frame a))"
    using assms unfolding validate_args.simps read add
    by (simp add: unat_u32 [OF small] add Let_def frame_length add.assoc)
  show "collect_args ?buf (Suc n) (length pre) =
      and_then (collect_args ?buf n (length (pre @ frame a))) (\<lambda>args. Inr (a # args))"
    unfolding collect_args.simps read Let_def by (simp add: unat_u32 [OF small] frame_length d add.assoc del: drop_append)
qed

lemma validate_short:
  assumes "length a \<le> MAX_OBP_ARGUMENT_SIZE" and "length (pre @ frame a) \<le> MAX_OBP_FRAME_SIZE"
    and "s @ t = frame a" and "t \<noteq> []"
  shows "validate_args (pre @ s) (Suc n) (length pre) = Inr None"
proof -
  have small: "length a < 2 ^ 32" using assms(1) by (simp add: MAX_OBP_ARGUMENT_SIZE_def)
  have len: "length (pre @ frame a) = length pre + 4 + length a" by (simp add: frame_length)
  have add: "checked_add (length pre) 4 = Some (length pre + 4)"
    "checked_add (length pre + 4) (length a) = Some (length pre + 4 + length a)"
    using assms(2) by (simp_all add: frame_length checked_add_def usize_max_def MAX_OBP_FRAME_SIZE_def)
  have "0 < length t" using assms(4) by simp
  moreover have "length s + length t = 4 + length a" using arg_cong [OF assms(3), of length] by (simp add: frame_length)
  ultimately have short: "length s < 4 + length a" by linarith
  show ?thesis
  proof (cases "length s < 4")
    case False
    then have "\<not> length s < length (write_u32_be (word_of_nat (length a)))" by simp
    then obtain s' where "s = write_u32_be (word_of_nat (length a)) @ s'"
      using split_long [of s t "write_u32_be (word_of_nat (length a))" a] assms(3) by (auto simp: frame_def)
    then have "read_u32_be (drop (length pre) (pre @ s)) = Some (word_of_nat (length a), s')" by (simp add: u32_bytes)
    with assms(1,2) short False show ?thesis
      unfolding validate_args.simps by (simp add: add unat_u32 [OF small] len frame_length)
  qed (simp add: add)
qed

lemma validate_all:
  "list_all (\<lambda>a. length a \<le> MAX_OBP_ARGUMENT_SIZE) args \<Longrightarrow> length (pre @ concat (map frame args)) \<le> MAX_OBP_FRAME_SIZE \<Longrightarrow>
    validate_args (pre @ concat (map frame args) @ s) (length args) (length pre) = Inr (Some (length (pre @ concat (map frame args)))) \<and>
    collect_args (pre @ concat (map frame args) @ s) (length args) (length pre) = Inr args"
proof (induction args arbitrary: pre)
  case (Cons a args)
  have "length a \<le> MAX_OBP_ARGUMENT_SIZE" "length (pre @ frame a) \<le> MAX_OBP_FRAME_SIZE" using Cons.prems by auto
  note step = validate_step [OF this, of "concat (map frame args) @ s" "length args"]
  from Cons.IH [of "pre @ frame a"] Cons.prems step show ?case
    by (simp del: validate_args.simps collect_args.simps)
qed simp

lemma validate_cut:
  "list_all (\<lambda>a. length a \<le> MAX_OBP_ARGUMENT_SIZE) args \<Longrightarrow> length (pre @ concat (map frame args)) \<le> MAX_OBP_FRAME_SIZE \<Longrightarrow>
    s @ t = concat (map frame args) \<Longrightarrow> t \<noteq> [] \<Longrightarrow> validate_args (pre @ s) (length args) (length pre) = Inr None"
proof (induction args arbitrary: pre s)
  case (Cons a args)
  have a: "length a \<le> MAX_OBP_ARGUMENT_SIZE" "length (pre @ frame a) \<le> MAX_OBP_FRAME_SIZE" using Cons.prems by auto
  have st: "s @ t = frame a @ concat (map frame args)" using Cons.prems(3) by simp
  show ?case
  proof (cases "length s < length (frame a)")
    case True
    from split_short [OF st this] obtain t' where "s @ t' = frame a" "t' \<noteq> []" by auto
    from validate_short [OF a this] show ?thesis by (simp del: validate_args.simps)
  next
    case False
    from split_long [OF st False] obtain s' where s': "s = frame a @ s'" "s' @ t = concat (map frame args)" by auto
    from Cons.IH [of "pre @ frame a" s'] Cons.prems s' validate_step(1) [OF a, of s' "length args"] show ?thesis
      by (simp del: validate_args.simps)
  qed
qed simp

lemma payload_end_full:
  assumes "length p \<le> MAX_OBP_PAYLOAD_SIZE" and "length (pre @ frame p) \<le> MAX_OBP_FRAME_SIZE"
  shows "decode_payload_end (pre @ frame p @ s) (length pre) = Inr (Some (length pre + 4, length p))"
proof -
  have small: "length p < 2 ^ 32" using assms(1) by (simp add: MAX_OBP_PAYLOAD_SIZE_def)
  have read: "read_u32_be (drop (length pre) (pre @ frame p @ s)) = Some (word_of_nat (length p), p @ s)"
    using frame_u32 [OF small, of s] by simp
  have add: "checked_add (length pre) 4 = Some (length pre + 4)"
    "checked_add (length pre + 4) (length p) = Some (length pre + 4 + length p)"
    using assms(2) by (simp_all add: frame_length checked_add_def usize_max_def MAX_OBP_FRAME_SIZE_def)
  show ?thesis
    using assms unfolding decode_payload_end_def OBP_PAYLOAD_LENGTH_SIZE_def read add
    by (simp add: unat_u32 [OF small] add frame_length)
qed

lemma payload_end_short:
  assumes "length p \<le> MAX_OBP_PAYLOAD_SIZE" and "length (pre @ frame p) \<le> MAX_OBP_FRAME_SIZE"
    and "s @ t = frame p" and "t \<noteq> []"
  shows "decode_payload_end (pre @ s) (length pre) = Inr None"
proof -
  have small: "length p < 2 ^ 32" using assms(1) by (simp add: MAX_OBP_PAYLOAD_SIZE_def)
  have add: "checked_add (length pre) 4 = Some (length pre + 4)"
    "checked_add (length pre + 4) (length p) = Some (length pre + 4 + length p)"
    using assms(2) by (simp_all add: frame_length checked_add_def usize_max_def MAX_OBP_FRAME_SIZE_def)
  have "0 < length t" using assms(4) by simp
  moreover have "length s + length t = 4 + length p" using arg_cong [OF assms(3), of length] by (simp add: frame_length)
  ultimately have short: "length s < 4 + length p" by linarith
  show ?thesis
  proof (cases "length s < 4")
    case False
    then have "\<not> length s < length (write_u32_be (word_of_nat (length p)))" by simp
    then obtain s' where "s = write_u32_be (word_of_nat (length p)) @ s'"
      using split_long [of s t "write_u32_be (word_of_nat (length p))" p] assms(3) by (auto simp: frame_def)
    then have "read_u32_be (drop (length pre) (pre @ s)) = Some (word_of_nat (length p), s')" by (simp add: u32_bytes)
    with assms(1,2) short False show ?thesis
      unfolding decode_payload_end_def OBP_PAYLOAD_LENGTH_SIZE_def by (simp add: add unat_u32 [OF small] frame_length)
  qed (simp add: add decode_payload_end_def OBP_PAYLOAD_LENGTH_SIZE_def)
qed

definition obp_bytes :: "obp_frame \<Rightarrow> bytes" where
  "obp_bytes f = obp_fixed f @ concat (map frame (frame_args f)) @ frame (payload_bytes f)"

definition obp_ok :: "obp_frame \<Rightarrow> bool" where
  "obp_ok f \<longleftrightarrow> length (frame_args f) \<le> MAX_OBP_ARGUMENTS \<and> list_all (\<lambda>a. length a \<le> MAX_OBP_ARGUMENT_SIZE) (frame_args f) \<and>
     length (payload_bytes f) \<le> MAX_OBP_PAYLOAD_SIZE \<and> length (obp_bytes f) \<le> MAX_OBP_FRAME_SIZE"

lemma obp_fixed_length: "length (obp_fixed f) = 11"
  by (simp add: obp_fixed_def put_u16_def)

lemma obp_args_size_Inr: "obp_args_size args l = Inr sz \<longleftrightarrow>
    list_all (\<lambda>a. length a \<le> MAX_OBP_ARGUMENT_SIZE) args \<and> sz = l + length (concat (map frame args)) \<and> (args = [] \<or> sz \<le> usize_max)"
proof (induction args arbitrary: l)
  case (Cons a args)
  have "obp_args_size (a # args) l = Inr sz \<longleftrightarrow> length a \<le> MAX_OBP_ARGUMENT_SIZE \<and> l + 4 + length a \<le> usize_max \<and>
      obp_args_size args (l + 4 + length a) = Inr sz"
    by (auto simp: and_then_Inr or_overflow_Inr bind_eq_Some_conv checked_add_def)
  with Cons.IH [of "l + 4 + length a"] show ?case by (auto simp: frame_length)
qed auto

lemma obp_encode_Inr: "obp_encode f buf = Inr out \<longleftrightarrow> obp_ok f \<and> out = buf @ obp_bytes f"
proof -
  have eq: "length (obp_bytes f) = 15 + length (concat (map frame (frame_args f))) + length (payload_bytes f)"
    by (simp add: obp_bytes_def obp_fixed_length frame_length)
  have fits: "n \<le> MAX_OBP_FRAME_SIZE \<Longrightarrow> n \<le> usize_max" for n by (simp add: MAX_OBP_FRAME_SIZE_def usize_max_def)
  show ?thesis
    using fits [of "length (obp_bytes f)"] unfolding eq
    by (auto simp: obp_encode_def and_then_Inr or_overflow_Inr obp_args_size_Inr checked_add_def Let_def obp_ok_def
        OBP_FIXED_HEADER_SIZE_def OBP_PAYLOAD_LENGTH_SIZE_def usize_max_def eq obp_bytes_def frame_def obp_fixed_length split: if_splits)
qed

lemma obp_decode_fixed:
  fixes f s
  defines "buf \<equiv> obp_fixed f @ s"
  assumes "length (frame_args f) \<le> MAX_OBP_ARGUMENTS"
  shows "obp_decode buf = (case validate_args buf (length (frame_args f)) 11 of
      Inl err \<Rightarrow> (Inl err, buf)
    | Inr None \<Rightarrow> (Inr None, buf)
    | Inr (Some offset) \<Rightarrow> (case decode_payload_end buf offset of
        Inl err \<Rightarrow> (Inl err, buf)
      | Inr None \<Rightarrow> (Inr None, buf)
      | Inr (Some (payload_length_end, payload_length)) \<Rightarrow>
          (case collect_args buf (length (frame_args f)) 11 of
            Inl err \<Rightarrow> (Inl err, buf)
          | Inr args \<Rightarrow>
              (Inr (Some \<lparr>frame_cmd = frame_cmd f, frame_flags = frame_flags f, correlation_id = correlation_id f, frame_args = args,
                  frame_payload = (if 0 < payload_length then Some (take payload_length (drop payload_length_end buf)) else None)\<rparr>),
               drop (payload_length_end + payload_length) buf))))"
proof -
  let ?n = "word_of_nat (length (frame_args f)) :: u16"
  have n: "unat ?n = length (frame_args f)"
    using assms(2) by (simp add: MAX_OBP_ARGUMENTS_def unsigned_of_nat take_bit_nat_eq_self)
  have b: "buf = OBP_MAGIC # OBP_VERSION # frame_cmd f # byte_of (drop_bit 8 (frame_flags f)) # byte_of (frame_flags f) #
      write_u32_be (correlation_id f) @ byte_of (drop_bit 8 ?n) # byte_of ?n # s"
    by (simp add: buf_def obp_fixed_def put_u16_def)
  have nth: "hd buf = OBP_MAGIC" "buf ! 1 = OBP_VERSION" "buf ! 2 = frame_cmd f"
    "u16_from_be_bytes (buf ! 3) (buf ! 4) = frame_flags f" "u16_from_be_bytes (buf ! 9) (buf ! 10) = ?n"
    by (simp_all add: b u16_bytes nth_append write_u32_be_def)
  have corr: "read_u32_be (drop 5 buf) = Some (correlation_id f, byte_of (drop_bit 8 ?n) # byte_of ?n # s)"
    by (simp add: b u32_bytes)
  have len: "\<not> length buf < OBP_FIXED_HEADER_SIZE" by (simp add: buf_def obp_fixed_length OBP_FIXED_HEADER_SIZE_def)
  have few: "\<not> MAX_OBP_ARGUMENTS < unat ?n" using assms(2) n by simp
  show ?thesis
    using len few unfolding obp_decode_def Let_def nth corr option.case prod.case n OBP_FIXED_HEADER_SIZE_def
    by (simp only: not_False_eq_True simp_thms if_False)
qed

text \<open>
  C25. OBP frames survive the wire in any segmentation. A frame that encodes is decoded again,
  field by field, from any buffer that starts with its bytes, and exactly those bytes are removed
  (a present but empty payload comes back as absent, the format has no difference); from a buffer
  that holds a proper prefix of it the decoder reports an incomplete frame and leaves the buffer
  untouched.
\<close>

theorem obp_frame_roundtrip:
  assumes "obp_encode f buf = Inr out"
  shows "\<exists>bs. out = buf @ bs \<and>
    (\<forall>rest. obp_decode (bs @ rest) =
       (Inr (Some (f\<lparr>frame_payload := (if payload_bytes f = [] then None else Some (payload_bytes f))\<rparr>)), rest)) \<and>
    (\<forall>s t. bs = s @ t \<and> t \<noteq> [] \<longrightarrow> obp_decode s = (Inr None, s))"
proof (intro exI [of _ "obp_bytes f"] conjI allI impI)
  from assms have ok: "obp_ok f" and out: "out = buf @ obp_bytes f" by (simp_all add: obp_encode_Inr)
  let ?fixed = "obp_fixed f" and ?args = "concat (map frame (frame_args f))" and ?p = "payload_bytes f"
  have n: "length (frame_args f) \<le> MAX_OBP_ARGUMENTS" using ok by (simp add: obp_ok_def)
  have a: "list_all (\<lambda>a. length a \<le> MAX_OBP_ARGUMENT_SIZE) (frame_args f)" using ok by (simp add: obp_ok_def)
  have p: "length ?p \<le> MAX_OBP_PAYLOAD_SIZE" using ok by (simp add: obp_ok_def)
  have total: "length (?fixed @ ?args) \<le> MAX_OBP_FRAME_SIZE" "length ((?fixed @ ?args) @ frame ?p) \<le> MAX_OBP_FRAME_SIZE"
    using ok by (simp_all add: obp_ok_def obp_bytes_def)
  show "out = buf @ obp_bytes f" by (rule out)
  show "obp_decode (obp_bytes f @ rest) =
      (Inr (Some (f\<lparr>frame_payload := (if ?p = [] then None else Some ?p)\<rparr>)), rest)" for rest
    using obp_decode_fixed [OF n, of "?args @ frame ?p @ rest"] validate_all [OF a total(1), of "frame ?p @ rest"]
      payload_end_full [OF p total(2), of rest]
    by (simp add: obp_fixed_length obp_bytes_def frame_def)
  show "obp_decode s = (Inr None, s)" if st: "obp_bytes f = s @ t \<and> t \<noteq> []" for s t
  proof (cases "length s < 11")
    case True
    obtain r where "obp_bytes f = OBP_MAGIC # OBP_VERSION # r" by (simp add: obp_bytes_def obp_fixed_def)
    with st have "s = [] \<or> hd s = OBP_MAGIC" "length s \<le> 1 \<or> s ! 1 = OBP_VERSION"
      by (auto simp: append_eq_Cons_conv Cons_eq_append_conv)
    with True show ?thesis by (auto simp: obp_decode_def OBP_FIXED_HEADER_SIZE_def)
  next
    case False
    then have st': "s @ t = ?fixed @ (?args @ frame ?p)" "\<not> length s < length ?fixed" using st
      by (simp_all add: obp_bytes_def obp_fixed_length)
    from split_long [OF this] obtain s1 where s1: "s = ?fixed @ s1" "s1 @ t = ?args @ frame ?p" by auto
    show ?thesis
    proof (cases "length s1 < length ?args")
      case True
      from split_short [OF s1(2) True] obtain t' where t': "s1 @ t' = ?args" "t' \<noteq> []" by auto
      from validate_cut [OF a total(1) t'] obp_decode_fixed [OF n, of s1] s1(1) show ?thesis
        by (simp add: obp_fixed_length)
    next
      case False
      from split_long [OF s1(2) False] obtain s2 where s2: "s1 = ?args @ s2" "s2 @ t = frame ?p" by auto
      from validate_all [OF a total(1), of s2] payload_end_short [OF p total(2) s2(2)] st
        obp_decode_fixed [OF n, of s1] s1(1) s2(1) show ?thesis
        by (simp add: obp_fixed_length)
    qed
  qed
qed

definition sample_frame :: obp_frame where
  "sample_frame = \<lparr>frame_cmd = CHR 0x02, frame_flags = 0, correlation_id = 7, frame_args = [''key'', ''v''], frame_payload = None\<rparr>"

theorem obp_frame_roundtrip_witness:
  "\<exists>bs. obp_encode sample_frame [] = Inr bs \<and> obp_decode (bs @ ''next'') = (Inr (Some sample_frame), ''next'')"
proof -
  have "obp_ok sample_frame"
    by (simp add: obp_ok_def sample_frame_def payload_bytes_def obp_bytes_def obp_fixed_length frame_length
        MAX_OBP_ARGUMENTS_def MAX_OBP_ARGUMENT_SIZE_def MAX_OBP_PAYLOAD_SIZE_def MAX_OBP_FRAME_SIZE_def)
  then have "obp_encode sample_frame [] = Inr (obp_bytes sample_frame)" by (simp add: obp_encode_Inr)
  moreover have "sample_frame\<lparr>frame_payload := (if payload_bytes sample_frame = [] then None
      else Some (payload_bytes sample_frame))\<rparr> = sample_frame"
    by (simp add: sample_frame_def payload_bytes_def)
  ultimately show ?thesis using obp_frame_roundtrip [of sample_frame "[]"] by auto
qed

end
