(* ===== verification/Obp_Session.thy ===== *)
theory Obp_Session
  imports Session_Laws Obp
begin

text \<open>
  The session of a client of the binary protocol: \<open>handle_obp_client\<close> and \<open>execute_obp_command\<close> of
  \<open>src/main.rs\<close>. The text of a value in a reply is the debug output of the value, which is a parameter.
\<close>

section \<open>Commands\<close>

definition obp_reply :: "obp_frame \<Rightarrow> bytes \<Rightarrow> obp_frame" where
  "obp_reply request payload = \<lparr>frame_cmd = CHR 0x00, frame_flags = 0, correlation_id = correlation_id request, frame_args = [], frame_payload = Some payload\<rparr>"

definition obp_credentials :: "bytes list \<Rightarrow> (bytes \<times> bytes) option" where
  "obp_credentials args = (case args of
      [] \<Rightarrow> None
    | [password] \<Rightarrow> if utf8_valid password then Some (''default'', password) else None
    | user # password # _ \<Rightarrow> if utf8_valid user \<and> utf8_valid password then Some (user, password) else None)"

definition obp_mutation_reply :: "(onyx_value \<Rightarrow> bytes) \<Rightarrow> obp_mutation_result presult \<Rightarrow> bytes" where
  "obp_mutation_reply debug r = (case r of
      Inr (ObpValue x) \<Rightarrow> debug x
    | Inr (ObpError m) \<Rightarrow> m
    | Inl e \<Rightarrow> misconf_message ''mutation'' e)"

definition obp_data_command :: "(onyx_value \<Rightarrow> bytes) \<Rightarrow> server_status \<Rightarrow> group_place \<Rightarrow> byte \<Rightarrow> bytes list \<Rightarrow> server \<Rightarrow> (bytes \<times> server) option" where
  "obp_data_command debug S g cmd args v =
     (if cmd = CHR 0x01 then (case args of
         key # _ \<Rightarrow> (case on_engine (engine_get (clock v) key) (live_data v) of (entry, st) \<Rightarrow>
           Some (debug (case entry of Some x \<Rightarrow> entry_value x | None \<Rightarrow> Blob []), v\<lparr>live_data := st\<rparr>))
       | [] \<Rightarrow> Some (debug (Blob []), v))
      else if cmd = CHR 0x02 then (case args of
         key # new_value # _ \<Rightarrow> map_option (apfst (obp_mutation_reply debug)) (coordinated obp_response S g (ObpSet key new_value) v)
       | _ \<Rightarrow> Some (debug (Blob ''ERR''), v))
      else if cmd = CHR 0x03 then (case args of
         key # _ \<Rightarrow> map_option (apfst (obp_mutation_reply debug)) (coordinated obp_response S g (ObpDelete key) v)
       | [] \<Rightarrow> Some (debug (IntV 0), v))
      else if cmd = CHR 0xF0 then Some (debug (Blob ''PONG''), v)
      else Some (debug (Blob ''ERR unknown command''), v))"

definition execute_obp_command :: "(onyx_value \<Rightarrow> bytes) \<Rightarrow> server_config \<Rightarrow> server_status \<Rightarrow> group_place \<Rightarrow> obp_frame \<Rightarrow> bool \<Rightarrow> bool \<Rightarrow> server \<Rightarrow>
    (obp_frame \<times> bool \<times> server) option" where
  "execute_obp_command debug C S g request auth replica_mode v = (let cmd = frame_cmd request; args = frame_args request in
     if cmd = CHR 0x10 then
       let ok = auth_required C \<and> (case obp_credentials args of Some (user, password) \<Rightarrow> check_credentials C user password | None \<Rightarrow> False)
       in Some (obp_reply request (if ok then ''OK'' else ''WRONGPASS''), auth \<or> ok, v)
     else if \<not> auth then Some (obp_reply request ''NOAUTH authentication required'', auth, v)
     else if replica_mode \<and> (cmd = CHR 0x02 \<or> cmd = CHR 0x03)
     then Some (obp_reply request ''READONLY this instance is a read-only replica'', auth, v)
     else map_option (\<lambda>(payload, v1). (obp_reply request payload, auth, v1)) (obp_data_command debug S g cmd args v))"

section \<open>The connection\<close>

definition OBP_READ_BUFFER :: nat where
  "OBP_READ_BUFFER = 8192"

record obp_client =
  obp_authenticated :: bool
  obp_buffer :: bytes
  obp_outgoing :: bytes

datatype obp_input = Bytes bytes | InputEnded | InputTimedOut | InputFailed

text \<open>Reading; \<open>None\<close> is the end of the connection.\<close>

definition obp_receive :: "obp_input \<Rightarrow> obp_client \<Rightarrow> obp_client option" where
  "obp_receive event c = (case event of
      Bytes bs \<Rightarrow>
        if bs = [] then None
        else if MAX_OBP_FRAME_SIZE + OBP_READ_BUFFER < sat_add (length (obp_buffer c)) (length bs) then None
        else Some (c\<lparr>obp_buffer := obp_buffer c @ bs\<rparr>)
    | _ \<Rightarrow> None)"

datatype obp_turn_end = NeedsInput | FrameAnswered | ObpClosed

text \<open>One turn of the loop over the frames in the buffer; \<open>written\<close> says whether the reply can be written.\<close>

definition obp_turn :: "(onyx_value \<Rightarrow> bytes) \<Rightarrow> server_config \<Rightarrow> server_status \<Rightarrow> group_place \<Rightarrow> bool \<Rightarrow> bool \<Rightarrow> obp_client \<Rightarrow> server \<Rightarrow>
    (obp_turn_end \<times> obp_client \<times> server) option" where
  "obp_turn debug C S g replica_mode written c v = (case obp_decode (obp_buffer c) of
      (Inl e, rest) \<Rightarrow> Some (ObpClosed, c\<lparr>obp_buffer := rest\<rparr>, v)
    | (Inr None, rest) \<Rightarrow> Some (NeedsInput, c\<lparr>obp_buffer := rest\<rparr>, v)
    | (Inr (Some request), rest) \<Rightarrow>
        (case execute_obp_command debug C S g request (obp_authenticated c) replica_mode v of
          None \<Rightarrow> None
        | Some (reply, auth, v1) \<Rightarrow> (let c1 = c\<lparr>obp_buffer := rest, obp_authenticated := auth\<rparr> in
            case obp_encode reply [] of
              Inl e \<Rightarrow> Some (ObpClosed, c1, v1)
            | Inr out \<Rightarrow> if written then Some (FrameAnswered, c1\<lparr>obp_outgoing := obp_outgoing c @ out\<rparr>, v1) else Some (ObpClosed, c1, v1))))"

section \<open>What a frame can do\<close>

lemma obp_data_unchanged:
  assumes "obp_data_command debug S g cmd args v = Some (payload, v')" and "cmd \<noteq> CHR 0x02" and "cmd \<noteq> CHR 0x03" and "store_wf (live_data v)"
  shows "unchanged v v'"
proof -
  have same: "unchanged v v" using assms(4) by (simp add: unchanged_def)
  have get: "unchanged v (v\<lparr>live_data := snd (on_engine (engine_get (clock v) key) (live_data v))\<rparr>)" for key
    using get_agrees [OF assms(4), of "clock v"] get_agrees [OF assms(4) order_refl] by (simp add: unchanged_def)
  show ?thesis
  proof (cases "cmd = CHR 0x01")
    case True
    with assms(1) same get show ?thesis by (cases args) (auto simp: obp_data_command_def case_prod_beta)
  next
    case False
    with assms(1-3) have "v' = v" by (auto simp: obp_data_command_def split: if_splits)
    with same show ?thesis by simp
  qed
qed

lemma obp_data_run:
  assumes "obp_data_command debug S g cmd args v = Some (payload, v')" and "\<not> fail_stop_started (pers v)" and "in_order g v" and "sound_group v v'"
  shows "(server_step Z)\<^sup>*\<^sup>* v v'"
proof -
  have get: "(server_step Z)\<^sup>*\<^sup>* v (v\<lparr>live_data := snd (on_engine (engine_get (clock v) key) (live_data v))\<rparr>)" for key
    using server_step.fetch [OF assms(2), of Z key] by blast
  have commit: "(server_step Z)\<^sup>*\<^sup>* v v'" if "coordinated obp_response S g operation v = Some (r, v')" for r operation
    using coordinated_run [OF that assms(2-4)] .
  show ?thesis
  proof (cases "cmd = CHR 0x01")
    case True
    with assms(1) get show ?thesis by (cases args) (auto simp: obp_data_command_def case_prod_beta)
  next
    case False
    with assms(1) commit show ?thesis by (auto simp: obp_data_command_def split: if_splits list.splits)
  qed
qed

lemma obp_command_cases:
  assumes "execute_obp_command debug C S g request auth replica_mode v = Some (reply, auth', v')"
  obtains payload where "reply = obp_reply request payload" "v' = v"
      "auth' = auth \<or> (\<exists>user password. frame_cmd request = CHR 0x10 \<and> obp_credentials (frame_args request) = Some (user, password) \<and> check_credentials C user password)"
  | payload where "reply = obp_reply request payload" "auth" "auth'" "obp_data_command debug S g (frame_cmd request) (frame_args request) v = Some (payload, v')"
      "replica_mode \<Longrightarrow> frame_cmd request \<noteq> CHR 0x02 \<and> frame_cmd request \<noteq> CHR 0x03"
  using assms by (auto simp: execute_obp_command_def Let_def split: if_splits option.splits)

section \<open>Properties\<close>


definition sample_get :: obp_frame where
  "sample_get = \<lparr>frame_cmd = CHR 0x01, frame_flags = 0, correlation_id = 42, frame_args = [''k''], frame_payload = None\<rparr>"


end
