(* ===== verification/Spec2Isabelle.thy ===== *)
theory Spec2Isabelle
  imports Glob Replication Obp_Session
begin

text \<open>
  Verification of OnyxDB, an in-memory key-value server.

  The program keeps its data in a sharded engine (\<open>src/engine.rs\<close>), gives typed commands on
  top of it (\<open>src/store.rs\<close>), and makes mutations durable and replicated as batches of
  committed effects (\<open>src/persistence\<close>).
\<close>

end
